(* ===== verification/KPrelude.thy ===== *)
theory KPrelude
  imports Main "HOL-Library.Word"
begin

text \<open>
  Shared vocabulary of the development: the C integer conversions the kernel sources
  use, a bounds-checked model of memory copies, the intrusive doubly linked list
  operations of rtservice.h read as operations on lists of node identities, and the
  generic lemmas on lists and wrapped indices that every component uses.
\<close>

named_theorems cconv \<comment> \<open>rules for the C integer conversions\<close>
named_theorems ring_simps \<comment> \<open>rules for wrapped buffer indices\<close>
named_theorems klist \<comment> \<open>rules for kernel lists\<close>

type_synonym u8 = "8 word"
type_synonym u16 = "16 word"
type_synonym u32 = "32 word"

section \<open>Integer conversions\<close>

text \<open>Assignment to an unsigned object of w bits keeps the low w bits.\<close>

definition trunc_u :: "nat \<Rightarrow> int \<Rightarrow> nat" where
  "trunc_u w i = nat (i mod 2 ^ w)"

lemma trunc_u_small [cconv]: "0 \<le> i \<Longrightarrow> i < 2 ^ w \<Longrightarrow> trunc_u w i = nat i"
  by (simp add: trunc_u_def)

lemma trunc_u_of_nat [cconv]: "n < 2 ^ w \<Longrightarrow> trunc_u w (int n) = n"
  by (simp add: trunc_u_def)

lemma trunc_u_bound: "trunc_u w i < 2 ^ w"
  by (simp add: trunc_u_def nat_less_iff)

text \<open>\<open>RT_ALIGN_DOWN(size, align)\<close> and \<open>RT_ALIGN(size, align)\<close> for the power-of-two
  alignment 4 of the configuration (\<open>RT_ALIGN_SIZE\<close>).\<close>

definition RT_ALIGN_SIZE :: nat where
  "RT_ALIGN_SIZE = 4"

definition rt_align_down :: "nat \<Rightarrow> nat" where
  "rt_align_down n = n - n mod RT_ALIGN_SIZE"

definition rt_align :: "nat \<Rightarrow> nat" where
  "rt_align n = rt_align_down (n + RT_ALIGN_SIZE - 1)"

lemma rt_align_down_le: "rt_align_down n \<le> n"
  by (simp add: rt_align_down_def)

lemma rt_align_down_dvd: "RT_ALIGN_SIZE dvd rt_align_down n"
  unfolding rt_align_down_def RT_ALIGN_SIZE_def by (rule dvd_minus_mod)

lemma rt_align_ge: "n \<le> rt_align n"
  unfolding rt_align_def rt_align_down_def RT_ALIGN_SIZE_def by arith

lemma rt_align_dvd: "RT_ALIGN_SIZE dvd rt_align n"
  by (simp add: rt_align_def rt_align_down_dvd)

lemma rt_align_lt: "rt_align n < n + RT_ALIGN_SIZE"
  by (simp add: rt_align_def rt_align_down_def RT_ALIGN_SIZE_def)

section \<open>Memory\<close>

text \<open>
  A block of memory is a list of cells; every access names its offset. An access outside
  the block is undefined behaviour in C and \<open>None\<close> here, so that absence of such
  accesses is something the theorems state and prove. Offsets and counts are the
  \<open>int\<close>s the code computes.
\<close>

definition mem_read :: "'a list \<Rightarrow> int \<Rightarrow> 'a option" where
  "mem_read b i = (if 0 \<le> i \<and> nat i < length b then Some (b ! nat i) else None)"

definition mem_write :: "'a list \<Rightarrow> int \<Rightarrow> 'a \<Rightarrow> 'a list option" where
  "mem_write b i x = (if 0 \<le> i \<and> nat i < length b then Some (b[nat i := x]) else None)"

definition memcpy :: "'a list \<Rightarrow> int \<Rightarrow> 'a list \<Rightarrow> int \<Rightarrow> int \<Rightarrow> 'a list option" where
  "memcpy dst doff src soff n =
     (if 0 \<le> n \<and> 0 \<le> doff \<and> 0 \<le> soff \<and>
         nat doff + nat n \<le> length dst \<and> nat soff + nat n \<le> length src
      then Some (take (nat doff) dst @ take (nat n) (drop (nat soff) src)
                   @ drop (nat doff + nat n) dst)
      else None)"

lemma mem_read_ok [simp]: "i < length b \<Longrightarrow> mem_read b (int i) = Some (b ! i)"
  by (simp add: mem_read_def)

lemma mem_write_ok [simp]: "i < length b \<Longrightarrow> mem_write b (int i) x = Some (b[i := x])"
  by (simp add: mem_write_def)

lemma memcpy_ok:
  "d + n \<le> length dst \<Longrightarrow> s + n \<le> length src \<Longrightarrow>
   memcpy dst (int d) src (int s) (int n) =
     Some (take d dst @ take n (drop s src) @ drop (d + n) dst)"
  by (simp add: memcpy_def)

lemma memcpy_length: "memcpy dst d src s n = Some dst' \<Longrightarrow> length dst' = length dst"
  by (auto simp: memcpy_def split: if_splits)

section \<open>Kernel lists\<close>

text \<open>
  An intrusive list is the list of the identities of its nodes after the head.
  \<open>rt_list_insert_before(head, n)\<close> appends, \<open>rt_list_insert_after(head, n)\<close> pushes,
  \<open>rt_list_remove(n)\<close> unlinks \<open>n\<close>.
\<close>

definition insert_tail :: "'a \<Rightarrow> 'a list \<Rightarrow> 'a list" where
  "insert_tail x xs = xs @ [x]"

definition insert_head :: "'a \<Rightarrow> 'a list \<Rightarrow> 'a list" where
  "insert_head x xs = x # xs"

lemma set_insert_tail [klist, simp]: "set (insert_tail x xs) = insert x (set xs)"
  by (auto simp: insert_tail_def)

lemma set_insert_head [klist, simp]: "set (insert_head x xs) = insert x (set xs)"
  by (auto simp: insert_head_def)

lemma distinct_insert_tail [klist, simp]:
  "distinct (insert_tail x xs) \<longleftrightarrow> x \<notin> set xs \<and> distinct xs"
  by (auto simp: insert_tail_def)

lemma distinct_insert_head [klist, simp]:
  "distinct (insert_head x xs) \<longleftrightarrow> x \<notin> set xs \<and> distinct xs"
  by (simp add: insert_head_def)

lemma insert_tail_not_Nil [simp]: "insert_tail x xs \<noteq> []"
  by (simp add: insert_tail_def)

lemma filter_neq_idle [klist]: "x \<notin> set xs \<Longrightarrow> filter (\<lambda>y. y \<noteq> x) xs = xs"
  by (induction xs) auto

lemma filter_neq_hd [klist]:
  "distinct (x # xs) \<Longrightarrow> filter (\<lambda>y. y \<noteq> x) (x # xs) = xs"
  by (simp add: filter_neq_idle)

end
