(* ===== verification/Fifo.thy ===== *)
theory Fifo
  imports KPrelude
begin

text \<open>
  Bounded first-in first-out buffers: how a queue lies in a circular array (used by the
  byte ring buffer, the mailbox and the data queue), and the interface every kernel FIFO
  offers its clients, with what a client can conclude about a whole run of operations.
\<close>

section \<open>A queue laid out in a circular array\<close>

definition ring_read :: "'a list \<Rightarrow> nat \<Rightarrow> nat \<Rightarrow> 'a list" where
  "ring_read b s n = map (\<lambda>i. b ! ((s + i) mod length b)) [0..<n]"

definition ring_put :: "'a list \<Rightarrow> nat \<Rightarrow> 'a list \<Rightarrow> 'a list" where
  "ring_put b w xs =
     map (\<lambda>j. let k = (if w \<le> j then j - w else j + length b - w)
               in if k < length xs then xs ! k else b ! j) [0..<length b]"

lemma mod_wrap [ring_simps]:
  "(w::nat) < L \<Longrightarrow> i < L \<Longrightarrow> (w + i) mod L = (if w + i < L then w + i else w + i - L)"
  by (auto simp: mod_if)

lemma length_ring_read [simp]: "length (ring_read b s n) = n"
  by (simp add: ring_read_def)

lemma nth_ring_read: "i < n \<Longrightarrow> ring_read b s n ! i = b ! ((s + i) mod length b)"
  by (simp add: ring_read_def)

lemma length_ring_put [simp]: "length (ring_put b w xs) = length b"
  by (simp add: ring_put_def)

lemma ring_read_0 [simp]: "ring_read b s 0 = []"
  by (simp add: ring_read_def)

lemma ring_read_mod: "ring_read b (s mod length b) n = ring_read b s n"
  by (simp add: ring_read_def mod_add_left_eq)

lemma ring_read_append:
  "ring_read b s (m + n) = ring_read b s m @ ring_read b (s + m) n"
  by (rule nth_equalityI) (auto simp: nth_ring_read nth_append add.assoc)

lemma ring_read_Suc:
  "ring_read b s (Suc n) = (b ! (s mod length b)) # ring_read b (Suc s) n"
  using ring_read_append [of b s 1 n] by (simp add: ring_read_def)

lemma nth_ring_put:
  assumes "w < length b" and "i < length b"
  shows "ring_put b w xs ! ((w + i) mod length b) =
           (if i < length xs then xs ! i else b ! ((w + i) mod length b))"
proof (cases "w + i < length b")
  case True
  then show ?thesis by (simp add: ring_put_def)
next
  case False
  then have "(w + i) mod length b = w + i - length b" using assms by (simp add: mod_wrap)
  moreover have "w + i - length b + length b - w = i" "\<not> w \<le> w + i - length b"
    "w + i - length b < length b" using False assms by auto
  ultimately show ?thesis by (simp add: ring_put_def)
qed

text \<open>What was written is read back, and what lies before it is untouched.\<close>

lemma ring_read_put_same:
  assumes "w < length b" and "length xs \<le> length b"
  shows "ring_read (ring_put b w xs) w (length xs) = xs"
proof (rule nth_equalityI)
  fix i assume "i < length (ring_read (ring_put b w xs) w (length xs))"
  then show "ring_read (ring_put b w xs) w (length xs) ! i = xs ! i"
    using assms nth_ring_put [of w b i xs] by (simp add: nth_ring_read)
qed simp

lemma ring_read_put_before:
  assumes s: "s < length b" and n: "n + length xs \<le> length b"
  shows "ring_read (ring_put b ((s + n) mod length b) xs) s n = ring_read b s n"
proof (rule nth_equalityI)
  fix i assume "i < length (ring_read (ring_put b ((s + n) mod length b) xs) s n)"
  then have i: "i < n" by simp
  let ?L = "length b"
  have L: "0 < ?L" using s by linarith
  define k where "k = ?L - n + i"
  have k: "k < ?L" "length xs \<le> k" using i n by (auto simp: k_def)
  have "((s + n) mod ?L + k) mod ?L = (s + n + k) mod ?L" by (simp add: mod_add_left_eq)
  also have "s + n + k = s + i + ?L" using n i by (simp add: k_def)
  finally have eq: "((s + n) mod ?L + k) mod ?L = (s + i) mod ?L" by simp
  have w: "(s + n) mod ?L < ?L" using L by (rule mod_less_divisor)
  show "ring_read (ring_put b ((s + n) mod ?L) xs) s n ! i = ring_read b s n ! i"
    using nth_ring_put [OF w k(1), of xs] k i by (simp add: eq nth_ring_read)
qed simp

lemma ring_read_put_end:
  assumes "s < length b" and "n + length xs \<le> length b"
  shows "ring_read (ring_put b ((s + n) mod length b) xs) s (n + length xs) =
           ring_read b s n @ xs"
proof -
  let ?b = "ring_put b ((s + n) mod length b) xs"
  have "ring_read ?b (s + n) (length xs) = ring_read ?b ((s + n) mod length b) (length xs)"
    using ring_read_mod [of ?b "s + n"] by simp
  also have "\<dots> = xs"
  proof (cases "length b = 0")
    case True with assms show ?thesis by simp
  next
    case False with assms show ?thesis
      using ring_read_put_same [of "(s + n) mod length b" b xs] by simp
  qed
  finally show ?thesis using assms by (simp add: ring_read_append ring_read_put_before)
qed

text \<open>The two ways C writes a run of cells: in one piece, or split at the end.\<close>

lemma ring_put_one_piece:
  assumes "w + length xs \<le> length b" and "w < length b"
  shows "ring_put b w xs = take w b @ xs @ drop (w + length xs) b"
proof (rule nth_equalityI)
  fix j assume "j < length (ring_put b w xs)"
  then have j: "j < length b" by simp
  consider "j < w" | "w \<le> j" "j - w < length xs" | "w \<le> j" "\<not> j - w < length xs" by linarith
  then show "ring_put b w xs ! j = (take w b @ xs @ drop (w + length xs) b) ! j"
  proof cases
    case 1
    then have "\<not> j + length b - w < length xs" using assms by linarith
    with 1 j assms show ?thesis by (simp add: ring_put_def nth_append)
  next
    case 2
    with j assms show ?thesis by (simp add: ring_put_def nth_append)
  next
    case 3
    with j assms show ?thesis by (simp add: ring_put_def nth_append)
  qed
qed (use assms in simp)

lemma ring_put_two_pieces:
  assumes "w < length b" and "length b - w \<le> length xs" and "length xs \<le> length b"
  shows "ring_put b w xs =
           drop (length b - w) xs @ drop (length xs - (length b - w)) (take w b)
             @ take (length b - w) xs"
proof (rule nth_equalityI)
  fix j assume "j < length (ring_put b w xs)"
  then have j: "j < length b" by simp
  consider "w \<le> j" | "j < w" "j < length xs - (length b - w)"
    | "j < w" "\<not> j < length xs - (length b - w)" by linarith
  then show "ring_put b w xs ! j =
      (drop (length b - w) xs @ drop (length xs - (length b - w)) (take w b)
        @ take (length b - w) xs) ! j"
  proof cases
    case 1
    have "(drop (length b - w) xs @ drop (length xs - (length b - w)) (take w b)) = 
      drop (length b - w) xs @ drop (length xs - (length b - w)) (take w b)" ..
    moreover have "length (drop (length b - w) xs @ drop (length xs - (length b - w)) (take w b)) = w"
      using assms by simp
    ultimately have "(drop (length b - w) xs @ drop (length xs - (length b - w)) (take w b)
        @ take (length b - w) xs) ! j = take (length b - w) xs ! (j - w)"
      using 1 by (metis append.assoc nth_append not_less)
    moreover have "j - w < length xs" "j - w < length b - w" using 1 j assms by linarith+
    ultimately show ?thesis using 1 j by (simp add: ring_put_def)
  next
    case 2
    then have "\<not> w \<le> j" "j + length b - w < length xs" "length b - w + j = j + length b - w"
      using assms by linarith+
    with 2 j show ?thesis by (simp add: ring_put_def nth_append)
  next
    case 3
    let ?m = "length xs - (length b - w)"
    have "\<not> w \<le> j" "\<not> j + length b - w < length xs" "?m + (j - ?m) = j" "j - ?m < w - ?m"
      "\<not> j < length xs + w - length b" "\<not> j < w + length xs - length b"
      using 3 assms j by linarith+
    moreover have "length (drop ?m (take w b)) = w - ?m" using assms by simp
    ultimately show ?thesis using 3 j assms by (simp add: ring_put_def nth_append)
  qed
qed (use assms in simp)

lemma ring_put_single: "w < length b \<Longrightarrow> ring_put b w [x] = b[w := x]"
  by (simp add: ring_put_one_piece upd_conv_take_nth_drop)

lemma ring_read_one_piece:
  "s + n \<le> length b \<Longrightarrow> ring_read b s n = take n (drop s b)"
  by (rule nth_equalityI) (auto simp: nth_ring_read)

lemma ring_read_two_pieces:
  assumes "s < length b" and "length b - s \<le> n" and "n \<le> length b"
  shows "ring_read b s n = drop s b @ take (n - (length b - s)) b"
proof (rule nth_equalityI)
  fix i assume "i < length (ring_read b s n)"
  then have i: "i < n" by simp
  show "ring_read b s n ! i = (drop s b @ take (n - (length b - s)) b) ! i"
  proof (cases "i < length b - s")
    case True
    then have "s + i < length b" by linarith
    with True i show ?thesis by (simp add: nth_ring_read nth_append)
  next
    case False
    then have "(s + i) mod length b = i - (length b - s)" "i - (length b - s) < n - (length b - s)"
      using i assms by (simp_all add: mod_wrap, linarith+)
    with False i show ?thesis by (simp add: nth_ring_read nth_append)
  qed
qed (use assms in simp)

section \<open>The interface of a bounded FIFO\<close>

text \<open>
  \<open>enq\<close> either refuses (\<open>None\<close>, the buffer is full) or appends; \<open>deq\<close> either
  refuses (\<open>None\<close>, the buffer is empty) or takes the oldest element.
\<close>

locale bounded_fifo =
  fixes inv :: "'s \<Rightarrow> bool"
    and content :: "'s \<Rightarrow> 'a list"
    and cap :: "'s \<Rightarrow> nat"
    and enq :: "'s \<Rightarrow> 'a \<Rightarrow> 's option"
    and deq :: "'s \<Rightarrow> ('a \<times> 's) option"
  assumes content_le_cap: "inv s \<Longrightarrow> length (content s) \<le> cap s"
    and enq_full: "inv s \<Longrightarrow> enq s x = None \<longleftrightarrow> length (content s) = cap s"
    and enq_some: "inv s \<Longrightarrow> enq s x = Some s' \<Longrightarrow>
           inv s' \<and> cap s' = cap s \<and> content s' = content s @ [x]"
    and deq_empty: "inv s \<Longrightarrow> deq s = None \<longleftrightarrow> content s = []"
    and deq_some: "inv s \<Longrightarrow> deq s = Some (x, s') \<Longrightarrow>
           inv s' \<and> cap s' = cap s \<and> content s = x # content s'"
begin

text \<open>
  A producer and a consumer share the buffer: \<open>Some x\<close> asks to enqueue \<open>x\<close>,
  \<open>None\<close> asks to dequeue. The run records what was accepted and what was delivered.
\<close>

primrec run :: "'a option list \<Rightarrow> 's \<Rightarrow> 'a list \<times> 'a list \<times> 's" where
  "run [] s = ([], [], s)"
| "run (c # cs) s =
     (case c of
        Some x \<Rightarrow> (case enq s x of
                     None \<Rightarrow> run cs s
                   | Some s' \<Rightarrow> (case run cs s' of (i, out, t) \<Rightarrow> (x # i, out, t)))
      | None \<Rightarrow> (case deq s of
                   None \<Rightarrow> run cs s
                 | Some (y, s') \<Rightarrow> (case run cs s' of (i, out, t) \<Rightarrow> (i, y # out, t))))"

lemma run_fifo:
  "inv s \<Longrightarrow> run cs s = (i, out, t) \<Longrightarrow>
     inv t \<and> cap t = cap s \<and> out @ content t = content s @ i"
proof (induction cs arbitrary: s i out t)
  case Nil
  then show ?case by simp
next
  case (Cons c cs)
  show ?case
  proof (cases c)
    case None
    show ?thesis
    proof (cases "deq s")
      case None
      with \<open>c = None\<close> Cons show ?thesis by simp
    next
      case (Some p)
      then obtain y s' where d: "deq s = Some (y, s')" by (cases p) auto
      with Cons.prems(1) have s': "inv s'" "cap s' = cap s" "content s = y # content s'"
        by (auto dest: deq_some)
      obtain i' out' t' where r: "run cs s' = (i', out', t')" by (cases "run cs s'") auto
      with Cons.prems(2) d \<open>c = None\<close> have "i = i'" "out = y # out'" "t = t'" by auto
      with Cons.IH [OF s'(1) r] s' show ?thesis by simp
    qed
  next
    case (Some x)
    show ?thesis
    proof (cases "enq s x")
      case None
      with \<open>c = Some x\<close> Cons show ?thesis by simp
    next
      case (Some s')
      with Cons.prems(1) have s': "inv s'" "cap s' = cap s" "content s' = content s @ [x]"
        by (auto dest: enq_some)
      obtain i' out' t' where r: "run cs s' = (i', out', t')" by (cases "run cs s'") auto
      with Cons.prems(2) Some \<open>c = Some x\<close> have "i = x # i'" "out = out'" "t = t'" by auto
      with Cons.IH [OF s'(1) r] s' show ?thesis by simp
    qed
  qed
qed

lemma fifo_order:
  assumes "inv s" and "content s = []" and "run cs s = (i, out, t)"
  shows "out = take (length out) i"
  using run_fifo [OF assms(1,3)] assms(2) by (metis append_Nil append_eq_conv_conj)

lemma enq_deq_when_empty:
  assumes "inv s" and "content s = []" and "enq s x = Some s'"
  shows "\<exists>t. deq s' = Some (x, t) \<and> content t = []"
proof -
  from assms have s': "inv s'" "content s' = [x]" by (auto dest: enq_some)
  then obtain y t where d: "deq s' = Some (y, t)" using deq_empty [of s'] by (cases "deq s'") auto
  with s' show ?thesis by (auto dest: deq_some)
qed

end

end
