(* ===== verification/RingBuffer.thy ===== *)
theory RingBuffer
  imports Fifo "HOL-Library.Monad_Syntax"
begin

text \<open>
  The byte ring buffer of components/drivers/src/ringbuffer.c (structure and macro
  \<open>rt_ringbuffer_space_len\<close> in components/drivers/include/ipc/ringbuffer.h). A one-bit
  mirror flag beside each 15-bit index tells the full buffer from the empty one. Every
  operation returns the C result with the new buffer; \<open>None\<close> stands for a failed
  assertion or an access outside a memory block.
\<close>

section \<open>State\<close>

record rt_ringbuffer =
  rb_buffer_ptr :: "u8 list"
  rb_read_mirror :: bool
  rb_read_index :: nat
  rb_write_mirror :: bool
  rb_write_index :: nat
  rb_buffer_size :: int

datatype rt_ringbuffer_state =
  RT_RINGBUFFER_EMPTY | RT_RINGBUFFER_FULL | RT_RINGBUFFER_HALFFULL

section \<open>Operations\<close>

definition rt_ringbuffer_status :: "rt_ringbuffer \<Rightarrow> rt_ringbuffer_state" where
  "rt_ringbuffer_status rb =
     (if rb_read_index rb = rb_write_index rb
      then (if rb_read_mirror rb = rb_write_mirror rb
            then RT_RINGBUFFER_EMPTY else RT_RINGBUFFER_FULL)
      else RT_RINGBUFFER_HALFFULL)"

definition rt_ringbuffer_data_len :: "rt_ringbuffer \<Rightarrow> nat" where
  "rt_ringbuffer_data_len rb =
     (case rt_ringbuffer_status rb of
        RT_RINGBUFFER_EMPTY \<Rightarrow> 0
      | RT_RINGBUFFER_FULL \<Rightarrow> trunc_u 32 (rb_buffer_size rb)
      | RT_RINGBUFFER_HALFFULL \<Rightarrow>
          (if rb_write_index rb > rb_read_index rb
           then trunc_u 32 (int (rb_write_index rb) - int (rb_read_index rb))
           else trunc_u 32 (rb_buffer_size rb
                  - (int (rb_read_index rb) - int (rb_write_index rb)))))"

definition rt_ringbuffer_space_len :: "rt_ringbuffer \<Rightarrow> nat" where
  "rt_ringbuffer_space_len rb =
     trunc_u 32 (rb_buffer_size rb - int (rt_ringbuffer_data_len rb))"

definition rt_ringbuffer_init :: "u8 list \<Rightarrow> int \<Rightarrow> rt_ringbuffer option" where
  "rt_ringbuffer_init pool sz =
     (if sz > 0
      then Some \<lparr>rb_buffer_ptr = pool,
                 rb_read_mirror = False, rb_read_index = 0,
                 rb_write_mirror = False, rb_write_index = 0,
                 rb_buffer_size = int (rt_align_down (nat sz))\<rparr>
      else None)"

definition rt_ringbuffer_put ::
  "rt_ringbuffer \<Rightarrow> u8 list \<Rightarrow> nat \<Rightarrow> (nat \<times> rt_ringbuffer) option" where
  "rt_ringbuffer_put rb ptr len0 =
     (let size = trunc_u 16 (int (rt_ringbuffer_space_len rb)) in
      if size = 0 then Some (0, rb)
      else
        let len = (if size < len0 then size else len0);
            room = rb_buffer_size rb - int (rb_write_index rb) in
        if room > int len
        then do {
          b \<leftarrow> memcpy (rb_buffer_ptr rb) (int (rb_write_index rb)) ptr 0 (int len);
          Some (len, rb\<lparr>rb_buffer_ptr := b,
                        rb_write_index := trunc_u 15 (int (rb_write_index rb) + int len)\<rparr>)
        }
        else do {
          b1 \<leftarrow> memcpy (rb_buffer_ptr rb) (int (rb_write_index rb)) ptr 0 room;
          b2 \<leftarrow> memcpy b1 0 ptr room (int len - room);
          Some (len, rb\<lparr>rb_buffer_ptr := b2,
                        rb_write_mirror := \<not> rb_write_mirror rb,
                        rb_write_index := trunc_u 15 (int len - room)\<rparr>)
        })"

text \<open>The caller's pointer moves when more than a whole buffer is offered: \<open>off\<close>.\<close>

definition rt_ringbuffer_put_force ::
  "rt_ringbuffer \<Rightarrow> u8 list \<Rightarrow> nat \<Rightarrow> (nat \<times> rt_ringbuffer) option" where
  "rt_ringbuffer_put_force rb ptr len0 =
     (let space_length = trunc_u 16 (int (rt_ringbuffer_space_len rb));
          over = int len0 > rb_buffer_size rb;
          off = (if over then int len0 - rb_buffer_size rb else 0);
          len = (if over then trunc_u 16 (rb_buffer_size rb) else len0);
          room = rb_buffer_size rb - int (rb_write_index rb) in
      if room > int len
      then do {
        b \<leftarrow> memcpy (rb_buffer_ptr rb) (int (rb_write_index rb)) ptr off (int len);
        let wi = trunc_u 15 (int (rb_write_index rb) + int len);
        Some (len, rb\<lparr>rb_buffer_ptr := b,
                      rb_write_index := wi,
                      rb_read_index := (if len > space_length then wi else rb_read_index rb)\<rparr>)
      }
      else do {
        b1 \<leftarrow> memcpy (rb_buffer_ptr rb) (int (rb_write_index rb)) ptr off room;
        b2 \<leftarrow> memcpy b1 0 ptr (off + room) (int len - room);
        let wi = trunc_u 15 (int len - room);
        Some (len, rb\<lparr>rb_buffer_ptr := b2,
                      rb_write_mirror := \<not> rb_write_mirror rb,
                      rb_write_index := wi,
                      rb_read_mirror := (if len > space_length then \<not> rb_read_mirror rb
                                         else rb_read_mirror rb),
                      rb_read_index := (if len > space_length then wi
                                        else rb_read_index rb)\<rparr>)
      })"

text \<open>\<open>ptr\<close> is the caller's destination block; it is returned with the copied bytes.\<close>

definition rt_ringbuffer_get ::
  "rt_ringbuffer \<Rightarrow> u8 list \<Rightarrow> nat \<Rightarrow> (nat \<times> u8 list \<times> rt_ringbuffer) option" where
  "rt_ringbuffer_get rb ptr len0 =
     (let size = rt_ringbuffer_data_len rb in
      if size = 0 then Some (0, ptr, rb)
      else
        let len = (if size < len0 then trunc_u 16 (int size) else len0);
            room = rb_buffer_size rb - int (rb_read_index rb) in
        if room > int len
        then do {
          p \<leftarrow> memcpy ptr 0 (rb_buffer_ptr rb) (int (rb_read_index rb)) (int len);
          Some (len, p, rb\<lparr>rb_read_index := trunc_u 15 (int (rb_read_index rb) + int len)\<rparr>)
        }
        else do {
          p1 \<leftarrow> memcpy ptr 0 (rb_buffer_ptr rb) (int (rb_read_index rb)) room;
          p2 \<leftarrow> memcpy p1 room (rb_buffer_ptr rb) 0 (int len - room);
          Some (len, p2, rb\<lparr>rb_read_mirror := \<not> rb_read_mirror rb,
                            rb_read_index := trunc_u 15 (int len - room)\<rparr>)
        })"

definition rt_ringbuffer_putchar ::
  "rt_ringbuffer \<Rightarrow> u8 \<Rightarrow> (nat \<times> rt_ringbuffer) option" where
  "rt_ringbuffer_putchar rb ch =
     (if rt_ringbuffer_space_len rb = 0 then Some (0, rb)
      else do {
        b \<leftarrow> mem_write (rb_buffer_ptr rb) (int (rb_write_index rb)) ch;
        Some (1, if int (rb_write_index rb) = rb_buffer_size rb - 1
                 then rb\<lparr>rb_buffer_ptr := b,
                         rb_write_mirror := \<not> rb_write_mirror rb, rb_write_index := 0\<rparr>
                 else rb\<lparr>rb_buffer_ptr := b,
                         rb_write_index := trunc_u 15 (int (rb_write_index rb) + 1)\<rparr>)
      })"

definition rt_ringbuffer_putchar_force ::
  "rt_ringbuffer \<Rightarrow> u8 \<Rightarrow> (nat \<times> rt_ringbuffer) option" where
  "rt_ringbuffer_putchar_force rb ch =
     (let old_state = rt_ringbuffer_status rb in do {
        b \<leftarrow> mem_write (rb_buffer_ptr rb) (int (rb_write_index rb)) ch;
        Some (1, if int (rb_write_index rb) = rb_buffer_size rb - 1
                 then let rb1 = rb\<lparr>rb_buffer_ptr := b,
                         rb_write_mirror := \<not> rb_write_mirror rb, rb_write_index := 0\<rparr>
                      in (if old_state = RT_RINGBUFFER_FULL
                          then rb1\<lparr>rb_read_mirror := \<not> rb_read_mirror rb1,
                                   rb_read_index := rb_write_index rb1\<rparr>
                          else rb1)
                 else let rb1 = rb\<lparr>rb_buffer_ptr := b,
                         rb_write_index := trunc_u 15 (int (rb_write_index rb) + 1)\<rparr>
                      in (if old_state = RT_RINGBUFFER_FULL
                          then rb1\<lparr>rb_read_index := rb_write_index rb1\<rparr> else rb1))
      })"

text \<open>The character read is \<open>None\<close> when the function returns 0 and leaves \<open>*ch\<close> alone.\<close>

definition rt_ringbuffer_getchar ::
  "rt_ringbuffer \<Rightarrow> (nat \<times> u8 option \<times> rt_ringbuffer) option" where
  "rt_ringbuffer_getchar rb =
     (if rt_ringbuffer_data_len rb = 0 then Some (0, None, rb)
      else do {
        ch \<leftarrow> mem_read (rb_buffer_ptr rb) (int (rb_read_index rb));
        Some (1, Some ch,
              if int (rb_read_index rb) = rb_buffer_size rb - 1
              then rb\<lparr>rb_read_mirror := \<not> rb_read_mirror rb, rb_read_index := 0\<rparr>
              else rb\<lparr>rb_read_index := trunc_u 15 (int (rb_read_index rb) + 1)\<rparr>)
      })"

definition rt_ringbuffer_reset :: "rt_ringbuffer \<Rightarrow> rt_ringbuffer" where
  "rt_ringbuffer_reset rb =
     rb\<lparr>rb_read_mirror := False, rb_read_index := 0,
        rb_write_mirror := False, rb_write_index := 0\<rparr>"

definition rt_ringbuffer_get_size :: "rt_ringbuffer \<Rightarrow> nat" where
  "rt_ringbuffer_get_size rb = trunc_u 16 (rb_buffer_size rb)"

section \<open>Invariant and abstraction\<close>

text \<open>
  The size fits the memory block and the 15-bit indices; equal mirrors mean the writer
  is at or past the reader, different mirrors that it has wrapped and not passed it.
\<close>

definition rb_inv :: "rt_ringbuffer \<Rightarrow> bool" where
  "rb_inv rb \<longleftrightarrow>
     rb_buffer_size rb = int (length (rb_buffer_ptr rb)) \<and>
     0 < length (rb_buffer_ptr rb) \<and> length (rb_buffer_ptr rb) < 2 ^ 15 \<and>
     rb_read_index rb < length (rb_buffer_ptr rb) \<and>
     rb_write_index rb < length (rb_buffer_ptr rb) \<and>
     (if rb_read_mirror rb = rb_write_mirror rb
      then rb_read_index rb \<le> rb_write_index rb
      else rb_write_index rb \<le> rb_read_index rb)"

definition rb_cap :: "rt_ringbuffer \<Rightarrow> nat" where
  "rb_cap rb = length (rb_buffer_ptr rb)"

definition rb_used :: "rt_ringbuffer \<Rightarrow> nat" where
  "rb_used rb = (if rb_read_mirror rb = rb_write_mirror rb
                 then rb_write_index rb - rb_read_index rb
                 else rb_cap rb + rb_write_index rb - rb_read_index rb)"

definition rb_data :: "rt_ringbuffer \<Rightarrow> u8 list" where
  "rb_data rb = ring_read (rb_buffer_ptr rb) (rb_read_index rb) (rb_used rb)"


lemma rb_used_le: "rb_inv rb \<Longrightarrow> rb_used rb \<le> rb_cap rb"
  by (auto simp: rb_inv_def rb_used_def rb_cap_def)

lemma length_rb_data [simp]: "length (rb_data rb) = rb_used rb"
  by (simp add: rb_data_def)

lemma rb_write_index_eq:
  "rb_inv rb \<Longrightarrow> rb_write_index rb = (rb_read_index rb + rb_used rb) mod rb_cap rb"
  by (auto simp: rb_inv_def rb_used_def rb_cap_def mod_if)

lemma data_len_eq: "rb_inv rb \<Longrightarrow> rt_ringbuffer_data_len rb = rb_used rb"
  by (auto simp: rt_ringbuffer_data_len_def rt_ringbuffer_status_def rb_inv_def rb_used_def
      rb_cap_def trunc_u_small split: if_splits)

lemma space_len_eq: "rb_inv rb \<Longrightarrow> rt_ringbuffer_space_len rb = rb_cap rb - rb_used rb"
  using rb_used_le [of rb]
  by (auto simp: rt_ringbuffer_space_len_def data_len_eq trunc_u_small rb_inv_def rb_cap_def)

lemma status_full: "rb_inv rb \<Longrightarrow> rt_ringbuffer_status rb = RT_RINGBUFFER_FULL \<longleftrightarrow> rb_used rb = rb_cap rb"
  by (auto simp: rt_ringbuffer_status_def rb_inv_def rb_used_def rb_cap_def split: if_splits)

lemma rb_invD:
  assumes "rb_inv rb"
  shows "rb_buffer_size rb = int (rb_cap rb)" "0 < rb_cap rb" "rb_cap rb < 2 ^ 15"
    "rb_read_index rb < rb_cap rb" "rb_write_index rb < rb_cap rb"
    "length (rb_buffer_ptr rb) = rb_cap rb"
  using assms by (auto simp: rb_inv_def rb_cap_def)

lemma rb_inv_cap:
  "rb_inv rb \<longleftrightarrow>
     rb_buffer_size rb = int (rb_cap rb) \<and> 0 < rb_cap rb \<and> rb_cap rb < 2 ^ 15 \<and>
     rb_read_index rb < rb_cap rb \<and> rb_write_index rb < rb_cap rb \<and>
     (if rb_read_mirror rb = rb_write_mirror rb
      then rb_read_index rb \<le> rb_write_index rb
      else rb_write_index rb \<le> rb_read_index rb)"
  by (simp add: rb_inv_def rb_cap_def)

text \<open>
  Advancing the write index by \<open>n\<close> cells, and the read index, in terms of the abstraction.
\<close>

definition rb_write_adv :: "rt_ringbuffer \<Rightarrow> nat \<Rightarrow> u8 list \<Rightarrow> rt_ringbuffer \<Rightarrow> bool" where
  "rb_write_adv rb n b rb' \<longleftrightarrow>
     rb' = rb\<lparr>rb_buffer_ptr := b,
              rb_write_mirror := (if rb_write_index rb + n < rb_cap rb then rb_write_mirror rb
                                  else \<not> rb_write_mirror rb),
              rb_write_index := (if rb_write_index rb + n < rb_cap rb then rb_write_index rb + n
                                 else rb_write_index rb + n - rb_cap rb)\<rparr>"

definition rb_read_adv :: "rt_ringbuffer \<Rightarrow> nat \<Rightarrow> rt_ringbuffer \<Rightarrow> bool" where
  "rb_read_adv rb n rb' \<longleftrightarrow>
     rb' = rb\<lparr>rb_read_mirror := (if rb_read_index rb + n < rb_cap rb then rb_read_mirror rb
                                 else \<not> rb_read_mirror rb),
              rb_read_index := (if rb_read_index rb + n < rb_cap rb then rb_read_index rb + n
                                else rb_read_index rb + n - rb_cap rb)\<rparr>"

lemma rb_write_adv_used:
  assumes "rb_inv rb" "n \<le> rb_cap rb - rb_used rb" "length b = rb_cap rb" "rb_write_adv rb n b rb'"
  shows "rb_inv rb'" "rb_cap rb' = rb_cap rb" "rb_used rb' = rb_used rb + n"
    "rb_read_index rb' = rb_read_index rb" "rb_buffer_ptr rb' = b"
  using assms
  by (auto simp: rb_inv_def rb_used_def rb_cap_def rb_write_adv_def split: if_splits)

lemma rb_write_adv_data:
  assumes "rb_inv rb" "length xs \<le> rb_cap rb - rb_used rb"
    "rb_write_adv rb (length xs) (ring_put (rb_buffer_ptr rb) (rb_write_index rb) xs) rb'"
  shows "rb_inv rb'" "rb_cap rb' = rb_cap rb" "rb_data rb' = rb_data rb @ xs"
proof -
  note D = rb_invD [OF assms(1)]
  have len: "length (ring_put (rb_buffer_ptr rb) (rb_write_index rb) xs) = rb_cap rb"
    using D by simp
  note U = rb_write_adv_used [OF assms(1,2) len assms(3)]
  show "rb_inv rb'" "rb_cap rb' = rb_cap rb" using U by simp_all
  have "rb_used rb + length xs \<le> length (rb_buffer_ptr rb)"
    using assms(2) D rb_used_le [OF assms(1)] by simp
  moreover have "rb_read_index rb < length (rb_buffer_ptr rb)" using D by simp
  ultimately have "ring_read (ring_put (rb_buffer_ptr rb) (rb_write_index rb) xs)
      (rb_read_index rb) (rb_used rb + length xs) = rb_data rb @ xs"
    using rb_write_index_eq [OF assms(1)] D
      ring_read_put_end [of "rb_read_index rb" "rb_buffer_ptr rb" "rb_used rb" xs]
    by (simp add: rb_data_def)
  then show "rb_data rb' = rb_data rb @ xs" using U by (simp add: rb_data_def)
qed

lemma rb_read_adv_data:
  assumes "rb_inv rb" "n \<le> rb_used rb" "rb_read_adv rb n rb'"
  shows "rb_inv rb'" "rb_cap rb' = rb_cap rb" "rb_data rb' = drop n (rb_data rb)"
proof -
  show inv: "rb_inv rb'" and cap: "rb_cap rb' = rb_cap rb" using assms
    by (auto simp: rb_inv_def rb_used_def rb_cap_def rb_read_adv_def split: if_splits)
  have used: "rb_used rb' = rb_used rb - n" and ptr: "rb_buffer_ptr rb' = rb_buffer_ptr rb"
    using assms by (auto simp: rb_inv_def rb_used_def rb_cap_def rb_read_adv_def split: if_splits)
  have "rb_read_index rb' = (rb_read_index rb + n) mod rb_cap rb"
    using assms rb_used_le [OF assms(1)] rb_invD [OF assms(1)]
    by (auto simp: rb_read_adv_def mod_if)
  then have "ring_read (rb_buffer_ptr rb) (rb_read_index rb') (rb_used rb - n) =
      ring_read (rb_buffer_ptr rb) (rb_read_index rb + n) (rb_used rb - n)"
    using ring_read_mod [of "rb_buffer_ptr rb"] rb_invD(6) [OF assms(1)] by metis
  moreover have "rb_data rb = ring_read (rb_buffer_ptr rb) (rb_read_index rb) n @
      ring_read (rb_buffer_ptr rb) (rb_read_index rb + n) (rb_used rb - n)"
    using assms(2) ring_read_append [of "rb_buffer_ptr rb" "rb_read_index rb" n "rb_used rb - n"]
    by (simp add: rb_data_def)
  ultimately show "rb_data rb' = drop n (rb_data rb)" using used ptr by (simp add: rb_data_def)
qed

section \<open>What the operations do\<close>

lemma memcpy_put_one:
  assumes "w + n \<le> length b" "w < length b" "off + n \<le> length p"
  shows "memcpy b (int w) p (int off) (int n) = Some (ring_put b w (take n (drop off p)))"
  using assms by (simp add: memcpy_ok ring_put_one_piece)

lemma memcpy_put_two:
  assumes "w < length b" "length b - w \<le> n" "n \<le> length b" "off + n \<le> length p"
  shows "do { b1 \<leftarrow> memcpy b (int w) p (int off) (int (length b) - int w);
              memcpy b1 0 p (int off + (int (length b) - int w)) (int n - (int (length b) - int w)) }
           = Some (ring_put b w (take n (drop off p)))"
proof -
  let ?r = "length b - w"
  have i: "int (length b) - int w = int ?r" using assms by simp
  have 1: "memcpy b (int w) p (int off) (int ?r) = Some (take w b @ take ?r (drop off p))"
    using assms by (subst memcpy_ok) auto
  have 2: "memcpy (take w b @ take ?r (drop off p)) (int 0) p (int (off + ?r)) (int (n - ?r)) =
      Some (take (n - ?r) (drop (off + ?r) p) @ drop (n - ?r) (take w b @ take ?r (drop off p)))"
    using assms by (subst memcpy_ok) auto
  have 3: "ring_put b w (take n (drop off p)) =
      drop ?r (take n (drop off p)) @ drop (n - ?r) (take w b) @ take ?r (take n (drop off p))"
    using assms ring_put_two_pieces [of w b "take n (drop off p)"] by simp
  have "int n - int ?r = int (n - ?r)" "int off + int ?r = int (off + ?r)" using assms by simp_all
  with 1 2 3 assms show ?thesis
    by (simp add: i drop_take add.commute del: of_nat_diff)
qed


lemma rt_ringbuffer_put_spec:
  assumes "rb_inv rb" and "len0 \<le> length ptr"
  defines "k \<equiv> min len0 (rb_cap rb - rb_used rb)"
  obtains rb' where "rt_ringbuffer_put rb ptr len0 = Some (k, rb')" "rb_inv rb'"
    "rb_cap rb' = rb_cap rb" "rb_data rb' = rb_data rb @ take k ptr"
proof -
  note D = rb_invD [OF assms(1)]
  have sz: "trunc_u 16 (int (rt_ringbuffer_space_len rb)) = rb_cap rb - rb_used rb"
    using assms(1) D by (simp add: space_len_eq trunc_u_small)
  show ?thesis
  proof (cases "rb_cap rb - rb_used rb = 0")
    case True
    then have "rt_ringbuffer_put rb ptr len0 = Some (k, rb)"
      by (simp add: rt_ringbuffer_put_def sz k_def)
    with True assms(1) that show ?thesis by (simp add: k_def)
  next
    case False
    have kk: "(if rb_cap rb - rb_used rb < len0 then rb_cap rb - rb_used rb else len0) = k"
      by (simp add: k_def min_def)
    have kle: "k \<le> rb_cap rb - rb_used rb" "k \<le> length ptr" "k \<le> rb_cap rb"
      using assms(2) by (auto simp: k_def)
    let ?b = "ring_put (rb_buffer_ptr rb) (rb_write_index rb) (take k ptr)"
    let ?rb = "rb\<lparr>rb_buffer_ptr := ?b,
              rb_write_mirror := (if rb_write_index rb + k < rb_cap rb then rb_write_mirror rb
                                  else \<not> rb_write_mirror rb),
              rb_write_index := (if rb_write_index rb + k < rb_cap rb then rb_write_index rb + k
                                 else rb_write_index rb + k - rb_cap rb)\<rparr>"
    have adv: "rb_write_adv rb (length (take k ptr)) ?b ?rb"
      using kle by (simp add: rb_write_adv_def)
    note R = rb_write_adv_data [OF assms(1) _ adv]
    have put: "rt_ringbuffer_put rb ptr len0 = Some (k, ?rb)"
    proof (cases "rb_write_index rb + k < rb_cap rb")
      case True
      then have "memcpy (rb_buffer_ptr rb) (int (rb_write_index rb)) ptr 0 (int k) = Some ?b"
        using memcpy_put_one [of "rb_write_index rb" k "rb_buffer_ptr rb" 0 ptr] kle D by simp
      with True False D show ?thesis
        by (simp add: rt_ringbuffer_put_def sz kk Let_def trunc_u_small nat_add_distrib)
    next
      case wrap: False
      have "do { b1 \<leftarrow> memcpy (rb_buffer_ptr rb) (int (rb_write_index rb)) ptr 0
                       (rb_buffer_size rb - int (rb_write_index rb));
                 memcpy b1 0 ptr (rb_buffer_size rb - int (rb_write_index rb))
                   (int k - (rb_buffer_size rb - int (rb_write_index rb))) } = Some ?b"
        using memcpy_put_two [of "rb_write_index rb" "rb_buffer_ptr rb" k 0 ptr] wrap kle D by simp
      moreover have "\<not> rb_buffer_size rb - int (rb_write_index rb) > int k" using wrap D by simp
      moreover have "trunc_u 15 (int k - (rb_buffer_size rb - int (rb_write_index rb))) =
          rb_write_index rb + k - rb_cap rb" using wrap D kle by (subst trunc_u_small) auto
      ultimately show ?thesis using wrap False
        by (auto simp: rt_ringbuffer_put_def sz kk Let_def Option.bind_eq_Some_conv)
    qed
    show ?thesis using that [OF put] R kle by simp
  qed
qed

lemma rt_ringbuffer_get_spec:
  assumes "rb_inv rb" and "len0 \<le> length ptr" and "len0 < 2 ^ 16"
  defines "k \<equiv> min len0 (rb_used rb)"
  obtains rb' where
    "rt_ringbuffer_get rb ptr len0 = Some (k, take k (rb_data rb) @ drop k ptr, rb')"
    "rb_inv rb'" "rb_cap rb' = rb_cap rb" "rb_data rb' = drop k (rb_data rb)"
proof (cases "rb_used rb = 0")
  case True
  then have "rt_ringbuffer_get rb ptr len0 = Some (k, ptr, rb)"
    using assms(1) by (simp add: rt_ringbuffer_get_def data_len_eq k_def)
  with True assms(1) that show ?thesis by (simp add: k_def)
next
  case False
  note D = rb_invD [OF assms(1)]
  have U: "rb_used rb \<le> rb_cap rb" using assms(1) by (rule rb_used_le)
  have kk: "(if rb_used rb < len0 then trunc_u 16 (int (rb_used rb)) else len0) = k"
    using U D by (simp add: k_def min_def trunc_u_small)
  have kle: "k \<le> rb_used rb" "k \<le> length ptr" "k \<le> rb_cap rb" using assms(2) U by (auto simp: k_def)
  let ?rb = "rb\<lparr>rb_read_mirror := (if rb_read_index rb + k < rb_cap rb then rb_read_mirror rb
                                 else \<not> rb_read_mirror rb),
              rb_read_index := (if rb_read_index rb + k < rb_cap rb then rb_read_index rb + k
                                else rb_read_index rb + k - rb_cap rb)\<rparr>"
  have adv: "rb_read_adv rb k ?rb" by (simp add: rb_read_adv_def)
  note R = rb_read_adv_data [OF assms(1) kle(1) adv]
  have tk: "take k (rb_data rb) = ring_read (rb_buffer_ptr rb) (rb_read_index rb) k"
    using ring_read_append [of "rb_buffer_ptr rb" "rb_read_index rb" k "rb_used rb - k"] kle
    by (simp add: rb_data_def)
  have get: "rt_ringbuffer_get rb ptr len0 = Some (k, take k (rb_data rb) @ drop k ptr, ?rb)"
  proof (cases "rb_read_index rb + k < rb_cap rb")
    case True
    then have "memcpy ptr (int 0) (rb_buffer_ptr rb) (int (rb_read_index rb)) (int k) =
        Some (take k (rb_data rb) @ drop k ptr)"
      using kle D by (subst memcpy_ok) (auto simp: tk ring_read_one_piece)
    with True False D assms(1) show ?thesis
      by (simp add: rt_ringbuffer_get_def data_len_eq kk Let_def trunc_u_small nat_add_distrib)
  next
    case wrap: False
    let ?r = "rb_cap rb - rb_read_index rb"
    have i: "rb_buffer_size rb - int (rb_read_index rb) = int ?r" "int k - int ?r = int (k - ?r)"
      using wrap D by simp_all
    have 1: "memcpy ptr (int 0) (rb_buffer_ptr rb) (int (rb_read_index rb)) (int ?r) =
        Some (drop (rb_read_index rb) (rb_buffer_ptr rb) @ drop ?r ptr)"
      using wrap kle D by (subst memcpy_ok) auto
    have 2: "memcpy (drop (rb_read_index rb) (rb_buffer_ptr rb) @ drop ?r ptr) (int ?r)
        (rb_buffer_ptr rb) (int 0) (int (k - ?r)) =
        Some (take k (rb_data rb) @ drop k ptr)"
      using wrap kle D by (subst memcpy_ok) (auto simp: tk ring_read_two_pieces)
    have "trunc_u 15 (int k - int ?r) = rb_read_index rb + k - rb_cap rb"
      using wrap D kle by (subst trunc_u_small) auto
    moreover have "\<not> int k < int ?r" using wrap by simp
    ultimately show ?thesis using 1 2 wrap False assms(1)
      by (simp add: rt_ringbuffer_get_def data_len_eq kk Let_def i del: of_nat_diff)
  qed
  show ?thesis using that [OF get] R by simp
qed


lemma rt_ringbuffer_putchar_spec:
  assumes "rb_inv rb"
  shows "rb_used rb = rb_cap rb \<Longrightarrow> rt_ringbuffer_putchar rb ch = Some (0, rb)"
    and "rb_used rb < rb_cap rb \<Longrightarrow> \<exists>rb'. rt_ringbuffer_putchar rb ch = Some (1, rb') \<and>
           rb_inv rb' \<and> rb_cap rb' = rb_cap rb \<and> rb_data rb' = rb_data rb @ [ch]"
proof -
  note D = rb_invD [OF assms]
  show "rb_used rb = rb_cap rb \<Longrightarrow> rt_ringbuffer_putchar rb ch = Some (0, rb)"
    using assms by (simp add: rt_ringbuffer_putchar_def space_len_eq)
  assume free: "rb_used rb < rb_cap rb"
  let ?b = "ring_put (rb_buffer_ptr rb) (rb_write_index rb) [ch]"
  let ?rb = "rb\<lparr>rb_buffer_ptr := ?b,
              rb_write_mirror := (if rb_write_index rb + 1 < rb_cap rb then rb_write_mirror rb
                                  else \<not> rb_write_mirror rb),
              rb_write_index := (if rb_write_index rb + 1 < rb_cap rb then rb_write_index rb + 1
                                 else rb_write_index rb + 1 - rb_cap rb)\<rparr>"
  have adv: "rb_write_adv rb (length [ch]) ?b ?rb" by (simp add: rb_write_adv_def)
  note R = rb_write_adv_data [OF assms _ adv]
  have "?b = (rb_buffer_ptr rb)[rb_write_index rb := ch]" using D by (simp add: ring_put_single)
  then have "rt_ringbuffer_putchar rb ch = Some (1, ?rb)"
    using free assms D
    by (auto simp: rt_ringbuffer_putchar_def space_len_eq trunc_u_small nat_add_distrib)
  then show "\<exists>rb'. rt_ringbuffer_putchar rb ch = Some (1, rb') \<and> rb_inv rb' \<and>
      rb_cap rb' = rb_cap rb \<and> rb_data rb' = rb_data rb @ [ch]"
    using R free by simp
qed

lemma rb_data_hd: "rb_inv rb \<Longrightarrow> 0 < rb_used rb \<Longrightarrow>
    rb_data rb = rb_buffer_ptr rb ! rb_read_index rb # tl (rb_data rb)"
  using rb_invD [of rb]
  by (cases "rb_used rb") (simp_all add: rb_data_def ring_read_Suc)

lemma rt_ringbuffer_getchar_spec:
  assumes "rb_inv rb"
  shows "rb_data rb = [] \<Longrightarrow> rt_ringbuffer_getchar rb = Some (0, None, rb)"
    and "rb_data rb = c # cs \<Longrightarrow> \<exists>rb'. rt_ringbuffer_getchar rb = Some (1, Some c, rb') \<and>
           rb_inv rb' \<and> rb_cap rb' = rb_cap rb \<and> rb_data rb' = cs"
proof -
  note D = rb_invD [OF assms]
  have len: "length (rb_data rb) = rb_used rb" by simp
  show "rb_data rb = [] \<Longrightarrow> rt_ringbuffer_getchar rb = Some (0, None, rb)"
    using assms len by (simp add: rt_ringbuffer_getchar_def data_len_eq del: length_rb_data)
  assume d: "rb_data rb = c # cs"
  then have u: "0 < rb_used rb" using len by simp
  let ?rb = "rb\<lparr>rb_read_mirror := (if rb_read_index rb + 1 < rb_cap rb then rb_read_mirror rb
                                 else \<not> rb_read_mirror rb),
              rb_read_index := (if rb_read_index rb + 1 < rb_cap rb then rb_read_index rb + 1
                                else rb_read_index rb + 1 - rb_cap rb)\<rparr>"
  have adv: "rb_read_adv rb 1 ?rb" by (simp add: rb_read_adv_def)
  have R: "rb_inv ?rb" "rb_cap ?rb = rb_cap rb" "rb_data ?rb = drop 1 (rb_data rb)"
    using rb_read_adv_data [OF assms _ adv] u by simp_all
  have "c = rb_buffer_ptr rb ! rb_read_index rb" using rb_data_hd [OF assms u] d by simp
  then have "rt_ringbuffer_getchar rb = Some (1, Some c, ?rb)"
    using u assms D
    by (auto simp: rt_ringbuffer_getchar_def data_len_eq trunc_u_small nat_add_distrib)
  then show "\<exists>rb'. rt_ringbuffer_getchar rb = Some (1, Some c, rb') \<and>
           rb_inv rb' \<and> rb_cap rb' = rb_cap rb \<and> rb_data rb' = cs"
    using R d by simp
qed

section \<open>Overwriting writes\<close>

text \<open>
  A buffer just made full by overwriting: the reader sits on the writer. What is left is
  the newest \<open>rb_cap\<close> bytes of everything written.
\<close>

lemma overwrite_data:
  assumes inv: "rb_inv rb" and n: "length xs \<le> rb_cap rb" and ov: "rb_cap rb - rb_used rb \<le> length xs"
  shows "ring_read (ring_put (rb_buffer_ptr rb) (rb_write_index rb) xs)
           ((rb_write_index rb + length xs) mod rb_cap rb) (rb_cap rb) =
         drop (rb_used rb + length xs - rb_cap rb) (rb_data rb @ xs)"
proof -
  note D = rb_invD [OF inv]
  let ?b = "rb_buffer_ptr rb" and ?w = "rb_write_index rb" and ?L = "rb_cap rb"
  let ?m = "?L - length xs" and ?b' = "ring_put (rb_buffer_ptr rb) (rb_write_index rb) xs"
  let ?s = "(?w + length xs) mod ?L"
  have sm: "(?s + ?m) mod ?L = ?w"
  proof -
    have "(?s + ?m) mod ?L = (?w + length xs + ?m) mod ?L" by (simp add: mod_add_left_eq)
    also have "\<dots> = (?w + ?L) mod ?L" using n by (simp add: add.assoc)
    finally show ?thesis using D by simp
  qed
  have s: "?s < length ?b" using D by simp
  have split: "ring_read ?b' ?s ?L = ring_read ?b' ?s ?m @ ring_read ?b' (?s + ?m) (length xs)"
    using n ring_read_append [of ?b' ?s ?m "length xs"] by simp
  have old: "ring_read ?b' ?s ?m = ring_read ?b ?s ?m"
    using ring_read_put_before [OF s, of ?m xs] n D sm by simp
  have new: "ring_read ?b' (?s + ?m) (length xs) = xs"
    using ring_read_mod [of ?b' "?s + ?m" "length xs"] sm ring_read_put_same [of ?w ?b xs] D n by simp
  have um: "?m \<le> rb_used rb" using ov by linarith
  have start: "(rb_read_index rb + (rb_used rb - ?m)) mod ?L = ?s"
  proof -
    have "rb_read_index rb + (rb_used rb - ?m) + ?L = rb_read_index rb + rb_used rb + length xs"
      using um n by linarith
    then have "(rb_read_index rb + (rb_used rb - ?m)) mod ?L =
        (rb_read_index rb + rb_used rb + length xs) mod ?L"
      by (metis mod_add_self2)
    also have "\<dots> = ?s" using rb_write_index_eq [OF inv] by (simp add: mod_add_left_eq)
    finally show ?thesis .
  qed
  have "rb_data rb = ring_read ?b (rb_read_index rb) (rb_used rb - ?m)
      @ ring_read ?b (rb_read_index rb + (rb_used rb - ?m)) ?m"
    using ring_read_append [of ?b "rb_read_index rb" "rb_used rb - ?m" ?m] um
    by (simp add: rb_data_def)
  moreover have "ring_read ?b (rb_read_index rb + (rb_used rb - ?m)) ?m = ring_read ?b ?s ?m"
    using ring_read_mod [of ?b "rb_read_index rb + (rb_used rb - ?m)" ?m] start D by simp
  ultimately have "drop (rb_used rb - ?m) (rb_data rb) = ring_read ?b ?s ?m" by simp
  then have "drop (rb_used rb - ?m) (rb_data rb @ xs) = ring_read ?b ?s ?m @ xs" by simp
  moreover have "rb_used rb + length xs - ?L = rb_used rb - ?m" using n by linarith
  ultimately show ?thesis by (simp only: split old new)
qed

lemma rt_ringbuffer_putchar_force_spec:
  assumes "rb_inv rb"
  shows "\<exists>rb'. rt_ringbuffer_putchar_force rb ch = Some (1, rb') \<and> rb_inv rb' \<and>
           rb_cap rb' = rb_cap rb \<and>
           rb_data rb' = drop (rb_used rb + 1 - rb_cap rb) (rb_data rb @ [ch])"
proof (cases "rb_used rb = rb_cap rb")
  case False
  then have f: "rb_used rb < rb_cap rb" using rb_used_le [OF assms] by simp
  then have "rt_ringbuffer_status rb \<noteq> RT_RINGBUFFER_FULL" using assms by (simp add: status_full)
  then have "rt_ringbuffer_putchar_force rb ch = rt_ringbuffer_putchar rb ch"
    using assms f
    by (simp add: rt_ringbuffer_putchar_force_def rt_ringbuffer_putchar_def space_len_eq Let_def
        cong: if_cong)
  with rt_ringbuffer_putchar_spec(2) [OF assms f, of ch] f show ?thesis by simp
next
  case True
  note D = rb_invD [OF assms]
  have st: "rt_ringbuffer_status rb = RT_RINGBUFFER_FULL" using True assms by (simp add: status_full)
  then have eq: "rb_read_index rb = rb_write_index rb" "rb_read_mirror rb \<noteq> rb_write_mirror rb"
    by (auto simp: rt_ringbuffer_status_def split: if_splits)
  let ?w = "(rb_write_index rb + 1) mod rb_cap rb"
  let ?b = "(rb_buffer_ptr rb)[rb_write_index rb := ch]"
  obtain rb' where r: "rt_ringbuffer_putchar_force rb ch = Some (1, rb')"
    and rb': "rb_buffer_ptr rb' = ?b" "rb_read_index rb' = ?w" "rb_write_index rb' = ?w"
      "rb_read_mirror rb' \<noteq> rb_write_mirror rb'" "rb_buffer_size rb' = rb_buffer_size rb"
  proof (cases "rb_write_index rb + 1 < rb_cap rb")
    case True
    with D eq show ?thesis
      by (intro that [of "rb\<lparr>rb_buffer_ptr := ?b, rb_write_index := rb_write_index rb + 1,
            rb_read_index := rb_write_index rb + 1\<rparr>"])
         (auto simp: rt_ringbuffer_putchar_force_def st Let_def trunc_u_small nat_add_distrib)
  next
    case False
    then have w: "rb_write_index rb + 1 = rb_cap rb" using D by simp
    then have "rb_buffer_size rb = int (rb_write_index rb) + 1" "?w = 0"
      "mem_write (rb_buffer_ptr rb) (int (rb_write_index rb)) ch = Some ?b" using D by simp_all
    with eq show ?thesis
      by (intro that [of "rb\<lparr>rb_buffer_ptr := ?b, rb_write_index := 0, rb_read_index := 0,
            rb_write_mirror := \<not> rb_write_mirror rb, rb_read_mirror := \<not> rb_read_mirror rb\<rparr>"])
         (simp_all add: rt_ringbuffer_putchar_force_def st Let_def)
  qed
  have c: "rb_cap rb' = rb_cap rb" using rb'(1) by (simp add: rb_cap_def)
  have w: "?w < rb_cap rb" using D by simp
  have i: "rb_inv rb'" using rb' w c D by (simp add: rb_inv_cap)
  have u: "rb_used rb' = rb_cap rb" using rb' c by (simp add: rb_used_def)
  have p: "?b = ring_put (rb_buffer_ptr rb) (rb_write_index rb) [ch]"
    using D by (simp add: ring_put_single)
  have "rb_data rb' = ring_read (ring_put (rb_buffer_ptr rb) (rb_write_index rb) [ch])
      ((rb_write_index rb + length [ch]) mod rb_cap rb) (rb_cap rb)"
    unfolding rb_data_def u rb'(1,2) p by simp
  also have "\<dots> = drop (rb_used rb + length [ch] - rb_cap rb) (rb_data rb @ [ch])"
    using True D by (intro overwrite_data [OF assms]) simp_all
  finally have "rb_data rb' = drop (rb_used rb + 1 - rb_cap rb) (rb_data rb @ [ch])" by simp
  with r c i show ?thesis by blast
qed


text \<open>The common shape of \<open>rt_ringbuffer_put_force\<close>, whichever way the copy is split.\<close>

definition put_force_len :: "rt_ringbuffer \<Rightarrow> nat \<Rightarrow> nat" where
  "put_force_len rb len0 = min len0 (rb_cap rb)"

definition put_force_bytes :: "rt_ringbuffer \<Rightarrow> u8 list \<Rightarrow> nat \<Rightarrow> u8 list" where
  "put_force_bytes rb ptr len0 = take (put_force_len rb len0) (drop (len0 - rb_cap rb) ptr)"

definition put_force_wraps :: "rt_ringbuffer \<Rightarrow> nat \<Rightarrow> bool" where
  "put_force_wraps rb len0 \<longleftrightarrow> rb_cap rb \<le> rb_write_index rb + put_force_len rb len0"

definition put_force_overruns :: "rt_ringbuffer \<Rightarrow> nat \<Rightarrow> bool" where
  "put_force_overruns rb len0 \<longleftrightarrow> rb_cap rb - rb_used rb < put_force_len rb len0"

lemma length_put_force_bytes [simp]:
  "len0 \<le> length ptr \<Longrightarrow> length (put_force_bytes rb ptr len0) = put_force_len rb len0"
  by (auto simp: put_force_bytes_def put_force_len_def)

lemma put_force_shape:
  assumes inv: "rb_inv rb" and len: "len0 \<le> length ptr"
  shows "\<exists>rb1. rb_write_adv rb (put_force_len rb len0)
            (ring_put (rb_buffer_ptr rb) (rb_write_index rb) (put_force_bytes rb ptr len0)) rb1 \<and>
          rt_ringbuffer_put_force rb ptr len0 = Some (put_force_len rb len0,
            if put_force_overruns rb len0
            then rb1\<lparr>rb_read_index := rb_write_index rb1,
                     rb_read_mirror := (if put_force_wraps rb len0 then \<not> rb_read_mirror rb
                                        else rb_read_mirror rb)\<rparr>
            else rb1)"
proof -
  note D = rb_invD [OF inv]
  let ?k = "put_force_len rb len0" and ?off = "len0 - rb_cap rb" and ?w = "rb_write_index rb"
  let ?b = "ring_put (rb_buffer_ptr rb) ?w (put_force_bytes rb ptr len0)"
  let ?rb1 = "rb\<lparr>rb_buffer_ptr := ?b,
              rb_write_mirror := (if ?w + ?k < rb_cap rb then rb_write_mirror rb
                                  else \<not> rb_write_mirror rb),
              rb_write_index := (if ?w + ?k < rb_cap rb then ?w + ?k else ?w + ?k - rb_cap rb)\<rparr>"
  have adv: "rb_write_adv rb ?k ?b ?rb1" by (simp add: rb_write_adv_def)
  have sp: "trunc_u 16 (int (rt_ringbuffer_space_len rb)) = rb_cap rb - rb_used rb"
    using inv D by (simp add: space_len_eq trunc_u_small)
  have off: "(if int len0 > rb_buffer_size rb then int len0 - rb_buffer_size rb else 0) = int ?off"
    using D by simp
  have k: "(if int len0 > rb_buffer_size rb then trunc_u 16 (rb_buffer_size rb) else len0) = ?k"
    using D by (simp add: put_force_len_def trunc_u_small)
  have kle: "?k \<le> rb_cap rb" "?off + ?k \<le> length ptr" using len by (auto simp: put_force_len_def)
  have ovr: "rb_cap rb - rb_used rb < ?k \<longleftrightarrow> put_force_overruns rb len0"
    by (simp add: put_force_overruns_def)
  show ?thesis
  proof (cases "put_force_wraps rb len0")
    case False
    then have w: "?w + ?k < rb_cap rb" by (simp add: put_force_wraps_def)
    have m: "memcpy (rb_buffer_ptr rb) (int ?w) ptr (int ?off) (int ?k) = Some ?b"
      using memcpy_put_one [of ?w ?k "rb_buffer_ptr rb" ?off ptr] w kle D
      by (simp add: put_force_bytes_def del: of_nat_diff)
    have t: "trunc_u 15 (int ?w + int ?k) = ?w + ?k" using w D by (simp add: trunc_u_small nat_add_distrib)
    have r: "rb_buffer_size rb - int ?w > int ?k" using w D by simp
    have "rt_ringbuffer_put_force rb ptr len0 = Some (?k,
        if put_force_overruns rb len0 then ?rb1\<lparr>rb_read_index := rb_write_index ?rb1\<rparr> else ?rb1)"
      unfolding rt_ringbuffer_put_force_def Let_def sp off k ovr using m r w t by simp
    with adv False show ?thesis by (intro exI [of _ ?rb1]) simp
  next
    case True
    then have w: "\<not> ?w + ?k < rb_cap rb" by (simp add: put_force_wraps_def)
    have i: "rb_buffer_size rb - int ?w = int (length (rb_buffer_ptr rb)) - int ?w" using D by simp
    have m: "do { b1 \<leftarrow> memcpy (rb_buffer_ptr rb) (int ?w) ptr (int ?off) (rb_buffer_size rb - int ?w);
                  memcpy b1 0 ptr (int ?off + (rb_buffer_size rb - int ?w))
                    (int ?k - (rb_buffer_size rb - int ?w)) } = Some ?b"
      unfolding i using memcpy_put_two [of ?w "rb_buffer_ptr rb" ?k ?off ptr] w kle D
      by (simp add: put_force_bytes_def del: of_nat_diff)
    have t: "trunc_u 15 (int ?k - (rb_buffer_size rb - int ?w)) = ?w + ?k - rb_cap rb"
      using w D kle by (subst trunc_u_small) auto
    have r: "\<not> rb_buffer_size rb - int ?w > int ?k" using w D by simp
    have "rt_ringbuffer_put_force rb ptr len0 = Some (?k,
        if put_force_overruns rb len0
        then ?rb1\<lparr>rb_read_index := rb_write_index ?rb1, rb_read_mirror := \<not> rb_read_mirror rb\<rparr>
        else ?rb1)"
      unfolding rt_ringbuffer_put_force_def Let_def sp off k ovr using m r w t
      by (auto simp: Option.bind_eq_Some_conv)
    with adv True show ?thesis by (intro exI [of _ ?rb1]) simp
  qed
qed


text \<open>
  The one case where the read mirror is flipped although the reader was not lapped across
  the end of the buffer: reader and writer were on the same side, and the write crosses the
  end and overruns the reader. The buffer then reads as empty, so everything is lost.
\<close>

definition put_force_mirror_lost :: "rt_ringbuffer \<Rightarrow> nat \<Rightarrow> bool" where
  "put_force_mirror_lost rb len0 \<longleftrightarrow>
     put_force_wraps rb len0 \<and> put_force_overruns rb len0 \<and>
     rb_read_mirror rb = rb_write_mirror rb"

lemma rb_full_data:
  assumes "rb_inv rb" "length xs = n" "n \<le> rb_cap rb" "rb_cap rb - rb_used rb \<le> n"
    "rb_write_adv rb n (ring_put (rb_buffer_ptr rb) (rb_write_index rb) xs) rb1"
    "rb' = rb1\<lparr>rb_read_index := rb_write_index rb1, rb_read_mirror := m\<rparr>"
    "m \<noteq> rb_write_mirror rb1"
  shows "rb_inv rb' \<and> rb_cap rb' = rb_cap rb \<and>
         rb_data rb' = drop (rb_used rb + n - rb_cap rb) (rb_data rb @ xs)"
proof -
  note D = rb_invD [OF assms(1)]
  have w: "rb_write_index rb1 = (rb_write_index rb + n) mod rb_cap rb"
    "rb_buffer_ptr rb1 = ring_put (rb_buffer_ptr rb) (rb_write_index rb) xs"
    "rb_buffer_size rb1 = rb_buffer_size rb"
    using assms(3,5) D by (auto simp: rb_write_adv_def mod_if)
  then have c: "rb_cap rb' = rb_cap rb" using assms(6) by (simp add: rb_cap_def)
  have "rb_write_index rb1 < rb_cap rb" using w D by simp
  then have i: "rb_inv rb'" using assms(6,7) w c D by (simp add: rb_inv_cap)
  have u: "rb_used rb' = rb_cap rb" using assms(6,7) c by (simp add: rb_used_def)
  have "rb_data rb' = ring_read (rb_buffer_ptr rb1) (rb_write_index rb1) (rb_cap rb)"
    unfolding rb_data_def u using assms(6) by simp
  also have "\<dots> = ring_read (ring_put (rb_buffer_ptr rb) (rb_write_index rb) xs)
      ((rb_write_index rb + length xs) mod rb_cap rb) (rb_cap rb)"
    using w assms(2) by (simp only:)
  also have "\<dots> = drop (rb_used rb + length xs - rb_cap rb) (rb_data rb @ xs)"
    using assms(2,3,4) by (intro overwrite_data [OF assms(1)]) simp_all
  finally show ?thesis using i c assms(2) by blast
qed

lemma rt_ringbuffer_put_force_spec:
  assumes inv: "rb_inv rb" and len: "len0 \<le> length ptr"
    and ok: "\<not> put_force_mirror_lost rb len0"
  shows "\<exists>rb'. rt_ringbuffer_put_force rb ptr len0 = Some (put_force_len rb len0, rb') \<and>
           rb_inv rb' \<and> rb_cap rb' = rb_cap rb \<and>
           rb_data rb' = drop (rb_used rb + put_force_len rb len0 - rb_cap rb)
                           (rb_data rb @ put_force_bytes rb ptr len0)"
proof -
  note D = rb_invD [OF inv]
  let ?k = "put_force_len rb len0" and ?xs = "put_force_bytes rb ptr len0"
  have lx: "length ?xs = ?k" using len by simp
  have kle: "?k \<le> rb_cap rb" by (simp add: put_force_len_def)
  obtain rb1 where adv: "rb_write_adv rb ?k
        (ring_put (rb_buffer_ptr rb) (rb_write_index rb) ?xs) rb1"
    and r: "rt_ringbuffer_put_force rb ptr len0 = Some (?k,
        if put_force_overruns rb len0
        then rb1\<lparr>rb_read_index := rb_write_index rb1,
                 rb_read_mirror := (if put_force_wraps rb len0 then \<not> rb_read_mirror rb
                                    else rb_read_mirror rb)\<rparr>
        else rb1)"
    using put_force_shape [OF inv len] by blast
  show ?thesis
  proof (cases "put_force_overruns rb len0")
    case False
    then have "length ?xs \<le> rb_cap rb - rb_used rb" using lx by (simp add: put_force_overruns_def)
    moreover from this lx have "rb_used rb + ?k - rb_cap rb = 0" using rb_used_le [OF inv] by linarith
    ultimately show ?thesis
      using rb_write_adv_data [OF inv, of ?xs rb1] adv lx False r by simp
  next
    case True
    have m: "(if put_force_wraps rb len0 then \<not> rb_read_mirror rb else rb_read_mirror rb)
        \<noteq> rb_write_mirror rb1"
    proof (cases "put_force_wraps rb len0")
      case True
      with \<open>put_force_overruns rb len0\<close> ok adv show ?thesis
        by (auto simp: put_force_mirror_lost_def rb_write_adv_def put_force_wraps_def)
    next
      case False
      with True inv kle adv show ?thesis
        by (auto simp: rb_write_adv_def put_force_wraps_def put_force_overruns_def rb_used_def
            rb_inv_def rb_cap_def split: if_splits)
    qed
    have "rb_cap rb - rb_used rb \<le> ?k" using True by (simp add: put_force_overruns_def)
    from rb_full_data [OF inv lx kle this adv refl m] True r show ?thesis by simp
  qed
qed

lemma put_force_mirror_lost_empty:
  assumes inv: "rb_inv rb" and len: "len0 \<le> length ptr" and bug: "put_force_mirror_lost rb len0"
  shows "\<exists>rb'. rt_ringbuffer_put_force rb ptr len0 = Some (put_force_len rb len0, rb') \<and>
           rt_ringbuffer_data_len rb' = 0"
proof -
  from put_force_shape [OF inv len] bug show ?thesis
    by (auto simp: put_force_mirror_lost_def rt_ringbuffer_data_len_def
        rt_ringbuffer_status_def rb_write_adv_def put_force_wraps_def)
qed

section \<open>Initial states\<close>

lemma rt_ringbuffer_init_spec:
  assumes "4 \<le> sz" and "sz < 2 ^ 15" and "length pool = rt_align_down (nat sz)"
  shows "\<exists>rb. rt_ringbuffer_init pool sz = Some rb \<and> rb_inv rb \<and> rb_data rb = [] \<and>
           rb_cap rb = rt_align_down (nat sz)"
proof -
  have "0 < rt_align_down (nat sz)" "rt_align_down (nat sz) < 2 ^ 15"
    using assms(1,2) by (simp_all add: rt_align_down_def RT_ALIGN_SIZE_def)
  moreover from this assms(3) have "pool \<noteq> []" by auto
  ultimately show ?thesis using assms
    by (simp add: rt_ringbuffer_init_def rb_inv_def rb_data_def rb_used_def rb_cap_def)
qed

lemma rt_ringbuffer_reset_spec:
  "rb_inv rb \<Longrightarrow> rb_inv (rt_ringbuffer_reset rb) \<and> rb_data (rt_ringbuffer_reset rb) = [] \<and>
     rb_cap (rt_ringbuffer_reset rb) = rb_cap rb"
  by (auto simp: rt_ringbuffer_reset_def rb_inv_def rb_data_def rb_used_def rb_cap_def)

section \<open>The ring buffer is a bounded FIFO\<close>

definition rb_enq :: "rt_ringbuffer \<Rightarrow> u8 \<Rightarrow> rt_ringbuffer option" where
  "rb_enq rb ch = (case rt_ringbuffer_putchar rb ch of
                     Some (n, rb') \<Rightarrow> (if n = 1 then Some rb' else None) | None \<Rightarrow> None)"

definition rb_deq :: "rt_ringbuffer \<Rightarrow> (u8 \<times> rt_ringbuffer) option" where
  "rb_deq rb = (case rt_ringbuffer_getchar rb of
                  Some (n, Some ch, rb') \<Rightarrow> Some (ch, rb') | _ \<Rightarrow> None)"

interpretation rbf: bounded_fifo rb_inv rb_data rb_cap rb_enq rb_deq
proof unfold_locales
  fix rb :: rt_ringbuffer and x :: u8 and rb' :: rt_ringbuffer
  assume inv: "rb_inv rb"
  show "length (rb_data rb) \<le> rb_cap rb" using inv by (simp add: rb_used_le)
  show "(rb_enq rb x = None) = (length (rb_data rb) = rb_cap rb)"
    using rt_ringbuffer_putchar_spec [OF inv, of x] rb_used_le [OF inv]
    by (cases "rb_used rb = rb_cap rb") (auto simp: rb_enq_def)
  show "rb_inv rb' \<and> rb_cap rb' = rb_cap rb \<and> rb_data rb' = rb_data rb @ [x]"
    if "rb_enq rb x = Some rb'"
    using rt_ringbuffer_putchar_spec [OF inv, of x] rb_used_le [OF inv] that
    by (cases "rb_used rb = rb_cap rb") (auto simp: rb_enq_def)
  show "(rb_deq rb = None) = (rb_data rb = [])"
    using rt_ringbuffer_getchar_spec [OF inv]
    by (cases "rb_data rb") (auto simp: rb_deq_def)
  show "rb_inv rb' \<and> rb_cap rb' = rb_cap rb \<and> rb_data rb = x # rb_data rb'"
    if "rb_deq rb = Some (x, rb')"
    using rt_ringbuffer_getchar_spec [OF inv] that
    by (cases "rb_data rb") (auto simp: rb_deq_def)
qed

end
