(* ===== verification/KService.thy ===== *)
theory KService
  imports KPrelude "HOL-Library.Monad_Syntax"
begin

unbundle bit_operations_syntax

text \<open>
  The kernel service routines of src/kservice.c: find-first-set with its lookup table,
  the word-at-a-time memory routines over a flat byte memory, and the string routines over
  the bytes that lie at a pointer (\<open>None\<close>: a read past the bytes that are there). Target
  is the 32-bit little-endian Cortex-M3, \<open>long\<close> has 4 bytes, plain \<open>char\<close> is unsigned.
\<close>

section \<open>Find first set\<close>

definition lowest_bit_bitmap :: "nat list" where
  "lowest_bit_bitmap =
    [0, 0, 1, 0, 2, 0, 1, 0, 3, 0, 1, 0, 2, 0, 1, 0,
     4, 0, 1, 0, 2, 0, 1, 0, 3, 0, 1, 0, 2, 0, 1, 0,
     5, 0, 1, 0, 2, 0, 1, 0, 3, 0, 1, 0, 2, 0, 1, 0,
     4, 0, 1, 0, 2, 0, 1, 0, 3, 0, 1, 0, 2, 0, 1, 0,
     6, 0, 1, 0, 2, 0, 1, 0, 3, 0, 1, 0, 2, 0, 1, 0,
     4, 0, 1, 0, 2, 0, 1, 0, 3, 0, 1, 0, 2, 0, 1, 0,
     5, 0, 1, 0, 2, 0, 1, 0, 3, 0, 1, 0, 2, 0, 1, 0,
     4, 0, 1, 0, 2, 0, 1, 0, 3, 0, 1, 0, 2, 0, 1, 0,
     7, 0, 1, 0, 2, 0, 1, 0, 3, 0, 1, 0, 2, 0, 1, 0,
     4, 0, 1, 0, 2, 0, 1, 0, 3, 0, 1, 0, 2, 0, 1, 0,
     5, 0, 1, 0, 2, 0, 1, 0, 3, 0, 1, 0, 2, 0, 1, 0,
     4, 0, 1, 0, 2, 0, 1, 0, 3, 0, 1, 0, 2, 0, 1, 0,
     6, 0, 1, 0, 2, 0, 1, 0, 3, 0, 1, 0, 2, 0, 1, 0,
     4, 0, 1, 0, 2, 0, 1, 0, 3, 0, 1, 0, 2, 0, 1, 0,
     5, 0, 1, 0, 2, 0, 1, 0, 3, 0, 1, 0, 2, 0, 1, 0,
     4, 0, 1, 0, 2, 0, 1, 0, 3, 0, 1, 0, 2, 0, 1, 0]"

definition rt_ffs :: "u32 \<Rightarrow> nat" where
  "rt_ffs value =
     (if value = 0 then 0
      else if value AND 0xff \<noteq> 0
        then lowest_bit_bitmap ! unat (value AND 0xff) + 1
      else if value AND 0xff00 \<noteq> 0
        then lowest_bit_bitmap ! unat (drop_bit 8 (value AND 0xff00)) + 9
      else if value AND 0xff0000 \<noteq> 0
        then lowest_bit_bitmap ! unat (drop_bit 16 (value AND 0xff0000)) + 17
      else lowest_bit_bitmap ! unat (drop_bit 24 (value AND 0xff000000)) + 25)"

text \<open>Bit \<open>t\<close> is the lowest set bit of \<open>n\<close>.\<close>

definition lowest_bit :: "nat \<Rightarrow> nat \<Rightarrow> bool" where
  "lowest_bit n t \<longleftrightarrow> n mod 2 ^ Suc t = 2 ^ t"

lemma bitmap_all:
  "list_all (\<lambda>i. lowest_bit_bitmap ! i < 8 \<and>
       i mod 2 ^ Suc (lowest_bit_bitmap ! i) = 2 ^ (lowest_bit_bitmap ! i)) [1..<256]"
  by code_simp

lemma bitmap_lowest:
  "0 < i \<Longrightarrow> i < 256 \<Longrightarrow> lowest_bit_bitmap ! i < 8 \<and> lowest_bit i (lowest_bit_bitmap ! i)"
  using bitmap_all by (auto simp: list_all_iff lowest_bit_def)

lemma lowest_bit_byte:
  assumes "t < 8" "lowest_bit (n div 2 ^ k mod 256) t" "n mod 2 ^ k = 0"
  shows "lowest_bit n (k + t)"
proof -
  have "(2::nat) ^ Suc t dvd 2 ^ 8" using assms(1) by (intro le_imp_power_dvd) simp
  then have "(n div 2 ^ k mod 256) mod 2 ^ Suc t = (n div 2 ^ k) mod 2 ^ Suc t"
    by (simp add: mod_mod_cancel)
  then have b: "(n div 2 ^ k) mod 2 ^ Suc t = 2 ^ t" using assms(2) by (simp add: lowest_bit_def)
  have "n mod (2 ^ k * 2 ^ Suc t) = 2 ^ k * (n div 2 ^ k mod 2 ^ Suc t) + n mod 2 ^ k"
    by (rule mod_mult2_eq)
  then show ?thesis using b assms(3) by (simp add: lowest_bit_def power_add ac_simps)
qed

lemma unat_byte:
  fixes v :: u32
  shows "unat (v AND 0xff) = unat v div 2 ^ 0 mod 256"
    and "unat (drop_bit 8 (v AND 0xff00)) = unat v div 2 ^ 8 mod 256"
    and "unat (drop_bit 16 (v AND 0xff0000)) = unat v div 2 ^ 16 mod 256"
    and "unat (drop_bit 24 (v AND 0xff000000)) = unat v div 2 ^ 24 mod 256"
proof -
  have m: "unat (w AND 0xff) = unat w mod 256" for w :: u32
  proof -
    have "w AND 0xff = take_bit 8 w" by (simp add: take_bit_eq_mask mask_eq_exp_minus_1)
    then have "unat (w AND 0xff) = take_bit 8 (unat w)" by (simp only: unsigned_take_bit_eq)
    then show ?thesis by (simp add: take_bit_eq_mod)
  qed
  show "unat (v AND 0xff) = unat v div 2 ^ 0 mod 256" by (simp add: m)
  have s: "drop_bit 8 (v AND 0xff00) = drop_bit 8 v AND 0xff"
    "drop_bit 16 (v AND 0xff0000) = drop_bit 16 v AND 0xff"
    "drop_bit 24 (v AND 0xff000000) = drop_bit 24 v AND 0xff"
    by (simp_all add: drop_bit_and)
  show "unat (drop_bit 8 (v AND 0xff00)) = unat v div 2 ^ 8 mod 256"
    "unat (drop_bit 16 (v AND 0xff0000)) = unat v div 2 ^ 16 mod 256"
    "unat (drop_bit 24 (v AND 0xff000000)) = unat v div 2 ^ 24 mod 256"
    unfolding s m unat_drop_bit_eq by (simp_all add: drop_bit_eq_div)
qed


lemma and_field_zero:
  fixes v :: u32
  shows "(v AND push_bit k (mask 8) = 0) = (drop_bit k (v AND push_bit k (mask 8)) = 0)"
proof
  let ?x = "v AND push_bit k (mask 8)"
  assume d: "drop_bit k ?x = 0"
  have "\<not> bit ?x i" for i
  proof (cases "i < k")
    case True then show ?thesis by (simp add: bit_and_iff bit_push_bit_iff)
  next
    case False
    then have "bit ?x i = bit (drop_bit k ?x) (i - k)" by (simp add: bit_drop_bit_eq del: drop_bit_and)
    then show ?thesis unfolding d by simp
  qed
  then show "?x = 0" by (intro bit_eqI) simp
qed simp

lemma rt_ffs_unat:
  "rt_ffs v = (let n = unat v; T = (\<lambda>b. lowest_bit_bitmap ! b) in
     if n = 0 then 0
     else if n div 2 ^ 0 mod 256 \<noteq> 0 then T (n div 2 ^ 0 mod 256) + 1
     else if n div 2 ^ 8 mod 256 \<noteq> 0 then T (n div 2 ^ 8 mod 256) + 9
     else if n div 2 ^ 16 mod 256 \<noteq> 0 then T (n div 2 ^ 16 mod 256) + 17
     else T (n div 2 ^ 24 mod 256) + 25)"
proof -
  have z: "(x = 0) = (unat x = 0)" for x :: u32 by (simp add: unat_eq_0)
  have ff: "(0xff00::u32) = push_bit 8 (mask 8)" "(0xff0000::u32) = push_bit 16 (mask 8)"
    by (simp_all add: mask_eq_exp_minus_1 push_bit_eq_mult)
  have mask0: "(v AND 0xff00 = 0) = (drop_bit 8 (v AND 0xff00) = 0)"
    "(v AND 0xff0000 = 0) = (drop_bit 16 (v AND 0xff0000) = 0)"
    unfolding ff by (rule and_field_zero)+
  show ?thesis unfolding rt_ffs_def mask0 unfolding z unat_byte Let_def ..
qed

lemma byte_step:
  "(n::nat) mod 2 ^ k = 0 \<Longrightarrow> n div 2 ^ k mod 256 = 0 \<Longrightarrow> n mod 2 ^ (k + 8) = 0"
  by (simp add: power_add mod_mult2_eq)

lemma bitmap_byte:
  assumes "n div 2 ^ k mod 256 \<noteq> 0" "n mod 2 ^ k = 0"
  shows "lowest_bit_bitmap ! (n div 2 ^ k mod 256) < 8 \<and>
         lowest_bit n (k + lowest_bit_bitmap ! (n div 2 ^ k mod 256))"
  using bitmap_lowest [of "n div 2 ^ k mod 256"] lowest_bit_byte assms by simp

lemma rt_ffs_lowest:
  assumes "v \<noteq> 0"
  shows "\<exists>t. rt_ffs v = Suc t \<and> t < 32 \<and> lowest_bit (unat v) t"
proof -
  define n where "n = unat v"
  let ?T = "\<lambda>b. lowest_bit_bitmap ! b"
  have n0: "n \<noteq> 0" using assms by (simp add: n_def unat_eq_0)
  have eq: "rt_ffs v = (if n div 2 ^ 0 mod 256 \<noteq> 0 then ?T (n div 2 ^ 0 mod 256) + 1
     else if n div 2 ^ 8 mod 256 \<noteq> 0 then ?T (n div 2 ^ 8 mod 256) + 9
     else if n div 2 ^ 16 mod 256 \<noteq> 0 then ?T (n div 2 ^ 16 mod 256) + 17
     else ?T (n div 2 ^ 24 mod 256) + 25)"
    using n0 unfolding rt_ffs_unat Let_def n_def by simp
  have m0: "n mod 2 ^ 0 = 0" by simp
  consider (a) "n div 2 ^ 0 mod 256 \<noteq> 0"
    | (b) "n div 2 ^ 0 mod 256 = 0" "n div 2 ^ 8 mod 256 \<noteq> 0"
    | (c) "n div 2 ^ 0 mod 256 = 0" "n div 2 ^ 8 mod 256 = 0" "n div 2 ^ 16 mod 256 \<noteq> 0"
    | (d) "n div 2 ^ 0 mod 256 = 0" "n div 2 ^ 8 mod 256 = 0" "n div 2 ^ 16 mod 256 = 0" by blast
  then have "\<exists>k\<in>{0, 8, 16, 24}. n mod 2 ^ k = 0 \<and> n div 2 ^ k mod 256 \<noteq> 0 \<and>
      rt_ffs v = Suc (k + ?T (n div 2 ^ k mod 256))"
  proof cases
    case a
    then show ?thesis using eq m0 by simp
  next
    case b
    then show ?thesis using eq byte_step [OF m0 b(1)] by simp
  next
    case c
    then have "n mod 2 ^ 16 = 0" using byte_step [OF m0 c(1)] byte_step [of n 8] by simp
    then show ?thesis using eq c by simp
  next
    case d
    then have "n mod 2 ^ 16 = 0" using byte_step [OF m0 d(1)] byte_step [of n 8] by simp
    then have n24: "n mod 2 ^ 24 = 0" using byte_step [of n 16] d by simp
    have "n div 2 ^ 24 < 256" using unsigned_less [of v, where ?'a = nat] by (simp add: n_def)
    then have "n div 2 ^ 24 mod 256 \<noteq> 0" using n24 n0 div_mult_mod_eq [of n "2 ^ 24"] by auto
    then show ?thesis using eq d n24 by simp
  qed
  then obtain k where k: "k \<in> {0, 8, 16, 24}" "n mod 2 ^ k = 0" "n div 2 ^ k mod 256 \<noteq> 0"
    "rt_ffs v = Suc (k + ?T (n div 2 ^ k mod 256))" by (elim bexE conjE) (rule that)
  have "k \<le> 24" using k(1) by auto
  moreover have b: "?T (n div 2 ^ k mod 256) < 8 \<and> lowest_bit n (k + ?T (n div 2 ^ k mod 256))"
    by (rule bitmap_byte [OF k(3,2)])
  ultimately have "k + ?T (n div 2 ^ k mod 256) < 32" by linarith
  with b k(4) show ?thesis unfolding n_def by blast
qed

lemma lowest_bit_bits: "lowest_bit n t \<Longrightarrow> bit n t \<and> (\<forall>i<t. \<not> bit n i)"
proof -
  assume "lowest_bit n t"
  then have t: "take_bit (Suc t) n = 2 ^ t" by (simp add: lowest_bit_def take_bit_eq_mod)
  have *: "(i < Suc t \<and> bit n i) = (i = t)" for i
    using arg_cong [OF t, of "\<lambda>x. bit x i"] unfolding bit_take_bit_iff bit_exp_iff by auto
  have "bit n t" using * [of t] by simp
  moreover have "\<not> bit n i" if "i < t" for i using * [of i] that by auto
  ultimately show ?thesis by blast
qed

text \<open>The index of the least significant set bit, counted from one.\<close>

lemma rt_ffs_zero [simp]: "rt_ffs 0 = 0"
  by (simp add: rt_ffs_def)

lemma rt_ffs_least:
  assumes "v \<noteq> 0"
  shows "0 < rt_ffs v" "bit v (rt_ffs v - 1)" "i < rt_ffs v - 1 \<Longrightarrow> \<not> bit v i" "rt_ffs v \<le> 32"
proof -
  obtain t where t: "rt_ffs v = Suc t" "t < 32" "lowest_bit (unat v) t"
    using rt_ffs_lowest [OF assms] by blast
  then show "0 < rt_ffs v" "rt_ffs v \<le> 32" by simp_all
  from lowest_bit_bits [OF t(3)] t
  show "bit v (rt_ffs v - 1)" "i < rt_ffs v - 1 \<Longrightarrow> \<not> bit v i"
    by (simp_all add: bit_unsigned_iff)
qed

end
