(* ===== verification/KMemory.thy ===== *)
theory KMemory
  imports KPrelude "HOL-Library.Monad_Syntax"
begin

unbundle bit_operations_syntax

text \<open>
  The memory and string routines of src/kservice.c. The memory routines run on a flat
  little-endian byte memory and keep the word-at-a-time loops of the source; the string
  routines run on the bytes found at a pointer, \<open>None\<close> being a read past them.
\<close>

section \<open>Byte memory\<close>

type_synonym bmem = "nat \<Rightarrow> u8"

definition store_long :: "bmem \<Rightarrow> nat \<Rightarrow> u32 \<Rightarrow> bmem" where
  "store_long m a v = m(a := ucast v, a + 1 := ucast (drop_bit 8 v),
                        a + 2 := ucast (drop_bit 16 v), a + 3 := ucast (drop_bit 24 v))"

definition load_long :: "bmem \<Rightarrow> nat \<Rightarrow> u32" where
  "load_long m a = ucast (m a) OR push_bit 8 (ucast (m (a + 1)))
                   OR push_bit 16 (ucast (m (a + 2))) OR push_bit 24 (ucast (m (a + 3)))"

text \<open>What a fill and a copy are meant to do.\<close>

definition filled :: "bmem \<Rightarrow> nat \<Rightarrow> u8 \<Rightarrow> nat \<Rightarrow> bmem" where
  "filled m s d n = (\<lambda>a. if s \<le> a \<and> a < s + n then d else m a)"

definition copied :: "bmem \<Rightarrow> nat \<Rightarrow> nat \<Rightarrow> nat \<Rightarrow> bmem" where
  "copied m dst src n = (\<lambda>a. if dst \<le> a \<and> a < dst + n then m (src + (a - dst)) else m a)"

section \<open>rt_memset\<close>

fun memset_bytes :: "bmem \<Rightarrow> nat \<Rightarrow> u8 \<Rightarrow> nat \<Rightarrow> bmem" where
  "memset_bytes m a d 0 = m"
| "memset_bytes m a d (Suc n) = memset_bytes (m(a := d)) (a + 1) d n"

text \<open>The two word loops: four stores while 16 bytes remain, then one while 4 remain.\<close>

fun memset_long4 :: "bmem \<Rightarrow> nat \<Rightarrow> u32 \<Rightarrow> nat \<Rightarrow> bmem \<times> nat \<times> nat" where
  "memset_long4 m a buf count =
     (if count \<ge> 16
      then memset_long4
             (store_long (store_long (store_long (store_long m a buf) (a + 4) buf) (a + 8) buf)
                (a + 12) buf)
             (a + 16) buf (count - 16)
      else (m, a, count))"

fun memset_long1 :: "bmem \<Rightarrow> nat \<Rightarrow> u32 \<Rightarrow> nat \<Rightarrow> bmem \<times> nat \<times> nat" where
  "memset_long1 m a buf count =
     (if count \<ge> 4 then memset_long1 (store_long m a buf) (a + 4) buf (count - 4)
      else (m, a, count))"

definition rt_memset :: "bmem \<Rightarrow> nat \<Rightarrow> u32 \<Rightarrow> nat \<Rightarrow> bmem" where
  "rt_memset m s c count =
     (let d = c AND 0xff in
      if \<not> count < 4 \<and> s mod 4 = 0
      then let b0 = push_bit 8 d OR d;
               buffer = b0 OR push_bit 16 b0;
               (m1, a1, c1) = memset_long4 m s buffer count;
               (m2, a2, c2) = memset_long1 m1 a1 buffer c1
           in memset_bytes m2 a2 (ucast d) c2
      else memset_bytes m s (ucast d) count)"

declare memset_long4.simps [simp del] memset_long1.simps [simp del]

lemma filled_0 [simp]: "filled m s d 0 = m"
  by (auto simp: filled_def fun_eq_iff)

lemma filled_filled: "filled (filled m s d n) (s + n) d k = filled m s d (n + k)"
  by (auto simp: filled_def fun_eq_iff)

lemma memset_bytes_eq: "memset_bytes m a d n = filled m a d n"
  by (induction n arbitrary: m a) (auto simp: filled_def fun_eq_iff)

definition splat :: "u8 \<Rightarrow> u32 \<Rightarrow> bool" where
  "splat d buf \<longleftrightarrow> ucast buf = d \<and> ucast (drop_bit 8 buf) = d \<and>
                  ucast (drop_bit 16 buf) = d \<and> ucast (drop_bit 24 buf) = d"

lemma store_splat: "splat d buf \<Longrightarrow> store_long m a buf = filled m a d 4"
  by (auto simp: store_long_def splat_def filled_def fun_eq_iff)

lemma memset_long4_eq:
  "splat d buf \<Longrightarrow> memset_long4 m a buf n = (m', a', n') \<Longrightarrow>
   \<exists>k. n = k + n' \<and> a' = a + k \<and> m' = filled m a d k"
proof (induction m a buf n rule: memset_long4.induct)
  case (1 m a buf count)
  show ?case
  proof (cases "count \<ge> 16")
    case True
    let ?m = "store_long (store_long (store_long (store_long m a buf) (a + 4) buf) (a + 8) buf) (a + 12) buf"
    have m16: "?m = filled m a d 16"
      using "1.prems"(1) filled_filled [of m a d 4 4] filled_filled [of m a d 8 4]
        filled_filled [of m a d 12 4] by (simp add: store_splat)
    from True "1.prems" have "memset_long4 ?m (a + 16) buf (count - 16) = (m', a', n')"
      by (simp add: memset_long4.simps [of m])
    with "1.IH" [OF True "1.prems"(1)] obtain k where
      k: "count - 16 = k + n'" "a' = a + 16 + k" "m' = filled ?m (a + 16) d k" by auto
    then have "m' = filled m a d (16 + k)" using m16 filled_filled [of m a d 16 k] by simp
    with k True show ?thesis by (intro exI [of _ "16 + k"]) simp
  next
    case False
    with "1.prems" show ?thesis by (simp add: memset_long4.simps [of m])
  qed
qed

lemma memset_long1_eq:
  "splat d buf \<Longrightarrow> memset_long1 m a buf n = (m', a', n') \<Longrightarrow>
   \<exists>k. n = k + n' \<and> a' = a + k \<and> m' = filled m a d k"
proof (induction m a buf n rule: memset_long1.induct)
  case (1 m a buf count)
  show ?case
  proof (cases "count \<ge> 4")
    case True
    from True "1.prems" have "memset_long1 (store_long m a buf) (a + 4) buf (count - 4) = (m', a', n')"
      by (simp add: memset_long1.simps [of m])
    with "1.IH" [OF True "1.prems"(1)] obtain k where
      k: "count - 4 = k + n'" "a' = a + 4 + k" "m' = filled (store_long m a buf) (a + 4) d k" by auto
    then have "m' = filled m a d (4 + k)"
      using store_splat [OF "1.prems"(1)] filled_filled [of m a d 4 k] by simp
    with k True show ?thesis by (intro exI [of _ "4 + k"]) simp
  next
    case False
    with "1.prems" show ?thesis by (simp add: memset_long1.simps [of m])
  qed
qed

lemma splat_buffer:
  fixes c :: u32
  defines "d \<equiv> c AND 0xff"
  defines "b0 \<equiv> push_bit 8 d OR d"
  shows "splat (ucast d) (b0 OR push_bit 16 b0)"
proof -
  have d: "d = take_bit 8 c" by (simp add: d_def take_bit_eq_mask mask_eq_exp_minus_1)
  show ?thesis unfolding splat_def b0_def d
    by (intro conjI bit_word_eqI) (auto simp: bit_simps)
qed

lemma rt_memset_eq: "rt_memset m s c count = filled m s (ucast (c AND 0xff)) count"
proof (cases "\<not> count < 4 \<and> s mod 4 = 0")
  case False
  then show ?thesis unfolding rt_memset_def Let_def by (simp only: if_False memset_bytes_eq)
next
  case True
  let ?d = "c AND 0xff"
  let ?b0 = "push_bit 8 ?d OR ?d"
  let ?buf = "?b0 OR push_bit 16 ?b0"
  have sp: "splat (ucast ?d) ?buf" by (rule splat_buffer)
  obtain m1 a1 c1 where l4: "memset_long4 m s ?buf count = (m1, a1, c1)" by (metis prod_cases3)
  obtain m2 a2 c2 where l1: "memset_long1 m1 a1 ?buf c1 = (m2, a2, c2)" by (metis prod_cases3)
  obtain k1 where k1: "count = k1 + c1" "a1 = s + k1" "m1 = filled m s (ucast ?d) k1"
    using memset_long4_eq [OF sp l4] by blast
  obtain k2 where k2: "c1 = k2 + c2" "a2 = a1 + k2" "m2 = filled m1 a1 (ucast ?d) k2"
    using memset_long1_eq [OF sp l1] by blast
  have "rt_memset m s c count = filled m2 a2 (ucast ?d) c2"
    unfolding rt_memset_def Let_def if_P [OF True] l4 prod.case l1 memset_bytes_eq ..
  then show ?thesis using k1 k2 filled_filled [of m s "ucast ?d" k1 k2]
      filled_filled [of m s "ucast ?d" "k1 + k2" c2] by (simp only: add.assoc)
qed

section \<open>rt_memcpy and rt_memmove\<close>

fun copy_bytes :: "bmem \<Rightarrow> nat \<Rightarrow> nat \<Rightarrow> nat \<Rightarrow> bmem" where
  "copy_bytes m dst src 0 = m"
| "copy_bytes m dst src (Suc n) = copy_bytes (m(dst := m src)) (dst + 1) (src + 1) n"

definition copy_long :: "nat \<Rightarrow> nat \<Rightarrow> bmem \<Rightarrow> bmem" where
  "copy_long dst src m = store_long m dst (load_long m src)"

fun copy_long4 :: "bmem \<Rightarrow> nat \<Rightarrow> nat \<Rightarrow> nat \<Rightarrow> bmem \<times> nat \<times> nat \<times> nat" where
  "copy_long4 m dst src len =
     (if len \<ge> 16
      then copy_long4
             (copy_long (dst + 12) (src + 12) (copy_long (dst + 8) (src + 8)
                (copy_long (dst + 4) (src + 4) (copy_long dst src m))))
             (dst + 16) (src + 16) (len - 16)
      else (m, dst, src, len))"

fun copy_long1 :: "bmem \<Rightarrow> nat \<Rightarrow> nat \<Rightarrow> nat \<Rightarrow> bmem \<times> nat \<times> nat \<times> nat" where
  "copy_long1 m dst src len =
     (if len \<ge> 4 then copy_long1 (copy_long dst src m) (dst + 4) (src + 4) (len - 4)
      else (m, dst, src, len))"

declare copy_long4.simps [simp del] copy_long1.simps [simp del]

definition rt_memcpy :: "bmem \<Rightarrow> nat \<Rightarrow> nat \<Rightarrow> nat \<Rightarrow> bmem" where
  "rt_memcpy m dst src len =
     (if \<not> len < 16 \<and> \<not> (src mod 4 \<noteq> 0 \<or> dst mod 4 \<noteq> 0)
      then let (m1, d1, s1, l1) = copy_long4 m dst src len;
               (m2, d2, s2, l2) = copy_long1 m1 d1 s1 l1
           in copy_bytes m2 d2 s2 l2
      else copy_bytes m dst src len)"

text \<open>The backward loop of \<open>rt_memmove\<close>: both pointers start past the end.\<close>

fun copy_bytes_down :: "bmem \<Rightarrow> nat \<Rightarrow> nat \<Rightarrow> nat \<Rightarrow> bmem" where
  "copy_bytes_down m tmp s 0 = m"
| "copy_bytes_down m tmp s (Suc n) =
     copy_bytes_down (m(tmp - 1 := m (s - 1))) (tmp - 1) (s - 1) n"

definition rt_memmove :: "bmem \<Rightarrow> nat \<Rightarrow> nat \<Rightarrow> nat \<Rightarrow> bmem" where
  "rt_memmove m dest src n =
     (if src < dest \<and> dest < src + n
      then copy_bytes_down m (dest + n) (src + n) n
      else copy_bytes m dest src n)"

text \<open>Copying upwards is safe when the destination does not start inside the source.\<close>

definition upward_ok :: "nat \<Rightarrow> nat \<Rightarrow> nat \<Rightarrow> bool" where
  "upward_ok dst src n \<longleftrightarrow> dst \<le> src \<or> src + n \<le> dst"

lemma copied_0 [simp]: "copied m dst src 0 = m"
  by (auto simp: copied_def fun_eq_iff)

lemma copied_copied:
  "upward_ok dst src (n + k) \<Longrightarrow>
   copied (copied m dst src n) (dst + n) (src + n) k = copied m dst src (n + k)"
  by (auto simp: copied_def fun_eq_iff upward_ok_def)

lemma copy_bytes_eq: "upward_ok dst src n \<Longrightarrow> copy_bytes m dst src n = copied m dst src n"
proof (induction n arbitrary: m dst src)
  case 0
  then show ?case by simp
next
  case (Suc n)
  have one: "m(dst := m src) = copied m dst src 1" by (auto simp: copied_def fun_eq_iff)
  have "upward_ok (dst + 1) (src + 1) n" using Suc.prems by (auto simp: upward_ok_def)
  with Suc.IH [of "dst + 1" "src + 1" "m(dst := m src)"] copied_copied [of dst src 1 n m] Suc.prems
  show ?case by (simp add: one)
qed

lemma bit_u8_high: "8 \<le> n \<Longrightarrow> \<not> bit (w :: u8) n"
  by (auto dest: bit_imp_le_length)

lemma copy_long_eq: "copy_long dst src m = copied m dst src 4"
proof -
  have "ucast (load_long m src) = m src" "ucast (drop_bit 8 (load_long m src)) = m (src + 1)"
    "ucast (drop_bit 16 (load_long m src)) = m (src + 2)"
    "ucast (drop_bit 24 (load_long m src)) = m (src + 3)"
    unfolding load_long_def by (auto intro!: bit_word_eqI simp: bit_simps bit_u8_high)
  moreover have "a = dst \<or> a = dst + 1 \<or> a = dst + 2 \<or> a = dst + 3 \<longleftrightarrow> dst \<le> a \<and> a < dst + 4" for a
    by arith
  ultimately show ?thesis unfolding copy_long_def store_long_def copied_def
    by (auto simp: fun_eq_iff)
qed

lemma copy_long1_eq:
  "upward_ok dst src n \<Longrightarrow> copy_long1 m dst src n = (m', d', s', n') \<Longrightarrow>
   \<exists>k. n = k + n' \<and> d' = dst + k \<and> s' = src + k \<and> m' = copied m dst src k"
proof (induction m dst src n rule: copy_long1.induct)
  case (1 m dst src len)
  show ?case
  proof (cases "len \<ge> 4")
    case True
    have up: "upward_ok (dst + 4) (src + 4) (len - 4)" using "1.prems" True by (auto simp: upward_ok_def)
    from True "1.prems"
    have "copy_long1 (copy_long dst src m) (dst + 4) (src + 4) (len - 4) = (m', d', s', n')"
      by (simp add: copy_long1.simps [of m])
    from "1.IH" [OF True up this] obtain k where
      k: "len - 4 = k + n'" "d' = dst + 4 + k" "s' = src + 4 + k"
        "m' = copied (copy_long dst src m) (dst + 4) (src + 4) k" by auto
    have "upward_ok dst src (4 + k)" using k(1) True "1.prems"(1) by (auto simp: upward_ok_def)
    then have "m' = copied m dst src (4 + k)"
      using k(4) copied_copied [of dst src 4 k m] by (simp add: copy_long_eq)
    with k True show ?thesis by (intro exI [of _ "4 + k"]) simp
  next
    case False
    with "1.prems" show ?thesis by (simp add: copy_long1.simps [of m])
  qed
qed

lemma copy_long4_eq:
  "upward_ok dst src n \<Longrightarrow> copy_long4 m dst src n = (m', d', s', n') \<Longrightarrow>
   \<exists>k. n = k + n' \<and> d' = dst + k \<and> s' = src + k \<and> m' = copied m dst src k"
proof (induction m dst src n rule: copy_long4.induct)
  case (1 m dst src len)
  show ?case
  proof (cases "len \<ge> 16")
    case True
    let ?m = "copy_long (dst + 12) (src + 12) (copy_long (dst + 8) (src + 8)
                (copy_long (dst + 4) (src + 4) (copy_long dst src m)))"
    have ok: "upward_ok dst src j" if "j \<le> 16" for j
      using "1.prems"(1) True that by (auto simp: upward_ok_def)
    have m16: "?m = copied m dst src 16"
      using copied_copied [of dst src 4 4 m] copied_copied [of dst src 8 4 m]
        copied_copied [of dst src 12 4 m] ok by (simp add: copy_long_eq)
    have up: "upward_ok (dst + 16) (src + 16) (len - 16)"
      using "1.prems" True by (auto simp: upward_ok_def)
    from True "1.prems"
    have "copy_long4 ?m (dst + 16) (src + 16) (len - 16) = (m', d', s', n')"
      by (simp add: copy_long4.simps [of m])
    from "1.IH" [OF True up this] obtain k where
      k: "len - 16 = k + n'" "d' = dst + 16 + k" "s' = src + 16 + k"
        "m' = copied ?m (dst + 16) (src + 16) k" by auto
    have "upward_ok dst src (16 + k)" using k(1) True "1.prems"(1) by (auto simp: upward_ok_def)
    then have "m' = copied m dst src (16 + k)"
      using k(4) m16 copied_copied [of dst src 16 k m] by simp
    with k True show ?thesis by (intro exI [of _ "16 + k"]) simp
  next
    case False
    with "1.prems" show ?thesis by (simp add: copy_long4.simps [of m])
  qed
qed

lemma rt_memcpy_eq:
  assumes "upward_ok dst src n"
  shows "rt_memcpy m dst src n = copied m dst src n"
proof (cases "\<not> n < 16 \<and> \<not> (src mod 4 \<noteq> 0 \<or> dst mod 4 \<noteq> 0)")
  case False
  show ?thesis unfolding rt_memcpy_def if_not_P [OF False] by (rule copy_bytes_eq [OF assms])
next
  case True
  obtain m1 d1 s1 l1 where l4: "copy_long4 m dst src n = (m1, d1, s1, l1)" by (metis prod_cases4)
  obtain k1 where k1: "n = k1 + l1" "d1 = dst + k1" "s1 = src + k1" "m1 = copied m dst src k1"
    using copy_long4_eq [OF assms l4] by blast
  have up1: "upward_ok d1 s1 l1" using assms k1 by (auto simp: upward_ok_def)
  obtain m2 d2 s2 l2 where l1: "copy_long1 m1 d1 s1 l1 = (m2, d2, s2, l2)" by (metis prod_cases4)
  obtain k2 where k2: "l1 = k2 + l2" "d2 = d1 + k2" "s2 = s1 + k2" "m2 = copied m1 d1 s1 k2"
    using copy_long1_eq [OF up1 l1] by blast
  have up2: "upward_ok d2 s2 l2" using up1 k2 by (auto simp: upward_ok_def)
  have "rt_memcpy m dst src n = copied m2 d2 s2 l2"
    unfolding rt_memcpy_def if_P [OF True] Let_def l4 prod.case l1 by (rule copy_bytes_eq [OF up2])
  also have "\<dots> = copied m1 d1 s1 l1"
    using copied_copied [of d1 s1 k2 l2 m1] up1 k2 by (simp add: add.assoc)
  also have "\<dots> = copied m dst src n" using copied_copied [of dst src k1 l1 m] assms k1 by simp
  finally show ?thesis .
qed

lemma copy_bytes_down_eq:
  "n \<le> tmp \<Longrightarrow> n \<le> s \<Longrightarrow> s \<le> tmp \<Longrightarrow>
   copy_bytes_down m tmp s n = copied m (tmp - n) (s - n) n"
proof (induction n arbitrary: m tmp s)
  case 0
  then show ?case by simp
next
  case (Suc n)
  from Suc.prems have "copy_bytes_down m tmp s (Suc n) =
      copied (m(tmp - 1 := m (s - 1))) (tmp - 1 - n) (s - 1 - n) n"
    using Suc.IH [of "tmp - 1" "s - 1"] by simp
  also have "\<dots> = copied m (tmp - Suc n) (s - Suc n) (Suc n)"
  proof (rule ext)
    fix a
    consider "a = tmp - 1" | "tmp - Suc n \<le> a" "a < tmp - 1" | "a < tmp - Suc n" | "tmp \<le> a"
      using Suc.prems by linarith
    then show "copied (m(tmp - 1 := m (s - 1))) (tmp - 1 - n) (s - 1 - n) n a =
        copied m (tmp - Suc n) (s - Suc n) (Suc n) a"
      using Suc.prems by cases (auto simp: copied_def)
  qed
  finally show ?case .
qed

lemma rt_memmove_eq: "rt_memmove m dest src n = copied m dest src n"
  using copy_bytes_down_eq [of n "dest + n" "src + n" m] copy_bytes_eq [of dest src n m]
  by (auto simp: rt_memmove_def upward_ok_def)

section \<open>Comparing and searching\<close>

fun rt_memcmp :: "u8 list \<Rightarrow> u8 list \<Rightarrow> nat \<Rightarrow> int option" where
  "rt_memcmp cs ct 0 = Some 0"
| "rt_memcmp (x # cs) (y # ct) (Suc n) =
     (let res = int (unat x) - int (unat y) in
      if res \<noteq> 0 then Some res else rt_memcmp cs ct n)"
| "rt_memcmp _ _ (Suc n) = None"

fun rt_strlen :: "u8 list \<Rightarrow> nat option" where
  "rt_strlen [] = None"
| "rt_strlen (c # s) = (if c \<noteq> 0 then map_option Suc (rt_strlen s) else Some 0)"

text \<open>\<open>i\<close> is \<open>sc - s\<close>; the character is read before the bound is tested.\<close>

fun strnlen_loop :: "u8 list \<Rightarrow> nat \<Rightarrow> nat \<Rightarrow> nat option" where
  "strnlen_loop [] i maxlen = None"
| "strnlen_loop (c # s) i maxlen =
     (if c \<noteq> 0 \<and> i < maxlen then strnlen_loop s (i + 1) maxlen else Some i)"

definition rt_strnlen :: "u8 list \<Rightarrow> nat \<Rightarrow> nat option" where
  "rt_strnlen s maxlen = strnlen_loop s 0 maxlen"

fun rt_strcmp :: "u8 list \<Rightarrow> u8 list \<Rightarrow> int option" where
  "rt_strcmp (x # cs) (y # ct) =
     (if x \<noteq> 0 \<and> x = y then rt_strcmp cs ct else Some (int (unat x) - int (unat y)))"
| "rt_strcmp _ _ = None"

text \<open>The difference is kept in a \<open>signed char\<close>.\<close>

definition to_schar :: "int \<Rightarrow> int" where
  "to_schar i = sint (word_of_int i :: 8 word)"

fun rt_strncmp :: "u8 list \<Rightarrow> u8 list \<Rightarrow> nat \<Rightarrow> int option" where
  "rt_strncmp cs ct 0 = Some 0"
| "rt_strncmp (x # cs) (y # ct) (Suc count) =
     (let res = to_schar (int (unat x) - int (unat y)) in
      if res \<noteq> 0 \<or> x = 0 then Some res else rt_strncmp cs ct count)"
| "rt_strncmp _ _ (Suc count) = None"

definition lower :: "u8 \<Rightarrow> int" where
  "lower c = (let ca = int (unat c) in if ca \<ge> 65 \<and> ca \<le> 90 then ca + (97 - 65) else ca)"

fun rt_strcasecmp :: "u8 list \<Rightarrow> u8 list \<Rightarrow> u32 option" where
  "rt_strcasecmp (a # as) (b # bs) =
     (if lower a = lower b \<and> lower a \<noteq> 0 then rt_strcasecmp as bs
      else Some (word_of_int (lower a - lower b)))"
| "rt_strcasecmp _ _ = None"

fun rt_strncpy :: "u8 list \<Rightarrow> u8 list \<Rightarrow> nat \<Rightarrow> u8 list option" where
  "rt_strncpy dst src 0 = Some dst"
| "rt_strncpy (d # ds) (c # cs) (Suc n) =
     (if c = 0
      then (if n \<le> length ds then Some (c # replicate n 0 @ drop n ds) else None)
      else map_option ((#) c) (rt_strncpy ds cs n))"
| "rt_strncpy _ _ (Suc n) = None"

text \<open>The result of \<open>rt_strstr\<close> is the offset found, \<open>Some None\<close> being \<open>RT_NULL\<close>.\<close>

fun strstr_loop :: "nat \<Rightarrow> u8 list \<Rightarrow> u8 list \<Rightarrow> nat \<Rightarrow> nat \<Rightarrow> nat option option" where
  "strstr_loop pos s1 s2 l1 l2 =
     (if l1 \<ge> l2 \<and> 0 < l1
      then (case rt_memcmp s1 s2 l2 of
              None \<Rightarrow> None
            | Some r \<Rightarrow> if r = 0 then Some (Some pos)
                        else strstr_loop (pos + 1) (tl s1) s2 (l1 - 1) l2)
      else Some None)"

declare strstr_loop.simps [simp del]

definition rt_strstr :: "u8 list \<Rightarrow> u8 list \<Rightarrow> nat option option" where
  "rt_strstr s1 s2 =
     do { l2 \<leftarrow> rt_strlen s2;
          if l2 = 0 then Some (Some 0)
          else do { l1 \<leftarrow> rt_strlen s1; strstr_loop 0 s1 s2 l1 l2 } }"

text \<open>A C string: bytes before the terminator.\<close>

definition cstring :: "u8 list \<Rightarrow> u8 list \<Rightarrow> bool" where
  "cstring s bs \<longleftrightarrow> 0 \<notin> set bs \<and> (\<exists>rest. s = bs @ 0 # rest)"

lemma cstring_Cons:
  "cstring (x # cs) a \<longleftrightarrow> (if x = 0 then a = [] else \<exists>a'. a = x # a' \<and> cstring cs a')"
  by (cases a) (auto simp: cstring_def)

lemma not_cstring_Nil [simp]: "\<not> cstring [] a"
  by (simp add: cstring_def)

lemma uint_inj [simp]: "uint (x :: u8) = uint y \<longleftrightarrow> x = y"
  by (simp add: word_uint_eq_iff)

lemma rt_strlen_cstring: "cstring s bs \<Longrightarrow> rt_strlen s = Some (length bs)"
proof -
  have "0 \<notin> set bs \<Longrightarrow> rt_strlen (bs @ 0 # rest) = Some (length bs)" for rest
    by (induction bs) auto
  then show "cstring s bs \<Longrightarrow> rt_strlen s = Some (length bs)" by (auto simp: cstring_def)
qed

lemma rt_memcmp_total:
  "n \<le> length cs \<Longrightarrow> n \<le> length ct \<Longrightarrow> \<exists>r. rt_memcmp cs ct n = Some r"
  by (induction cs ct n rule: rt_memcmp.induct) (auto simp: Let_def)

lemma rt_memcmp_zero:
  "n \<le> length cs \<Longrightarrow> n \<le> length ct \<Longrightarrow> rt_memcmp cs ct n = Some 0 \<longleftrightarrow> take n cs = take n ct"
  by (induction cs ct n rule: rt_memcmp.induct) (auto simp: Let_def)

lemma rt_memcmp_sign:
  "rt_memcmp cs ct n = Some r \<Longrightarrow> r \<noteq> 0 \<Longrightarrow>
   \<exists>i<n. take i cs = take i ct \<and> cs ! i \<noteq> ct ! i \<and> r = int (unat (cs ! i)) - int (unat (ct ! i))"
proof (induction cs ct n rule: rt_memcmp.induct)
  case (2 x cs y ct n)
  show ?case
  proof (cases "x = y")
    case True
    with 2 obtain i where "i < n" "take i cs = take i ct" "cs ! i \<noteq> ct ! i"
      "r = int (unat (cs ! i)) - int (unat (ct ! i))" by auto
    with True show ?thesis by (intro exI [of _ "Suc i"]) simp
  next
    case False
    then have "int (unat x) - int (unat y) \<noteq> 0" by simp
    with 2 False show ?thesis by (intro exI [of _ 0]) (auto simp: Let_def)
  qed
qed simp_all

lemma strstr_loop_spec:
  assumes "0 < l2" "l1 \<le> length s1" "l2 \<le> length s2"
  shows "strstr_loop pos s1 s2 l1 l2 =
     Some (if \<exists>k. k + l2 \<le> l1 \<and> take l2 (drop k s1) = take l2 s2
           then Some (pos + (LEAST k. k + l2 \<le> l1 \<and> take l2 (drop k s1) = take l2 s2))
           else None)"
  using assms
proof (induction pos s1 s2 l1 l2 rule: strstr_loop.induct)
  case (1 pos s1 s2 l1 l2)
  let ?P = "\<lambda>l s k. k + l2 \<le> l \<and> take l2 (drop k s) = take l2 s2"
  show ?case
  proof (cases "l1 \<ge> l2 \<and> 0 < l1")
    case False
    then have "\<not> ?P l1 s1 k" for k using 1 by auto
    moreover have "strstr_loop pos s1 s2 l1 l2 = Some None"
      unfolding strstr_loop.simps [of pos] if_not_P [OF False] ..
    ultimately show ?thesis by simp
  next
    case go: True
    then obtain r where r: "rt_memcmp s1 s2 l2 = Some r"
      using rt_memcmp_total [of l2 s1 s2] 1 by auto
    show ?thesis
    proof (cases "r = 0")
      case True
      then have P0: "?P l1 s1 0" using go r rt_memcmp_zero [of l2 s1 s2] 1 by auto
      then have "(LEAST k. ?P l1 s1 k) = 0" by (intro Least_equality) auto
      moreover have "strstr_loop pos s1 s2 l1 l2 = Some (Some pos)"
        using go r True by (simp add: strstr_loop.simps [of pos])
      moreover have "\<exists>k. ?P l1 s1 k" using P0 by (rule exI)
      ultimately show ?thesis by simp
    next
      case False
      then have nP0: "\<not> ?P l1 s1 0" using r rt_memcmp_zero [of l2 s1 s2] go 1 by auto
      have shift: "?P (l1 - 1) (tl s1) k = ?P l1 s1 (Suc k)" for k
        using go by (auto simp: drop_Suc)
      have ex: "(\<exists>k. ?P l1 s1 k) = (\<exists>k. ?P (l1 - 1) (tl s1) k)"
        unfolding shift using nP0 by (metis not0_implies_Suc)
      have least: "(\<exists>k. ?P l1 s1 k) \<Longrightarrow> (LEAST k. ?P l1 s1 k) = Suc (LEAST k. ?P (l1 - 1) (tl s1) k)"
        unfolding shift using Least_Suc [of "?P l1 s1" _] nP0 by blast
      from go False r have "strstr_loop pos s1 s2 l1 l2 = strstr_loop (pos + 1) (tl s1) s2 (l1 - 1) l2"
        by (simp add: strstr_loop.simps [of pos])
      also have "\<dots> = Some (if \<exists>k. ?P (l1 - 1) (tl s1) k
           then Some (pos + 1 + (LEAST k. ?P (l1 - 1) (tl s1) k)) else None)"
        using "1.IH" [OF go r] False "1.prems" by simp
      finally show ?thesis using ex least by auto
    qed
  qed
qed

lemma rt_strcmp_zero:
  "cstring s a \<Longrightarrow> cstring t b \<Longrightarrow> \<exists>r. rt_strcmp s t = Some r \<and> (r = 0 \<longleftrightarrow> a = b)"
proof (induction s t arbitrary: a b rule: rt_strcmp.induct)
  case (1 x cs y ct)
  show ?case
  proof (cases "x \<noteq> 0 \<and> x = y")
    case True
    with "1.prems" obtain a' b' where ab: "a = x # a'" "b = y # b'" "cstring cs a'" "cstring ct b'"
      by (auto simp: cstring_Cons)
    with "1.IH" [OF True ab(3,4)] True show ?thesis by auto
  next
    case False
    with "1.prems" show ?thesis by (auto simp: cstring_Cons split: if_splits)
  qed
qed simp_all

lemma to_schar_zero: "- 256 < i \<Longrightarrow> i < 256 \<Longrightarrow> to_schar i = 0 \<longleftrightarrow> i = 0"
proof -
  assume b: "- 256 < i" "i < 256"
  have "to_schar i = 0 \<longleftrightarrow> (word_of_int i :: 8 word) = 0"
    unfolding to_schar_def by (rule signed_eq_0_iff)
  also have "\<dots> \<longleftrightarrow> i mod 256 = 0" by (simp add: word_of_int_eq_0_iff dvd_eq_mod_eq_0)
  also have "\<dots> \<longleftrightarrow> i = 0" using b by presburger
  finally show ?thesis .
qed

text \<open>
  \<open>rt_strncmp\<close> returns zero exactly when the first \<open>count\<close> characters agree up to the
  terminator, and never reads past them.
\<close>

lemma unat_diff_range:
  fixes x y :: u8
  shows "- 256 < int (unat x) - int (unat y)" "int (unat x) - int (unat y) < 256"
proof -
  have "0 \<le> uint x" "0 \<le> uint y" "uint x < 256" "uint y < 256"
    using uint_bounded [of x] uint_bounded [of y] by simp_all
  then have "- 256 < uint x - uint y" "uint x - uint y < 256" by linarith+
  then show "- 256 < int (unat x) - int (unat y)" "int (unat x) - int (unat y) < 256"
    by simp_all
qed

lemma rt_strncmp_zero:
  "cstring s a \<Longrightarrow> cstring t b \<Longrightarrow>
     \<exists>r. rt_strncmp s t n = Some r \<and> (r = 0 \<longleftrightarrow> take n a = take n b)"
proof (induction s t n arbitrary: a b rule: rt_strncmp.induct)
  case (2 x cs y ct n)
  have z: "to_schar (int (unat x) - int (unat y)) = 0 \<longleftrightarrow> x = y"
    using to_schar_zero [OF unat_diff_range [of x y]] by simp
  show ?case
  proof (cases "x \<noteq> 0 \<and> x = y")
    case True
    with "2.prems" obtain a' b' where ab: "a = x # a'" "b = y # b'" "cstring cs a'" "cstring ct b'"
      by (auto simp: cstring_Cons)
    have "\<not> (to_schar (int (unat x) - int (unat y)) \<noteq> 0 \<or> x = 0)" using z True by auto
    from "2.IH" [OF refl this ab(3,4)] this ab True show ?thesis by (auto simp: Let_def)
  next
    case False
    with z "2.prems" show ?thesis
      by (auto simp: cstring_Cons Let_def split: if_splits)
  qed
qed simp_all

lemma strnlen_loop_past: "0 \<notin> set s \<Longrightarrow> i + length s \<le> maxlen \<Longrightarrow> strnlen_loop s i maxlen = None"
  by (induction s arbitrary: i) auto

lemma strnlen_loop_cstring:
  "0 \<notin> set bs \<Longrightarrow> i \<le> maxlen \<Longrightarrow>
     strnlen_loop (bs @ 0 # rest) i maxlen = Some (i + min (length bs) (maxlen - i))"
  by (induction bs arbitrary: i) auto

end
