(* ===== verification/Allocator.thy ===== *)
theory Allocator
  imports Main
begin

text \<open>
  What a client of a memory allocator relies on. A region is a pair of its first address and the
  address behind it; the regions handed out are nonempty and do not overlap.
\<close>

definition apart :: "(nat \<times> nat) set \<Rightarrow> bool" where
  "apart R \<longleftrightarrow> (\<forall>p\<in>R. fst p < snd p) \<and>
     (\<forall>p\<in>R. \<forall>q\<in>R. p \<noteq> q \<longrightarrow> snd p \<le> fst q \<or> snd q \<le> fst p)"

lemma apartD:
  assumes "apart R"
  shows "(a, e) \<in> R \<Longrightarrow> a < e" "(a, e) \<in> R \<Longrightarrow> (b, f) \<in> R \<Longrightarrow> (a, e) \<noteq> (b, f) \<Longrightarrow> e \<le> b \<or> f \<le> a"
  using assms unfolding apart_def by (force, metis fst_conv snd_conv)

lemma apart_fst_inj: "apart R \<Longrightarrow> (a, e) \<in> R \<Longrightarrow> (a, f) \<in> R \<Longrightarrow> e = f"
  using apartD(1) [of R a e] apartD(1) [of R a f] apartD(2) [of R a e a f] by auto

text \<open>A client asks for a number of bytes or gives back one of the pieces it holds.\<close>

datatype request = Request nat | Release nat

definition drop_nth :: "nat \<Rightarrow> 'a list \<Rightarrow> 'a list" where
  "drop_nth i xs = take i xs @ drop (Suc i) xs"

text \<open>The client's requests in order, with the pieces it holds.\<close>

fun serve :: "(nat \<Rightarrow> 's \<Rightarrow> (nat option \<times> 's) option) \<Rightarrow> (nat \<Rightarrow> 's \<Rightarrow> 's option) \<Rightarrow> request list \<Rightarrow>
    's \<times> (nat \<times> nat) list \<Rightarrow> ('s \<times> (nat \<times> nat) list) option" where
  "serve alloc free [] (s, held) = Some (s, held)"
| "serve alloc free (Request n # rs) (s, held) =
     (case alloc n s of
        None \<Rightarrow> None
      | Some (None, s') \<Rightarrow> serve alloc free rs (s', held)
      | Some (Some a, s') \<Rightarrow> serve alloc free rs (s', (a, n) # held))"
| "serve alloc free (Release i # rs) (s, held) =
     (if i < length held
      then case free (fst (held ! i)) s of
             None \<Rightarrow> None
           | Some s' \<Rightarrow> serve alloc free rs (s', drop_nth i held)
      else serve alloc free rs (s, held))"

text \<open>The pieces held lie in different regions that have been handed out.\<close>

definition holds :: "(nat \<times> nat) set \<Rightarrow> (nat \<times> nat) list \<Rightarrow> bool" where
  "holds R held \<longleftrightarrow> distinct (map fst held) \<and>
     (\<forall>p\<in>set held. 0 < snd p \<and> (\<exists>e. (fst p, e) \<in> R \<and> fst p + snd p \<le> e))"

definition pieces_apart :: "(nat \<times> nat) list \<Rightarrow> bool" where
  "pieces_apart held \<longleftrightarrow> (\<forall>i j. i < j \<longrightarrow> j < length held \<longrightarrow>
     fst (held ! i) + snd (held ! i) \<le> fst (held ! j) \<or>
     fst (held ! j) + snd (held ! j) \<le> fst (held ! i))"

lemma holds_apart:
  assumes "apart R" "holds R held"
  shows "pieces_apart held"
  unfolding pieces_apart_def
proof (intro allI impI)
  fix i j assume ij: "i < j" "j < length held"
  let ?p = "held ! i" and ?q = "held ! j"
  have "fst ?p \<noteq> fst ?q" using assms(2) ij nth_eq_iff_index_eq [of "map fst held" i j]
    by (auto simp: holds_def)
  moreover obtain e f where "(fst ?p, e) \<in> R" "fst ?p + snd ?p \<le> e" "(fst ?q, f) \<in> R" "fst ?q + snd ?q \<le> f"
    using assms(2) ij unfolding holds_def by (meson less_trans nth_mem)
  ultimately show "fst ?p + snd ?p \<le> fst ?q \<or> fst ?q + snd ?q \<le> fst ?p"
    using apartD(2) [OF assms(1), of "fst ?p" e "fst ?q" f] by auto
qed

lemma holds_mono: "holds R held \<Longrightarrow> R \<subseteq> R' \<Longrightarrow> holds R' held"
  unfolding holds_def by blast

lemma drop_nth_subset: "set (drop_nth i xs) \<subseteq> set xs"
  unfolding drop_nth_def using set_take_subset set_drop_subset by fastforce

lemma holds_drop:
  assumes "holds R held" "i < length held" "R' = R - {(fst (held ! i), e)}"
  shows "holds R' (drop_nth i held)"
proof -
  have d: "distinct (map fst held)" using assms(1) by (simp add: holds_def)
  have "map fst held = map fst (take i held) @ fst (held ! i) # map fst (drop (Suc i) held)"
    using id_take_nth_drop [OF assms(2)] by (metis list.simps(9) map_append)
  then have dr: "distinct (map fst (drop_nth i held))"
    and out: "fst (held ! i) \<notin> set (map fst (drop_nth i held))"
    using d by (auto simp: drop_nth_def)
  have in_R': "0 < snd p \<and> (\<exists>e. (fst p, e) \<in> R' \<and> fst p + snd p \<le> e)" if p: "p \<in> set (drop_nth i held)" for p
  proof -
    have "p \<in> set held" by (rule subsetD [OF drop_nth_subset p])
    then obtain f where "0 < snd p" "(fst p, f) \<in> R" "fst p + snd p \<le> f"
      using assms(1) unfolding holds_def by blast
    moreover have "fst p \<noteq> fst (held ! i)" using p out by (metis image_eqI set_map)
    ultimately show ?thesis using assms(3) by auto
  qed
  show ?thesis unfolding holds_def using dr in_R' by blast
qed

text \<open>
  \<open>alloc\<close> hands out a new region or refuses, \<open>free\<close> takes one back; neither fails, and no region but
  the one in question changes. \<open>fits\<close> are the sizes a client may ask for.
\<close>

locale allocator =
  fixes ok :: "'s \<Rightarrow> bool"
    and regions :: "'s \<Rightarrow> (nat \<times> nat) set"
    and fits :: "nat \<Rightarrow> bool"
    and alloc :: "nat \<Rightarrow> 's \<Rightarrow> (nat option \<times> 's) option"
    and free :: "nat \<Rightarrow> 's \<Rightarrow> 's option"
  assumes regions_apart: "ok s \<Longrightarrow> apart (regions s)"
    and fits_pos: "fits n \<Longrightarrow> 0 < n"
    and alloc_law: "ok s \<Longrightarrow> fits n \<Longrightarrow> \<exists>r s'. alloc n s = Some (r, s') \<and> ok s' \<and>
          (case r of None \<Rightarrow> regions s' = regions s
           | Some a \<Rightarrow> \<exists>e. (a, e) \<notin> regions s \<and> a + n \<le> e \<and> regions s' = insert (a, e) (regions s))"
    and free_law: "ok s \<Longrightarrow> (a, e) \<in> regions s \<Longrightarrow>
          \<exists>s'. free a s = Some s' \<and> ok s' \<and> regions s' = regions s - {(a, e)}"
begin

lemma alloc_fresh:
  assumes "ok s" "ok s'" "regions s' = insert (a, e) (regions s)" "(a, e) \<notin> regions s"
  shows "a \<notin> fst ` regions s"
proof
  assume "a \<in> fst ` regions s"
  then obtain f where f: "(a, f) \<in> regions s" by auto
  then have "f = e" using apart_fst_inj [OF regions_apart [OF assms(2)], of a f e] assms(3) by auto
  then show False using f assms(4) by simp
qed

theorem serve_safe:
  assumes "ok s" "holds (regions s) held" "\<forall>n. Request n \<in> set rs \<longrightarrow> fits n"
  shows "\<exists>s' held'. serve alloc free rs (s, held) = Some (s', held') \<and> ok s' \<and>
    holds (regions s') held' \<and> pieces_apart held'"
  using assms
proof (induction rs arbitrary: s held)
  case Nil
  then show ?case using holds_apart regions_apart by auto
next
  case (Cons r rs)
  show ?case
  proof (cases r)
    case (Request n)
    obtain q s' where a: "alloc n s = Some (q, s')" "ok s'" and q: "case q of
        None \<Rightarrow> regions s' = regions s
      | Some a \<Rightarrow> \<exists>e. (a, e) \<notin> regions s \<and> a + n \<le> e \<and> regions s' = insert (a, e) (regions s)"
      using alloc_law [OF Cons.prems(1)] Cons.prems(3) Request by fastforce
    show ?thesis
    proof (cases q)
      case None
      then show ?thesis using Cons.IH [OF a(2), of held] Cons.prems a q Request by auto
    next
      case (Some b)
      then obtain e where e: "(b, e) \<notin> regions s" "b + n \<le> e" "regions s' = insert (b, e) (regions s)"
        using q by auto
      have "b \<notin> fst ` set held"
        using alloc_fresh [OF Cons.prems(1) a(2) e(3,1)] Cons.prems(2) unfolding holds_def by force
      then have "holds (regions s') ((b, n) # held)"
        using Cons.prems(2,3) e Request fits_pos by (auto simp: holds_def)
      then show ?thesis using Cons.IH [OF a(2)] Cons.prems(3) a(1) Some Request by auto
    qed
  next
    case (Release i)
    show ?thesis
    proof (cases "i < length held")
      case True
      then obtain e where "(fst (held ! i), e) \<in> regions s"
        using Cons.prems(2) unfolding holds_def by (meson nth_mem)
      then obtain s' where f: "free (fst (held ! i)) s = Some s'" "ok s'"
        "regions s' = regions s - {(fst (held ! i), e)}"
        using free_law [OF Cons.prems(1)] by blast
      then show ?thesis
        using Cons.IH [OF f(2) holds_drop [OF Cons.prems(2) True f(3)]] Cons.prems(3) Release True by auto
    next
      case False
      then show ?thesis using Cons.IH [OF Cons.prems(1,2)] Cons.prems(3) Release by auto
    qed
  qed
qed

end

end
