(* ===== verification/SmallMem.thy ===== *)
theory SmallMem
  imports KMemory Allocator
begin

text \<open>
  The small memory heap of src/mem.c: a first-fit allocator whose blocks form a doubly linked list
  in address order, each with a header in front of its data. Addresses are offsets from
  \<open>heap_ptr\<close>, headers a map from the offset of a block; \<open>rt_size_t\<close> is an unsigned 32-bit integer.
  The heap semaphore makes each operation atomic, so it does not appear.
\<close>

section \<open>State and operations\<close>

definition SIZEOF_STRUCT_MEM :: nat where
  "SIZEOF_STRUCT_MEM = 12"

definition MIN_SIZE_ALIGNED :: nat where
  "MIN_SIZE_ALIGNED = 12"

definition HEAP_MAGIC :: nat where
  "HEAP_MAGIC = 0x1ea0"

record heap_mem =
  hm_magic :: nat
  hm_used :: nat
  hm_next :: nat
  hm_prev :: nat

record heap =
  h_mem :: "nat \<Rightarrow> heap_mem"
  h_size :: nat   \<comment> \<open>\<open>mem_size_aligned\<close>\<close>
  h_lfree :: nat  \<comment> \<open>the lowest free block\<close>
  h_used :: nat   \<comment> \<open>\<open>used_mem\<close>\<close>
  h_max :: nat    \<comment> \<open>\<open>max_mem\<close>\<close>
  h_data :: bmem  \<comment> \<open>the bytes handed out\<close>

definition heap_end :: "heap \<Rightarrow> nat" where
  "heap_end h = h_size h + SIZEOF_STRUCT_MEM"

abbreviation blk_used :: "heap \<Rightarrow> nat \<Rightarrow> nat" where
  "blk_used h b \<equiv> hm_used (h_mem h b)"

abbreviation blk_next :: "heap \<Rightarrow> nat \<Rightarrow> nat" where
  "blk_next h b \<equiv> hm_next (h_mem h b)"

abbreviation blk_prev :: "heap \<Rightarrow> nat \<Rightarrow> nat" where
  "blk_prev h b \<equiv> hm_prev (h_mem h b)"

abbreviation upd_hdr :: "nat \<Rightarrow> (heap_mem \<Rightarrow> heap_mem) \<Rightarrow> heap \<Rightarrow> heap" where
  "upd_hdr b f h \<equiv> h\<lparr>h_mem := (h_mem h)(b := f (h_mem h b))\<rparr>"

text \<open>Unsigned subtraction, and rounding up to the alignment in 32 bits.\<close>

definition usub :: "nat \<Rightarrow> nat \<Rightarrow> nat" where
  "usub a b = trunc_u 32 (int a - int b)"

definition rt_align32 :: "nat \<Rightarrow> nat" where
  "rt_align32 n = trunc_u 32 (int (rt_align n))"

text \<open>The length of the data of a block, as the code computes it.\<close>

definition blk_room :: "heap \<Rightarrow> nat \<Rightarrow> nat" where
  "blk_room h b = usub (blk_next h b) (b + SIZEOF_STRUCT_MEM)"

definition plug_forward :: "nat \<Rightarrow> heap \<Rightarrow> heap" where
  "plug_forward mem h =
     (let nmem = blk_next h mem in
      if mem \<noteq> nmem \<and> blk_used h nmem = 0 \<and> nmem \<noteq> heap_end h
      then let h1 = (if h_lfree h = nmem then h\<lparr>h_lfree := mem\<rparr> else h);
               h2 = upd_hdr mem (\<lambda>m. m\<lparr>hm_next := blk_next h nmem\<rparr>) h1
           in upd_hdr (blk_next h2 nmem) (\<lambda>m. m\<lparr>hm_prev := mem\<rparr>) h2
      else h)"

definition plug_backward :: "nat \<Rightarrow> heap \<Rightarrow> heap" where
  "plug_backward mem h =
     (let pmem = blk_prev h mem in
      if pmem \<noteq> mem \<and> blk_used h pmem = 0
      then let h1 = (if h_lfree h = mem then h\<lparr>h_lfree := pmem\<rparr> else h);
               h2 = upd_hdr pmem (\<lambda>m. m\<lparr>hm_next := blk_next h mem\<rparr>) h1
           in upd_hdr (blk_next h2 mem) (\<lambda>m. m\<lparr>hm_prev := pmem\<rparr>) h2
      else h)"

definition plug_holes :: "nat \<Rightarrow> heap \<Rightarrow> heap option" where
  "plug_holes mem h =
     (if mem < heap_end h \<and> blk_used h mem = 0
      then Some (plug_backward mem (plug_forward mem h)) else None)"

text \<open>
  \<open>begin_addr\<close> and \<open>end_addr\<close> bound the memory; \<open>old\<close> is what the memory and the globals held.
  Too small a memory leaves the heap as it was.
\<close>

definition rt_system_heap_init :: "nat \<Rightarrow> nat \<Rightarrow> heap \<Rightarrow> heap" where
  "rt_system_heap_init begin_addr end_addr old =
     (let begin_align = rt_align32 begin_addr;
          end_align = rt_align_down end_addr in
      if end_align > 2 * SIZEOF_STRUCT_MEM \<and> end_align - 2 * SIZEOF_STRUCT_MEM \<ge> begin_align
      then let sz = end_align - begin_align - 2 * SIZEOF_STRUCT_MEM;
               e = sz + SIZEOF_STRUCT_MEM;
               start = \<lparr>hm_magic = HEAP_MAGIC, hm_used = 0, hm_next = e, hm_prev = 0\<rparr>;
               last = \<lparr>hm_magic = HEAP_MAGIC, hm_used = 1, hm_next = e, hm_prev = e\<rparr>
           in old\<lparr>h_mem := (h_mem old)(0 := start, e := last), h_size := sz, h_lfree := 0\<rparr>
      else old)"

text \<open>The search for a block that is unused and has room for \<open>n\<close> bytes.\<close>

partial_function (option) malloc_scan :: "heap \<Rightarrow> nat \<Rightarrow> nat \<Rightarrow> nat option option" where
  "malloc_scan h n ptr =
     (if ptr < usub (h_size h) n
      then if blk_used h ptr = 0 \<and> blk_room h ptr \<ge> n then Some (Some ptr)
           else malloc_scan h n (blk_next h ptr)
      else Some None)"

text \<open>The search for the next lowest free block, from \<open>p\<close> on.\<close>

partial_function (option) lfree_scan :: "heap \<Rightarrow> nat \<Rightarrow> nat option" where
  "lfree_scan h p =
     (if blk_used h p \<noteq> 0 \<and> p \<noteq> heap_end h then lfree_scan h (blk_next h p) else Some p)"

definition count_used :: "nat \<Rightarrow> heap \<Rightarrow> heap" where
  "count_used n h =
     (let u = trunc_u 32 (int (h_used h) + int n)
      in h\<lparr>h_used := u, h_max := (if h_max h < u then u else h_max h)\<rparr>)"

text \<open>Inserting the header of the rest behind \<open>n\<close> bytes of data.\<close>

definition split_blk :: "nat \<Rightarrow> nat \<Rightarrow> heap \<Rightarrow> heap" where
  "split_blk mem n h =
     (let ptr2 = mem + SIZEOF_STRUCT_MEM + n;
          nx = blk_next h mem;
          h1 = h\<lparr>h_mem := (h_mem h)(ptr2 := \<lparr>hm_magic = HEAP_MAGIC, hm_used = 0,
                                              hm_next = nx, hm_prev = mem\<rparr>)\<rparr>;
          h2 = upd_hdr mem (\<lambda>m. m\<lparr>hm_next := ptr2\<rparr>) h1
      in if nx \<noteq> heap_end h then upd_hdr nx (\<lambda>m. m\<lparr>hm_prev := ptr2\<rparr>) h2 else h2)"

definition malloc_take :: "nat \<Rightarrow> nat \<Rightarrow> heap \<Rightarrow> heap" where
  "malloc_take mem n h =
     (let h1 = (if blk_room h mem \<ge> n + SIZEOF_STRUCT_MEM + MIN_SIZE_ALIGNED
                then count_used (n + SIZEOF_STRUCT_MEM)
                       (upd_hdr mem (\<lambda>m. m\<lparr>hm_used := 1\<rparr>) (split_blk mem n h))
                else count_used (usub (blk_next h mem) mem)
                       (upd_hdr mem (\<lambda>m. m\<lparr>hm_used := 1\<rparr>) h))
      in upd_hdr mem (\<lambda>m. m\<lparr>hm_magic := HEAP_MAGIC\<rparr>) h1)"

text \<open>The size that \<open>rt_malloc\<close> searches for; \<open>None\<close> when it gives up before searching.\<close>

definition malloc_size :: "nat \<Rightarrow> heap \<Rightarrow> nat option" where
  "malloc_size n h =
     (if n = 0 then None
      else let n1 = rt_align32 n in
           if n1 > h_size h then None
           else Some (if n1 < MIN_SIZE_ALIGNED then MIN_SIZE_ALIGNED else n1))"

definition rt_malloc :: "nat \<Rightarrow> heap \<Rightarrow> (nat option \<times> heap) option" where
  "rt_malloc n h =
     (case malloc_size n h of
        None \<Rightarrow> Some (None, h)
      | Some n2 \<Rightarrow>
          do { r \<leftarrow> malloc_scan h n2 (h_lfree h);
               case r of
                 None \<Rightarrow> Some (None, h)
               | Some mem \<Rightarrow>
                   do { h2 \<leftarrow> (let h1 = malloc_take mem n2 h in
                               if mem = h_lfree h1
                               then map_option (\<lambda>p. h1\<lparr>h_lfree := p\<rparr>) (lfree_scan h1 (h_lfree h1))
                               else Some h1);
                        if mem + SIZEOF_STRUCT_MEM + n2 \<le> heap_end h2 \<and> mem mod RT_ALIGN_SIZE = 0
                        then Some (Some (mem + SIZEOF_STRUCT_MEM), h2) else None } })"

text \<open>
  A pointer is the offset of its address, which may lie before the heap; a header in front of the
  heap cannot be read.
\<close>

definition rt_free :: "int option \<Rightarrow> heap \<Rightarrow> heap option" where
  "rt_free rmem h =
     (case rmem of
        None \<Rightarrow> Some h
      | Some r \<Rightarrow>
          if r mod int RT_ALIGN_SIZE = 0 \<and> 0 \<le> r \<and> r < int (heap_end h)
             \<and> int SIZEOF_STRUCT_MEM \<le> r
          then let mem = nat r - SIZEOF_STRUCT_MEM in
               if blk_used h mem \<noteq> 0 \<and> hm_magic (h_mem h mem) = HEAP_MAGIC
               then let h1 = upd_hdr mem (\<lambda>m. m\<lparr>hm_used := 0, hm_magic := HEAP_MAGIC\<rparr>) h;
                        h2 = (if mem < h_lfree h1 then h1\<lparr>h_lfree := mem\<rparr> else h1);
                        h3 = h2\<lparr>h_used := trunc_u 32 (int (h_used h2)
                                                     - int (usub (blk_next h2 mem) mem))\<rparr>
                    in plug_holes mem h3
               else None
          else None)"

definition rt_realloc :: "int option \<Rightarrow> nat \<Rightarrow> heap \<Rightarrow> (int option \<times> heap) option" where
  "rt_realloc rmem newsize h =
     (let n = rt_align32 newsize in
      if n > h_size h then Some (None, h)
      else if n = 0 then map_option (Pair None) (rt_free rmem h)
      else case rmem of
        None \<Rightarrow> map_option (\<lambda>(p, h'). (map_option int p, h')) (rt_malloc n h)
      | Some r \<Rightarrow>
          if r < 0 \<or> r \<ge> int (heap_end h) then Some (Some r, h)
          else if r < int SIZEOF_STRUCT_MEM then None
          else let mem = nat r - SIZEOF_STRUCT_MEM;
                   sz = usub (usub (blk_next h mem) mem) SIZEOF_STRUCT_MEM in
               if sz = n then Some (Some r, h)
               else if n + SIZEOF_STRUCT_MEM + MIN_SIZE_ALIGNED < sz
               then let h1 = h\<lparr>h_used := trunc_u 32 (int (h_used h) - int (usub sz n))\<rparr>;
                        h2 = split_blk mem n h1
                    in map_option (Pair (Some r)) (plug_holes (mem + SIZEOF_STRUCT_MEM + n) h2)
               else do { (p, h1) \<leftarrow> rt_malloc n h;
                         case p of
                           None \<Rightarrow> Some (None, h1)
                         | Some a \<Rightarrow>
                             map_option (Pair (Some (int a)))
                               (rt_free rmem (h1\<lparr>h_data := rt_memcpy (h_data h1) a (nat r)
                                                            (if sz < n then sz else n)\<rparr>)) })"

definition rt_calloc :: "nat \<Rightarrow> nat \<Rightarrow> heap \<Rightarrow> (nat option \<times> heap) option" where
  "rt_calloc count n h =
     (let bytes = trunc_u 32 (int count * int n) in
      do { (p, h1) \<leftarrow> rt_malloc bytes h;
           Some (case p of
                   None \<Rightarrow> (None, h1)
                 | Some a \<Rightarrow> (Some a, h1\<lparr>h_data := rt_memset (h_data h1) a 0 bytes\<rparr>)) })"

definition rt_memory_info :: "heap \<Rightarrow> nat \<times> nat \<times> nat" where
  "rt_memory_info h = (h_size h, h_used h, h_max h)"


section \<open>The chain of blocks\<close>

lemma usub_le [simp]: "b \<le> a \<Longrightarrow> a < 2 ^ 32 \<Longrightarrow> usub a b = a - b"
  by (simp add: usub_def trunc_u_def nat_mod_distrib of_nat_diff nat_diff_distrib)

text \<open>\<open>xs\<close> are the blocks from one with predecessor \<open>p\<close> up to the end \<open>e\<close>.\<close>

fun hseg :: "(nat \<Rightarrow> heap_mem) \<Rightarrow> nat \<Rightarrow> nat list \<Rightarrow> nat \<Rightarrow> bool" where
  "hseg H p [] e \<longleftrightarrow> True"
| "hseg H p (x # xs) e \<longleftrightarrow>
     hm_prev (H x) = p \<and> hm_next (H x) = hd (xs @ [e]) \<and>
     x + SIZEOF_STRUCT_MEM \<le> hd (xs @ [e]) \<and> hseg H x xs e"

lemma hseg_append:
  "hseg H p (xs @ ys) e \<longleftrightarrow> hseg H p xs (hd (ys @ [e])) \<and> hseg H (last (p # xs)) ys e"
proof (induction xs arbitrary: p)
  case (Cons x xs)
  then show ?case by (cases xs) auto
qed simp

lemma hseg_cong:
  "(\<And>x. x \<in> set xs \<Longrightarrow> hm_next (H' x) = hm_next (H x) \<and> hm_prev (H' x) = hm_prev (H x)) \<Longrightarrow>
   hseg H' p xs e = hseg H p xs e"
  by (induction xs arbitrary: p) auto

lemma hseg_sorted: "hseg H p xs e \<Longrightarrow> sorted_wrt (\<lambda>a b. a + SIZEOF_STRUCT_MEM \<le> b) (xs @ [e])"
proof (induction xs arbitrary: p)
  case (Cons x xs)
  then have IH: "sorted_wrt (\<lambda>a b. a + SIZEOF_STRUCT_MEM \<le> b) (xs @ [e])"
    and h: "x + SIZEOF_STRUCT_MEM \<le> hd (xs @ [e])" by auto
  from IH h have "\<forall>y\<in>set (xs @ [e]). x + SIZEOF_STRUCT_MEM \<le> y" by (cases xs) auto
  with IH show ?case by auto
qed simp

text \<open>The first block is at offset 0, the end block never free.\<close>

definition chain_ok :: "heap \<Rightarrow> nat list \<Rightarrow> bool" where
  "chain_ok h xs \<longleftrightarrow> xs \<noteq> [] \<and> hd xs = 0 \<and> hseg (h_mem h) 0 xs (heap_end h) \<and>
     blk_used h (heap_end h) \<noteq> 0 \<and> blk_next h (heap_end h) = heap_end h \<and>
     (\<forall>x\<in>set xs. RT_ALIGN_SIZE dvd x) \<and> RT_ALIGN_SIZE dvd heap_end h \<and>
     heap_end h + SIZEOF_STRUCT_MEM < 2 ^ 32"

definition in_use :: "heap \<Rightarrow> nat list \<Rightarrow> nat set" where
  "in_use h xs = {x \<in> set xs. blk_used h x \<noteq> 0}"

definition no_two_free :: "heap \<Rightarrow> nat list \<Rightarrow> bool" where
  "no_two_free h xs \<longleftrightarrow> successively (\<lambda>a b. blk_used h a \<noteq> 0 \<or> blk_used h b \<noteq> 0) xs"

definition lfree_ok :: "heap \<Rightarrow> nat list \<Rightarrow> bool" where
  "lfree_ok h xs \<longleftrightarrow> h_lfree h = heap_end h \<or> h_lfree h \<in> set xs \<and> blk_used h (h_lfree h) = 0"

text \<open>\<open>used_mem\<close> is what the used blocks take, with their headers.\<close>

definition live_ok :: "heap \<Rightarrow> nat list \<Rightarrow> bool" where
  "live_ok h xs \<longleftrightarrow> (\<forall>x\<in>in_use h xs. hm_magic (h_mem h x) = HEAP_MAGIC \<and>
                                    x + SIZEOF_STRUCT_MEM < blk_next h x) \<and>
     h_used h = (\<Sum>x\<in>in_use h xs. blk_next h x - x)"

definition heap_ok :: "heap \<Rightarrow> nat list \<Rightarrow> bool" where
  "heap_ok h xs \<longleftrightarrow> chain_ok h xs \<and> no_two_free h xs \<and> lfree_ok h xs \<and> live_ok h xs"

text \<open>No unused block lies below \<open>lfree\<close>.\<close>

definition lfree_lowest :: "heap \<Rightarrow> nat list \<Rightarrow> bool" where
  "lfree_lowest h xs \<longleftrightarrow> (\<forall>x\<in>set xs. x < h_lfree h \<longrightarrow> blk_used h x \<noteq> 0)"

definition keeps_live :: "heap \<Rightarrow> nat list \<Rightarrow> heap \<Rightarrow> nat list \<Rightarrow> bool" where
  "keeps_live h xs h' xs' \<longleftrightarrow> in_use h' xs' = in_use h xs \<and> h_used h' = h_used h \<and>
     (\<forall>x\<in>in_use h xs. blk_next h' x = blk_next h x \<and> hm_magic (h_mem h' x) = hm_magic (h_mem h x))"

lemma keeps_live_ok: "live_ok h xs \<Longrightarrow> keeps_live h xs h' xs' \<Longrightarrow> live_ok h' xs'"
  unfolding live_ok_def keeps_live_def by (auto cong: sum.cong)

lemma keeps_live_trans:
  "keeps_live h xs h' xs' \<Longrightarrow> keeps_live h' xs' h'' xs'' \<Longrightarrow> keeps_live h xs h'' xs''"
  unfolding keeps_live_def by auto

lemma chain_sorted:
  "chain_ok h xs \<Longrightarrow> sorted_wrt (\<lambda>a b. a + SIZEOF_STRUCT_MEM \<le> b) (xs @ [heap_end h])"
  unfolding chain_ok_def by (blast intro: hseg_sorted)

lemma gap_distinct: "sorted_wrt (\<lambda>a b. a + SIZEOF_STRUCT_MEM \<le> b) xs \<Longrightarrow> distinct xs"
  by (induction xs) (auto simp: SIZEOF_STRUCT_MEM_def)

lemma chain_distinct: "chain_ok h xs \<Longrightarrow> distinct (xs @ [heap_end h])"
  by (blast intro: gap_distinct chain_sorted)

text \<open>What the chain says around a block.\<close>

lemma chain_at:
  assumes "chain_ok h (as @ m # bs)"
  shows "blk_next h m = hd (bs @ [heap_end h])" "m + SIZEOF_STRUCT_MEM \<le> blk_next h m"
    "blk_next h m \<le> heap_end h" "as = [] \<Longrightarrow> blk_prev h m = m"
    "as \<noteq> [] \<Longrightarrow> blk_prev h m = last as" "RT_ALIGN_SIZE dvd m"
    "m + SIZEOF_STRUCT_MEM \<le> heap_end h" "heap_end h + SIZEOF_STRUCT_MEM < 2 ^ 32"
    "blk_room h m = blk_next h m - (m + SIZEOF_STRUCT_MEM)"
    "m \<notin> set as" "m \<notin> set bs"
    "\<And>x. x \<in> set as \<Longrightarrow> x + SIZEOF_STRUCT_MEM \<le> m" "\<And>x. x \<in> set bs \<Longrightarrow> blk_next h m \<le> x"
    "\<And>x. x \<in> set bs \<Longrightarrow> x + SIZEOF_STRUCT_MEM \<le> heap_end h"
proof -
  note c = assms [unfolded chain_ok_def hseg_append]
  note so = chain_sorted [OF assms]
  show nx: "blk_next h m = hd (bs @ [heap_end h])" and le: "m + SIZEOF_STRUCT_MEM \<le> blk_next h m"
    and "RT_ALIGN_SIZE dvd m" and b: "heap_end h + SIZEOF_STRUCT_MEM < 2 ^ 32" using c by auto
  show e: "blk_next h m \<le> heap_end h" using so nx by (cases bs) (auto simp: sorted_wrt_append)
  then show "m + SIZEOF_STRUCT_MEM \<le> heap_end h" using le by simp
  show "as = [] \<Longrightarrow> blk_prev h m = m" using c by auto
  show "as \<noteq> [] \<Longrightarrow> blk_prev h m = last as" using c by auto
  show "blk_room h m = blk_next h m - (m + SIZEOF_STRUCT_MEM)"
    unfolding blk_room_def using le e b by (intro usub_le) auto
  show "m \<notin> set as" "m \<notin> set bs" using chain_distinct [OF assms] by auto
  show "\<And>x. x \<in> set as \<Longrightarrow> x + SIZEOF_STRUCT_MEM \<le> m"
    using so by (auto simp: sorted_wrt_append)
  show "\<And>x. x \<in> set bs \<Longrightarrow> blk_next h m \<le> x"
    using so nx by (cases bs) (auto simp: sorted_wrt_append)
  show "\<And>x. x \<in> set bs \<Longrightarrow> x + SIZEOF_STRUCT_MEM \<le> heap_end h"
    using so by (auto simp: sorted_wrt_append)
qed


section \<open>Splitting and merging blocks\<close>

text \<open>Both halves of \<open>plug_holes\<close> merge a block with the one behind it.\<close>

definition merge_blk :: "nat \<Rightarrow> nat \<Rightarrow> heap \<Rightarrow> heap" where
  "merge_blk a b h =
     upd_hdr (blk_next h b) (\<lambda>m. m\<lparr>hm_prev := a\<rparr>)
       (upd_hdr a (\<lambda>m. m\<lparr>hm_next := blk_next h b\<rparr>)
          (if h_lfree h = b then h\<lparr>h_lfree := a\<rparr> else h))"

lemma plug_forward_merge:
  "plug_forward m h =
     (if m \<noteq> blk_next h m \<and> blk_used h (blk_next h m) = 0 \<and> blk_next h m \<noteq> heap_end h
      then merge_blk m (blk_next h m) h else h)"
  by (auto simp: plug_forward_def merge_blk_def Let_def heap_end_def)

lemma plug_backward_merge:
  "plug_backward m h =
     (if blk_prev h m \<noteq> m \<and> blk_used h (blk_prev h m) = 0
      then merge_blk (blk_prev h m) m h else h)"
  by (auto simp: plug_backward_def merge_blk_def Let_def)

lemma merge_blk_fields [simp]:
  "heap_end (merge_blk a b h) = heap_end h" "h_size (merge_blk a b h) = h_size h"
  "h_used (merge_blk a b h) = h_used h" "h_data (merge_blk a b h) = h_data h"
  "h_max (merge_blk a b h) = h_max h"
  "h_lfree (merge_blk a b h) = (if h_lfree h = b then a else h_lfree h)"
  "blk_used (merge_blk a b h) x = blk_used h x"
  "hm_magic (h_mem (merge_blk a b h) x) = hm_magic (h_mem h x)"
  "blk_next (merge_blk a b h) x = (if x = a then blk_next h b else blk_next h x)"
  "blk_prev (merge_blk a b h) x = (if x = blk_next h b then a else blk_prev h x)"
  by (auto simp: merge_blk_def heap_end_def)

lemma merge_chain:
  assumes c: "chain_ok h (as @ a # b # cs)"
  shows "chain_ok (merge_blk a b h) (as @ a # cs)"
proof -
  let ?e = "heap_end h" and ?H = "h_mem (merge_blk a b h)"
  from chain_distinct [OF c] have d: "distinct (as @ a # b # cs @ [?e])" by simp
  note u = c [unfolded chain_ok_def hseg_append]
  have nb: "blk_next h b = hd (cs @ [?e])" using u by auto
  then have nin: "blk_next h b \<noteq> a" "blk_next h b \<notin> set as" using d by (cases cs; auto)+
  have "hseg ?H 0 as a"
    using u d nin by (subst hseg_cong [of _ _ "h_mem h"]) auto
  moreover have "hseg ?H a cs ?e"
  proof (cases cs)
    case (Cons c cs')
    then have "hseg ?H c cs' ?e"
      using u d nb by (subst hseg_cong [of _ _ "h_mem h"]) auto
    with Cons u d nb show ?thesis by auto
  qed simp
  ultimately have "hseg ?H 0 (as @ a # cs) ?e"
    using u d nb nin by (auto simp: hseg_append)
  then show ?thesis using u d by (cases as) (auto simp: chain_ok_def)
qed

lemma merge_keeps:
  assumes c: "chain_ok h (as @ a # b # cs)" and "blk_used h a = 0" "blk_used h b = 0"
  shows "keeps_live h (as @ a # b # cs) (merge_blk a b h) (as @ a # cs)"
  using assms by (auto simp: keeps_live_def in_use_def)

lemma merge_lfree:
  assumes "chain_ok h (as @ a # b # cs)" "blk_used h a = 0" "lfree_ok h (as @ a # b # cs)"
  shows "lfree_ok (merge_blk a b h) (as @ a # cs)"
  using assms by (auto simp: lfree_ok_def)

lemma merge_lowest:
  assumes c: "chain_ok h (as @ a # b # cs)" and l: "lfree_lowest h (as @ a # b # cs)"
  shows "lfree_lowest (merge_blk a b h) (as @ a # cs)"
proof -
  have "a < b" using chain_sorted [OF c] by (auto simp: sorted_wrt_append SIZEOF_STRUCT_MEM_def)
  with l show ?thesis by (auto simp: lfree_lowest_def)
qed

lemma split_blk_fields [simp]:
  "heap_end (split_blk m n h) = heap_end h" "h_size (split_blk m n h) = h_size h"
  "h_used (split_blk m n h) = h_used h" "h_data (split_blk m n h) = h_data h"
  "h_max (split_blk m n h) = h_max h" "h_lfree (split_blk m n h) = h_lfree h"
  by (auto simp: split_blk_def heap_end_def Let_def)

lemma split_chain:
  assumes c: "chain_ok h (as @ m # bs)"
    and room: "m + SIZEOF_STRUCT_MEM + n + SIZEOF_STRUCT_MEM \<le> blk_next h m"
    and al: "RT_ALIGN_SIZE dvd n"
  shows "chain_ok (split_blk m n h) (as @ m # (m + SIZEOF_STRUCT_MEM + n) # bs)"
    and "blk_used (split_blk m n h) (m + SIZEOF_STRUCT_MEM + n) = 0"
    and "\<And>x. x \<noteq> m + SIZEOF_STRUCT_MEM + n \<Longrightarrow> blk_used (split_blk m n h) x = blk_used h x \<and>
           hm_magic (h_mem (split_blk m n h) x) = hm_magic (h_mem h x)"
    and "\<And>x. x \<noteq> m + SIZEOF_STRUCT_MEM + n \<Longrightarrow> x \<noteq> m \<Longrightarrow>
           blk_next (split_blk m n h) x = blk_next h x"
    and "blk_next (split_blk m n h) m = m + SIZEOF_STRUCT_MEM + n"
    and "m + SIZEOF_STRUCT_MEM + n \<notin> set (as @ m # bs)"
proof -
  let ?e = "heap_end h" and ?k = "m + SIZEOF_STRUCT_MEM + n" and ?H = "h_mem (split_blk m n h)"
  note at = chain_at [OF c]
  from chain_distinct [OF c] have d: "distinct (as @ m # bs @ [?e])" by simp
  note u = c [unfolded chain_ok_def hseg_append]
  have S: "0 < SIZEOF_STRUCT_MEM" "RT_ALIGN_SIZE dvd SIZEOF_STRUCT_MEM"
    by (auto simp: SIZEOF_STRUCT_MEM_def RT_ALIGN_SIZE_def)
  have k: "?k \<notin> set as" "?k \<notin> set bs" "?k < ?e" "?k \<noteq> m" "?k < blk_next h m"
    using at(3,12,13) room S(1) by fastforce+
  then show "?k \<notin> set (as @ m # bs)" by simp
  have nin: "blk_next h m \<noteq> m" "blk_next h m \<notin> set as"
    using at(1,2,12) d S(1) by (cases bs; auto)+
  have nx: "hm_next (?H x) = (if x = ?k then blk_next h m else if x = m then ?k else blk_next h x)"
    and us: "hm_used (?H x) = (if x = ?k then 0 else blk_used h x)"
    and mg: "hm_magic (?H x) = (if x = ?k then HEAP_MAGIC else hm_magic (h_mem h x))"
    and pv: "hm_prev (?H x) = (if x = ?k then m else if x = blk_next h m \<and> x \<noteq> ?e then ?k else blk_prev h x)"
    for x using k nin by (auto simp: split_blk_def Let_def)
  show "blk_used (split_blk m n h) ?k = 0" "blk_next (split_blk m n h) m = ?k"
    using us nx k by auto
  show "\<And>x. x \<noteq> ?k \<Longrightarrow> blk_used (split_blk m n h) x = blk_used h x \<and> hm_magic (?H x) = hm_magic (h_mem h x)"
    and "\<And>x. x \<noteq> ?k \<Longrightarrow> x \<noteq> m \<Longrightarrow> blk_next (split_blk m n h) x = blk_next h x"
    using us nx mg by auto
  have "hseg ?H 0 as m"
    using u d nin k by (subst hseg_cong [of _ _ "h_mem h"]) (auto simp: nx pv)
  moreover have "hseg ?H ?k bs ?e"
  proof (cases bs)
    case (Cons c cs)
    then have "hseg ?H c cs ?e"
      using u d at(1) k by (subst hseg_cong [of _ _ "h_mem h"]) (auto simp: nx pv)
    with Cons u d at(1) k show ?thesis by (auto simp: nx pv)
  qed simp
  ultimately have "hseg ?H 0 (as @ m # ?k # bs) ?e"
    using u d at(1) nin k room by (auto simp: hseg_append nx pv)
  then show "chain_ok (split_blk m n h) (as @ m # ?k # bs)"
    using u d k S al us nx at(6) by (cases as) (auto simp: chain_ok_def)
qed


text \<open>What both steps of \<open>plug_holes\<close> keep.\<close>

definition plugged :: "heap \<Rightarrow> nat list \<Rightarrow> heap \<Rightarrow> nat list \<Rightarrow> bool" where
  "plugged h xs h' xs' \<longleftrightarrow> chain_ok h' xs' \<and> keeps_live h xs h' xs' \<and>
     (lfree_ok h xs \<longrightarrow> lfree_ok h' xs') \<and> (lfree_lowest h xs \<longrightarrow> lfree_lowest h' xs') \<and>
     h_size h' = h_size h \<and> h_data h' = h_data h \<and> h_max h' = h_max h"

lemma plugged_refl: "chain_ok h xs \<Longrightarrow> plugged h xs h xs"
  by (simp add: plugged_def keeps_live_def)

lemma plugged_trans: "plugged h xs h1 xs1 \<Longrightarrow> plugged h1 xs1 h2 xs2 \<Longrightarrow> plugged h xs h2 xs2"
  unfolding plugged_def by (auto intro: keeps_live_trans)

lemma merge_plugged:
  assumes "chain_ok h (as @ a # b # cs)" "blk_used h a = 0" "blk_used h b = 0"
  shows "plugged h (as @ a # b # cs) (merge_blk a b h) (as @ a # cs)"
  unfolding plugged_def
  using merge_chain merge_keeps merge_lfree merge_lowest assms by simp

lemma no_two_free_cong:
  "(\<And>x. blk_used h' x = blk_used h x) \<Longrightarrow> no_two_free h' xs = no_two_free h xs"
  by (simp add: no_two_free_def)

lemma no_two_free_mono:
  "no_two_free h xs \<Longrightarrow> (\<And>x. x \<in> set xs \<Longrightarrow> blk_used h x \<noteq> 0 \<Longrightarrow> blk_used h' x \<noteq> 0) \<Longrightarrow>
   no_two_free h' xs"
  unfolding no_two_free_def by (erule successively_mono) blast

lemma no_two_free_append:
  "no_two_free h (xs @ ys) \<longleftrightarrow> no_two_free h xs \<and> no_two_free h ys \<and>
     (xs = [] \<or> ys = [] \<or> blk_used h (last xs) \<noteq> 0 \<or> blk_used h (hd ys) \<noteq> 0)"
  by (auto simp: no_two_free_def successively_append_iff)

lemma no_two_free_short [simp]: "no_two_free h []" "no_two_free h [x]"
  by (simp_all add: no_two_free_def)

lemma no_two_free_Cons:
  "no_two_free h (x # ys) \<longleftrightarrow>
     no_two_free h ys \<and> (ys = [] \<or> blk_used h x \<noteq> 0 \<or> blk_used h (hd ys) \<noteq> 0)"
  using no_two_free_append [of h "[x]" ys] by (auto simp: no_two_free_def)

lemma plug_forward_spec:
  assumes c: "chain_ok h (as @ m # bs)" and m: "blk_used h m = 0" and nb: "no_two_free h bs"
  obtains bs' where "plugged h (as @ m # bs) (plug_forward m h) (as @ m # bs')"
    "no_two_free h (m # bs')" "\<And>x. blk_used (plug_forward m h) x = blk_used h x"
proof (cases "bs = [] \<or> blk_used h (hd bs) \<noteq> 0")
  case True
  have "plug_forward m h = h"
    using True chain_at(1) [OF c] by (cases bs) (auto simp: plug_forward_merge)
  then show ?thesis
    using that [of bs] c nb True by (auto simp: plugged_refl no_two_free_Cons)
next
  case False
  then obtain k cs where bs: "bs = k # cs" and k: "blk_used h k = 0" by (cases bs) auto
  have ne: "k \<noteq> m" "k \<noteq> heap_end h" using chain_distinct [OF c] bs by auto
  have "plug_forward m h = merge_blk m k h"
    using chain_at(1) [OF c] bs k ne by (simp add: plug_forward_merge)
  then show ?thesis
    using that [of cs] merge_plugged [of h as m k cs] c m k nb bs by (simp add: no_two_free_Cons)
qed

lemma plug_backward_spec:
  assumes c: "chain_ok h (as @ m # bs)" and m: "blk_used h m = 0"
    and na: "no_two_free h as" and nb: "no_two_free h (m # bs)"
  obtains xs' where "plugged h (as @ m # bs) (plug_backward m h) xs'"
    "no_two_free (plug_backward m h) xs'"
proof (cases "as = [] \<or> blk_used h (last as) \<noteq> 0")
  case True
  have "plug_backward m h = h"
    using True chain_at(4,5) [OF c] by (cases "as = []") (auto simp: plug_backward_merge)
  then show ?thesis
    using that [of "as @ m # bs"] c na nb True
    by (auto simp: plugged_refl no_two_free_append)
next
  case False
  then obtain cs p where as: "as = cs @ [p]" and p: "blk_used h p = 0"
    by (cases as rule: rev_cases) auto
  have ne: "p \<noteq> m" using chain_distinct [OF c] as by auto
  have eq: "plug_backward m h = merge_blk p m h"
    using chain_at(5) [OF c] as p ne by (simp add: plug_backward_merge)
  have "no_two_free h (cs @ p # bs)"
    using na nb as p m by (auto simp: no_two_free_append no_two_free_Cons)
  then show ?thesis
    using that [of "cs @ p # bs"] merge_plugged [of h cs p m bs] c m p as eq
    by (simp add: no_two_free_cong [of "merge_blk p m h" h])
qed

lemma plug_holes_spec:
  assumes c: "chain_ok h (as @ m # bs)" and m: "blk_used h m = 0"
    and na: "no_two_free h as" and nb: "no_two_free h bs"
  obtains h' xs' where "plug_holes m h = Some h'" "plugged h (as @ m # bs) h' xs'"
    "no_two_free h' xs'"
proof -
  obtain bs' where f: "plugged h (as @ m # bs) (plug_forward m h) (as @ m # bs')"
    and n: "no_two_free h (m # bs')" and us: "\<And>x. blk_used (plug_forward m h) x = blk_used h x"
    using plug_forward_spec [OF c m nb] by metis
  from f have c1: "chain_ok (plug_forward m h) (as @ m # bs')" by (simp add: plugged_def)
  obtain xs' where "plugged (plug_forward m h) (as @ m # bs') (plug_backward m (plug_forward m h)) xs'"
    and n': "no_two_free (plug_backward m (plug_forward m h)) xs'"
    using plug_backward_spec [OF c1] m na n us
    by (metis no_two_free_cong)
  with f have p: "plugged h (as @ m # bs) (plug_backward m (plug_forward m h)) xs'"
    by (blast intro: plugged_trans)
  have "m < heap_end h" using chain_at(7) [OF c] by (simp add: SIZEOF_STRUCT_MEM_def)
  then show ?thesis using that [OF _ p n'] m by (simp add: plug_holes_def)
qed

section \<open>Searching\<close>

lemma lfree_scan_spec:
  assumes "chain_ok h xs" "xs = as @ bs"
  shows "\<exists>p. lfree_scan h (hd (bs @ [heap_end h])) = Some p \<and>
    (p = heap_end h \<or> p \<in> set xs \<and> blk_used h p = 0) \<and>
    (\<forall>x\<in>set bs. x < p \<longrightarrow> blk_used h x \<noteq> 0)"
  using assms
proof (induction bs arbitrary: as)
  case Nil
  then show ?case by (subst lfree_scan.simps) simp
next
  case (Cons b bs)
  note at = chain_at [OF Cons.prems(1) [unfolded Cons.prems(2)]]
  show ?case
  proof (cases "blk_used h b = 0")
    case True
    then show ?thesis using Cons.prems(2) at(2,13)
      by (subst lfree_scan.simps) (fastforce simp: not_less)
  next
    case False
    have "b \<noteq> heap_end h" using at(7) by (simp add: SIZEOF_STRUCT_MEM_def)
    moreover have "\<exists>p. lfree_scan h (hd (bs @ [heap_end h])) = Some p \<and>
      (p = heap_end h \<or> p \<in> set xs \<and> blk_used h p = 0) \<and>
      (\<forall>x\<in>set bs. x < p \<longrightarrow> blk_used h x \<noteq> 0)"
      using Cons.IH [of "as @ [b]"] Cons.prems False by auto
    ultimately show ?thesis using False at(1) by (subst lfree_scan.simps) auto
  qed
qed

lemma malloc_scan_spec:
  assumes "chain_ok h xs" "xs = as @ bs" "n \<le> h_size h"
  shows "malloc_scan h n (hd (bs @ [heap_end h])) = Some None \<and>
       (\<forall>x\<in>set bs. blk_used h x = 0 \<and> n \<le> blk_room h x \<longrightarrow> \<not> x < h_size h - n) \<or>
     (\<exists>m\<in>set bs. malloc_scan h n (hd (bs @ [heap_end h])) = Some (Some m) \<and>
        blk_used h m = 0 \<and> n \<le> blk_room h m \<and>
        (\<forall>x\<in>set bs. x < m \<longrightarrow> blk_used h x \<noteq> 0 \<or> blk_room h x < n))"
  using assms
proof (induction bs arbitrary: as)
  case Nil
  then have "\<not> heap_end h < usub (h_size h) n"
    by (simp add: chain_ok_def heap_end_def)
  then show ?case by (subst (1) malloc_scan.simps) simp
next
  case (Cons b bs)
  note at = chain_at [OF Cons.prems(1) [unfolded Cons.prems(2)]]
  have sub: "usub (h_size h) n = h_size h - n" using Cons.prems(3) at(8) by (simp add: heap_end_def)
  have lt: "\<And>x. x \<in> set bs \<Longrightarrow> b < x" using at(2,13) by (force simp: SIZEOF_STRUCT_MEM_def)
  show ?case
  proof (cases "b < h_size h - n")
    case False
    then have "malloc_scan h n b = Some None" by (subst malloc_scan.simps) (simp add: sub)
    then show ?thesis using False lt by fastforce
  next
    case True
    show ?thesis
    proof (cases "blk_used h b = 0 \<and> n \<le> blk_room h b")
      case here: True
      then have "malloc_scan h n b = Some (Some b)" using True by (subst malloc_scan.simps) (simp add: sub)
      then show ?thesis using here lt by fastforce
    next
      case False
      then have "malloc_scan h n b = malloc_scan h n (hd (bs @ [heap_end h]))"
        using True at(1) by (subst malloc_scan.simps) (auto simp: sub)
      then show ?thesis using Cons.IH [of "as @ [b]"] Cons.prems False lt by (auto simp: not_le)
    qed
  qed
qed


section \<open>Allocation\<close>

lemma heap_end_upd [simp]:
  "heap_end (h\<lparr>h_lfree := p\<rparr>) = heap_end h" "heap_end (h\<lparr>h_used := u\<rparr>) = heap_end h"
  "heap_end (h\<lparr>h_max := u\<rparr>) = heap_end h" "heap_end (h\<lparr>h_data := d\<rparr>) = heap_end h"
  "heap_end (h\<lparr>h_mem := H\<rparr>) = heap_end h"
  by (simp_all add: heap_end_def)

lemma heap_parts_upd [simp]:
  "chain_ok (h\<lparr>h_lfree := p\<rparr>) xs = chain_ok h xs" "chain_ok (h\<lparr>h_used := u\<rparr>) xs = chain_ok h xs"
  "chain_ok (h\<lparr>h_max := u\<rparr>) xs = chain_ok h xs" "chain_ok (h\<lparr>h_data := d\<rparr>) xs = chain_ok h xs"
  "in_use (h\<lparr>h_lfree := p\<rparr>) xs = in_use h xs" "in_use (h\<lparr>h_used := u\<rparr>) xs = in_use h xs"
  "in_use (h\<lparr>h_max := u\<rparr>) xs = in_use h xs" "in_use (h\<lparr>h_data := d\<rparr>) xs = in_use h xs"
  "no_two_free (h\<lparr>h_lfree := p\<rparr>) xs = no_two_free h xs"
  "no_two_free (h\<lparr>h_used := u\<rparr>) xs = no_two_free h xs"
  "no_two_free (h\<lparr>h_max := u\<rparr>) xs = no_two_free h xs"
  "no_two_free (h\<lparr>h_data := d\<rparr>) xs = no_two_free h xs"
  "live_ok (h\<lparr>h_lfree := p\<rparr>) xs = live_ok h xs" "live_ok (h\<lparr>h_max := u\<rparr>) xs = live_ok h xs"
  "live_ok (h\<lparr>h_data := d\<rparr>) xs = live_ok h xs"
  "lfree_ok (h\<lparr>h_data := d\<rparr>) xs = lfree_ok h xs"
  "lfree_lowest (h\<lparr>h_data := d\<rparr>) xs = lfree_lowest h xs"
  by (auto simp: chain_ok_def in_use_def no_two_free_def live_ok_def lfree_ok_def lfree_lowest_def)

lemma heap_ok_data [simp]: "heap_ok (h\<lparr>h_data := d\<rparr>) xs = heap_ok h xs"
  by (simp add: heap_ok_def)

lemma count_used_fields [simp]:
  "h_mem (count_used n h) = h_mem h" "h_size (count_used n h) = h_size h"
  "h_lfree (count_used n h) = h_lfree h" "h_data (count_used n h) = h_data h"
  "heap_end (count_used n h) = heap_end h"
  "h_used (count_used n h) = trunc_u 32 (int (h_used h) + int n)"
  "chain_ok (count_used n h) xs = chain_ok h xs" "in_use (count_used n h) xs = in_use h xs"
  by (simp_all add: count_used_def Let_def)

text \<open>Marking a block leaves the chain alone.\<close>

lemma chain_mark:
  assumes "chain_ok h xs" "m \<in> set xs"
    and "\<And>x. hm_next (f x) = hm_next x" "\<And>x. hm_prev (f x) = hm_prev x"
  shows "chain_ok (upd_hdr m f h) xs"
proof -
  have "m \<noteq> heap_end h" using chain_distinct [OF assms(1)] assms(2) by auto
  moreover have "hseg ((h_mem h)(m := f (h_mem h m))) 0 xs (heap_end h) = hseg (h_mem h) 0 xs (heap_end h)"
    by (rule hseg_cong) (simp add: assms(3,4))
  ultimately show ?thesis using assms(1) by (simp add: chain_ok_def)
qed

lemma hseg_total: "hseg H p xs e \<Longrightarrow> (\<Sum>x\<in>set xs. hm_next (H x) - x) = e - hd (xs @ [e])"
proof (induction xs arbitrary: p)
  case (Cons x xs)
  have so: "sorted_wrt (\<lambda>a b. a + SIZEOF_STRUCT_MEM \<le> b) ((x # xs) @ [e])"
    using Cons.prems by (rule hseg_sorted)
  then have "x \<notin> set xs" using gap_distinct by fastforce
  moreover have "x \<le> hd (xs @ [e])" "hd (xs @ [e]) \<le> e" using so by (cases xs; auto)+
  ultimately show ?case using Cons by auto
qed simp

lemma live_total: "chain_ok h xs \<Longrightarrow> (\<Sum>x\<in>in_use h xs. blk_next h x - x) \<le> heap_end h"
proof -
  assume c: "chain_ok h xs"
  have "(\<Sum>x\<in>in_use h xs. blk_next h x - x) \<le> (\<Sum>x\<in>set xs. blk_next h x - x)"
    by (rule sum_mono2) (auto simp: in_use_def)
  also have "\<dots> \<le> heap_end h"
    using hseg_total c unfolding chain_ok_def by (metis diff_le_self)
  finally show ?thesis .
qed

text \<open>The outcome of an allocation of \<open>k\<close> bytes in block \<open>m\<close>.\<close>

definition granted :: "heap \<Rightarrow> nat list \<Rightarrow> nat \<Rightarrow> nat \<Rightarrow> heap \<Rightarrow> nat list \<Rightarrow> bool" where
  "granted h xs m k h' xs' \<longleftrightarrow> m \<in> set xs \<and> blk_used h m = 0 \<and>
     in_use h' xs' = insert m (in_use h xs) \<and> (\<forall>x\<in>in_use h xs. blk_next h' x = blk_next h x) \<and>
     m + SIZEOF_STRUCT_MEM + k \<le> blk_next h' m \<and> blk_next h' m \<le> blk_next h m \<and>
     h_size h' = h_size h \<and> h_data h' = h_data h"

lemma live_grant:
  assumes c: "chain_ok h' xs'" and l: "live_ok h xs" and m: "m \<notin> in_use h xs"
    and i: "in_use h' xs' = insert m (in_use h xs)" and n: "\<forall>x\<in>in_use h xs. h_mem h' x = h_mem h x
       \<or> blk_next h' x = blk_next h x \<and> hm_magic (h_mem h' x) = hm_magic (h_mem h x)"
    and g: "hm_magic (h_mem h' m) = HEAP_MAGIC" "m + SIZEOF_STRUCT_MEM < blk_next h' m"
    and u: "h_used h' = trunc_u 32 (int (h_used h) + int (blk_next h' m - m))"
  shows "live_ok h' xs'"
proof -
  have fin: "finite (in_use h xs)" by (simp add: in_use_def)
  have "(\<Sum>x\<in>in_use h' xs'. blk_next h' x - x) = (blk_next h' m - m) + (\<Sum>x\<in>in_use h xs. blk_next h' x - x)"
    unfolding i using fin m by simp
  also have "(\<Sum>x\<in>in_use h xs. blk_next h' x - x) = h_used h"
    using l n unfolding live_ok_def by (metis (no_types, lifting) sum.cong)
  finally have s: "(\<Sum>x\<in>in_use h' xs'. blk_next h' x - x) = (blk_next h' m - m) + h_used h" .
  moreover have "\<dots> < 2 ^ 32"
    using live_total [OF c] s c by (simp add: chain_ok_def)
  ultimately have "h_used h' = (\<Sum>x\<in>in_use h' xs'. blk_next h' x - x)"
    using u trunc_u_of_nat [of "h_used h + (blk_next h' m - m)" 32] by simp
  moreover have "\<forall>x\<in>in_use h' xs'. hm_magic (h_mem h' x) = HEAP_MAGIC \<and> x + SIZEOF_STRUCT_MEM < blk_next h' x"
    using l n g i unfolding live_ok_def by (metis insert_iff)
  ultimately show ?thesis by (simp add: live_ok_def)
qed


lemma malloc_take_spec:
  assumes ok: "heap_ok h (as @ m # bs)" and m: "blk_used h m = 0" and room: "k \<le> blk_room h m"
    and al: "RT_ALIGN_SIZE dvd k" and pos: "0 < k"
  obtains bs' where "granted h (as @ m # bs) m k (malloc_take m k h) (as @ m # bs')"
    "chain_ok (malloc_take m k h) (as @ m # bs')" "no_two_free (malloc_take m k h) (as @ m # bs')"
    "live_ok (malloc_take m k h) (as @ m # bs')" "set bs \<subseteq> set bs'"
    "\<And>x. x \<in> set as \<union> set bs \<Longrightarrow> blk_used (malloc_take m k h) x = blk_used h x"
    "h_lfree (malloc_take m k h) = h_lfree h"
proof -
  let ?xs = "as @ m # bs" and ?t = "malloc_take m k h" and ?k = "m + SIZEOF_STRUCT_MEM + k"
  let ?mark = "\<lambda>m::heap_mem. m\<lparr>hm_used := 1, hm_magic := HEAP_MAGIC\<rparr>"
  from ok have c: "chain_ok h ?xs" and n: "no_two_free h ?xs" and l: "live_ok h ?xs"
    by (auto simp: heap_ok_def)
  note at = chain_at [OF c]
  have ml: "m \<notin> in_use h ?xs" using m by (simp add: in_use_def)
  have fit: "?k \<le> blk_next h m" using room at(2,9) by simp
  have nb: "bs = [] \<or> blk_used h (hd bs) \<noteq> 0" and nas: "no_two_free h as" and nbs: "no_two_free h bs"
    using n m by (auto simp: no_two_free_append no_two_free_Cons)
  show ?thesis
  proof (cases "blk_room h m \<ge> k + SIZEOF_STRUCT_MEM + MIN_SIZE_ALIGNED")
    case True
    then have r: "?k + SIZEOF_STRUCT_MEM \<le> blk_next h m"
      using at(2,9) by (simp add: MIN_SIZE_ALIGNED_def SIZEOF_STRUCT_MEM_def)
    note sp = split_chain [OF c r al]
    have new: "?k \<notin> set as" "?k \<notin> set bs" "?k \<noteq> m" using sp(6) by auto
    have eq: "?t = count_used (k + SIZEOF_STRUCT_MEM) (upd_hdr m ?mark (split_blk m k h))"
      unfolding malloc_take_def Let_def using True by (simp add: count_used_def Let_def)
    have fl: "h_size ?t = h_size h" "h_data ?t = h_data h" "h_lfree ?t = h_lfree h"
      by (simp_all add: eq)
    have us: "blk_used ?t x = (if x = m then 1 else if x = ?k then 0 else blk_used h x)" for x
      unfolding eq using sp(2) sp(3) [of x] by auto
    have nx: "blk_next ?t x = (if x = m then ?k else blk_next h x)" if "x \<noteq> ?k" for x
      unfolding eq using sp(4,5) that by auto
    have mg: "hm_magic (h_mem ?t x) = (if x = m then HEAP_MAGIC else hm_magic (h_mem h x))" if "x \<noteq> ?k" for x
      unfolding eq using sp(3) that by auto
    have ch: "chain_ok ?t (as @ m # ?k # bs)"
      unfolding eq by (simp, rule chain_mark [OF sp(1)]) auto
    have li: "in_use ?t (as @ m # ?k # bs) = insert m (in_use h ?xs)"
      using new by (auto simp: in_use_def us)
    have lk: "x \<noteq> ?k \<and> x \<noteq> m" if "x \<in> in_use h ?xs" for x
      using that new ml by (auto simp: in_use_def)
    have "live_ok ?t (as @ m # ?k # bs)"
    proof (rule live_grant [OF ch l ml li])
      show "h_used ?t = trunc_u 32 (int (h_used h) + int (blk_next ?t m - m))"
        using nx [of m] new by (simp add: eq add.commute)
    qed (use lk nx mg new pos in auto)
    moreover have "granted h ?xs m k ?t (as @ m # ?k # bs)"
      unfolding granted_def using m li lk nx [of m] nx new fit fl by simp
    moreover have "no_two_free ?t as" "no_two_free ?t bs"
      using nas nbs new at(10,11) us by (auto elim!: no_two_free_mono)
    then have "no_two_free ?t (as @ m # ?k # bs)"
      using nb new at(11) us by (cases bs) (auto simp: no_two_free_append no_two_free_Cons)
    moreover have "blk_used ?t x = blk_used h x" if "x \<in> set as \<union> set bs" for x
      using us that new at(10,11) by auto
    ultimately show ?thesis by (intro that [OF _ ch _ _ _ _ fl(3)]) auto
  next
    case False
    have eq: "?t = count_used (usub (blk_next h m) m) (upd_hdr m ?mark h)"
      unfolding malloc_take_def Let_def using False by (simp add: count_used_def Let_def)
    have fl: "h_size ?t = h_size h" "h_data ?t = h_data h" "h_lfree ?t = h_lfree h"
      by (simp_all add: eq)
    have us: "blk_used ?t x = (if x = m then 1 else blk_used h x)"
      and nx: "blk_next ?t x = blk_next h x"
      and mg: "hm_magic (h_mem ?t x) = (if x = m then HEAP_MAGIC else hm_magic (h_mem h x))" for x
      unfolding eq by auto
    have ch: "chain_ok ?t ?xs" unfolding eq by (simp, rule chain_mark [OF c]) auto
    have li: "in_use ?t ?xs = insert m (in_use h ?xs)" by (auto simp: in_use_def us)
    have "live_ok ?t ?xs"
    proof (rule live_grant [OF ch l ml li])
      have "usub (blk_next h m) m = blk_next h m - m"
        using at(2,3,8) by (intro usub_le) auto
      then show "h_used ?t = trunc_u 32 (int (h_used h) + int (blk_next ?t m - m))"
        by (simp add: nx) (simp add: eq)
    qed (use ml nx mg fit pos in auto)
    moreover have "granted h ?xs m k ?t ?xs"
      unfolding granted_def using m li nx fit fl ml by auto
    moreover have "no_two_free ?t ?xs"
      using n us by (auto elim!: no_two_free_mono)
    moreover have "blk_used ?t x = blk_used h x" if "x \<in> set as \<union> set bs" for x
      using us that at(10,11) by auto
    ultimately show ?thesis by (intro that [OF _ ch _ _ _ _ fl(3)]) auto
  qed
qed


lemma malloc_size_bounds:
  assumes "malloc_size n h = Some k"
  shows "MIN_SIZE_ALIGNED \<le> k" "RT_ALIGN_SIZE dvd k" "n + RT_ALIGN_SIZE \<le> 2 ^ 32 \<Longrightarrow> n \<le> k"
proof -
  have "RT_ALIGN_SIZE dvd 2 ^ 32" by (simp add: RT_ALIGN_SIZE_def)
  then have "RT_ALIGN_SIZE dvd rt_align32 n"
    using rt_align_dvd [of n] by (simp add: rt_align32_def trunc_u_def nat_mod_distrib dvd_mod)
  then show "MIN_SIZE_ALIGNED \<le> k" "RT_ALIGN_SIZE dvd k"
    using assms by (auto simp: malloc_size_def Let_def MIN_SIZE_ALIGNED_def RT_ALIGN_SIZE_def split: if_splits)
  assume "n + RT_ALIGN_SIZE \<le> 2 ^ 32"
  then have "rt_align32 n = rt_align n"
    unfolding rt_align32_def using rt_align_lt [of n] by (intro trunc_u_of_nat) simp
  then show "n \<le> k"
    using assms rt_align_ge [of n] by (auto simp: malloc_size_def Let_def split: if_splits)
qed

lemma lfree_in_chain:
  assumes "heap_ok h xs"
  obtains as bs where "xs = as @ bs" "h_lfree h = hd (bs @ [heap_end h])"
proof (cases "h_lfree h = heap_end h")
  case True
  then show ?thesis using that [of xs "[]"] by simp
next
  case False
  then obtain as bs where "xs = as @ h_lfree h # bs"
    using assms by (auto simp: heap_ok_def lfree_ok_def dest: split_list)
  then show ?thesis using that [of as "h_lfree h # bs"] by simp
qed

text \<open>\<open>lfree\<close> after the block \<open>m\<close> has been taken.\<close>

lemma malloc_lfree:
  assumes ok: "heap_ok h (as @ m # bs)" and m: "blk_used h m = 0"
    and c: "chain_ok h1 (as @ m # bs')" and n: "no_two_free h1 (as @ m # bs')"
    and l: "live_ok h1 (as @ m # bs')" and sub: "set bs \<subseteq> set bs'"
    and us: "\<And>x. x \<in> set as \<union> set bs \<Longrightarrow> blk_used h1 x = blk_used h x" and um: "blk_used h1 m \<noteq> 0"
    and lf: "h_lfree h1 = h_lfree h" and sz: "h_size h1 = h_size h"
  obtains p where
    "(if m = h_lfree h1 then map_option (\<lambda>p. h1\<lparr>h_lfree := p\<rparr>) (lfree_scan h1 (h_lfree h1))
      else Some h1) = Some (h1\<lparr>h_lfree := p\<rparr>)"
    "heap_ok (h1\<lparr>h_lfree := p\<rparr>) (as @ m # bs')"
    "lfree_lowest h (as @ m # bs) \<Longrightarrow> lfree_lowest (h1\<lparr>h_lfree := p\<rparr>) (as @ m # bs')"
proof (cases "m = h_lfree h1")
  case True
  obtain p where p: "lfree_scan h1 m = Some p"
    "p = heap_end h1 \<or> p \<in> set (as @ m # bs') \<and> blk_used h1 p = 0"
    "\<forall>x\<in>set (m # bs'). x < p \<longrightarrow> blk_used h1 x \<noteq> 0"
    using lfree_scan_spec [OF c, of as "m # bs'"] by auto
  have "lfree_lowest (h1\<lparr>h_lfree := p\<rparr>) (as @ m # bs')" if "lfree_lowest h (as @ m # bs)"
    using that p(3) us True lf chain_at(12) [OF c]
    by (fastforce simp: lfree_lowest_def SIZEOF_STRUCT_MEM_def)
  then show ?thesis
    using that [of p] p(1,2) c n l True by (simp add: heap_ok_def lfree_ok_def)
next
  case False
  have he: "heap_end h1 = heap_end h" using sz by (simp add: heap_end_def)
  have "lfree_ok h1 (as @ m # bs')"
    using ok False lf us sub he by (auto simp: heap_ok_def lfree_ok_def)
  moreover have "lfree_lowest h1 (as @ m # bs')" if low: "lfree_lowest h (as @ m # bs)"
  proof -
    have "h_lfree h < m" using low m False lf by (auto simp: lfree_lowest_def not_less_iff_gr_or_eq)
    moreover have "m < x" if "x \<in> set bs'" for x
      using that chain_at(2,13) [OF c] by (fastforce simp: SIZEOF_STRUCT_MEM_def)
    ultimately show ?thesis using low lf us um by (fastforce simp: lfree_lowest_def)
  qed
  ultimately show ?thesis
    using that [of "h_lfree h1"] c n l False by (simp add: heap_ok_def)
qed

lemma rt_malloc_spec:
  assumes ok: "heap_ok h xs" and k: "malloc_size n h = Some k" and kle: "k \<le> h_size h"
  shows "(rt_malloc n h = Some (None, h) \<and>
      (\<forall>x\<in>set xs. h_lfree h \<le> x \<and> blk_used h x = 0 \<and> k \<le> blk_room h x \<longrightarrow> \<not> x < h_size h - k)) \<or>
    (\<exists>m h' xs'. rt_malloc n h = Some (Some (m + SIZEOF_STRUCT_MEM), h') \<and>
      granted h xs m k h' xs' \<and> heap_ok h' xs' \<and> (lfree_lowest h xs \<longrightarrow> lfree_lowest h' xs'))"
    (is "?no \<or> ?yes")
proof -
  from ok have c: "chain_ok h xs" by (simp add: heap_ok_def)
  have kpos: "0 < k" using malloc_size_bounds(1) [OF k] by (simp add: MIN_SIZE_ALIGNED_def)
  obtain as0 bs0 where xs: "xs = as0 @ bs0" and lf: "h_lfree h = hd (bs0 @ [heap_end h])"
    using lfree_in_chain [OF ok] .
  consider "malloc_scan h k (h_lfree h) = Some None"
      "\<forall>x\<in>set bs0. blk_used h x = 0 \<and> k \<le> blk_room h x \<longrightarrow> \<not> x < h_size h - k"
    | m where "malloc_scan h k (h_lfree h) = Some (Some m)" "m \<in> set bs0" "blk_used h m = 0"
      "k \<le> blk_room h m"
    using malloc_scan_spec [OF c xs kle] lf by auto
  then show ?thesis
  proof cases
    case 1
    have "x \<in> set bs0" if "x \<in> set xs" "h_lfree h \<le> x" for x
      using that xs lf chain_sorted [OF c]
      by (cases bs0) (fastforce simp: sorted_wrt_append SIZEOF_STRUCT_MEM_def)+
    with 1 have ?no by (auto simp: rt_malloc_def k)
    then show ?thesis ..
  next
    case (2 m)
    then obtain as bs where ab: "xs = as @ m # bs" using xs by (metis Un_iff set_append split_list)
    obtain bs' where t: "granted h xs m k (malloc_take m k h) (as @ m # bs')"
      "chain_ok (malloc_take m k h) (as @ m # bs')" "no_two_free (malloc_take m k h) (as @ m # bs')"
      "live_ok (malloc_take m k h) (as @ m # bs')" "set bs \<subseteq> set bs'"
      "\<And>x. x \<in> set as \<union> set bs \<Longrightarrow> blk_used (malloc_take m k h) x = blk_used h x"
      "h_lfree (malloc_take m k h) = h_lfree h"
      using malloc_take_spec [OF ok [unfolded ab] 2(3,4) malloc_size_bounds(2) [OF k] kpos] ab by metis
    from t(1) have um: "blk_used (malloc_take m k h) m \<noteq> 0" and sz: "h_size (malloc_take m k h) = h_size h"
      unfolding granted_def in_use_def by auto
    obtain p where p: "(if m = h_lfree (malloc_take m k h)
        then map_option (\<lambda>p. malloc_take m k h\<lparr>h_lfree := p\<rparr>)
               (lfree_scan (malloc_take m k h) (h_lfree (malloc_take m k h)))
        else Some (malloc_take m k h)) = Some (malloc_take m k h\<lparr>h_lfree := p\<rparr>)"
      "heap_ok (malloc_take m k h\<lparr>h_lfree := p\<rparr>) (as @ m # bs')"
      "lfree_lowest h xs \<Longrightarrow> lfree_lowest (malloc_take m k h\<lparr>h_lfree := p\<rparr>) (as @ m # bs')"
      using malloc_lfree [OF ok [unfolded ab] 2(3) t(2-6) um t(7) sz] ab by metis
    have "m + SIZEOF_STRUCT_MEM + k \<le> heap_end (malloc_take m k h)"
      using t(1) chain_at(3) [OF t(2)] by (simp add: granted_def)
    moreover have "m mod RT_ALIGN_SIZE = 0" using chain_at(6) [OF t(2)] by (simp add: dvd_eq_mod_eq_0)
    ultimately have "rt_malloc n h = Some (Some (m + SIZEOF_STRUCT_MEM), malloc_take m k h\<lparr>h_lfree := p\<rparr>)"
      unfolding rt_malloc_def k Let_def using 2(1) p(1) by simp
    moreover have "granted h xs m k (malloc_take m k h\<lparr>h_lfree := p\<rparr>) (as @ m # bs')"
      using t(1) by (simp add: granted_def)
    ultimately show ?thesis using p(2,3) by blast
  qed
qed


text \<open>Without a block that may be free, and in a heap of at least the minimal size, there is no memory.\<close>

lemma rt_malloc_at_end:
  assumes "chain_ok h xs" "h_lfree h = heap_end h" "MIN_SIZE_ALIGNED \<le> h_size h"
  shows "rt_malloc n h = Some (None, h)"
proof (cases "malloc_size n h")
  case (Some k)
  then have "k \<le> h_size h"
    using assms(3) by (auto simp: malloc_size_def Let_def split: if_splits)
  then have "malloc_scan h k (heap_end h) = Some None"
    using malloc_scan_spec [OF assms(1), of xs "[]" k] by simp
  with Some assms(2) show ?thesis by (simp add: rt_malloc_def)
qed (simp add: rt_malloc_def)

text \<open>
  In a smaller heap the minimal size exceeds the bound of the search, the bound wraps around, and the
  search circles at the end block.
\<close>

lemma malloc_scan_circles:
  assumes "blk_used h e \<noteq> 0" "blk_next h e = e" "e < usub (h_size h) n"
  shows "malloc_scan h n e = None"
proof (rule ccontr)
  assume "malloc_scan h n e \<noteq> None"
  then obtain r where "malloc_scan h n e = Some r" by auto
  then have "\<not> (e < usub (h_size h) n \<and> blk_used h e \<noteq> 0 \<and> blk_next h e = e)"
  proof (rule malloc_scan.raw_induct [rotated])
    fix f h n p and r :: "nat option"
    assume IH: "\<And>h n p y. f h n p = Some y \<Longrightarrow>
        \<not> (p < usub (h_size h) n \<and> blk_used h p \<noteq> 0 \<and> blk_next h p = p)"
      and body: "(if p < usub (h_size h) n
        then if blk_used h p = 0 \<and> n \<le> blk_room h p then Some (Some p) else f h n (blk_next h p)
        else Some None) = Some r"
    show "\<not> (p < usub (h_size h) n \<and> blk_used h p \<noteq> 0 \<and> blk_next h p = p)"
      using IH [of h n p r] body by auto
  qed
  then show False using assms by simp
qed

lemma rt_malloc_hangs:
  assumes "chain_ok h xs" "h_lfree h = heap_end h" "RT_ALIGN_SIZE \<le> h_size h"
    "h_size h < MIN_SIZE_ALIGNED"
  shows "rt_malloc 1 h = None"
proof -
  have "rt_align32 1 = 4" by (simp add: rt_align32_def rt_align_def rt_align_down_def RT_ALIGN_SIZE_def trunc_u_def)
  then have "malloc_size 1 h = Some MIN_SIZE_ALIGNED"
    using assms(3) by (simp add: malloc_size_def MIN_SIZE_ALIGNED_def RT_ALIGN_SIZE_def)
  moreover have "usub (h_size h) MIN_SIZE_ALIGNED = h_size h + 2 ^ 32 - MIN_SIZE_ALIGNED"
  proof -
    have "(int (h_size h) - 12) mod 2 ^ 32 = int (h_size h) - 12 + 2 ^ 32"
      using assms(4) mod_add_self2 [of "int (h_size h) - 12" "2 ^ 32"]
        mod_pos_pos_trivial [of "int (h_size h) - 12 + 2 ^ 32" "2 ^ 32"]
      by (simp add: MIN_SIZE_ALIGNED_def)
    then show ?thesis by (simp add: usub_def trunc_u_def MIN_SIZE_ALIGNED_def)
  qed
  then have "malloc_scan h MIN_SIZE_ALIGNED (heap_end h) = None"
    using assms by (intro malloc_scan_circles) (auto simp: chain_ok_def heap_end_def
      SIZEOF_STRUCT_MEM_def MIN_SIZE_ALIGNED_def)
  ultimately show ?thesis using assms(2) by (simp add: rt_malloc_def)
qed

text \<open>Rounding up wraps around: a request of nearly 4 GiB is served like a request of one byte.\<close>

lemma rt_malloc_wraps:
  assumes "2 ^ 32 - RT_ALIGN_SIZE < n" "n < 2 ^ 32" "RT_ALIGN_SIZE \<le> h_size h"
  shows "rt_malloc n h = rt_malloc 1 h"
proof -
  have "rt_align n = 2 ^ 32"
    using assms(1,2) by (simp add: rt_align_def rt_align_down_def RT_ALIGN_SIZE_def) presburger
  then have "rt_align32 n = 0" by (simp add: rt_align32_def trunc_u_def)
  moreover have "rt_align32 1 = 4"
    by (simp add: rt_align32_def rt_align_def rt_align_down_def RT_ALIGN_SIZE_def trunc_u_def)
  ultimately have "malloc_size n h = malloc_size 1 h"
    using assms by (simp add: malloc_size_def MIN_SIZE_ALIGNED_def RT_ALIGN_SIZE_def)
  then show ?thesis by (simp add: rt_malloc_def)
qed

section \<open>Initialisation and release\<close>

lemma rt_system_heap_init_spec:
  assumes "rt_align32 b = rt_align b" "e < 2 ^ 32" "h_used old = 0"
    and "rt_align b + 2 * SIZEOF_STRUCT_MEM \<le> rt_align_down e" "2 * SIZEOF_STRUCT_MEM < rt_align_down e"
  shows "heap_ok (rt_system_heap_init b e old) [0]" "lfree_lowest (rt_system_heap_init b e old) [0]"
    "h_size (rt_system_heap_init b e old) = rt_align_down e - rt_align b - 2 * SIZEOF_STRUCT_MEM"
proof -
  let ?h = "rt_system_heap_init b e old"
  let ?sz = "rt_align_down e - rt_align b - 2 * SIZEOF_STRUCT_MEM"
  have S: "SIZEOF_STRUCT_MEM = 12" by (simp add: SIZEOF_STRUCT_MEM_def)
  have eq: "h_size ?h = ?sz" "h_lfree ?h = 0" "h_used ?h = 0" "blk_used ?h 0 = 0"
    "blk_next ?h 0 = heap_end ?h" "blk_prev ?h 0 = 0" "blk_used ?h (heap_end ?h) = 1"
    "blk_next ?h (heap_end ?h) = heap_end ?h"
    using assms by (auto simp: rt_system_heap_init_def Let_def heap_end_def S)
  then show "h_size ?h = ?sz" by simp
  have "RT_ALIGN_SIZE dvd rt_align_down e" "RT_ALIGN_SIZE dvd rt_align b"
    by (simp_all add: rt_align_down_dvd rt_align_dvd)
  moreover have "RT_ALIGN_SIZE dvd 2 * SIZEOF_STRUCT_MEM" "RT_ALIGN_SIZE dvd SIZEOF_STRUCT_MEM"
    by (simp_all add: S RT_ALIGN_SIZE_def)
  ultimately have "RT_ALIGN_SIZE dvd heap_end ?h"
    using eq(1) by (simp add: heap_end_def dvd_diff_nat)
  moreover have "heap_end ?h + SIZEOF_STRUCT_MEM < 2 ^ 32"
    using eq(1) assms(2,4) rt_align_down_le [of e] by (simp add: heap_end_def S)
  ultimately show "heap_ok ?h [0]"
    using eq by (auto simp: heap_ok_def chain_ok_def no_two_free_def lfree_ok_def live_ok_def in_use_def heap_end_def)
  show "lfree_lowest ?h [0]" using eq by (simp add: lfree_lowest_def)
qed


text \<open>\<open>m\<close> is the block of the pointer; afterwards it is free, everything else as before.\<close>

definition released :: "heap \<Rightarrow> nat list \<Rightarrow> nat \<Rightarrow> heap \<Rightarrow> nat list \<Rightarrow> bool" where
  "released h xs m h' xs' \<longleftrightarrow> in_use h' xs' = in_use h xs - {m} \<and>
     (\<forall>x\<in>in_use h' xs'. blk_next h' x = blk_next h x) \<and>
     h_used h' + (blk_next h m - m) = h_used h \<and> h_size h' = h_size h \<and> h_data h' = h_data h"

lemma used_at_least:
  assumes "live_ok h xs" "m \<in> in_use h xs"
  shows "blk_next h m - m \<le> h_used h"
proof -
  have "blk_next h m - m \<le> (\<Sum>x\<in>in_use h xs. blk_next h x - x)"
    using assms(2) by (intro member_le_sum) (auto simp: in_use_def)
  then show ?thesis using assms(1) by (simp add: live_ok_def)
qed

lemma used_bound: "chain_ok h xs \<Longrightarrow> live_ok h xs \<Longrightarrow> h_used h < 2 ^ 32"
  using live_total [of h xs] by (simp add: live_ok_def chain_ok_def)

lemma trunc_sub: "b \<le> a \<Longrightarrow> a < 2 ^ 32 \<Longrightarrow> trunc_u 32 (int a - int b) = a - b"
  using usub_le [of b a] by (simp add: usub_def)

lemma rt_free_spec:
  assumes ok: "heap_ok h xs" and m: "m \<in> in_use h xs"
  obtains h' xs' where "rt_free (Some (int (m + SIZEOF_STRUCT_MEM))) h = Some h'" "heap_ok h' xs'"
    "released h xs m h' xs'" "lfree_lowest h xs \<Longrightarrow> lfree_lowest h' xs'"
proof -
  from ok have c: "chain_ok h xs" and n: "no_two_free h xs" and lf: "lfree_ok h xs" and l: "live_ok h xs"
    by (auto simp: heap_ok_def)
  from m have mx: "m \<in> set xs" and um: "blk_used h m \<noteq> 0" by (auto simp: in_use_def)
  obtain as bs where xs: "xs = as @ m # bs" using split_list [OF mx] by auto
  note at = chain_at [OF c [unfolded xs]]
  have mg: "hm_magic (h_mem h m) = HEAP_MAGIC" and gap: "m + SIZEOF_STRUCT_MEM < blk_next h m"
    using l m by (auto simp: live_ok_def)
  let ?f = "\<lambda>b::heap_mem. b\<lparr>hm_used := 0, hm_magic := HEAP_MAGIC\<rparr>"
  let ?u = "h_used h - (blk_next h m - m)"
  define h3 where "h3 = (upd_hdr m ?f h)\<lparr>h_lfree := (if m < h_lfree h then m else h_lfree h), h_used := ?u\<rparr>"
  have fl: "h_lfree h3 = (if m < h_lfree h then m else h_lfree h)" "h_used h3 = ?u"
    "h_size h3 = h_size h" "h_data h3 = h_data h" "heap_end h3 = heap_end h"
    by (simp_all add: h3_def)
  have us: "blk_used h3 x = (if x = m then 0 else blk_used h x)" and nx: "blk_next h3 x = blk_next h x"
    and g3: "hm_magic (h_mem h3 x) = (if x = m then HEAP_MAGIC else hm_magic (h_mem h x))" for x
    by (auto simp: h3_def)
  have c3: "chain_ok h3 (as @ m # bs)"
    unfolding h3_def using chain_mark [OF c mx, of ?f] by (simp add: xs)
  have li: "in_use h3 (as @ m # bs) = in_use h xs - {m}" by (auto simp: in_use_def us xs)
  have le: "blk_next h m - m \<le> h_used h" by (rule used_at_least [OF l m])
  have "(\<Sum>x\<in>in_use h xs - {m}. blk_next h x - x) = ?u"
    using l m by (subst sum_diff1_nat) (simp add: live_ok_def)
  then have l3: "live_ok h3 (as @ m # bs)"
    using l unfolding live_ok_def li by (simp add: fl nx g3)
  have lf3: "lfree_ok h3 (as @ m # bs)"
    using lf fl us unfolding lfree_ok_def by (auto simp: xs)
  have lo3: "lfree_lowest h xs \<Longrightarrow> lfree_lowest h3 (as @ m # bs)"
    using fl us by (auto simp: lfree_lowest_def xs split: if_splits)
  have nt: "no_two_free h3 as" "no_two_free h3 bs"
    using n at(10,11) us by (auto simp: xs no_two_free_append no_two_free_Cons elim!: no_two_free_mono)
  obtain h' xs' where p: "plug_holes m h3 = Some h'" "plugged h3 (as @ m # bs) h' xs'" "no_two_free h' xs'"
    using plug_holes_spec [OF c3 _ nt] us by auto
  have "int (m + SIZEOF_STRUCT_MEM) mod int RT_ALIGN_SIZE = 0"
    using at(6) by (simp add: RT_ALIGN_SIZE_def SIZEOF_STRUCT_MEM_def) presburger
  moreover have "m + SIZEOF_STRUCT_MEM < heap_end h" using gap at(3) by simp
  moreover have "usub (blk_next h m) m = blk_next h m - m" using at(2,3,8) by (intro usub_le) auto
  moreover have "trunc_u 32 (int (h_used h) - int (blk_next h m - m)) = ?u"
    using le used_bound [OF c l] by (rule trunc_sub)
  ultimately have "rt_free (Some (int (m + SIZEOF_STRUCT_MEM))) h = plug_holes m h3"
    using um mg unfolding rt_free_def h3_def Let_def by (simp add: nat_add_distrib)
  moreover have "heap_ok h' xs'"
    using p lf3 l3 keeps_live_ok by (auto simp: heap_ok_def plugged_def)
  moreover have "released h xs m h' xs'"
    using p(2) li fl nx le unfolding plugged_def keeps_live_def released_def by auto
  moreover have "lfree_lowest h xs \<Longrightarrow> lfree_lowest h' xs'"
    using lo3 p(2) by (simp add: plugged_def)
  ultimately show ?thesis using that p(1) by metis
qed


section \<open>Reallocation\<close>

text \<open>A shrunk block: \<open>m\<close> keeps \<open>n\<close> bytes, every other block is as before.\<close>

definition shrunk :: "heap \<Rightarrow> nat list \<Rightarrow> nat \<Rightarrow> nat \<Rightarrow> heap \<Rightarrow> nat list \<Rightarrow> bool" where
  "shrunk h xs m n h' xs' \<longleftrightarrow> in_use h' xs' = in_use h xs \<and>
     (\<forall>x\<in>in_use h xs - {m}. blk_next h' x = blk_next h x) \<and>
     blk_next h' m = m + SIZEOF_STRUCT_MEM + n \<and> h_size h' = h_size h \<and> h_data h' = h_data h"

lemma rt_realloc_shrinks:
  assumes ok: "heap_ok h xs" and m: "m \<in> in_use h xs"
    and n: "0 < newsize" "newsize + RT_ALIGN_SIZE \<le> 2 ^ 32" "n = rt_align newsize"
    and room: "n + SIZEOF_STRUCT_MEM + MIN_SIZE_ALIGNED < blk_room h m"
  obtains h' xs' where "rt_realloc (Some (int (m + SIZEOF_STRUCT_MEM))) newsize h =
      Some (Some (int (m + SIZEOF_STRUCT_MEM)), h')"
    "heap_ok h' xs'" "shrunk h xs m n h' xs'"
    "blk_used h (blk_next h m) \<noteq> 0 \<Longrightarrow>
       h_lfree h' = h_lfree h \<and> m + SIZEOF_STRUCT_MEM + n \<in> set xs' \<and>
       blk_used h' (m + SIZEOF_STRUCT_MEM + n) = 0 \<and>
       blk_next h' (m + SIZEOF_STRUCT_MEM + n) = blk_next h m"
proof -
  from ok have c: "chain_ok h xs" and nt: "no_two_free h xs" and lf: "lfree_ok h xs" and l: "live_ok h xs"
    by (auto simp: heap_ok_def)
  from m have mx: "m \<in> set xs" and um: "blk_used h m \<noteq> 0" by (auto simp: in_use_def)
  obtain as bs where xs: "xs = as @ m # bs" using split_list [OF mx] by auto
  note at = chain_at [OF c [unfolded xs]]
  have gap: "m + SIZEOF_STRUCT_MEM < blk_next h m" using l m by (auto simp: live_ok_def)
  have n32: "rt_align32 newsize = n"
    unfolding rt_align32_def n(3) using rt_align_lt [of newsize] n(2) by (intro trunc_u_of_nat) simp
  have npos: "0 < n" using n(1) rt_align_ge [of newsize] by (simp add: n(3))
  have al: "RT_ALIGN_SIZE dvd n" by (simp add: n(3) rt_align_dvd)
  let ?k = "m + SIZEOF_STRUCT_MEM + n"
  have fit: "?k + SIZEOF_STRUCT_MEM \<le> blk_next h m" using room at(9) by simp
  define h1 where "h1 = h\<lparr>h_used := h_used h - (blk_room h m - n)\<rparr>"
  have c1: "chain_ok h1 (as @ m # bs)" using c by (simp add: h1_def xs)
  define h2 where "h2 = split_blk m n h1"
  have fit1: "?k + SIZEOF_STRUCT_MEM \<le> blk_next h1 m" using fit by (simp add: h1_def)
  note sp = split_chain [OF c1 fit1 al, folded h2_def]
  have new: "?k \<notin> set as" "?k \<notin> set bs" "?k \<noteq> m" using sp(6) by auto
  have us: "blk_used h2 x = (if x = ?k then 0 else blk_used h x)"
    and mg: "x \<noteq> ?k \<Longrightarrow> hm_magic (h_mem h2 x) = hm_magic (h_mem h x)" for x
    using sp(2) sp(3) [of x] by (auto simp: h1_def)
  have nx: "blk_next h2 x = blk_next h x" if "x \<noteq> ?k" "x \<noteq> m" for x
    using sp(4) [OF that] by (simp add: h1_def)
  have nxm: "blk_next h2 m = ?k" by (rule sp(5))
  have fl: "h_lfree h2 = h_lfree h" "h_size h2 = h_size h" "h_data h2 = h_data h"
    "heap_end h2 = heap_end h" "h_used h2 = h_used h - (blk_room h m - n)"
    by (simp_all add: h2_def h1_def)
  have li: "in_use h2 (as @ m # ?k # bs) = in_use h xs" using new by (auto simp: in_use_def us xs)
  have lk: "x \<noteq> ?k" if "x \<in> in_use h xs" for x using that new by (auto simp: in_use_def xs)
  have fin: "finite (in_use h xs)" by (simp add: in_use_def)
  have "(\<Sum>x\<in>in_use h xs. blk_next h2 x - x) =
      (blk_next h2 m - m) + (\<Sum>x\<in>in_use h xs - {m}. blk_next h2 x - x)"
    using fin m by (rule sum.remove)
  also have "(\<Sum>x\<in>in_use h xs - {m}. blk_next h2 x - x) = (\<Sum>x\<in>in_use h xs - {m}. blk_next h x - x)"
    using lk nx by (intro sum.cong) auto
  also have "\<dots> = h_used h - (blk_next h m - m)"
    using l m by (subst sum_diff1_nat) (simp add: live_ok_def)
  finally have "(\<Sum>x\<in>in_use h xs. blk_next h2 x - x) = h_used h2"
    using used_at_least [OF l m] room at(2,9) by (simp add: nxm fl)
  moreover have "hm_magic (h_mem h2 x) = HEAP_MAGIC \<and> x + SIZEOF_STRUCT_MEM < blk_next h2 x"
    if x: "x \<in> in_use h xs" for x
    using l x lk [OF x] mg [OF lk [OF x]] nx [OF lk [OF x]] nxm npos
    by (cases "x = m") (auto simp: live_ok_def)
  ultimately have l2: "live_ok h2 (as @ m # ?k # bs)" unfolding live_ok_def li by simp
  have lf2: "lfree_ok h2 (as @ m # ?k # bs)"
    using lf us um by (auto simp: lfree_ok_def xs fl)
  have "no_two_free h as" "no_two_free h bs"
    using nt by (auto simp: xs no_two_free_append no_two_free_Cons)
  then have "no_two_free h2 as" and nbs: "no_two_free h2 bs"
    using us new(1,2) by (auto elim!: no_two_free_mono)
  then have nas: "no_two_free h2 (as @ [m])"
    using us [of m] um new(3) by (auto simp: no_two_free_append)
  have c2: "chain_ok h2 ((as @ [m]) @ ?k # bs)" using sp(1) by simp
  note at2 = chain_at [OF c2]
  obtain h' xs' where p: "plug_holes ?k h2 = Some h'" "plugged h2 ((as @ [m]) @ ?k # bs) h' xs'"
    "no_two_free h' xs'" "blk_used h (blk_next h m) \<noteq> 0 \<Longrightarrow> h' = h2 \<and> ?k \<in> set xs'"
  proof (cases "blk_used h (blk_next h m) = 0")
    case True
    then show ?thesis using plug_holes_spec [OF c2 sp(2) nas nbs] that by metis
  next
    case False
    have k2: "blk_next h2 ?k = blk_next h m" using at2(1) at(1) fl by simp
    then have "blk_used h2 (blk_next h2 ?k) \<noteq> 0" using False us at(3) fit by (simp add: SIZEOF_STRUCT_MEM_def)
    moreover have "blk_prev h2 ?k = m" using at2(5) by simp
    moreover have "blk_used h2 m \<noteq> 0" using us um new(3) by simp
    moreover have "?k < heap_end h2" using at2(7) by (simp add: SIZEOF_STRUCT_MEM_def)
    ultimately have "plug_holes ?k h2 = Some h2"
      using sp(2) by (simp add: plug_holes_def plug_forward_merge plug_backward_merge)
    moreover have "bs = [] \<or> blk_used h2 (hd bs) \<noteq> 0"
      using False at(1) us new(2) by (cases bs) auto
    then have "no_two_free h2 ((as @ [m]) @ ?k # bs)"
      using nas nbs us new(3) um by (simp add: no_two_free_append no_two_free_Cons)
    ultimately show ?thesis
      using that [of h2 "(as @ [m]) @ ?k # bs"] plugged_refl [OF c2] by simp
  qed
  have "usub (usub (blk_next h m) m) SIZEOF_STRUCT_MEM = blk_room h m"
    using at(2,3,8,9) by (simp add: usub_le)
  moreover have "usub (blk_room h m) n = blk_room h m - n"
    using room at(3,8,9) by (intro usub_le) auto
  moreover have "trunc_u 32 (int (h_used h) - int (blk_room h m - n)) = h_used h - (blk_room h m - n)"
    using used_at_least [OF l m] at(9) used_bound [OF c l] by (intro trunc_sub) auto
  moreover have "n \<le> h_size h" using room at(3,9) by (simp add: heap_end_def)
  moreover have "m + SIZEOF_STRUCT_MEM < heap_end h" using gap at(3) by simp
  ultimately have eq: "rt_realloc (Some (int (m + SIZEOF_STRUCT_MEM))) newsize h =
      Some (Some (int (m + SIZEOF_STRUCT_MEM)), h')"
    using npos room p(1) unfolding rt_realloc_def Let_def n32 h2_def h1_def
    by (simp add: nat_add_distrib)
  have ok': "heap_ok h' xs'"
    using p lf2 l2 keeps_live_ok by (auto simp: heap_ok_def plugged_def)
  have sh: "shrunk h xs m n h' xs'"
    using p(2) li fl nx nxm lk m unfolding plugged_def keeps_live_def shrunk_def by auto
  have "h_lfree h' = h_lfree h \<and> ?k \<in> set xs' \<and> blk_used h' ?k = 0 \<and> blk_next h' ?k = blk_next h m"
    if "blk_used h (blk_next h m) \<noteq> 0"
    using p(4) [OF that] us fl at2(1) at(1) by simp
  then show ?thesis by (rule that [OF eq ok' sh])
qed


text \<open>
  The shrinking path of \<open>rt_realloc\<close> does not lower \<open>lfree\<close>: when every block is used, the bytes given
  back are out of reach of \<open>rt_malloc\<close>.
\<close>

lemma rt_realloc_hides:
  assumes ok: "heap_ok h xs" and low: "lfree_lowest h xs" and full: "h_lfree h = heap_end h"
    and m: "m \<in> in_use h xs" and n: "0 < newsize" "newsize + RT_ALIGN_SIZE \<le> 2 ^ 32"
    and room: "rt_align newsize + SIZEOF_STRUCT_MEM + MIN_SIZE_ALIGNED < blk_room h m"
  obtains h' xs' b where "rt_realloc (Some (int (m + SIZEOF_STRUCT_MEM))) newsize h =
      Some (Some (int (m + SIZEOF_STRUCT_MEM)), h')" "heap_ok h' xs'"
    "b \<in> set xs'" "blk_used h' b = 0"
    "blk_room h' b = blk_room h m - rt_align newsize - SIZEOF_STRUCT_MEM"
    "\<And>j. rt_malloc j h' = Some (None, h')"
proof -
  from ok have c: "chain_ok h xs" by (simp add: heap_ok_def)
  obtain as bs where xs: "xs = as @ m # bs" using m split_list [of m xs] by (auto simp: in_use_def)
  note at = chain_at [OF c [unfolded xs]]
  have "blk_used h (blk_next h m) \<noteq> 0"
  proof (cases bs)
    case Nil
    then show ?thesis using at(1) c by (simp add: chain_ok_def)
  next
    case (Cons b cs)
    then have "b < heap_end h" using at(14) [of b] by (simp add: SIZEOF_STRUCT_MEM_def)
    then show ?thesis using low full xs Cons at(1) by (simp add: lfree_lowest_def)
  qed
  then obtain h' xs' where r: "rt_realloc (Some (int (m + SIZEOF_STRUCT_MEM))) newsize h =
      Some (Some (int (m + SIZEOF_STRUCT_MEM)), h')" "heap_ok h' xs'"
    "shrunk h xs m (rt_align newsize) h' xs'" "h_lfree h' = h_lfree h"
    "m + SIZEOF_STRUCT_MEM + rt_align newsize \<in> set xs'"
    "blk_used h' (m + SIZEOF_STRUCT_MEM + rt_align newsize) = 0"
    "blk_next h' (m + SIZEOF_STRUCT_MEM + rt_align newsize) = blk_next h m"
    using rt_realloc_shrinks [OF ok m n refl room] by metis
  let ?b = "m + SIZEOF_STRUCT_MEM + rt_align newsize"
  have sz: "h_size h' = h_size h" using r(3) by (simp add: shrunk_def)
  then have "h_lfree h' = heap_end h'" using r(4) full by (simp add: heap_end_def)
  moreover have "MIN_SIZE_ALIGNED \<le> h_size h'" using room at(3,9) sz by (simp add: heap_end_def)
  moreover have c': "chain_ok h' xs'" using r(2) by (simp add: heap_ok_def)
  ultimately have none: "rt_malloc j h' = Some (None, h')" for j by (rule rt_malloc_at_end [rotated])
  obtain as' bs' where "xs' = as' @ ?b # bs'" using r(5) by (auto dest: split_list)
  then have "blk_room h' ?b = blk_next h' ?b - (?b + SIZEOF_STRUCT_MEM)"
    using chain_at(9) c' by blast
  then have "blk_room h' ?b = blk_room h m - rt_align newsize - SIZEOF_STRUCT_MEM"
    using at(9) r(7) by simp
  then show ?thesis using that r(1,2,5,6) none by blast
qed

lemma chain_disjoint:
  assumes "chain_ok h xs" "x \<in> set xs" "y \<in> set xs" "x < y"
  shows "blk_next h x \<le> y"
proof -
  obtain as bs where xs: "xs = as @ x # bs" using assms(2) by (auto dest: split_list)
  note at = chain_at [OF assms(1) [unfolded xs]]
  have "y \<in> set bs" using assms(3,4) xs at(12) [of y] by (auto simp: SIZEOF_STRUCT_MEM_def)
  then show ?thesis by (rule at(13))
qed

text \<open>
  Otherwise the block moves: the data is copied, the old block released and nothing else changes; when
  there is no memory, nothing changes at all.
\<close>

lemma rt_realloc_moves:
  assumes ok: "heap_ok h xs" and m: "m \<in> in_use h xs"
    and n: "0 < newsize" "newsize + RT_ALIGN_SIZE \<le> 2 ^ 32" "n = rt_align newsize" "n \<le> h_size h"
    and sz: "MIN_SIZE_ALIGNED \<le> h_size h"
    and room: "blk_room h m \<noteq> n" "blk_room h m \<le> n + SIZEOF_STRUCT_MEM + MIN_SIZE_ALIGNED"
  obtains "rt_realloc (Some (int (m + SIZEOF_STRUCT_MEM))) newsize h = Some (None, h)"
  | a h' xs' where
    "rt_realloc (Some (int (m + SIZEOF_STRUCT_MEM))) newsize h = Some (Some (int (a + SIZEOF_STRUCT_MEM)), h')"
    "heap_ok h' xs'" "in_use h' xs' = insert a (in_use h xs - {m})" "a \<notin> in_use h xs"
    "a + SIZEOF_STRUCT_MEM + n \<le> blk_next h' a"
    "\<And>x. x \<in> in_use h xs - {m} \<Longrightarrow> blk_next h' x = blk_next h x"
    "\<And>i. i < min (blk_room h m) n \<Longrightarrow>
       h_data h' (a + SIZEOF_STRUCT_MEM + i) = h_data h (m + SIZEOF_STRUCT_MEM + i)"
    "\<And>x b. x \<in> in_use h xs - {m} \<Longrightarrow> x + SIZEOF_STRUCT_MEM \<le> b \<Longrightarrow> b < blk_next h x \<Longrightarrow>
       h_data h' b = h_data h b"
proof -
  from ok have c: "chain_ok h xs" and l: "live_ok h xs" by (auto simp: heap_ok_def)
  obtain as bs where xs: "xs = as @ m # bs" using m split_list [of m xs] by (auto simp: in_use_def)
  note at = chain_at [OF c [unfolded xs]]
  have gap: "m + SIZEOF_STRUCT_MEM < blk_next h m" using l m by (auto simp: live_ok_def)
  have n32: "rt_align32 newsize = n"
    unfolding rt_align32_def n(3) using rt_align_lt [of newsize] n(2) by (intro trunc_u_of_nat) simp
  have npos: "0 < n" using n(1) rt_align_ge [of newsize] by (simp add: n(3))
  have nn: "rt_align n = n" using rt_align_dvd [of newsize]
    by (simp add: n(3) rt_align_def [of "rt_align newsize"] rt_align_down_def RT_ALIGN_SIZE_def) presburger
  have nlt: "n < 2 ^ 32" using n(4) at(8) by (simp add: heap_end_def)
  then have "rt_align32 n = n" by (simp add: rt_align32_def nn trunc_u_of_nat)
  then obtain k where k: "malloc_size n h = Some k" "n \<le> k" "k \<le> h_size h"
    using npos n(4) sz by (auto simp: malloc_size_def Let_def)
  let ?p = "int (m + SIZEOF_STRUCT_MEM)" and ?cnt = "if blk_room h m < n then blk_room h m else n"
  have u: "usub (usub (blk_next h m) m) SIZEOF_STRUCT_MEM = blk_room h m"
    using at(2,3,8,9) by (simp add: usub_le)
  have "m + SIZEOF_STRUCT_MEM < heap_end h" using gap at(3) by simp
  then have eq: "rt_realloc (Some ?p) newsize h =
      do { (p, h1) \<leftarrow> rt_malloc n h;
           case p of
             None \<Rightarrow> Some (None, h1)
           | Some a \<Rightarrow> map_option (Pair (Some (int a)))
               (rt_free (Some ?p) (h1\<lparr>h_data := rt_memcpy (h_data h1) a (m + SIZEOF_STRUCT_MEM) ?cnt\<rparr>)) }"
    using npos room n(4)
    unfolding rt_realloc_def Let_def n32 nat_int option.case add_diff_cancel_right' u
    by (simp del: of_nat_add)
  from rt_malloc_spec [OF ok k(1,3)] consider "rt_malloc n h = Some (None, h)"
    | a h1 xs1 where "rt_malloc n h = Some (Some (a + SIZEOF_STRUCT_MEM), h1)"
      "granted h xs a k h1 xs1" "heap_ok h1 xs1" by blast
  then show ?thesis
  proof cases
    case 1
    then show ?thesis using that(1) eq by simp
  next
    case (2 a h1 xs1)
    define d where "d = rt_memcpy (h_data h1) (a + SIZEOF_STRUCT_MEM) (m + SIZEOF_STRUCT_MEM) ?cnt"
    have g: "in_use h1 xs1 = insert a (in_use h xs)" "a \<notin> in_use h xs" "h_data h1 = h_data h"
      "a + SIZEOF_STRUCT_MEM + k \<le> blk_next h1 a" "\<And>x. x \<in> in_use h xs \<Longrightarrow> blk_next h1 x = blk_next h x"
      using 2(2) by (auto simp: granted_def in_use_def)
    have am: "a \<noteq> m" and m1: "m \<in> in_use h1 xs1" using g m by auto
    have c1: "chain_ok h1 xs1" using 2(3) by (simp add: heap_ok_def)
    have in1: "x \<in> set xs1" if "x = a \<or> x \<in> in_use h xs" for x
      using g(1) that by (auto simp: in_use_def)
    have apart: "blk_next h x \<le> a \<or> a + SIZEOF_STRUCT_MEM + k \<le> x" if "x \<in> in_use h xs" for x
      using chain_disjoint [OF c1, of x a] chain_disjoint [OF c1, of a x] in1 [of x] in1 [of a]
        that g(2,4) g(5) [OF that] by (cases x a rule: linorder_cases) auto
    have "upward_ok (a + SIZEOF_STRUCT_MEM) (m + SIZEOF_STRUCT_MEM) ?cnt"
      using apart [OF m] at(2,9) by (auto simp: upward_ok_def)
    then have d: "d = copied (h_data h) (a + SIZEOF_STRUCT_MEM) (m + SIZEOF_STRUCT_MEM) ?cnt"
      by (simp add: d_def g(3) rt_memcpy_eq)
    have ok2: "heap_ok (h1\<lparr>h_data := d\<rparr>) xs1" and m2: "m \<in> in_use (h1\<lparr>h_data := d\<rparr>) xs1"
      using 2(3) m1 by auto
    obtain h' xs' where f: "rt_free (Some ?p) (h1\<lparr>h_data := d\<rparr>) = Some h'" "heap_ok h' xs'"
      "released (h1\<lparr>h_data := d\<rparr>) xs1 m h' xs'"
      using rt_free_spec [OF ok2 m2] by metis
    then have r: "in_use h' xs' = in_use h1 xs1 - {m}" "h_data h' = d"
      "\<And>x. x \<in> in_use h' xs' \<Longrightarrow> blk_next h' x = blk_next h1 x" by (auto simp: released_def)
    show ?thesis
    proof (rule that(2))
      show "rt_realloc (Some ?p) newsize h = Some (Some (int (a + SIZEOF_STRUCT_MEM)), h')"
        unfolding eq 2(1) using f(1) by (simp add: d_def)
      show "in_use h' xs' = insert a (in_use h xs - {m})" using r(1) g(1) am by auto
      show "a + SIZEOF_STRUCT_MEM + n \<le> blk_next h' a" using r(1,3) g(1,4) am k(2) by simp
      show "blk_next h' x = blk_next h x" if "x \<in> in_use h xs - {m}" for x
        using that r(1,3) g(1,5) by simp
      show "h_data h' (a + SIZEOF_STRUCT_MEM + i) = h_data h (m + SIZEOF_STRUCT_MEM + i)"
        if "i < min (blk_room h m) n" for i using that by (auto simp: r(2) d copied_def)
      show "h_data h' b = h_data h b" if "x \<in> in_use h xs - {m}" "x + SIZEOF_STRUCT_MEM \<le> b" "b < blk_next h x" for x b
        using that apart [of x] k(2) by (auto simp: r(2) d copied_def)
    qed (use f(2) g(2) in auto)
  qed
qed

text \<open>The product of \<open>rt_calloc\<close> wraps around; short of that the block is cleared.\<close>

lemma rt_calloc_clears:
  assumes "count * n < 2 ^ 32" "rt_malloc (count * n) h = Some (Some a, h')"
  obtains h'' where "rt_calloc count n h = Some (Some a, h'')" "\<And>i. i < count * n \<Longrightarrow> h_data h'' (a + i) = 0"
    "h_mem h'' = h_mem h'"
proof -
  have b: "trunc_u 32 (int count * int n) = count * n"
    using trunc_u_of_nat [OF assms(1)] by simp
  show ?thesis
    by (rule that [of "h'\<lparr>h_data := rt_memset (h_data h') a 0 (count * n)\<rparr>"])
      (simp_all add: rt_calloc_def b assms(2) rt_memset_eq filled_def)
qed

lemma rt_calloc_wraps: "rt_calloc 0x10000 0x10001 h = rt_calloc 1 0x10000 h"
  by (simp add: rt_calloc_def trunc_u_def)


section \<open>The heap as an allocator\<close>

lemma hseg_unique:
  "hseg H p xs e \<Longrightarrow> hseg H p ys e \<Longrightarrow> hd (xs @ [e]) = hd (ys @ [e]) \<Longrightarrow> xs = ys"
proof (induction xs arbitrary: p ys)
  case Nil
  show ?case
  proof (cases ys)
    case (Cons y ys')
    then have "e \<notin> set ys" using gap_distinct [OF hseg_sorted [OF Nil(2)]] by simp
    then show ?thesis using Nil(3) Cons by simp
  qed simp
next
  case (Cons x xs)
  have "x \<noteq> e" using gap_distinct [OF hseg_sorted [OF Cons.prems(1)]] by auto
  then obtain ys' where "ys = x # ys'" using Cons.prems(3) by (cases ys) auto
  then show ?case using Cons by auto
qed

lemma chain_unique: "chain_ok h xs \<Longrightarrow> chain_ok h ys \<Longrightarrow> xs = ys"
  by (rule hseg_unique [of "h_mem h" 0 _ "heap_end h"]) (auto simp: chain_ok_def)

text \<open>The data of the used blocks.\<close>

definition heap_regions :: "heap \<Rightarrow> (nat \<times> nat) set" where
  "heap_regions h = {(x + SIZEOF_STRUCT_MEM, blk_next h x) | x xs. chain_ok h xs \<and> x \<in> in_use h xs}"

definition heap_fine :: "heap \<Rightarrow> bool" where
  "heap_fine h \<longleftrightarrow> (\<exists>xs. heap_ok h xs) \<and> MIN_SIZE_ALIGNED \<le> h_size h"

definition heap_fits :: "nat \<Rightarrow> bool" where
  "heap_fits n \<longleftrightarrow> 0 < n \<and> n + RT_ALIGN_SIZE \<le> 2 ^ 32"

lemma heap_regions_eq:
  "chain_ok h xs \<Longrightarrow> heap_regions h = (\<lambda>x. (x + SIZEOF_STRUCT_MEM, blk_next h x)) ` in_use h xs"
  using chain_unique by (auto simp: heap_regions_def)

lemma heap_regions_apart:
  assumes "heap_ok h xs"
  shows "apart (heap_regions h)"
proof -
  from assms have c: "chain_ok h xs" and l: "live_ok h xs" by (auto simp: heap_ok_def)
  have "blk_next h x \<le> y + SIZEOF_STRUCT_MEM \<or> blk_next h y \<le> x + SIZEOF_STRUCT_MEM"
    if "x \<in> in_use h xs" "y \<in> in_use h xs" "x \<noteq> y" for x y
    using that chain_disjoint [OF c, of x y] chain_disjoint [OF c, of y x]
    by (cases x y rule: linorder_cases) (auto simp: in_use_def)
  then show ?thesis
    using l unfolding apart_def heap_regions_eq [OF c] by (auto simp: live_ok_def)
qed

lemma heap_alloc_law:
  assumes "heap_fine h" "heap_fits n"
  shows "\<exists>r h'. rt_malloc n h = Some (r, h') \<and> heap_fine h' \<and>
    (case r of None \<Rightarrow> heap_regions h' = heap_regions h
     | Some a \<Rightarrow> \<exists>e. (a, e) \<notin> heap_regions h \<and> a + n \<le> e \<and>
                   heap_regions h' = insert (a, e) (heap_regions h))"
proof -
  from assms(1) obtain xs where ok: "heap_ok h xs" and sz: "MIN_SIZE_ALIGNED \<le> h_size h"
    by (auto simp: heap_fine_def)
  from ok have c: "chain_ok h xs" by (simp add: heap_ok_def)
  show ?thesis
  proof (cases "malloc_size n h")
    case None
    then show ?thesis using assms(1) by (simp add: rt_malloc_def)
  next
    case (Some k)
    have nk: "n \<le> k" using malloc_size_bounds(3) [OF Some] assms(2) by (simp add: heap_fits_def)
    have "k \<le> h_size h" using Some sz by (auto simp: malloc_size_def Let_def split: if_splits)
    from rt_malloc_spec [OF ok Some this] consider "rt_malloc n h = Some (None, h)"
      | m h' xs' where "rt_malloc n h = Some (Some (m + SIZEOF_STRUCT_MEM), h')"
        "granted h xs m k h' xs'" "heap_ok h' xs'" by blast
    then show ?thesis
    proof cases
      case 1
      then show ?thesis using assms(1) by simp
    next
      case (2 m h' xs')
      have c': "chain_ok h' xs'" using 2(3) by (simp add: heap_ok_def)
      have g: "in_use h' xs' = insert m (in_use h xs)" "m \<notin> in_use h xs"
        "m + SIZEOF_STRUCT_MEM + k \<le> blk_next h' m"
        "\<And>x. x \<in> in_use h xs \<Longrightarrow> blk_next h' x = blk_next h x" "h_size h' = h_size h"
        using 2(2) by (auto simp: granted_def in_use_def)
      have "heap_regions h' = insert (m + SIZEOF_STRUCT_MEM, blk_next h' m) (heap_regions h)"
        unfolding heap_regions_eq [OF c] heap_regions_eq [OF c'] g(1) using g(4) by (auto cong: image_cong)
      moreover have "(m + SIZEOF_STRUCT_MEM, blk_next h' m) \<notin> heap_regions h"
        unfolding heap_regions_eq [OF c] using g(2) by auto
      moreover have "heap_fine h'" using 2(3) sz g(5) by (auto simp: heap_fine_def)
      ultimately show ?thesis using 2(1) g(3) nk by fastforce
    qed
  qed
qed

lemma heap_free_law:
  assumes "heap_fine h" "(a, e) \<in> heap_regions h"
  shows "\<exists>h'. rt_free (Some (int a)) h = Some h' \<and> heap_fine h' \<and>
    heap_regions h' = heap_regions h - {(a, e)}"
proof -
  from assms(1) obtain xs where ok: "heap_ok h xs" and sz: "MIN_SIZE_ALIGNED \<le> h_size h"
    by (auto simp: heap_fine_def)
  from ok have c: "chain_ok h xs" by (simp add: heap_ok_def)
  obtain m where m: "m \<in> in_use h xs" and a: "a = m + SIZEOF_STRUCT_MEM" and e: "e = blk_next h m"
    using assms(2) heap_regions_eq [OF c] by auto
  obtain h' xs' where f: "rt_free (Some (int a)) h = Some h'" "heap_ok h' xs'" "released h xs m h' xs'"
    using rt_free_spec [OF ok m] a by metis
  have c': "chain_ok h' xs'" using f(2) by (simp add: heap_ok_def)
  have "heap_regions h' = heap_regions h - {(a, e)}"
    using f(3) unfolding heap_regions_eq [OF c] heap_regions_eq [OF c'] released_def a e by auto
  then show ?thesis using f sz by (auto simp: heap_fine_def released_def)
qed

interpretation heap_allocator: allocator heap_fine heap_regions heap_fits rt_malloc "\<lambda>a. rt_free (Some (int a))"
proof
  show "apart (heap_regions s)" if "heap_fine s" for s
    using that heap_regions_apart by (auto simp: heap_fine_def)
  show "0 < n" if "heap_fits n" for n using that by (simp add: heap_fits_def)
qed (use heap_alloc_law heap_free_law in auto)

end
