(* ===== verification/MbCrc.thy ===== *)
theory MbCrc
  imports KPrelude
begin

unbundle bit_operations_syntax

text \<open>
  The checksum of a Modbus RTU frame (components/net/freemodbus/modbus/rtu/mbcrc.c): the table-driven
  CRC-16 of the source, the bit-by-bit definition it stands for, and their equality.
\<close>

section \<open>The code\<close>

definition aucCRCHi :: "u8 list" where
  "aucCRCHi =
   [
    0x00, 0xC1, 0x81, 0x40, 0x01, 0xC0, 0x80, 0x41, 0x01, 0xC0, 0x80, 0x41, 0x00, 0xC1, 0x81, 0x40,
    0x01, 0xC0, 0x80, 0x41, 0x00, 0xC1, 0x81, 0x40, 0x00, 0xC1, 0x81, 0x40, 0x01, 0xC0, 0x80, 0x41,
    0x01, 0xC0, 0x80, 0x41, 0x00, 0xC1, 0x81, 0x40, 0x00, 0xC1, 0x81, 0x40, 0x01, 0xC0, 0x80, 0x41,
    0x00, 0xC1, 0x81, 0x40, 0x01, 0xC0, 0x80, 0x41, 0x01, 0xC0, 0x80, 0x41, 0x00, 0xC1, 0x81, 0x40,
    0x01, 0xC0, 0x80, 0x41, 0x00, 0xC1, 0x81, 0x40, 0x00, 0xC1, 0x81, 0x40, 0x01, 0xC0, 0x80, 0x41,
    0x00, 0xC1, 0x81, 0x40, 0x01, 0xC0, 0x80, 0x41, 0x01, 0xC0, 0x80, 0x41, 0x00, 0xC1, 0x81, 0x40,
    0x00, 0xC1, 0x81, 0x40, 0x01, 0xC0, 0x80, 0x41, 0x01, 0xC0, 0x80, 0x41, 0x00, 0xC1, 0x81, 0x40,
    0x01, 0xC0, 0x80, 0x41, 0x00, 0xC1, 0x81, 0x40, 0x00, 0xC1, 0x81, 0x40, 0x01, 0xC0, 0x80, 0x41,
    0x01, 0xC0, 0x80, 0x41, 0x00, 0xC1, 0x81, 0x40, 0x00, 0xC1, 0x81, 0x40, 0x01, 0xC0, 0x80, 0x41,
    0x00, 0xC1, 0x81, 0x40, 0x01, 0xC0, 0x80, 0x41, 0x01, 0xC0, 0x80, 0x41, 0x00, 0xC1, 0x81, 0x40,
    0x00, 0xC1, 0x81, 0x40, 0x01, 0xC0, 0x80, 0x41, 0x01, 0xC0, 0x80, 0x41, 0x00, 0xC1, 0x81, 0x40,
    0x01, 0xC0, 0x80, 0x41, 0x00, 0xC1, 0x81, 0x40, 0x00, 0xC1, 0x81, 0x40, 0x01, 0xC0, 0x80, 0x41,
    0x00, 0xC1, 0x81, 0x40, 0x01, 0xC0, 0x80, 0x41, 0x01, 0xC0, 0x80, 0x41, 0x00, 0xC1, 0x81, 0x40,
    0x01, 0xC0, 0x80, 0x41, 0x00, 0xC1, 0x81, 0x40, 0x00, 0xC1, 0x81, 0x40, 0x01, 0xC0, 0x80, 0x41,
    0x01, 0xC0, 0x80, 0x41, 0x00, 0xC1, 0x81, 0x40, 0x00, 0xC1, 0x81, 0x40, 0x01, 0xC0, 0x80, 0x41,
    0x00, 0xC1, 0x81, 0x40, 0x01, 0xC0, 0x80, 0x41, 0x01, 0xC0, 0x80, 0x41, 0x00, 0xC1, 0x81, 0x40]"

definition aucCRCLo :: "u8 list" where
  "aucCRCLo =
   [
    0x00, 0xC0, 0xC1, 0x01, 0xC3, 0x03, 0x02, 0xC2, 0xC6, 0x06, 0x07, 0xC7, 0x05, 0xC5, 0xC4, 0x04,
    0xCC, 0x0C, 0x0D, 0xCD, 0x0F, 0xCF, 0xCE, 0x0E, 0x0A, 0xCA, 0xCB, 0x0B, 0xC9, 0x09, 0x08, 0xC8,
    0xD8, 0x18, 0x19, 0xD9, 0x1B, 0xDB, 0xDA, 0x1A, 0x1E, 0xDE, 0xDF, 0x1F, 0xDD, 0x1D, 0x1C, 0xDC,
    0x14, 0xD4, 0xD5, 0x15, 0xD7, 0x17, 0x16, 0xD6, 0xD2, 0x12, 0x13, 0xD3, 0x11, 0xD1, 0xD0, 0x10,
    0xF0, 0x30, 0x31, 0xF1, 0x33, 0xF3, 0xF2, 0x32, 0x36, 0xF6, 0xF7, 0x37, 0xF5, 0x35, 0x34, 0xF4,
    0x3C, 0xFC, 0xFD, 0x3D, 0xFF, 0x3F, 0x3E, 0xFE, 0xFA, 0x3A, 0x3B, 0xFB, 0x39, 0xF9, 0xF8, 0x38,
    0x28, 0xE8, 0xE9, 0x29, 0xEB, 0x2B, 0x2A, 0xEA, 0xEE, 0x2E, 0x2F, 0xEF, 0x2D, 0xED, 0xEC, 0x2C,
    0xE4, 0x24, 0x25, 0xE5, 0x27, 0xE7, 0xE6, 0x26, 0x22, 0xE2, 0xE3, 0x23, 0xE1, 0x21, 0x20, 0xE0,
    0xA0, 0x60, 0x61, 0xA1, 0x63, 0xA3, 0xA2, 0x62, 0x66, 0xA6, 0xA7, 0x67, 0xA5, 0x65, 0x64, 0xA4,
    0x6C, 0xAC, 0xAD, 0x6D, 0xAF, 0x6F, 0x6E, 0xAE, 0xAA, 0x6A, 0x6B, 0xAB, 0x69, 0xA9, 0xA8, 0x68,
    0x78, 0xB8, 0xB9, 0x79, 0xBB, 0x7B, 0x7A, 0xBA, 0xBE, 0x7E, 0x7F, 0xBF, 0x7D, 0xBD, 0xBC, 0x7C,
    0xB4, 0x74, 0x75, 0xB5, 0x77, 0xB7, 0xB6, 0x76, 0x72, 0xB2, 0xB3, 0x73, 0xB1, 0x71, 0x70, 0xB0,
    0x50, 0x90, 0x91, 0x51, 0x93, 0x53, 0x52, 0x92, 0x96, 0x56, 0x57, 0x97, 0x55, 0x95, 0x94, 0x54,
    0x9C, 0x5C, 0x5D, 0x9D, 0x5F, 0x9F, 0x9E, 0x5E, 0x5A, 0x9A, 0x9B, 0x5B, 0x99, 0x59, 0x58, 0x98,
    0x88, 0x48, 0x49, 0x89, 0x4B, 0x8B, 0x8A, 0x4A, 0x4E, 0x8E, 0x8F, 0x4F, 0x8D, 0x4D, 0x4C, 0x8C,
    0x44, 0x84, 0x85, 0x45, 0x87, 0x47, 0x46, 0x86, 0x82, 0x42, 0x43, 0x83, 0x41, 0x81, 0x80, 0x40]"

text \<open>The loop over the bytes of the frame, with \<open>ucCRCHi\<close> and \<open>ucCRCLo\<close>.\<close>

fun crc_loop :: "u8 list \<Rightarrow> u8 \<Rightarrow> u8 \<Rightarrow> u8 \<times> u8" where
  "crc_loop [] hi lo = (hi, lo)"
| "crc_loop (b # bs) hi lo =
     (let iIndex = unat (lo XOR b)
      in crc_loop bs (aucCRCLo ! iIndex) (hi XOR aucCRCHi ! iIndex))"

definition usMBCRC16 :: "u8 list \<Rightarrow> u16" where
  "usMBCRC16 frame = (let (hi, lo) = crc_loop frame 0xFF 0xFF in push_bit 8 (ucast hi) OR ucast lo)"

section \<open>The definition of the checksum\<close>

text \<open>One bit of the division by the reflected polynomial 0xA001.\<close>

definition crc_bit :: "u16 \<Rightarrow> u16" where
  "crc_bit x = (if bit x 0 then drop_bit 1 x XOR 0xA001 else drop_bit 1 x)"

definition crc_byte :: "u8 \<Rightarrow> u16 \<Rightarrow> u16" where
  "crc_byte b c = (crc_bit ^^ 8) (c XOR ucast b)"

definition crc16 :: "u8 list \<Rightarrow> u16" where
  "crc16 bs = fold crc_byte bs 0xFFFF"


section \<open>The tables\<close>

text \<open>
  Entry \<open>i\<close> of the two tables is the checksum of the byte \<open>i\<close>, low byte in \<open>aucCRCHi\<close>. The
  entries are computed on integers, sixteen at a time.
\<close>

definition step_int :: "int \<Rightarrow> int" where
  "step_int x = (if even x then x div 2 else (x div 2) XOR 0xA001)"

definition step8 :: "int \<Rightarrow> int" where
  "step8 x = step_int (step_int (step_int (step_int (step_int (step_int (step_int (step_int x)))))))"

fun tab_ok :: "u8 list \<Rightarrow> u8 list \<Rightarrow> int \<Rightarrow> bool" where
  "tab_ok (h # hs) (l # ls) i \<longleftrightarrow>
     uint l * 256 + uint h = step8 i \<and> tab_ok hs ls (i + 1)"
| "tab_ok hs ls i \<longleftrightarrow> hs = [] \<and> ls = []"

lemma tab_rows:
  shows
    "tab_ok (take 16 (drop 0 aucCRCHi)) (take 16 (drop 0 aucCRCLo)) 0"
    "tab_ok (take 16 (drop 16 aucCRCHi)) (take 16 (drop 16 aucCRCLo)) 16"
    "tab_ok (take 16 (drop 32 aucCRCHi)) (take 16 (drop 32 aucCRCLo)) 32"
    "tab_ok (take 16 (drop 48 aucCRCHi)) (take 16 (drop 48 aucCRCLo)) 48"
    "tab_ok (take 16 (drop 64 aucCRCHi)) (take 16 (drop 64 aucCRCLo)) 64"
    "tab_ok (take 16 (drop 80 aucCRCHi)) (take 16 (drop 80 aucCRCLo)) 80"
    "tab_ok (take 16 (drop 96 aucCRCHi)) (take 16 (drop 96 aucCRCLo)) 96"
    "tab_ok (take 16 (drop 112 aucCRCHi)) (take 16 (drop 112 aucCRCLo)) 112"
    "tab_ok (take 16 (drop 128 aucCRCHi)) (take 16 (drop 128 aucCRCLo)) 128"
    "tab_ok (take 16 (drop 144 aucCRCHi)) (take 16 (drop 144 aucCRCLo)) 144"
    "tab_ok (take 16 (drop 160 aucCRCHi)) (take 16 (drop 160 aucCRCLo)) 160"
    "tab_ok (take 16 (drop 176 aucCRCHi)) (take 16 (drop 176 aucCRCLo)) 176"
    "tab_ok (take 16 (drop 192 aucCRCHi)) (take 16 (drop 192 aucCRCLo)) 192"
    "tab_ok (take 16 (drop 208 aucCRCHi)) (take 16 (drop 208 aucCRCLo)) 208"
    "tab_ok (take 16 (drop 224 aucCRCHi)) (take 16 (drop 224 aucCRCLo)) 224"
    "tab_ok (take 16 (drop 240 aucCRCHi)) (take 16 (drop 240 aucCRCLo)) 240"
  by (simp_all add: aucCRCHi_def aucCRCLo_def step8_def step_int_def)

lemma tab_ok_append:
  "length hs = length ls \<Longrightarrow> tab_ok (hs @ hs') (ls @ ls') i \<longleftrightarrow> tab_ok hs ls i \<and> tab_ok hs' ls' (i + int (length hs))"
  by (induction hs ls arbitrary: i rule: list_induct2) (simp_all add: add.assoc)

lemma tab_ok_length: "tab_ok hs ls i \<Longrightarrow> length hs = length ls"
  by (induction hs ls i rule: tab_ok.induct) auto

lemma tab_ok_chunk:
  assumes "tab_ok (take 16 (drop i hs)) (take 16 (drop i ls)) k"
    and "tab_ok (drop j hs) (drop j ls) (int j)" and "k = int i" and "j = i + 16" and "j \<le> length hs"
  shows "tab_ok (drop i hs) (drop i ls) (int i)"
proof -
  have "length (take 16 (drop i hs)) = length (take 16 (drop i ls))"
    using tab_ok_length [OF assms(1)] .
  moreover have "length (take 16 (drop i hs)) = 16" using assms(4,5) by simp
  moreover have "drop i hs = take 16 (drop i hs) @ drop j hs" for hs :: "u8 list"
    unfolding assms(4) by (metis add.commute append_take_drop_id drop_drop)
  ultimately show ?thesis
    using assms(1-4) tab_ok_append [of "take 16 (drop i hs)" "take 16 (drop i ls)" "drop j hs" "drop j ls" k]
    by simp
qed

lemma tables_ok: "tab_ok aucCRCHi aucCRCLo 0"
proof -
  have len: "length aucCRCHi = 256" "length aucCRCLo = 256"
    by (simp_all add: aucCRCHi_def aucCRCLo_def)
  have "tab_ok (drop 0 aucCRCHi) (drop 0 aucCRCLo) (int 0)"
    by (rule tab_ok_chunk [OF tab_rows(1)],
        rule tab_ok_chunk [OF tab_rows(2)],
        rule tab_ok_chunk [OF tab_rows(3)],
        rule tab_ok_chunk [OF tab_rows(4)],
        rule tab_ok_chunk [OF tab_rows(5)],
        rule tab_ok_chunk [OF tab_rows(6)],
        rule tab_ok_chunk [OF tab_rows(7)],
        rule tab_ok_chunk [OF tab_rows(8)],
        rule tab_ok_chunk [OF tab_rows(9)],
        rule tab_ok_chunk [OF tab_rows(10)],
        rule tab_ok_chunk [OF tab_rows(11)],
        rule tab_ok_chunk [OF tab_rows(12)],
        rule tab_ok_chunk [OF tab_rows(13)],
        rule tab_ok_chunk [OF tab_rows(14)],
        rule tab_ok_chunk [OF tab_rows(15)],
        rule tab_ok_chunk [OF tab_rows(16), of 256])
      (simp_all add: len)
  then show ?thesis by simp
qed

lemma tab_ok_nth:
  "tab_ok hs ls i \<Longrightarrow> j < length hs \<Longrightarrow> uint (ls ! j) * 256 + uint (hs ! j) = step8 (i + int j)"
proof (induction hs ls i arbitrary: j rule: tab_ok.induct)
  case (1 h hs l ls i)
  then show ?case by (cases j) (auto simp: add.assoc)
qed auto


section \<open>Equivalence\<close>

lemma uint_crc_bit: "uint (crc_bit x) = step_int (uint x)"
proof -
  have "bit x 0 \<longleftrightarrow> odd (uint x)" by (simp add: bit_uint_iff bit_0 [symmetric])
  then show ?thesis
    by (simp add: crc_bit_def step_int_def unsigned_xor_eq uint_div drop_bit_Suc)
qed

lemma uint_crc8: "uint ((crc_bit ^^ 8) x) = step8 (uint x)"
  by (simp add: step8_def uint_crc_bit numeral_eq_Suc)

lemma word16_bytes: "uint (push_bit 8 (ucast (l :: u8)) OR ucast (h :: u8) :: u16) = uint l * 256 + uint h"
proof -
  have "(push_bit 8 (ucast l) :: u16) AND ucast h = 0"
    by (rule bit_word_eqI) (auto simp: bit_and_iff bit_push_bit_iff bit_ucast_iff dest: bit_imp_le_length)
  then have "push_bit 8 (ucast l) OR ucast h = (push_bit 8 (ucast l) + ucast h :: u16)"
    by (simp add: disjunctive_add_eq_or)
  moreover have "uint l < 256" "uint h < 256" "0 \<le> uint l" "0 \<le> uint h"
    using uint_lt2p [of l] uint_lt2p [of h] by auto
  ultimately show ?thesis
    by (simp add: push_bit_eq_mult uint_word_ariths uint_up_ucast is_up_def source_size_def target_size_def)
qed

lemma table_entry:
  fixes i :: u8
  shows "push_bit 8 (ucast (aucCRCLo ! unat i)) OR ucast (aucCRCHi ! unat i) = (crc_bit ^^ 8) (ucast i)"
proof -
  have "length aucCRCHi = 256" by (simp add: aucCRCHi_def)
  moreover have "unat i < 256" using unsigned_less [of i] by simp
  ultimately have "uint (aucCRCLo ! unat i) * 256 + uint (aucCRCHi ! unat i) = step8 (uint i)"
    using tab_ok_nth [OF tables_ok, of "unat i"] by simp
  then have "uint (push_bit 8 (ucast (aucCRCLo ! unat i)) OR ucast (aucCRCHi ! unat i) :: u16) =
      uint ((crc_bit ^^ 8) (ucast i))"
    by (simp add: word16_bytes uint_crc8 uint_up_ucast is_up_def source_size_def target_size_def)
  then show ?thesis by (simp only: word_uint_eq_iff)
qed

lemma crc_bit_xor: "crc_bit (x XOR y) = crc_bit x XOR crc_bit y"
  by (rule bit_word_eqI) (auto simp: crc_bit_def bit_xor_iff bit_drop_bit_eq)

lemma crc_bits_xor: "(crc_bit ^^ n) (x XOR y) = (crc_bit ^^ n) x XOR (crc_bit ^^ n) y"
  by (induction n) (simp_all add: crc_bit_xor)

text \<open>A byte in the upper half only moves down.\<close>

lemma crc_bits_push: "n \<le> 8 \<Longrightarrow> (crc_bit ^^ n) (push_bit 8 (ucast (h :: u8))) = push_bit (8 - n) (ucast h)"
proof (induction n)
  case (Suc n)
  have "\<not> bit (push_bit (8 - n) (ucast h) :: u16) 0" using Suc.prems by (simp add: bit_push_bit_iff)
  moreover have "drop_bit 1 (push_bit (8 - n) (ucast h)) = (push_bit (8 - Suc n) (ucast h) :: u16)"
    using Suc.prems by (intro bit_word_eqI) (auto simp: bit_drop_bit_eq bit_push_bit_iff bit_ucast_iff dest: bit_imp_le_length)
  ultimately show ?case using Suc by (simp add: crc_bit_def)
qed simp

lemma crc_step:
  fixes hi lo b :: u8
  shows "crc_byte b (push_bit 8 (ucast hi) OR ucast lo) =
    push_bit 8 (ucast (aucCRCLo ! unat (lo XOR b))) OR ucast (hi XOR aucCRCHi ! unat (lo XOR b))"
proof -
  have "(push_bit 8 (ucast hi) OR ucast lo) XOR ucast b = (push_bit 8 (ucast hi) XOR ucast (lo XOR b) :: u16)"
    by (rule bit_word_eqI) (auto simp: bit_or_iff bit_xor_iff bit_push_bit_iff bit_ucast_iff dest: bit_imp_le_length)
  then have "crc_byte b (push_bit 8 (ucast hi) OR ucast lo) =
      ucast hi XOR (push_bit 8 (ucast (aucCRCLo ! unat (lo XOR b))) OR ucast (aucCRCHi ! unat (lo XOR b)))"
    using crc_bits_push [of 8 hi] by (simp only: crc_byte_def crc_bits_xor table_entry) simp
  also have "\<dots> = push_bit 8 (ucast (aucCRCLo ! unat (lo XOR b))) OR ucast (hi XOR aucCRCHi ! unat (lo XOR b))"
    by (rule bit_word_eqI) (auto simp: bit_or_iff bit_xor_iff bit_push_bit_iff bit_ucast_iff dest: bit_imp_le_length)
  finally show ?thesis .
qed

lemma crc_loop_eq:
  "(let (h, l) = crc_loop bs hi lo in push_bit 8 (ucast h) OR ucast l) =
   fold crc_byte bs (push_bit 8 (ucast hi) OR ucast lo)"
  by (induction bs arbitrary: hi lo) (simp_all add: Let_def crc_step)

theorem usMBCRC16_eq: "usMBCRC16 frame = crc16 frame"
  using crc_loop_eq [of frame "0xFF" "0xFF"] by (simp add: usMBCRC16_def crc16_def)

text \<open>A frame followed by its checksum, low byte first, has the checksum zero.\<close>

theorem crc_residue:
  "usMBCRC16 (frame @ [ucast (usMBCRC16 frame), ucast (drop_bit 8 (usMBCRC16 frame))]) = 0"
proof -
  obtain hi lo where c: "crc_loop frame 0xFF 0xFF = (hi, lo)" by (cases "crc_loop frame 0xFF 0xFF")
  have app: "crc_loop (xs @ ys) h l = (let (h', l') = crc_loop xs h l in crc_loop ys h' l')" for xs ys h l
    by (induction xs arbitrary: h l) (simp_all add: Let_def)
  have "usMBCRC16 frame = push_bit 8 (ucast hi) OR ucast lo" by (simp add: usMBCRC16_def c)
  moreover have nb: "\<not> bit lo (8 + n)" for n using bit_imp_le_length [of lo "8 + n"] by auto
  ultimately have "ucast (usMBCRC16 frame) = lo" "ucast (drop_bit 8 (usMBCRC16 frame)) = hi"
    by (auto intro!: bit_word_eqI simp: bit_ucast_iff bit_or_iff bit_push_bit_iff bit_drop_bit_eq
        nb dest: bit_imp_le_length)
  moreover have "aucCRCLo ! 0 = 0" "aucCRCHi ! 0 = 0" by (simp_all add: aucCRCLo_def aucCRCHi_def)
  ultimately show ?thesis by (simp add: usMBCRC16_def app c)
qed


text \<open>The division step can be undone, so a changed byte changes the checksum.\<close>

lemma xor_cancel: "x XOR z = y XOR z \<Longrightarrow> x = y" for x y z :: "'a::len word"
  by (metis xor.assoc xor_self_eq xor.right_neutral)

lemma crc_bit_inj: "crc_bit x = crc_bit y \<Longrightarrow> x = y"
proof (rule bit_word_eqI)
  fix n assume e: "crc_bit x = crc_bit y" and n: "n < LENGTH(16)"
  have top: "bit (crc_bit z) 15 \<longleftrightarrow> bit z 0" for z :: u16
    by (auto simp: crc_bit_def bit_xor_iff bit_drop_bit_eq dest: bit_imp_le_length)
  then have z: "bit x 0 \<longleftrightarrow> bit y 0" using e by metis
  then have "drop_bit 1 x = drop_bit 1 y"
    using e by (auto simp: crc_bit_def split: if_splits dest: xor_cancel)
  then have "bit (drop_bit 1 x) (n - 1) \<longleftrightarrow> bit (drop_bit 1 y) (n - 1)" by simp
  then show "bit x n \<longleftrightarrow> bit y n" using z by (cases n) (auto simp: bit_drop_bit_eq)
qed

lemma crc_bits_inj: "(crc_bit ^^ n) x = (crc_bit ^^ n) y \<Longrightarrow> x = y"
  by (induction n) (auto dest: crc_bit_inj)

lemma crc_byte_inj: "crc_byte b c = crc_byte b c' \<Longrightarrow> c = c'"
  unfolding crc_byte_def by (drule crc_bits_inj) (rule xor_cancel)

lemma fold_crc_inj: "fold crc_byte bs c = fold crc_byte bs c' \<Longrightarrow> c = c'"
  by (induction bs arbitrary: c c') (auto dest: crc_byte_inj)

lemma crc_detects_byte:
  assumes "b \<noteq> b'"
  shows "usMBCRC16 (xs @ b # ys) \<noteq> usMBCRC16 (xs @ b' # ys)"
proof
  assume "usMBCRC16 (xs @ b # ys) = usMBCRC16 (xs @ b' # ys)"
  then have "crc_byte b (fold crc_byte xs 0xFFFF) = crc_byte b' (fold crc_byte xs 0xFFFF)"
    by (auto simp: usMBCRC16_eq crc16_def dest!: fold_crc_inj)
  then have "ucast b XOR fold crc_byte xs 0xFFFF = ucast b' XOR fold crc_byte xs 0xFFFF"
    unfolding crc_byte_def by (drule_tac crc_bits_inj) (simp add: xor.commute)
  then have "(ucast b :: u16) = ucast b'" by (rule xor_cancel)
  then have w: "bit (ucast b :: u16) n \<longleftrightarrow> bit (ucast b' :: u16) n" for n by simp
  have "bit b n \<longleftrightarrow> bit b' n" if "n < 8" for n
    using w [of n] that by (simp add: bit_ucast_iff)
  then have "b = b'" by (intro bit_word_eqI) simp
  then show False using assms by simp
qed

end
