(* ===== verification/MbUtils.thy ===== *)
theory MbUtils
  imports KPrelude "HOL-Library.Monad_Syntax"
begin

unbundle bit_operations_syntax

text \<open>
  The helpers of the Modbus stack (components/net/freemodbus/modbus/functions/mbutils.c): bit fields
  in a byte buffer and the translation of error codes into exceptions. An access outside the buffer
  is \<open>None\<close>.
\<close>

datatype eMBErrorCode = MB_ENOERR | MB_ENOREG | MB_EINVAL | MB_EPORTERR | MB_ENORES | MB_EIO |
  MB_EILLSTATE | MB_ETIMEDOUT

datatype eMBException = MB_EX_NONE | MB_EX_ILLEGAL_FUNCTION | MB_EX_ILLEGAL_DATA_ADDRESS |
  MB_EX_ILLEGAL_DATA_VALUE | MB_EX_SLAVE_DEVICE_FAILURE | MB_EX_SLAVE_BUSY

text \<open>The number of an exception on the wire.\<close>

fun exception_code :: "eMBException \<Rightarrow> u8" where
  "exception_code MB_EX_NONE = 0"
| "exception_code MB_EX_ILLEGAL_FUNCTION = 1"
| "exception_code MB_EX_ILLEGAL_DATA_ADDRESS = 2"
| "exception_code MB_EX_ILLEGAL_DATA_VALUE = 3"
| "exception_code MB_EX_SLAVE_DEVICE_FAILURE = 4"
| "exception_code MB_EX_SLAVE_BUSY = 6"

fun prveMBError2Exception :: "eMBErrorCode \<Rightarrow> eMBException" where
  "prveMBError2Exception MB_ENOERR = MB_EX_NONE"
| "prveMBError2Exception MB_ENOREG = MB_EX_ILLEGAL_DATA_ADDRESS"
| "prveMBError2Exception MB_ETIMEDOUT = MB_EX_SLAVE_BUSY"
| "prveMBError2Exception _ = MB_EX_SLAVE_DEVICE_FAILURE"

text \<open>Two bytes as the word the code puts together from them, low byte first.\<close>

definition word_of_bytes :: "u8 \<Rightarrow> u8 \<Rightarrow> u16" where
  "word_of_bytes lo hi = ucast lo OR push_bit 8 (ucast hi)"

definition bits_mask :: "nat \<Rightarrow> u16" where
  "bits_mask n = push_bit n 1 - 1"

text \<open>\<open>base\<close> is the offset of \<open>ucByteBuf\<close> in the array it points into.\<close>

definition xMBUtilSetBits :: "u8 list \<Rightarrow> nat \<Rightarrow> nat \<Rightarrow> nat \<Rightarrow> u8 \<Rightarrow> u8 list option" where
  "xMBUtilSetBits buf base bit_off nbits ucValue =
     (if nbits \<le> 8 then
        let byte_off = base + bit_off div 8;
            npre = bit_off - bit_off div 8 * 8;
            val = push_bit npre (ucast ucValue) :: u16;
            mask = push_bit npre (bits_mask nbits)
        in do { b0 \<leftarrow> mem_read buf (int byte_off);
                b1 \<leftarrow> mem_read buf (int (byte_off + 1));
                let w = word_of_bytes b0 b1 AND NOT mask OR val;
                buf1 \<leftarrow> mem_write buf (int byte_off) (ucast w);
                mem_write buf1 (int (byte_off + 1)) (ucast (drop_bit 8 w)) }
      else None)"

definition xMBUtilGetBits :: "u8 list \<Rightarrow> nat \<Rightarrow> nat \<Rightarrow> nat \<Rightarrow> u8 option" where
  "xMBUtilGetBits buf base bit_off nbits =
     (let byte_off = base + bit_off div 8;
          npre = bit_off - bit_off div 8 * 8
      in do { b0 \<leftarrow> mem_read buf (int byte_off);
              b1 \<leftarrow> mem_read buf (int (byte_off + 1));
              Some (ucast (drop_bit npre (word_of_bytes b0 b1) AND bits_mask nbits)) })"

section \<open>Bits of a buffer\<close>

text \<open>Bit \<open>i\<close> of a buffer, the bits of each byte counted from the lowest.\<close>

definition buf_bit :: "u8 list \<Rightarrow> nat \<Rightarrow> bool" where
  "buf_bit buf i = bit (buf ! (i div 8)) (i mod 8)"

lemma bit_bits_mask: "n \<le> 8 \<Longrightarrow> bit (bits_mask n) i \<longleftrightarrow> i < n"
proof -
  assume n: "n \<le> 8"
  have "bits_mask n = mask n" by (simp add: bits_mask_def mask_eq_decr_exp push_bit_eq_mult)
  then show ?thesis using n by (auto simp: bit_mask_iff)
qed

lemma bit_word_of_bytes: "bit (word_of_bytes lo hi) i \<longleftrightarrow> (if i < 8 then bit lo i else i < 16 \<and> bit hi (i - 8))"
  by (auto simp: word_of_bytes_def bit_or_iff bit_push_bit_iff bit_ucast_iff dest: bit_imp_le_length)

lemma word_of_bytes_split: "word_of_bytes (ucast w) (ucast (drop_bit 8 w)) = w"
  by (rule bit_word_eqI) (auto simp: bit_word_of_bytes bit_ucast_iff bit_drop_bit_eq)

lemma buf_bit_word:
  assumes "j < 16"
  shows "buf_bit buf (8 * b + j) = bit (word_of_bytes (buf ! b) (buf ! (b + 1))) j"
proof (cases "j < 8")
  case True
  then show ?thesis by (simp add: buf_bit_def bit_word_of_bytes)
next
  case False
  then obtain k where k: "j = 8 + k" "k < 8" using assms by (metis add_less_cancel_left le_Suc_ex not_less numeral_Bit0)
  have "8 * b + j = k + 8 * (b + 1)" unfolding k(1) by simp
  then have "(8 * b + j) div 8 = b + 1" "(8 * b + j) mod 8 = k"
    using k(2) div_mult_self2 [of 8 k "b + 1"] mod_mult_self2 [of k 8 "b + 1"] by simp_all
  then have "buf_bit buf (8 * b + j) = bit (buf ! (b + 1)) k" by (simp add: buf_bit_def)
  then show ?thesis using k by (simp add: bit_word_of_bytes)
qed

text \<open>Where the field lies: byte \<open>b\<close>, \<open>p\<close> bits in.\<close>

lemma field_place:
  fixes off :: nat
  obtains p where "off - off div 8 * 8 = p" "p < 8" "\<And>i. 8 * base + off + i = 8 * (base + off div 8) + (p + i)"
proof -
  have "off - off div 8 * 8 = off mod 8" by (metis minus_div_mult_eq_mod)
  then show ?thesis using that [of "off mod 8"] by simp
qed

lemma mem_at: "b + 1 < length buf \<Longrightarrow> mem_read buf (int b) = Some (buf ! b) \<and> mem_read buf (int (b + 1)) = Some (buf ! (b + 1))"
  by (auto simp: mem_read_def nat_add_distrib)

text \<open>Reading a field gives the bits of the buffer from its offset on.\<close>

lemma xMBUtilGetBits_spec:
  assumes "base + off div 8 + 1 < length buf" "n \<le> 8"
  obtains v where "xMBUtilGetBits buf base off n = Some v"
    "\<And>i. bit v i \<longleftrightarrow> i < n \<and> buf_bit buf (8 * base + off + i)"
proof -
  let ?b = "base + off div 8"
  let ?w = "word_of_bytes (buf ! ?b) (buf ! (?b + 1))"
  obtain p where p: "off - off div 8 * 8 = p" "p < 8" "\<And>i. 8 * base + off + i = 8 * ?b + (p + i)"
    by (rule field_place [of off base]) (rule that, assumption+)
  have "xMBUtilGetBits buf base off n = Some (ucast (drop_bit p ?w AND bits_mask n))"
    using mem_at [OF assms(1)] by (simp add: xMBUtilGetBits_def Let_def p(1))
  moreover have "bit (ucast (drop_bit p ?w AND bits_mask n) :: u8) i \<longleftrightarrow>
      i < n \<and> buf_bit buf (8 * base + off + i)" for i
    using assms(2) p(2) buf_bit_word [of "p + i" buf ?b] unfolding p(3)
    by (auto simp: bit_ucast_iff bit_and_iff bit_drop_bit_eq bit_bits_mask)
  ultimately show ?thesis using that by blast
qed

text \<open>
  Writing a field sets its bits. A value wider than the field is not cut off: its upper bits are
  joined with the bits behind the field.
\<close>

lemma xMBUtilSetBits_spec:
  assumes "base + off div 8 + 1 < length buf" "n \<le> 8"
  obtains buf' where "xMBUtilSetBits buf base off n v = Some buf'" "length buf' = length buf"
    "\<And>i. buf_bit buf' i \<longleftrightarrow>
       (if 8 * base + off \<le> i \<and> i < 8 * base + off + n then bit v (i - (8 * base + off))
        else buf_bit buf i \<or> 8 * base + off + n \<le> i \<and> bit v (i - (8 * base + off)))"
proof -
  let ?b = "base + off div 8"
  let ?w0 = "word_of_bytes (buf ! ?b) (buf ! (?b + 1))"
  obtain p where p: "off - off div 8 * 8 = p" "p < 8" "\<And>i. 8 * base + off + i = 8 * ?b + (p + i)"
    by (rule field_place [of off base]) (rule that, assumption+)
  define w where "w = ?w0 AND NOT (push_bit p (bits_mask n)) OR push_bit p (ucast v)"
  define buf' where "buf' = buf[?b := ucast w, ?b + 1 := ucast (drop_bit 8 w)]"
  have eq: "xMBUtilSetBits buf base off n v = Some buf'"
    using mem_at [OF assms(1)] assms unfolding xMBUtilSetBits_def Let_def p(1) buf'_def w_def
    by (simp add: mem_write_def nat_add_distrib)
  have w: "bit w j \<longleftrightarrow> (if p \<le> j \<and> j < p + n then bit v (j - p)
      else bit ?w0 j \<or> p + n \<le> j \<and> bit v (j - p))" if "j < 16" for j
    using that assms(2) p(2)
    by (auto simp: w_def bit_or_iff bit_and_iff bit_not_iff bit_push_bit_iff bit_ucast_iff bit_bits_mask
        dest: bit_imp_le_length)
  have new: "word_of_bytes (buf' ! ?b) (buf' ! (?b + 1)) = w"
    using assms(1) by (simp add: buf'_def word_of_bytes_split)
  have "buf_bit buf' i \<longleftrightarrow>
      (if 8 * base + off \<le> i \<and> i < 8 * base + off + n then bit v (i - (8 * base + off))
       else buf_bit buf i \<or> 8 * base + off + n \<le> i \<and> bit v (i - (8 * base + off)))" for i
  proof (cases "8 * ?b \<le> i \<and> i < 8 * ?b + 16")
    case True
    then obtain j where j: "i = 8 * ?b + j" "j < 16" by (metis add_less_cancel_left le_Suc_ex)
    have "buf_bit buf' i = bit w j" "buf_bit buf i = bit ?w0 j"
      unfolding j(1) using buf_bit_word [OF j(2), of _ ?b] new by simp_all
    moreover obtain c where "8 * ?b = c" "8 * base + off = c + p" using p(3) [of 0] by simp
    ultimately show ?thesis
      using w [OF j(2)] j(1) by (simp only: add_le_cancel_left add.assoc add_less_cancel_left
          diff_add_inverse add_diff_cancel_left)
  next
    case False
    then have "i div 8 \<noteq> ?b" "i div 8 \<noteq> ?b + 1" by auto
    then have "buf_bit buf' i = buf_bit buf i" by (simp add: buf_bit_def buf'_def)
    moreover have "bit v (i - (8 * base + off)) \<Longrightarrow> 8 * base + off \<le> i \<Longrightarrow> False"
      using False p(2) p(3) [of 0] by (auto dest!: bit_imp_le_length)
    ultimately show ?thesis using False p(2) p(3) [of 0] assms(2) by auto
  qed
  then show ?thesis using that [OF eq] by (simp add: buf'_def)
qed

text \<open>A field that was written is read back.\<close>

lemma bits_roundtrip:
  assumes "base + off div 8 + 1 < length buf" "n \<le> 8" "xMBUtilSetBits buf base off n v = Some buf'"
  shows "xMBUtilGetBits buf' base off n = Some (v AND mask n)"
proof -
  obtain b where b: "xMBUtilSetBits buf base off n v = Some b" "length b = length buf"
    "\<And>i. buf_bit b i \<longleftrightarrow>
       (if 8 * base + off \<le> i \<and> i < 8 * base + off + n then bit v (i - (8 * base + off))
        else buf_bit buf i \<or> 8 * base + off + n \<le> i \<and> bit v (i - (8 * base + off)))"
    using xMBUtilSetBits_spec [OF assms(1,2)] by metis
  have [simp]: "b = buf'" using b(1) assms(3) by simp
  obtain r where r: "xMBUtilGetBits buf' base off n = Some r"
    "\<And>i. bit r i \<longleftrightarrow> i < n \<and> buf_bit buf' (8 * base + off + i)"
    using xMBUtilGetBits_spec [of base off buf' n] assms(1,2) b(2) by auto
  have "r = v AND mask n"
    by (rule bit_word_eqI) (auto simp: r(2) b(3) [simplified] bit_and_iff bit_mask_iff)
  then show ?thesis using r(1) by simp
qed

end
