(* ===== verification/MbApp.thy ===== *)
theory MbApp
  imports MbUtils
begin

unbundle bit_operations_syntax

text \<open>
  The state of a Modbus slave and its application callbacks
  (components/net/freemodbus/port/user_mb_app.c): register and coil tables, read into and written from
  the frame buffer \<open>ucRTUBuf\<close>. A pointer into the buffer is an offset.
\<close>

datatype eMBRcvState = STATE_RX_INIT | STATE_RX_IDLE | STATE_RX_RCV | STATE_RX_ERROR

datatype eMBSndState = STATE_TX_IDLE | STATE_TX_XMIT

datatype eMBEventType = EV_READY | EV_FRAME_RECEIVED | EV_EXECUTE | EV_FRAME_SENT

datatype eMBState = STATE_ENABLED | STATE_DISABLED | STATE_NOT_INITIALIZED

datatype eMBRegisterMode = MB_REG_READ | MB_REG_WRITE

datatype mb_function = ReportSlaveID | ReadInputRegister | ReadHoldingRegister |
  WriteMultipleHoldingRegister | WriteHoldingRegister | ReadWriteMultipleHoldingRegister |
  ReadCoils | WriteCoil | WriteMultipleCoils | ReadDiscreteInputs

text \<open>
  The port layer is what it does to the line and the timer: \<open>s_tx\<close> are the bytes put on the line,
  \<open>s_rx_on\<close>, \<open>s_tx_on\<close> the enabled directions, \<open>s_timer_on\<close> whether the 3.5-character timer
  runs, \<open>s_events\<close> the events posted and not yet taken.
\<close>

record mb_slave =
  s_buf :: "u8 list"
  s_snd :: eMBSndState
  s_rcv :: eMBRcvState
  s_cur :: nat
  s_cnt :: nat
  s_pos :: nat
  s_tx :: "u8 list"
  s_rx_on :: bool
  s_tx_on :: bool
  s_timer_on :: bool
  s_events :: "eMBEventType set"
  s_hold :: "u16 list"
  s_inp :: "u16 list"
  s_coil :: "u8 list"
  s_disc :: "u8 list"
  s_id :: "u8 list"
  s_idlen :: nat
  s_handlers :: "(u8 \<times> mb_function option) list"
  s_addr :: u8
  s_state :: eMBState
  s_rcvaddr :: u8
  s_frame :: nat
  s_func :: u8
  s_len :: nat
  s_exc :: eMBException

definition rd :: "nat \<Rightarrow> mb_slave \<Rightarrow> u8 option" where
  "rd p s = mem_read (s_buf s) (int p)"

definition wr :: "nat \<Rightarrow> u8 \<Rightarrow> mb_slave \<Rightarrow> mb_slave option" where
  "wr p b s = map_option (\<lambda>m. s\<lparr>s_buf := m\<rparr>) (mem_write (s_buf s) (int p) b)"

text \<open>A 16-bit number in the frame, high byte first.\<close>

definition rd16 :: "nat \<Rightarrow> mb_slave \<Rightarrow> u16 option" where
  "rd16 p s = do { h \<leftarrow> rd p s; l \<leftarrow> rd (p + 1) s; Some (push_bit 8 (ucast h) OR ucast l) }"

definition S_DISCRETE_INPUT_START :: nat where "S_DISCRETE_INPUT_START = 0"
definition S_DISCRETE_INPUT_NDISCRETES :: nat where "S_DISCRETE_INPUT_NDISCRETES = 16"
definition S_COIL_START :: nat where "S_COIL_START = 0"
definition S_COIL_NCOILS :: nat where "S_COIL_NCOILS = 64"
definition S_REG_INPUT_START :: nat where "S_REG_INPUT_START = 0"
definition S_REG_INPUT_NREGS :: nat where "S_REG_INPUT_NREGS = 100"
definition S_REG_HOLDING_START :: nat where "S_REG_HOLDING_START = 0"
definition S_REG_HOLDING_NREGS :: nat where "S_REG_HOLDING_NREGS = 100"

lemmas table_limits = S_DISCRETE_INPUT_START_def S_DISCRETE_INPUT_NDISCRETES_def S_COIL_START_def
  S_COIL_NCOILS_def S_REG_INPUT_START_def S_REG_INPUT_NREGS_def S_REG_HOLDING_START_def
  S_REG_HOLDING_NREGS_def

section \<open>Registers\<close>

text \<open>The loops over \<open>n\<close> registers from index \<open>i\<close>; the first one serves both register tables.\<close>

fun regs_read :: "(mb_slave \<Rightarrow> u16 list) \<Rightarrow> nat \<Rightarrow> nat \<Rightarrow> nat \<Rightarrow> mb_slave \<Rightarrow> mb_slave option" where
  "regs_read tab p i 0 s = Some s"
| "regs_read tab p i (Suc n) s =
     do { v \<leftarrow> mem_read (tab s) (int i);
          s1 \<leftarrow> wr p (ucast (drop_bit 8 v)) s;
          s2 \<leftarrow> wr (p + 1) (ucast (v AND 0xFF)) s1;
          regs_read tab (p + 2) (i + 1) n s2 }"

fun hold_write :: "nat \<Rightarrow> nat \<Rightarrow> nat \<Rightarrow> mb_slave \<Rightarrow> mb_slave option" where
  "hold_write p i 0 s = Some s"
| "hold_write p i (Suc n) s =
     do { h \<leftarrow> rd p s;
          t1 \<leftarrow> mem_write (s_hold s) (int i) (push_bit 8 (ucast h));
          l \<leftarrow> rd (p + 1) s;
          t2 \<leftarrow> mem_write t1 (int i) (push_bit 8 (ucast h) OR ucast l);
          hold_write (p + 2) (i + 1) n (s\<lparr>s_hold := t2\<rparr>) }"

definition eMBRegInputCB :: "nat \<Rightarrow> u16 \<Rightarrow> u16 \<Rightarrow> mb_slave \<Rightarrow> (eMBErrorCode \<times> mb_slave) option" where
  "eMBRegInputCB p usAddress usNRegs s =
     (let a = unat (usAddress - 1); n = unat usNRegs in
      if a \<ge> S_REG_INPUT_START \<and> a + n \<le> S_REG_INPUT_START + S_REG_INPUT_NREGS
      then map_option (Pair MB_ENOERR) (regs_read s_inp p (a - S_REG_INPUT_START) n s)
      else Some (MB_ENOREG, s))"

definition eMBRegHoldingCB :: "nat \<Rightarrow> u16 \<Rightarrow> u16 \<Rightarrow> eMBRegisterMode \<Rightarrow> mb_slave \<Rightarrow>
    (eMBErrorCode \<times> mb_slave) option" where
  "eMBRegHoldingCB p usAddress usNRegs eMode s =
     (let a = unat (usAddress - 1); n = unat usNRegs in
      if a \<ge> S_REG_HOLDING_START \<and> a + n \<le> S_REG_HOLDING_START + S_REG_HOLDING_NREGS
      then map_option (Pair MB_ENOERR)
             (case eMode of
                MB_REG_READ \<Rightarrow> regs_read s_hold p (a - S_REG_HOLDING_START) n s
              | MB_REG_WRITE \<Rightarrow> hold_write p (a - S_REG_HOLDING_START) n s)
      else Some (MB_ENOREG, s))"

section \<open>Coils and discrete inputs\<close>

text \<open>The loop over \<open>iNReg\<close> bytes of bits; it serves the coils and the discrete inputs.\<close>

fun bits_read :: "(mb_slave \<Rightarrow> u8 list) \<Rightarrow> nat \<Rightarrow> nat \<Rightarrow> nat \<Rightarrow> nat \<Rightarrow> mb_slave \<Rightarrow> mb_slave option" where
  "bits_read tab p i b 0 s = Some s"
| "bits_read tab p i b (Suc n) s =
     do { v \<leftarrow> xMBUtilGetBits (tab s) i b 8;
          s1 \<leftarrow> wr p v s;
          bits_read tab (p + 1) (i + 1) b n s1 }"

text \<open>The two shifts that clear the bits behind the last one asked for.\<close>

definition clear_high :: "nat \<Rightarrow> nat \<Rightarrow> mb_slave \<Rightarrow> mb_slave option" where
  "clear_high p n s =
     do { v \<leftarrow> rd p s;
          s1 \<leftarrow> wr p (push_bit (8 - n) v) s;
          v1 \<leftarrow> rd p s1;
          wr p (drop_bit (8 - n) v1) s1 }"

fun coils_write :: "u8 list \<Rightarrow> nat \<Rightarrow> nat \<Rightarrow> nat \<Rightarrow> nat \<Rightarrow> mb_slave \<Rightarrow> mb_slave option" where
  "coils_write src p i b 0 s = Some s"
| "coils_write src p i b (Suc n) s =
     do { v \<leftarrow> mem_read src (int p);
          t \<leftarrow> xMBUtilSetBits (s_coil s) i b 8 v;
          coils_write src (p + 1) (i + 1) b n (s\<lparr>s_coil := t\<rparr>) }"

text \<open>
  \<open>src\<close> is the array that \<open>pucRegBuffer\<close> points into when coils are written: the frame buffer or a
  local array of the caller. Coils are read into the frame buffer.
\<close>

definition eMBRegCoilsCB :: "u8 list \<Rightarrow> nat \<Rightarrow> u16 \<Rightarrow> u16 \<Rightarrow> eMBRegisterMode \<Rightarrow> mb_slave \<Rightarrow>
    (eMBErrorCode \<times> mb_slave) option" where
  "eMBRegCoilsCB src p usAddress usNCoils eMode s =
     (let a = unat (usAddress - 1); n = unat usNCoils; iNReg = n div 8 + 1 in
      if a \<ge> S_COIL_START \<and> a + n \<le> S_COIL_START + S_COIL_NCOILS
      then let i = (a - S_COIL_START) div 8; b = (a - S_COIL_START) mod 8 in
           map_option (Pair MB_ENOERR)
             (case eMode of
                MB_REG_READ \<Rightarrow>
                  do { s1 \<leftarrow> bits_read s_coil p i b iNReg s;
                       clear_high (p + iNReg - 1) (n mod 8) s1 }
              | MB_REG_WRITE \<Rightarrow>
                  do { s1 \<leftarrow> coils_write src p i b (iNReg - 1) s;
                       if n mod 8 \<noteq> 0
                       then do { v \<leftarrow> mem_read src (int (p + (iNReg - 1)));
                                 t \<leftarrow> xMBUtilSetBits (s_coil s1) (i + (iNReg - 1)) b (n mod 8) v;
                                 Some (s1\<lparr>s_coil := t\<rparr>) }
                       else Some s1 })
      else Some (MB_ENOREG, s))"

definition eMBRegDiscreteCB :: "nat \<Rightarrow> u16 \<Rightarrow> u16 \<Rightarrow> mb_slave \<Rightarrow> (eMBErrorCode \<times> mb_slave) option" where
  "eMBRegDiscreteCB p usAddress usNDiscrete s =
     (let a = unat (usAddress - 1); n = unat usNDiscrete; iNReg = n div 8 + 1 in
      if a \<ge> S_DISCRETE_INPUT_START \<and>
         a + n \<le> S_DISCRETE_INPUT_START + S_DISCRETE_INPUT_NDISCRETES
      then let i = (a - S_DISCRETE_INPUT_START) div 8; b = (a - S_DISCRETE_INPUT_START) mod 8 in
           map_option (Pair MB_ENOERR)
             (do { s1 \<leftarrow> bits_read s_disc p i b iNReg s;
                   clear_high (p + iNReg - 1) (n mod 8) s1 })
      else Some (MB_ENOREG, s))"


section \<open>What the register loops do\<close>

text \<open>Registers on the wire, high byte first.\<close>

fun regs_bytes :: "u16 list \<Rightarrow> u8 list" where
  "regs_bytes [] = []"
| "regs_bytes (v # vs) = ucast (drop_bit 8 v) # ucast v # regs_bytes vs"

fun bytes_regs :: "u8 list \<Rightarrow> u16 list" where
  "bytes_regs (h # l # bs) = (push_bit 8 (ucast h) OR ucast l) # bytes_regs bs"
| "bytes_regs _ = []"

lemma length_regs_bytes [simp]: "length (regs_bytes vs) = 2 * length vs"
  by (induction vs) auto

lemma length_bytes_regs: "length (bytes_regs bs) = length bs div 2"
  by (induction bs rule: bytes_regs.induct) auto

lemma join_halves: "push_bit 8 (ucast (ucast (drop_bit 8 v) :: u8)) OR ucast (ucast v :: u8) = (v :: u16)"
  by (rule bit_word_eqI) (auto simp: bit_or_iff bit_push_bit_iff bit_ucast_iff bit_drop_bit_eq)

lemma bytes_regs_bytes [simp]: "bytes_regs (regs_bytes vs) = vs"
  by (induction vs) (simp_all add: join_halves)

lemma low_byte: "ucast (v AND 0xFF) = (ucast v :: u8)" for v :: u16
proof -
  have m: "(0xFF :: u16) = mask 8" by (simp add: mask_eq_exp_minus_1)
  show ?thesis
    unfolding m by (intro bit_word_eqI) (simp add: bit_ucast_iff bit_and_iff bit_mask_iff)
qed

lemma rd_at: "p < length (s_buf s) \<Longrightarrow> rd p s = Some (s_buf s ! p)"
  by (simp add: rd_def)

lemma wr_at: "p < length (s_buf s) \<Longrightarrow> wr p b s = Some (s\<lparr>s_buf := (s_buf s)[p := b]\<rparr>)"
  by (simp add: wr_def)

lemma take_two_update:
  "p + 1 < length xs \<Longrightarrow> take (p + 2) (xs[p := a, p + 1 := b]) = take p xs @ [a, b]"
  by (simp add: take_Suc_conv_app_nth nth_append numeral_2_eq_2)

lemma regs_read_spec:
  assumes "\<And>m. tab (s\<lparr>s_buf := m\<rparr>) = tab s" "i + n \<le> length (tab s)" "p + 2 * n \<le> length (s_buf s)"
  shows "regs_read tab p i n s = Some (s\<lparr>s_buf := take p (s_buf s) @ regs_bytes (take n (drop i (tab s)))
           @ drop (p + 2 * n) (s_buf s)\<rparr>)"
  using assms
proof (induction n arbitrary: p i s)
  case 0
  then show ?case by simp
next
  case (Suc n)
  let ?v = "tab s ! i"
  let ?s = "s\<lparr>s_buf := (s_buf s)[p := ucast (drop_bit 8 ?v), p + 1 := ucast ?v]\<rparr>"
  have i: "i < length (tab s)" using Suc.prems(2) by simp
  have "regs_read tab p i (Suc n) s = regs_read tab (p + 2) (i + 1) n ?s"
    using Suc.prems i by (simp add: mem_read_def wr_at low_byte)
  also have "\<dots> = Some (?s\<lparr>s_buf := take (p + 2) (s_buf ?s) @ regs_bytes (take n (drop (i + 1) (tab ?s)))
           @ drop (p + 2 + 2 * n) (s_buf ?s)\<rparr>)"
    by (rule Suc.IH) (use Suc.prems in \<open>simp_all add: Suc.prems(1)\<close>)
  also have "\<dots> = Some (s\<lparr>s_buf := take p (s_buf s) @ regs_bytes (take (Suc n) (drop i (tab s)))
           @ drop (p + 2 * Suc n) (s_buf s)\<rparr>)"
    using Suc.prems i take_two_update [of p "s_buf s" "ucast (drop_bit 8 ?v)" "ucast ?v"]
    by (simp add: Cons_nth_drop_Suc [symmetric] Suc.prems(1))
  finally show ?case .
qed

lemma hold_write_spec:
  assumes "i + length vs \<le> length (s_hold s)" "p + 2 * length vs \<le> length (s_buf s)"
    "take (2 * length vs) (drop p (s_buf s)) = regs_bytes vs"
  shows "hold_write p i (length vs) s =
    Some (s\<lparr>s_hold := take i (s_hold s) @ vs @ drop (i + length vs) (s_hold s)\<rparr>)"
  using assms
proof (induction vs arbitrary: p i s)
  case Nil
  then show ?case by simp
next
  case (Cons v vs)
  have p: "p + 1 < length (s_buf s)" and i: "i < length (s_hold s)" using Cons.prems by auto
  have d: "drop p (s_buf s) = s_buf s ! p # s_buf s ! (p + 1) # drop (p + 2) (s_buf s)"
    using p by (simp add: Cons_nth_drop_Suc)
  then have b: "s_buf s ! p = ucast (drop_bit 8 v)" "s_buf s ! (p + 1) = ucast v"
    "take (2 * length vs) (drop (p + 2) (s_buf s)) = regs_bytes vs"
    using Cons.prems(3) by auto
  let ?s = "s\<lparr>s_hold := (s_hold s)[i := v]\<rparr>"
  have "hold_write p i (length (v # vs)) s = hold_write (p + 2) (i + 1) (length vs) ?s"
    using p i b by (simp add: mem_write_def rd_at join_halves)
  also have "\<dots> = Some (?s\<lparr>s_hold := take (i + 1) (s_hold ?s) @ vs @ drop (i + 1 + length vs) (s_hold ?s)\<rparr>)"
    by (rule Cons.IH) (use Cons.prems b in simp_all)
  also have "\<dots> = Some (s\<lparr>s_hold := take i (s_hold s) @ (v # vs) @ drop (i + length (v # vs)) (s_hold s)\<rparr>)"
    using i by (simp add: take_Suc_conv_app_nth)
  finally show ?case .
qed

end
