(* ===== verification/MbFunc.thy ===== *)
theory MbFunc
  imports MbApp
begin

unbundle bit_operations_syntax

text \<open>
  The function handlers of a Modbus slave (components/net/freemodbus/modbus/functions): each reads a
  request from the frame, calls back the application, and leaves its reply in the frame. \<open>f\<close> is the
  offset of \<open>pucFrame\<close> in the buffer, \<open>len\<close> the value of \<open>usLen\<close>; the result is the exception, the
  new length and the state. Some length checks are weaker than the protocol; they are as in the source.
\<close>

type_synonym handler = "nat \<Rightarrow> nat \<Rightarrow> mb_slave \<Rightarrow> ((eMBException \<times> nat) \<times> mb_slave) option"

definition MB_PDU_FUNC_OFF :: nat where "MB_PDU_FUNC_OFF = 0"
definition MB_PDU_DATA_OFF :: nat where "MB_PDU_DATA_OFF = 1"
definition MB_PDU_SIZE_MIN :: nat where "MB_PDU_SIZE_MIN = 1"
definition MB_PDU_FUNC_READ_SIZE :: nat where "MB_PDU_FUNC_READ_SIZE = 4"
definition MB_PDU_FUNC_WRITE_MUL_SIZE_MIN :: nat where "MB_PDU_FUNC_WRITE_MUL_SIZE_MIN = 5"
definition MB_PDU_FUNC_READWRITE_SIZE_MIN :: nat where "MB_PDU_FUNC_READWRITE_SIZE_MIN = 9"

lemmas pdu_offsets = MB_PDU_FUNC_OFF_def MB_PDU_DATA_OFF_def MB_PDU_SIZE_MIN_def
  MB_PDU_FUNC_READ_SIZE_def MB_PDU_FUNC_WRITE_MUL_SIZE_MIN_def MB_PDU_FUNC_READWRITE_SIZE_MIN_def

text \<open>Bytes for \<open>n\<close> bits, cut to a byte.\<close>

definition nbytes_for :: "u16 \<Rightarrow> u8" where
  "nbytes_for n = (if n AND 7 \<noteq> 0 then word_of_nat (unat n div 8 + 1) else word_of_nat (unat n div 8))"

section \<open>Holding registers\<close>

definition eMBFuncWriteHoldingRegister :: handler where
  "eMBFuncWriteHoldingRegister f len s =
     (if len = MB_PDU_FUNC_READ_SIZE + MB_PDU_SIZE_MIN
      then do { a \<leftarrow> rd16 (f + MB_PDU_DATA_OFF) s;
                (e, s1) \<leftarrow> eMBRegHoldingCB (f + MB_PDU_DATA_OFF + 2) (a + 1) 1 MB_REG_WRITE s;
                Some ((if e \<noteq> MB_ENOERR then prveMBError2Exception e else MB_EX_NONE, len), s1) }
      else Some ((MB_EX_ILLEGAL_DATA_VALUE, len), s))"

definition eMBFuncWriteMultipleHoldingRegister :: handler where
  "eMBFuncWriteMultipleHoldingRegister f len s =
     (if len \<ge> MB_PDU_FUNC_WRITE_MUL_SIZE_MIN + MB_PDU_SIZE_MIN
      then do { a \<leftarrow> rd16 (f + MB_PDU_DATA_OFF) s;
                n \<leftarrow> rd16 (f + MB_PDU_DATA_OFF + 2) s;
                bc \<leftarrow> rd (f + MB_PDU_DATA_OFF + 4) s;
                if 1 \<le> n \<and> n \<le> 0x78 \<and> bc = ucast (2 * n)
                then do { (e, s1) \<leftarrow> eMBRegHoldingCB (f + MB_PDU_DATA_OFF + 5) (a + 1) n MB_REG_WRITE s;
                          Some (if e \<noteq> MB_ENOERR then (prveMBError2Exception e, len)
                                else (MB_EX_NONE, MB_PDU_DATA_OFF + 4), s1) }
                else Some ((MB_EX_ILLEGAL_DATA_VALUE, len), s) }
      else Some ((MB_EX_ILLEGAL_DATA_VALUE, len), s))"

text \<open>The head of a reply: the function code and the number of data bytes.\<close>

definition reply_head :: "nat \<Rightarrow> u8 \<Rightarrow> u8 \<Rightarrow> mb_slave \<Rightarrow> mb_slave option" where
  "reply_head f code n s = do { s1 \<leftarrow> wr (f + MB_PDU_FUNC_OFF) code s; wr (f + MB_PDU_FUNC_OFF + 1) n s1 }"

definition eMBFuncReadHoldingRegister :: handler where
  "eMBFuncReadHoldingRegister f len s =
     (if len = MB_PDU_FUNC_READ_SIZE + MB_PDU_SIZE_MIN
      then do { a \<leftarrow> rd16 (f + MB_PDU_DATA_OFF) s;
                n \<leftarrow> rd16 (f + MB_PDU_DATA_OFF + 2) s;
                if 1 \<le> n \<and> n \<le> 0x7D
                then do { s1 \<leftarrow> reply_head f 3 (ucast (n * 2)) s;
                          (e, s2) \<leftarrow> eMBRegHoldingCB (f + MB_PDU_FUNC_OFF + 2) (a + 1) n MB_REG_READ s1;
                          Some (if e \<noteq> MB_ENOERR then (prveMBError2Exception e, MB_PDU_FUNC_OFF + 2)
                                else (MB_EX_NONE, MB_PDU_FUNC_OFF + 2 + unat n * 2), s2) }
                else Some ((MB_EX_ILLEGAL_DATA_VALUE, len), s) }
      else Some ((MB_EX_ILLEGAL_DATA_VALUE, len), s))"

text \<open>A request that is too short is left alone and no exception raised.\<close>

definition eMBFuncReadWriteMultipleHoldingRegister :: handler where
  "eMBFuncReadWriteMultipleHoldingRegister f len s =
     (if len \<ge> MB_PDU_FUNC_READWRITE_SIZE_MIN + MB_PDU_SIZE_MIN
      then do { ra \<leftarrow> rd16 (f + MB_PDU_DATA_OFF) s;
                rn \<leftarrow> rd16 (f + MB_PDU_DATA_OFF + 2) s;
                wa \<leftarrow> rd16 (f + MB_PDU_DATA_OFF + 4) s;
                wn \<leftarrow> rd16 (f + MB_PDU_DATA_OFF + 6) s;
                bc \<leftarrow> rd (f + MB_PDU_DATA_OFF + 8) s;
                if 1 \<le> rn \<and> rn \<le> 0x7D \<and> 1 \<le> wn \<and> wn \<le> 0x79 \<and> 2 * unat wn = unat bc
                then do { (e, s1) \<leftarrow> eMBRegHoldingCB (f + MB_PDU_DATA_OFF + 9) (wa + 1) wn MB_REG_WRITE s;
                          if e = MB_ENOERR
                          then do { s2 \<leftarrow> reply_head f 23 (ucast (rn * 2)) s1;
                                    (e2, s3) \<leftarrow> eMBRegHoldingCB (f + MB_PDU_FUNC_OFF + 2) (ra + 1) rn MB_REG_READ s2;
                                    Some (if e2 = MB_ENOERR
                                          then (MB_EX_NONE, MB_PDU_FUNC_OFF + 2 + 2 * unat rn)
                                          else (prveMBError2Exception e2, MB_PDU_FUNC_OFF + 2), s3) }
                          else Some ((prveMBError2Exception e, len), s1) }
                else Some ((MB_EX_ILLEGAL_DATA_VALUE, len), s) }
      else Some ((MB_EX_NONE, len), s))"

section \<open>Input registers\<close>

definition eMBFuncReadInputRegister :: handler where
  "eMBFuncReadInputRegister f len s =
     (if len = MB_PDU_FUNC_READ_SIZE + MB_PDU_SIZE_MIN
      then do { a \<leftarrow> rd16 (f + MB_PDU_DATA_OFF) s;
                n \<leftarrow> rd16 (f + MB_PDU_DATA_OFF + 2) s;
                if 1 \<le> n \<and> n < 0x7D
                then do { s1 \<leftarrow> reply_head f 4 (ucast (n * 2)) s;
                          (e, s2) \<leftarrow> eMBRegInputCB (f + MB_PDU_FUNC_OFF + 2) (a + 1) n s1;
                          Some (if e \<noteq> MB_ENOERR then (prveMBError2Exception e, MB_PDU_FUNC_OFF + 2)
                                else (MB_EX_NONE, MB_PDU_FUNC_OFF + 2 + unat n * 2), s2) }
                else Some ((MB_EX_ILLEGAL_DATA_VALUE, len), s) }
      else Some ((MB_EX_ILLEGAL_DATA_VALUE, len), s))"

section \<open>Coils and discrete inputs\<close>

definition eMBFuncReadCoils :: handler where
  "eMBFuncReadCoils f len s =
     (if len = MB_PDU_FUNC_READ_SIZE + MB_PDU_SIZE_MIN
      then do { a \<leftarrow> rd16 (f + MB_PDU_DATA_OFF) s;
                n \<leftarrow> rd16 (f + MB_PDU_DATA_OFF + 2) s;
                if 1 \<le> n \<and> n < 0x07D0
                then do { s1 \<leftarrow> reply_head f 1 (nbytes_for n) s;
                          (e, s2) \<leftarrow> eMBRegCoilsCB (s_buf s1) (f + MB_PDU_FUNC_OFF + 2) (a + 1) n MB_REG_READ s1;
                          Some (if e \<noteq> MB_ENOERR then (prveMBError2Exception e, MB_PDU_FUNC_OFF + 2)
                                else (MB_EX_NONE, MB_PDU_FUNC_OFF + 2 + unat (nbytes_for n)), s2) }
                else Some ((MB_EX_ILLEGAL_DATA_VALUE, len), s) }
      else Some ((MB_EX_ILLEGAL_DATA_VALUE, len), s))"

definition eMBFuncWriteCoil :: handler where
  "eMBFuncWriteCoil f len s =
     (if len = MB_PDU_FUNC_READ_SIZE + MB_PDU_SIZE_MIN
      then do { a \<leftarrow> rd16 (f + MB_PDU_DATA_OFF) s;
                v0 \<leftarrow> rd (f + MB_PDU_DATA_OFF + 2) s;
                v1 \<leftarrow> rd (f + MB_PDU_DATA_OFF + 3) s;
                if v1 = 0 \<and> (v0 = 0xFF \<or> v0 = 0)
                then do { (e, s1) \<leftarrow> eMBRegCoilsCB [if v0 = 0xFF then 1 else 0, 0] 0 (a + 1) 1 MB_REG_WRITE s;
                          Some ((if e \<noteq> MB_ENOERR then prveMBError2Exception e else MB_EX_NONE, len), s1) }
                else Some ((MB_EX_ILLEGAL_DATA_VALUE, len), s) }
      else Some ((MB_EX_ILLEGAL_DATA_VALUE, len), s))"

definition eMBFuncWriteMultipleCoils :: handler where
  "eMBFuncWriteMultipleCoils f len s =
     (if len > MB_PDU_FUNC_READ_SIZE + MB_PDU_SIZE_MIN
      then do { a \<leftarrow> rd16 (f + MB_PDU_DATA_OFF) s;
                n \<leftarrow> rd16 (f + MB_PDU_DATA_OFF + 2) s;
                bc \<leftarrow> rd (f + MB_PDU_DATA_OFF + 4) s;
                if 1 \<le> n \<and> n \<le> 0x07B0 \<and> nbytes_for n = bc
                then do { (e, s1) \<leftarrow> eMBRegCoilsCB (s_buf s) (f + MB_PDU_DATA_OFF + 5) (a + 1) n MB_REG_WRITE s;
                          Some (if e \<noteq> MB_ENOERR then (prveMBError2Exception e, len)
                                else (MB_EX_NONE, MB_PDU_DATA_OFF + 4), s1) }
                else Some ((MB_EX_ILLEGAL_DATA_VALUE, len), s) }
      else Some ((MB_EX_ILLEGAL_DATA_VALUE, len), s))"

definition eMBFuncReadDiscreteInputs :: handler where
  "eMBFuncReadDiscreteInputs f len s =
     (if len = MB_PDU_FUNC_READ_SIZE + MB_PDU_SIZE_MIN
      then do { a \<leftarrow> rd16 (f + MB_PDU_DATA_OFF) s;
                n \<leftarrow> rd16 (f + MB_PDU_DATA_OFF + 2) s;
                if 1 \<le> n \<and> n < 0x07D0
                then do { s1 \<leftarrow> reply_head f 2 (nbytes_for n) s;
                          (e, s2) \<leftarrow> eMBRegDiscreteCB (f + MB_PDU_FUNC_OFF + 2) (a + 1) n s1;
                          Some (if e \<noteq> MB_ENOERR then (prveMBError2Exception e, MB_PDU_FUNC_OFF + 2)
                                else (MB_EX_NONE, MB_PDU_FUNC_OFF + 2 + unat (nbytes_for n)), s2) }
                else Some ((MB_EX_ILLEGAL_DATA_VALUE, len), s) }
      else Some ((MB_EX_ILLEGAL_DATA_VALUE, len), s))"

section \<open>Slave identification\<close>

definition MB_FUNC_OTHER_REP_SLAVEID_BUF :: nat where "MB_FUNC_OTHER_REP_SLAVEID_BUF = 32"

definition eMBSetSlaveID :: "u8 \<Rightarrow> bool \<Rightarrow> u8 list \<Rightarrow> nat \<Rightarrow> mb_slave \<Rightarrow> (eMBErrorCode \<times> mb_slave) option" where
  "eMBSetSlaveID ucSlaveID running additional n s =
     (if n + 2 < MB_FUNC_OTHER_REP_SLAVEID_BUF
      then do { b0 \<leftarrow> mem_write (s_id s) 0 ucSlaveID;
                b1 \<leftarrow> mem_write b0 1 (if running then 0xFF else 0);
                b2 \<leftarrow> (if n > 0 then memcpy b1 2 additional 0 (int n) else Some b1);
                Some (MB_ENOERR, s\<lparr>s_id := b2, s_idlen := 2 + n\<rparr>) }
      else Some (MB_ENORES, s))"

definition eMBFuncReportSlaveID :: handler where
  "eMBFuncReportSlaveID f len s =
     map_option (\<lambda>m. ((MB_EX_NONE, MB_PDU_DATA_OFF + s_idlen s), s\<lparr>s_buf := m\<rparr>))
       (memcpy (s_buf s) (int (f + MB_PDU_DATA_OFF)) (s_id s) 0 (int (s_idlen s)))"

text \<open>The handler a table entry names.\<close>

fun run_handler :: "mb_function \<Rightarrow> handler" where
  "run_handler ReportSlaveID = eMBFuncReportSlaveID"
| "run_handler ReadInputRegister = eMBFuncReadInputRegister"
| "run_handler ReadHoldingRegister = eMBFuncReadHoldingRegister"
| "run_handler WriteMultipleHoldingRegister = eMBFuncWriteMultipleHoldingRegister"
| "run_handler WriteHoldingRegister = eMBFuncWriteHoldingRegister"
| "run_handler ReadWriteMultipleHoldingRegister = eMBFuncReadWriteMultipleHoldingRegister"
| "run_handler ReadCoils = eMBFuncReadCoils"
| "run_handler WriteCoil = eMBFuncWriteCoil"
| "run_handler WriteMultipleCoils = eMBFuncWriteMultipleCoils"
| "run_handler ReadDiscreteInputs = eMBFuncReadDiscreteInputs"

end
