(* ===== verification/MbRtu.thy ===== *)
theory MbRtu
  imports MbFunc MbCrc
begin

unbundle bit_operations_syntax

text \<open>
  The RTU transmission mode of a Modbus slave (components/net/freemodbus/modbus/rtu/mbrtu.c): the
  receiver and transmitter state machines, driven by received bytes, an empty transmitter and the
  3.5-character timer, and the framing with address and checksum. \<open>None\<close> is a failed assertion or an
  access outside the buffer of 256 bytes.
\<close>

definition MB_SER_PDU_SIZE_MIN :: nat where "MB_SER_PDU_SIZE_MIN = 4"
definition MB_SER_PDU_SIZE_MAX :: nat where "MB_SER_PDU_SIZE_MAX = 256"
definition MB_SER_PDU_SIZE_CRC :: nat where "MB_SER_PDU_SIZE_CRC = 2"
definition MB_SER_PDU_ADDR_OFF :: nat where "MB_SER_PDU_ADDR_OFF = 0"
definition MB_SER_PDU_PDU_OFF :: nat where "MB_SER_PDU_PDU_OFF = 1"

lemmas ser_sizes = MB_SER_PDU_SIZE_MIN_def MB_SER_PDU_SIZE_MAX_def MB_SER_PDU_SIZE_CRC_def
  MB_SER_PDU_ADDR_OFF_def MB_SER_PDU_PDU_OFF_def

section \<open>The port\<close>

definition vMBPortSerialEnable :: "bool \<Rightarrow> bool \<Rightarrow> mb_slave \<Rightarrow> mb_slave" where
  "vMBPortSerialEnable rx tx s = s\<lparr>s_rx_on := rx, s_tx_on := tx\<rparr>"

definition vMBPortTimersEnable :: "mb_slave \<Rightarrow> mb_slave" where
  "vMBPortTimersEnable s = s\<lparr>s_timer_on := True\<rparr>"

definition vMBPortTimersDisable :: "mb_slave \<Rightarrow> mb_slave" where
  "vMBPortTimersDisable s = s\<lparr>s_timer_on := False\<rparr>"

definition xMBPortEventPost :: "eMBEventType \<Rightarrow> mb_slave \<Rightarrow> mb_slave" where
  "xMBPortEventPost e s = s\<lparr>s_events := insert e (s_events s)\<rparr>"

definition xMBPortSerialPutByte :: "u8 \<Rightarrow> mb_slave \<Rightarrow> mb_slave" where
  "xMBPortSerialPutByte b s = s\<lparr>s_tx := s_tx s @ [b]\<rparr>"

lemmas mb_port = vMBPortSerialEnable_def vMBPortTimersEnable_def vMBPortTimersDisable_def
  xMBPortEventPost_def xMBPortSerialPutByte_def

section \<open>Start and stop\<close>

text \<open>
  \<open>serial_ok\<close> is the answer of the serial port; the result has the argument given to the timer. A
  baud rate of zero is a division by zero.
\<close>

definition eMBRTUInit :: "bool \<Rightarrow> nat \<Rightarrow> (eMBErrorCode \<times> nat) option" where
  "eMBRTUInit serial_ok ulBaudRate =
     (if \<not> serial_ok then Some (MB_EPORTERR, 0)
      else if ulBaudRate > 19200 then Some (MB_ENOERR, 35)
      else if ulBaudRate = 0 then None
      else Some (MB_ENOERR, trunc_u 16 (int (7 * 220000 div (2 * ulBaudRate)))))"

definition eMBRTUStart :: "mb_slave \<Rightarrow> mb_slave" where
  "eMBRTUStart s = vMBPortTimersEnable (vMBPortSerialEnable True False (s\<lparr>s_rcv := STATE_RX_INIT\<rparr>))"

definition eMBRTUStop :: "mb_slave \<Rightarrow> mb_slave" where
  "eMBRTUStop s = vMBPortTimersDisable (vMBPortSerialEnable False False s)"

section \<open>Frames\<close>

text \<open>The address, the offset of the PDU in the buffer and its length, or an error.\<close>

definition eMBRTUReceive :: "mb_slave \<Rightarrow> (u8 \<times> nat \<times> nat) option option" where
  "eMBRTUReceive s =
     (if s_pos s \<le> MB_SER_PDU_SIZE_MAX \<and> s_pos s \<le> length (s_buf s)
      then if s_pos s \<ge> MB_SER_PDU_SIZE_MIN \<and> usMBCRC16 (take (s_pos s) (s_buf s)) = 0
           then do { a \<leftarrow> rd MB_SER_PDU_ADDR_OFF s;
                     Some (Some (a, MB_SER_PDU_PDU_OFF, s_pos s - MB_SER_PDU_PDU_OFF - MB_SER_PDU_SIZE_CRC)) }
           else Some None
      else None)"

definition eMBRTUSend :: "u8 \<Rightarrow> nat \<Rightarrow> nat \<Rightarrow> mb_slave \<Rightarrow> (eMBErrorCode \<times> mb_slave) option" where
  "eMBRTUSend ucSlaveAddress f usLength s =
     (if s_rcv s = STATE_RX_IDLE
      then if f = 0 then None
           else let cur = f - 1; cnt = 1 + usLength in
                do { s1 \<leftarrow> wr (cur + MB_SER_PDU_ADDR_OFF) ucSlaveAddress s;
                     crc \<leftarrow> (if cur + cnt \<le> length (s_buf s1)
                            then Some (usMBCRC16 (take cnt (drop cur (s_buf s1)))) else None);
                     s2 \<leftarrow> wr cnt (ucast (crc AND 0xFF)) s1;
                     s3 \<leftarrow> wr (cnt + 1) (ucast (drop_bit 8 crc)) s2;
                     Some (MB_ENOERR, vMBPortSerialEnable False True
                             (s3\<lparr>s_cur := cur, s_cnt := cnt + 2, s_snd := STATE_TX_XMIT\<rparr>)) }
      else Some (MB_EIO, s))"

section \<open>State machines\<close>

definition xMBRTUReceiveFSM :: "u8 \<Rightarrow> mb_slave \<Rightarrow> mb_slave option" where
  "xMBRTUReceiveFSM ucByte s =
     (if s_snd s = STATE_TX_IDLE then
        (case s_rcv s of
           STATE_RX_INIT \<Rightarrow> Some (vMBPortTimersEnable s)
         | STATE_RX_ERROR \<Rightarrow> Some (vMBPortTimersEnable s)
         | STATE_RX_IDLE \<Rightarrow>
             do { s1 \<leftarrow> wr 0 ucByte s;
                  Some (vMBPortTimersEnable (s1\<lparr>s_pos := 1, s_rcv := STATE_RX_RCV\<rparr>)) }
         | STATE_RX_RCV \<Rightarrow>
             do { s1 \<leftarrow> (if s_pos s < MB_SER_PDU_SIZE_MAX
                        then map_option (\<lambda>s1. s1\<lparr>s_pos := s_pos s + 1\<rparr>) (wr (s_pos s) ucByte s)
                        else Some (s\<lparr>s_rcv := STATE_RX_ERROR\<rparr>));
                  Some (vMBPortTimersEnable s1) })
      else None)"

definition xMBRTUTransmitFSM :: "mb_slave \<Rightarrow> mb_slave option" where
  "xMBRTUTransmitFSM s =
     (if s_rcv s = STATE_RX_IDLE then
        (case s_snd s of
           STATE_TX_IDLE \<Rightarrow> Some (vMBPortSerialEnable True False s)
         | STATE_TX_XMIT \<Rightarrow>
             if s_cnt s \<noteq> 0
             then do { b \<leftarrow> rd (s_cur s) s;
                       Some ((xMBPortSerialPutByte b s)\<lparr>s_cur := s_cur s + 1, s_cnt := s_cnt s - 1\<rparr>) }
             else Some ((vMBPortSerialEnable True False (xMBPortEventPost EV_FRAME_SENT s))
                          \<lparr>s_snd := STATE_TX_IDLE\<rparr>))
      else None)"

definition xMBRTUTimerT35Expired :: "mb_slave \<Rightarrow> mb_slave option" where
  "xMBRTUTimerT35Expired s =
     do { s1 \<leftarrow> (case s_rcv s of
                   STATE_RX_INIT \<Rightarrow> Some (xMBPortEventPost EV_READY s)
                 | STATE_RX_RCV \<Rightarrow> Some (xMBPortEventPost EV_FRAME_RECEIVED s)
                 | STATE_RX_ERROR \<Rightarrow> Some s
                 | STATE_RX_IDLE \<Rightarrow> None);
          Some ((vMBPortTimersDisable s1)\<lparr>s_rcv := STATE_RX_IDLE\<rparr>) }"

section \<open>The line\<close>

text \<open>Bytes arriving one after the other, and the transmitter asking for its next bytes.\<close>

fun receive_bytes :: "u8 list \<Rightarrow> mb_slave \<Rightarrow> mb_slave option" where
  "receive_bytes [] s = Some s"
| "receive_bytes (b # bs) s = do { s1 \<leftarrow> xMBRTUReceiveFSM b s; receive_bytes bs s1 }"

fun transmit_bytes :: "nat \<Rightarrow> mb_slave \<Rightarrow> mb_slave option" where
  "transmit_bytes 0 s = Some s"
| "transmit_bytes (Suc n) s = do { s1 \<leftarrow> xMBRTUTransmitFSM s; transmit_bytes n s1 }"

text \<open>A PDU with its address and checksum as it travels on the line.\<close>

definition rtu_frame :: "u8 \<Rightarrow> u8 list \<Rightarrow> u8 list" where
  "rtu_frame a pdu =
     (let c = usMBCRC16 (a # pdu) in a # pdu @ [ucast (c AND 0xFF), ucast (drop_bit 8 c)])"

lemma rtu_frame_crc: "usMBCRC16 (rtu_frame a pdu) = 0"
proof -
  show ?thesis using crc_residue [of "a # pdu"] by (simp add: rtu_frame_def Let_def low_byte)
qed

lemma rtu_frame_length [simp]: "length (rtu_frame a pdu) = length pdu + 3"
  by (simp add: rtu_frame_def Let_def)

text \<open>While a frame comes in, its bytes are the head of the buffer.\<close>

lemma receive_more:
  assumes "s_snd s = STATE_TX_IDLE" "s_rcv s = STATE_RX_RCV" "length (s_buf s) = MB_SER_PDU_SIZE_MAX"
    and "s_pos s + length bs \<le> MB_SER_PDU_SIZE_MAX"
  shows "\<exists>s'. receive_bytes bs s = Some s' \<and>
    s' = s\<lparr>s_buf := take (s_pos s) (s_buf s) @ bs @ drop (s_pos s + length bs) (s_buf s),
           s_pos := s_pos s + length bs, s_timer_on := (s_timer_on s \<or> bs \<noteq> [])\<rparr>"
  using assms
proof (induction bs arbitrary: s)
  case Nil
  then show ?case by simp
next
  case (Cons b bs)
  let ?s = "s\<lparr>s_buf := (s_buf s)[s_pos s := b], s_pos := s_pos s + 1, s_timer_on := True\<rparr>"
  have step: "xMBRTUReceiveFSM b s = Some ?s"
    using Cons.prems by (simp add: xMBRTUReceiveFSM_def wr_at mb_port)
  have "\<exists>s'. receive_bytes bs ?s = Some s' \<and>
    s' = ?s\<lparr>s_buf := take (s_pos ?s) (s_buf ?s) @ bs @ drop (s_pos ?s + length bs) (s_buf ?s),
           s_pos := s_pos ?s + length bs, s_timer_on := (s_timer_on ?s \<or> bs \<noteq> [])\<rparr>"
    by (rule Cons.IH) (use Cons.prems in simp_all)
  then show ?case
    using step Cons.prems by (simp add: take_Suc_conv_app_nth)
qed


text \<open>A silent line: nothing is being received or sent.\<close>

definition line_idle :: "mb_slave \<Rightarrow> bool" where
  "line_idle s \<longleftrightarrow> s_snd s = STATE_TX_IDLE \<and> s_rcv s = STATE_RX_IDLE \<and> length (s_buf s) = MB_SER_PDU_SIZE_MAX"

text \<open>A whole frame, from the idle line to the end of the pause behind it.\<close>

lemma receive_frame:
  assumes "line_idle s" "bs \<noteq> []" "length bs \<le> MB_SER_PDU_SIZE_MAX"
  shows "do { s1 \<leftarrow> receive_bytes bs s; xMBRTUTimerT35Expired s1 } =
    Some (s\<lparr>s_buf := bs @ drop (length bs) (s_buf s), s_pos := length bs, s_rcv := STATE_RX_IDLE,
            s_timer_on := False, s_events := insert EV_FRAME_RECEIVED (s_events s)\<rparr>)"
proof -
  obtain b cs where bs: "bs = b # cs" using assms(2) by (cases bs) auto
  have l: "length (s_buf s) = 256" "s_snd s = STATE_TX_IDLE" "s_rcv s = STATE_RX_IDLE"
    using assms(1) by (auto simp: line_idle_def ser_sizes)
  define s1 where "s1 = s\<lparr>s_buf := (s_buf s)[0 := b], s_pos := 1, s_rcv := STATE_RX_RCV, s_timer_on := True\<rparr>"
  have "xMBRTUReceiveFSM b s = Some s1"
    using l by (simp add: xMBRTUReceiveFSM_def wr_at mb_port s1_def)
  moreover have "receive_bytes cs s1 = Some (s1\<lparr>s_buf := take (s_pos s1) (s_buf s1) @ cs @ drop (s_pos s1 + length cs) (s_buf s1),
           s_pos := s_pos s1 + length cs, s_timer_on := (s_timer_on s1 \<or> cs \<noteq> [])\<rparr>)"
    using receive_more [of s1 cs] l assms(3) by (simp add: s1_def bs ser_sizes)
  moreover have "take 1 ((s_buf s)[0 := b]) = [b]" using l(1) by (cases "s_buf s") auto
  ultimately show ?thesis
    by (simp add: bs s1_def xMBRTUTimerT35Expired_def mb_port)
qed

text \<open>A frame that does not fit the buffer is dropped without an event.\<close>

lemma receive_error:
  assumes "s_snd s = STATE_TX_IDLE" "s_rcv s = STATE_RX_ERROR"
  shows "receive_bytes bs s = Some (s\<lparr>s_timer_on := (s_timer_on s \<or> bs \<noteq> [])\<rparr>)"
  using assms by (induction bs arbitrary: s) (auto simp: xMBRTUReceiveFSM_def mb_port)

lemma receive_bytes_append:
  "receive_bytes (xs @ ys) s = do { s1 \<leftarrow> receive_bytes xs s; receive_bytes ys s1 }"
  by (induction xs arbitrary: s) (auto split: bind_splits)

lemma receive_oversize:
  assumes "line_idle s" "MB_SER_PDU_SIZE_MAX < length bs"
  shows "\<exists>s'. do { s1 \<leftarrow> receive_bytes bs s; xMBRTUTimerT35Expired s1 } = Some s' \<and>
    s_events s' = s_events s \<and> line_idle s'"
proof -
  define xs where "xs = take 256 bs"
  obtain y ys where ys: "drop 256 bs = y # ys"
    using assms(2) by (cases "drop 256 bs") (auto simp: ser_sizes)
  have bs: "bs = xs @ y # ys" unfolding xs_def ys [symmetric] by simp
  have lx: "length xs = 256" using assms(2) by (simp add: xs_def ser_sizes)
  then have xn: "xs \<noteq> []" by auto
  obtain s1 where s1: "receive_bytes xs s = Some s1" "xMBRTUTimerT35Expired s1 =
    Some (s\<lparr>s_buf := xs @ drop (length xs) (s_buf s), s_pos := length xs, s_rcv := STATE_RX_IDLE,
            s_timer_on := False, s_events := insert EV_FRAME_RECEIVED (s_events s)\<rparr>)"
    using receive_frame [OF assms(1) xn] lx by (cases "receive_bytes xs s") (auto simp: ser_sizes)
  obtain b cs where xb: "xs = b # cs" using lx by (cases xs) auto
  have l: "length (s_buf s) = 256" "s_snd s = STATE_TX_IDLE" "s_rcv s = STATE_RX_IDLE"
    using assms(1) by (auto simp: line_idle_def ser_sizes)
  define s0 where "s0 = s\<lparr>s_buf := (s_buf s)[0 := b], s_pos := 1, s_rcv := STATE_RX_RCV, s_timer_on := True\<rparr>"
  have "xMBRTUReceiveFSM b s = Some s0"
    using l by (simp add: xMBRTUReceiveFSM_def wr_at mb_port s0_def)
  then have "s1 = s0\<lparr>s_buf := take (s_pos s0) (s_buf s0) @ cs @ drop (s_pos s0 + length cs) (s_buf s0),
           s_pos := s_pos s0 + length cs, s_timer_on := (s_timer_on s0 \<or> cs \<noteq> [])\<rparr>"
    using receive_more [of s0 cs] l lx s1(1) by (simp add: s0_def xb ser_sizes)
  then have r: "s_rcv s1 = STATE_RX_RCV" "s_snd s1 = STATE_TX_IDLE" "s_pos s1 = 256" "s_events s1 = s_events s"
    "length (s_buf s1) = 256"
    using l lx xb by (auto simp: s0_def)
  define s2 where "s2 = s1\<lparr>s_rcv := STATE_RX_ERROR, s_timer_on := True\<rparr>"
  have "xMBRTUReceiveFSM y s1 = Some s2"
    using r by (simp add: xMBRTUReceiveFSM_def mb_port ser_sizes s2_def)
  then have "receive_bytes bs s = Some (s2\<lparr>s_timer_on := (s_timer_on s2 \<or> ys \<noteq> [])\<rparr>)"
    using receive_error [of s2 ys] s1(1) r(2) by (simp add: bs receive_bytes_append s2_def)
  then show ?thesis
    using r by (simp add: s2_def xMBRTUTimerT35Expired_def mb_port line_idle_def ser_sizes)
qed

text \<open>What was framed is accepted, with its address and PDU.\<close>

lemma eMBRTUReceive_frame:
  assumes "take (s_pos s) (s_buf s) = rtu_frame a pdu" "length (s_buf s) = MB_SER_PDU_SIZE_MAX"
    and "pdu \<noteq> []" "s_pos s = length pdu + 3"
  shows "eMBRTUReceive s = Some (Some (a, 1, length pdu))" "take (length pdu) (drop 1 (s_buf s)) = pdu"
    "length pdu + 3 \<le> MB_SER_PDU_SIZE_MAX"
proof -
  have len: "length pdu + 3 \<le> 256"
    using arg_cong [OF assms(1), of length] assms(2,4) by (simp add: ser_sizes)
  then show "length pdu + 3 \<le> MB_SER_PDU_SIZE_MAX" by (simp add: ser_sizes)
  obtain c cs where pdu: "pdu = c # cs" using assms(3) by (cases pdu) auto
  have split: "s_buf s = rtu_frame a pdu @ drop (s_pos s) (s_buf s)"
    by (metis assms(1) append_take_drop_id)
  have h: "s_buf s ! 0 = a" by (subst split) (simp add: rtu_frame_def Let_def)
  show "take (length pdu) (drop 1 (s_buf s)) = pdu" by (subst split) (simp add: rtu_frame_def Let_def)
  show "eMBRTUReceive s = Some (Some (a, 1, length pdu))"
    using assms len h rtu_frame_crc [of a pdu] pdu by (simp add: eMBRTUReceive_def rd_at ser_sizes)
qed

text \<open>Sending puts the address before and the checksum behind the PDU at offset 1.\<close>

lemma eMBRTUSend_spec:
  assumes "s_rcv s = STATE_RX_IDLE" "length (s_buf s) = MB_SER_PDU_SIZE_MAX" "n + 3 \<le> MB_SER_PDU_SIZE_MAX"
    and "take n (drop 1 (s_buf s)) = pdu" "length pdu = n"
  shows "eMBRTUSend a 1 n s = Some (MB_ENOERR, s\<lparr>s_buf := rtu_frame a pdu @ drop (n + 3) (s_buf s),
    s_cur := 0, s_cnt := n + 3, s_snd := STATE_TX_XMIT, s_rx_on := False, s_tx_on := True\<rparr>)"
proof -
  have l: "length (s_buf s) = 256" "n + 3 \<le> 256" using assms by (auto simp: ser_sizes)
  obtain x xs where x: "s_buf s = x # xs" using l by (cases "s_buf s") auto
  have pd: "take n xs = pdu" using assms(4) x by simp
  define c where "c = usMBCRC16 (a # pdu)"
  let ?l = "ucast (c AND 0xFF) :: u8" and ?h = "ucast (drop_bit 8 c) :: u8"
  obtain y z zs where yz: "drop n xs = y # z # zs"
    using l x by (cases "drop n xs"; cases "tl (drop n xs)") (auto dest: arg_cong [of _ _ length])
  have buf: "s_buf s = x # pdu @ y # z # zs" using x pd yz append_take_drop_id [of n xs] by simp
  have "eMBRTUSend a 1 n s = Some (MB_ENOERR, s\<lparr>s_buf := a # pdu @ ?l # ?h # zs,
    s_cur := 0, s_cnt := n + 3, s_snd := STATE_TX_XMIT, s_rx_on := False, s_tx_on := True\<rparr>)"
    using assms(1,5) l by (simp add: eMBRTUSend_def wr_def mem_write_def buf ser_sizes mb_port
        c_def [symmetric] list_update_append nat_add_distrib Suc_nat_eq_nat_zadd1 numeral_eq_Suc)
  moreover have "drop (n + 3) (s_buf s) = zs" using assms(5) by (simp add: buf numeral_eq_Suc)
  moreover have "rtu_frame a pdu = a # pdu @ [?l, ?h]" by (simp add: rtu_frame_def Let_def c_def)
  ultimately show ?thesis by simp
qed

text \<open>The transmitter sends what is left, byte by byte, and then reports the end.\<close>

lemma transmit_bytes_spec:
  assumes "s_rcv s = STATE_RX_IDLE" "s_snd s = STATE_TX_XMIT" "s_cur s + s_cnt s \<le> length (s_buf s)"
  shows "transmit_bytes (Suc (s_cnt s)) s =
    Some (s\<lparr>s_tx := s_tx s @ take (s_cnt s) (drop (s_cur s) (s_buf s)), s_cur := s_cur s + s_cnt s,
            s_cnt := 0, s_snd := STATE_TX_IDLE, s_rx_on := True, s_tx_on := False,
            s_events := insert EV_FRAME_SENT (s_events s)\<rparr>)"
  using assms
proof (induction "s_cnt s" arbitrary: s)
  case 0
  then show ?case by (simp add: xMBRTUTransmitFSM_def mb_port)
next
  case (Suc n)
  let ?s = "s\<lparr>s_tx := s_tx s @ [s_buf s ! s_cur s], s_cur := s_cur s + 1, s_cnt := n\<rparr>"
  have lt: "s_cur s < length (s_buf s)" using Suc.prems(3) Suc.hyps(2) by simp
  have cnt: "s_cnt s = Suc n" using Suc.hyps(2) by simp
  have "xMBRTUTransmitFSM s = Some ?s"
    using Suc.prems lt by (simp add: xMBRTUTransmitFSM_def rd_at mb_port cnt)
  moreover have "transmit_bytes (Suc (s_cnt ?s)) ?s =
    Some (?s\<lparr>s_tx := s_tx ?s @ take (s_cnt ?s) (drop (s_cur ?s) (s_buf ?s)), s_cur := s_cur ?s + s_cnt ?s,
            s_cnt := 0, s_snd := STATE_TX_IDLE, s_rx_on := True, s_tx_on := False,
            s_events := insert EV_FRAME_SENT (s_events ?s)\<rparr>)"
    by (rule Suc.hyps(1)) (use Suc.prems cnt in simp_all)
  moreover have "drop (s_cur s) (s_buf s) = s_buf s ! s_cur s # drop (Suc (s_cur s)) (s_buf s)"
    using lt by (simp add: Cons_nth_drop_Suc)
  ultimately show ?case by (simp add: cnt)
qed

end
