(* ===== verification/MbPoll.thy ===== *)
theory MbPoll
  imports MbRtu
begin

unbundle bit_operations_syntax

text \<open>
  The main loop of a Modbus slave (components/net/freemodbus/modbus/mb.c over the event port
  port/portevent.c), with the RTU mode as the transmission mode: initialisation, enabling, the table
  of function handlers and \<open>eMBPoll\<close>, which takes one event and acts on it.
\<close>

definition MB_ADDRESS_BROADCAST :: u8 where "MB_ADDRESS_BROADCAST = 0"
definition MB_ADDRESS_MIN :: u8 where "MB_ADDRESS_MIN = 1"
definition MB_ADDRESS_MAX :: u8 where "MB_ADDRESS_MAX = 247"
definition MB_FUNC_ERROR :: u8 where "MB_FUNC_ERROR = 128"
definition MB_FUNC_HANDLERS_MAX :: nat where "MB_FUNC_HANDLERS_MAX = 16"

lemmas mb_addresses = MB_ADDRESS_BROADCAST_def MB_ADDRESS_MIN_def MB_ADDRESS_MAX_def

section \<open>Events\<close>

text \<open>
  \<open>None\<close> waits. Otherwise every pending event is taken and cleared; \<open>*eEvent\<close> is assigned only
  when exactly one was pending.
\<close>

definition xMBPortEventGet :: "mb_slave \<Rightarrow> (eMBEventType option \<times> mb_slave) option" where
  "xMBPortEventGet s =
     (if s_events s = {} then None
      else Some (if s_events s = {EV_READY} then Some EV_READY
                 else if s_events s = {EV_FRAME_RECEIVED} then Some EV_FRAME_RECEIVED
                 else if s_events s = {EV_EXECUTE} then Some EV_EXECUTE
                 else if s_events s = {EV_FRAME_SENT} then Some EV_FRAME_SENT
                 else None, s\<lparr>s_events := {}\<rparr>))"

section \<open>Initialisation and control\<close>

definition xFuncHandlers :: "(u8 \<times> mb_function option) list" where
  "xFuncHandlers =
     [(17, Some ReportSlaveID), (4, Some ReadInputRegister), (3, Some ReadHoldingRegister),
      (16, Some WriteMultipleHoldingRegister), (6, Some WriteHoldingRegister),
      (23, Some ReadWriteMultipleHoldingRegister), (1, Some ReadCoils), (5, Some WriteCoil),
      (15, Some WriteMultipleCoils), (2, Some ReadDiscreteInputs)] @ replicate 6 (0, None)"

text \<open>The RTU case of \<open>eMBInit\<close>; the event port never fails.\<close>

definition eMBInit :: "u8 \<Rightarrow> bool \<Rightarrow> nat \<Rightarrow> mb_slave \<Rightarrow> (eMBErrorCode \<times> mb_slave) option" where
  "eMBInit ucSlaveAddress serial_ok ulBaudRate s =
     (if ucSlaveAddress = MB_ADDRESS_BROADCAST \<or> ucSlaveAddress < MB_ADDRESS_MIN \<or>
         ucSlaveAddress > MB_ADDRESS_MAX
      then Some (MB_EINVAL, s)
      else do { (e, t) \<leftarrow> eMBRTUInit serial_ok ulBaudRate;
                let s1 = s\<lparr>s_addr := ucSlaveAddress\<rparr>;
                Some (e, if e = MB_ENOERR then s1\<lparr>s_events := {}, s_state := STATE_DISABLED\<rparr> else s1) })"

definition eMBEnable :: "mb_slave \<Rightarrow> eMBErrorCode \<times> mb_slave" where
  "eMBEnable s =
     (if s_state s = STATE_DISABLED then (MB_ENOERR, (eMBRTUStart s)\<lparr>s_state := STATE_ENABLED\<rparr>)
      else (MB_EILLSTATE, s))"

definition eMBDisable :: "mb_slave \<Rightarrow> eMBErrorCode \<times> mb_slave" where
  "eMBDisable s =
     (if s_state s = STATE_ENABLED then (MB_ENOERR, (eMBRTUStop s)\<lparr>s_state := STATE_DISABLED\<rparr>)
      else if s_state s = STATE_DISABLED then (MB_ENOERR, s) else (MB_EILLSTATE, s))"

text \<open>Closing only closes the serial device.\<close>

definition eMBClose :: "mb_slave \<Rightarrow> eMBErrorCode" where
  "eMBClose s = (if s_state s = STATE_DISABLED then MB_ENOERR else MB_EILLSTATE)"

text \<open>
  The two searches of \<open>eMBRegisterCB\<close>: the first entry that is empty or already has the handler, and
  the first entry with the function code. The result is the number of entries when there is none.
\<close>

fun slot_for :: "mb_function \<Rightarrow> (u8 \<times> mb_function option) list \<Rightarrow> nat" where
  "slot_for h [] = 0"
| "slot_for h ((c, g) # es) = (if g = None \<or> g = Some h then 0 else Suc (slot_for h es))"

fun slot_of_code :: "u8 \<Rightarrow> (u8 \<times> mb_function option) list \<Rightarrow> nat" where
  "slot_of_code c [] = 0"
| "slot_of_code c ((d, g) # es) = (if d = c then 0 else Suc (slot_of_code c es))"

definition eMBRegisterCB :: "u8 \<Rightarrow> mb_function option \<Rightarrow> mb_slave \<Rightarrow> eMBErrorCode \<times> mb_slave" where
  "eMBRegisterCB ucFunctionCode pxHandler s =
     (if 0 < ucFunctionCode \<and> ucFunctionCode \<le> 127
      then case pxHandler of
             Some h \<Rightarrow>
               let i = slot_for h (s_handlers s) in
               if i < length (s_handlers s)
               then (MB_ENOERR, s\<lparr>s_handlers := (s_handlers s)[i := (ucFunctionCode, Some h)]\<rparr>)
               else (MB_ENORES, s)
           | None \<Rightarrow>
               let i = slot_of_code ucFunctionCode (s_handlers s) in
               (MB_ENOERR, s\<lparr>s_handlers := (s_handlers s)[i := (0, None)]\<rparr>)
      else (MB_EINVAL, s))"

section \<open>Polling\<close>

text \<open>
  The search of a handler ends at the first entry with code 0. \<open>Some None\<close> is no handler; a code with
  a null handler cannot be called.
\<close>

fun find_handler :: "u8 \<Rightarrow> (u8 \<times> mb_function option) list \<Rightarrow> mb_function option option" where
  "find_handler fc [] = Some None"
| "find_handler fc ((c, g) # es) =
     (if c = 0 then Some None
      else if c = fc then (case g of None \<Rightarrow> None | Some h \<Rightarrow> Some (Some h))
      else find_handler fc es)"

definition poll_received :: "mb_slave \<Rightarrow> mb_slave option" where
  "poll_received s =
     do { r \<leftarrow> eMBRTUReceive s;
          Some (case r of
                  None \<Rightarrow> s
                | Some (a, f, n) \<Rightarrow>
                    let s1 = s\<lparr>s_rcvaddr := a, s_frame := f, s_len := n\<rparr> in
                    if a = s_addr s \<or> a = MB_ADDRESS_BROADCAST then xMBPortEventPost EV_EXECUTE s1
                    else s1) }"

definition poll_execute :: "mb_slave \<Rightarrow> mb_slave option" where
  "poll_execute s =
     do { fc \<leftarrow> rd (s_frame s + MB_PDU_FUNC_OFF) s;
          h \<leftarrow> find_handler fc (s_handlers s);
          ((e, n), s1) \<leftarrow> (case h of
                            None \<Rightarrow> Some ((MB_EX_ILLEGAL_FUNCTION, s_len s), s)
                          | Some g \<Rightarrow> run_handler g (s_frame s) (s_len s) s);
          let s2 = s1\<lparr>s_func := fc, s_exc := e, s_len := n\<rparr>;
          if s_rcvaddr s2 \<noteq> MB_ADDRESS_BROADCAST
          then do { s3 \<leftarrow> (if e \<noteq> MB_EX_NONE
                          then do { t1 \<leftarrow> wr (s_frame s2) (fc OR MB_FUNC_ERROR) s2;
                                    t2 \<leftarrow> wr (s_frame s2 + 1) (exception_code e) t1;
                                    Some (t2\<lparr>s_len := 2\<rparr>) }
                          else Some s2);
                    map_option snd (eMBRTUSend (s_addr s3) (s_frame s3) (s_len s3) s3) }
          else Some s2 }"

text \<open>The status of the frame operations is computed but not returned.\<close>

definition eMBPoll :: "mb_slave \<Rightarrow> (eMBErrorCode \<times> mb_slave) option" where
  "eMBPoll s =
     (if s_state s \<noteq> STATE_ENABLED then Some (MB_EILLSTATE, s)
      else do { (e, s1) \<leftarrow> xMBPortEventGet s;
                map_option (Pair MB_ENOERR)
                  (case e of
                     None \<Rightarrow> None
                   | Some EV_READY \<Rightarrow> Some s1
                   | Some EV_FRAME_RECEIVED \<Rightarrow> poll_received s1
                   | Some EV_EXECUTE \<Rightarrow> poll_execute s1
                   | Some EV_FRAME_SENT \<Rightarrow> Some s1) })"

end
