(* ===== verification/MbSlave.thy ===== *)
theory MbSlave
  imports MbPoll
begin

unbundle bit_operations_syntax

text \<open>
  A whole exchange with a Modbus slave: a request arrives on the line byte by byte, the pause ends it,
  the main loop takes the frame and executes it, the transmitter sends the reply.
\<close>

section \<open>The exchange\<close>

definition take_request :: "u8 list \<Rightarrow> mb_slave \<Rightarrow> mb_slave option" where
  "take_request bs s =
     do { s1 \<leftarrow> do { s1 \<leftarrow> receive_bytes bs s; xMBRTUTimerT35Expired s1 };
          map_option snd (eMBPoll s1) }"

definition exchange :: "u8 list \<Rightarrow> mb_slave \<Rightarrow> mb_slave option" where
  "exchange bs s =
     do { s1 \<leftarrow> take_request bs s;
          (e, s2) \<leftarrow> eMBPoll s1;
          transmit_bytes (Suc (s_cnt s2)) s2 }"

text \<open>A slave with address \<open>a\<close> between two exchanges; the tables have the sizes of the source.\<close>

definition slave_ready :: "u8 \<Rightarrow> mb_slave \<Rightarrow> bool" where
  "slave_ready a s \<longleftrightarrow> line_idle s \<and> s_state s = STATE_ENABLED \<and> s_events s = {} \<and> s_addr s = a \<and>
     a \<noteq> MB_ADDRESS_BROADCAST \<and> length (s_hold s) = S_REG_HOLDING_NREGS \<and>
     length (s_inp s) = S_REG_INPUT_NREGS"

text \<open>What a handler may change.\<close>

definition handled :: "mb_slave \<Rightarrow> mb_slave \<Rightarrow> bool" where
  "handled s s' \<longleftrightarrow> length (s_buf s') = length (s_buf s) \<and> length (s_hold s') = length (s_hold s) \<and>
     length (s_coil s') = length (s_coil s) \<and>
     (\<exists>b h c. s' = s\<lparr>s_buf := b, s_hold := h, s_coil := c\<rparr>)"

lemma handledI:
  assumes "length b = length (s_buf s)" "length h = length (s_hold s)" "length c = length (s_coil s)"
  shows "handled s (s\<lparr>s_buf := b, s_hold := h, s_coil := c\<rparr>)"
  using assms unfolding handled_def by fastforce

lemma handled_buf: "length b = length (s_buf s) \<Longrightarrow> handled s (s\<lparr>s_buf := b\<rparr>)"
  using handledI [of b s "s_hold s" "s_coil s"] by simp

lemma handled_hold: "length h = length (s_hold s) \<Longrightarrow> handled s (s\<lparr>s_hold := h\<rparr>)"
  using handledI [of "s_buf s" s h "s_coil s"] by simp

lemma handled_coil: "length c = length (s_coil s) \<Longrightarrow> handled s (s\<lparr>s_coil := c\<rparr>)"
  using handledI [of "s_buf s" s "s_hold s" c] by simp

text \<open>The slave when it has accepted the request \<open>pdu\<close>.\<close>

definition accepted :: "u8 \<Rightarrow> u8 list \<Rightarrow> mb_slave \<Rightarrow> mb_slave" where
  "accepted ra pdu s = s\<lparr>s_buf := rtu_frame ra pdu @ drop (length pdu + 3) (s_buf s),
     s_pos := length pdu + 3, s_rcv := STATE_RX_IDLE, s_timer_on := False, s_events := {}, s_rcvaddr := ra, s_frame := 1, s_len := length pdu\<rparr>"

lemma take_request_frame:
  assumes r: "slave_ready a s" and p: "pdu \<noteq> []" "length pdu + 3 \<le> MB_SER_PDU_SIZE_MAX"
  shows "take_request (rtu_frame ra pdu) s =
    Some (if ra = a \<or> ra = MB_ADDRESS_BROADCAST then (accepted ra pdu s)\<lparr>s_events := {EV_EXECUTE}\<rparr>
          else accepted ra pdu s)"
proof -
  let ?f = "rtu_frame ra pdu"
  from r have i: "line_idle s" by (simp add: slave_ready_def)
  then have l: "length (s_buf s) = 256" "s_rcv s = STATE_RX_IDLE" by (auto simp: line_idle_def ser_sizes)
  let ?s = "s\<lparr>s_buf := ?f @ drop (length pdu + 3) (s_buf s), s_pos := length pdu + 3, s_rcv := STATE_RX_IDLE,
              s_timer_on := False, s_events := insert EV_FRAME_RECEIVED (s_events s)\<rparr>"
  have ne: "?f \<noteq> []" by (simp add: rtu_frame_def Let_def)
  have rb: "do { s1 \<leftarrow> receive_bytes ?f s; xMBRTUTimerT35Expired s1 } = Some ?s"
    using receive_frame [OF i ne] p(2) by simp
  let ?s1 = "?s\<lparr>s_events := {}\<rparr>"
  have rc: "eMBRTUReceive ?s1 = Some (Some (ra, 1, length pdu))"
    by (rule eMBRTUReceive_frame(1)) (use p l in \<open>simp_all add: ser_sizes\<close>)
  have rcv: "poll_received ?s1 = Some (if ra = a \<or> ra = MB_ADDRESS_BROADCAST
      then (accepted ra pdu s)\<lparr>s_events := {EV_EXECUTE}\<rparr> else accepted ra pdu s)"
    unfolding poll_received_def rc using r by (simp add: slave_ready_def accepted_def mb_port)
  have "eMBPoll ?s = map_option (Pair MB_ENOERR) (poll_received ?s1)"
    using r by (simp add: eMBPoll_def xMBPortEventGet_def slave_ready_def)
  also have "\<dots> = Some (MB_ENOERR, if ra = a \<or> ra = MB_ADDRESS_BROADCAST
      then (accepted ra pdu s)\<lparr>s_events := {EV_EXECUTE}\<rparr> else accepted ra pdu s)"
    by (simp only: rcv option.map)
  finally show ?thesis by (simp add: take_request_def rb)
qed


text \<open>The state after the reply \<open>pdu\<close> has been sent by a slave with address \<open>a\<close>.\<close>

definition answered :: "u8 \<Rightarrow> u8 list \<Rightarrow> mb_slave \<Rightarrow> mb_slave \<Rightarrow> bool" where
  "answered a pdu s s' \<longleftrightarrow> s_tx s' = s_tx s @ rtu_frame a pdu \<and> s_events s' = {EV_FRAME_SENT} \<and>
     line_idle s' \<and> s_rx_on s' \<and> s_state s' = STATE_ENABLED \<and> s_addr s' = a \<and>
     s_handlers s' = s_handlers s"

lemma send_and_transmit:
  assumes "s_rcv s = STATE_RX_IDLE" "s_snd s = STATE_TX_IDLE" "length (s_buf s) = MB_SER_PDU_SIZE_MAX"
    "n + 3 \<le> MB_SER_PDU_SIZE_MAX"
    and "take n (drop 1 (s_buf s)) = pdu" "length pdu = n" "s_events s = {}" "s_state s = STATE_ENABLED"
    "s_addr s = a"
  shows "\<exists>s2 s'. eMBRTUSend a 1 n s = Some (MB_ENOERR, s2) \<and> transmit_bytes (Suc (s_cnt s2)) s2 = Some s' \<and>
    answered a pdu s s' \<and> s_hold s' = s_hold s \<and> s_inp s' = s_inp s \<and> s_coil s' = s_coil s"
proof -
  let ?s2 = "s\<lparr>s_buf := rtu_frame a pdu @ drop (n + 3) (s_buf s),
    s_cur := 0, s_cnt := n + 3, s_snd := STATE_TX_XMIT, s_rx_on := False, s_tx_on := True\<rparr>"
  have e1: "eMBRTUSend a 1 n s = Some (MB_ENOERR, ?s2)"
    by (rule eMBRTUSend_spec [OF assms(1,3,4,5,6)])
  have e2: "transmit_bytes (Suc (s_cnt ?s2)) ?s2 = Some (?s2\<lparr>s_tx := s_tx ?s2 @ take (s_cnt ?s2) (drop (s_cur ?s2) (s_buf ?s2)),
      s_cur := s_cur ?s2 + s_cnt ?s2, s_cnt := 0, s_snd := STATE_TX_IDLE, s_rx_on := True, s_tx_on := False,
      s_events := insert EV_FRAME_SENT (s_events ?s2)\<rparr>)"
    by (rule transmit_bytes_spec) (use assms in simp_all)
  show ?thesis
    by (intro exI conjI, rule e1, rule e2) (use assms in \<open>simp_all add: answered_def line_idle_def\<close>)
qed

lemma accepted_sel:
  assumes "slave_ready a s" "length pdu + 3 \<le> MB_SER_PDU_SIZE_MAX"
  shows "length (s_buf (accepted ra pdu s)) = MB_SER_PDU_SIZE_MAX"
    "take (length pdu) (drop 1 (s_buf (accepted ra pdu s))) = pdu"
    "\<And>i. i < length pdu \<Longrightarrow> rd (1 + i) (accepted ra pdu s) = Some (pdu ! i)"
    "s_snd (accepted ra pdu s) = STATE_TX_IDLE" "s_events (accepted ra pdu s) = {}"
    "s_rcv (accepted ra pdu s) = STATE_RX_IDLE"
proof -
  let ?b = "s_buf (accepted ra pdu s)"
  show l: "length ?b = MB_SER_PDU_SIZE_MAX"
    using assms by (simp add: accepted_def slave_ready_def line_idle_def)
  show "take (length pdu) (drop 1 ?b) = pdu" by (simp add: accepted_def rtu_frame_def Let_def)
  show "rd (1 + i) (accepted ra pdu s) = Some (pdu ! i)" if "i < length pdu" for i
  proof -
    have "?b ! (1 + i) = pdu ! i" using that by (simp add: accepted_def rtu_frame_def Let_def nth_append)
    then show ?thesis using rd_at [of "1 + i" "accepted ra pdu s"] that l assms(2) by simp
  qed
qed (use assms in \<open>simp_all add: accepted_def slave_ready_def line_idle_def\<close>)

text \<open>
  An exchange from the behaviour of the handler: a request without an exception is answered with the
  PDU the handler leaves behind.
\<close>

lemma exchange_answered:
  assumes r: "slave_ready a s" and p: "pdu \<noteq> []" "length pdu + 3 \<le> MB_SER_PDU_SIZE_MAX"
    and f: "find_handler (pdu ! 0) (s_handlers s) = Some (Some g)"
    and h: "run_handler g 1 (length pdu) (accepted a pdu s) = Some ((MB_EX_NONE, n), s')"
    and k: "handled (accepted a pdu s) s'" and n: "n + 3 \<le> MB_SER_PDU_SIZE_MAX"
  shows "\<exists>t. exchange (rtu_frame a pdu) s = Some t \<and>
    answered a (take n (drop 1 (s_buf s'))) s t \<and> s_hold t = s_hold s' \<and> s_inp t = s_inp s \<and> s_coil t = s_coil s'"
proof -
  let ?a = "accepted a pdu s"
  note sel = accepted_sel [OF r p(2)]
  obtain b hh cc where s': "s' = ?a\<lparr>s_buf := b, s_hold := hh, s_coil := cc\<rparr>" "length b = 256"
    using k sel(1) by (auto simp: handled_def ser_sizes)
  let ?s2 = "s'\<lparr>s_func := pdu ! 0, s_exc := MB_EX_NONE, s_len := n\<rparr>"
  have ra: "s_rcvaddr ?s2 = a" "s_addr ?s2 = a" "s_frame ?s2 = 1" "s_state ?s2 = STATE_ENABLED" "s_tx ?s2 = s_tx s"
    "s_handlers ?s2 = s_handlers s"
    using r by (simp_all add: s' accepted_def slave_ready_def)
  obtain s2 t where t: "eMBRTUSend a 1 n ?s2 = Some (MB_ENOERR, s2)" "transmit_bytes (Suc (s_cnt s2)) s2 = Some t"
    "answered a (take n (drop 1 b)) ?s2 t" "s_hold t = s_hold ?s2" "s_inp t = s_inp ?s2" "s_coil t = s_coil ?s2"
    using send_and_transmit [of ?s2 n "take n (drop 1 b)" a] sel(4-6) n ra s'(2)
    by (auto simp: s'(1) ser_sizes)
  have fr: "s_frame ?a = 1" "s_len ?a = length pdu" "s_handlers ?a = s_handlers s" by (simp_all add: accepted_def)
  have "rd (s_frame ?a + MB_PDU_FUNC_OFF) ?a = Some (pdu ! 0)"
    using sel(3) [of 0] p(1) by (simp add: fr MB_PDU_FUNC_OFF_def)
  then have "poll_execute ?a = Some s2"
    using f h t(1) r ra unfolding poll_execute_def fr by (simp add: Let_def slave_ready_def)
  moreover have "?a\<lparr>s_events := {}\<rparr> = ?a" "s_state ?a = STATE_ENABLED"
    using r by (simp_all add: accepted_def slave_ready_def)
  ultimately have "eMBPoll (?a\<lparr>s_events := {EV_EXECUTE}\<rparr>) = Some (MB_ENOERR, s2)"
    by (simp add: eMBPoll_def xMBPortEventGet_def)
  then have "exchange (rtu_frame a pdu) s = Some t"
    using take_request_frame [OF r p, of a] t(2) by (simp add: exchange_def)
  moreover have "answered a (take n (drop 1 (s_buf s'))) s t"
    using t(3) ra(5,6) by (simp add: answered_def s'(1))
  ultimately show ?thesis using t(4-6) by (simp add: s'(1) accepted_def)
qed


text \<open>A request that ends in an exception is answered with its code; an unknown function likewise.\<close>

lemma three_cells: "3 \<le> length xs \<Longrightarrow> \<exists>a b c ys. xs = a # b # c # ys"
  by (cases xs; cases "tl xs"; cases "tl (tl xs)") auto

lemma poll_exception:
  assumes r: "slave_ready a s" and p: "pdu \<noteq> []" "length pdu + 3 \<le> MB_SER_PDU_SIZE_MAX"
    and s': "s' = (accepted a pdu s)\<lparr>s_buf := b, s_hold := h, s_coil := c\<rparr>" "length b = MB_SER_PDU_SIZE_MAX"
    and x: "poll_execute (accepted a pdu s) =
      do { t1 \<leftarrow> wr 1 (pdu ! 0 OR MB_FUNC_ERROR) (s'\<lparr>s_func := pdu ! 0, s_exc := e, s_len := m\<rparr>);
           t2 \<leftarrow> wr 2 (exception_code e) t1;
           map_option snd (eMBRTUSend (s_addr t2) (s_frame t2) 2 (t2\<lparr>s_len := 2\<rparr>)) }"
  shows "\<exists>t. exchange (rtu_frame a pdu) s = Some t \<and>
    answered a [pdu ! 0 OR MB_FUNC_ERROR, exception_code e] s t \<and> s_hold t = h \<and> s_inp t = s_inp s \<and> s_coil t = c"
proof -
  let ?a = "accepted a pdu s"
  note sel = accepted_sel [OF r p(2)]
  let ?b = "b[1 := pdu ! 0 OR MB_FUNC_ERROR, 2 := exception_code e]"
  let ?t = "s'\<lparr>s_func := pdu ! 0, s_exc := e, s_buf := ?b, s_len := 2\<rparr>"
  have ra: "s_addr s' = a" "s_frame s' = 1" "s_state s' = STATE_ENABLED" "s_tx s' = s_tx s"
    "s_rcv s' = STATE_RX_IDLE" "s_snd s' = STATE_TX_IDLE" "s_events s' = {}" "s_buf s' = b" "s_hold s' = h" "s_inp s' = s_inp s" "s_coil s' = c"
    "s_handlers s' = s_handlers s"
    using r sel(4-6) by (simp_all add: s'(1)) (simp_all add: accepted_def slave_ready_def)
  obtain x0 x1 x2 xs where bb: "b = x0 # x1 # x2 # xs"
    using three_cells [of b] s'(2) by (auto simp: ser_sizes)
  have tk: "take 2 (drop 1 ?b) = [pdu ! 0 OR MB_FUNC_ERROR, exception_code e]"
    by (simp add: bb numeral_2_eq_2)
  obtain s2 t where t: "eMBRTUSend a 1 2 ?t = Some (MB_ENOERR, s2)" "transmit_bytes (Suc (s_cnt s2)) s2 = Some t"
    "answered a [pdu ! 0 OR MB_FUNC_ERROR, exception_code e] ?t t" "s_hold t = s_hold ?t" "s_inp t = s_inp ?t" "s_coil t = s_coil ?t"
    using send_and_transmit [of ?t 2 "take 2 (drop 1 ?b)" a] ra s'(2) tk by (auto simp: ser_sizes)
  have "poll_execute ?a = Some s2"
    using x t(1) ra s'(2) by (simp add: wr_at ser_sizes)
  moreover have "?a\<lparr>s_events := {}\<rparr> = ?a" "s_state ?a = STATE_ENABLED"
    using r by (simp_all add: accepted_def slave_ready_def)
  ultimately have "eMBPoll (?a\<lparr>s_events := {EV_EXECUTE}\<rparr>) = Some (MB_ENOERR, s2)"
    by (simp add: eMBPoll_def xMBPortEventGet_def)
  then have "exchange (rtu_frame a pdu) s = Some t"
    using take_request_frame [OF r p, of a] t(2) by (simp add: exchange_def)
  then show ?thesis using t(3-6) ra by (simp add: answered_def)
qed

lemma exchange_refused:
  assumes r: "slave_ready a s" and p: "pdu \<noteq> []" "length pdu + 3 \<le> MB_SER_PDU_SIZE_MAX"
    and f: "find_handler (pdu ! 0) (s_handlers s) = Some (Some g)"
    and h: "run_handler g 1 (length pdu) (accepted a pdu s) = Some ((e, n), s')" "e \<noteq> MB_EX_NONE"
    and k: "handled (accepted a pdu s) s'"
  shows "\<exists>t. exchange (rtu_frame a pdu) s = Some t \<and>
    answered a [pdu ! 0 OR MB_FUNC_ERROR, exception_code e] s t \<and> s_hold t = s_hold s' \<and> s_inp t = s_inp s \<and> s_coil t = s_coil s'"
proof -
  let ?a = "accepted a pdu s"
  note sel = accepted_sel [OF r p(2)]
  obtain b hh cc where s': "s' = ?a\<lparr>s_buf := b, s_hold := hh, s_coil := cc\<rparr>" "length b = MB_SER_PDU_SIZE_MAX"
    using k sel(1) by (auto simp: handled_def)
  have fr: "s_frame ?a = 1" "s_len ?a = length pdu" "s_handlers ?a = s_handlers s" "s_rcvaddr s' = a" "s_frame s' = 1"
    by (simp_all add: s'(1)) (simp_all add: accepted_def)
  have "rd (s_frame ?a + MB_PDU_FUNC_OFF) ?a = Some (pdu ! 0)"
    using sel(3) [of 0] p(1) by (simp add: fr MB_PDU_FUNC_OFF_def)
  then have "poll_execute ?a =
      do { t1 \<leftarrow> wr 1 (pdu ! 0 OR MB_FUNC_ERROR) (s'\<lparr>s_func := pdu ! 0, s_exc := e, s_len := n\<rparr>);
           t2 \<leftarrow> wr 2 (exception_code e) t1;
           map_option snd (eMBRTUSend (s_addr t2) (s_frame t2) 2 (t2\<lparr>s_len := 2\<rparr>)) }"
    using f h r unfolding poll_execute_def fr(1-3)
    by (simp add: Let_def slave_ready_def fr(4,5) numeral_2_eq_2 Option.bind_assoc)
  from poll_exception [OF r p s' this] show ?thesis by (simp add: s'(1))
qed

lemma exchange_unknown:
  assumes r: "slave_ready a s" and p: "pdu \<noteq> []" "length pdu + 3 \<le> MB_SER_PDU_SIZE_MAX"
    and f: "find_handler (pdu ! 0) (s_handlers s) = Some None"
  shows "\<exists>t. exchange (rtu_frame a pdu) s = Some t \<and>
    answered a [pdu ! 0 OR MB_FUNC_ERROR, 1] s t \<and> s_hold t = s_hold s \<and> s_inp t = s_inp s \<and> s_coil t = s_coil s"
proof -
  let ?a = "accepted a pdu s"
  note sel = accepted_sel [OF r p(2)]
  have s': "?a = ?a\<lparr>s_buf := s_buf ?a, s_hold := s_hold s, s_coil := s_coil s\<rparr>" by (simp add: accepted_def)
  have fr: "s_frame ?a = 1" "s_handlers ?a = s_handlers s" "s_rcvaddr ?a = a" by (simp_all add: accepted_def)
  have "rd (s_frame ?a + MB_PDU_FUNC_OFF) ?a = Some (pdu ! 0)"
    using sel(3) [of 0] p(1) by (simp add: fr MB_PDU_FUNC_OFF_def)
  then have "poll_execute ?a =
      do { t1 \<leftarrow> wr 1 (pdu ! 0 OR MB_FUNC_ERROR) (?a\<lparr>s_func := pdu ! 0, s_exc := MB_EX_ILLEGAL_FUNCTION, s_len := s_len ?a\<rparr>);
           t2 \<leftarrow> wr 2 (exception_code MB_EX_ILLEGAL_FUNCTION) t1;
           map_option snd (eMBRTUSend (s_addr t2) (s_frame t2) 2 (t2\<lparr>s_len := 2\<rparr>)) }"
    using f r unfolding poll_execute_def fr(1,2)
    by (simp add: Let_def slave_ready_def fr numeral_2_eq_2 Option.bind_assoc)
  from poll_exception [OF r p s' sel(1) this] show ?thesis by simp
qed


section \<open>Requests for holding registers\<close>

text \<open>A 16-bit number in a PDU.\<close>

definition be16 :: "u16 \<Rightarrow> u8 list" where
  "be16 w = [ucast (drop_bit 8 w), ucast w]"

lemma rd16_be16:
  assumes "rd p s = Some (be16 w ! 0)" "rd (p + 1) s = Some (be16 w ! 1)"
  shows "rd16 p s = Some w"
  using assms by (simp add: rd16_def be16_def join_halves)

lemma hold_in_range:
  assumes "unat a + unat n \<le> S_REG_HOLDING_NREGS"
  shows "eMBRegHoldingCB p (a + 1) n MB_REG_READ s =
      map_option (Pair MB_ENOERR) (regs_read s_hold p (unat a) (unat n) s)"
    "eMBRegHoldingCB p (a + 1) n MB_REG_WRITE s =
      map_option (Pair MB_ENOERR) (hold_write p (unat a) (unat n) s)"
  using assms by (simp_all add: eMBRegHoldingCB_def table_limits)

lemma twice_byte:
  fixes n :: u16
  assumes "unat n \<le> 127"
  shows "unat (ucast (n * 2) :: u8) = 2 * unat n"
  using assms by (simp add: unsigned_ucast_eq unsigned_take_bit_eq take_bit_eq_mod unat_word_ariths)

lemma read_holding_handler:
  assumes r: "slave_ready a s" and n: "1 \<le> unat n" "unat n \<le> 0x7D"
    and range: "unat start + unat n \<le> S_REG_HOLDING_NREGS"
  defines "pdu \<equiv> [3] @ be16 start @ be16 n"
  shows "\<exists>s'. eMBFuncReadHoldingRegister 1 (length pdu) (accepted a pdu s) =
      Some ((MB_EX_NONE, 2 + 2 * unat n), s') \<and> handled (accepted a pdu s) s' \<and>
    take (2 + 2 * unat n) (drop 1 (s_buf s')) =
      3 # ucast (n * 2) # regs_bytes (take (unat n) (drop (unat start) (s_hold s))) \<and>
    s_hold s' = s_hold s \<and> s_coil s' = s_coil s"
proof -
  let ?a = "accepted a pdu s"
  have pl: "length pdu = 5" by (simp add: pdu_def be16_def)
  then have "length pdu + 3 \<le> MB_SER_PDU_SIZE_MAX" by (simp add: ser_sizes)
  note sel = accepted_sel [OF r this]
  have rdp: "rd (1 + i) ?a = Some (pdu ! i)" if "i < 5" for i using sel(3) that pl by simp
  have "rd16 2 ?a = Some start" "rd16 4 ?a = Some n"
    using rdp [of 1] rdp [of 2] rdp [of 3] rdp [of 4]
    by (auto intro!: rd16_be16 simp: pdu_def be16_def numeral_eq_Suc)
  note rds = this
  define B where "B = (s_buf ?a)[1 := 3, 2 := ucast (n * 2)]"
  have lB: "length B = 256" using sel(1) by (simp add: B_def ser_sizes)
  have head: "reply_head 1 3 (ucast (n * 2)) ?a = Some (?a\<lparr>s_buf := B\<rparr>)"
    using sel(1) by (simp add: reply_head_def wr_at ser_sizes pdu_offsets B_def numeral_2_eq_2)
  have hh: "s_hold ?a = s_hold s" "length (s_hold s) = 100" using r
    by (auto simp: accepted_def slave_ready_def table_limits)
  let ?vs = "take (unat n) (drop (unat start) (s_hold s))"
  have rr: "regs_read s_hold 3 (unat start) (unat n) (?a\<lparr>s_buf := B\<rparr>) =
      Some (?a\<lparr>s_buf := take 3 B @ regs_bytes ?vs @ drop (3 + 2 * unat n) B\<rparr>)"
    using regs_read_spec [of s_hold "?a\<lparr>s_buf := B\<rparr>" "unat start" "unat n" 3] range n hh lB
    by (simp add: table_limits)
  let ?s' = "?a\<lparr>s_buf := take 3 B @ regs_bytes ?vs @ drop (3 + 2 * unat n) B\<rparr>"
  have "n \<noteq> 0" "1 \<le> n" "n \<le> 0x7D" using n by (auto simp: word_le_nat_alt)
  then have "eMBFuncReadHoldingRegister 1 (length pdu) ?a = Some ((MB_EX_NONE, 2 + 2 * unat n), ?s')"
    using rds head rr hold_in_range(1) [OF range]
    by (simp add: eMBFuncReadHoldingRegister_def pl pdu_offsets numeral_eq_Suc)
  moreover have "length ?vs = unat n" using range hh by (simp add: table_limits)
  moreover obtain x0 x1 x2 xs where "s_buf ?a = x0 # x1 # x2 # xs"
    using three_cells [of "s_buf ?a"] sel(1) by (auto simp: ser_sizes)
  then have "take 3 B = [x0, 3, ucast (n * 2)]" by (simp add: B_def numeral_eq_Suc)
  moreover have "take (2 + 2 * unat n) (drop 1 (s_buf ?s')) = 3 # ucast (n * 2) # regs_bytes ?vs"
    using calculation(2,3) lB by simp
  moreover have "handled ?a ?s'"
    by (rule handled_buf) (use lB sel(1) calculation(2) n in \<open>simp add: ser_sizes\<close>)
  moreover have "s_coil ?a = s_coil s" by (simp add: accepted_def)
  ultimately show ?thesis using hh by (intro exI [of _ ?s']) simp
qed

lemma write_holding_handler:
  assumes r: "slave_ready a s" and n: "1 \<le> length vs" "length vs \<le> 0x78"
    and range: "unat start + length vs \<le> S_REG_HOLDING_NREGS"
  defines "n \<equiv> of_nat (length vs) :: u16"
  defines "pdu \<equiv> [16] @ be16 start @ be16 n @ [ucast (2 * n)] @ regs_bytes vs"
  defines "s' \<equiv> (accepted a pdu s)\<lparr>s_hold :=
    take (unat start) (s_hold s) @ vs @ drop (unat start + length vs) (s_hold s)\<rparr>"
  shows "eMBFuncWriteMultipleHoldingRegister 1 (length pdu) (accepted a pdu s) = Some ((MB_EX_NONE, 5), s')"
    "handled (accepted a pdu s) s'" "take 5 (drop 1 (s_buf s')) = [16] @ be16 start @ be16 n"
proof -
  let ?a = "accepted a pdu s"
  have pl: "length pdu = 6 + 2 * length vs" by (simp add: pdu_def be16_def)
  then have pl': "length pdu + 3 \<le> MB_SER_PDU_SIZE_MAX" using n by (simp add: ser_sizes)
  note sel = accepted_sel [OF r this]
  have un: "unat n = length vs" using n by (simp add: n_def unat_of_nat)
  have rdp: "rd (1 + i) ?a = Some (pdu ! i)" if "i < 6" for i using sel(3) that pl by simp
  have hd: "rd16 2 ?a = Some start" "rd16 4 ?a = Some n" "rd 6 ?a = Some (ucast (2 * n))"
    using rdp [of 1] rdp [of 2] rdp [of 3] rdp [of 4] rdp [of 5]
    by (auto intro!: rd16_be16 simp: pdu_def be16_def numeral_eq_Suc)
  have hh: "s_hold ?a = s_hold s" "length (s_hold s) = 100" using r
    by (auto simp: accepted_def slave_ready_def table_limits)
  have "take (2 * length vs) (drop 7 (s_buf ?a)) =
      take (2 * length vs) (drop 6 (take (length pdu) (drop 1 (s_buf ?a))))"
    by (simp add: drop_take pl)
  also have "\<dots> = regs_bytes vs" unfolding sel(2) by (simp add: pdu_def be16_def)
  finally have data: "take (2 * length vs) (drop 7 (s_buf ?a)) = regs_bytes vs" .
  have hw: "hold_write 7 (unat start) (length vs) ?a = Some s'"
    using hold_write_spec [of "unat start" vs ?a 7] data range hh n sel(1)
    by (simp add: s'_def table_limits ser_sizes)
  have "1 \<le> n" "n \<le> 0x78" using n un by (auto simp: word_le_nat_alt)
  then show "eMBFuncWriteMultipleHoldingRegister 1 (length pdu) ?a = Some ((MB_EX_NONE, 5), s')"
    using hd hw hold_in_range(2) [of start n] range pl
    by (simp add: eMBFuncWriteMultipleHoldingRegister_def pdu_offsets un numeral_eq_Suc)
  show "handled ?a s'"
    unfolding s'_def by (rule handled_hold) (use hh range in \<open>simp add: table_limits\<close>)
  have "take 5 (drop 1 (s_buf s')) = take 5 (take (length pdu) (drop 1 (s_buf ?a)))"
    by (simp add: s'_def pl)
  also have "\<dots> = [16] @ be16 start @ be16 n" unfolding sel(2) by (simp add: pdu_def be16_def)
  finally show "take 5 (drop 1 (s_buf s')) = [16] @ be16 start @ be16 n" .
qed


section \<open>Cycles\<close>

text \<open>An exchange, and the poll that takes the event of the sent reply.\<close>

definition cycle :: "u8 list \<Rightarrow> mb_slave \<Rightarrow> mb_slave option" where
  "cycle bs s = do { s1 \<leftarrow> exchange bs s; map_option snd (eMBPoll s1) }"

text \<open>The slave answered \<open>reply\<close>, is ready again, and its tables are as given.\<close>

definition replied :: "u8 \<Rightarrow> u8 list \<Rightarrow> u16 list \<Rightarrow> mb_slave \<Rightarrow> mb_slave \<Rightarrow> bool" where
  "replied a reply hold s t \<longleftrightarrow> slave_ready a t \<and> s_tx t = s_tx s @ rtu_frame a reply \<and>
     s_handlers t = s_handlers s \<and> s_hold t = hold \<and> s_inp t = s_inp s \<and> s_coil t = s_coil s"

lemma cycle_replied:
  assumes "exchange bs s = Some t" "answered a reply s t"
    and "s_hold t = hold" "s_inp t = s_inp s" "s_coil t = s_coil s"
    and "slave_ready a s" "length hold = S_REG_HOLDING_NREGS"
  shows "\<exists>t. cycle bs s = Some t \<and> replied a reply hold s t"
  using assms
  by (auto simp: cycle_def answered_def replied_def slave_ready_def line_idle_def eMBPoll_def xMBPortEventGet_def)

lemma handler_of_read: "find_handler 3 xFuncHandlers = Some (Some ReadHoldingRegister)"
  and handler_of_write: "find_handler 16 xFuncHandlers = Some (Some WriteMultipleHoldingRegister)"
  by (simp_all add: xFuncHandlers_def)

lemma cycle_read_holding:
  assumes r: "slave_ready a s" "s_handlers s = xFuncHandlers" and n: "1 \<le> unat n" "unat n \<le> 0x7D"
    and range: "unat start + unat n \<le> S_REG_HOLDING_NREGS"
  shows "\<exists>t. cycle (rtu_frame a ([3] @ be16 start @ be16 n)) s = Some t \<and>
    replied a (3 # ucast (n * 2) # regs_bytes (take (unat n) (drop (unat start) (s_hold s)))) (s_hold s) s t"
proof -
  let ?pdu = "[3] @ be16 start @ be16 n"
  have p: "?pdu \<noteq> []" "length ?pdu + 3 \<le> MB_SER_PDU_SIZE_MAX" "?pdu ! 0 = 3"
    by (simp_all add: be16_def ser_sizes)
  obtain s' where s': "eMBFuncReadHoldingRegister 1 (length ?pdu) (accepted a ?pdu s) =
      Some ((MB_EX_NONE, 2 + 2 * unat n), s')" "handled (accepted a ?pdu s) s'"
    "take (2 + 2 * unat n) (drop 1 (s_buf s')) =
      3 # ucast (n * 2) # regs_bytes (take (unat n) (drop (unat start) (s_hold s)))"
    "s_hold s' = s_hold s" "s_coil s' = s_coil s"
    using read_holding_handler [OF r(1) n range] by blast
  have f: "find_handler (?pdu ! 0) (s_handlers s) = Some (Some ReadHoldingRegister)"
    using handler_of_read r(2) by simp
  have h: "run_handler ReadHoldingRegister 1 (length ?pdu) (accepted a ?pdu s) =
      Some ((MB_EX_NONE, 2 + 2 * unat n), s')" using s'(1) by simp
  have m: "2 + 2 * unat n + 3 \<le> MB_SER_PDU_SIZE_MAX" using n by (simp add: ser_sizes)
  obtain t where "exchange (rtu_frame a ?pdu) s = Some t"
    "answered a (3 # ucast (n * 2) # regs_bytes (take (unat n) (drop (unat start) (s_hold s)))) s t"
    "s_hold t = s_hold s" "s_inp t = s_inp s" "s_coil t = s_coil s"
    using exchange_answered [OF r(1) p(1,2) f h s'(2) m] s'(3-5) by auto
  then show ?thesis by (rule cycle_replied) (use r in \<open>simp_all add: slave_ready_def\<close>)
qed

lemma cycle_write_holding:
  assumes r: "slave_ready a s" "s_handlers s = xFuncHandlers" and n: "1 \<le> length vs" "length vs \<le> 0x78"
    and range: "unat start + length vs \<le> S_REG_HOLDING_NREGS"
  defines "n \<equiv> of_nat (length vs) :: u16"
  shows "\<exists>t. cycle (rtu_frame a ([16] @ be16 start @ be16 n @ [ucast (2 * n)] @ regs_bytes vs)) s = Some t \<and>
    replied a ([16] @ be16 start @ be16 n)
      (take (unat start) (s_hold s) @ vs @ drop (unat start + length vs) (s_hold s)) s t"
proof -
  let ?pdu = "[16] @ be16 start @ be16 n @ [ucast (2 * n)] @ regs_bytes vs"
  let ?hold = "take (unat start) (s_hold s) @ vs @ drop (unat start + length vs) (s_hold s)"
  let ?s' = "(accepted a ?pdu s)\<lparr>s_hold := ?hold\<rparr>"
  have p: "?pdu \<noteq> []" "length ?pdu + 3 \<le> MB_SER_PDU_SIZE_MAX" "?pdu ! 0 = 16"
    using n by (simp_all add: be16_def ser_sizes)
  note w = write_holding_handler [OF r(1) n range, folded n_def]
  have f: "find_handler (?pdu ! 0) (s_handlers s) = Some (Some WriteMultipleHoldingRegister)"
    using handler_of_write r(2) by simp
  have h: "run_handler WriteMultipleHoldingRegister 1 (length ?pdu) (accepted a ?pdu s) = Some ((MB_EX_NONE, 5), ?s')"
    using w(1) by simp
  have m: "5 + 3 \<le> MB_SER_PDU_SIZE_MAX" by (simp add: ser_sizes)
  obtain t where "exchange (rtu_frame a ?pdu) s = Some t" "answered a ([16] @ be16 start @ be16 n) s t"
    "s_hold t = ?hold" "s_inp t = s_inp s" "s_coil t = s_coil s"
    using exchange_answered [OF r(1) p(1,2) f h w(2) m] w(3) by (auto simp: accepted_def)
  then show ?thesis
    by (rule cycle_replied) (use r range in \<open>simp_all add: slave_ready_def\<close>)
qed


section \<open>Refused and damaged requests\<close>

lemma cycle_unknown:
  assumes r: "slave_ready a s" "pdu \<noteq> []" "length pdu + 3 \<le> MB_SER_PDU_SIZE_MAX"
    and "find_handler (pdu ! 0) (s_handlers s) = Some None"
  shows "\<exists>t. cycle (rtu_frame a pdu) s = Some t \<and> replied a [pdu ! 0 OR MB_FUNC_ERROR, 1] (s_hold s) s t"
proof -
  obtain t where "exchange (rtu_frame a pdu) s = Some t" "answered a [pdu ! 0 OR MB_FUNC_ERROR, 1] s t"
    "s_hold t = s_hold s" "s_inp t = s_inp s" "s_coil t = s_coil s"
    using exchange_unknown [OF assms] by blast
  then show ?thesis by (rule cycle_replied) (use r in \<open>simp_all add: slave_ready_def\<close>)
qed

lemma hold_out_of_range:
  assumes "S_REG_HOLDING_NREGS < unat start + unat n"
  shows "eMBRegHoldingCB p (start + 1) n m s = Some (MB_ENOREG, s)"
  using assms by (simp add: eMBRegHoldingCB_def Let_def table_limits)

lemma cycle_read_outside:
  assumes r: "slave_ready a s" "s_handlers s = xFuncHandlers" and n: "1 \<le> unat n" "unat n \<le> 0x7D"
    and range: "S_REG_HOLDING_NREGS < unat start + unat n"
  shows "\<exists>t. cycle (rtu_frame a ([3] @ be16 start @ be16 n)) s = Some t \<and>
    replied a [0x83, 2] (s_hold s) s t"
proof -
  let ?pdu = "[3] @ be16 start @ be16 n"
  let ?a = "accepted a ?pdu s"
  have p: "?pdu \<noteq> []" "length ?pdu + 3 \<le> MB_SER_PDU_SIZE_MAX" "length ?pdu = 5"
    by (simp_all add: be16_def ser_sizes)
  note sel = accepted_sel [OF r(1) p(2)]
  have f: "find_handler (?pdu ! 0) (s_handlers s) = Some (Some ReadHoldingRegister)"
    using handler_of_read r(2) by simp
  have rdp: "rd (1 + i) ?a = Some (?pdu ! i)" if "i < 5" for i using sel(3) that p(3) by simp
  have rds: "rd16 2 ?a = Some start" "rd16 4 ?a = Some n"
    using rdp [of 1] rdp [of 2] rdp [of 3] rdp [of 4]
    by (auto intro!: rd16_be16 simp: be16_def numeral_eq_Suc)
  define B where "B = (s_buf ?a)[1 := 3, 2 := ucast (n * 2)]"
  have head: "reply_head 1 3 (ucast (n * 2)) ?a = Some (?a\<lparr>s_buf := B\<rparr>)"
    using sel(1) by (simp add: reply_head_def wr_at ser_sizes pdu_offsets B_def numeral_2_eq_2)
  have "n \<noteq> 0" "1 \<le> n" "n \<le> 0x7D" using n by (auto simp: word_le_nat_alt)
  then have "eMBFuncReadHoldingRegister 1 (length ?pdu) ?a = Some ((MB_EX_ILLEGAL_DATA_ADDRESS, 2), ?a\<lparr>s_buf := B\<rparr>)"
    using rds head hold_out_of_range [OF range] r p(3)
    by (simp add: eMBFuncReadHoldingRegister_def pdu_offsets numeral_eq_Suc)
  then have h: "run_handler ReadHoldingRegister 1 (length ?pdu) ?a =
      Some ((MB_EX_ILLEGAL_DATA_ADDRESS, 2), ?a\<lparr>s_buf := B\<rparr>)" by simp
  have k: "handled ?a (?a\<lparr>s_buf := B\<rparr>)"
    by (rule handled_buf) (simp add: B_def)
  obtain t where "exchange (rtu_frame a ?pdu) s = Some t" "answered a [0x83, 2] s t"
    "s_hold t = s_hold s" "s_inp t = s_inp s" "s_coil t = s_coil s"
    using exchange_refused [OF r(1) p(1,2) f h _ k] by (auto simp: MB_FUNC_ERROR_def accepted_def)
  then show ?thesis by (rule cycle_replied) (use r in \<open>simp_all add: slave_ready_def\<close>)
qed

lemma cycle_write_outside:
  assumes r: "slave_ready a s" "s_handlers s = xFuncHandlers" and n: "1 \<le> length vs" "length vs \<le> 0x78"
    and range: "S_REG_HOLDING_NREGS < unat start + length vs"
  defines "n \<equiv> of_nat (length vs) :: u16"
  shows "\<exists>t. cycle (rtu_frame a ([16] @ be16 start @ be16 n @ [ucast (2 * n)] @ regs_bytes vs)) s = Some t \<and>
    replied a [0x90, 2] (s_hold s) s t"
proof -
  let ?pdu = "[16] @ be16 start @ be16 n @ [ucast (2 * n)] @ regs_bytes vs"
  let ?a = "accepted a ?pdu s"
  have p: "?pdu \<noteq> []" "length ?pdu + 3 \<le> MB_SER_PDU_SIZE_MAX" "length ?pdu = 6 + 2 * length vs"
    using n by (simp_all add: be16_def ser_sizes)
  note sel = accepted_sel [OF r(1) p(2)]
  have un: "unat n = length vs" using n by (simp add: n_def unat_of_nat)
  have f: "find_handler (?pdu ! 0) (s_handlers s) = Some (Some WriteMultipleHoldingRegister)"
    using handler_of_write r(2) by simp
  have rdp: "rd (1 + i) ?a = Some (?pdu ! i)" if "i < 6" for i using sel(3) that p(3) by simp
  have hd: "rd16 2 ?a = Some start" "rd16 4 ?a = Some n" "rd 6 ?a = Some (ucast (2 * n))"
    using rdp [of 1] rdp [of 2] rdp [of 3] rdp [of 4] rdp [of 5]
    by (auto intro!: rd16_be16 simp: be16_def numeral_eq_Suc)
  have out: "S_REG_HOLDING_NREGS < unat start + unat n" using range un by simp
  have "1 \<le> n" "n \<le> 0x78" using n un by (auto simp: word_le_nat_alt)
  then have h: "run_handler WriteMultipleHoldingRegister 1 (length ?pdu) ?a =
      Some ((MB_EX_ILLEGAL_DATA_ADDRESS, length ?pdu), ?a)"
    using hd hold_out_of_range [OF out] p(3) n
    by (simp add: eMBFuncWriteMultipleHoldingRegister_def pdu_offsets numeral_eq_Suc)
  have k: "handled ?a ?a" using handled_buf [of "s_buf ?a" ?a] by simp
  obtain t where "exchange (rtu_frame a ?pdu) s = Some t" "answered a [0x90, 2] s t"
    "s_hold t = s_hold s" "s_inp t = s_inp s" "s_coil t = s_coil s"
    using exchange_refused [OF r(1) p(1,2) f h _ k] by (auto simp: MB_FUNC_ERROR_def accepted_def)
  then show ?thesis by (rule cycle_replied) (use r in \<open>simp_all add: slave_ready_def\<close>)
qed

text \<open>
  Not so a request that writes and reads (function 23): the registers are written before those to be read
  are found to lie outside the table, and the exception answers a request that was half done.
\<close>

lemma readwrite_half_done:
  assumes "rd16 (f + 1) s = Some ra" "rd16 (f + 3) s = Some rn" "rd16 (f + 5) s = Some wa" "rd16 (f + 7) s = Some wn"
    "rd (f + 9) s = Some bc" "10 \<le> len" "1 \<le> rn" "rn \<le> 0x7D" "1 \<le> wn" "wn \<le> 0x79" "2 * unat wn = unat bc"
    and "unat wa + unat wn \<le> S_REG_HOLDING_NREGS" "hold_write (f + 10) (unat wa) (unat wn) s = Some s1"
    and "S_REG_HOLDING_NREGS < unat ra + unat rn" "reply_head f 23 (ucast (rn * 2)) s1 = Some s2"
  shows "eMBFuncReadWriteMultipleHoldingRegister f len s = Some ((MB_EX_ILLEGAL_DATA_ADDRESS, 2), s2) \<and> s_hold s2 = s_hold s1"
proof -
  have k: "s_hold s2 = s_hold s1" using assms(15) by (auto simp: reply_head_def wr_def split: bind_splits)
  have "eMBFuncReadWriteMultipleHoldingRegister f len s = Some ((MB_EX_ILLEGAL_DATA_ADDRESS, 2), s2)"
    using assms(1-11,13,15) hold_in_range(2) [OF assms(12)] hold_out_of_range [OF assms(14)]
    by (simp add: eMBFuncReadWriteMultipleHoldingRegister_def pdu_offsets add.assoc numeral_eq_Suc)
  with k show ?thesis by simp
qed

text \<open>A frame with one byte damaged is ignored.\<close>

lemma take_request_damaged:
  assumes r: "slave_ready a s" and f: "rtu_frame ra pdu = xs @ b # ys" "b \<noteq> b'"
    and p: "length pdu + 3 \<le> MB_SER_PDU_SIZE_MAX"
  shows "\<exists>t. take_request (xs @ b' # ys) s = Some t \<and> slave_ready a t \<and> s_tx t = s_tx s \<and>
    s_handlers t = s_handlers s \<and> s_hold t = s_hold s \<and> s_inp t = s_inp s \<and> s_coil t = s_coil s"
proof -
  let ?f = "xs @ b' # ys"
  from r have i: "line_idle s" by (simp add: slave_ready_def)
  then have l: "length (s_buf s) = 256" "s_rcv s = STATE_RX_IDLE" by (auto simp: line_idle_def ser_sizes)
  have len: "length ?f = length pdu + 3"
    using arg_cong [OF f(1), of length] by simp
  have ne: "?f \<noteq> []" by simp
  let ?s = "s\<lparr>s_buf := ?f @ drop (length ?f) (s_buf s), s_pos := length ?f, s_rcv := STATE_RX_IDLE,
              s_timer_on := False, s_events := insert EV_FRAME_RECEIVED (s_events s)\<rparr>"
  have lf: "length ?f \<le> MB_SER_PDU_SIZE_MAX" unfolding len by (rule p)
  note rb = receive_frame [OF i ne lf]
  have "usMBCRC16 ?f \<noteq> 0"
    using crc_detects_byte [OF f(2), of xs ys] rtu_frame_crc [of ra pdu] by (simp add: f(1))
  then have "eMBRTUReceive (?s\<lparr>s_events := {}\<rparr>) = Some None"
    using lf l by (simp add: eMBRTUReceive_def ser_sizes)
  then have "eMBPoll ?s = Some (MB_ENOERR, ?s\<lparr>s_events := {}\<rparr>)"
    using r by (simp add: eMBPoll_def xMBPortEventGet_def slave_ready_def poll_received_def)
  then have "take_request ?f s = Some (?s\<lparr>s_events := {}\<rparr>)"
    unfolding take_request_def rb by simp
  then show ?thesis
    using r lf l by (intro exI [of _ "?s\<lparr>s_events := {}\<rparr>"]) (simp add: slave_ready_def line_idle_def ser_sizes)
qed

end
