(* ===== verification/MbCoils.thy ===== *)
theory MbCoils
  imports MbApp
begin

unbundle bit_operations_syntax

text \<open>
  The coils of a Modbus slave (components/net/freemodbus/port/user_mb_app.c) as a sequence of bits:
  what the loops of the coil and discrete callbacks do to the bits of the tables and of the frame.
\<close>

section \<open>Reading\<close>

lemma bits_read_spec:
  assumes "\<And>m. tab (s\<lparr>s_buf := m\<rparr>) = tab s" "b < 8" "i + n < length (tab s)" "p + n \<le> length (s_buf s)"
  shows "bits_read tab p i b n s = Some (s\<lparr>s_buf := take p (s_buf s) @
    map (\<lambda>j. the (xMBUtilGetBits (tab s) j b 8)) [i ..< i + n] @ drop (p + n) (s_buf s)\<rparr>)"
  using assms
proof (induction n arbitrary: p i s)
  case 0
  then show ?case by simp
next
  case (Suc n)
  obtain v where v: "xMBUtilGetBits (tab s) i b 8 = Some v"
    by (rule xMBUtilGetBits_spec [of i b "tab s" 8]) (use Suc.prems in auto)
  let ?s = "s\<lparr>s_buf := (s_buf s)[p := v]\<rparr>"
  have "bits_read tab p i b (Suc n) s = bits_read tab (p + 1) (i + 1) b n ?s"
    using Suc.prems v by (simp add: wr_at)
  also have "\<dots> = Some (?s\<lparr>s_buf := take (p + 1) (s_buf ?s) @
      map (\<lambda>j. the (xMBUtilGetBits (tab ?s) j b 8)) [i + 1 ..< i + 1 + n] @ drop (p + 1 + n) (s_buf ?s)\<rparr>)"
    by (rule Suc.IH) (use Suc.prems in \<open>simp_all add: Suc.prems(1)\<close>)
  also have "\<dots> = Some (s\<lparr>s_buf := take p (s_buf s) @
    map (\<lambda>j. the (xMBUtilGetBits (tab s) j b 8)) [i ..< i + Suc n] @ drop (p + Suc n) (s_buf s)\<rparr>)"
    using Suc.prems v
    by (simp add: take_Suc_conv_app_nth upt_conv_Cons Suc.prems(1) del: upt_Suc)
  finally show ?case .
qed

lemma get_bits_bit:
  assumes "b < 8" "j + 1 < length buf"
  shows "bit (the (xMBUtilGetBits buf j b 8)) k \<longleftrightarrow> k < 8 \<and> buf_bit buf (8 * j + b + k)"
proof -
  have "j + b div 8 + 1 < length buf" using assms by simp
  then obtain v where "xMBUtilGetBits buf j b 8 = Some v" "\<And>i. bit v i \<longleftrightarrow> i < 8 \<and> buf_bit buf (8 * j + b + i)"
    by (rule xMBUtilGetBits_spec [where n = 8]) (simp, rule that, assumption+)
  then show ?thesis by simp
qed

lemma shift_out:
  fixes v :: u8
  assumes "r < 8"
  shows "drop_bit (8 - r) (push_bit (8 - r) v) = v AND mask r"
  by (rule bit_word_eqI)
    (use assms in \<open>auto simp: bit_drop_bit_eq bit_push_bit_iff bit_and_iff bit_mask_iff\<close>)

lemma clear_high_spec:
  assumes "p < length (s_buf s)" "r < 8"
  shows "clear_high p r s = Some (s\<lparr>s_buf := (s_buf s)[p := s_buf s ! p AND mask r]\<rparr>)"
  using assms by (simp add: clear_high_def rd_at wr_at shift_out)

lemma byte_order: "k < n \<longleftrightarrow> k div 8 < n div 8 \<or> k div 8 = n div 8 \<and> k mod 8 < n mod (8 :: nat)"
proof -
  have "k = 8 * (k div 8) + k mod 8" "n = 8 * (n div 8) + n mod 8" "k mod 8 < 8" "n mod 8 < 8" by simp_all
  then show ?thesis by linarith
qed

text \<open>
  The reply to a read of coils: the bits asked for, the others of the last byte zero. When the number
  is a multiple of eight the last byte is one behind those the reply announces.
\<close>

lemma coils_read_spec:
  fixes a :: u16
  assumes "unat a + unat n < 56" "length (s_coil s) = 8" "p + unat n div 8 + 1 \<le> length (s_buf s)"
  obtains bs where "eMBRegCoilsCB src p (a + 1) n MB_REG_READ s = Some (MB_ENOERR, s\<lparr>s_buf :=
      take p (s_buf s) @ bs @ drop (p + (unat n div 8 + 1)) (s_buf s)\<rparr>)"
    "length bs = unat n div 8 + 1"
    "\<And>k. k < 8 * (unat n div 8 + 1) \<Longrightarrow> buf_bit bs k \<longleftrightarrow> k < unat n \<and> buf_bit (s_coil s) (unat a + k)"
proof -
  define N i b where "N = unat n div 8" and "i = unat a div 8" and "b = unat a mod 8"
  have ib: "b < 8" "8 * i + b = unat a" by (simp_all add: b_def i_def)
  have iN: "i + N + 1 < 8" using assms(1) unfolding i_def N_def by linarith
  define cs where "cs = map (\<lambda>j. the (xMBUtilGetBits (s_coil s) j b 8)) [i ..< i + (N + 1)]"
  have lcs: "length cs = N + 1" by (simp add: cs_def)
  define s1 where "s1 = s\<lparr>s_buf := take p (s_buf s) @ cs @ drop (p + (N + 1)) (s_buf s)\<rparr>"
  have rd1: "bits_read s_coil p i b (N + 1) s = Some s1"
    unfolding s1_def cs_def
    by (rule bits_read_spec) (use ib iN assms in \<open>simp_all add: N_def\<close>)
  define bs where "bs = cs[N := cs ! N AND mask (unat n mod 8)]"
  have "clear_high (p + N) (unat n mod 8) s1 = Some (s1\<lparr>s_buf := (s_buf s1)[p + N := s_buf s1 ! (p + N) AND mask (unat n mod 8)]\<rparr>)"
    by (rule clear_high_spec) (use assms lcs in \<open>simp_all add: s1_def N_def\<close>)
  also have "(s_buf s1)[p + N := s_buf s1 ! (p + N) AND mask (unat n mod 8)] =
      take p (s_buf s) @ bs @ drop (p + (N + 1)) (s_buf s)"
    using assms(3) lcs by (simp add: s1_def bs_def list_update_append nth_append N_def)
  finally have "eMBRegCoilsCB src p (a + 1) n MB_REG_READ s = Some (MB_ENOERR, s\<lparr>s_buf :=
      take p (s_buf s) @ bs @ drop (p + (N + 1)) (s_buf s)\<rparr>)"
    using rd1 assms(1) by (simp add: eMBRegCoilsCB_def Let_def table_limits N_def i_def b_def s1_def del: bits_read.simps)
  moreover have "buf_bit bs k \<longleftrightarrow> k < unat n \<and> buf_bit (s_coil s) (unat a + k)" if k: "k < 8 * (N + 1)" for k
  proof -
    have kd: "k div 8 < N + 1" "k = 8 * (k div 8) + k mod 8" using k by (simp_all add: less_mult_imp_div_less mult.commute)
    have "bit (cs ! (k div 8)) (k mod 8) \<longleftrightarrow> buf_bit (s_coil s) (8 * (i + k div 8) + b + k mod 8)"
      using get_bits_bit [of b "i + k div 8" "s_coil s"] kd(1) ib(1) iN assms(2)
      by (simp add: cs_def del: upt_Suc)
    also have "8 * (i + k div 8) + b + k mod 8 = unat a + k" using kd(2) ib(2) by (simp add: algebra_simps)
    finally have c: "bit (cs ! (k div 8)) (k mod 8) \<longleftrightarrow> buf_bit (s_coil s) (unat a + k)" .
    have o: "k < unat n \<longleftrightarrow> k div 8 < N \<or> k div 8 = N \<and> k mod 8 < unat n mod 8"
      unfolding N_def by (rule byte_order)
    then show ?thesis
      using c kd(1) lcs o by (cases "k div 8 = N") (auto simp: buf_bit_def bs_def bit_and_iff bit_mask_iff)
  qed
  ultimately show ?thesis using that [of bs] lcs by (simp add: N_def bs_def)
qed

section \<open>Writing\<close>

lemma buf_bit_byte: "k < 8 \<Longrightarrow> buf_bit buf (8 * j + k) \<longleftrightarrow> bit (buf ! j) k"
  by (simp add: buf_bit_def)

lemma byte_bound: "bit (v :: u8) k \<Longrightarrow> k < 8"
  using bit_imp_le_length by fastforce

text \<open>One byte of the source is written at a place of the table; nothing else changes.\<close>

lemma set_byte:
  assumes "b < 8" "i + 1 < length buf"
  obtains buf' where "xMBUtilSetBits buf i b 8 v = Some buf'" "length buf' = length buf"
    "\<And>x. buf_bit buf' x \<longleftrightarrow> (if 8 * i + b \<le> x \<and> x < 8 * i + b + 8 then bit v (x - (8 * i + b)) else buf_bit buf x)"
proof -
  have "i + b div 8 + 1 < length buf" using assms by simp
  then obtain buf' where b: "xMBUtilSetBits buf i b 8 v = Some buf'" "length buf' = length buf"
    "\<And>x. buf_bit buf' x \<longleftrightarrow> (if 8 * i + b \<le> x \<and> x < 8 * i + b + 8 then bit v (x - (8 * i + b))
        else buf_bit buf x \<or> 8 * i + b + 8 \<le> x \<and> bit v (x - (8 * i + b)))"
    by (rule xMBUtilSetBits_spec [where n = 8]) (simp, rule that, assumption+)
  have no: "\<not> bit v (x - (8 * i + b))" if "8 * i + b + 8 \<le> x" for x
    using byte_bound [of v "x - (8 * i + b)"] that by linarith
  show ?thesis by (rule that [OF b(1,2)]) (auto simp: b(3) no)
qed

lemma coils_write_spec:
  assumes "b < 8" "i + n < length (s_coil s)" "p + n \<le> length src"
  shows "\<exists>c. coils_write src p i b n s = Some (s\<lparr>s_coil := c\<rparr>) \<and> length c = length (s_coil s) \<and>
    (\<forall>x. buf_bit c x \<longleftrightarrow> (if 8 * i + b \<le> x \<and> x < 8 * i + b + 8 * n
      then buf_bit src (8 * p + (x - (8 * i + b))) else buf_bit (s_coil s) x))"
  using assms
proof (induction n arbitrary: p i s)
  case 0
  then show ?case by (auto intro: exI [of _ "s_coil s"])
next
  case (Suc n)
  define o1 where "o1 = 8 * i + b"
  obtain t where t: "xMBUtilSetBits (s_coil s) i b 8 (src ! p) = Some t" "length t = length (s_coil s)"
    "\<And>x. buf_bit t x \<longleftrightarrow> (if o1 \<le> x \<and> x < o1 + 8 then bit (src ! p) (x - o1) else buf_bit (s_coil s) x)"
    unfolding o1_def
    by (rule set_byte [of b i "s_coil s" "src ! p"]) (use Suc.prems in simp_all)
  have "\<exists>c. coils_write src (p + 1) (i + 1) b n (s\<lparr>s_coil := t\<rparr>) = Some (s\<lparr>s_coil := t\<rparr>\<lparr>s_coil := c\<rparr>) \<and>
    length c = length (s_coil (s\<lparr>s_coil := t\<rparr>)) \<and>
    (\<forall>x. buf_bit c x \<longleftrightarrow> (if 8 * (i + 1) + b \<le> x \<and> x < 8 * (i + 1) + b + 8 * n
      then buf_bit src (8 * (p + 1) + (x - (8 * (i + 1) + b))) else buf_bit (s_coil (s\<lparr>s_coil := t\<rparr>)) x))"
    by (rule Suc.IH) (use Suc.prems t(2) in simp_all)
  moreover have "8 * (i + 1) + b = o1 + 8" by (simp add: o1_def)
  ultimately obtain c where c: "coils_write src (p + 1) (i + 1) b n (s\<lparr>s_coil := t\<rparr>) = Some (s\<lparr>s_coil := c\<rparr>)"
    "length c = length t"
    "\<And>x. buf_bit c x \<longleftrightarrow> (if o1 + 8 \<le> x \<and> x < o1 + 8 + 8 * n
      then buf_bit src (8 * (p + 1) + (x - (o1 + 8))) else buf_bit t x)"
    by auto
  have "coils_write src p i b (Suc n) s = Some (s\<lparr>s_coil := c\<rparr>)"
    using t(1) c(1) Suc.prems by (simp add: mem_read_def)
  moreover have "buf_bit c x \<longleftrightarrow> (if o1 \<le> x \<and> x < o1 + 8 * Suc n
      then buf_bit src (8 * p + (x - o1)) else buf_bit (s_coil s) x)" for x
  proof -
    have "8 * (p + 1) + (x - (o1 + 8)) = 8 * p + (x - o1)" if "o1 + 8 \<le> x" using that by simp
    moreover have "buf_bit src (8 * p + (x - o1)) \<longleftrightarrow> bit (src ! p) (x - o1)" if "o1 \<le> x" "x < o1 + 8"
      using buf_bit_byte [of "x - o1" src p] that by linarith
    ultimately show ?thesis by (auto simp: c(3) t(3))
  qed
  ultimately show ?case using c(2) t(2) unfolding o1_def by (intro exI [of _ c]) simp
qed

text \<open>
  A write sets the coils asked for and leaves the others, when the bits that fill up the last byte of
  the request are zero. Otherwise they are joined with the coils behind.
\<close>

lemma coils_set_spec:
  fixes a :: u16
  assumes "unat a + unat n < 56" "length (s_coil s) = 8" "p + (unat n + 7) div 8 \<le> length src"
    and pad: "\<And>k. unat n \<le> k \<Longrightarrow> k < 8 * ((unat n + 7) div 8) \<Longrightarrow> \<not> buf_bit src (8 * p + k)"
  shows "\<exists>c. eMBRegCoilsCB src p (a + 1) n MB_REG_WRITE s = Some (MB_ENOERR, s\<lparr>s_coil := c\<rparr>) \<and> length c = 8 \<and>
    (\<forall>x. buf_bit c x \<longleftrightarrow> (if unat a \<le> x \<and> x < unat a + unat n
      then buf_bit src (8 * p + (x - unat a)) else buf_bit (s_coil s) x))"
proof -
  define N i b r where "N = unat n div 8" and "i = unat a div 8" and "b = unat a mod 8" and "r = unat n mod 8"
  have ib: "b < 8" "8 * i + b = unat a" "unat n = 8 * N + r" "r < 8" by (simp_all add: b_def i_def N_def r_def)
  have iN: "i + N + 1 < 8" using assms(1) ib by linarith
  have pN: "p + N \<le> length src" "r \<noteq> 0 \<Longrightarrow> p + N < length src"
    using assms(3) ib(3,4) by linarith+
  obtain c1 where c1: "coils_write src p i b N s = Some (s\<lparr>s_coil := c1\<rparr>)" "length c1 = 8"
    "\<And>x. buf_bit c1 x \<longleftrightarrow> (if unat a \<le> x \<and> x < unat a + 8 * N
      then buf_bit src (8 * p + (x - unat a)) else buf_bit (s_coil s) x)"
    using coils_write_spec [of b i N s p src] ib iN pN(1) assms(2) by auto
  have head: "eMBRegCoilsCB src p (a + 1) n MB_REG_WRITE s = map_option (Pair MB_ENOERR)
      (if r \<noteq> 0 then do { v \<leftarrow> mem_read src (int (p + N));
                         t \<leftarrow> xMBUtilSetBits c1 (i + N) b r v;
                         Some (s\<lparr>s_coil := t\<rparr>) }
       else Some (s\<lparr>s_coil := c1\<rparr>))"
    using c1(1) assms(1) by (simp add: eMBRegCoilsCB_def Let_def table_limits N_def i_def b_def r_def del: coils_write.simps)
  show ?thesis
  proof (cases "r = 0")
    case True
    then show ?thesis using head c1(2,3) ib(3) by (intro exI [of _ c1]) simp
  next
    case False
    define e v where "e = 8 * (i + N) + b" and "v = src ! (p + N)"
    have e: "e = unat a + 8 * N" using ib(2) by (simp add: e_def)
    have up: "8 * ((unat n + 7) div 8) = 8 * N + 8" using ib(3,4) False by presburger
    have vbit: "bit v k \<longleftrightarrow> buf_bit src (8 * p + (8 * N + k))" if "k < 8" for k
      using buf_bit_byte [OF that, of src "p + N"] by (simp add: v_def add_mult_distrib2 add.assoc)
    have vpad: "\<not> bit v k" if "r \<le> k" for k
      using byte_bound [of v k] vbit [of k] pad [of "8 * N + k"] that ib(3) up by auto
    have "i + N + b div 8 + 1 < length c1" "r \<le> 8" using iN ib c1(2) by simp_all
    then obtain c where c: "xMBUtilSetBits c1 (i + N) b r v = Some c" "length c = length c1"
      "\<And>x. buf_bit c x \<longleftrightarrow> (if e \<le> x \<and> x < e + r then bit v (x - e)
        else buf_bit c1 x \<or> e + r \<le> x \<and> bit v (x - e))"
      by (rule xMBUtilSetBits_spec [of "i + N" b c1 r v, folded e_def]) (rule that, assumption+)
    have "buf_bit c x \<longleftrightarrow> (if unat a \<le> x \<and> x < unat a + unat n
      then buf_bit src (8 * p + (x - unat a)) else buf_bit (s_coil s) x)" for x
    proof -
      have "bit v (x - e) \<longleftrightarrow> buf_bit src (8 * p + (x - unat a))" if "e \<le> x" "x < e + r"
        using vbit [of "x - e"] that e ib(4) by simp
      moreover have "\<not> bit v (x - e)" if "e + r \<le> x" using vpad [of "x - e"] that by simp
      ultimately show ?thesis using c1(3) [of x] by (auto simp: c(3) e ib(3))
    qed
    moreover have "eMBRegCoilsCB src p (a + 1) n MB_REG_WRITE s = Some (MB_ENOERR, s\<lparr>s_coil := c\<rparr>)"
      using head c(1) pN(2) False by (simp add: mem_read_def v_def nat_add_distrib)
    ultimately show ?thesis using c(2) c1(2) by (intro exI [of _ c]) simp
  qed
qed

text \<open>What was written is read back.\<close>

theorem coils_write_read:
  fixes a :: u16
  assumes "unat a + unat n < 56" "length (s_coil s) = 8" "p + (unat n + 7) div 8 \<le> length src"
    and "\<And>k. unat n \<le> k \<Longrightarrow> k < 8 * ((unat n + 7) div 8) \<Longrightarrow> \<not> buf_bit src (8 * p + k)"
    and "q + unat n div 8 + 1 \<le> length (s_buf s)"
  shows "\<exists>t bs. do { (e, s1) \<leftarrow> eMBRegCoilsCB src p (a + 1) n MB_REG_WRITE s;
                    eMBRegCoilsCB [] q (a + 1) n MB_REG_READ s1 } = Some (MB_ENOERR, t) \<and>
    s_buf t = take q (s_buf s) @ bs @ drop (q + (unat n div 8 + 1)) (s_buf s) \<and> length bs = unat n div 8 + 1 \<and>
    (\<forall>k < 8 * (unat n div 8 + 1). buf_bit bs k \<longleftrightarrow> k < unat n \<and> buf_bit src (8 * p + k))"
proof -
  obtain c where c: "eMBRegCoilsCB src p (a + 1) n MB_REG_WRITE s = Some (MB_ENOERR, s\<lparr>s_coil := c\<rparr>)" "length c = 8"
    "\<And>x. buf_bit c x \<longleftrightarrow> (if unat a \<le> x \<and> x < unat a + unat n
      then buf_bit src (8 * p + (x - unat a)) else buf_bit (s_coil s) x)"
    using coils_set_spec [OF assms(1-4)] by auto
  obtain bs where "eMBRegCoilsCB [] q (a + 1) n MB_REG_READ (s\<lparr>s_coil := c\<rparr>) = Some (MB_ENOERR, s\<lparr>s_coil := c\<rparr>\<lparr>s_buf :=
      take q (s_buf (s\<lparr>s_coil := c\<rparr>)) @ bs @ drop (q + (unat n div 8 + 1)) (s_buf (s\<lparr>s_coil := c\<rparr>))\<rparr>)"
    "length bs = unat n div 8 + 1"
    "\<And>k. k < 8 * (unat n div 8 + 1) \<Longrightarrow> buf_bit bs k \<longleftrightarrow> k < unat n \<and> buf_bit (s_coil (s\<lparr>s_coil := c\<rparr>)) (unat a + k)"
    by (rule coils_read_spec [OF assms(1), of "s\<lparr>s_coil := c\<rparr>" q "[]"])
      (use assms(5) c(2) in simp, use assms(5) in simp, rule that, assumption+)
  then show ?thesis by (auto simp: c(1,3))
qed

text \<open>The last coils of the table cannot be read: the loop looks at the byte behind it.\<close>

lemma last_coils_unreadable:
  fixes a :: u16
  assumes "0 < unat n" "unat a + unat n \<le> 64" "56 \<le> unat a" "length (s_coil s) = 8"
  shows "eMBRegCoilsCB src p (a + 1) n MB_REG_READ s = None"
proof -
  have "unat a div 8 = 7" using assms(1-3) by linarith
  then have "xMBUtilGetBits (s_coil s) (unat a div 8) (unat a mod 8) 8 = None"
    using assms(4) by (simp add: xMBUtilGetBits_def mem_read_def)
  then show ?thesis using assms(2) by (simp add: eMBRegCoilsCB_def Let_def table_limits)
qed

end
