(* ===== verification/MbSteps.thy ===== *)
theory MbSteps
  imports MbSlave
begin

text \<open>
  A Modbus slave under any order of its interrupts: received bytes, the end of the pause behind a
  frame, the transmitter asking for a byte, and the main loop, one step at a time. The state machines
  of the RTU mode hold two assertions about each other and index the frame buffer; the invariant
  \<open>line_inv\<close> shows that neither can fail.
\<close>

section \<open>What handlers change\<close>

lemma handled_refl [simp]: "handled s s"
  using handled_buf [of "s_buf s" s] by simp

lemma handled_trans:
  assumes "handled s t" "handled t u"
  shows "handled s u"
proof -
  obtain b h c b' h' c' where "t = s\<lparr>s_buf := b, s_hold := h, s_coil := c\<rparr>"
    "u = t\<lparr>s_buf := b', s_hold := h', s_coil := c'\<rparr>"
    using assms by (auto simp: handled_def)
  then have "u = s\<lparr>s_buf := b', s_hold := h', s_coil := c'\<rparr>" by simp
  then show ?thesis using assms unfolding handled_def by metis
qed

lemma length_mem_write: "mem_write m i v = Some m' \<Longrightarrow> length m' = length m"
  by (auto simp: mem_write_def split: if_splits)

lemma length_set_bits: "xMBUtilSetBits buf i b n v = Some buf' \<Longrightarrow> length buf' = length buf"
  by (auto simp: xMBUtilSetBits_def Let_def bind_eq_Some_conv dest!: length_mem_write split: if_splits)

lemmas length_kept = length_mem_write memcpy_length length_set_bits

lemma wr_handled: "wr p b s = Some s' \<Longrightarrow> handled s s'"
  by (auto simp: wr_def length_mem_write intro!: handled_buf)

lemma regs_read_handled: "regs_read tab p i n s = Some s' \<Longrightarrow> handled s s'"
proof (induction tab p i n s rule: regs_read.induct)
  case (2 tab p i n s)
  then obtain v s1 s2 where *: "mem_read (tab s) (int i) = Some v" "wr p (ucast (drop_bit 8 v)) s = Some s1"
    "wr (p + 1) (ucast (v AND 0xFF)) s1 = Some s2" "regs_read tab (p + 2) (i + 1) n s2 = Some s'"
    by (auto simp: bind_eq_Some_conv)
  have "handled s2 s'" by (rule 2(1) [OF *])
  with *(2,3) [THEN wr_handled] show ?case by (blast intro: handled_trans)
qed simp

lemma hold_write_handled: "hold_write p i n s = Some s' \<Longrightarrow> handled s s'"
proof (induction p i n s rule: hold_write.induct)
  case (2 p i n s)
  then obtain h l t1 t2 where *: "rd p s = Some h" "mem_write (s_hold s) (int i) (push_bit 8 (ucast h)) = Some t1"
    "rd (p + 1) s = Some l" "mem_write t1 (int i) (push_bit 8 (ucast h) OR ucast l) = Some t2"
    "hold_write (p + 2) (i + 1) n (s\<lparr>s_hold := t2\<rparr>) = Some s'"
    by (auto simp: bind_eq_Some_conv)
  have "handled (s\<lparr>s_hold := t2\<rparr>) s'" by (rule 2(1) [OF *])
  moreover have "handled s (s\<lparr>s_hold := t2\<rparr>)"
    by (rule handled_hold) (use *(2,4) in \<open>simp add: length_mem_write\<close>)
  ultimately show ?case by (blast intro: handled_trans)
qed simp

lemma bits_read_handled: "bits_read tab p i b n s = Some s' \<Longrightarrow> handled s s'"
proof (induction tab p i b n s rule: bits_read.induct)
  case (2 tab p i b n s)
  then obtain v s1 where "xMBUtilGetBits (tab s) i b 8 = Some v" "wr p v s = Some s1"
    "bits_read tab (p + 1) (i + 1) b n s1 = Some s'"
    by (auto simp: bind_eq_Some_conv)
  with 2(1) have "handled s s1" "handled s1 s'" by (auto intro: wr_handled)
  then show ?case by (blast intro: handled_trans)
qed simp

lemma coils_write_handled: "coils_write src p i b n s = Some s' \<Longrightarrow> handled s s'"
  by (induction src p i b n s rule: coils_write.induct)
    (auto simp: bind_eq_Some_conv intro: handled_trans [OF handled_coil [OF length_set_bits]])

lemma clear_high_handled: "clear_high p n s = Some s' \<Longrightarrow> handled s s'"
  by (auto simp: clear_high_def bind_eq_Some_conv intro: handled_trans dest!: wr_handled)

lemma reply_head_handled: "reply_head f c n s = Some s' \<Longrightarrow> handled s s'"
  by (auto simp: reply_head_def bind_eq_Some_conv intro: handled_trans dest!: wr_handled)

lemmas loops_handled = regs_read_handled hold_write_handled bits_read_handled coils_write_handled
  clear_high_handled reply_head_handled

lemma input_cb_handled: "eMBRegInputCB p a n s = Some (e, s') \<Longrightarrow> handled s s'"
  by (auto simp: eMBRegInputCB_def Let_def loops_handled split: if_splits)

lemma holding_cb_handled: "eMBRegHoldingCB p a n m s = Some (e, s') \<Longrightarrow> handled s s'"
  by (cases m) (auto simp: eMBRegHoldingCB_def Let_def loops_handled split: if_splits)

lemma coils_cb_handled: "eMBRegCoilsCB src p a n m s = Some (e, s') \<Longrightarrow> handled s s'"
  by (cases m) (auto simp: eMBRegCoilsCB_def Let_def bind_eq_Some_conv loops_handled split: if_splits
      simp del: bits_read.simps intro: handled_trans [OF _ handled_coil [OF length_set_bits]] handled_trans [OF bits_read_handled clear_high_handled] loops_handled)

lemma discrete_cb_handled: "eMBRegDiscreteCB p a n s = Some (e, s') \<Longrightarrow> handled s s'"
  by (auto simp: eMBRegDiscreteCB_def Let_def bind_eq_Some_conv split: if_splits
      simp del: bits_read.simps intro: handled_trans [OF bits_read_handled clear_high_handled])

lemmas cb_handled = input_cb_handled holding_cb_handled coils_cb_handled discrete_cb_handled reply_head_handled

lemma run_handler_handled: "run_handler g f n s = Some (r, s') \<Longrightarrow> handled s s'"
  by (cases g; cases r)
    (auto simp: eMBFuncReportSlaveID_def eMBFuncReadInputRegister_def eMBFuncReadHoldingRegister_def
      eMBFuncWriteMultipleHoldingRegister_def eMBFuncWriteHoldingRegister_def
      eMBFuncReadWriteMultipleHoldingRegister_def eMBFuncReadCoils_def eMBFuncWriteCoil_def
      eMBFuncWriteMultipleCoils_def eMBFuncReadDiscreteInputs_def bind_eq_Some_conv
      split: if_splits intro: handled_trans handled_buf memcpy_length dest!: cb_handled)

section \<open>Steps\<close>

text \<open>
  Interrupts come when they are enabled: a byte while the receiver is on, the end of the pause while
  the timer runs, a request for a byte while the transmitter is on. The main loop polls at any time;
  a poll that fails has left the model (a handler outside its table, two pending events at once).
\<close>

inductive mb_step :: "mb_slave \<Rightarrow> mb_slave \<Rightarrow> bool" where
  byte_arrives: "s_rx_on s \<Longrightarrow> xMBRTUReceiveFSM b s = Some s' \<Longrightarrow> mb_step s s'"
| pause_ends: "s_timer_on s \<Longrightarrow> xMBRTUTimerT35Expired s = Some s' \<Longrightarrow> mb_step s s'"
| line_ready: "s_tx_on s \<Longrightarrow> xMBRTUTransmitFSM s = Some s' \<Longrightarrow> mb_step s s'"
| main_loop: "eMBPoll s = Some (e, s') \<Longrightarrow> mb_step s s'"

inductive_cases mb_stepE: "mb_step s s'"

text \<open>
  What a property of the slave has to promise to hold after every step: about the interrupts, about
  what a handler may change, and about the assignments of the main loop.
\<close>

locale slave_invariant =
  fixes P :: "mb_slave \<Rightarrow> bool"
  assumes byte: "P s \<Longrightarrow> s_rx_on s \<Longrightarrow> xMBRTUReceiveFSM b s = Some s' \<Longrightarrow> P s'"
    and pause: "P s \<Longrightarrow> s_timer_on s \<Longrightarrow> xMBRTUTimerT35Expired s = Some s' \<Longrightarrow> P s'"
    and ready: "P s \<Longrightarrow> s_tx_on s \<Longrightarrow> xMBRTUTransmitFSM s = Some s' \<Longrightarrow> P s'"
    and handler: "P s \<Longrightarrow> handled s s' \<Longrightarrow> P s'"
    and request: "P s \<Longrightarrow> P (s\<lparr>s_func := fc, s_exc := x, s_len := n\<rparr>)"
    and events: "P s \<Longrightarrow> P (s\<lparr>s_events := E\<rparr>)"
    and frame: "P s \<Longrightarrow> P (s\<lparr>s_rcvaddr := a, s_frame := 1, s_len := n\<rparr>)"
    and send: "P s \<Longrightarrow> eMBRTUSend a (s_frame s) n s = Some (e, s') \<Longrightarrow> P s'"
begin

lemma written: "P s \<Longrightarrow> wr p b s = Some s' \<Longrightarrow> P s'"
  by (blast intro: handler wr_handled)

lemma len: "P s \<Longrightarrow> P (s\<lparr>s_len := n\<rparr>)"
  using request [of s n "s_exc s" "s_func s"] by simp

lemma received:
  assumes "poll_received s = Some s'" "P s"
  shows "P s'"
proof -
  obtain r where "eMBRTUReceive s = Some r" and r: "s' = (case r of None \<Rightarrow> s | Some (a, f, n) \<Rightarrow>
      let s1 = s\<lparr>s_rcvaddr := a, s_frame := f, s_len := n\<rparr> in
      if a = s_addr s \<or> a = MB_ADDRESS_BROADCAST then xMBPortEventPost EV_EXECUTE s1 else s1)"
    using assms(1) by (auto simp: poll_received_def bind_eq_Some_conv)
  moreover have "f = 1" if "r = Some (a, f, n)" for a f n
    using that calculation(1) by (auto simp: eMBRTUReceive_def bind_eq_Some_conv ser_sizes split: if_splits)
  moreover have "P (xMBPortEventPost EV_EXECUTE (s\<lparr>s_rcvaddr := a, s_frame := 1, s_len := n\<rparr>))" for a n
    unfolding mb_port by (intro events frame assms(2))
  ultimately show ?thesis using assms(2) frame by (auto simp: Let_def split: option.splits)
qed

lemma reply:
  assumes "(if s_rcvaddr t \<noteq> MB_ADDRESS_BROADCAST
          then do { s3 \<leftarrow> (if e \<noteq> MB_EX_NONE
                          then do { t1 \<leftarrow> wr (s_frame t) (fc OR MB_FUNC_ERROR) t;
                                    t2 \<leftarrow> wr (s_frame t + 1) (exception_code e) t1;
                                    Some (t2\<lparr>s_len := 2\<rparr>) }
                          else Some t);
                    map_option snd (eMBRTUSend (s_addr s3) (s_frame s3) (s_len s3) s3) }
          else Some t) = Some s'" "P t"
  shows "P s'"
proof (cases "s_rcvaddr t = MB_ADDRESS_BROADCAST")
  case False
  with assms obtain s3 x where s3: "eMBRTUSend (s_addr s3) (s_frame s3) (s_len s3) s3 = Some (x, s')"
    and "s3 = t \<or> (\<exists>t1 t2. wr (s_frame t) (fc OR MB_FUNC_ERROR) t = Some t1 \<and>
      wr (s_frame t + 1) (exception_code e) t1 = Some t2 \<and> s3 = t2\<lparr>s_len := 2\<rparr>)"
    by (auto simp: bind_eq_Some_conv split: if_splits)
  then have "P s3" using assms(2) by (blast intro: len written)
  then show ?thesis by (rule send [OF _ s3])
qed (use assms in simp)

lemma execute:
  assumes "poll_execute s = Some s'" "P s"
  shows "P s'"
proof -
  obtain fc h e n s1 where h: "(case h of None \<Rightarrow> Some ((MB_EX_ILLEGAL_FUNCTION, s_len s), s)
      | Some g \<Rightarrow> run_handler g (s_frame s) (s_len s) s) = Some ((e, n), s1)"
    and rest: "(let s2 = s1\<lparr>s_func := fc, s_exc := e, s_len := n\<rparr> in
          if s_rcvaddr s2 \<noteq> MB_ADDRESS_BROADCAST
          then do { s3 \<leftarrow> (if e \<noteq> MB_EX_NONE
                          then do { t1 \<leftarrow> wr (s_frame s2) (fc OR MB_FUNC_ERROR) s2;
                                    t2 \<leftarrow> wr (s_frame s2 + 1) (exception_code e) t1;
                                    Some (t2\<lparr>s_len := 2\<rparr>) }
                          else Some s2);
                    map_option snd (eMBRTUSend (s_addr s3) (s_frame s3) (s_len s3) s3) }
          else Some s2) = Some s'"
    using assms(1) unfolding poll_execute_def by (auto simp: bind_eq_Some_conv)
  have "P s1" using h assms(2) by (auto split: option.splits intro: handler run_handler_handled)
  then show ?thesis by (intro reply [OF rest [unfolded Let_def]] request)
qed

lemma poll:
  assumes "eMBPoll s = Some (e, s')" "P s"
  shows "P s'"
  using assms events [OF assms(2)]
  by (auto simp: eMBPoll_def bind_eq_Some_conv xMBPortEventGet_def
      split: if_splits option.splits eMBEventType.splits dest: received execute)

lemma step: "mb_step s s' \<Longrightarrow> P s \<Longrightarrow> P s'"
  by (erule mb_stepE) (blast intro: byte pause ready poll)+

lemma steps: "mb_step\<^sup>*\<^sup>* s t \<Longrightarrow> P s \<Longrightarrow> P t"
  by (induction rule: rtranclp_induct) (auto intro: step)

end

definition line_inv :: "mb_slave \<Rightarrow> bool" where
  "line_inv s \<longleftrightarrow> length (s_buf s) = MB_SER_PDU_SIZE_MAX \<and> s_pos s \<le> MB_SER_PDU_SIZE_MAX \<and>
     (s_timer_on s \<longleftrightarrow> s_rcv s \<noteq> STATE_RX_IDLE) \<and> (s_tx_on s \<longleftrightarrow> s_snd s = STATE_TX_XMIT) \<and>
     s_rx_on s = (\<not> s_tx_on s) \<and>
     (s_snd s = STATE_TX_XMIT \<longrightarrow> s_rcv s = STATE_RX_IDLE \<and> s_cur s + s_cnt s \<le> MB_SER_PDU_SIZE_MAX) \<and>
     s_frame s \<le> 1 \<and> s_state s = STATE_ENABLED"

text \<open>Under the invariant no enabled interrupt fails.\<close>

lemma line_inv_progress:
  assumes "line_inv s"
  shows "s_rx_on s \<Longrightarrow> \<exists>t. xMBRTUReceiveFSM b s = Some t"
    "s_timer_on s \<Longrightarrow> \<exists>t. xMBRTUTimerT35Expired s = Some t"
    "s_tx_on s \<Longrightarrow> \<exists>t. xMBRTUTransmitFSM s = Some t"
  using assms
  by (cases "s_snd s"; cases "s_rcv s";
      force simp: line_inv_def xMBRTUReceiveFSM_def xMBRTUTimerT35Expired_def xMBRTUTransmitFSM_def ser_sizes
        wr_at rd_at)+

lemma receive_line_inv:
  assumes "line_inv s" "s_rx_on s" "xMBRTUReceiveFSM b s = Some s'"
  shows "line_inv s'"
  using assms
  by (cases "s_rcv s") (auto simp: line_inv_def xMBRTUReceiveFSM_def mb_port ser_sizes wr_at split: if_splits)

lemma timer_line_inv:
  assumes "line_inv s" "s_timer_on s" "xMBRTUTimerT35Expired s = Some s'"
  shows "line_inv s'"
  using assms by (cases "s_rcv s") (auto simp: line_inv_def xMBRTUTimerT35Expired_def mb_port)

lemma transmit_line_inv:
  assumes "line_inv s" "s_tx_on s" "xMBRTUTransmitFSM s = Some s'"
  shows "line_inv s'"
  using assms
  by (cases "s_snd s") (auto simp: line_inv_def xMBRTUTransmitFSM_def mb_port bind_eq_Some_conv split: if_splits)

lemma handled_line_inv: "handled s s' \<Longrightarrow> line_inv s \<Longrightarrow> line_inv s'"
  by (auto simp: handled_def line_inv_def)

lemma wr_line_inv: "wr p b s = Some s' \<Longrightarrow> line_inv s \<Longrightarrow> line_inv s'"
  by (blast intro: handled_line_inv wr_handled)

lemma send_line_inv:
  assumes "eMBRTUSend a f n s = Some (e, s')" "line_inv s" "f \<le> 1"
  shows "line_inv s'"
proof (cases "s_rcv s = STATE_RX_IDLE \<and> f \<noteq> 0")
  case True
  with assms obtain x y s1 s2 s3 where w: "wr 0 a s = Some s1" "wr (Suc n) x s1 = Some s2"
    "wr (Suc (Suc n)) y s2 = Some s3"
    and s': "s' = vMBPortSerialEnable False True (s3\<lparr>s_cur := 0, s_cnt := Suc (Suc (Suc n)), s_snd := STATE_TX_XMIT\<rparr>)"
    by (auto simp: eMBRTUSend_def Let_def bind_eq_Some_conv ser_sizes split: if_splits)
  have "line_inv s3" using w assms(2) by (blast intro: wr_line_inv)
  moreover have "s_rcv s3 = STATE_RX_IDLE" "Suc (Suc n) < length (s_buf s3)"
    using w True by (auto simp: wr_def mem_write_def split: if_splits)
  ultimately show ?thesis by (auto simp: s' line_inv_def mb_port)
next
  case False
  then show ?thesis using assms by (auto simp: eMBRTUSend_def Let_def split: if_splits)
qed

interpretation line: slave_invariant line_inv
proof
  show "line_inv s'" if "line_inv s" "eMBRTUSend a (s_frame s) n s = Some (e, s')" for s a n e s'
    using send_line_inv [OF that(2,1)] that(1) by (simp add: line_inv_def)
qed (auto simp: handled_line_inv intro: receive_line_inv timer_line_inv transmit_line_inv, simp_all add: line_inv_def)

section \<open>From the start\<close>

text \<open>The slave as the initialisation leaves it, with the static variables at zero.\<close>

definition mb_initialised :: "mb_slave \<Rightarrow> bool" where
  "mb_initialised s \<longleftrightarrow> s_state s = STATE_DISABLED \<and> length (s_buf s) = MB_SER_PDU_SIZE_MAX \<and>
     s_snd s = STATE_TX_IDLE \<and> s_pos s = 0 \<and> s_cur s = 0 \<and> s_cnt s = 0 \<and> s_frame s = 0"

lemma enable_line_inv:
  assumes "mb_initialised s"
  shows "line_inv (snd (eMBEnable s))"
  using assms by (simp add: mb_initialised_def eMBEnable_def eMBRTUStart_def mb_port line_inv_def)

text \<open>
  Stopping in the middle of a reply leaves the transmitter in its sending state: after the next start
  the first received byte fails the assertion of the receiver.
\<close>

lemma restart_keeps_transmitter:
  assumes "s_state s = STATE_ENABLED" "s_snd s = STATE_TX_XMIT"
  defines "t \<equiv> snd (eMBEnable (snd (eMBDisable s)))"
  shows "s_rx_on t" "xMBRTUReceiveFSM b t = None"
  using assms
  by (simp_all add: eMBEnable_def eMBDisable_def eMBRTUStart_def eMBRTUStop_def mb_port xMBRTUReceiveFSM_def)

section \<open>What stays\<close>

text \<open>
  What no event on the line can change: the sizes of the arrays, the read-only tables, the handlers and
  the slave's address.
\<close>

definition fixed_parts :: "mb_slave \<Rightarrow> mb_slave \<Rightarrow> bool" where
  "fixed_parts s t \<longleftrightarrow> length (s_buf t) = length (s_buf s) \<and> length (s_hold t) = length (s_hold s) \<and>
     length (s_coil t) = length (s_coil s) \<and> s_inp t = s_inp s \<and> s_disc t = s_disc s \<and> s_id t = s_id s \<and>
     s_idlen t = s_idlen s \<and> s_handlers t = s_handlers s \<and> s_addr t = s_addr s \<and> s_state t = s_state s"

lemma fixed_refl: "fixed_parts s s" by (simp add: fixed_parts_def)

lemma fixed_trans: "fixed_parts s t \<Longrightarrow> fixed_parts t u \<Longrightarrow> fixed_parts s u" by (simp add: fixed_parts_def)

lemma fixed_handled: "handled s s' \<Longrightarrow> fixed_parts s s'" by (auto simp: handled_def fixed_parts_def)

lemma fixed_wr: "wr p b s = Some s' \<Longrightarrow> fixed_parts s s'" by (intro fixed_handled wr_handled)

lemma fixed_send:
  assumes "eMBRTUSend a f n s = Some (e, s')"
  shows "fixed_parts s s'"
proof (cases "s_rcv s = STATE_RX_IDLE")
  case True
  with assms obtain x y p q r s1 s2 s3 where w: "wr p a s = Some s1" "wr q x s1 = Some s2" "wr r y s2 = Some s3"
    and s': "fixed_parts s3 s'"
    by (auto simp: eMBRTUSend_def Let_def bind_eq_Some_conv fixed_parts_def mb_port split: if_splits)
  then show ?thesis by (blast intro: fixed_wr fixed_trans)
qed (use assms in \<open>simp add: eMBRTUSend_def fixed_refl\<close>)

lemma fixed_port:
  "fixed_parts s (s\<lparr>s_func := fc, s_exc := x, s_len := n\<rparr>)" "fixed_parts s (s\<lparr>s_events := E\<rparr>)"
  "fixed_parts s (s\<lparr>s_rcvaddr := a, s_frame := m, s_len := n\<rparr>)"
  by (simp_all add: fixed_parts_def)

lemma fixed_interrupts:
  "xMBRTUReceiveFSM b s = Some s' \<Longrightarrow> fixed_parts s s'" "xMBRTUTimerT35Expired s = Some s' \<Longrightarrow> fixed_parts s s'"
  "xMBRTUTransmitFSM s = Some s' \<Longrightarrow> fixed_parts s s'"
  by (cases "s_rcv s"; cases "s_snd s"; auto simp: fixed_parts_def xMBRTUReceiveFSM_def wr_def
      xMBRTUTimerT35Expired_def xMBRTUTransmitFSM_def mb_port bind_eq_Some_conv dest!: length_mem_write split: if_splits)+

interpretation fixed: slave_invariant "fixed_parts s0"
  by unfold_locales (blast intro: fixed_trans fixed_interrupts fixed_handled fixed_port fixed_send)+

end
