(* ===== verification/MbAscii.thy ===== *)
theory MbAscii
  imports MbRtu
begin

text \<open>
  The ASCII transmission mode of a Modbus slave
  (components/net/freemodbus/modbus/ascii/mbascii.c; MB_SLAVE_ASCII_ENABLED switches it on): every byte
  of a frame travels as two hexadecimal digits between a colon and a line end, checked by the sum of its
  bytes. The state machines are driven by received characters, an empty transmitter and the timeout of
  one second. \<open>None\<close> is a failed assertion or an access outside the buffer.
\<close>

section \<open>State\<close>

text \<open>The states of the source, which have the names of the RTU mode there.\<close>

datatype ascii_rcv = ASCII_RX_IDLE | ASCII_RX_RCV | ASCII_RX_WAIT_EOF
datatype ascii_snd = ASCII_TX_IDLE | ASCII_TX_START | ASCII_TX_DATA | ASCII_TX_END | ASCII_TX_NOTIFY
datatype eMBBytePos = BYTE_HIGH_NIBBLE | BYTE_LOW_NIBBLE

record mb_ascii =
  a_rcv :: ascii_rcv
  a_snd :: ascii_snd
  a_buf :: "u8 list"
  a_pos :: nat
  a_byte :: eMBBytePos
  a_cur :: nat
  a_cnt :: nat
  a_lf :: u8
  a_rx_on :: bool
  a_tx_on :: bool
  a_timer_on :: bool
  a_events :: "eMBEventType set"
  a_tx :: "u8 list"

definition MB_ASCII_DEFAULT_CR :: u8 where "MB_ASCII_DEFAULT_CR = 13"
definition MB_ASCII_DEFAULT_LF :: u8 where "MB_ASCII_DEFAULT_LF = 10"
definition ASCII_PDU_SIZE_MIN :: nat where "ASCII_PDU_SIZE_MIN = 3"
definition ASCII_PDU_SIZE_MAX :: nat where "ASCII_PDU_SIZE_MAX = 256"
definition ASCII_COLON :: u8 where "ASCII_COLON = 58"

lemmas ascii_chars = MB_ASCII_DEFAULT_CR_def MB_ASCII_DEFAULT_LF_def ASCII_COLON_def
lemmas ascii_sizes = ASCII_PDU_SIZE_MIN_def ASCII_PDU_SIZE_MAX_def

definition ascii_enable :: "bool \<Rightarrow> bool \<Rightarrow> mb_ascii \<Rightarrow> mb_ascii" where
  "ascii_enable rx tx s = s\<lparr>a_rx_on := rx, a_tx_on := tx\<rparr>"

definition ascii_timer :: "bool \<Rightarrow> mb_ascii \<Rightarrow> mb_ascii" where
  "ascii_timer b s = s\<lparr>a_timer_on := b\<rparr>"

definition ascii_post :: "eMBEventType \<Rightarrow> mb_ascii \<Rightarrow> mb_ascii" where
  "ascii_post e s = s\<lparr>a_events := insert e (a_events s)\<rparr>"

definition ascii_put :: "u8 \<Rightarrow> mb_ascii \<Rightarrow> mb_ascii" where
  "ascii_put c s = s\<lparr>a_tx := a_tx s @ [c]\<rparr>"

lemmas ascii_port = ascii_enable_def ascii_timer_def ascii_post_def ascii_put_def

section \<open>Characters and checksum\<close>

definition prvucMBCHAR2BIN :: "u8 \<Rightarrow> u8" where
  "prvucMBCHAR2BIN c =
     (if 48 \<le> c \<and> c \<le> 57 then c - 48 else if 65 \<le> c \<and> c \<le> 70 then c - 65 + 10 else 0xFF)"

definition prvucMBBIN2CHAR :: "u8 \<Rightarrow> u8 option" where
  "prvucMBBIN2CHAR b =
     (if b \<le> 9 then Some (48 + b) else if 10 \<le> b \<and> b \<le> 15 then Some (b - 10 + 65) else None)"

definition prvucMBLRC :: "u8 list \<Rightarrow> u8" where "prvucMBLRC bs = - foldl (+) 0 bs"

section \<open>Start, stop and frames\<close>

definition eMBASCIIInit :: "bool \<Rightarrow> bool \<Rightarrow> mb_ascii \<Rightarrow> eMBErrorCode \<times> mb_ascii" where
  "eMBASCIIInit serial_ok timer_ok s =
     (let s = s\<lparr>a_lf := MB_ASCII_DEFAULT_LF\<rparr> in
      if \<not> serial_ok then (MB_EPORTERR, s) else if \<not> timer_ok then (MB_EPORTERR, s) else (MB_ENOERR, s))"

definition eMBASCIIStart :: "mb_ascii \<Rightarrow> mb_ascii" where
  "eMBASCIIStart s = ascii_post EV_READY ((ascii_enable True False s)\<lparr>a_rcv := ASCII_RX_IDLE\<rparr>)"

definition eMBASCIIStop :: "mb_ascii \<Rightarrow> mb_ascii" where
  "eMBASCIIStop s = ascii_timer False (ascii_enable False False s)"

text \<open>The address, the offset of the PDU in the buffer and its length, or an error.\<close>

definition eMBASCIIReceive :: "mb_ascii \<Rightarrow> (u8 \<times> nat \<times> nat) option option" where
  "eMBASCIIReceive s =
     (if a_pos s < ASCII_PDU_SIZE_MAX \<and> a_pos s \<le> length (a_buf s)
      then if ASCII_PDU_SIZE_MIN \<le> a_pos s \<and> prvucMBLRC (take (a_pos s) (a_buf s)) = 0
           then do { a \<leftarrow> mem_read (a_buf s) 0; Some (Some (a, 1, a_pos s - 1 - 1)) }
           else Some None
      else None)"

definition eMBASCIISend :: "u8 \<Rightarrow> nat \<Rightarrow> nat \<Rightarrow> mb_ascii \<Rightarrow> (eMBErrorCode \<times> mb_ascii) option" where
  "eMBASCIISend ucSlaveAddress f usLength s =
     (if a_rcv s = ASCII_RX_IDLE
      then if f = 0 then None
           else let cur = f - 1; cnt = 1 + usLength in
                do { b1 \<leftarrow> mem_write (a_buf s) (int cur) ucSlaveAddress;
                     lrc \<leftarrow> (if cur + cnt \<le> length b1 then Some (prvucMBLRC (take cnt (drop cur b1))) else None);
                     b2 \<leftarrow> mem_write b1 (int cnt) lrc;
                     Some (MB_ENOERR, ascii_enable False True
                       (s\<lparr>a_buf := b2, a_cur := cur, a_cnt := cnt + 1, a_snd := ASCII_TX_START\<rparr>)) }
      else Some (MB_EIO, s))"

section \<open>State machines\<close>

definition ascii_restart :: "mb_ascii \<Rightarrow> mb_ascii" where
  "ascii_restart s = (ascii_timer True s)\<lparr>a_byte := BYTE_HIGH_NIBBLE, a_pos := 0, a_rcv := ASCII_RX_RCV\<rparr>"

definition xMBASCIIReceiveFSM :: "u8 \<Rightarrow> mb_ascii \<Rightarrow> mb_ascii option" where
  "xMBASCIIReceiveFSM ucByte s =
     (if a_snd s = ASCII_TX_IDLE then
        (case a_rcv s of
           ASCII_RX_RCV \<Rightarrow>
             let s = ascii_timer True s in
             if ucByte = ASCII_COLON then Some (s\<lparr>a_byte := BYTE_HIGH_NIBBLE, a_pos := 0\<rparr>)
             else if ucByte = MB_ASCII_DEFAULT_CR then Some (s\<lparr>a_rcv := ASCII_RX_WAIT_EOF\<rparr>)
             else let r = prvucMBCHAR2BIN ucByte in
                  (case a_byte s of
                     BYTE_HIGH_NIBBLE \<Rightarrow>
                       if a_pos s < ASCII_PDU_SIZE_MAX
                       then do { b \<leftarrow> mem_write (a_buf s) (int (a_pos s)) (push_bit 4 r);
                                 Some (s\<lparr>a_buf := b, a_byte := BYTE_LOW_NIBBLE\<rparr>) }
                       else Some (ascii_timer False (s\<lparr>a_rcv := ASCII_RX_IDLE\<rparr>))
                   | BYTE_LOW_NIBBLE \<Rightarrow>
                       do { x \<leftarrow> mem_read (a_buf s) (int (a_pos s));
                            b \<leftarrow> mem_write (a_buf s) (int (a_pos s)) (x OR r);
                            Some (s\<lparr>a_buf := b, a_pos := a_pos s + 1, a_byte := BYTE_HIGH_NIBBLE\<rparr>) })
         | ASCII_RX_WAIT_EOF \<Rightarrow>
             if ucByte = a_lf s
             then Some (ascii_post EV_FRAME_RECEIVED ((ascii_timer False s)\<lparr>a_rcv := ASCII_RX_IDLE\<rparr>))
             else if ucByte = ASCII_COLON then Some (ascii_restart s)
             else Some (s\<lparr>a_rcv := ASCII_RX_IDLE\<rparr>)
         | ASCII_RX_IDLE \<Rightarrow> Some (if ucByte = ASCII_COLON then ascii_restart s else s))
      else None)"

definition xMBASCIITransmitFSM :: "mb_ascii \<Rightarrow> mb_ascii option" where
  "xMBASCIITransmitFSM s =
     (if a_rcv s = ASCII_RX_IDLE then
        (case a_snd s of
           ASCII_TX_START \<Rightarrow> Some ((ascii_put ASCII_COLON s)\<lparr>a_snd := ASCII_TX_DATA, a_byte := BYTE_HIGH_NIBBLE\<rparr>)
         | ASCII_TX_DATA \<Rightarrow>
             if 0 < a_cnt s
             then do { x \<leftarrow> mem_read (a_buf s) (int (a_cur s));
                       (case a_byte s of
                          BYTE_HIGH_NIBBLE \<Rightarrow>
                            do { c \<leftarrow> prvucMBBIN2CHAR (drop_bit 4 x);
                                 Some ((ascii_put c s)\<lparr>a_byte := BYTE_LOW_NIBBLE\<rparr>) }
                        | BYTE_LOW_NIBBLE \<Rightarrow>
                            do { c \<leftarrow> prvucMBBIN2CHAR (x AND 0x0F);
                                 Some ((ascii_put c s)\<lparr>a_cur := a_cur s + 1, a_byte := BYTE_HIGH_NIBBLE,
                                         a_cnt := a_cnt s - 1\<rparr>) }) }
             else Some ((ascii_put MB_ASCII_DEFAULT_CR s)\<lparr>a_snd := ASCII_TX_END\<rparr>)
         | ASCII_TX_END \<Rightarrow> Some ((ascii_put (a_lf s) s)\<lparr>a_snd := ASCII_TX_NOTIFY\<rparr>)
         | ASCII_TX_NOTIFY \<Rightarrow>
             Some ((ascii_enable True False (ascii_post EV_FRAME_SENT s))\<lparr>a_snd := ASCII_TX_IDLE\<rparr>)
         | ASCII_TX_IDLE \<Rightarrow> Some (ascii_enable True False s))
      else None)"

definition xMBASCIITimerT1SExpired :: "mb_ascii \<Rightarrow> mb_ascii option" where
  "xMBASCIITimerT1SExpired s =
     (if a_rcv s = ASCII_RX_RCV \<or> a_rcv s = ASCII_RX_WAIT_EOF
      then Some (ascii_timer False (s\<lparr>a_rcv := ASCII_RX_IDLE\<rparr>)) else None)"

fun ascii_receive :: "u8 list \<Rightarrow> mb_ascii \<Rightarrow> mb_ascii option" where
  "ascii_receive [] s = Some s"
| "ascii_receive (c # cs) s = do { s1 \<leftarrow> xMBASCIIReceiveFSM c s; ascii_receive cs s1 }"

fun ascii_transmit :: "nat \<Rightarrow> mb_ascii \<Rightarrow> mb_ascii option" where
  "ascii_transmit 0 s = Some s"
| "ascii_transmit (Suc n) s = do { s1 \<leftarrow> xMBASCIITransmitFSM s; ascii_transmit n s1 }"

section \<open>Digits\<close>

text \<open>The two characters of a byte, and a frame as it travels.\<close>

definition hex_char :: "u8 \<Rightarrow> u8" where "hex_char n = (if n \<le> 9 then 48 + n else n - 10 + 65)"

definition hex_pair :: "u8 \<Rightarrow> u8 list" where "hex_pair b = [hex_char (drop_bit 4 b), hex_char (b AND 0x0F)]"

definition ascii_frame :: "u8 \<Rightarrow> u8 list \<Rightarrow> u8 list" where
  "ascii_frame a pdu =
     (let bs = a # pdu @ [prvucMBLRC (a # pdu)] in
      ASCII_COLON # concat (map hex_pair bs) @ [MB_ASCII_DEFAULT_CR, MB_ASCII_DEFAULT_LF])"

lemma nibble_all:
  "list_all (\<lambda>n. prvucMBBIN2CHAR (of_nat n) = Some (hex_char (of_nat n)) \<and>
     prvucMBCHAR2BIN (hex_char (of_nat n)) = of_nat n \<and> hex_char (of_nat n) \<noteq> ASCII_COLON \<and>
     hex_char (of_nat n) \<noteq> MB_ASCII_DEFAULT_CR) [0..<16]"
  by code_simp

lemma nibble:
  assumes "unat n < 16"
  shows "prvucMBBIN2CHAR n = Some (hex_char n)" "prvucMBCHAR2BIN (hex_char n) = n"
    "hex_char n \<noteq> ASCII_COLON" "hex_char n \<noteq> MB_ASCII_DEFAULT_CR"
  using nibble_all assms by (auto simp: list_all_iff dest!: bspec [of _ _ "unat n"])

lemma byte_nibbles:
  "unat (drop_bit 4 b) < 16" "unat (b AND 0x0F) < 16" "push_bit 4 (drop_bit 4 b) OR (b AND 0x0F) = b" for b :: u8
proof -
  have m: "(0x0F :: u8) = mask 4" by (simp add: mask_eq_exp_minus_1)
  have "unat b < 256" by (rule less_le_trans [OF unsigned_less]) simp
  then have "unat b div 16 < 16" by (simp add: less_mult_imp_div_less)
  then show "unat (drop_bit 4 b) < 16" by (simp add: unat_div drop_bit_eq_div)
  show "unat (b AND 0x0F) < 16" unfolding m
    by (simp add: take_bit_eq_mask [symmetric] take_bit_eq_mod unat_mod)
  show "push_bit 4 (drop_bit 4 b) OR (b AND 0x0F) = b"
    unfolding m by (rule bit_word_eqI) (auto simp: bit_or_iff bit_push_bit_iff bit_drop_bit_eq bit_and_iff bit_mask_iff)
qed

lemma lrc_append: "prvucMBLRC (xs @ [prvucMBLRC xs]) = 0"
  by (simp add: prvucMBLRC_def)

section \<open>Receiving\<close>

lemma ascii_receive_append: "ascii_receive (xs @ ys) s = do { s1 \<leftarrow> ascii_receive xs s; ascii_receive ys s1 }"
  by (induction xs arbitrary: s) (auto split: bind_splits)

lemma ascii_receive_pair:
  assumes "a_snd s = ASCII_TX_IDLE" "a_rcv s = ASCII_RX_RCV" "a_byte s = BYTE_HIGH_NIBBLE"
    and "length (a_buf s) = ASCII_PDU_SIZE_MAX" "a_pos s < ASCII_PDU_SIZE_MAX"
  shows "ascii_receive (hex_pair b) s =
    Some (s\<lparr>a_buf := (a_buf s)[a_pos s := b], a_pos := a_pos s + 1, a_timer_on := True\<rparr>)"
  using assms nibble [OF byte_nibbles(1)] nibble [OF byte_nibbles(2)] byte_nibbles(3) [of b]
  by (simp add: hex_pair_def xMBASCIIReceiveFSM_def ascii_port Let_def)

lemma ascii_receive_pairs:
  assumes "a_snd s = ASCII_TX_IDLE" "a_rcv s = ASCII_RX_RCV" "a_byte s = BYTE_HIGH_NIBBLE"
    and "length (a_buf s) = ASCII_PDU_SIZE_MAX" "a_pos s + length bs \<le> ASCII_PDU_SIZE_MAX"
  shows "ascii_receive (concat (map hex_pair bs)) s =
    Some (s\<lparr>a_buf := take (a_pos s) (a_buf s) @ bs @ drop (a_pos s + length bs) (a_buf s),
            a_pos := a_pos s + length bs, a_timer_on := (a_timer_on s \<or> bs \<noteq> [])\<rparr>)"
  using assms
proof (induction bs arbitrary: s)
  case (Cons b bs)
  let ?s = "s\<lparr>a_buf := (a_buf s)[a_pos s := b], a_pos := a_pos s + 1, a_timer_on := True\<rparr>"
  have "ascii_receive (hex_pair b) s = Some ?s" using Cons.prems by (intro ascii_receive_pair) simp_all
  moreover have "ascii_receive (concat (map hex_pair bs)) ?s =
    Some (?s\<lparr>a_buf := take (a_pos ?s) (a_buf ?s) @ bs @ drop (a_pos ?s + length bs) (a_buf ?s),
            a_pos := a_pos ?s + length bs, a_timer_on := (a_timer_on ?s \<or> bs \<noteq> [])\<rparr>)"
    by (rule Cons.IH) (use Cons.prems in simp_all)
  ultimately show ?case using Cons.prems by (simp add: ascii_receive_append take_Suc_conv_app_nth)
qed simp

definition ascii_idle :: "mb_ascii \<Rightarrow> bool" where
  "ascii_idle s \<longleftrightarrow> a_snd s = ASCII_TX_IDLE \<and> a_rcv s = ASCII_RX_IDLE \<and> length (a_buf s) = ASCII_PDU_SIZE_MAX \<and>
     a_lf s = MB_ASCII_DEFAULT_LF"

lemma ascii_receive_line:
  assumes "ascii_idle s" "length bs \<le> ASCII_PDU_SIZE_MAX"
  shows "ascii_receive (ASCII_COLON # concat (map hex_pair bs) @ [MB_ASCII_DEFAULT_CR, MB_ASCII_DEFAULT_LF]) s =
    Some (s\<lparr>a_buf := bs @ drop (length bs) (a_buf s), a_pos := length bs, a_byte := BYTE_HIGH_NIBBLE,
      a_timer_on := False, a_events := insert EV_FRAME_RECEIVED (a_events s)\<rparr>)"
proof -
  have s: "a_snd s = ASCII_TX_IDLE" "a_rcv s = ASCII_RX_IDLE" "length (a_buf s) = 256" "a_lf s = 10"
    using assms(1) by (auto simp: ascii_idle_def ascii_sizes ascii_chars)
  let ?s = "ascii_restart s"
  have "ascii_receive (concat (map hex_pair bs)) ?s =
    Some (?s\<lparr>a_buf := take (a_pos ?s) (a_buf ?s) @ bs @ drop (a_pos ?s + length bs) (a_buf ?s),
            a_pos := a_pos ?s + length bs, a_timer_on := (a_timer_on ?s \<or> bs \<noteq> [])\<rparr>)"
    by (rule ascii_receive_pairs) (use s assms(2) in \<open>simp_all add: ascii_restart_def ascii_port ascii_sizes\<close>)
  then show ?thesis
    using s by (simp add: ascii_receive_append xMBASCIIReceiveFSM_def ascii_restart_def ascii_port ascii_chars Let_def)
qed

lemma ascii_accepts:
  assumes "ascii_idle s" "pdu \<noteq> []" "length pdu + 2 < ASCII_PDU_SIZE_MAX"
  shows "\<exists>s'. ascii_receive (ascii_frame a pdu) s = Some s' \<and> ascii_idle s' \<and> EV_FRAME_RECEIVED \<in> a_events s' \<and>
    \<not> a_timer_on s' \<and> eMBASCIIReceive s' = Some (Some (a, 1, length pdu)) \<and> take (length pdu) (drop 1 (a_buf s')) = pdu \<and>
    a_tx s' = a_tx s"
proof -
  let ?bs = "a # pdu @ [prvucMBLRC (a # pdu)]"
  let ?s = "s\<lparr>a_buf := ?bs @ drop (length ?bs) (a_buf s), a_pos := length ?bs, a_byte := BYTE_HIGH_NIBBLE,
      a_timer_on := False, a_events := insert EV_FRAME_RECEIVED (a_events s)\<rparr>"
  have run: "ascii_receive (ascii_frame a pdu) s = Some ?s"
    unfolding ascii_frame_def Let_def by (rule ascii_receive_line [OF assms(1)]) (use assms(3) in simp)
  obtain x xs where "pdu = x # xs" using assms(2) by (cases pdu) auto
  then have "eMBASCIIReceive ?s = Some (Some (a, 1, length pdu))"
    using assms lrc_append [of "a # pdu"] by (simp add: eMBASCIIReceive_def ascii_sizes mem_read_def)
  moreover have "ascii_idle ?s" using assms(1,3) by (auto simp: ascii_idle_def)
  ultimately show ?thesis using run by simp
qed

section \<open>Sending\<close>

lemma eMBASCIISend_spec:
  assumes "ascii_idle s" "length pdu + 2 \<le> ASCII_PDU_SIZE_MAX" "take (length pdu) (drop 1 (a_buf s)) = pdu"
  shows "\<exists>b. eMBASCIISend a 1 (length pdu) s = Some (MB_ENOERR, s\<lparr>a_buf := b, a_cur := 0, a_cnt := length pdu + 2,
      a_snd := ASCII_TX_START, a_rx_on := False, a_tx_on := True\<rparr>) \<and>
    length b = ASCII_PDU_SIZE_MAX \<and> take (length pdu + 2) b = a # pdu @ [prvucMBLRC (a # pdu)]"
proof -
  have s: "a_rcv s = ASCII_RX_IDLE" "length (a_buf s) = 256" "length pdu + 2 \<le> 256"
    using assms by (auto simp: ascii_idle_def ascii_sizes)
  obtain x xs where x: "a_buf s = x # xs" using s by (cases "a_buf s") auto
  have p: "take (length pdu) xs = pdu" using assms(3) x by simp
  let ?b1 = "a # xs" and ?n = "length pdu"
  let ?b = "?b1[Suc ?n := prvucMBLRC (a # pdu)]"
  have "eMBASCIISend a 1 ?n s = Some (MB_ENOERR, s\<lparr>a_buf := ?b, a_cur := 0, a_cnt := ?n + 2,
      a_snd := ASCII_TX_START, a_rx_on := False, a_tx_on := True\<rparr>)"
    using s x p by (simp add: eMBASCIISend_def mem_write_def ascii_port nat_add_distrib)
  moreover have "length ?b = ASCII_PDU_SIZE_MAX" using s x by (simp add: ascii_sizes)
  moreover have "take (?n + 2) ?b = a # pdu @ [prvucMBLRC (a # pdu)]"
    using s x p by (simp add: take_Suc_conv_app_nth)
  ultimately show ?thesis by blast
qed

lemma ascii_transmit_add: "ascii_transmit (m + n) s = do { s1 \<leftarrow> ascii_transmit m s; ascii_transmit n s1 }"
  by (induction m arbitrary: s) (auto split: bind_splits)

lemma ascii_transmit_pairs:
  assumes "a_rcv s = ASCII_RX_IDLE" "a_snd s = ASCII_TX_DATA" "a_byte s = BYTE_HIGH_NIBBLE"
    and "a_cur s + a_cnt s \<le> length (a_buf s)"
  shows "ascii_transmit (2 * a_cnt s) s = Some (s\<lparr>a_tx := a_tx s @ concat (map hex_pair (take (a_cnt s) (drop (a_cur s) (a_buf s)))),
    a_cur := a_cur s + a_cnt s, a_cnt := 0\<rparr>)"
  using assms
proof (induction "a_cnt s" arbitrary: s)
  case (Suc n)
  let ?x = "a_buf s ! a_cur s"
  let ?s = "s\<lparr>a_tx := a_tx s @ hex_pair ?x, a_cur := a_cur s + 1, a_cnt := n\<rparr>"
  have lt: "a_cur s < length (a_buf s)" using Suc.prems(4) Suc.hyps(2) by simp
  have cnt: "a_cnt s = Suc n" using Suc.hyps(2) by simp
  have "ascii_transmit 2 s = Some ?s"
    using Suc.prems lt cnt nibble [OF byte_nibbles(1)] nibble [OF byte_nibbles(2)]
    by (simp add: numeral_2_eq_2 xMBASCIITransmitFSM_def ascii_port hex_pair_def)
  moreover have "ascii_transmit (2 * a_cnt ?s) ?s = Some (?s\<lparr>a_tx := a_tx ?s @ concat (map hex_pair (take (a_cnt ?s) (drop (a_cur ?s) (a_buf ?s)))),
    a_cur := a_cur ?s + a_cnt ?s, a_cnt := 0\<rparr>)"
    by (rule Suc.hyps(1)) (use Suc.prems cnt in simp_all)
  moreover have "drop (a_cur s) (a_buf s) = ?x # drop (Suc (a_cur s)) (a_buf s)" using lt by (simp add: Cons_nth_drop_Suc)
  ultimately show ?case using ascii_transmit_add [of 2 "2 * n" s] by (simp add: cnt)
qed simp

lemma ascii_sends:
  assumes "ascii_idle s" "length pdu + 2 \<le> ASCII_PDU_SIZE_MAX" "take (length pdu) (drop 1 (a_buf s)) = pdu"
  shows "\<exists>s1 s2. eMBASCIISend a 1 (length pdu) s = Some (MB_ENOERR, s1) \<and>
    ascii_transmit (2 * (length pdu + 2) + 4) s1 = Some s2 \<and> a_tx s2 = a_tx s @ ascii_frame a pdu \<and>
    ascii_idle s2 \<and> EV_FRAME_SENT \<in> a_events s2 \<and> a_rx_on s2 \<and> \<not> a_tx_on s2"
proof -
  obtain b where b: "eMBASCIISend a 1 (length pdu) s = Some (MB_ENOERR, s\<lparr>a_buf := b, a_cur := 0, a_cnt := length pdu + 2,
      a_snd := ASCII_TX_START, a_rx_on := False, a_tx_on := True\<rparr>)"
    "length b = ASCII_PDU_SIZE_MAX" "take (length pdu + 2) b = a # pdu @ [prvucMBLRC (a # pdu)]"
    using eMBASCIISend_spec [OF assms] by blast
  have s: "a_rcv s = ASCII_RX_IDLE" "a_lf s = MB_ASCII_DEFAULT_LF" using assms(1) by (auto simp: ascii_idle_def)
  let ?n = "length pdu + 2"
  define s1 where "s1 = s\<lparr>a_buf := b, a_cur := 0, a_cnt := ?n, a_snd := ASCII_TX_START, a_rx_on := False, a_tx_on := True\<rparr>"
  define s2 where "s2 = s1\<lparr>a_snd := ASCII_TX_DATA, a_byte := BYTE_HIGH_NIBBLE, a_tx := a_tx s @ [ASCII_COLON]\<rparr>"
  define s3 where "s3 = s2\<lparr>a_tx := a_tx s2 @ concat (map hex_pair (take ?n b)), a_cur := ?n, a_cnt := 0\<rparr>"
  have 1: "ascii_transmit 1 s1 = Some s2" using s by (simp add: s1_def s2_def xMBASCIITransmitFSM_def ascii_port)
  have 2: "ascii_transmit (2 * ?n) s2 = Some s3"
    using ascii_transmit_pairs [of s2] s assms(2) b(2) by (simp add: s3_def s2_def s1_def)
  have 3: "ascii_transmit 3 s3 = Some (s3\<lparr>a_snd := ASCII_TX_IDLE, a_tx := a_tx s3 @ [MB_ASCII_DEFAULT_CR, MB_ASCII_DEFAULT_LF],
      a_rx_on := True, a_tx_on := False, a_events := insert EV_FRAME_SENT (a_events s3)\<rparr>)"
    using s by (simp add: numeral_3_eq_3 s3_def s2_def s1_def xMBASCIITransmitFSM_def ascii_port)
  have "2 * ?n + 4 = 1 + (2 * ?n + 3)" by simp
  then have run: "ascii_transmit (2 * ?n + 4) s1 = Some (s3\<lparr>a_snd := ASCII_TX_IDLE, a_tx := a_tx s3 @ [MB_ASCII_DEFAULT_CR, MB_ASCII_DEFAULT_LF],
      a_rx_on := True, a_tx_on := False, a_events := insert EV_FRAME_SENT (a_events s3)\<rparr>)"
    using 1 2 3 by (simp only: ascii_transmit_add bind.bind_lunit)
  show ?thesis
    by (rule exI, rule exI, intro conjI, rule b(1) [folded s1_def], rule run)
      (use b(2,3) s in \<open>simp_all add: s3_def s2_def s1_def ascii_frame_def ascii_idle_def Let_def\<close>)
qed

section \<open>Deviations\<close>

text \<open>A frame that fills the buffer is received and announced, and then fails the assertion about its length.\<close>

lemma full_frame_asserts:
  assumes "ascii_idle s" "length bs = ASCII_PDU_SIZE_MAX"
  shows "\<exists>s'. ascii_receive (ASCII_COLON # concat (map hex_pair bs) @ [MB_ASCII_DEFAULT_CR, MB_ASCII_DEFAULT_LF]) s = Some s' \<and>
    EV_FRAME_RECEIVED \<in> a_events s' \<and> eMBASCIIReceive s' = None"
  using ascii_receive_line [OF assms(1), of bs] assms(2) by (simp add: eMBASCIIReceive_def)

text \<open>A character between CR and LF drops the frame but leaves the timer running, whose expiry then fails
  the assertion about the receiver's state.\<close>

lemma stray_character_asserts:
  assumes "ascii_idle s" "c \<noteq> MB_ASCII_DEFAULT_LF" "c \<noteq> ASCII_COLON"
  shows "\<exists>s'. ascii_receive [ASCII_COLON, MB_ASCII_DEFAULT_CR, c] s = Some s' \<and> a_timer_on s' \<and>
    xMBASCIITimerT1SExpired s' = None"
proof -
  have cr: "MB_ASCII_DEFAULT_CR \<noteq> ASCII_COLON" by (simp add: ascii_chars)
  show ?thesis
    using assms cr by (simp add: ascii_idle_def xMBASCIIReceiveFSM_def ascii_restart_def ascii_port xMBASCIITimerT1SExpired_def Let_def)
qed

text \<open>A character that is no digit of the protocol counts as \<open>F\<close>, the small letters as well.\<close>

lemma bad_digit_is_accepted: "prvucMBCHAR2BIN 97 = 0xFF" "push_bit 4 (0xFF :: u8) OR prvucMBCHAR2BIN 48 = 0xF0"
  by code_simp+

end
