(* ===== verification/MbModes.thy ===== *)
theory MbModes
  imports MbAscii
begin

text \<open>
  What the Modbus stack expects of a transmission mode, whichever it is: frames that one station sends
  are what another accepts. The contract is stated as a locale for receiving, extended by sending, and
  both modes of the slave are instances of it.
\<close>

section \<open>The contract\<close>

text \<open>Frames delivered one after the other to one station, and what it accepted.\<close>

fun session :: "(u8 \<Rightarrow> u8 list \<Rightarrow> u8 list) \<Rightarrow> (u8 list \<Rightarrow> 's \<Rightarrow> 's option) \<Rightarrow> ('s \<Rightarrow> (u8 \<times> u8 list) option option) \<Rightarrow>
    (u8 \<times> u8 list) list \<Rightarrow> 's \<Rightarrow> ((u8 \<times> u8 list) list \<times> 's) option" where
  "session frame deliver accepted [] s = Some ([], s)"
| "session frame deliver accepted ((a, pdu) # xs) s = do {
     s1 \<leftarrow> deliver (frame a pdu) s;
     r \<leftarrow> accepted s1;
     (rs, s2) \<leftarrow> session frame deliver accepted xs s1;
     Some (case r of None \<Rightarrow> rs | Some x \<Rightarrow> x # rs, s2) }"

text \<open>Two stations that send to each other; the flag says which of them sends.\<close>

fun talk :: "(u8 \<Rightarrow> u8 list \<Rightarrow> 's \<Rightarrow> (u8 list \<times> 's) option) \<Rightarrow> (u8 list \<Rightarrow> 's \<Rightarrow> 's option) \<Rightarrow>
    ('s \<Rightarrow> (u8 \<times> u8 list) option option) \<Rightarrow> (bool \<times> u8 \<times> u8 list) list \<Rightarrow> 's \<times> 's \<Rightarrow>
    ((u8 \<times> u8 list) list \<times> 's \<times> 's) option" where
  "talk send deliver accepted [] st = Some ([], st)"
| "talk send deliver accepted ((first, a, pdu) # xs) (s, t) = do {
     (bs, s1) \<leftarrow> send a pdu (if first then s else t);
     t1 \<leftarrow> deliver bs (if first then t else s);
     r \<leftarrow> accepted t1;
     (rs, st) \<leftarrow> talk send deliver accepted xs (if first then (s1, t1) else (t1, s1));
     Some (case r of None \<Rightarrow> rs | Some x \<Rightarrow> x # rs, st) }"

locale receiving_mode =
  fixes quiet :: "'s \<Rightarrow> bool" and frame :: "u8 \<Rightarrow> u8 list \<Rightarrow> u8 list" and deliver :: "u8 list \<Rightarrow> 's \<Rightarrow> 's option"
    and accepted :: "'s \<Rightarrow> (u8 \<times> u8 list) option option" and fits :: "u8 list \<Rightarrow> bool"
  assumes accepts: "quiet s \<Longrightarrow> fits pdu \<Longrightarrow>
    \<exists>s'. deliver (frame a pdu) s = Some s' \<and> quiet s' \<and> accepted s' = Some (Some (a, pdu))"
begin

lemma session_delivers:
  "quiet s \<Longrightarrow> \<forall>x\<in>set xs. fits (snd x) \<Longrightarrow> \<exists>s'. session frame deliver accepted xs s = Some (xs, s') \<and> quiet s'"
proof (induction xs arbitrary: s)
  case (Cons x xs)
  obtain a pdu where x: "x = (a, pdu)" by (cases x)
  obtain s1 where s1: "deliver (frame a pdu) s = Some s1" "quiet s1" "accepted s1 = Some (Some (a, pdu))"
    using accepts [OF Cons.prems(1), of pdu a] Cons.prems(2) x by auto
  then show ?case using Cons.IH [OF s1(2)] Cons.prems(2) x by auto
qed simp

lemma frame_determines: "quiet s \<Longrightarrow> fits p \<Longrightarrow> fits q \<Longrightarrow> frame a p = frame b q \<Longrightarrow> a = b \<and> p = q"
  using accepts [of s p a] accepts [of s q b] by auto

end

locale half_duplex_mode = receiving_mode +
  fixes send :: "u8 \<Rightarrow> u8 list \<Rightarrow> 'a \<Rightarrow> (u8 list \<times> 'a) option"
  assumes sends: "quiet s \<Longrightarrow> fits pdu \<Longrightarrow> \<exists>s'. send a pdu s = Some (frame a pdu, s') \<and> quiet s'"
begin

lemma talk_delivers:
  "quiet s \<Longrightarrow> quiet t \<Longrightarrow> \<forall>x\<in>set xs. fits (snd (snd x)) \<Longrightarrow>
    \<exists>s' t'. talk send deliver accepted xs (s, t) = Some (map snd xs, s', t') \<and> quiet s' \<and> quiet t'"
proof (induction xs arbitrary: s t)
  case (Cons x xs)
  obtain first a pdu where x: "x = (first, a, pdu)" by (cases x) auto
  let ?s = "if first then s else t" and ?t = "if first then t else s"
  have q: "quiet ?s" "quiet ?t" "fits pdu" using Cons.prems x by auto
  obtain s1 where s1: "send a pdu ?s = Some (frame a pdu, s1)" "quiet s1" using sends [OF q(1,3)] by blast
  obtain t1 where t1: "deliver (frame a pdu) ?t = Some t1" "quiet t1" "accepted t1 = Some (Some (a, pdu))"
    using accepts [OF q(2,3)] by blast
  then show ?case
    using s1 Cons.IH [OF s1(2) t1(2)] Cons.IH [OF t1(2) s1(2)] Cons.prems(3) x by (cases first) auto
qed simp

end

section \<open>The modes of the slave\<close>

definition pdu_fits :: "u8 list \<Rightarrow> bool" where "pdu_fits pdu \<longleftrightarrow> pdu \<noteq> [] \<and> length pdu \<le> 253"

text \<open>A received frame: its characters and the pause behind it; in the ASCII mode the line end.\<close>

definition rtu_deliver :: "u8 list \<Rightarrow> mb_slave \<Rightarrow> mb_slave option" where
  "rtu_deliver bs s = do { s1 \<leftarrow> receive_bytes bs s; xMBRTUTimerT35Expired s1 }"

definition rtu_accepted :: "mb_slave \<Rightarrow> (u8 \<times> u8 list) option option" where
  "rtu_accepted s = map_option (map_option (\<lambda>(a, off, n). (a, take n (drop off (s_buf s))))) (eMBRTUReceive s)"

definition ascii_accepted :: "mb_ascii \<Rightarrow> (u8 \<times> u8 list) option option" where
  "ascii_accepted s = map_option (map_option (\<lambda>(a, off, n). (a, take n (drop off (a_buf s))))) (eMBASCIIReceive s)"

text \<open>A reply: the PDU is in the buffer behind the place of the address, and the transmitter runs to its end.\<close>

definition rtu_send :: "u8 \<Rightarrow> u8 list \<Rightarrow> mb_slave \<Rightarrow> (u8 list \<times> mb_slave) option" where
  "rtu_send a pdu s = do {
     let s0 = s\<lparr>s_buf := take 1 (s_buf s) @ pdu @ drop (Suc (length pdu)) (s_buf s)\<rparr>;
     (e, s1) \<leftarrow> eMBRTUSend a 1 (length pdu) s0;
     s2 \<leftarrow> transmit_bytes (Suc (s_cnt s1)) s1;
     Some (drop (length (s_tx s)) (s_tx s2), s2) }"

definition ascii_send :: "u8 \<Rightarrow> u8 list \<Rightarrow> mb_ascii \<Rightarrow> (u8 list \<times> mb_ascii) option" where
  "ascii_send a pdu s = do {
     let s0 = s\<lparr>a_buf := take 1 (a_buf s) @ pdu @ drop (Suc (length pdu)) (a_buf s)\<rparr>;
     (e, s1) \<leftarrow> eMBASCIISend a 1 (length pdu) s0;
     s2 \<leftarrow> ascii_transmit (2 * a_cnt s1 + 4) s1;
     Some (drop (length (a_tx s)) (a_tx s2), s2) }"

lemma rtu_deliver_frame:
  assumes "line_idle s" "pdu_fits pdu"
  shows "\<exists>s'. rtu_deliver (rtu_frame a pdu) s = Some s' \<and> line_idle s' \<and> rtu_accepted s' = Some (Some (a, pdu))"
proof -
  let ?f = "rtu_frame a pdu"
  let ?s = "s\<lparr>s_buf := ?f @ drop (length ?f) (s_buf s), s_pos := length ?f, s_rcv := STATE_RX_IDLE,
            s_timer_on := False, s_events := insert EV_FRAME_RECEIVED (s_events s)\<rparr>"
  have l: "length ?f \<le> MB_SER_PDU_SIZE_MAX" "?f \<noteq> []" "pdu \<noteq> []"
    using assms(2) by (auto simp: pdu_fits_def ser_sizes rtu_frame_def Let_def)
  have run: "rtu_deliver ?f s = Some ?s" unfolding rtu_deliver_def by (rule receive_frame [OF assms(1) l(2,1)])
  have idle: "line_idle ?s" using assms(1) l(1) by (auto simp: line_idle_def)
  have "eMBRTUReceive ?s = Some (Some (a, 1, length pdu))" "take (length pdu) (drop 1 (s_buf ?s)) = pdu"
    using eMBRTUReceive_frame [of ?s a pdu] idle l(3) by (simp_all add: line_idle_def)
  then show ?thesis using run idle by (simp add: rtu_accepted_def)
qed

lemma rtu_send_frame:
  assumes "line_idle s" "pdu_fits pdu"
  shows "\<exists>s'. rtu_send a pdu s = Some (rtu_frame a pdu, s') \<and> line_idle s'"
proof -
  let ?n = "length pdu"
  let ?s0 = "s\<lparr>s_buf := take 1 (s_buf s) @ pdu @ drop (Suc ?n) (s_buf s)\<rparr>"
  have n: "?n + 3 \<le> MB_SER_PDU_SIZE_MAX" using assms(2) by (simp add: pdu_fits_def ser_sizes)
  have l: "length (s_buf ?s0) = MB_SER_PDU_SIZE_MAX" using assms(1) n by (simp add: line_idle_def ser_sizes)
  have p: "take ?n (drop 1 (s_buf ?s0)) = pdu" using assms(1) by (simp add: line_idle_def ser_sizes)
  let ?s1 = "?s0\<lparr>s_buf := rtu_frame a pdu @ drop (?n + 3) (s_buf ?s0),
    s_cur := 0, s_cnt := ?n + 3, s_snd := STATE_TX_XMIT, s_rx_on := False, s_tx_on := True\<rparr>"
  have 1: "eMBRTUSend a 1 ?n ?s0 = Some (MB_ENOERR, ?s1)"
    using assms(1) by (intro eMBRTUSend_spec n l p) (simp_all add: line_idle_def)
  have 2: "transmit_bytes (Suc (s_cnt ?s1)) ?s1 =
    Some (?s1\<lparr>s_tx := s_tx ?s1 @ take (s_cnt ?s1) (drop (s_cur ?s1) (s_buf ?s1)), s_cur := s_cur ?s1 + s_cnt ?s1,
            s_cnt := 0, s_snd := STATE_TX_IDLE, s_rx_on := True, s_tx_on := False,
            s_events := insert EV_FRAME_SENT (s_events ?s1)\<rparr>)"
    using assms(1) by (intro transmit_bytes_spec) (simp_all add: line_idle_def)
  have "rtu_send a pdu s = Some (rtu_frame a pdu, ?s1\<lparr>s_tx := s_tx ?s1 @ take (s_cnt ?s1) (drop (s_cur ?s1) (s_buf ?s1)),
            s_cur := s_cur ?s1 + s_cnt ?s1, s_cnt := 0, s_snd := STATE_TX_IDLE, s_rx_on := True, s_tx_on := False,
            s_events := insert EV_FRAME_SENT (s_events ?s1)\<rparr>)"
    unfolding rtu_send_def Let_def 1 bind.bind_lunit case_prod_conv 2 by simp
  then show ?thesis using assms(1) n l by (auto simp: line_idle_def ser_sizes)
qed

lemma ascii_deliver_frame:
  assumes "ascii_idle s" "pdu_fits pdu"
  shows "\<exists>s'. ascii_receive (ascii_frame a pdu) s = Some s' \<and> ascii_idle s' \<and> ascii_accepted s' = Some (Some (a, pdu))"
  using ascii_accepts [OF assms(1), of pdu a] assms(2) by (auto simp: pdu_fits_def ascii_sizes ascii_accepted_def)

lemma ascii_send_frame:
  assumes "ascii_idle s" "pdu_fits pdu"
  shows "\<exists>s'. ascii_send a pdu s = Some (ascii_frame a pdu, s') \<and> ascii_idle s'"
proof -
  let ?n = "length pdu"
  let ?s0 = "s\<lparr>a_buf := take 1 (a_buf s) @ pdu @ drop (Suc ?n) (a_buf s)\<rparr>"
  have n: "?n + 2 \<le> ASCII_PDU_SIZE_MAX" using assms(2) by (simp add: pdu_fits_def ascii_sizes)
  have i: "ascii_idle ?s0" using assms(1) n by (auto simp: ascii_idle_def ascii_sizes)
  have p: "take ?n (drop 1 (a_buf ?s0)) = pdu" using assms(1) by (simp add: ascii_idle_def ascii_sizes)
  obtain s1 s2 where s: "eMBASCIISend a 1 ?n ?s0 = Some (MB_ENOERR, s1)" "ascii_transmit (2 * (?n + 2) + 4) s1 = Some s2"
    "a_tx s2 = a_tx ?s0 @ ascii_frame a pdu" "ascii_idle s2"
    using ascii_sends [OF i n p] by blast
  moreover have "a_cnt s1 = ?n + 2" using eMBASCIISend_spec [OF i n p, of a] s(1) by auto
  ultimately show ?thesis by (simp add: ascii_send_def Let_def)
qed

interpretation rtu_mode: half_duplex_mode line_idle rtu_frame rtu_deliver rtu_accepted pdu_fits rtu_send
  by unfold_locales (rule rtu_deliver_frame rtu_send_frame; assumption)+

interpretation ascii_mode: half_duplex_mode ascii_idle ascii_frame ascii_receive ascii_accepted pdu_fits ascii_send
  by unfold_locales (rule ascii_deliver_frame ascii_send_frame; assumption)+

lemmas rtu_talk = rtu_mode.talk_delivers
lemmas ascii_talk = ascii_mode.talk_delivers

end
