(* ===== verification/MbmRtu.thy ===== *)
theory MbmRtu
  imports MbSlave
begin

unbundle bit_operations_syntax

text \<open>
  The state of a Modbus master, its port (components/net/freemodbus/port/portevent_m.c, porttimer_m.c)
  and the RTU mode of the master (modbus/rtu/mbrtu_m.c). The master sends from one buffer and receives
  into another. \<open>None\<close> is a failed assertion or an access outside a buffer.
\<close>

section \<open>State\<close>

datatype eMBMasterRcvState = STATE_M_RX_INIT | STATE_M_RX_IDLE | STATE_M_RX_RCV | STATE_M_RX_ERROR

datatype eMBMasterSndState = STATE_M_TX_IDLE | STATE_M_TX_XMIT | STATE_M_TX_XFWR

datatype eMBMasterTimerMode = MB_TMODE_T35 | MB_TMODE_RESPOND_TIMEOUT | MB_TMODE_CONVERT_DELAY

datatype eMBMasterEventType = EV_MASTER_READY | EV_MASTER_FRAME_RECEIVED | EV_MASTER_EXECUTE | EV_MASTER_FRAME_SENT
  | EV_MASTER_ERROR_PROCESS | EV_MASTER_PROCESS_SUCESS | EV_MASTER_ERROR_RESPOND_TIMEOUT
  | EV_MASTER_ERROR_RECEIVE_DATA | EV_MASTER_ERROR_EXECUTE_FUNCTION

datatype eMBMasterErrorEventType = EV_ERROR_RESPOND_TIMEOUT | EV_ERROR_RECEIVE_DATA | EV_ERROR_EXECUTE_FUNCTION

datatype eMBMasterReqErrCode = MB_MRE_NO_ERR | MB_MRE_NO_REG | MB_MRE_ILL_ARG | MB_MRE_REV_DATA | MB_MRE_TIMEDOUT
  | MB_MRE_MASTER_BUSY | MB_MRE_EXE_FUN

text \<open>A pointer to a frame: an offset in the buffer of the sender or of the receiver.\<close>

datatype mframe = In_Snd nat | In_Rcv nat

text \<open>
  \<open>m_res\<close> is the value of the semaphore that serialises the requests, \<open>m_events\<close> the pending events,
  the internal ones and the results. The tables have a row for every slave.
\<close>

record mb_master =
  m_snd :: eMBMasterSndState
  m_rcv :: eMBMasterRcvState
  m_sndbuf :: "u8 list"
  m_rcvbuf :: "u8 list"
  m_sndlen :: nat
  m_cur :: nat
  m_cnt :: nat
  m_pos :: nat
  m_broadcast :: bool
  m_tmode :: eMBMasterTimerMode
  m_timer_on :: bool
  m_tx :: "u8 list"
  m_rx_on :: bool
  m_tx_on :: bool
  m_events :: "eMBMasterEventType set"
  m_res :: nat
  m_dest :: u8
  m_err :: eMBMasterErrorEventType
  m_state :: eMBState
  m_mode :: bool
  m_frame :: "mframe option"
  m_rcvaddr :: u8
  m_len :: nat
  m_hold :: "u16 list list"
  m_inp :: "u16 list list"
  m_coil :: "u8 list list"
  m_disc :: "u8 list list"
  m_id :: "u8 list"
  m_idlen :: nat

definition MB_PDU_SIZE_MAX :: nat where "MB_PDU_SIZE_MAX = 253"
definition MB_MASTER_TOTAL_SLAVE_NUM :: nat where "MB_MASTER_TOTAL_SLAVE_NUM = 16"

lemmas master_sizes = MB_PDU_SIZE_MAX_def MB_MASTER_TOTAL_SLAVE_NUM_def

definition mwr :: "nat \<Rightarrow> u8 \<Rightarrow> mb_master \<Rightarrow> mb_master option" where
  "mwr p b s = map_option (\<lambda>m. s\<lparr>m_sndbuf := m\<rparr>) (mem_write (m_sndbuf s) (int p) b)"

definition mrd :: "nat \<Rightarrow> mb_master \<Rightarrow> u8 option" where
  "mrd p s = mem_read (m_sndbuf s) (int p)"

section \<open>The port\<close>

definition vMBMasterPortSerialEnable :: "bool \<Rightarrow> bool \<Rightarrow> mb_master \<Rightarrow> mb_master" where
  "vMBMasterPortSerialEnable rx tx s = s\<lparr>m_rx_on := rx, m_tx_on := tx\<rparr>"

definition vMBMasterPortTimersT35Enable :: "mb_master \<Rightarrow> mb_master" where
  "vMBMasterPortTimersT35Enable s = s\<lparr>m_tmode := MB_TMODE_T35, m_timer_on := True\<rparr>"

definition vMBMasterPortTimersConvertDelayEnable :: "mb_master \<Rightarrow> mb_master" where
  "vMBMasterPortTimersConvertDelayEnable s = s\<lparr>m_tmode := MB_TMODE_CONVERT_DELAY, m_timer_on := True\<rparr>"

definition vMBMasterPortTimersRespondTimeoutEnable :: "mb_master \<Rightarrow> mb_master" where
  "vMBMasterPortTimersRespondTimeoutEnable s = s\<lparr>m_tmode := MB_TMODE_RESPOND_TIMEOUT, m_timer_on := True\<rparr>"

definition vMBMasterPortTimersDisable :: "mb_master \<Rightarrow> mb_master" where
  "vMBMasterPortTimersDisable s = s\<lparr>m_timer_on := False\<rparr>"

definition xMBMasterPortEventPost :: "eMBMasterEventType \<Rightarrow> mb_master \<Rightarrow> mb_master" where
  "xMBMasterPortEventPost e s = s\<lparr>m_events := insert e (m_events s)\<rparr>"

definition xMBMasterPortSerialPutByte :: "u8 \<Rightarrow> mb_master \<Rightarrow> mb_master" where
  "xMBMasterPortSerialPutByte b s = s\<lparr>m_tx := m_tx s @ [b]\<rparr>"

lemmas master_port = vMBMasterPortSerialEnable_def vMBMasterPortTimersT35Enable_def
  vMBMasterPortTimersConvertDelayEnable_def vMBMasterPortTimersRespondTimeoutEnable_def
  vMBMasterPortTimersDisable_def xMBMasterPortEventPost_def xMBMasterPortSerialPutByte_def

text \<open>
  The internal events that are pending are taken together; the event is assigned only when there was
  exactly one. \<open>None\<close> waits.
\<close>

definition internal_events :: "eMBMasterEventType set" where
  "internal_events = {EV_MASTER_READY, EV_MASTER_FRAME_RECEIVED, EV_MASTER_EXECUTE, EV_MASTER_FRAME_SENT,
     EV_MASTER_ERROR_PROCESS}"

definition xMBMasterPortEventGet :: "mb_master \<Rightarrow> (eMBMasterEventType option \<times> mb_master) option" where
  "xMBMasterPortEventGet s =
     (let evs = m_events s \<inter> internal_events; s1 = s\<lparr>m_events := m_events s - internal_events\<rparr> in
      if evs = {} then None
      else Some (if evs = {EV_MASTER_READY} then Some EV_MASTER_READY
                 else if evs = {EV_MASTER_FRAME_RECEIVED} then Some EV_MASTER_FRAME_RECEIVED
                 else if evs = {EV_MASTER_EXECUTE} then Some EV_MASTER_EXECUTE
                 else if evs = {EV_MASTER_FRAME_SENT} then Some EV_MASTER_FRAME_SENT
                 else if evs = {EV_MASTER_ERROR_PROCESS} then Some EV_MASTER_ERROR_PROCESS
                 else None, s1))"

definition vMBMasterOsResInit :: "mb_master \<Rightarrow> mb_master" where
  "vMBMasterOsResInit s = s\<lparr>m_res := 1\<rparr>"

text \<open>
  The call at the moment it ends: the resource is there, or the time to wait for it is over.
\<close>

definition xMBMasterRunResTake :: "mb_master \<Rightarrow> bool \<times> mb_master" where
  "xMBMasterRunResTake s = (if 0 < m_res s then (True, s\<lparr>m_res := m_res s - 1\<rparr>) else (False, s))"

definition vMBMasterRunResRelease :: "mb_master \<Rightarrow> mb_master" where
  "vMBMasterRunResRelease s = s\<lparr>m_res := m_res s + 1\<rparr>"

definition vMBMasterErrorCBRespondTimeout :: "mb_master \<Rightarrow> mb_master" where
  "vMBMasterErrorCBRespondTimeout = xMBMasterPortEventPost EV_MASTER_ERROR_RESPOND_TIMEOUT"

definition vMBMasterErrorCBReceiveData :: "mb_master \<Rightarrow> mb_master" where
  "vMBMasterErrorCBReceiveData = xMBMasterPortEventPost EV_MASTER_ERROR_RECEIVE_DATA"

definition vMBMasterErrorCBExecuteFunction :: "mb_master \<Rightarrow> mb_master" where
  "vMBMasterErrorCBExecuteFunction = xMBMasterPortEventPost EV_MASTER_ERROR_EXECUTE_FUNCTION"

definition vMBMasterCBRequestScuuess :: "mb_master \<Rightarrow> mb_master" where
  "vMBMasterCBRequestScuuess = xMBMasterPortEventPost EV_MASTER_PROCESS_SUCESS"

lemmas master_res = vMBMasterOsResInit_def xMBMasterRunResTake_def vMBMasterRunResRelease_def
  vMBMasterErrorCBRespondTimeout_def vMBMasterErrorCBReceiveData_def vMBMasterErrorCBExecuteFunction_def
  vMBMasterCBRequestScuuess_def

text \<open>A request waits for its result; results that are pending together count as success.\<close>

definition eMBMasterWaitRequestFinish :: "mb_master \<Rightarrow> (eMBMasterReqErrCode \<times> mb_master) option" where
  "eMBMasterWaitRequestFinish s =
     (let evs = m_events s - internal_events in
      if evs = {} then None
      else Some (if evs = {EV_MASTER_ERROR_RESPOND_TIMEOUT} then MB_MRE_TIMEDOUT
                 else if evs = {EV_MASTER_ERROR_RECEIVE_DATA} then MB_MRE_REV_DATA
                 else if evs = {EV_MASTER_ERROR_EXECUTE_FUNCTION} then MB_MRE_EXE_FUN
                 else MB_MRE_NO_ERR, s\<lparr>m_events := m_events s \<inter> internal_events\<rparr>))"

section \<open>RTU mode\<close>

definition eMBMasterRTUInit :: "bool \<Rightarrow> nat \<Rightarrow> (eMBErrorCode \<times> nat) option" where
  "eMBMasterRTUInit serial_ok ulBaudRate =
     (if \<not> serial_ok then Some (MB_EPORTERR, 0)
      else if ulBaudRate > 19200 then Some (MB_ENOERR, 35)
      else if ulBaudRate = 0 then None
      else Some (MB_ENOERR, trunc_u 16 (int (7 * 220000 div (2 * ulBaudRate)))))"

definition eMBMasterRTUStart :: "mb_master \<Rightarrow> mb_master" where
  "eMBMasterRTUStart s = vMBMasterPortTimersT35Enable (vMBMasterPortSerialEnable True False (s\<lparr>m_rcv := STATE_M_RX_INIT\<rparr>))"

definition eMBMasterRTUStop :: "mb_master \<Rightarrow> mb_master" where
  "eMBMasterRTUStop s = vMBMasterPortTimersDisable (vMBMasterPortSerialEnable False False s)"

definition eMBMasterRTUReceive :: "mb_master \<Rightarrow> (u8 \<times> nat \<times> nat) option option" where
  "eMBMasterRTUReceive s =
     (if m_pos s < MB_SER_PDU_SIZE_MAX \<and> m_pos s \<le> length (m_rcvbuf s)
      then if MB_SER_PDU_SIZE_MIN \<le> m_pos s \<and> usMBCRC16 (take (m_pos s) (m_rcvbuf s)) = 0
           then do { a \<leftarrow> mem_read (m_rcvbuf s) (int MB_SER_PDU_ADDR_OFF);
                     Some (Some (a, MB_SER_PDU_PDU_OFF, m_pos s - MB_SER_PDU_PDU_OFF - MB_SER_PDU_SIZE_CRC)) }
           else Some None
      else None)"

definition eMBMasterRTUSend :: "u8 \<Rightarrow> nat \<Rightarrow> nat \<Rightarrow> mb_master \<Rightarrow> (eMBErrorCode \<times> mb_master) option" where
  "eMBMasterRTUSend ucSlaveAddress f usLength s =
     (if MB_MASTER_TOTAL_SLAVE_NUM < unat ucSlaveAddress then Some (MB_EINVAL, s)
      else if m_rcv s = STATE_M_RX_IDLE
      then if f = 0 then None
           else let cur = f - 1; cnt = (1 + usLength) mod 2 ^ 16 in
                do { s1 \<leftarrow> mwr (cur + MB_SER_PDU_ADDR_OFF) ucSlaveAddress s;
                     crc \<leftarrow> (if cur + cnt \<le> length (m_sndbuf s1)
                            then Some (usMBCRC16 (take cnt (drop cur (m_sndbuf s1)))) else None);
                     s2 \<leftarrow> mwr cnt (ucast (crc AND 0xFF)) s1;
                     s3 \<leftarrow> mwr ((cnt + 1) mod 2 ^ 16) (ucast (drop_bit 8 crc)) s2;
                     Some (MB_ENOERR, vMBMasterPortSerialEnable False True
                             (s3\<lparr>m_cur := cur, m_cnt := (cnt + 2) mod 2 ^ 16, m_snd := STATE_M_TX_XMIT\<rparr>)) }
      else Some (MB_EIO, s))"

definition xMBMasterRTUReceiveFSM :: "u8 \<Rightarrow> mb_master \<Rightarrow> mb_master option" where
  "xMBMasterRTUReceiveFSM ucByte s =
     (if m_snd s = STATE_M_TX_IDLE \<or> m_snd s = STATE_M_TX_XFWR then
        (case m_rcv s of
           STATE_M_RX_INIT \<Rightarrow> Some (vMBMasterPortTimersT35Enable s)
         | STATE_M_RX_ERROR \<Rightarrow> Some (vMBMasterPortTimersT35Enable s)
         | STATE_M_RX_IDLE \<Rightarrow>
             do { b \<leftarrow> mem_write (m_rcvbuf s) 0 ucByte;
                  Some (vMBMasterPortTimersT35Enable ((vMBMasterPortTimersDisable s)
                    \<lparr>m_snd := STATE_M_TX_IDLE, m_rcvbuf := b, m_pos := 1, m_rcv := STATE_M_RX_RCV\<rparr>)) }
         | STATE_M_RX_RCV \<Rightarrow>
             do { s1 \<leftarrow> (if m_pos s < MB_SER_PDU_SIZE_MAX
                        then map_option (\<lambda>b. s\<lparr>m_rcvbuf := b, m_pos := m_pos s + 1\<rparr>)
                               (mem_write (m_rcvbuf s) (int (m_pos s)) ucByte)
                        else Some (s\<lparr>m_rcv := STATE_M_RX_ERROR\<rparr>));
                  Some (vMBMasterPortTimersT35Enable s1) })
      else None)"

definition xMBMasterRTUTransmitFSM :: "mb_master \<Rightarrow> mb_master option" where
  "xMBMasterRTUTransmitFSM s =
     (if m_rcv s = STATE_M_RX_IDLE then
        (case m_snd s of
           STATE_M_TX_IDLE \<Rightarrow> Some (vMBMasterPortSerialEnable True False s)
         | STATE_M_TX_XMIT \<Rightarrow>
             if m_cnt s \<noteq> 0
             then do { b \<leftarrow> mrd (m_cur s) s;
                       Some ((xMBMasterPortSerialPutByte b s)\<lparr>m_cur := m_cur s + 1, m_cnt := m_cnt s - 1\<rparr>) }
             else do { a \<leftarrow> mrd MB_SER_PDU_ADDR_OFF s;
                       let s1 = (vMBMasterPortSerialEnable True False
                                   (s\<lparr>m_broadcast := (a = MB_ADDRESS_BROADCAST)\<rparr>))\<lparr>m_snd := STATE_M_TX_XFWR\<rparr>;
                       Some (if m_broadcast s1 then vMBMasterPortTimersConvertDelayEnable s1
                             else vMBMasterPortTimersRespondTimeoutEnable s1) }
         | STATE_M_TX_XFWR \<Rightarrow> Some s)
      else None)"

definition xMBMasterRTUTimerExpired :: "mb_master \<Rightarrow> mb_master option" where
  "xMBMasterRTUTimerExpired s =
     (let s1 = (case m_rcv s of
                  STATE_M_RX_INIT \<Rightarrow> xMBMasterPortEventPost EV_MASTER_READY s
                | STATE_M_RX_RCV \<Rightarrow> xMBMasterPortEventPost EV_MASTER_FRAME_RECEIVED s
                | STATE_M_RX_ERROR \<Rightarrow> xMBMasterPortEventPost EV_MASTER_ERROR_PROCESS (s\<lparr>m_err := EV_ERROR_RECEIVE_DATA\<rparr>)
                | STATE_M_RX_IDLE \<Rightarrow> s)\<lparr>m_rcv := STATE_M_RX_IDLE\<rparr> in
      do { s2 \<leftarrow> (case m_snd s1 of
                    STATE_M_TX_XFWR \<Rightarrow>
                      Some (if \<not> m_broadcast s1
                            then xMBMasterPortEventPost EV_MASTER_ERROR_PROCESS (s1\<lparr>m_err := EV_ERROR_RESPOND_TIMEOUT\<rparr>)
                            else s1)
                  | STATE_M_TX_IDLE \<Rightarrow> Some s1
                  | STATE_M_TX_XMIT \<Rightarrow> None);
           let s3 = vMBMasterPortTimersDisable (s2\<lparr>m_snd := STATE_M_TX_IDLE\<rparr>);
           Some (if m_tmode s3 = MB_TMODE_CONVERT_DELAY then xMBMasterPortEventPost EV_MASTER_EXECUTE s3 else s3) })"

section \<open>The line\<close>

fun master_receive :: "u8 list \<Rightarrow> mb_master \<Rightarrow> mb_master option" where
  "master_receive [] s = Some s"
| "master_receive (b # bs) s = do { s1 \<leftarrow> xMBMasterRTUReceiveFSM b s; master_receive bs s1 }"

fun master_transmit :: "nat \<Rightarrow> mb_master \<Rightarrow> mb_master option" where
  "master_transmit 0 s = Some s"
| "master_transmit (Suc n) s = do { s1 \<leftarrow> xMBMasterRTUTransmitFSM s; master_transmit n s1 }"

lemma master_receive_more:
  assumes "m_snd s = STATE_M_TX_IDLE" "m_rcv s = STATE_M_RX_RCV" "length (m_rcvbuf s) = MB_SER_PDU_SIZE_MAX"
    and "m_pos s + length bs \<le> MB_SER_PDU_SIZE_MAX" "m_timer_on s" "m_tmode s = MB_TMODE_T35"
  shows "master_receive bs s = Some (s\<lparr>m_rcvbuf := take (m_pos s) (m_rcvbuf s) @ bs @ drop (m_pos s + length bs) (m_rcvbuf s),
    m_pos := m_pos s + length bs\<rparr>)"
  using assms
proof (induction bs arbitrary: s)
  case (Cons b bs)
  let ?s = "s\<lparr>m_rcvbuf := (m_rcvbuf s)[m_pos s := b], m_pos := m_pos s + 1\<rparr>"
  have step: "xMBMasterRTUReceiveFSM b s = Some ?s"
    using Cons.prems by (simp add: xMBMasterRTUReceiveFSM_def master_port)
  have "master_receive bs ?s = Some (?s\<lparr>m_rcvbuf := take (m_pos ?s) (m_rcvbuf ?s) @ bs @ drop (m_pos ?s + length bs) (m_rcvbuf ?s),
    m_pos := m_pos ?s + length bs\<rparr>)"
    by (rule Cons.IH) (use Cons.prems in simp_all)
  then show ?case using step Cons.prems by (simp add: take_Suc_conv_app_nth)
qed simp

text \<open>A master between two frames, whether it waits for a reply or not.\<close>

definition master_line :: "mb_master \<Rightarrow> bool" where
  "master_line s \<longleftrightarrow> m_rcv s = STATE_M_RX_IDLE \<and> length (m_rcvbuf s) = MB_SER_PDU_SIZE_MAX \<and>
     length (m_sndbuf s) = MB_PDU_SIZE_MAX"

lemma master_receive_frame:
  assumes "master_line s" "m_snd s \<noteq> STATE_M_TX_XMIT" "bs \<noteq> []" "length bs \<le> MB_SER_PDU_SIZE_MAX"
  shows "do { s1 \<leftarrow> master_receive bs s; xMBMasterRTUTimerExpired s1 } =
    Some (s\<lparr>m_snd := STATE_M_TX_IDLE, m_rcvbuf := bs @ drop (length bs) (m_rcvbuf s), m_pos := length bs,
      m_tmode := MB_TMODE_T35, m_timer_on := False, m_events := insert EV_MASTER_FRAME_RECEIVED (m_events s)\<rparr>)"
proof -
  obtain b cs where bs: "bs = b # cs" using assms(3) by (cases bs) auto
  have l: "length (m_rcvbuf s) = 256" "m_rcv s = STATE_M_RX_IDLE" "length cs < 256"
    using assms(1,4) bs by (auto simp: master_line_def ser_sizes)
  have x: "m_snd s = STATE_M_TX_IDLE \<or> m_snd s = STATE_M_TX_XFWR" using assms(2) by (cases "m_snd s") auto
  let ?s = "s\<lparr>m_snd := STATE_M_TX_IDLE, m_rcvbuf := (m_rcvbuf s)[0 := b], m_pos := 1, m_rcv := STATE_M_RX_RCV,
      m_tmode := MB_TMODE_T35, m_timer_on := True\<rparr>"
  have 1: "xMBMasterRTUReceiveFSM b s = Some ?s" using l x by (simp add: xMBMasterRTUReceiveFSM_def mem_write_def master_port)
  have 2: "master_receive cs ?s = Some (?s\<lparr>m_rcvbuf := take (m_pos ?s) (m_rcvbuf ?s) @ cs @ drop (m_pos ?s + length cs) (m_rcvbuf ?s),
    m_pos := m_pos ?s + length cs\<rparr>)"
    by (rule master_receive_more) (use l in \<open>simp_all add: ser_sizes\<close>)
  have t: "take 1 ((m_rcvbuf s)[0 := b]) = [b]" using l(1) by (cases "m_rcvbuf s") auto
  show ?thesis using 1 2 t l by (simp add: bs xMBMasterRTUTimerExpired_def master_port)
qed

lemma master_receive_accepts:
  assumes "take (m_pos s) (m_rcvbuf s) = rtu_frame a pdu" "length (m_rcvbuf s) = MB_SER_PDU_SIZE_MAX"
    and "pdu \<noteq> []" "m_pos s = length pdu + 3" "m_pos s < MB_SER_PDU_SIZE_MAX"
  shows "eMBMasterRTUReceive s = Some (Some (a, 1, length pdu))" "take (length pdu) (drop 1 (m_rcvbuf s)) = pdu"
proof -
  obtain c cs where pdu: "pdu = c # cs" using assms(3) by (cases pdu) auto
  have split: "m_rcvbuf s = rtu_frame a pdu @ drop (m_pos s) (m_rcvbuf s)"
    by (metis assms(1) append_take_drop_id)
  have h: "m_rcvbuf s ! 0 = a" by (subst split) (simp add: rtu_frame_def Let_def)
  show "take (length pdu) (drop 1 (m_rcvbuf s)) = pdu" by (subst split) (simp add: rtu_frame_def Let_def)
  have "mem_read (m_rcvbuf s) (int MB_SER_PDU_ADDR_OFF) = Some a" using assms(2,5) h by (simp add: mem_read_def ser_sizes)
  then show "eMBMasterRTUReceive s = Some (Some (a, 1, length pdu))"
    using assms rtu_frame_crc [of a pdu] pdu by (simp add: eMBMasterRTUReceive_def ser_sizes)
qed

lemma master_send_frame:
  assumes "master_line s" "n + 3 \<le> MB_PDU_SIZE_MAX" "take n (drop 1 (m_sndbuf s)) = pdu" "length pdu = n"
    and "unat a \<le> MB_MASTER_TOTAL_SLAVE_NUM"
  shows "eMBMasterRTUSend a 1 n s = Some (MB_ENOERR, s\<lparr>m_sndbuf := rtu_frame a pdu @ drop (n + 3) (m_sndbuf s),
    m_cur := 0, m_cnt := n + 3, m_snd := STATE_M_TX_XMIT, m_rx_on := False, m_tx_on := True\<rparr>)"
proof -
  have l: "length (m_sndbuf s) = 253" "n + 3 \<le> 253" "m_rcv s = STATE_M_RX_IDLE"
    using assms(1,2) by (auto simp: master_line_def master_sizes)
  obtain x xs where x: "m_sndbuf s = x # xs" using l by (cases "m_sndbuf s") auto
  have pd: "take n xs = pdu" using assms(3) x by simp
  define c where "c = usMBCRC16 (a # pdu)"
  let ?l = "ucast (c AND 0xFF) :: u8" and ?h = "ucast (drop_bit 8 c) :: u8"
  obtain y z zs where yz: "drop n xs = y # z # zs"
    using l x by (cases "drop n xs"; cases "tl (drop n xs)") (auto dest: arg_cong [of _ _ length])
  have buf: "m_sndbuf s = x # pdu @ y # z # zs" using x pd yz append_take_drop_id [of n xs] by simp
  have m: "(1 + n) mod 2 ^ 16 = Suc n" "(Suc n + 1) mod 2 ^ 16 = Suc (Suc n)" "(Suc n + 2) mod 2 ^ 16 = Suc (Suc (Suc n))"
    using l(2) by simp_all
  have "eMBMasterRTUSend a 1 n s = Some (MB_ENOERR, s\<lparr>m_sndbuf := a # pdu @ ?l # ?h # zs,
    m_cur := 0, m_cnt := n + 3, m_snd := STATE_M_TX_XMIT, m_rx_on := False, m_tx_on := True\<rparr>)"
    unfolding eMBMasterRTUSend_def Let_def m using assms(4,5) l by (simp add: mwr_def mem_write_def buf ser_sizes master_port
        c_def [symmetric] list_update_append nat_add_distrib Suc_nat_eq_nat_zadd1 numeral_eq_Suc)
  moreover have "drop (n + 3) (m_sndbuf s) = zs" using assms(4) by (simp add: buf numeral_eq_Suc)
  moreover have "rtu_frame a pdu = a # pdu @ [?l, ?h]" by (simp add: rtu_frame_def Let_def c_def)
  ultimately show ?thesis by simp
qed

text \<open>The transmission ends in waiting for the reply, or for the slaves to execute a broadcast.\<close>

lemma master_transmit_spec:
  assumes "m_rcv s = STATE_M_RX_IDLE" "m_snd s = STATE_M_TX_XMIT" "m_cur s + m_cnt s \<le> length (m_sndbuf s)" "m_sndbuf s = a # bs"
  shows "master_transmit (Suc (m_cnt s)) s =
    Some (s\<lparr>m_tx := m_tx s @ take (m_cnt s) (drop (m_cur s) (m_sndbuf s)), m_cur := m_cur s + m_cnt s,
            m_cnt := 0, m_snd := STATE_M_TX_XFWR, m_rx_on := True, m_tx_on := False, m_broadcast := (a = 0),
            m_tmode := (if a = 0 then MB_TMODE_CONVERT_DELAY else MB_TMODE_RESPOND_TIMEOUT), m_timer_on := True\<rparr>)"
  using assms
proof (induction "m_cnt s" arbitrary: s)
  case 0
  then show ?case by (simp add: xMBMasterRTUTransmitFSM_def master_port mrd_def mem_read_def ser_sizes mb_addresses)
next
  case (Suc n)
  let ?s = "s\<lparr>m_tx := m_tx s @ [m_sndbuf s ! m_cur s], m_cur := m_cur s + 1, m_cnt := n\<rparr>"
  have lt: "m_cur s < length (m_sndbuf s)" using Suc.prems(3) Suc.hyps(2) by simp
  have cnt: "m_cnt s = Suc n" using Suc.hyps(2) by simp
  have "xMBMasterRTUTransmitFSM s = Some ?s"
    using Suc.prems(1,2) lt by (simp add: xMBMasterRTUTransmitFSM_def mrd_def master_port cnt)
  moreover have "master_transmit (Suc (m_cnt ?s)) ?s =
    Some (?s\<lparr>m_tx := m_tx ?s @ take (m_cnt ?s) (drop (m_cur ?s) (m_sndbuf ?s)), m_cur := m_cur ?s + m_cnt ?s,
            m_cnt := 0, m_snd := STATE_M_TX_XFWR, m_rx_on := True, m_tx_on := False, m_broadcast := (a = 0),
            m_tmode := (if a = 0 then MB_TMODE_CONVERT_DELAY else MB_TMODE_RESPOND_TIMEOUT), m_timer_on := True\<rparr>)"
    by (rule Suc.hyps(1)) (use Suc.prems cnt in simp_all)
  moreover have "drop (m_cur s) (m_sndbuf s) = m_sndbuf s ! m_cur s # drop (Suc (m_cur s)) (m_sndbuf s)"
    using lt by (simp add: Cons_nth_drop_Suc)
  ultimately show ?case by (simp add: cnt)
qed

end
