(* ===== verification/MbmFunc.thy ===== *)
theory MbmFunc
  imports MbmRtu
begin

unbundle bit_operations_syntax

text \<open>
  The requests of a Modbus master and the handlers of the replies
  (components/net/freemodbus/modbus/functions/mbfuncholding_m.c, mbfuncinput_m.c, mbfunccoils_m.c,
  mbfuncdisc_m.c), with the application's tables (port/user_mb_app_m.c). A reply is matched with the
  request by the frame that is still in the send buffer.
\<close>

section \<open>The tables\<close>

definition M_DISCRETE_INPUT_START :: nat where "M_DISCRETE_INPUT_START = 0"
definition M_DISCRETE_INPUT_NDISCRETES :: nat where "M_DISCRETE_INPUT_NDISCRETES = 16"
definition M_COIL_START :: nat where "M_COIL_START = 0"
definition M_COIL_NCOILS :: nat where "M_COIL_NCOILS = 64"
definition M_REG_INPUT_START :: nat where "M_REG_INPUT_START = 0"
definition M_REG_INPUT_NREGS :: nat where "M_REG_INPUT_NREGS = 100"
definition M_REG_HOLDING_START :: nat where "M_REG_HOLDING_START = 0"
definition M_REG_HOLDING_NREGS :: nat where "M_REG_HOLDING_NREGS = 100"

lemmas master_limits = M_DISCRETE_INPUT_START_def M_DISCRETE_INPUT_NDISCRETES_def M_COIL_START_def M_COIL_NCOILS_def
  M_REG_INPUT_START_def M_REG_INPUT_NREGS_def M_REG_HOLDING_START_def M_REG_HOLDING_NREGS_def

text \<open>
  The row of the slave that is addressed. The loop that stores \<open>n\<close> registers from \<open>src\<close> at \<open>p\<close>
  serves both register tables.
\<close>

definition master_row :: "mb_master \<Rightarrow> int" where "master_row s = int (unat (m_dest s)) - 1"

fun row_write :: "int \<Rightarrow> u8 list \<Rightarrow> nat \<Rightarrow> nat \<Rightarrow> nat \<Rightarrow> u16 list list \<Rightarrow> u16 list list option" where
  "row_write r src p i 0 tab = Some tab"
| "row_write r src p i (Suc n) tab =
     do { h \<leftarrow> mem_read src (int p);
          row \<leftarrow> mem_read tab r;
          t1 \<leftarrow> mem_write row (int i) (push_bit 8 (ucast h));
          l \<leftarrow> mem_read src (int (p + 1));
          t2 \<leftarrow> mem_write t1 (int i) (push_bit 8 (ucast h) OR ucast l);
          tab1 \<leftarrow> mem_write tab r t2;
          row_write r src (p + 2) (i + 1) n tab1 }"

definition eMBMasterRegInputCB :: "u8 list \<Rightarrow> nat \<Rightarrow> u16 \<Rightarrow> u16 \<Rightarrow> mb_master \<Rightarrow> (eMBErrorCode \<times> mb_master) option" where
  "eMBMasterRegInputCB src p usAddress usNRegs s =
     (let a = unat (usAddress - 1); n = unat usNRegs in
      if M_REG_INPUT_START \<le> a \<and> a + n \<le> M_REG_INPUT_START + M_REG_INPUT_NREGS
      then do { t \<leftarrow> row_write (master_row s) src p (a - M_REG_INPUT_START) n (m_inp s);
                Some (MB_ENOERR, s\<lparr>m_inp := t\<rparr>) }
      else Some (MB_ENOREG, s))"

text \<open>The mode is overwritten: the master stores what was read as well as what was written.\<close>

definition eMBMasterRegHoldingCB :: "u8 list \<Rightarrow> nat \<Rightarrow> u16 \<Rightarrow> u16 \<Rightarrow> eMBRegisterMode \<Rightarrow> mb_master \<Rightarrow>
    (eMBErrorCode \<times> mb_master) option" where
  "eMBMasterRegHoldingCB src p usAddress usNRegs eMode s =
     (let a = unat (usAddress - 1); n = unat usNRegs in
      if M_REG_HOLDING_START \<le> a \<and> a + n \<le> M_REG_HOLDING_START + M_REG_HOLDING_NREGS
      then do { t \<leftarrow> row_write (master_row s) src p (a - M_REG_HOLDING_START) n (m_hold s);
                Some (MB_ENOERR, s\<lparr>m_hold := t\<rparr>) }
      else Some (MB_ENOREG, s))"

fun row_bytes :: "int \<Rightarrow> u8 list \<Rightarrow> nat \<Rightarrow> nat \<Rightarrow> nat \<Rightarrow> nat \<Rightarrow> u8 list list \<Rightarrow> u8 list list option" where
  "row_bytes r src p i b 0 tab = Some tab"
| "row_bytes r src p i b (Suc n) tab =
     do { v \<leftarrow> mem_read src (int p);
          row \<leftarrow> mem_read tab r;
          row1 \<leftarrow> xMBUtilSetBits row i b 8 v;
          tab1 \<leftarrow> mem_write tab r row1;
          row_bytes r src (p + 1) (i + 1) b n tab1 }"

text \<open>The loop over the bytes and the last bits, for the coils and the discrete inputs.\<close>

definition row_bits :: "int \<Rightarrow> u8 list \<Rightarrow> nat \<Rightarrow> nat \<Rightarrow> nat \<Rightarrow> u8 list list \<Rightarrow> u8 list list option" where
  "row_bits r src p a n tab =
     (let i = a div 8; b = a mod 8; iNReg = n div 8 + 1 in
      do { tab1 \<leftarrow> row_bytes r src p i b (iNReg - 1) tab;
           if n mod 8 \<noteq> 0
           then do { v \<leftarrow> mem_read src (int (p + (iNReg - 1)));
                     row \<leftarrow> mem_read tab1 r;
                     row1 \<leftarrow> xMBUtilSetBits row (i + (iNReg - 1)) b (n mod 8) v;
                     mem_write tab1 r row1 }
           else Some tab1 })"

definition eMBMasterRegCoilsCB :: "u8 list \<Rightarrow> nat \<Rightarrow> u16 \<Rightarrow> u16 \<Rightarrow> eMBRegisterMode \<Rightarrow> mb_master \<Rightarrow>
    (eMBErrorCode \<times> mb_master) option" where
  "eMBMasterRegCoilsCB src p usAddress usNCoils eMode s =
     (let a = unat (usAddress - 1); n = unat usNCoils in
      if M_COIL_START \<le> a \<and> a + n \<le> M_COIL_START + M_COIL_NCOILS
      then do { t \<leftarrow> row_bits (master_row s) src p (a - M_COIL_START) n (m_coil s);
                Some (MB_ENOERR, s\<lparr>m_coil := t\<rparr>) }
      else Some (MB_ENOREG, s))"

definition eMBMasterRegDiscreteCB :: "u8 list \<Rightarrow> nat \<Rightarrow> u16 \<Rightarrow> u16 \<Rightarrow> mb_master \<Rightarrow> (eMBErrorCode \<times> mb_master) option" where
  "eMBMasterRegDiscreteCB src p usAddress usNDiscrete s =
     (let a = unat (usAddress - 1); n = unat usNDiscrete in
      if M_DISCRETE_INPUT_START \<le> a \<and> a + n \<le> M_DISCRETE_INPUT_START + M_DISCRETE_INPUT_NDISCRETES
      then do { t \<leftarrow> row_bits (master_row s) src p (a - M_DISCRETE_INPUT_START) n (m_disc s);
                Some (MB_ENOERR, s\<lparr>m_disc := t\<rparr>) }
      else Some (MB_ENOREG, s))"

section \<open>Requests\<close>

text \<open>
  A request is put into the send buffer and announced to the main loop; its caller then waits for the
  result (\<open>None\<close> as the first component), or it ends at once with an error.
\<close>

type_synonym mrequest = "mb_master \<Rightarrow> (eMBMasterReqErrCode option \<times> mb_master) option"

fun put_pdu :: "nat \<Rightarrow> u8 list \<Rightarrow> mb_master \<Rightarrow> mb_master option" where
  "put_pdu p [] s = Some s"
| "put_pdu p (b # bs) s = do { s1 \<leftarrow> mwr p b s; put_pdu (p + 1) bs s1 }"

text \<open>
  Registers are put high byte first (\<open>be16\<close>); the length of the PDU has 16 bits. No PDU is one that
  takes values from behind the caller's array.
\<close>

definition master_request :: "u8 \<Rightarrow> bool \<Rightarrow> u8 list option \<Rightarrow> mrequest" where
  "master_request ucSndAddr args_ok pdu s =
     (if MB_MASTER_TOTAL_SLAVE_NUM < unat ucSndAddr then Some (Some MB_MRE_ILL_ARG, s)
      else if \<not> args_ok then Some (Some MB_MRE_ILL_ARG, s)
      else case xMBMasterRunResTake s of (got, s1) \<Rightarrow>
        if \<not> got then Some (Some MB_MRE_MASTER_BUSY, s1)
        else do { bs \<leftarrow> pdu;
                  s2 \<leftarrow> put_pdu 1 bs (s1\<lparr>m_dest := ucSndAddr\<rparr>);
                  Some (None, xMBMasterPortEventPost EV_MASTER_FRAME_SENT
                    (s2\<lparr>m_sndlen := length bs mod 2 ^ 16\<rparr>)) })"

definition eMBMasterReqReadHoldingRegister :: "u8 \<Rightarrow> u16 \<Rightarrow> u16 \<Rightarrow> mrequest" where
  "eMBMasterReqReadHoldingRegister ucSndAddr usRegAddr usNRegs =
     master_request ucSndAddr True (Some (3 # be16 usRegAddr @ be16 usNRegs))"

definition eMBMasterReqWriteHoldingRegister :: "u8 \<Rightarrow> u16 \<Rightarrow> u16 \<Rightarrow> mrequest" where
  "eMBMasterReqWriteHoldingRegister ucSndAddr usRegAddr usRegData =
     master_request ucSndAddr True (Some (6 # be16 usRegAddr @ be16 usRegData))"

text \<open>The caller's array of values; its length is what it holds, the count what the caller says.\<close>

definition eMBMasterReqWriteMultipleHoldingRegister :: "u8 \<Rightarrow> u16 \<Rightarrow> u16 \<Rightarrow> u16 list \<Rightarrow> mrequest" where
  "eMBMasterReqWriteMultipleHoldingRegister ucSndAddr usRegAddr usNRegs pusDataBuffer =
     master_request ucSndAddr True
       (if unat usNRegs \<le> length pusDataBuffer
        then Some (16 # be16 usRegAddr @ be16 usNRegs @
               ucast (usNRegs * 2) # concat (map be16 (take (unat usNRegs) pusDataBuffer)))
        else None)"

definition eMBMasterReqReadWriteMultipleHoldingRegister :: "u8 \<Rightarrow> u16 \<Rightarrow> u16 \<Rightarrow> u16 list \<Rightarrow> u16 \<Rightarrow> u16 \<Rightarrow> mrequest" where
  "eMBMasterReqReadWriteMultipleHoldingRegister ucSndAddr usReadRegAddr usNReadRegs pusDataBuffer
     usWriteRegAddr usNWriteRegs =
     master_request ucSndAddr True
       (if unat usNWriteRegs \<le> length pusDataBuffer
        then Some (23 # be16 usReadRegAddr @ be16 usNReadRegs @ be16 usWriteRegAddr @
               be16 usNWriteRegs @
               ucast (usNWriteRegs * 2) # concat (map be16 (take (unat usNWriteRegs) pusDataBuffer)))
        else None)"

definition eMBMasterReqReadInputRegister :: "u8 \<Rightarrow> u16 \<Rightarrow> u16 \<Rightarrow> mrequest" where
  "eMBMasterReqReadInputRegister ucSndAddr usRegAddr usNRegs =
     master_request ucSndAddr True (Some (4 # be16 usRegAddr @ be16 usNRegs))"

definition eMBMasterReqReadCoils :: "u8 \<Rightarrow> u16 \<Rightarrow> u16 \<Rightarrow> mrequest" where
  "eMBMasterReqReadCoils ucSndAddr usCoilAddr usNCoils =
     master_request ucSndAddr True (Some (1 # be16 usCoilAddr @ be16 usNCoils))"

definition eMBMasterReqWriteCoil :: "u8 \<Rightarrow> u16 \<Rightarrow> u16 \<Rightarrow> mrequest" where
  "eMBMasterReqWriteCoil ucSndAddr usCoilAddr usCoilData =
     master_request ucSndAddr (usCoilData = 0xFF00 \<or> usCoilData = 0)
       (Some (5 # be16 usCoilAddr @ be16 usCoilData))"

definition eMBMasterReqWriteMultipleCoils :: "u8 \<Rightarrow> u16 \<Rightarrow> u16 \<Rightarrow> u8 list \<Rightarrow> mrequest" where
  "eMBMasterReqWriteMultipleCoils ucSndAddr usCoilAddr usNCoils pucDataBuffer =
     (let n = unat (nbytes_for usNCoils) in
      master_request ucSndAddr (unat usNCoils \<le> 0x07B0)
        (if n \<le> length pucDataBuffer
         then Some (15 # be16 usCoilAddr @ be16 usNCoils @ nbytes_for usNCoils # take n pucDataBuffer)
         else None))"

definition eMBMasterReqReadDiscreteInputs :: "u8 \<Rightarrow> u16 \<Rightarrow> u16 \<Rightarrow> mrequest" where
  "eMBMasterReqReadDiscreteInputs ucSndAddr usDiscreteAddr usNDiscreteIn =
     master_request ucSndAddr True (Some (2 # be16 usDiscreteAddr @ be16 usNDiscreteIn))"

section \<open>Handlers\<close>

text \<open>
  A handler gets the frame, which is in either buffer, and the length. The request is still in the send
  buffer, its PDU at offset 1 (\<open>request_frame\<close>).
\<close>

type_synonym mhandler = "mframe \<Rightarrow> nat \<Rightarrow> mb_master \<Rightarrow> (eMBException \<times> mb_master) option"

fun frame_buf :: "mframe \<Rightarrow> mb_master \<Rightarrow> u8 list" where
  "frame_buf (In_Snd f) s = m_sndbuf s"
| "frame_buf (In_Rcv f) s = m_rcvbuf s"

fun frame_off :: "mframe \<Rightarrow> nat" where
  "frame_off (In_Snd f) = f"
| "frame_off (In_Rcv f) = f"

definition frd :: "mframe \<Rightarrow> nat \<Rightarrow> mb_master \<Rightarrow> u8 option" where
  "frd fr i s = mem_read (frame_buf fr s) (int (frame_off fr + i))"

definition frd16 :: "mframe \<Rightarrow> nat \<Rightarrow> mb_master \<Rightarrow> u16 option" where
  "frd16 fr i s = do { h \<leftarrow> frd fr i s; l \<leftarrow> frd fr (i + 1) s; Some (push_bit 8 (ucast h) OR ucast l) }"

abbreviation request_frame :: mframe where "request_frame \<equiv> In_Snd 1"

definition after_cb :: "eMBErrorCode \<times> mb_master \<Rightarrow> eMBException \<times> mb_master" where
  "after_cb r = (case r of (e, s) \<Rightarrow> (if e \<noteq> MB_ENOERR then prveMBError2Exception e else MB_EX_NONE, s))"

definition eMBMasterFuncWriteHoldingRegister :: mhandler where
  "eMBMasterFuncWriteHoldingRegister fr len s =
     (if len = MB_PDU_SIZE_MIN + 4
      then do { a \<leftarrow> frd16 fr MB_PDU_DATA_OFF s;
                r \<leftarrow> eMBMasterRegHoldingCB (frame_buf fr s) (frame_off fr + MB_PDU_DATA_OFF + 2) (a + 1) 1 MB_REG_WRITE s;
                Some (after_cb r) }
      else Some (MB_EX_ILLEGAL_DATA_VALUE, s))"

definition eMBMasterFuncWriteMultipleHoldingRegister :: mhandler where
  "eMBMasterFuncWriteMultipleHoldingRegister fr len s =
     (if len = MB_PDU_SIZE_MIN + 4 \<or> m_broadcast s
      then do { a \<leftarrow> frd16 request_frame MB_PDU_DATA_OFF s;
                n \<leftarrow> frd16 request_frame (MB_PDU_DATA_OFF + 2) s;
                bc \<leftarrow> frd request_frame (MB_PDU_DATA_OFF + 4) s;
                if unat bc = 2 * unat n
                then do { r \<leftarrow> eMBMasterRegHoldingCB (m_sndbuf s) (1 + MB_PDU_DATA_OFF + 5) (a + 1) n MB_REG_WRITE s;
                          Some (after_cb r) }
                else Some (MB_EX_ILLEGAL_DATA_VALUE, s) }
      else Some (MB_EX_ILLEGAL_DATA_VALUE, s))"

definition eMBMasterFuncReadHoldingRegister :: mhandler where
  "eMBMasterFuncReadHoldingRegister fr len s =
     (if m_broadcast s then Some (MB_EX_NONE, s)
      else if MB_PDU_SIZE_MIN + 1 \<le> len
      then do { a \<leftarrow> frd16 request_frame MB_PDU_DATA_OFF s;
                n \<leftarrow> frd16 request_frame (MB_PDU_DATA_OFF + 2) s;
                bc \<leftarrow> frd fr MB_PDU_DATA_OFF s;
                if 1 \<le> unat n \<and> 2 * unat n = unat bc
                then do { r \<leftarrow> eMBMasterRegHoldingCB (frame_buf fr s) (frame_off fr + MB_PDU_DATA_OFF + 1) (a + 1) n MB_REG_READ s;
                          Some (after_cb r) }
                else Some (MB_EX_ILLEGAL_DATA_VALUE, s) }
      else Some (MB_EX_ILLEGAL_DATA_VALUE, s))"

text \<open>A reply that is too short ends this handler without an exception.\<close>

definition eMBMasterFuncReadWriteMultipleHoldingRegister :: mhandler where
  "eMBMasterFuncReadWriteMultipleHoldingRegister fr len s =
     (if m_broadcast s then Some (MB_EX_NONE, s)
      else if MB_PDU_SIZE_MIN + 1 \<le> len
      then do { ra \<leftarrow> frd16 request_frame MB_PDU_DATA_OFF s;
                rn \<leftarrow> frd16 request_frame (MB_PDU_DATA_OFF + 2) s;
                wa \<leftarrow> frd16 request_frame (MB_PDU_DATA_OFF + 4) s;
                wn \<leftarrow> frd16 request_frame (MB_PDU_DATA_OFF + 6) s;
                bc \<leftarrow> frd fr MB_PDU_DATA_OFF s;
                if 2 * unat rn = unat bc
                then do { (e, s1) \<leftarrow> eMBMasterRegHoldingCB (m_sndbuf s) (1 + MB_PDU_DATA_OFF + 9) (wa + 1) wn MB_REG_WRITE s;
                          r \<leftarrow> (if e = MB_ENOERR
                               then eMBMasterRegHoldingCB (frame_buf fr s1) (frame_off fr + MB_PDU_DATA_OFF + 1) (ra + 1) rn MB_REG_READ s1
                               else Some (e, s1));
                          Some (after_cb r) }
                else Some (MB_EX_ILLEGAL_DATA_VALUE, s) }
      else Some (MB_EX_NONE, s))"

definition eMBMasterFuncReadInputRegister :: mhandler where
  "eMBMasterFuncReadInputRegister fr len s =
     (if m_broadcast s then Some (MB_EX_NONE, s)
      else if MB_PDU_SIZE_MIN + 1 \<le> len
      then do { a \<leftarrow> frd16 request_frame MB_PDU_DATA_OFF s;
                n \<leftarrow> frd16 request_frame (MB_PDU_DATA_OFF + 2) s;
                bc \<leftarrow> frd fr MB_PDU_DATA_OFF s;
                if 1 \<le> unat n \<and> 2 * unat n = unat bc
                then do { r \<leftarrow> eMBMasterRegInputCB (frame_buf fr s) (frame_off fr + MB_PDU_DATA_OFF + 1) (a + 1) n s;
                          Some (after_cb r) }
                else Some (MB_EX_ILLEGAL_DATA_VALUE, s) }
      else Some (MB_EX_ILLEGAL_DATA_VALUE, s))"

definition eMBMasterFuncReadCoils :: mhandler where
  "eMBMasterFuncReadCoils fr len s =
     (if m_broadcast s then Some (MB_EX_NONE, s)
      else if MB_PDU_SIZE_MIN + 1 \<le> len
      then do { a \<leftarrow> frd16 request_frame MB_PDU_DATA_OFF s;
                n \<leftarrow> frd16 request_frame (MB_PDU_DATA_OFF + 2) s;
                bc \<leftarrow> frd fr MB_PDU_DATA_OFF s;
                if 1 \<le> unat n \<and> nbytes_for n = bc
                then do { r \<leftarrow> eMBMasterRegCoilsCB (frame_buf fr s) (frame_off fr + MB_PDU_DATA_OFF + 1) (a + 1) n MB_REG_READ s;
                          Some (after_cb r) }
                else Some (MB_EX_ILLEGAL_DATA_VALUE, s) }
      else Some (MB_EX_ILLEGAL_DATA_VALUE, s))"

definition eMBMasterFuncWriteCoil :: mhandler where
  "eMBMasterFuncWriteCoil fr len s =
     (if len = 4 + MB_PDU_SIZE_MIN
      then do { a \<leftarrow> frd16 fr MB_PDU_DATA_OFF s;
                v1 \<leftarrow> frd fr (MB_PDU_DATA_OFF + 3) s;
                v0 \<leftarrow> frd fr (MB_PDU_DATA_OFF + 2) s;
                if v1 = 0 \<and> (v0 = 0xFF \<or> v0 = 0)
                then do { r \<leftarrow> eMBMasterRegCoilsCB [if v0 = 0xFF then 1 else 0, 0] 0 (a + 1) 1 MB_REG_WRITE s;
                          Some (after_cb r) }
                else Some (MB_EX_ILLEGAL_DATA_VALUE, s) }
      else Some (MB_EX_ILLEGAL_DATA_VALUE, s))"

definition eMBMasterFuncWriteMultipleCoils :: mhandler where
  "eMBMasterFuncWriteMultipleCoils fr len s =
     (if len = 5 \<or> m_broadcast s
      then do { a \<leftarrow> frd16 fr MB_PDU_DATA_OFF s;
                n \<leftarrow> frd16 fr (MB_PDU_DATA_OFF + 2) s;
                bc \<leftarrow> frd request_frame (MB_PDU_DATA_OFF + 4) s;
                if 1 \<le> unat n \<and> nbytes_for n = bc
                then do { r \<leftarrow> eMBMasterRegCoilsCB (m_sndbuf s) (1 + MB_PDU_DATA_OFF + 5) (a + 1) n MB_REG_WRITE s;
                          Some (after_cb r) }
                else Some (MB_EX_ILLEGAL_DATA_VALUE, s) }
      else Some (MB_EX_ILLEGAL_DATA_VALUE, s))"

definition eMBMasterFuncReadDiscreteInputs :: mhandler where
  "eMBMasterFuncReadDiscreteInputs fr len s =
     (if m_broadcast s then Some (MB_EX_NONE, s)
      else if MB_PDU_SIZE_MIN + 1 \<le> len
      then do { a \<leftarrow> frd16 request_frame MB_PDU_DATA_OFF s;
                n \<leftarrow> frd16 request_frame (MB_PDU_DATA_OFF + 2) s;
                bc \<leftarrow> frd fr MB_PDU_DATA_OFF s;
                if 1 \<le> unat n \<and> nbytes_for n = bc
                then do { r \<leftarrow> eMBMasterRegDiscreteCB (frame_buf fr s) (frame_off fr + MB_PDU_DATA_OFF + 1) (a + 1) n s;
                          Some (after_cb r) }
                else Some (MB_EX_ILLEGAL_DATA_VALUE, s) }
      else Some (MB_EX_ILLEGAL_DATA_VALUE, s))"

text \<open>The table names the slave's handler for this function, which copies the identification into the frame.\<close>

definition frame_update :: "mframe \<Rightarrow> u8 list \<Rightarrow> mb_master \<Rightarrow> mb_master" where
  "frame_update fr b s = (case fr of In_Snd f \<Rightarrow> s\<lparr>m_sndbuf := b\<rparr> | In_Rcv f \<Rightarrow> s\<lparr>m_rcvbuf := b\<rparr>)"

definition master_report_id :: "mframe \<Rightarrow> nat \<Rightarrow> mb_master \<Rightarrow> ((eMBException \<times> nat) \<times> mb_master) option" where
  "master_report_id fr len s =
     map_option (\<lambda>b. ((MB_EX_NONE, MB_PDU_DATA_OFF + m_idlen s), frame_update fr b s))
       (memcpy (frame_buf fr s) (int (frame_off fr + MB_PDU_DATA_OFF)) (m_id s) 0 (int (m_idlen s)))"

fun run_master_handler :: "mb_function \<Rightarrow> mframe \<Rightarrow> nat \<Rightarrow> mb_master \<Rightarrow> ((eMBException \<times> nat) \<times> mb_master) option" where
  "run_master_handler ReportSlaveID fr len s = master_report_id fr len s"
| "run_master_handler ReadInputRegister fr len s = map_option (\<lambda>(e, t). ((e, len), t)) (eMBMasterFuncReadInputRegister fr len s)"
| "run_master_handler ReadHoldingRegister fr len s = map_option (\<lambda>(e, t). ((e, len), t)) (eMBMasterFuncReadHoldingRegister fr len s)"
| "run_master_handler WriteMultipleHoldingRegister fr len s =
     map_option (\<lambda>(e, t). ((e, len), t)) (eMBMasterFuncWriteMultipleHoldingRegister fr len s)"
| "run_master_handler WriteHoldingRegister fr len s = map_option (\<lambda>(e, t). ((e, len), t)) (eMBMasterFuncWriteHoldingRegister fr len s)"
| "run_master_handler ReadWriteMultipleHoldingRegister fr len s =
     map_option (\<lambda>(e, t). ((e, len), t)) (eMBMasterFuncReadWriteMultipleHoldingRegister fr len s)"
| "run_master_handler ReadCoils fr len s = map_option (\<lambda>(e, t). ((e, len), t)) (eMBMasterFuncReadCoils fr len s)"
| "run_master_handler WriteCoil fr len s = map_option (\<lambda>(e, t). ((e, len), t)) (eMBMasterFuncWriteCoil fr len s)"
| "run_master_handler WriteMultipleCoils fr len s = map_option (\<lambda>(e, t). ((e, len), t)) (eMBMasterFuncWriteMultipleCoils fr len s)"
| "run_master_handler ReadDiscreteInputs fr len s = map_option (\<lambda>(e, t). ((e, len), t)) (eMBMasterFuncReadDiscreteInputs fr len s)"

section \<open>What the loops do\<close>

lemma put_pdu_spec:
  "p + length bs \<le> length (m_sndbuf s) \<Longrightarrow>
    put_pdu p bs s = Some (s\<lparr>m_sndbuf := take p (m_sndbuf s) @ bs @ drop (p + length bs) (m_sndbuf s)\<rparr>)"
proof (induction bs arbitrary: p s)
  case (Cons b bs)
  let ?s = "s\<lparr>m_sndbuf := (m_sndbuf s)[p := b]\<rparr>"
  have "mwr p b s = Some ?s" using Cons.prems by (simp add: mwr_def)
  moreover have "put_pdu (p + 1) bs ?s = Some (?s\<lparr>m_sndbuf := take (p + 1) (m_sndbuf ?s) @ bs @ drop (p + 1 + length bs) (m_sndbuf ?s)\<rparr>)"
    by (rule Cons.IH) (use Cons.prems in simp)
  ultimately show ?case using Cons.prems by (simp add: take_Suc_conv_app_nth)
qed simp

lemma row_write_spec:
  assumes "take (2 * length vs) (drop p src) = regs_bytes vs" "p + 2 * length vs \<le> length src"
    and "r < length tab" "i + length vs \<le> length (tab ! r)"
  shows "row_write (int r) src p i (length vs) tab =
    Some (tab[r := take i (tab ! r) @ vs @ drop (i + length vs) (tab ! r)])"
  using assms
proof (induction vs arbitrary: p i tab)
  case (Cons v vs)
  have p: "p + 1 < length src" using Cons.prems(2) by simp
  have d: "drop p src = src ! p # src ! (p + 1) # drop (p + 2) src"
    using p by (simp add: Cons_nth_drop_Suc)
  have h: "src ! p = ucast (drop_bit 8 v)" "src ! (p + 1) = ucast v" "take (2 * length vs) (drop (p + 2) src) = regs_bytes vs"
    using Cons.prems(1) unfolding d by simp_all
  let ?tab = "tab[r := (tab ! r)[i := v]]"
  have i: "i < length (tab ! r)" using Cons.prems(4) by simp
  have "row_write (int r) src p i (Suc (length vs)) tab = row_write (int r) src (p + 2) (i + 1) (length vs) ?tab"
    using p i Cons.prems(3) by (simp add: mem_read_def mem_write_def h(1,2) [simplified] join_halves nat_add_distrib)
  also have "\<dots> = Some (?tab[r := take (i + 1) (?tab ! r) @ vs @ drop (i + 1 + length vs) (?tab ! r)])"
    by (rule Cons.IH) (use Cons.prems h in simp_all)
  finally show ?case using Cons.prems(3) i by (simp add: take_Suc_conv_app_nth)
qed simp

end
