(* ===== verification/MbmPoll.thy ===== *)
theory MbmPoll
  imports MbmFunc
begin

unbundle bit_operations_syntax

text \<open>
  The main loop of a Modbus master (components/net/freemodbus/modbus/mb_m.c) in RTU mode: initialisation,
  enabling, and \<open>eMBMasterPoll\<close>, which takes one event and acts on it.
\<close>

section \<open>Initialisation and control\<close>

text \<open>
  Only the RTU mode is built; the event port never fails. \<open>rtu\<close> says that this mode is asked for.
\<close>

definition eMBMasterInit :: "bool \<Rightarrow> bool \<Rightarrow> nat \<Rightarrow> mb_master \<Rightarrow> (eMBErrorCode \<times> mb_master) option" where
  "eMBMasterInit rtu serial_ok ulBaudRate s =
     (if \<not> rtu then Some (MB_EINVAL, s)
      else do { (e, t) \<leftarrow> eMBMasterRTUInit serial_ok ulBaudRate;
                Some (e, if e = MB_ENOERR then vMBMasterOsResInit (s\<lparr>m_events := {}, m_state := STATE_DISABLED\<rparr>)
                         else s) })"

definition eMBMasterEnable :: "mb_master \<Rightarrow> eMBErrorCode \<times> mb_master" where
  "eMBMasterEnable s =
     (if m_state s = STATE_DISABLED then (MB_ENOERR, (eMBMasterRTUStart s)\<lparr>m_state := STATE_ENABLED\<rparr>)
      else (MB_EILLSTATE, s))"

definition eMBMasterDisable :: "mb_master \<Rightarrow> eMBErrorCode \<times> mb_master" where
  "eMBMasterDisable s =
     (if m_state s = STATE_ENABLED then (MB_ENOERR, (eMBMasterRTUStop s)\<lparr>m_state := STATE_DISABLED\<rparr>)
      else if m_state s = STATE_DISABLED then (MB_ENOERR, s) else (MB_EILLSTATE, s))"

text \<open>Closing only closes the serial device.\<close>

definition eMBMasterClose :: "mb_master \<Rightarrow> eMBErrorCode" where
  "eMBMasterClose s = (if m_state s = STATE_DISABLED then MB_ENOERR else MB_EILLSTATE)"

section \<open>Polling\<close>

definition xMasterFuncHandlers :: "(u8 \<times> mb_function option) list" where
  "xMasterFuncHandlers =
     [(17, Some ReportSlaveID), (4, Some ReadInputRegister), (3, Some ReadHoldingRegister),
      (16, Some WriteMultipleHoldingRegister), (6, Some WriteHoldingRegister),
      (23, Some ReadWriteMultipleHoldingRegister), (1, Some ReadCoils), (5, Some WriteCoil),
      (15, Some WriteMultipleCoils), (2, Some ReadDiscreteInputs)] @ replicate 6 (0, None)"

text \<open>A frame that is not taken leaves the pointer, the address and the length as they were.\<close>

definition mpoll_received :: "mb_master \<Rightarrow> mb_master option" where
  "mpoll_received s =
     do { r \<leftarrow> eMBMasterRTUReceive s;
          let s1 = (case r of None \<Rightarrow> s
                    | Some (a, f, n) \<Rightarrow> s\<lparr>m_rcvaddr := a, m_frame := Some (In_Rcv f), m_len := n\<rparr>);
          Some (if r \<noteq> None \<and> m_rcvaddr s1 = m_dest s1 then xMBMasterPortEventPost EV_MASTER_EXECUTE s1
                else xMBMasterPortEventPost EV_MASTER_ERROR_PROCESS (s1\<lparr>m_err := EV_ERROR_RECEIVE_DATA\<rparr>)) }"

definition mcall :: "mb_function \<Rightarrow> mb_master \<Rightarrow> (eMBException \<times> mb_master) option" where
  "mcall g s = do { fr \<leftarrow> m_frame s;
                    ((e, n), t) \<leftarrow> run_master_handler g fr (m_len s) s;
                    Some (e, t\<lparr>m_len := n\<rparr>) }"

text \<open>A broadcast is executed for the slaves \<open>j\<close>, \<open>j + 1\<close>, ...; the last exception counts.\<close>

fun mcall_every :: "mb_function \<Rightarrow> nat \<Rightarrow> nat \<Rightarrow> eMBException \<times> mb_master \<Rightarrow> (eMBException \<times> mb_master) option" where
  "mcall_every g j 0 r = Some r"
| "mcall_every g j (Suc n) r = do { r1 \<leftarrow> mcall g ((snd r)\<lparr>m_dest := of_nat j\<rparr>); mcall_every g (j + 1) n r1 }"

text \<open>
  Whether the reply is an exception. In a reply with the highest bit of the function code set it is the
  byte that follows, where 0 is \<open>MB_EX_NONE\<close>.
\<close>

definition mpoll_exception :: "mb_master \<Rightarrow> (bool \<times> mb_master) option" where
  "mpoll_exception s =
     do { fr \<leftarrow> m_frame s;
          fc \<leftarrow> frd fr MB_PDU_FUNC_OFF s;
          if drop_bit 7 fc \<noteq> 0 then do { x \<leftarrow> frd fr MB_PDU_DATA_OFF s; Some (x \<noteq> 0, s) }
          else do { h \<leftarrow> find_handler fc xMasterFuncHandlers;
                    case h of
                      None \<Rightarrow> Some (True, s)
                    | Some g \<Rightarrow>
                        do { let s1 = s\<lparr>m_mode := True\<rparr>;
                             (e, s2) \<leftarrow> (if m_broadcast s1
                                        then mcall_every g 1 MB_MASTER_TOTAL_SLAVE_NUM
                                               (MB_EX_ILLEGAL_FUNCTION, s1\<lparr>m_len := m_sndlen s1\<rparr>)
                                        else mcall g s1);
                             Some (e \<noteq> MB_EX_NONE, s2\<lparr>m_mode := False\<rparr>) } } }"

definition mpoll_execute :: "mb_master \<Rightarrow> mb_master option" where
  "mpoll_execute s =
     do { (bad, s1) \<leftarrow> mpoll_exception s;
          Some (if bad
                then xMBMasterPortEventPost EV_MASTER_ERROR_PROCESS (s1\<lparr>m_err := EV_ERROR_EXECUTE_FUNCTION\<rparr>)
                else vMBMasterRunResRelease (vMBMasterCBRequestScuuess s1)) }"

definition mpoll_send :: "mb_master \<Rightarrow> mb_master option" where
  "mpoll_send s = map_option snd (eMBMasterRTUSend (m_dest s) 1 (m_sndlen s) (s\<lparr>m_frame := Some request_frame\<rparr>))"

definition mpoll_error :: "mb_master \<Rightarrow> mb_master" where
  "mpoll_error s = vMBMasterRunResRelease
     ((case m_err s of
         EV_ERROR_RESPOND_TIMEOUT \<Rightarrow> vMBMasterErrorCBRespondTimeout
       | EV_ERROR_RECEIVE_DATA \<Rightarrow> vMBMasterErrorCBReceiveData
       | EV_ERROR_EXECUTE_FUNCTION \<Rightarrow> vMBMasterErrorCBExecuteFunction) (s\<lparr>m_frame := Some request_frame\<rparr>))"

text \<open>
  The status of the frame operations is computed but not returned. An event that was not assigned
  is not a value to switch on.
\<close>

definition eMBMasterPoll :: "mb_master \<Rightarrow> (eMBErrorCode \<times> mb_master) option" where
  "eMBMasterPoll s =
     (if m_state s \<noteq> STATE_ENABLED then Some (MB_EILLSTATE, s)
      else do { (e, s1) \<leftarrow> xMBMasterPortEventGet s;
                map_option (Pair MB_ENOERR)
                  (if e = None then None
                   else if e = Some EV_MASTER_FRAME_RECEIVED then mpoll_received s1
                   else if e = Some EV_MASTER_EXECUTE then mpoll_execute s1
                   else if e = Some EV_MASTER_FRAME_SENT then mpoll_send s1
                   else if e = Some EV_MASTER_ERROR_PROCESS then Some (mpoll_error s1)
                   else Some s1) })"

section \<open>One event at a time\<close>

lemma mpoll_event:
  assumes "m_state s = STATE_ENABLED" "m_events s \<inter> internal_events = {e}" "e \<in> internal_events"
  defines "s1 \<equiv> s\<lparr>m_events := m_events s - internal_events\<rparr>"
  shows "eMBMasterPoll s = map_option (Pair MB_ENOERR)
     (if e = EV_MASTER_FRAME_RECEIVED then mpoll_received s1
      else if e = EV_MASTER_EXECUTE then mpoll_execute s1
      else if e = EV_MASTER_FRAME_SENT then mpoll_send s1
      else if e = EV_MASTER_ERROR_PROCESS then Some (mpoll_error s1)
      else Some s1)"
proof -
  have "xMBMasterPortEventGet s = Some (Some e, s1)"
    unfolding xMBMasterPortEventGet_def Let_def assms(2) s1_def
    by (cases e) (use assms(3) in \<open>simp_all add: internal_events_def\<close>)
  then show ?thesis using assms(1) by (simp add: eMBMasterPoll_def)
qed

section \<open>Requests that are not sent\<close>

text \<open>A frame longer than the send buffer writes past its end; the longest request the protocol allows has 252 bytes.\<close>

lemma send_overflows:
  assumes "m_rcv s = STATE_M_RX_IDLE" "length (m_sndbuf s) = MB_PDU_SIZE_MAX" "MB_PDU_SIZE_MAX < m_sndlen s + 3" "m_sndlen s + 3 < 2 ^ 16"
    "unat (m_dest s) \<le> MB_MASTER_TOTAL_SLAVE_NUM"
  shows "mpoll_send s = None"
proof -
  have l: "\<not> (m_sndlen s + 2 < length (m_sndbuf s))" using assms(2,3) by simp
  have "eMBMasterRTUSend (m_dest s) 1 (m_sndlen s) (s\<lparr>m_frame := Some request_frame\<rparr>) = None"
    using assms(1,4,5) l
    by (auto simp: eMBMasterRTUSend_def mwr_def mem_write_def nat_add_distrib Let_def split: bind_splits)
  then show ?thesis by (simp add: mpoll_send_def)
qed

text \<open>While a frame is received the request is dropped, and nothing tells the thread that waits for it.\<close>

lemma refused_send_forgotten:
  assumes "m_rcv s \<noteq> STATE_M_RX_IDLE" "unat (m_dest s) \<le> MB_MASTER_TOTAL_SLAVE_NUM"
  shows "mpoll_send s = Some (s\<lparr>m_frame := Some request_frame\<rparr>)"
  using assms by (simp add: mpoll_send_def eMBMasterRTUSend_def)

end
