(* ===== verification/MbmSlave.thy ===== *)
theory MbmSlave
  imports MbmPoll
begin

unbundle bit_operations_syntax

text \<open>
  A Modbus master and a slave on one line: the request of an application thread, the main loop of the
  master (modbus/mb_m.c), the transmission, the cycle of the slave, its reply and the result the
  application gets. Also a slave that does not answer.
\<close>

section \<open>Transactions\<close>

text \<open>
  The main loop polls until no internal event is pending, where the next poll waits. \<open>None\<close> is also
  fuel that is not enough; three polls are the most a reply takes.
\<close>

fun mpoll_all :: "nat \<Rightarrow> mb_master \<Rightarrow> mb_master option" where
  "mpoll_all n s =
     (if m_events s \<inter> internal_events = {} then Some s
      else case n of 0 \<Rightarrow> None | Suc k \<Rightarrow> do { (e, t) \<leftarrow> eMBMasterPoll s; mpoll_all k t })"

declare mpoll_all.simps [simp del]

text \<open>The request is put on the line.\<close>

definition mstart :: "mrequest \<Rightarrow> mb_master \<Rightarrow> (eMBMasterReqErrCode option \<times> mb_master) option" where
  "mstart req m =
     do { (r, m1) \<leftarrow> req m;
          if r \<noteq> None then Some (r, m1)
          else do { m2 \<leftarrow> mpoll_all 1 m1; m3 \<leftarrow> master_transmit (Suc (m_cnt m2)) m2; Some (None, m3) } }"

text \<open>What was sent since the transmission of \<open>old\<close>.\<close>

definition sent_since :: "u8 list \<Rightarrow> u8 list \<Rightarrow> u8 list" where "sent_since old new = drop (length old) new"

definition mfinish :: "mb_master \<Rightarrow> (eMBMasterReqErrCode \<times> mb_master) option" where
  "mfinish m = do { m1 \<leftarrow> xMBMasterRTUTimerExpired m; m2 \<leftarrow> mpoll_all 3 m1; eMBMasterWaitRequestFinish m2 }"

definition transaction :: "mrequest \<Rightarrow> mb_master \<Rightarrow> mb_slave \<Rightarrow> (eMBMasterReqErrCode \<times> mb_master \<times> mb_slave) option" where
  "transaction req m s =
     do { (r, m1) \<leftarrow> mstart req m;
          case r of
            Some e \<Rightarrow> Some (e, m1, s)
          | None \<Rightarrow> do { s1 \<leftarrow> cycle (sent_since (m_tx m) (m_tx m1)) s;
                       m2 \<leftarrow> master_receive (sent_since (s_tx s) (s_tx s1)) m1;
                       (e, m3) \<leftarrow> mfinish m2;
                       Some (e, m3, s1) } }"

text \<open>A slave that does not answer: the next timer is the one for the reply.\<close>

definition unanswered :: "mrequest \<Rightarrow> mb_master \<Rightarrow> (eMBMasterReqErrCode \<times> mb_master) option" where
  "unanswered req m =
     do { (r, m1) \<leftarrow> mstart req m; case r of Some e \<Rightarrow> Some (e, m1) | None \<Rightarrow> mfinish m1 }"

text \<open>A master between two transactions; the tables have the sizes of the source.\<close>

definition master_ready :: "mb_master \<Rightarrow> bool" where
  "master_ready m \<longleftrightarrow> master_line m \<and> m_snd m = STATE_M_TX_IDLE \<and> m_state m = STATE_ENABLED \<and> m_events m = {} \<and>
     m_res m = 1 \<and> length (m_hold m) = MB_MASTER_TOTAL_SLAVE_NUM \<and>
     list_all (\<lambda>r. length r = M_REG_HOLDING_NREGS) (m_hold m)"

section \<open>Steps\<close>

text \<open>A master that has sent \<open>pdu\<close> to the slave \<open>a\<close> and waits for the reply.\<close>

definition reply_awaited :: "u8 \<Rightarrow> u8 list \<Rightarrow> mb_master \<Rightarrow> mb_master \<Rightarrow> bool" where
  "reply_awaited a pdu m w \<longleftrightarrow> master_line w \<and> m_snd w = STATE_M_TX_XFWR \<and> m_state w = STATE_ENABLED \<and> m_events w = {} \<and>
     m_res w = 0 \<and> m_dest w = a \<and> m_tmode w = MB_TMODE_RESPOND_TIMEOUT \<and> \<not> m_broadcast w \<and>
     m_tx w = m_tx m @ rtu_frame a pdu \<and> take (length pdu) (drop 1 (m_sndbuf w)) = pdu \<and> m_hold w = m_hold m"

lemma mpoll_all_idle: "m_events s \<inter> internal_events = {} \<Longrightarrow> mpoll_all n s = Some s"
  by (subst mpoll_all.simps) simp

lemma mpoll_all_step:
  assumes "m_state s = STATE_ENABLED" "m_events s \<inter> internal_events = {e}" "e \<in> internal_events"
  defines "s1 \<equiv> s\<lparr>m_events := m_events s - internal_events\<rparr>"
  shows "mpoll_all (Suc n) s =
     do { t \<leftarrow> (if e = EV_MASTER_FRAME_RECEIVED then mpoll_received s1
               else if e = EV_MASTER_EXECUTE then mpoll_execute s1
               else if e = EV_MASTER_FRAME_SENT then mpoll_send s1
               else if e = EV_MASTER_ERROR_PROCESS then Some (mpoll_error s1)
               else Some s1);
          mpoll_all n t }"
  using assms(2)
  by (subst mpoll_all.simps) (simp add: mpoll_event [OF assms(1,2,3)] s1_def map_option_case split: option.splits)

lemma mstart_waits:
  assumes r: "master_ready m" and p: "length pdu + 3 \<le> MB_PDU_SIZE_MAX" and a: "a \<noteq> 0" "unat a \<le> MB_MASTER_TOTAL_SLAVE_NUM"
  shows "\<exists>w. mstart (master_request a True (Some pdu)) m = Some (None, w) \<and> reply_awaited a pdu m w"
proof -
  have l: "length (m_sndbuf m) = 253" "m_rcv m = STATE_M_RX_IDLE" "m_res m = 1" "m_events m = {}"
    "m_state m = STATE_ENABLED" "length (m_rcvbuf m) = 256"
    using r by (auto simp: master_ready_def master_line_def master_sizes ser_sizes)
  have pl: "length pdu + 3 \<le> 253" using p by (simp add: master_sizes)
  let ?B = "take 1 (m_sndbuf m) @ pdu @ drop (1 + length pdu) (m_sndbuf m)"
  let ?m1 = "m\<lparr>m_res := 0, m_dest := a, m_sndbuf := ?B, m_sndlen := length pdu, m_events := {EV_MASTER_FRAME_SENT}\<rparr>"
  have lB: "length ?B = 253" "take (length pdu) (drop 1 ?B) = pdu" using pl l by simp_all
  have 1: "master_request a True (Some pdu) m = Some (None, ?m1)"
    using a(2) l pl put_pdu_spec [of 1 pdu "m\<lparr>m_res := 0, m_dest := a\<rparr>"]
    by (simp add: master_request_def xMBMasterRunResTake_def master_port)
  let ?m2 = "?m1\<lparr>m_events := {}, m_frame := Some request_frame\<rparr>"
  let ?m3 = "?m2\<lparr>m_sndbuf := rtu_frame a pdu @ drop (length pdu + 3) ?B,
    m_cur := 0, m_cnt := length pdu + 3, m_snd := STATE_M_TX_XMIT, m_rx_on := False, m_tx_on := True\<rparr>"
  have "master_line ?m2" using l lB by (simp add: master_line_def master_sizes ser_sizes)
  from master_send_frame [OF this p, of pdu a] have "eMBMasterRTUSend a 1 (length pdu) ?m2 = Some (MB_ENOERR, ?m3)"
    using lB(2) a(2) by simp
  then have "mpoll_send (?m1\<lparr>m_events := m_events ?m1 - internal_events\<rparr>) = Some ?m3"
    by (simp add: mpoll_send_def internal_events_def)
  then have 2: "mpoll_all 1 ?m1 = Some ?m3"
    using mpoll_all_step [of ?m1 EV_MASTER_FRAME_SENT 0] l mpoll_all_idle [of ?m3 0] by (simp add: internal_events_def)
  have ct: "rtu_frame a pdu @ drop (length pdu + 3) ?B = a # tl (rtu_frame a pdu) @ drop (length pdu + 3) ?B"
    by (simp add: rtu_frame_def Let_def)
  have len: "m_cur ?m3 + m_cnt ?m3 \<le> length (m_sndbuf ?m3)" using pl lB by simp
  note tr = master_transmit_spec [of ?m3 a "tl (rtu_frame a pdu) @ drop (length pdu + 3) ?B"]
  have 3: "master_transmit (Suc (m_cnt ?m3)) ?m3 =
    Some (?m3\<lparr>m_tx := m_tx ?m3 @ take (m_cnt ?m3) (drop (m_cur ?m3) (m_sndbuf ?m3)), m_cur := m_cur ?m3 + m_cnt ?m3,
            m_cnt := 0, m_snd := STATE_M_TX_XFWR, m_rx_on := True, m_tx_on := False, m_broadcast := (a = 0),
            m_tmode := (if a = 0 then MB_TMODE_CONVERT_DELAY else MB_TMODE_RESPOND_TIMEOUT), m_timer_on := True\<rparr>)"
    by (rule tr) (use l len ct in simp_all)
  have "take (length pdu) (drop 1 (rtu_frame a pdu @ drop (length pdu + 3) ?B)) = pdu"
    by (simp add: rtu_frame_def Let_def)
  then show ?thesis
    using 1 2 3 a(1) l pl lB unfolding mstart_def
    by (simp add: reply_awaited_def master_line_def master_sizes ser_sizes del: master_transmit.simps)
qed


section \<open>Replies\<close>

text \<open>The master when it has accepted the reply.\<close>

definition mgot :: "u8 \<Rightarrow> u8 list \<Rightarrow> mb_master \<Rightarrow> mb_master" where
  "mgot a reply w = w\<lparr>m_snd := STATE_M_TX_IDLE, m_rcvbuf := rtu_frame a reply @ drop (length reply + 3) (m_rcvbuf w),
     m_pos := length reply + 3, m_tmode := MB_TMODE_T35, m_timer_on := False, m_rcvaddr := a,
     m_frame := Some (In_Rcv 1), m_len := length reply\<rparr>"

definition concluded :: "bool \<Rightarrow> mb_master \<Rightarrow> mb_master" where
  "concluded bad s = (if bad then s\<lparr>m_err := EV_ERROR_EXECUTE_FUNCTION, m_frame := Some request_frame, m_res := m_res s + 1\<rparr>
     else s\<lparr>m_res := m_res s + 1\<rparr>)"

lemma mpoll_all_execute:
  assumes "mpoll_exception s = Some (bad, s1)" "m_state s = STATE_ENABLED" "m_events s = {}"
    and s1: "m_state s1 = STATE_ENABLED" "m_events s1 = {}"
  shows "do { m \<leftarrow> mpoll_all (Suc (Suc n)) (s\<lparr>m_events := {EV_MASTER_EXECUTE}\<rparr>); eMBMasterWaitRequestFinish m } =
     Some (if bad then MB_MRE_EXE_FUN else MB_MRE_NO_ERR, concluded bad s1)"
proof -
  let ?s = "s\<lparr>m_events := {EV_MASTER_EXECUTE}\<rparr>"
  have e: "?s\<lparr>m_events := m_events ?s - internal_events\<rparr> = s" using assms(3) by (simp add: internal_events_def)
  have st: "mpoll_all (Suc (Suc n)) ?s = do { t \<leftarrow> mpoll_execute s; mpoll_all (Suc n) t }"
    using mpoll_all_step [of ?s EV_MASTER_EXECUTE "Suc n"] assms(2) e by (simp add: internal_events_def)
  show ?thesis
  proof (cases bad)
    case True
    let ?t = "s1\<lparr>m_err := EV_ERROR_EXECUTE_FUNCTION, m_events := {EV_MASTER_ERROR_PROCESS}\<rparr>"
    have "mpoll_execute s = Some ?t" using True assms(1) s1 by (simp add: mpoll_execute_def master_port)
    moreover have "mpoll_all (Suc n) ?t = mpoll_all n (mpoll_error (?t\<lparr>m_events := {}\<rparr>))"
      using mpoll_all_step [of ?t EV_MASTER_ERROR_PROCESS n] s1 by (simp add: internal_events_def)
    moreover have "mpoll_error (?t\<lparr>m_events := {}\<rparr>) = s1\<lparr>m_err := EV_ERROR_EXECUTE_FUNCTION, m_frame := Some request_frame,
        m_res := m_res s1 + 1, m_events := {EV_MASTER_ERROR_EXECUTE_FUNCTION}\<rparr>" (is "_ = ?u")
      by (simp add: mpoll_error_def master_res master_port)
    moreover have "mpoll_all n ?u = Some ?u" by (rule mpoll_all_idle) (simp add: internal_events_def)
    ultimately show ?thesis
      using True s1 st by (simp add: eMBMasterWaitRequestFinish_def internal_events_def concluded_def)
  next
    case False
    let ?u = "s1\<lparr>m_res := m_res s1 + 1, m_events := {EV_MASTER_PROCESS_SUCESS}\<rparr>"
    have "mpoll_execute s = Some ?u" using False assms(1) s1 by (simp add: mpoll_execute_def master_port master_res)
    moreover have "mpoll_all (Suc n) ?u = Some ?u" by (rule mpoll_all_idle) (simp add: internal_events_def)
    ultimately show ?thesis
      using False s1 st by (simp add: eMBMasterWaitRequestFinish_def internal_events_def concluded_def)
  qed
qed

text \<open>A master that takes frames from \<open>a\<close>, whether it waits for one or not.\<close>

definition expecting :: "u8 \<Rightarrow> mb_master \<Rightarrow> bool" where
  "expecting a w \<longleftrightarrow> master_line w \<and> m_snd w \<noteq> STATE_M_TX_XMIT \<and> m_state w = STATE_ENABLED \<and> m_events w = {} \<and> m_dest w = a"

lemma awaited_expecting: "reply_awaited a pdu m w \<Longrightarrow> expecting a w"
  by (simp add: reply_awaited_def expecting_def)

lemma reply_concludes:
  assumes w: "expecting a w" and p: "reply \<noteq> []" "length reply + 3 < MB_SER_PDU_SIZE_MAX"
    and x: "mpoll_exception (mgot a reply w) = Some (bad, s1)" "m_state s1 = STATE_ENABLED" "m_events s1 = {}"
  shows "do { m2 \<leftarrow> master_receive (rtu_frame a reply) w; mfinish m2 } =
    Some (if bad then MB_MRE_EXE_FUN else MB_MRE_NO_ERR, concluded bad s1)"
proof -
  let ?f = "rtu_frame a reply"
  have l: "master_line w" "m_snd w \<noteq> STATE_M_TX_XMIT" "m_state w = STATE_ENABLED" "m_events w = {}" "m_dest w = a"
    "length (m_rcvbuf w) = 256"
    using w by (auto simp: expecting_def master_line_def ser_sizes)
  have ne: "?f \<noteq> []" "length ?f \<le> MB_SER_PDU_SIZE_MAX" using p(2) by (simp_all add: rtu_frame_def Let_def)
  let ?g = "(mgot a reply w)\<lparr>m_rcvaddr := m_rcvaddr w, m_frame := m_frame w, m_len := m_len w, m_events := {}\<rparr>"
  have rcv: "do { s1 \<leftarrow> master_receive ?f w; xMBMasterRTUTimerExpired s1 } = Some (?g\<lparr>m_events := {EV_MASTER_FRAME_RECEIVED}\<rparr>)"
    using master_receive_frame [OF l(1,2) ne] l(4) by (simp add: mgot_def)
  have "eMBMasterRTUReceive ?g = Some (Some (a, 1, length reply))"
    by (rule master_receive_accepts(1)) (use p l(6) in \<open>simp_all add: mgot_def ser_sizes\<close>)
  then have "mpoll_received ?g = Some ((mgot a reply w)\<lparr>m_events := {EV_MASTER_EXECUTE}\<rparr>)"
    using l by (simp add: mpoll_received_def master_port mgot_def)
  moreover have "m_state ?g = STATE_ENABLED" "m_events (mgot a reply w) = {}" "m_state (mgot a reply w) = STATE_ENABLED"
    using l by (simp_all add: mgot_def)
  ultimately have "mpoll_all 3 (?g\<lparr>m_events := {EV_MASTER_FRAME_RECEIVED}\<rparr>) =
      mpoll_all 2 ((mgot a reply w)\<lparr>m_events := {EV_MASTER_EXECUTE}\<rparr>)"
    using mpoll_all_step [of "?g\<lparr>m_events := {EV_MASTER_FRAME_RECEIVED}\<rparr>" EV_MASTER_FRAME_RECEIVED 2]
    by (simp add: internal_events_def numeral_eq_Suc)
  moreover have "do { m \<leftarrow> mpoll_all 2 ((mgot a reply w)\<lparr>m_events := {EV_MASTER_EXECUTE}\<rparr>); eMBMasterWaitRequestFinish m } =
      Some (if bad then MB_MRE_EXE_FUN else MB_MRE_NO_ERR, concluded bad s1)"
    using mpoll_all_execute [OF x(1) _ _ x(2,3), of 0] l by (simp add: mgot_def numeral_2_eq_2)
  moreover have "do { m2 \<leftarrow> master_receive ?f w; mfinish m2 } =
      do { m1 \<leftarrow> do { s1 \<leftarrow> master_receive ?f w; xMBMasterRTUTimerExpired s1 }; m2 \<leftarrow> mpoll_all 3 m1; eMBMasterWaitRequestFinish m2 }"
    by (simp add: mfinish_def Option.bind_assoc)
  ultimately show ?thesis unfolding rcv by simp
qed


section \<open>The handlers on a reply\<close>

lemma got_reads: "i < length reply \<Longrightarrow> frd (In_Rcv 1) i (mgot a reply w) = Some (reply ! i)"
  by (simp add: frd_def mem_read_def mgot_def rtu_frame_def Let_def nth_append nat_add_distrib)

lemma asked_reads:
  assumes "reply_awaited a pdu m w" "i < length pdu"
  shows "frd request_frame i (mgot a reply w) = Some (pdu ! i)"
proof -
  have t: "take (length pdu) (drop 1 (m_sndbuf w)) = pdu" using assms(1) by (simp add: reply_awaited_def)
  have "length (take (length pdu) (drop 1 (m_sndbuf w))) = length pdu" by (simp only: t)
  then have "1 + i < length (m_sndbuf w)" using assms(2) by simp
  moreover have "m_sndbuf w ! (1 + i) = pdu ! i"
    using assms(2) calculation by (subst t [symmetric]) simp
  ultimately show ?thesis by (simp add: frd_def mem_read_def mgot_def nat_add_distrib)
qed

lemma frd16_be16:
  assumes "frd fr i s = Some (be16 v ! 0)" "frd fr (i + 1) s = Some (be16 v ! 1)"
  shows "frd16 fr i s = Some v"
  using assms by (simp add: frd16_def be16_def join_halves)

text \<open>The row of a slave after \<open>vs\<close> has been stored from register \<open>i\<close> on.\<close>

definition hold_stored :: "u8 \<Rightarrow> nat \<Rightarrow> u16 list \<Rightarrow> u16 list list \<Rightarrow> u16 list list" where
  "hold_stored a i vs tab = (let r = unat a - 1 in
     tab[r := take i (tab ! r) @ vs @ drop (i + length vs) (tab ! r)])"

lemma hold_cb_stores:
  assumes h: "length (m_hold s) = MB_MASTER_TOTAL_SLAVE_NUM" "list_all (\<lambda>r. length r = M_REG_HOLDING_NREGS) (m_hold s)"
    and a: "m_dest s = a" "a \<noteq> 0" "unat a \<le> MB_MASTER_TOTAL_SLAVE_NUM"
    and v: "take (2 * length vs) (drop p src) = regs_bytes vs" "p + 2 * length vs \<le> length src"
    and n: "unat n = length vs" "unat start + length vs \<le> M_REG_HOLDING_NREGS"
  shows "eMBMasterRegHoldingCB src p (start + 1) n md s = Some (MB_ENOERR, s\<lparr>m_hold := hold_stored a (unat start) vs (m_hold s)\<rparr>)"
proof -
  have u: "0 < unat a" using a(2) by (simp add: unat_gt_0)
  have r: "master_row s = int (unat a - 1)" "unat a - 1 < length (m_hold s)"
    using u a h by (simp_all add: master_row_def master_sizes of_nat_diff)
  have l: "length (m_hold s ! (unat a - 1)) = 100"
    using h(2) r(2) by (simp add: list_all_length master_limits)
  have "row_write (int (unat a - 1)) src p (unat start) (length vs) (m_hold s) =
      Some (hold_stored a (unat start) vs (m_hold s))"
    using row_write_spec [OF v r(2), of "unat start"] n l by (simp add: hold_stored_def Let_def master_limits)
  then show ?thesis using n r by (simp add: eMBMasterRegHoldingCB_def Let_def master_limits)
qed

lemma hold_stored_keeps:
  assumes "length tab = MB_MASTER_TOTAL_SLAVE_NUM" "list_all (\<lambda>r. length r = M_REG_HOLDING_NREGS) tab"
    and "unat a \<le> MB_MASTER_TOTAL_SLAVE_NUM" "a \<noteq> 0" "i + length vs \<le> M_REG_HOLDING_NREGS"
  shows "length (hold_stored a i vs tab) = MB_MASTER_TOTAL_SLAVE_NUM"
    "list_all (\<lambda>r. length r = M_REG_HOLDING_NREGS) (hold_stored a i vs tab)"
proof -
  have r: "unat a - 1 < length tab" using assms unat_gt_0 [of a] by (simp add: master_sizes)
  then have "length (tab ! (unat a - 1)) = M_REG_HOLDING_NREGS" using assms(2) by (simp add: list_all_length)
  then show "list_all (\<lambda>r. length r = M_REG_HOLDING_NREGS) (hold_stored a i vs tab)"
    using assms(2,5) r by (auto simp: hold_stored_def Let_def list_all_length nth_list_update)
qed (use assms in \<open>simp add: hold_stored_def Let_def\<close>)


lemma frd_mode [simp]: "frd fr i (s\<lparr>m_mode := b\<rparr>) = frd fr i s" "frd16 fr i (s\<lparr>m_mode := b\<rparr>) = frd16 fr i s"
proof -
  show f: "frd fr i (s\<lparr>m_mode := b\<rparr>) = frd fr i s" for i by (cases fr) (simp_all add: frd_def)
  show "frd16 fr i (s\<lparr>m_mode := b\<rparr>) = frd16 fr i s" by (simp add: frd16_def f)
qed

lemma got_waits:
  assumes "reply_awaited a pdu m w"
  shows "m_dest (mgot a reply w) = a" "\<not> m_broadcast (mgot a reply w)" "m_hold (mgot a reply w) = m_hold m"
    "m_frame (mgot a reply w) = Some (In_Rcv 1)" "m_len (mgot a reply w) = length reply"
    "m_state (mgot a reply w) = STATE_ENABLED" "m_events (mgot a reply w) = {}" "m_res (mgot a reply w) = 0"
    "m_snd (mgot a reply w) = STATE_M_TX_IDLE" "m_rcv (mgot a reply w) = STATE_M_RX_IDLE"
    "length (m_sndbuf (mgot a reply w)) = MB_PDU_SIZE_MAX" "m_tx (mgot a reply w) = m_tx m @ rtu_frame a pdu"
  using assms by (simp_all add: reply_awaited_def mgot_def master_line_def)

lemma reply_data:
  assumes "reply = xs @ regs_bytes vs @ ys"
  shows "take (2 * length vs) (drop (1 + length xs) (m_rcvbuf (mgot a reply w))) = regs_bytes vs"
    "1 + length xs + 2 * length vs \<le> length (m_rcvbuf (mgot a reply w))"
  by (simp_all add: mgot_def assms rtu_frame_def Let_def)

lemma read_reply:
  assumes r: "master_ready m" and w: "reply_awaited a pdu m w" and a: "a \<noteq> 0" "unat a \<le> MB_MASTER_TOTAL_SLAVE_NUM"
    and pdu: "pdu = [3] @ be16 start @ be16 n" and reply: "reply = 3 # ucast (n * 2) # regs_bytes vs"
    and n: "unat n = length vs" "1 \<le> length vs" "length vs \<le> 0x7D" "unat start + length vs \<le> M_REG_HOLDING_NREGS"
  shows "mpoll_exception (mgot a reply w) =
    Some (False, (mgot a reply w)\<lparr>m_hold := hold_stored a (unat start) vs (m_hold m), m_mode := False\<rparr>)"
proof -
  let ?g = "mgot a reply w"
  note g = got_waits [OF w, of reply]
  have q: "frd request_frame i ?g = Some (pdu ! i)" if "i < 5" for i
    using asked_reads [OF w, of i reply] that by (simp add: pdu be16_def)
  have st: "frd16 request_frame 1 ?g = Some start"
    by (rule frd16_be16) (use q [of 1] q [of 2] in \<open>simp_all add: pdu be16_def numeral_2_eq_2\<close>)
  have nn: "frd16 request_frame 3 ?g = Some n"
    by (rule frd16_be16) (use q [of 3] q [of 4] in \<open>simp_all add: pdu be16_def numeral_eq_Suc\<close>)
  have rp: "frd (In_Rcv 1) 0 ?g = Some 3" "frd (In_Rcv 1) 1 ?g = Some (ucast (n * 2))"
    using got_reads [of 0 reply a w] got_reads [of 1 reply a w] by (simp_all add: reply)
  have "unat (ucast (n * 2) :: u8) = 2 * unat n"
    by (rule twice_byte) (use n in simp)
  note bc = this
  have cb: "eMBMasterRegHoldingCB (m_rcvbuf ?g) 3 (start + 1) n MB_REG_READ (?g\<lparr>m_mode := True\<rparr>) =
      Some (MB_ENOERR, ?g\<lparr>m_mode := True, m_hold := hold_stored a (unat start) vs (m_hold ?g)\<rparr>)"
    using hold_cb_stores [of "?g\<lparr>m_mode := True\<rparr>" a vs 3 "m_rcvbuf ?g" n start MB_REG_READ]
      reply_data [of reply "[3, ucast (n * 2)]" vs "[]" a w] r a n g by (simp add: reply master_ready_def numeral_eq_Suc)
  have "eMBMasterFuncReadHoldingRegister (In_Rcv 1) (length reply) (?g\<lparr>m_mode := True\<rparr>) =
      Some (MB_EX_NONE, ?g\<lparr>m_mode := True, m_hold := hold_stored a (unat start) vs (m_hold ?g)\<rparr>)"
    using st nn rp bc cb g n
    by (simp add: eMBMasterFuncReadHoldingRegister_def pdu_offsets after_cb_def numeral_eq_Suc reply)
  moreover have "find_handler 3 xMasterFuncHandlers = Some (Some ReadHoldingRegister)"
    by (simp add: xMasterFuncHandlers_def)
  ultimately show ?thesis
    using g rp(1) by (simp add: mpoll_exception_def mcall_def pdu_offsets)
qed


lemma write_reply:
  assumes r: "master_ready m" and w: "reply_awaited a pdu m w" and a: "a \<noteq> 0" "unat a \<le> MB_MASTER_TOTAL_SLAVE_NUM"
    and pdu: "pdu = [16] @ be16 start @ be16 n @ [ucast (2 * n)] @ regs_bytes vs" and reply: "reply = [16] @ be16 start @ be16 n"
    and n: "unat n = length vs" "1 \<le> length vs" "length vs \<le> 0x78" "unat start + length vs \<le> M_REG_HOLDING_NREGS"
  shows "mpoll_exception (mgot a reply w) =
    Some (False, (mgot a reply w)\<lparr>m_hold := hold_stored a (unat start) vs (m_hold m), m_mode := False\<rparr>)"
proof -
  let ?g = "mgot a reply w"
  note g = got_waits [OF w, of reply]
  have q: "frd request_frame i ?g = Some (pdu ! i)" if "i < 6" for i
    using asked_reads [OF w, of i reply] that by (simp add: pdu be16_def)
  have st: "frd16 request_frame 1 ?g = Some start"
    by (rule frd16_be16) (use q [of 1] q [of 2] in \<open>simp_all add: pdu be16_def numeral_2_eq_2\<close>)
  have nn: "frd16 request_frame 3 ?g = Some n"
    by (rule frd16_be16) (use q [of 3] q [of 4] in \<open>simp_all add: pdu be16_def numeral_eq_Suc\<close>)
  have bc: "frd request_frame 5 ?g = Some (ucast (n * 2))" "unat (ucast (n * 2) :: u8) = 2 * unat n"
    using q [of 5] twice_byte [of n] n by (simp_all add: pdu be16_def numeral_eq_Suc mult.commute)
  have rp: "frd (In_Rcv 1) 0 ?g = Some 16" using got_reads [of 0 reply a w] by (simp add: reply)
  have t: "take (length pdu) (drop 1 (m_sndbuf ?g)) = pdu" using w by (simp add: reply_awaited_def mgot_def)
  have "take (2 * length vs) (drop 6 (take (length pdu) (drop 1 (m_sndbuf ?g)))) = regs_bytes vs"
    unfolding t by (simp add: pdu be16_def)
  then have data: "take (2 * length vs) (drop 7 (m_sndbuf ?g)) = regs_bytes vs"
    by (simp add: drop_take pdu be16_def)
  have cb: "eMBMasterRegHoldingCB (m_sndbuf ?g) 7 (start + 1) n MB_REG_WRITE (?g\<lparr>m_mode := True\<rparr>) =
      Some (MB_ENOERR, ?g\<lparr>m_mode := True, m_hold := hold_stored a (unat start) vs (m_hold ?g)\<rparr>)"
    using hold_cb_stores [of "?g\<lparr>m_mode := True\<rparr>" a vs 7 "m_sndbuf ?g" n start MB_REG_WRITE]
      data r a n g by (simp add: master_ready_def master_sizes)
  have "eMBMasterFuncWriteMultipleHoldingRegister (In_Rcv 1) (length reply) (?g\<lparr>m_mode := True\<rparr>) =
      Some (MB_EX_NONE, ?g\<lparr>m_mode := True, m_hold := hold_stored a (unat start) vs (m_hold ?g)\<rparr>)"
    using st nn bc cb n g
    by (simp add: eMBMasterFuncWriteMultipleHoldingRegister_def pdu_offsets after_cb_def numeral_eq_Suc reply be16_def)
  moreover have "find_handler 16 xMasterFuncHandlers = Some (Some WriteMultipleHoldingRegister)"
    by (simp add: xMasterFuncHandlers_def)
  ultimately show ?thesis
    using g rp by (simp add: mpoll_exception_def mcall_def pdu_offsets)
qed

lemma exception_reply:
  assumes "drop_bit 7 x \<noteq> 0"
  shows "mpoll_exception (mgot a [x, c] w) = Some (c \<noteq> 0, mgot a [x, c] w)"
proof -
  have "m_frame (mgot a [x, c] w) = Some (In_Rcv 1)" by (simp add: mgot_def)
  then show ?thesis
    using got_reads [of 0 "[x, c]" a w] got_reads [of 1 "[x, c]" a w] assms
    by (simp add: mpoll_exception_def pdu_offsets)
qed

text \<open>An exception reply with the code 0 counts as success.\<close>

lemma zero_exception_succeeds:
  assumes "expecting a w" "drop_bit 7 x \<noteq> 0"
  shows "do { m2 \<leftarrow> master_receive (rtu_frame a [x, 0]) w; mfinish m2 } =
    Some (MB_MRE_NO_ERR, concluded False (mgot a [x, 0] w))"
  using reply_concludes [OF assms(1) _ _ exception_reply [OF assms(2), of a 0 w]] assms(1)
  by (simp add: ser_sizes expecting_def mgot_def)

text \<open>
  A reply that comes when nobody waits, as after a timeout, releases the resource once more: two
  requests can then run at once.
\<close>

lemma late_reply_releases_again:
  assumes "master_ready m" "m_dest m = a"
  shows "\<exists>m'. do { m2 \<leftarrow> master_receive (rtu_frame a [0x83, 2]) m; mfinish m2 } = Some (MB_MRE_EXE_FUN, m') \<and> m_res m' = 2"
proof -
  have e: "expecting a m" using assms by (simp add: expecting_def master_ready_def)
  have x: "mpoll_exception (mgot a [0x83, 2] m) = Some (True, mgot a [0x83, 2] m)"
    using exception_reply [of "0x83" a 2 m] by simp
  have "do { m2 \<leftarrow> master_receive (rtu_frame a [0x83, 2]) m; mfinish m2 } =
      Some (if True then MB_MRE_EXE_FUN else MB_MRE_NO_ERR, concluded True (mgot a [0x83, 2] m))"
    by (rule reply_concludes [OF e _ _ x]) (use e in \<open>simp_all add: ser_sizes expecting_def mgot_def\<close>)
  then show ?thesis using assms(1) by (simp add: concluded_def mgot_def master_ready_def)
qed

section \<open>Whole transactions\<close>

text \<open>Both stations are ready for the next transaction, and the tables are as given.\<close>

definition transacted :: "u8 \<Rightarrow> mb_slave \<Rightarrow> u16 list \<Rightarrow> u16 list list \<Rightarrow> mb_master \<Rightarrow> mb_slave \<Rightarrow> bool" where
  "transacted a s hold tab m' s' \<longleftrightarrow> master_ready m' \<and> m_hold m' = tab \<and> slave_ready a s' \<and> s_hold s' = hold \<and>
     s_handlers s' = s_handlers s \<and> s_inp s' = s_inp s \<and> s_coil s' = s_coil s"

lemma transaction_of_reply:
  assumes r: "master_ready m" "slave_ready a s" and a: "unat a \<le> MB_MASTER_TOTAL_SLAVE_NUM"
    and p: "length pdu + 3 \<le> MB_PDU_SIZE_MAX" "reply \<noteq> []" "length reply + 3 < MB_SER_PDU_SIZE_MAX"
    and c: "\<exists>t. cycle (rtu_frame a pdu) s = Some t \<and> replied a reply hold s t"
    and x: "\<And>w. reply_awaited a pdu m w \<Longrightarrow> \<exists>b. mpoll_exception (mgot a reply w) =
      Some (bad, (mgot a reply w)\<lparr>m_hold := tab, m_mode := b\<rparr>)"
    and tab: "length tab = MB_MASTER_TOTAL_SLAVE_NUM" "list_all (\<lambda>r. length r = M_REG_HOLDING_NREGS) tab"
  shows "\<exists>m' s'. transaction (master_request a True (Some pdu)) m s =
      Some (if bad then MB_MRE_EXE_FUN else MB_MRE_NO_ERR, m', s') \<and> transacted a s hold tab m' s'"
proof -
  have a0: "a \<noteq> 0" using r(2) by (auto simp: slave_ready_def MB_ADDRESS_BROADCAST_def)
  obtain w where w: "mstart (master_request a True (Some pdu)) m = Some (None, w)" "reply_awaited a pdu m w"
    using mstart_waits [OF r(1) p(1) a0 a] by blast
  obtain t where t: "cycle (rtu_frame a pdu) s = Some t" "replied a reply hold s t" using c by blast
  obtain b where b: "mpoll_exception (mgot a reply w) = Some (bad, (mgot a reply w)\<lparr>m_hold := tab, m_mode := b\<rparr>)"
    using x [OF w(2)] by blast
  let ?s1 = "(mgot a reply w)\<lparr>m_hold := tab, m_mode := b\<rparr>"
  note g = got_waits [OF w(2), of reply]
  have f: "do { m2 \<leftarrow> master_receive (rtu_frame a reply) w; mfinish m2 } =
    Some (if bad then MB_MRE_EXE_FUN else MB_MRE_NO_ERR, concluded bad ?s1)"
    by (rule reply_concludes [OF awaited_expecting [OF w(2)] p(2,3) b]) (use g in simp_all)
  have tx: "sent_since (m_tx m) (m_tx w) = rtu_frame a pdu" "sent_since (s_tx s) (s_tx t) = rtu_frame a reply"
    using w(2) t(2) by (simp_all add: sent_since_def reply_awaited_def replied_def)
  have "transaction (master_request a True (Some pdu)) m s =
      do { r \<leftarrow> do { m2 \<leftarrow> master_receive (rtu_frame a reply) w; mfinish m2 }; Some (fst r, snd r, t) }"
    by (simp add: transaction_def w(1) tx t(1) Option.bind_assoc case_prod_unfold)
  also have "\<dots> = Some (if bad then MB_MRE_EXE_FUN else MB_MRE_NO_ERR, concluded bad ?s1, t)"
    unfolding f by simp
  finally have "transaction (master_request a True (Some pdu)) m s =
      Some (if bad then MB_MRE_EXE_FUN else MB_MRE_NO_ERR, concluded bad ?s1, t)" .
  moreover have "master_ready (concluded bad ?s1)" "m_hold (concluded bad ?s1) = tab"
    using g tab w(2) p(3) by (simp_all add: master_ready_def master_line_def concluded_def)
      (simp_all add: mgot_def reply_awaited_def master_line_def)
  ultimately show ?thesis using t(2) by (auto simp: transacted_def replied_def)
qed


lemma concat_be16 [simp]: "concat (map be16 vs) = regs_bytes vs"
  by (induction vs) (simp_all add: be16_def)

lemma slave_not_broadcast: "slave_ready a s \<Longrightarrow> a \<noteq> 0"
  by (auto simp: slave_ready_def MB_ADDRESS_BROADCAST_def)

lemma transaction_write:
  assumes r: "master_ready m" "slave_ready a s" "s_handlers s = xFuncHandlers" and a: "unat a \<le> MB_MASTER_TOTAL_SLAVE_NUM"
    and n: "1 \<le> length vs" "length vs \<le> 0x78" "unat start + length vs \<le> S_REG_HOLDING_NREGS"
  shows "\<exists>m' s'. transaction (eMBMasterReqWriteMultipleHoldingRegister a start (of_nat (length vs)) vs) m s =
      Some (MB_MRE_NO_ERR, m', s') \<and>
    transacted a s (take (unat start) (s_hold s) @ vs @ drop (unat start + length vs) (s_hold s))
      (hold_stored a (unat start) vs (m_hold m)) m' s'"
proof -
  define k where "k = (of_nat (length vs) :: u16)"
  have un: "unat k = length vs" using n(2) by (simp add: k_def unat_of_nat)
  let ?pdu = "[16] @ be16 start @ be16 k @ [ucast (2 * k)] @ regs_bytes vs"
  have req: "eMBMasterReqWriteMultipleHoldingRegister a start k vs = master_request a True (Some ?pdu)"
    by (rule ext) (simp add: eMBMasterReqWriteMultipleHoldingRegister_def un mult.commute)
  have nr: "unat start + length vs \<le> M_REG_HOLDING_NREGS" using n(3) by (simp add: table_limits master_limits)
  note a0 = slave_not_broadcast [OF r(2)]
  have tab: "length (m_hold m) = MB_MASTER_TOTAL_SLAVE_NUM" "list_all (\<lambda>r. length r = M_REG_HOLDING_NREGS) (m_hold m)"
    using r(1) by (simp_all add: master_ready_def)
  have x: "\<exists>b. mpoll_exception (mgot a ([16] @ be16 start @ be16 k) w) =
      Some (False, (mgot a ([16] @ be16 start @ be16 k) w)\<lparr>m_hold := hold_stored a (unat start) vs (m_hold m), m_mode := b\<rparr>)"
    if "reply_awaited a ?pdu m w" for w
    by (rule exI, rule write_reply [OF r(1) that a0 a refl refl un n(1,2) nr])
  have "\<exists>m' s'. transaction (master_request a True (Some ?pdu)) m s =
      Some (if False then MB_MRE_EXE_FUN else MB_MRE_NO_ERR, m', s') \<and>
    transacted a s (take (unat start) (s_hold s) @ vs @ drop (unat start + length vs) (s_hold s))
      (hold_stored a (unat start) vs (m_hold m)) m' s'"
    by (rule transaction_of_reply [OF r(1,2) a _ _ _ cycle_write_holding [OF r(2,3) n, folded k_def] x
          hold_stored_keeps [OF tab a a0 nr]])
      (use n in \<open>simp_all add: be16_def master_sizes ser_sizes\<close>)
  then show ?thesis unfolding k_def [symmetric] req by simp
qed

lemma transaction_read:
  assumes r: "master_ready m" "slave_ready a s" "s_handlers s = xFuncHandlers" and a: "unat a \<le> MB_MASTER_TOTAL_SLAVE_NUM"
    and n: "1 \<le> unat n" "unat start + unat n \<le> S_REG_HOLDING_NREGS"
  shows "\<exists>m' s'. transaction (eMBMasterReqReadHoldingRegister a start n) m s = Some (MB_MRE_NO_ERR, m', s') \<and>
    transacted a s (s_hold s) (hold_stored a (unat start) (take (unat n) (drop (unat start) (s_hold s))) (m_hold m)) m' s'"
proof -
  let ?pdu = "[3] @ be16 start @ be16 n"
  let ?vs = "take (unat n) (drop (unat start) (s_hold s))"
  let ?reply = "3 # ucast (n * 2) # regs_bytes ?vs"
  have req: "eMBMasterReqReadHoldingRegister a start n = master_request a True (Some ?pdu)"
    by (simp add: eMBMasterReqReadHoldingRegister_def)
  have le: "unat n \<le> 100" using n(2) by (simp add: table_limits)
  have un: "unat n = length ?vs" using r(2) n(2) by (simp add: slave_ready_def)
  have nr: "unat start + length ?vs \<le> M_REG_HOLDING_NREGS" "1 \<le> length ?vs" "length ?vs \<le> 0x7D"
    unfolding un [symmetric] using n le by (simp_all add: table_limits master_limits)
  note a0 = slave_not_broadcast [OF r(2)]
  have tab: "length (m_hold m) = MB_MASTER_TOTAL_SLAVE_NUM" "list_all (\<lambda>r. length r = M_REG_HOLDING_NREGS) (m_hold m)"
    using r(1) by (simp_all add: master_ready_def)
  have x: "\<exists>b. mpoll_exception (mgot a ?reply w) =
      Some (False, (mgot a ?reply w)\<lparr>m_hold := hold_stored a (unat start) ?vs (m_hold m), m_mode := b\<rparr>)"
    if "reply_awaited a ?pdu m w" for w
    by (rule exI, rule read_reply [OF r(1) that a0 a refl refl un nr(2,3,1)])
  have c: "\<exists>t. cycle (rtu_frame a ?pdu) s = Some t \<and> replied a ?reply (s_hold s) s t"
    by (rule cycle_read_holding [OF r(2,3) n(1) _ n(2)]) (use le in simp)
  have "\<exists>m' s'. transaction (master_request a True (Some ?pdu)) m s =
      Some (if False then MB_MRE_EXE_FUN else MB_MRE_NO_ERR, m', s') \<and>
    transacted a s (s_hold s) (hold_stored a (unat start) ?vs (m_hold m)) m' s'"
    by (rule transaction_of_reply [OF r(1,2) a _ _ _ c x hold_stored_keeps [OF tab a a0 nr(1)]])
      (use le in \<open>simp_all add: be16_def master_sizes ser_sizes\<close>)
  then show ?thesis unfolding req by simp
qed

lemma transaction_read_outside:
  assumes r: "master_ready m" "slave_ready a s" "s_handlers s = xFuncHandlers" and a: "unat a \<le> MB_MASTER_TOTAL_SLAVE_NUM"
    and n: "1 \<le> unat n" "unat n \<le> 0x7D" "S_REG_HOLDING_NREGS < unat start + unat n"
  shows "\<exists>m' s'. transaction (eMBMasterReqReadHoldingRegister a start n) m s = Some (MB_MRE_EXE_FUN, m', s') \<and>
    transacted a s (s_hold s) (m_hold m) m' s'"
proof -
  let ?pdu = "[3] @ be16 start @ be16 n"
  have req: "eMBMasterReqReadHoldingRegister a start n = master_request a True (Some ?pdu)"
    by (simp add: eMBMasterReqReadHoldingRegister_def)
  have x: "\<exists>b. mpoll_exception (mgot a [0x83, 2] w) = Some (True, (mgot a [0x83, 2] w)\<lparr>m_hold := m_hold m, m_mode := b\<rparr>)"
    if w: "reply_awaited a ?pdu m w" for w
  proof -
    let ?g = "mgot a [0x83, 2] w"
    have "mpoll_exception ?g = Some (True, ?g)" using exception_reply [of "0x83" a 2 w] by simp
    moreover have "?g = ?g\<lparr>m_hold := m_hold m, m_mode := m_mode ?g\<rparr>" using got_waits(3) [OF w, of "[0x83, 2]"] by simp
    ultimately show ?thesis by metis
  qed
  have "\<exists>m' s'. transaction (master_request a True (Some ?pdu)) m s =
      Some (if True then MB_MRE_EXE_FUN else MB_MRE_NO_ERR, m', s') \<and> transacted a s (s_hold s) (m_hold m) m' s'"
    by (rule transaction_of_reply [OF r(1,2) a _ _ _ cycle_read_outside [OF r(2,3) n] x])
      (use r(1) in \<open>simp_all add: be16_def master_sizes ser_sizes master_ready_def\<close>)
  then show ?thesis unfolding req by simp
qed

lemma unanswered_times_out:
  assumes r: "master_ready m" and p: "length pdu + 3 \<le> MB_PDU_SIZE_MAX" and a: "a \<noteq> 0" "unat a \<le> MB_MASTER_TOTAL_SLAVE_NUM"
  shows "\<exists>m'. unanswered (master_request a True (Some pdu)) m = Some (MB_MRE_TIMEDOUT, m') \<and> master_ready m' \<and>
    m_hold m' = m_hold m \<and> m_tx m' = m_tx m @ rtu_frame a pdu"
proof -
  obtain w where w: "mstart (master_request a True (Some pdu)) m = Some (None, w)" "reply_awaited a pdu m w"
    using mstart_waits [OF r p a] by blast
  let ?t = "w\<lparr>m_err := EV_ERROR_RESPOND_TIMEOUT, m_events := {EV_MASTER_ERROR_PROCESS}, m_snd := STATE_M_TX_IDLE,
      m_rcv := STATE_M_RX_IDLE, m_timer_on := False\<rparr>"
  have t: "xMBMasterRTUTimerExpired w = Some ?t"
    using w(2) by (simp add: reply_awaited_def master_line_def xMBMasterRTUTimerExpired_def master_port)
  let ?u = "?t\<lparr>m_events := {EV_MASTER_ERROR_RESPOND_TIMEOUT}, m_frame := Some request_frame, m_res := m_res ?t + 1\<rparr>"
  have "mpoll_error (?t\<lparr>m_events := {}\<rparr>) = ?u" by (simp add: mpoll_error_def master_res master_port)
  moreover have "mpoll_all n ?u = Some ?u" for n by (rule mpoll_all_idle) (simp add: internal_events_def)
  ultimately have "mpoll_all 3 ?t = Some ?u"
    using mpoll_all_step [of ?t EV_MASTER_ERROR_PROCESS 2] w(2) by (simp add: internal_events_def reply_awaited_def numeral_eq_Suc)
  then have "unanswered (master_request a True (Some pdu)) m = Some (MB_MRE_TIMEDOUT, ?u\<lparr>m_events := {}\<rparr>)"
    by (simp add: unanswered_def w(1) mfinish_def t eMBMasterWaitRequestFinish_def internal_events_def)
  then show ?thesis
    using w(2) r by (auto simp: reply_awaited_def master_ready_def master_line_def)
qed

lemma read_times_out:
  assumes "master_ready m" "a \<noteq> 0" "unat a \<le> MB_MASTER_TOTAL_SLAVE_NUM"
  shows "\<exists>m'. unanswered (eMBMasterReqReadHoldingRegister a start n) m = Some (MB_MRE_TIMEDOUT, m') \<and> m_hold m' = m_hold m \<and>
    master_ready m'"
proof -
  have "length (3 # be16 start @ be16 n) + 3 \<le> MB_PDU_SIZE_MAX" by (simp add: be16_def master_sizes)
  from unanswered_times_out [OF assms(1) this assms(2,3)] show ?thesis
    unfolding eMBMasterReqReadHoldingRegister_def by blast
qed

end
