(* ===== verification/KState.thy ===== *)
theory KState
  imports KPrelude
begin

unbundle bit_operations_syntax

text \<open>
  The state of the single-core kernel: thread control blocks, the intrusive lists that link
  threads (ready table, suspend lists of the IPC objects, defunct list), the scheduler
  globals of src/scheduler.c, the tick of src/clock.c, the timers of src/timer.c and the IPC
  objects of src/ipc.c (structures in include/rtdef.h). Object addresses are natural
  numbers, one address space per object class, which is what the class tests of the code
  establish; stacks, names and the signal bits of the
  thread status (RT_USING_SIGNALS is off) are left out.
\<close>

type_synonym tid = nat
type_synonym oid = nat

section \<open>Error codes and configuration\<close>

abbreviation RT_EOK :: int where "RT_EOK \<equiv> 0"
abbreviation RT_ERROR :: int where "RT_ERROR \<equiv> 1"
abbreviation RT_ETIMEOUT :: int where "RT_ETIMEOUT \<equiv> 2"
abbreviation RT_EFULL :: int where "RT_EFULL \<equiv> 3"
abbreviation RT_EINTR :: int where "RT_EINTR \<equiv> 9"

definition RT_THREAD_PRIORITY_MAX :: nat where
  "RT_THREAD_PRIORITY_MAX = 32"

definition RT_TICK_MAX :: u32 where
  "RT_TICK_MAX = 0xffffffff"

definition RT_TICK_HALF :: u32 where
  "RT_TICK_HALF = RT_TICK_MAX div 2"

section \<open>Threads and timers\<close>

datatype tstat =
  RT_THREAD_INIT | RT_THREAD_READY | RT_THREAD_SUSPEND | RT_THREAD_RUNNING | RT_THREAD_CLOSE

record rt_thread =
  t_error :: int
  t_stat :: tstat
  t_current_priority :: nat
  t_init_priority :: nat
  t_number_mask :: u32
  t_event_set :: u32
  t_event_info :: u8
  t_init_tick :: u32
  t_remaining_tick :: u32
  t_cleanup :: bool        \<comment> \<open>a cleanup function is set\<close>
  t_static :: bool         \<comment> \<open>\<open>rt_object_is_systemobject\<close>\<close>
  t_attached :: bool       \<comment> \<open>in the object container, with its class\<close>

text \<open>A timer is a thread's built-in one or another; its callback likewise.\<close>

datatype tmid = ThreadTimer tid | SysTimer nat

datatype timeout_fn = Thread_Timeout tid | User_Timeout nat

record rt_timer =
  tm_activated :: bool     \<comment> \<open>\<open>RT_TIMER_FLAG_ACTIVATED\<close>\<close>
  tm_periodic :: bool      \<comment> \<open>\<open>RT_TIMER_FLAG_PERIODIC\<close>\<close>
  tm_timeout_func :: timeout_fn
  tm_init_tick :: u32
  tm_timeout_tick :: u32
  tm_attached :: bool
  tm_static :: bool

section \<open>IPC objects\<close>

definition RT_IPC_FLAG_FIFO :: nat where "RT_IPC_FLAG_FIFO = 0"
definition RT_IPC_FLAG_PRIO :: nat where "RT_IPC_FLAG_PRIO = 1"

record rt_semaphore =
  sem_flag :: nat
  sem_value :: u16

record rt_mutex =
  mtx_flag :: nat
  mtx_value :: u16
  mtx_original_priority :: nat
  mtx_hold :: u8
  mtx_owner :: "tid option"

record rt_event =
  ev_flag :: nat
  ev_set :: u32

record rt_mailbox =
  mb_flag :: nat
  mb_msg_pool :: "u32 list"
  mb_size :: nat
  mb_entry :: nat
  mb_in_offset :: nat
  mb_out_offset :: nat

text \<open>Message nodes are numbered by their place in the pool.\<close>

record rt_messagequeue =
  mq_flag :: nat
  mq_msg_size :: nat
  mq_max_msgs :: nat
  mq_entry :: nat
  mq_head :: "nat option"
  mq_tail :: "nat option"
  mq_free :: "nat option"
  mq_next :: "nat \<Rightarrow> nat option"
  mq_body :: "nat \<Rightarrow> u8 list"

section \<open>The kernel state\<close>

text \<open>The heads of the lists a thread's \<open>tlist\<close> node can be linked into.\<close>

datatype ipc = ISem oid | IMtx oid | IEv oid | IMb oid | IMq oid
  | IMp oid | IDq oid | ICp oid | IWq oid

datatype qid = ReadyQ nat | SuspQ ipc | SenderQ ipc | DefunctQ

record kstate =
  k_thr :: "tid \<Rightarrow> rt_thread"
  k_q :: "qid \<Rightarrow> tid list"
  k_group :: u32              \<comment> \<open>\<open>rt_thread_ready_priority_group\<close>\<close>
  k_cur :: "tid option"       \<comment> \<open>\<open>rt_current_thread\<close>\<close>
  k_cur_prio :: nat           \<comment> \<open>\<open>rt_current_priority\<close>\<close>
  k_lock :: int               \<comment> \<open>\<open>rt_scheduler_lock_nest\<close>\<close>
  k_nest :: nat               \<comment> \<open>\<open>rt_interrupt_nest\<close>\<close>
  k_tick :: u32               \<comment> \<open>\<open>rt_tick\<close>\<close>
  k_tmr :: "tmid \<Rightarrow> rt_timer"
  k_tlist :: "tmid list"      \<comment> \<open>\<open>rt_timer_list\<close>, one level\<close>
  k_sem :: "oid \<Rightarrow> rt_semaphore"
  k_mtx :: "oid \<Rightarrow> rt_mutex"
  k_ev :: "oid \<Rightarrow> rt_event"
  k_mb :: "oid \<Rightarrow> rt_mailbox"
  k_mq :: "oid \<Rightarrow> rt_messagequeue"

text \<open>
  An operation that can block runs until it returns (\<open>Ret\<close>) or has suspended its caller and
  called the scheduler (\<open>Wait\<close>, with the locals its continuation needs).
\<close>

datatype ('a, 'k) outcome = Ret 'a kstate | Wait 'k kstate

section \<open>Elementary updates\<close>

definition upd_thr :: "tid \<Rightarrow> (rt_thread \<Rightarrow> rt_thread) \<Rightarrow> kstate \<Rightarrow> kstate" where
  "upd_thr t f s = s\<lparr>k_thr := (k_thr s)(t := f (k_thr s t))\<rparr>"

definition upd_tmr :: "tmid \<Rightarrow> (rt_timer \<Rightarrow> rt_timer) \<Rightarrow> kstate \<Rightarrow> kstate" where
  "upd_tmr m f s = s\<lparr>k_tmr := (k_tmr s)(m := f (k_tmr s m))\<rparr>"

text \<open>\<open>rt_list_remove(&thread->tlist)\<close>: unlink the thread from whichever list holds it.\<close>

definition tlist_remove :: "tid \<Rightarrow> kstate \<Rightarrow> kstate" where
  "tlist_remove t s = s\<lparr>k_q := (\<lambda>q. filter (\<lambda>x. x \<noteq> t) (k_q s q))\<rparr>"

definition tlist_append :: "qid \<Rightarrow> tid \<Rightarrow> kstate \<Rightarrow> kstate" where
  "tlist_append q t s = s\<lparr>k_q := (k_q s)(q := insert_tail t (k_q s q))\<rparr>"

definition tlist_push :: "qid \<Rightarrow> tid \<Rightarrow> kstate \<Rightarrow> kstate" where
  "tlist_push q t s = s\<lparr>k_q := (k_q s)(q := insert_head t (k_q s q))\<rparr>"

abbreviation th_stat :: "kstate \<Rightarrow> tid \<Rightarrow> tstat" where
  "th_stat s t \<equiv> t_stat (k_thr s t)"

abbreviation th_prio :: "kstate \<Rightarrow> tid \<Rightarrow> nat" where
  "th_prio s t \<equiv> t_current_priority (k_thr s t)"

abbreviation set_stat :: "tid \<Rightarrow> tstat \<Rightarrow> kstate \<Rightarrow> kstate" where
  "set_stat t x \<equiv> upd_thr t (\<lambda>h. h\<lparr>t_stat := x\<rparr>)"

lemma upd_thr_sel [simp]:
  "k_thr (upd_thr t f s) = (k_thr s)(t := f (k_thr s t))"
  "k_q (upd_thr t f s) = k_q s" "k_group (upd_thr t f s) = k_group s"
  "k_cur (upd_thr t f s) = k_cur s" "k_cur_prio (upd_thr t f s) = k_cur_prio s"
  "k_lock (upd_thr t f s) = k_lock s" "k_nest (upd_thr t f s) = k_nest s"
  "k_tick (upd_thr t f s) = k_tick s" "k_tmr (upd_thr t f s) = k_tmr s"
  "k_tlist (upd_thr t f s) = k_tlist s" "k_sem (upd_thr t f s) = k_sem s"
  "k_mtx (upd_thr t f s) = k_mtx s" "k_ev (upd_thr t f s) = k_ev s"
  "k_mb (upd_thr t f s) = k_mb s" "k_mq (upd_thr t f s) = k_mq s"
  by (simp_all add: upd_thr_def)

lemma upd_tmr_sel [simp]:
  "k_tmr (upd_tmr m g s) = (k_tmr s)(m := g (k_tmr s m))"
  "k_thr (upd_tmr m g s) = k_thr s"
  "k_q (upd_tmr m g s) = k_q s" "k_group (upd_tmr m g s) = k_group s"
  "k_cur (upd_tmr m g s) = k_cur s" "k_cur_prio (upd_tmr m g s) = k_cur_prio s"
  "k_lock (upd_tmr m g s) = k_lock s" "k_nest (upd_tmr m g s) = k_nest s"
  "k_tick (upd_tmr m g s) = k_tick s" "k_tlist (upd_tmr m g s) = k_tlist s"
  "k_sem (upd_tmr m g s) = k_sem s" "k_mtx (upd_tmr m g s) = k_mtx s"
  "k_ev (upd_tmr m g s) = k_ev s" "k_mb (upd_tmr m g s) = k_mb s" "k_mq (upd_tmr m g s) = k_mq s"
  by (simp_all add: upd_tmr_def)

lemma tlist_remove_sel [simp]:
  "k_q (tlist_remove t s) = (\<lambda>q. filter (\<lambda>x. x \<noteq> t) (k_q s q))"
  "k_thr (tlist_remove t s) = k_thr s" "k_group (tlist_remove t s) = k_group s"
  "k_cur (tlist_remove t s) = k_cur s" "k_cur_prio (tlist_remove t s) = k_cur_prio s"
  "k_lock (tlist_remove t s) = k_lock s" "k_nest (tlist_remove t s) = k_nest s"
  "k_tick (tlist_remove t s) = k_tick s" "k_tmr (tlist_remove t s) = k_tmr s"
  "k_tlist (tlist_remove t s) = k_tlist s" "k_sem (tlist_remove t s) = k_sem s"
  "k_mtx (tlist_remove t s) = k_mtx s" "k_ev (tlist_remove t s) = k_ev s"
  "k_mb (tlist_remove t s) = k_mb s" "k_mq (tlist_remove t s) = k_mq s"
  by (simp_all add: tlist_remove_def)

lemma tlist_append_sel [simp]:
  "k_q (tlist_append q t s) = (k_q s)(q := insert_tail t (k_q s q))"
  "k_thr (tlist_append q t s) = k_thr s" "k_group (tlist_append q t s) = k_group s"
  "k_cur (tlist_append q t s) = k_cur s" "k_cur_prio (tlist_append q t s) = k_cur_prio s"
  "k_lock (tlist_append q t s) = k_lock s" "k_nest (tlist_append q t s) = k_nest s"
  "k_tick (tlist_append q t s) = k_tick s" "k_tmr (tlist_append q t s) = k_tmr s"
  "k_tlist (tlist_append q t s) = k_tlist s" "k_sem (tlist_append q t s) = k_sem s"
  "k_mtx (tlist_append q t s) = k_mtx s" "k_ev (tlist_append q t s) = k_ev s"
  "k_mb (tlist_append q t s) = k_mb s" "k_mq (tlist_append q t s) = k_mq s"
  by (simp_all add: tlist_append_def)

lemma tlist_push_sel [simp]:
  "k_q (tlist_push q t s) = (k_q s)(q := insert_head t (k_q s q))"
  "k_thr (tlist_push q t s) = k_thr s" "k_group (tlist_push q t s) = k_group s"
  "k_cur (tlist_push q t s) = k_cur s" "k_cur_prio (tlist_push q t s) = k_cur_prio s"
  "k_lock (tlist_push q t s) = k_lock s" "k_nest (tlist_push q t s) = k_nest s"
  "k_tick (tlist_push q t s) = k_tick s" "k_tmr (tlist_push q t s) = k_tmr s"
  "k_tlist (tlist_push q t s) = k_tlist s" "k_sem (tlist_push q t s) = k_sem s"
  "k_mtx (tlist_push q t s) = k_mtx s" "k_ev (tlist_push q t s) = k_ev s"
  "k_mb (tlist_push q t s) = k_mb s" "k_mq (tlist_push q t s) = k_mq s"
  by (simp_all add: tlist_push_def)

end
