(* ===== verification/Sched.thy ===== *)
theory Sched
  imports KState KService "HOL-Library.Monad_Syntax"
begin

text \<open>
  The priority scheduler of src/scheduler.c for the configuration at hand (no SMP, 32
  priorities): the ready table with its bitmap, the choice of the next thread, the switch
  and the scheduler lock. \<open>None\<close> is a dereference of a null or stale pointer.
\<close>

section \<open>Operations\<close>

definition get_highest_priority_thread :: "kstate \<Rightarrow> (tid \<times> nat) option" where
  "get_highest_priority_thread s =
     (if k_group s = 0 then None
      else let highest_ready_priority = rt_ffs (k_group s) - 1 in
           case k_q s (ReadyQ highest_ready_priority) of
             [] \<Rightarrow> None
           | t # _ \<Rightarrow> Some (t, highest_ready_priority))"

definition rt_schedule_insert_thread :: "tid \<Rightarrow> kstate \<Rightarrow> kstate" where
  "rt_schedule_insert_thread t s =
     (if k_cur s = Some t then set_stat t RT_THREAD_RUNNING s
      else let s1 = tlist_append (ReadyQ (th_prio s t)) t (set_stat t RT_THREAD_READY s)
           in s1\<lparr>k_group := k_group s1 OR t_number_mask (k_thr s1 t)\<rparr>)"

definition rt_schedule_remove_thread :: "tid \<Rightarrow> kstate \<Rightarrow> kstate" where
  "rt_schedule_remove_thread t s =
     (let s1 = tlist_remove t s in
      if k_q s1 (ReadyQ (th_prio s1 t)) = []
      then s1\<lparr>k_group := k_group s1 AND NOT (t_number_mask (k_thr s1 t))\<rparr>
      else s1)"

definition rt_schedule :: "kstate \<Rightarrow> kstate option" where
  "rt_schedule s =
     (if k_lock s = 0 \<and> k_group s \<noteq> 0
      then do {
        (highest, highest_ready_priority) \<leftarrow> get_highest_priority_thread s;
        cur \<leftarrow> k_cur s;
        let running = (th_stat s cur = RT_THREAD_RUNNING);
        let stay = (running \<and> th_prio s cur < highest_ready_priority);
        let to_thread = (if stay then cur else highest);
        let need_insert_from_thread = (running \<and> \<not> stay);
        if to_thread \<noteq> cur
        then (let s1 = s\<lparr>k_cur_prio := highest_ready_priority, k_cur := Some to_thread\<rparr>;
                  s2 = (if need_insert_from_thread then rt_schedule_insert_thread cur s1 else s1);
                  s3 = rt_schedule_remove_thread to_thread s2
              in Some (set_stat to_thread RT_THREAD_RUNNING s3))
        else Some (set_stat cur RT_THREAD_RUNNING (rt_schedule_remove_thread cur s))
      }
      else Some s)"

definition rt_system_scheduler_init :: "kstate \<Rightarrow> kstate" where
  "rt_system_scheduler_init s =
     s\<lparr>k_lock := 0,
       k_q := (\<lambda>q. case q of ReadyQ p \<Rightarrow> (if p < RT_THREAD_PRIORITY_MAX then [] else k_q s q)
                            | DefunctQ \<Rightarrow> [] | _ \<Rightarrow> k_q s q),
       k_group := 0\<rparr>"

definition rt_system_scheduler_start :: "kstate \<Rightarrow> kstate option" where
  "rt_system_scheduler_start s =
     do { (to_thread, _) \<leftarrow> get_highest_priority_thread s;
          let s1 = s\<lparr>k_cur := Some to_thread\<rparr>;
          Some (set_stat to_thread RT_THREAD_RUNNING (rt_schedule_remove_thread to_thread s1)) }"

text \<open>The lock counter is an \<open>rt_int16_t\<close>.\<close>

definition to_int16 :: "int \<Rightarrow> int" where
  "to_int16 i = sint (word_of_int i :: 16 word)"

definition rt_enter_critical :: "kstate \<Rightarrow> kstate" where
  "rt_enter_critical s = s\<lparr>k_lock := to_int16 (k_lock s + 1)\<rparr>"

definition rt_exit_critical :: "kstate \<Rightarrow> kstate option" where
  "rt_exit_critical s =
     (let s1 = s\<lparr>k_lock := to_int16 (k_lock s - 1)\<rparr> in
      if k_lock s1 \<le> 0 then rt_schedule (s1\<lparr>k_lock := 0\<rparr>) else Some s1)"

definition rt_critical_level :: "kstate \<Rightarrow> nat" where
  "rt_critical_level s = trunc_u 16 (k_lock s)"

section \<open>The scheduler invariant\<close>

definition started :: "kstate \<Rightarrow> tid \<Rightarrow> bool" where
  "started s t \<longleftrightarrow> th_prio s t < RT_THREAD_PRIORITY_MAX \<and>
                  t_number_mask (k_thr s t) = push_bit (th_prio s t) 1"

definition unlinked :: "tid \<Rightarrow> kstate \<Rightarrow> bool" where
  "unlinked t s \<longleftrightarrow> (\<forall>q. t \<notin> set (k_q s q))"

text \<open>
  The ready table and the bitmap agree with the thread states: each node is in at most one
  list, the ready lists hold exactly the READY threads of their priority, bit \<open>p\<close> is set
  exactly when list \<open>p\<close> is not empty, the other lists hold suspended or closed threads.
\<close>

definition table_inv :: "kstate \<Rightarrow> bool" where
  "table_inv s \<longleftrightarrow>
     (\<forall>q. distinct (k_q s q)) \<and>
     (\<forall>q q' t. t \<in> set (k_q s q) \<longrightarrow> t \<in> set (k_q s q') \<longrightarrow> q = q') \<and>
     (\<forall>p t. t \<in> set (k_q s (ReadyQ p)) \<longrightarrow> th_stat s t = RT_THREAD_READY \<and> th_prio s t = p) \<and>
     (\<forall>t. th_stat s t = RT_THREAD_READY \<longrightarrow> t \<in> set (k_q s (ReadyQ (th_prio s t)))) \<and>
     (\<forall>p<32. bit (k_group s) p \<longleftrightarrow> k_q s (ReadyQ p) \<noteq> []) \<and>
     (\<forall>t. th_stat s t \<in> {RT_THREAD_READY, RT_THREAD_SUSPEND, RT_THREAD_RUNNING} \<longrightarrow> started s t) \<and>
     (\<forall>i t. t \<in> set (k_q s (SuspQ i)) \<union> set (k_q s (SenderQ i)) \<longrightarrow>
        th_stat s t = RT_THREAD_SUSPEND) \<and>
     (\<forall>t. t \<in> set (k_q s DefunctQ) \<longrightarrow> th_stat s t = RT_THREAD_CLOSE)"

text \<open>Only the current thread is RUNNING, and it is in no ready list.\<close>

definition current_inv :: "kstate \<Rightarrow> bool" where
  "current_inv s \<longleftrightarrow>
     (\<forall>t. th_stat s t = RT_THREAD_RUNNING \<longrightarrow> k_cur s = Some t) \<and>
     (\<forall>t. k_cur s = Some t \<longrightarrow> th_stat s t \<noteq> RT_THREAD_READY)"

definition sched_inv :: "kstate \<Rightarrow> bool" where
  "sched_inv s \<longleftrightarrow> table_inv s \<and> current_inv s"

text \<open>The scheduler is where it wants to be: the best thread runs.\<close>

definition best_runs :: "kstate \<Rightarrow> bool" where
  "best_runs s \<longleftrightarrow>
     (\<exists>t. k_cur s = Some t \<and> th_stat s t = RT_THREAD_RUNNING \<and>
          (\<forall>u. th_stat s u = RT_THREAD_READY \<longrightarrow> th_prio s t \<le> th_prio s u))"

lemma table_invD:
  assumes "table_inv s"
  shows "distinct (k_q s q)"
    and "t \<in> set (k_q s q) \<Longrightarrow> t \<in> set (k_q s q') \<Longrightarrow> q = q'"
    and "t \<in> set (k_q s (ReadyQ p)) \<Longrightarrow> th_stat s t = RT_THREAD_READY"
    and "t \<in> set (k_q s (ReadyQ p)) \<Longrightarrow> th_prio s t = p"
    and "th_stat s t = RT_THREAD_READY \<Longrightarrow> t \<in> set (k_q s (ReadyQ (th_prio s t)))"
    and "p < 32 \<Longrightarrow> bit (k_group s) p \<longleftrightarrow> k_q s (ReadyQ p) \<noteq> []"
    and "th_stat s t = RT_THREAD_READY \<Longrightarrow> started s t"
    and "th_stat s t = RT_THREAD_SUSPEND \<Longrightarrow> started s t"
    and "th_stat s t = RT_THREAD_RUNNING \<Longrightarrow> started s t"
    and "t \<in> set (k_q s (SuspQ i)) \<Longrightarrow> th_stat s t = RT_THREAD_SUSPEND"
    and "t \<in> set (k_q s (SenderQ i)) \<Longrightarrow> th_stat s t = RT_THREAD_SUSPEND"
    and "t \<in> set (k_q s DefunctQ) \<Longrightarrow> th_stat s t = RT_THREAD_CLOSE"
  using assms unfolding table_inv_def by blast+

lemma table_invI:
  assumes "\<And>q. distinct (k_q s q)"
    and "\<And>q q' t. t \<in> set (k_q s q) \<Longrightarrow> t \<in> set (k_q s q') \<Longrightarrow> q = q'"
    and "\<And>p t. t \<in> set (k_q s (ReadyQ p)) \<Longrightarrow> th_stat s t = RT_THREAD_READY \<and> th_prio s t = p"
    and "\<And>t. th_stat s t = RT_THREAD_READY \<Longrightarrow> t \<in> set (k_q s (ReadyQ (th_prio s t)))"
    and "\<And>p. p < 32 \<Longrightarrow> bit (k_group s) p \<longleftrightarrow> k_q s (ReadyQ p) \<noteq> []"
    and "\<And>t. th_stat s t \<in> {RT_THREAD_READY, RT_THREAD_SUSPEND, RT_THREAD_RUNNING} \<Longrightarrow> started s t"
    and "\<And>i t. t \<in> set (k_q s (SuspQ i)) \<or> t \<in> set (k_q s (SenderQ i)) \<Longrightarrow>
           th_stat s t = RT_THREAD_SUSPEND"
    and "\<And>t. t \<in> set (k_q s DefunctQ) \<Longrightarrow> th_stat s t = RT_THREAD_CLOSE"
  shows "table_inv s"
  unfolding table_inv_def using assms by simp

lemma running_unlinked:
  assumes inv: "table_inv s"
    and st: "th_stat s t \<noteq> RT_THREAD_READY" "th_stat s t \<noteq> RT_THREAD_SUSPEND"
      "th_stat s t \<noteq> RT_THREAD_CLOSE"
  shows "unlinked t s"
  unfolding unlinked_def
proof
  fix q show "t \<notin> set (k_q s q)"
    using table_invD(3,10,11,12) [OF inv, of t] st by (cases q) blast+
qed

lemma ready_prio_bound: "table_inv s \<Longrightarrow> t \<in> set (k_q s (ReadyQ p)) \<Longrightarrow> p < 32"
  using table_invD(3) [of s t p] table_invD(4) [of s t p] table_invD(7) [of s t]
  by (auto simp: started_def RT_THREAD_PRIORITY_MAX_def)

section \<open>Choosing the next thread\<close>

text \<open>When a bit is set, the lookup returns the head of the highest non-empty ready list.\<close>

lemma get_highest_spec:
  assumes inv: "table_inv s" and g: "k_group s \<noteq> 0"
  shows "\<exists>t p ts. get_highest_priority_thread s = Some (t, p) \<and> p < 32 \<and>
           k_q s (ReadyQ p) = t # ts \<and> (\<forall>p'<p. k_q s (ReadyQ p') = [])"
proof -
  let ?p = "rt_ffs (k_group s) - 1"
  note F = rt_ffs_least [OF g]
  have p: "?p < 32" using F by simp
  with F(2) table_invD(6) [OF inv p] have "k_q s (ReadyQ ?p) \<noteq> []" by blast
  then obtain t ts where q: "k_q s (ReadyQ ?p) = t # ts" by (cases "k_q s (ReadyQ ?p)") auto
  have "k_q s (ReadyQ p') = []" if "p' < ?p" for p'
    using F(3) [OF that] table_invD(6) [OF inv, of p'] that p by auto
  with q p g show ?thesis by (simp add: get_highest_priority_thread_def)
qed

lemma group_zero_iff:
  assumes "table_inv s"
  shows "k_group s = 0 \<longleftrightarrow> (\<forall>t. th_stat s t \<noteq> RT_THREAD_READY)"
proof
  assume "k_group s = 0"
  then have "k_q s (ReadyQ p) = []" if "p < 32" for p using table_invD(6) [OF assms that] by simp
  then show "\<forall>t. th_stat s t \<noteq> RT_THREAD_READY"
    using table_invD(5) [OF assms] ready_prio_bound [OF assms] by fastforce
next
  assume none: "\<forall>t. th_stat s t \<noteq> RT_THREAD_READY"
  show "k_group s = 0"
  proof (rule ccontr)
    assume "k_group s \<noteq> 0"
    from get_highest_spec [OF assms this] obtain t p ts where "k_q s (ReadyQ p) = t # ts" by blast
    then show False using table_invD(3) [OF assms, of t p] none by simp
  qed
qed


section \<open>The table operations keep the table\<close>

lemma bit_group_or:
  "p < 32 \<Longrightarrow> i < 32 \<Longrightarrow> bit ((g :: u32) OR 2 ^ p) i \<longleftrightarrow> bit g i \<or> i = p"
  by (auto simp: bit_simps)

lemma bit_group_and_not:
  "p < 32 \<Longrightarrow> i < 32 \<Longrightarrow> bit ((g :: u32) AND NOT (2 ^ p)) i \<longleftrightarrow> bit g i \<and> i \<noteq> p"
  by (auto simp: bit_simps)

lemma insert_stat [simp]:
  "k_cur s \<noteq> Some t \<Longrightarrow> k_thr (rt_schedule_insert_thread t s) =
     (k_thr s)(t := (k_thr s t)\<lparr>t_stat := RT_THREAD_READY\<rparr>)"
  by (simp add: rt_schedule_insert_thread_def Let_def)

lemma insert_frame [simp]:
  "k_cur (rt_schedule_insert_thread t s) = k_cur s"
  "k_cur_prio (rt_schedule_insert_thread t s) = k_cur_prio s"
  "k_lock (rt_schedule_insert_thread t s) = k_lock s"
  "k_nest (rt_schedule_insert_thread t s) = k_nest s"
  "k_tick (rt_schedule_insert_thread t s) = k_tick s"
  "k_tmr (rt_schedule_insert_thread t s) = k_tmr s"
  "k_tlist (rt_schedule_insert_thread t s) = k_tlist s"
  "k_sem (rt_schedule_insert_thread t s) = k_sem s"
  "k_mtx (rt_schedule_insert_thread t s) = k_mtx s"
  "k_ev (rt_schedule_insert_thread t s) = k_ev s"
  "k_mb (rt_schedule_insert_thread t s) = k_mb s"
  "k_mq (rt_schedule_insert_thread t s) = k_mq s"
  by (simp_all add: rt_schedule_insert_thread_def Let_def)

lemma remove_frame [simp]:
  "k_thr (rt_schedule_remove_thread t s) = k_thr s"
  "k_q (rt_schedule_remove_thread t s) = (\<lambda>q. filter (\<lambda>x. x \<noteq> t) (k_q s q))"
  "k_cur (rt_schedule_remove_thread t s) = k_cur s"
  "k_cur_prio (rt_schedule_remove_thread t s) = k_cur_prio s"
  "k_lock (rt_schedule_remove_thread t s) = k_lock s"
  "k_nest (rt_schedule_remove_thread t s) = k_nest s"
  "k_tick (rt_schedule_remove_thread t s) = k_tick s"
  "k_tmr (rt_schedule_remove_thread t s) = k_tmr s"
  "k_tlist (rt_schedule_remove_thread t s) = k_tlist s"
  "k_sem (rt_schedule_remove_thread t s) = k_sem s"
  "k_mtx (rt_schedule_remove_thread t s) = k_mtx s"
  "k_ev (rt_schedule_remove_thread t s) = k_ev s"
  "k_mb (rt_schedule_remove_thread t s) = k_mb s"
  "k_mq (rt_schedule_remove_thread t s) = k_mq s"
  by (simp_all add: rt_schedule_remove_thread_def Let_def)

lemma unlinked_tlist_remove: "unlinked t (tlist_remove t s)"
  by (simp add: unlinked_def)

lemma tlist_remove_table_inv:
  assumes inv: "table_inv s" and nr: "th_stat s t \<noteq> RT_THREAD_READY"
  shows "table_inv (tlist_remove t s)"
proof -
  have "filter (\<lambda>x. x \<noteq> t) (k_q s (ReadyQ p)) = k_q s (ReadyQ p)" for p
    using table_invD(3) [OF inv] nr by (intro filter_neq_idle) blast
  then show ?thesis using inv unfolding table_inv_def started_def by auto
qed

lemma insert_table_inv:
  assumes inv: "table_inv s" and ul: "unlinked t s" and st: "started s t"
    and cur: "k_cur s \<noteq> Some t"
  shows "table_inv (rt_schedule_insert_thread t s)"
proof -
  let ?p = "th_prio s t" and ?s = "rt_schedule_insert_thread t s"
  have p: "?p < 32" "t_number_mask (k_thr s t) = push_bit ?p 1"
    using st by (simp_all add: started_def RT_THREAD_PRIORITY_MAX_def)
  have q: "k_q ?s = (k_q s)(ReadyQ ?p := insert_tail t (k_q s (ReadyQ ?p)))"
    and thr: "k_thr ?s = (k_thr s)(t := (k_thr s t)\<lparr>t_stat := RT_THREAD_READY\<rparr>)"
    and g: "k_group ?s = k_group s OR push_bit ?p 1"
    using cur p by (simp_all add: rt_schedule_insert_thread_def Let_def)
  have bits: "\<forall>i<32. bit (k_group ?s) i \<longleftrightarrow> k_q ?s (ReadyQ i) \<noteq> []"
    using table_invD(6) [OF inv] p by (auto simp: g q bit_group_or)
  have nt: "t \<notin> set (k_q s x)" for x using ul by (simp add: unlinked_def)
  note D = table_invD [OF inv]
  show ?thesis
  proof (rule table_invI)
    show "distinct (k_q ?s x)" for x using D(1) nt by (simp add: q insert_tail_def)
    show "x = x'" if "u \<in> set (k_q ?s x)" "u \<in> set (k_q ?s x')" for x x' u
      using that D(2) [of u x x'] nt unfolding q by (auto simp: insert_tail_def split: if_splits)
    show "th_stat ?s u = RT_THREAD_READY \<and> th_prio ?s u = r" if "u \<in> set (k_q ?s (ReadyQ r))" for r u
      using that D(3,4) [of u r] unfolding q thr by (auto simp: insert_tail_def split: if_splits)
    show "u \<in> set (k_q ?s (ReadyQ (th_prio ?s u)))" if "th_stat ?s u = RT_THREAD_READY" for u
      using that D(5) [of u] unfolding q thr by (auto simp: insert_tail_def split: if_splits)
    show "bit (k_group ?s) r \<longleftrightarrow> k_q ?s (ReadyQ r) \<noteq> []" if "r < 32" for r using bits that by blast
    show "started ?s u" if "th_stat ?s u \<in> {RT_THREAD_READY, RT_THREAD_SUSPEND, RT_THREAD_RUNNING}" for u
      using that D(7,8,9) [of u] st unfolding started_def thr by (auto split: if_splits)
    show "th_stat ?s u = RT_THREAD_SUSPEND" if "u \<in> set (k_q ?s (SuspQ i)) \<or> u \<in> set (k_q ?s (SenderQ i))" for u i
      using that D(10,11) [of u i] nt unfolding q thr by auto
    show "th_stat ?s u = RT_THREAD_CLOSE" if "u \<in> set (k_q ?s DefunctQ)" for u
      using that D(12) [of u] nt unfolding q thr by auto
  qed
qed

lemma remove_table_inv:
  assumes inv: "table_inv s" and st: "started s t" and x: "x \<noteq> RT_THREAD_READY"
  shows "table_inv (set_stat t x (rt_schedule_remove_thread t s))"
    and "unlinked t (set_stat t x (rt_schedule_remove_thread t s))"
proof -
  let ?p = "th_prio s t" and ?s = "set_stat t x (rt_schedule_remove_thread t s)"
  have p: "?p < 32" "t_number_mask (k_thr s t) = push_bit ?p 1"
    using st by (simp_all add: started_def RT_THREAD_PRIORITY_MAX_def)
  have q: "k_q ?s = (\<lambda>q. filter (\<lambda>y. y \<noteq> t) (k_q s q))"
    and thr: "k_thr ?s = (k_thr s)(t := (k_thr s t)\<lparr>t_stat := x\<rparr>)"
    and g: "k_group ?s = (if filter (\<lambda>y. y \<noteq> t) (k_q s (ReadyQ ?p)) = []
                          then k_group s AND NOT (push_bit ?p 1) else k_group s)"
    using p by (simp_all add: rt_schedule_remove_thread_def Let_def)
  have other: "filter (\<lambda>y. y \<noteq> t) (k_q s (ReadyQ i)) = k_q s (ReadyQ i)" if "i \<noteq> ?p" for i
    using table_invD(4) [OF inv] that by (intro filter_neq_idle) blast
  have bits: "bit (k_group ?s) i \<longleftrightarrow> k_q ?s (ReadyQ i) \<noteq> []" if "i < 32" for i
  proof (cases "i = ?p")
    case True
    with table_invD(6) [OF inv p(1)] p(1) show ?thesis
      unfolding g q by (auto simp: bit_group_and_not filter_empty_conv)
  next
    case False
    with table_invD(6) [OF inv that] other [OF False] that p(1) show ?thesis
      unfolding g q by (auto simp: bit_group_and_not)
  qed
  show "unlinked t ?s" by (simp add: unlinked_def)
  note D = table_invD [OF inv]
  show "table_inv ?s"
  proof (rule table_invI)
    show "distinct (k_q ?s y)" for y using D(1) [of y] by simp
    show "y = y'" if "u \<in> set (k_q ?s y)" "u \<in> set (k_q ?s y')" for y y' u
      using that D(2) [of u y y'] by simp
    show "th_stat ?s u = RT_THREAD_READY \<and> th_prio ?s u = r" if "u \<in> set (k_q ?s (ReadyQ r))" for r u
      using that D(3,4) [of u r] by simp
    show "u \<in> set (k_q ?s (ReadyQ (th_prio ?s u)))" if "th_stat ?s u = RT_THREAD_READY" for u
      using that D(5) [of u] x by (auto split: if_splits)
    show "bit (k_group ?s) r \<longleftrightarrow> k_q ?s (ReadyQ r) \<noteq> []" if "r < 32" for r by (rule bits [OF that])
    show "started ?s u" if "th_stat ?s u \<in> {RT_THREAD_READY, RT_THREAD_SUSPEND, RT_THREAD_RUNNING}" for u
      using that D(7,8,9) [of u] st unfolding started_def thr by (auto split: if_splits)
    show "th_stat ?s u = RT_THREAD_SUSPEND" if "u \<in> set (k_q ?s (SuspQ i)) \<or> u \<in> set (k_q ?s (SenderQ i))" for u i
      using that D(10,11) [of u i] by auto
    show "th_stat ?s u = RT_THREAD_CLOSE" if "u \<in> set (k_q ?s DefunctQ)" for u
      using that D(12) [of u] by auto
  qed
qed

lemma table_inv_cong:
  "k_thr s' = k_thr s \<Longrightarrow> k_q s' = k_q s \<Longrightarrow> k_group s' = k_group s \<Longrightarrow>
     table_inv s' \<longleftrightarrow> table_inv s"
  unfolding table_inv_def started_def by simp

section \<open>rt_schedule\<close>

text \<open>
  With the invariant and a current thread the scheduler never goes wrong. It keeps the
  invariant; where it switches, the new current thread was the head of the best ready list.
\<close>

lemma rt_schedule_cases:
  assumes inv: "sched_inv s" and cur: "k_cur s = Some c"
    and go: "k_lock s = 0" "k_group s \<noteq> 0"
  obtains
    (stay) p where "th_stat s c = RT_THREAD_RUNNING" "th_prio s c < p"
      "\<forall>u. th_stat s u = RT_THREAD_READY \<longrightarrow> p \<le> th_prio s u"
      "rt_schedule s = Some (set_stat c RT_THREAD_RUNNING (rt_schedule_remove_thread c s))"
  | (preempt) t p where "th_stat s c = RT_THREAD_RUNNING" "t \<noteq> c" "p \<le> th_prio s c"
      "th_stat s t = RT_THREAD_READY" "th_prio s t = p"
      "\<forall>u. th_stat s u = RT_THREAD_READY \<longrightarrow> p \<le> th_prio s u"
      "rt_schedule s = Some (set_stat t RT_THREAD_RUNNING (rt_schedule_remove_thread t
         (rt_schedule_insert_thread c (s\<lparr>k_cur_prio := p, k_cur := Some t\<rparr>))))"
  | (handover) t p where "th_stat s c \<noteq> RT_THREAD_RUNNING" "t \<noteq> c"
      "th_stat s t = RT_THREAD_READY" "th_prio s t = p"
      "\<forall>u. th_stat s u = RT_THREAD_READY \<longrightarrow> p \<le> th_prio s u"
      "rt_schedule s = Some (set_stat t RT_THREAD_RUNNING (rt_schedule_remove_thread t
         (s\<lparr>k_cur_prio := p, k_cur := Some t\<rparr>)))"
proof -
  have tab: "table_inv s" and ci: "current_inv s" using inv by (simp_all add: sched_inv_def)
  from get_highest_spec [OF tab go(2)] obtain t p ts where
    h: "get_highest_priority_thread s = Some (t, p)" "p < 32"
    "k_q s (ReadyQ p) = t # ts" "\<forall>p'<p. k_q s (ReadyQ p') = []" by blast
  have t: "th_stat s t = RT_THREAD_READY" "th_prio s t = p"
    using table_invD(3,4) [OF tab, of t p] h(3) by simp_all
  have tc: "t \<noteq> c" using t ci cur by (auto simp: current_inv_def)
  have min: "\<forall>u. th_stat s u = RT_THREAD_READY \<longrightarrow> p \<le> th_prio s u"
  proof (intro allI impI)
    fix u assume "th_stat s u = RT_THREAD_READY"
    with table_invD(5) [OF tab, of u] have "k_q s (ReadyQ (th_prio s u)) \<noteq> []" by auto
    with h(4) show "p \<le> th_prio s u" by (meson not_le)
  qed
  show thesis
  proof (cases "th_stat s c = RT_THREAD_RUNNING")
    case run: True
    show thesis
    proof (cases "th_prio s c < p")
      case True
      with run min go cur h(1) show thesis by (intro stay [of p]) (simp_all add: rt_schedule_def)
    next
      case False
      with run min go cur h(1) t tc show thesis
        by (intro preempt [of t p]) (simp_all add: rt_schedule_def Let_def)
    qed
  next
    case False
    with min go cur h(1) t tc show thesis
      by (intro handover [of t p]) (simp_all add: rt_schedule_def Let_def)
  qed
qed

lemma rt_schedule_inv:
  assumes inv: "sched_inv s" and cur: "k_cur s = Some c"
  shows "\<exists>s'. rt_schedule s = Some s' \<and> sched_inv s' \<and> (\<exists>c'. k_cur s' = Some c') \<and>
           (k_lock s = 0 \<and> (k_group s \<noteq> 0 \<or> th_stat s c = RT_THREAD_RUNNING) \<longrightarrow> best_runs s')"
proof (cases "k_lock s = 0 \<and> k_group s \<noteq> 0")
  case False
  then have "rt_schedule s = Some s" by (auto simp: rt_schedule_def)
  moreover have "best_runs s" if "k_lock s = 0" "th_stat s c = RT_THREAD_RUNNING"
    using that False group_zero_iff [of s] inv cur by (auto simp: best_runs_def sched_inv_def)
  ultimately show ?thesis using inv cur False by auto
next
  case True
  then have go: "k_lock s = 0" "k_group s \<noteq> 0" by simp_all
  have tab: "table_inv s" and ci: "current_inv s" using inv by (simp_all add: sched_inv_def)
  from inv cur go show ?thesis
  proof (cases rule: rt_schedule_cases)
    case (stay p)
    let ?s = "set_stat c RT_THREAD_RUNNING (rt_schedule_remove_thread c s)"
    have "table_inv ?s" using remove_table_inv(1) [OF tab table_invD(9) [OF tab stay(1)]] by simp
    moreover have "current_inv ?s" using ci cur by (auto simp: current_inv_def)
    moreover have "best_runs ?s" using cur stay(2,3) by (force simp: best_runs_def)
    ultimately show ?thesis using stay(4) cur by (simp add: sched_inv_def)
  next
    case (preempt t p)
    let ?s0 = "s\<lparr>k_cur_prio := p, k_cur := Some t\<rparr>"
    let ?s1 = "rt_schedule_insert_thread c ?s0"
    let ?s2 = "set_stat t RT_THREAD_RUNNING (rt_schedule_remove_thread t ?s1)"
    have "unlinked c s" by (rule running_unlinked [OF tab]) (simp_all add: preempt(1))
    then have "unlinked c ?s0" by (simp add: unlinked_def)
    moreover have "table_inv ?s0" by (rule table_inv_cong [THEN iffD2, OF _ _ _ tab]) simp_all
    moreover have "started ?s0 c" using table_invD(9) [OF tab preempt(1)] by (simp add: started_def)
    ultimately have t1: "table_inv ?s1" using preempt(2) by (intro insert_table_inv) simp_all
    have "started ?s1 t" using table_invD(7) [OF tab preempt(4)] preempt(2) by (simp add: started_def)
    with t1 have "table_inv ?s2" by (intro remove_table_inv(1)) simp_all
    moreover have "current_inv ?s2" using ci cur preempt(2) by (auto simp: current_inv_def)
    moreover have "best_runs ?s2" using preempt(2,3,5,6) by (auto simp: best_runs_def)
    ultimately show ?thesis using preempt(7) by (simp add: sched_inv_def)
  next
    case (handover t p)
    let ?s0 = "s\<lparr>k_cur_prio := p, k_cur := Some t\<rparr>"
    let ?s2 = "set_stat t RT_THREAD_RUNNING (rt_schedule_remove_thread t ?s0)"
    have "table_inv ?s0" by (rule table_inv_cong [THEN iffD2, OF _ _ _ tab]) simp_all
    moreover have "started ?s0 t" using table_invD(7) [OF tab handover(3)] by (simp add: started_def)
    ultimately have "table_inv ?s2" by (intro remove_table_inv(1)) simp_all
    moreover have "current_inv ?s2" using ci cur handover(1,2) by (auto simp: current_inv_def)
    moreover have "best_runs ?s2" using handover(4,5) by (auto simp: best_runs_def)
    ultimately show ?thesis using handover(6) by (simp add: sched_inv_def)
  qed
qed

end
