(* ===== verification/Timer.thy ===== *)
theory Timer
  imports KState "HOL-Library.Monad_Syntax"
begin

text \<open>
  The hard timers of src/timer.c. RT_TIMER_SKIP_LIST_LEVEL is 1, so the skip list is one
  list and the counter \<open>random_nr\<close> has no effect. Ticks are 32-bit and wrap. The timer check,
  which runs callbacks, is in the theory Clock, after the thread operations.
\<close>

section \<open>Operations\<close>

text \<open>The scan of \<open>rt_timer_start\<close> for the place of the new timer, and the insertion there.\<close>

fun timer_insert :: "(tmid \<Rightarrow> rt_timer) \<Rightarrow> tmid \<Rightarrow> tmid list \<Rightarrow> tmid list" where
  "timer_insert tmr m [] = [m]"
| "timer_insert tmr m (t # ts) =
     (let d = tm_timeout_tick (tmr t) - tm_timeout_tick (tmr m) in
      if d = 0 then t # timer_insert tmr m ts
      else if d < RT_TICK_HALF then m # t # ts
      else t # timer_insert tmr m ts)"

definition timer_unlink :: "tmid \<Rightarrow> kstate \<Rightarrow> kstate" where
  "timer_unlink m s = s\<lparr>k_tlist := filter (\<lambda>x. x \<noteq> m) (k_tlist s)\<rparr>"

definition timer_init :: "tmid \<Rightarrow> timeout_fn \<Rightarrow> u32 \<Rightarrow> bool \<Rightarrow> kstate \<Rightarrow> kstate" where
  "timer_init m f time periodic =
     upd_tmr m (\<lambda>t. t\<lparr>tm_activated := False, tm_periodic := periodic, tm_timeout_func := f,
                      tm_timeout_tick := 0, tm_init_tick := time\<rparr>)"

text \<open>
  Initialising a timer object clears its list node without unlinking it; only a timer that is
  in no list may be initialised, which the caller has to ensure.
\<close>

definition rt_timer_init :: "tmid \<Rightarrow> timeout_fn \<Rightarrow> u32 \<Rightarrow> bool \<Rightarrow> kstate \<Rightarrow> kstate" where
  "rt_timer_init m f time periodic s =
     timer_init m f time periodic
       (upd_tmr m (\<lambda>t. t\<lparr>tm_attached := True, tm_static := True\<rparr>) s)"

definition rt_timer_detach :: "tmid \<Rightarrow> kstate \<Rightarrow> kstate option" where
  "rt_timer_detach m s =
     (if tm_attached (k_tmr s m) \<and> tm_static (k_tmr s m)
      then Some (upd_tmr m (\<lambda>t. t\<lparr>tm_attached := False\<rparr>) (timer_unlink m s)) else None)"

definition rt_timer_delete :: "tmid \<Rightarrow> kstate \<Rightarrow> kstate option" where
  "rt_timer_delete m s =
     (if tm_attached (k_tmr s m) \<and> \<not> tm_static (k_tmr s m)
      then Some (upd_tmr m (\<lambda>t. t\<lparr>tm_attached := False\<rparr>) (timer_unlink m s)) else None)"

definition rt_timer_start :: "tmid \<Rightarrow> kstate \<Rightarrow> kstate option" where
  "rt_timer_start m s =
     (if \<not> tm_attached (k_tmr s m) then None
      else let s1 = upd_tmr m (\<lambda>t. t\<lparr>tm_activated := False\<rparr>) (timer_unlink m s) in
           if tm_init_tick (k_tmr s1 m) < RT_TICK_HALF
           then let s2 = upd_tmr m (\<lambda>t. t\<lparr>tm_timeout_tick := k_tick s1 + tm_init_tick t\<rparr>) s1;
                    s3 = s2\<lparr>k_tlist := timer_insert (k_tmr s2) m (k_tlist s2)\<rparr>
                in Some (upd_tmr m (\<lambda>t. t\<lparr>tm_activated := True\<rparr>) s3)
           else None)"

definition rt_timer_stop :: "tmid \<Rightarrow> kstate \<Rightarrow> (int \<times> kstate) option" where
  "rt_timer_stop m s =
     (if \<not> tm_attached (k_tmr s m) then None
      else if \<not> tm_activated (k_tmr s m) then Some (- RT_ERROR, s)
      else Some (RT_EOK, upd_tmr m (\<lambda>t. t\<lparr>tm_activated := False\<rparr>) (timer_unlink m s)))"

datatype timer_cmd =
    RT_TIMER_CTRL_GET_TIME
  | RT_TIMER_CTRL_SET_TIME u32
  | RT_TIMER_CTRL_SET_ONESHOT
  | RT_TIMER_CTRL_SET_PERIODIC

text \<open>The result is the error code and, for \<open>GET_TIME\<close>, the tick written to the argument.\<close>

definition rt_timer_control :: "tmid \<Rightarrow> timer_cmd \<Rightarrow> kstate \<Rightarrow> ((int \<times> u32 option) \<times> kstate) option" where
  "rt_timer_control m cmd s =
     (if \<not> tm_attached (k_tmr s m) then None
      else Some (case cmd of
          RT_TIMER_CTRL_GET_TIME \<Rightarrow> ((RT_EOK, Some (tm_init_tick (k_tmr s m))), s)
        | RT_TIMER_CTRL_SET_TIME x \<Rightarrow>
            ((RT_EOK, None), upd_tmr m (\<lambda>t. t\<lparr>tm_init_tick := x\<rparr>) s)
        | RT_TIMER_CTRL_SET_ONESHOT \<Rightarrow>
            ((RT_EOK, None), upd_tmr m (\<lambda>t. t\<lparr>tm_periodic := False\<rparr>) s)
        | RT_TIMER_CTRL_SET_PERIODIC \<Rightarrow>
            ((RT_EOK, None), upd_tmr m (\<lambda>t. t\<lparr>tm_periodic := True\<rparr>) s)))"

definition rt_timer_next_timeout_tick :: "kstate \<Rightarrow> u32" where
  "rt_timer_next_timeout_tick s =
     (case k_tlist s of [] \<Rightarrow> RT_TICK_MAX | t # _ \<Rightarrow> tm_timeout_tick (k_tmr s t))"

definition rt_system_timer_init :: "kstate \<Rightarrow> kstate" where
  "rt_system_timer_init s = s\<lparr>k_tlist := []\<rparr>"

lemma timer_unlink_sel [simp]:
  "k_tlist (timer_unlink m s) = filter (\<lambda>x. x \<noteq> m) (k_tlist s)"
  "k_thr (timer_unlink m s) = k_thr s" "k_q (timer_unlink m s) = k_q s"
  "k_group (timer_unlink m s) = k_group s" "k_cur (timer_unlink m s) = k_cur s"
  "k_cur_prio (timer_unlink m s) = k_cur_prio s" "k_lock (timer_unlink m s) = k_lock s"
  "k_nest (timer_unlink m s) = k_nest s" "k_tick (timer_unlink m s) = k_tick s"
  "k_tmr (timer_unlink m s) = k_tmr s" "k_sem (timer_unlink m s) = k_sem s"
  "k_mtx (timer_unlink m s) = k_mtx s" "k_ev (timer_unlink m s) = k_ev s"
  "k_mb (timer_unlink m s) = k_mb s" "k_mq (timer_unlink m s) = k_mq s"
  by (simp_all add: timer_unlink_def)

section \<open>The timer list is sorted\<close>

text \<open>
  A timeout as a distance from a base tick. While every listed timeout is less than half the
  tick range away from the base, the wrapped comparison of the code is the comparison of the
  distances.
\<close>

definition tdist :: "u32 \<Rightarrow> (tmid \<Rightarrow> rt_timer) \<Rightarrow> tmid \<Rightarrow> nat" where
  "tdist base tmr m = unat (tm_timeout_tick (tmr m) - base)"

definition timers_sorted :: "u32 \<Rightarrow> kstate \<Rightarrow> bool" where
  "timers_sorted base s \<longleftrightarrow>
     (\<forall>m \<in> set (k_tlist s). tdist base (k_tmr s) m < unat RT_TICK_HALF) \<and>
     sorted_wrt (\<lambda>a b. tdist base (k_tmr s) a \<le> tdist base (k_tmr s) b) (k_tlist s)"

lemma half_value: "unat RT_TICK_HALF = 2147483647"
  by (simp add: RT_TICK_HALF_def RT_TICK_MAX_def)

lemma unat_diff_wrap:
  fixes a b c :: u32
  shows "unat (a - b) = (if unat (b - c) \<le> unat (a - c) then unat (a - c) - unat (b - c)
                         else 2 ^ 32 - (unat (b - c) - unat (a - c)))"
proof -
  have e: "(a - c) - (b - c) = a - b" by simp
  show ?thesis using unat_sub_if' [of "a - c" "b - c"] unfolding e by auto
qed

lemma tick_compare:
  assumes "tdist base tmr a < unat RT_TICK_HALF" "tdist base tmr b < unat RT_TICK_HALF"
  shows "tm_timeout_tick (tmr a) - tm_timeout_tick (tmr b) = 0 \<longleftrightarrow> tdist base tmr a = tdist base tmr b"
    and "tm_timeout_tick (tmr a) - tm_timeout_tick (tmr b) < RT_TICK_HALF \<longleftrightarrow>
           tdist base tmr b \<le> tdist base tmr a"
proof -
  let ?a = "tm_timeout_tick (tmr a)" and ?b = "tm_timeout_tick (tmr b)"
  note U = unat_diff_wrap [of ?a ?b base]
  show "?a - ?b = 0 \<longleftrightarrow> tdist base tmr a = tdist base tmr b"
    by (metis (no_types) tdist_def eq_iff_diff_eq_0 diff_add_cancel word_unat_eq_iff)
  show "?a - ?b < RT_TICK_HALF \<longleftrightarrow> tdist base tmr b \<le> tdist base tmr a"
    using assms U unfolding tdist_def word_less_nat_alt half_value by (simp split: if_splits)
qed

lemma timer_insert_eq:
  assumes "\<forall>x \<in> set xs. tdist base tmr x < unat RT_TICK_HALF"
    and "tdist base tmr m < unat RT_TICK_HALF"
    and "sorted_wrt (\<lambda>a b. tdist base tmr a \<le> tdist base tmr b) xs"
  shows "timer_insert tmr m xs =
           filter (\<lambda>x. tdist base tmr x \<le> tdist base tmr m) xs @ m #
           filter (\<lambda>x. tdist base tmr m < tdist base tmr x) xs"
  using assms
proof (induction xs)
  case (Cons t ts)
  have half: "tdist base tmr t < unat RT_TICK_HALF" "tdist base tmr m < unat RT_TICK_HALF"
    using Cons.prems by simp_all
  note C = tick_compare [OF half]
  have IH: "timer_insert tmr m ts =
           filter (\<lambda>x. tdist base tmr x \<le> tdist base tmr m) ts @ m #
           filter (\<lambda>x. tdist base tmr m < tdist base tmr x) ts"
    using Cons by simp
  show ?case
  proof (cases "tdist base tmr t \<le> tdist base tmr m")
    case True
    then show ?thesis using C IH by (simp add: Let_def)
  next
    case False
    then have "\<forall>x\<in>set (t # ts). tdist base tmr m < tdist base tmr x"
      using Cons.prems(3) by auto
    then have "filter (\<lambda>x. tdist base tmr x \<le> tdist base tmr m) (t # ts) = []"
      and "filter (\<lambda>x. tdist base tmr m < tdist base tmr x) (t # ts) = t # ts"
      by (auto simp: filter_empty_conv filter_id_conv)
    then show ?thesis using C False by (simp add: Let_def)
  qed
qed simp

lemma set_timer_insert [simp]: "set (timer_insert tmr m xs) = insert m (set xs)"
  by (induction xs) (auto simp: Let_def)

lemma distinct_timer_insert [simp]:
  "distinct (timer_insert tmr m xs) \<longleftrightarrow> distinct xs \<and> m \<notin> set xs"
  by (induction xs) (auto simp: Let_def)

lemma timer_insert_cong:
  "(\<And>x. x \<in> insert m (set xs) \<Longrightarrow> tm_timeout_tick (tmr x) = tm_timeout_tick (tmr' x)) \<Longrightarrow>
     timer_insert tmr m xs = timer_insert tmr' m xs"
  by (induction xs) (auto simp: Let_def)

lemma sorted_filters:
  fixes k :: "'a \<Rightarrow> nat"
  assumes "sorted_wrt (\<lambda>a b. k a \<le> k b) xs"
  shows "sorted_wrt (\<lambda>a b. k a \<le> k b)
           (filter (\<lambda>x. k x \<le> k m) xs @ m # filter (\<lambda>x. k m < k x) xs)"
  using assms by (auto simp: sorted_wrt_append sorted_wrt_filter)

lemma sorted_split:
  fixes k :: "'a \<Rightarrow> nat"
  assumes "sorted_wrt (\<lambda>a b. k a \<le> k b) xs"
  shows "xs = filter (\<lambda>x. k x \<le> c) xs @ filter (\<lambda>x. c < k x) xs"
  using assms
proof (induction xs)
  case (Cons x xs)
  show ?case
  proof (cases "k x \<le> c")
    case True
    then show ?thesis using Cons by simp
  next
    case False
    then have "\<forall>y \<in> set (x # xs). c < k y" using Cons.prems by auto
    then have "filter (\<lambda>x. k x \<le> c) (x # xs) = []" "filter (\<lambda>x. c < k x) (x # xs) = x # xs"
      by (auto simp: filter_empty_conv filter_id_conv)
    then show ?thesis by simp
  qed
qed simp

section \<open>The timer invariant\<close>

text \<open>
  Each listed timer is a live object marked active, listed once; a thread's timer is listed
  only while the thread is suspended, and its callback wakes that thread.
\<close>

definition timer_inv :: "kstate \<Rightarrow> bool" where
  "timer_inv s \<longleftrightarrow> distinct (k_tlist s) \<and>
     (\<forall>m \<in> set (k_tlist s). tm_attached (k_tmr s m) \<and> tm_activated (k_tmr s m)) \<and>
     (\<forall>t. ThreadTimer t \<in> set (k_tlist s) \<longrightarrow> th_stat s t = RT_THREAD_SUSPEND) \<and>
     (\<forall>t. tm_timeout_func (k_tmr s (ThreadTimer t)) = Thread_Timeout t) \<and>
     (\<forall>n. \<exists>f. tm_timeout_func (k_tmr s (SysTimer n)) = User_Timeout f)"

lemma timer_invD:
  assumes "timer_inv s"
  shows "distinct (k_tlist s)"
    and "m \<in> set (k_tlist s) \<Longrightarrow> tm_attached (k_tmr s m)"
    and "m \<in> set (k_tlist s) \<Longrightarrow> tm_activated (k_tmr s m)"
    and "ThreadTimer t \<in> set (k_tlist s) \<Longrightarrow> th_stat s t = RT_THREAD_SUSPEND"
    and "tm_timeout_func (k_tmr s (ThreadTimer t)) = Thread_Timeout t"
    and "\<exists>f. tm_timeout_func (k_tmr s (SysTimer n)) = User_Timeout f"
  using assms unfolding timer_inv_def by blast+

lemma timer_inv_cong:
  "k_tlist s' = k_tlist s \<Longrightarrow> k_tmr s' = k_tmr s \<Longrightarrow> k_thr s' = k_thr s \<Longrightarrow> timer_inv s' \<longleftrightarrow> timer_inv s"
  unfolding timer_inv_def by simp

lemma timers_sorted_cong:
  "k_tlist s' = k_tlist s \<Longrightarrow> k_tmr s' = k_tmr s \<Longrightarrow> timers_sorted b s' \<longleftrightarrow> timers_sorted b s"
  unfolding timers_sorted_def tdist_def by simp

section \<open>Starting and stopping\<close>

lemma timers_sorted_unlink:
  assumes "timers_sorted base s"
  shows "timers_sorted base (timer_unlink m s)"
  using assms by (auto simp: timers_sorted_def sorted_wrt_filter)

text \<open>
  Starting a timer puts it behind all timers that expire no later, so timers of equal timeout
  fire in the order in which they were started.
\<close>

lemma rt_timer_start_spec:
  assumes srt: "timers_sorted base s" and att: "tm_attached (k_tmr s m)"
    and init: "tm_init_tick (k_tmr s m) < RT_TICK_HALF"
    and near: "unat (k_tick s + tm_init_tick (k_tmr s m) - base) < unat RT_TICK_HALF"
  obtains s' where "rt_timer_start m s = Some s'" and "timers_sorted base s'"
    and "tm_timeout_tick (k_tmr s' m) = k_tick s + tm_init_tick (k_tmr s m)"
    and "tm_activated (k_tmr s' m)"
    and "\<And>x. x \<noteq> m \<Longrightarrow> k_tmr s' x = k_tmr s x"
    and "k_tlist s' = filter (\<lambda>x. tdist base (k_tmr s') x \<le> tdist base (k_tmr s') m)
           (filter (\<lambda>x. x \<noteq> m) (k_tlist s)) @ m #
         filter (\<lambda>x. tdist base (k_tmr s') m < tdist base (k_tmr s') x)
           (filter (\<lambda>x. x \<noteq> m) (k_tlist s))"
    and "s' = s\<lparr>k_tmr := k_tmr s', k_tlist := k_tlist s'\<rparr>"
    and "k_tmr s' m = (k_tmr s m)\<lparr>
           tm_timeout_tick := k_tick s + tm_init_tick (k_tmr s m), tm_activated := True\<rparr>"
proof -
  let ?xs = "filter (\<lambda>x. x \<noteq> m) (k_tlist s)"
  let ?s1 = "upd_tmr m (\<lambda>t. t\<lparr>tm_activated := False\<rparr>) (timer_unlink m s)"
  let ?s2 = "upd_tmr m (\<lambda>t. t\<lparr>tm_timeout_tick := k_tick ?s1 + tm_init_tick t\<rparr>) ?s1"
  let ?s' = "upd_tmr m (\<lambda>t. t\<lparr>tm_activated := True\<rparr>)
               (?s2\<lparr>k_tlist := timer_insert (k_tmr ?s2) m (k_tlist ?s2)\<rparr>)"
  let ?k = "tdist base (k_tmr ?s')"
  have start: "rt_timer_start m s = Some ?s'"
    using att init by (simp add: rt_timer_start_def Let_def)
  have km: "?k m < unat RT_TICK_HALF" using near by (simp add: tdist_def)
  have same: "?k x = tdist base (k_tmr s) x" if "x \<noteq> m" for x using that by (simp add: tdist_def)
  have half: "\<forall>x\<in>set ?xs. ?k x < unat RT_TICK_HALF"
    using srt same by (auto simp: timers_sorted_def)
  have sorted: "sorted_wrt (\<lambda>a b. ?k a \<le> ?k b) ?xs"
  proof -
    have "sorted_wrt (\<lambda>a b. tdist base (k_tmr s) a \<le> tdist base (k_tmr s) b) ?xs"
      using srt by (simp add: timers_sorted_def sorted_wrt_filter)
    then show ?thesis by (rule sorted_wrt_mono_rel [rotated]) (simp add: tdist_def)
  qed
  have "k_tlist ?s' = timer_insert (k_tmr ?s') m ?xs"
    by simp (rule timer_insert_cong, simp)
  then have lst: "k_tlist ?s' = filter (\<lambda>x. ?k x \<le> ?k m) ?xs @ m # filter (\<lambda>x. ?k m < ?k x) ?xs"
    using timer_insert_eq [OF half km sorted] by simp
  have "sorted_wrt (\<lambda>a b. ?k a \<le> ?k b) (k_tlist ?s')"
    unfolding lst by (rule sorted_filters [OF sorted])
  moreover have "\<forall>x\<in>set (k_tlist ?s'). ?k x < unat RT_TICK_HALF"
    using half km by simp
  ultimately have "timers_sorted base ?s'" by (simp only: timers_sorted_def simp_thms)
  with start lst show thesis by (intro that [of ?s']) (simp_all add: upd_tmr_def timer_unlink_def)
qed

lemma rt_timer_start_inv:
  assumes inv: "timer_inv s" and go: "rt_timer_start m s = Some s'"
    and st: "\<And>t. m = ThreadTimer t \<Longrightarrow> th_stat s t = RT_THREAD_SUSPEND"
  shows "timer_inv s'"
proof -
  let ?ins = "\<lambda>tmr. timer_insert tmr m (filter (\<lambda>x. x \<noteq> m) (k_tlist s))"
  obtain tmr where s': "s' = s\<lparr>k_tlist := ?ins tmr,
      k_tmr := (k_tmr s)(m := (k_tmr s m)\<lparr>
           tm_timeout_tick := k_tick s + tm_init_tick (k_tmr s m), tm_activated := True\<rparr>)\<rparr>"
    and att: "tm_attached (k_tmr s m)"
    using go by (auto simp: rt_timer_start_def Let_def upd_tmr_def timer_unlink_def split: if_splits)
  note D = timer_invD [OF inv]
  show ?thesis
    unfolding timer_inv_def s' using D att st by auto
qed

lemma rt_timer_stop_spec:
  assumes inv: "timer_inv s" and att: "tm_attached (k_tmr s m)"
  obtains r s' where "rt_timer_stop m s = Some (r, s')" and "timer_inv s'"
    and "k_tlist s' = filter (\<lambda>x. x \<noteq> m) (k_tlist s)" and "\<not> tm_activated (k_tmr s' m)"
    and "s' = s\<lparr>k_tmr := (k_tmr s)(m := (k_tmr s m)\<lparr>tm_activated := False\<rparr>),
                k_tlist := filter (\<lambda>x. x \<noteq> m) (k_tlist s)\<rparr>"
proof (cases "tm_activated (k_tmr s m)")
  case True
  let ?s = "upd_tmr m (\<lambda>t. t\<lparr>tm_activated := False\<rparr>) (timer_unlink m s)"
  have "timer_inv ?s" using timer_invD [OF inv] unfolding timer_inv_def by auto
  with True att show ?thesis
    by (intro that [of RT_EOK ?s]) (simp_all add: rt_timer_stop_def upd_tmr_def timer_unlink_def)
next
  case False
  then have "m \<notin> set (k_tlist s)" using timer_invD(3) [OF inv] by blast
  then have f: "filter (\<lambda>x. x \<noteq> m) (k_tlist s) = k_tlist s" by (intro filter_neq_idle)
  have "k_tmr s = (k_tmr s)(m := (k_tmr s m)\<lparr>tm_activated := False\<rparr>)"
    using False by (intro ext) simp
  with False att f inv show ?thesis
    by (intro that [of "- RT_ERROR" s]) (simp_all add: rt_timer_stop_def)
qed

lemma timers_sorted_filter:
  assumes "timers_sorted base s" "k_tlist s' = filter P (k_tlist s)"
    and "\<And>m. tm_timeout_tick (k_tmr s' m) = tm_timeout_tick (k_tmr s m)"
  shows "timers_sorted base s'"
proof -
  have "tdist base (k_tmr s') = tdist base (k_tmr s)" by (simp add: tdist_def fun_eq_iff assms(3))
  then show ?thesis using assms(1) by (simp add: timers_sorted_def assms(2) sorted_wrt_filter)
qed

end
