(* ===== verification/Thread.thy ===== *)
theory Thread
  imports Sched Timer
begin

text \<open>
  The thread operations of src/thread.c. An operation that calls the scheduler on behalf of
  its caller is split there: the first part ends with \<open>rt_schedule\<close>, the second (suffix
  \<open>_wake\<close>) is what the caller runs once it is scheduled again. \<open>None\<close> is a failed assertion.
  Stack and register setup and the hooks are not modelled.
\<close>

section \<open>Operations\<close>

definition rt_thread_exit :: "kstate \<Rightarrow> kstate option" where
  "rt_thread_exit s =
     do { t \<leftarrow> k_cur s;
          let s1 = rt_schedule_remove_thread t s;
          let s2 = set_stat t RT_THREAD_CLOSE s1;
          s3 \<leftarrow> rt_timer_detach (ThreadTimer t) s2;
          let s4 = (if t_static (k_thr s3 t) \<and> \<not> t_cleanup (k_thr s3 t)
                    then upd_thr t (\<lambda>h. h\<lparr>t_attached := False\<rparr>) s3
                    else tlist_push DefunctQ t s3);
          rt_schedule s4 }"

text \<open>
  \<open>_rt_thread_init\<close>. The node of a thread that is still linked would be cleared without being
  unlinked; the caller has to pass a thread that is in no list.
\<close>

definition thread_init :: "tid \<Rightarrow> nat \<Rightarrow> u32 \<Rightarrow> kstate \<Rightarrow> kstate option" where
  "thread_init t priority tick s =
     (if priority < RT_THREAD_PRIORITY_MAX
      then Some (rt_timer_init (ThreadTimer t) (Thread_Timeout t) 0 False
        (upd_thr t (\<lambda>h. h\<lparr>t_init_priority := priority, t_current_priority := priority,
            t_number_mask := 0, t_init_tick := tick, t_remaining_tick := tick,
            t_error := RT_EOK, t_stat := RT_THREAD_INIT, t_cleanup := False\<rparr>) s))
      else None)"

definition rt_thread_init :: "tid \<Rightarrow> nat \<Rightarrow> u32 \<Rightarrow> kstate \<Rightarrow> kstate option" where
  "rt_thread_init t priority tick s =
     thread_init t priority tick (upd_thr t (\<lambda>h. h\<lparr>t_attached := True, t_static := True\<rparr>) s)"

text \<open>The allocator's answer is an argument: the new object or nothing, and the stack or nothing.\<close>

definition rt_thread_create :: "tid option \<Rightarrow> bool \<Rightarrow> nat \<Rightarrow> u32 \<Rightarrow> kstate \<Rightarrow>
    (tid option \<times> kstate) option" where
  "rt_thread_create obj stack priority tick s =
     (case obj of None \<Rightarrow> Some (None, s)
      | Some t \<Rightarrow>
          if \<not> stack then Some (None, upd_thr t (\<lambda>h. h\<lparr>t_attached := False, t_static := False\<rparr>) s)
          else do { s1 \<leftarrow> thread_init t priority tick
                            (upd_thr t (\<lambda>h. h\<lparr>t_attached := True, t_static := False\<rparr>) s);
                    Some (Some t, s1) })"

definition rt_thread_suspend :: "tid \<Rightarrow> kstate \<Rightarrow> (int \<times> kstate) option" where
  "rt_thread_suspend t s =
     (if \<not> t_attached (k_thr s t) then None
      else if th_stat s t \<noteq> RT_THREAD_READY \<and> th_stat s t \<noteq> RT_THREAD_RUNNING
      then Some (- RT_ERROR, s)
      else if th_stat s t = RT_THREAD_RUNNING \<and> k_cur s \<noteq> Some t then None
      else do { let s1 = set_stat t RT_THREAD_SUSPEND (rt_schedule_remove_thread t s);
                (_, s2) \<leftarrow> rt_timer_stop (ThreadTimer t) s1;
                Some (RT_EOK, s2) })"

definition rt_thread_resume :: "tid \<Rightarrow> kstate \<Rightarrow> (int \<times> kstate) option" where
  "rt_thread_resume t s =
     (if \<not> t_attached (k_thr s t) then None
      else if th_stat s t \<noteq> RT_THREAD_SUSPEND then Some (- RT_ERROR, s)
      else do { (_, s1) \<leftarrow> rt_timer_stop (ThreadTimer t) (tlist_remove t s);
                Some (RT_EOK, rt_schedule_insert_thread t s1) })"

definition rt_thread_startup :: "tid \<Rightarrow> kstate \<Rightarrow> (int \<times> kstate) option" where
  "rt_thread_startup t s =
     (if th_stat s t \<noteq> RT_THREAD_INIT \<or> \<not> t_attached (k_thr s t) then None
      else do {
        let s1 = upd_thr t (\<lambda>h. h\<lparr>t_current_priority := t_init_priority h,
                   t_number_mask := push_bit (t_init_priority h) 1,
                   t_stat := RT_THREAD_SUSPEND\<rparr>) s;
        (_, s2) \<leftarrow> rt_thread_resume t s1;
        s3 \<leftarrow> (if k_cur s2 \<noteq> None then rt_schedule s2 else Some s2);
        Some (RT_EOK, s3) })"

text \<open>The common part of \<open>rt_thread_detach\<close> and \<open>rt_thread_delete\<close>.\<close>

definition thread_close :: "tid \<Rightarrow> kstate \<Rightarrow> kstate option" where
  "thread_close t s =
     do { let s1 = (if th_stat s t \<noteq> RT_THREAD_INIT then rt_schedule_remove_thread t s else s);
          s2 \<leftarrow> rt_timer_detach (ThreadTimer t) s1;
          Some (set_stat t RT_THREAD_CLOSE s2) }"

definition rt_thread_detach :: "tid \<Rightarrow> kstate \<Rightarrow> (int \<times> kstate) option" where
  "rt_thread_detach t s =
     (if \<not> t_attached (k_thr s t) \<or> \<not> t_static (k_thr s t) then None
      else do { s1 \<leftarrow> thread_close t s;
                let s2 = (if t_static (k_thr s1 t) \<and> \<not> t_cleanup (k_thr s1 t)
                          then upd_thr t (\<lambda>h. h\<lparr>t_attached := False\<rparr>) s1
                          else tlist_push DefunctQ t s1);
                Some (RT_EOK, s2) })"

definition rt_thread_delete :: "tid \<Rightarrow> kstate \<Rightarrow> (int \<times> kstate) option" where
  "rt_thread_delete t s =
     (if \<not> t_attached (k_thr s t) \<or> t_static (k_thr s t) then None
      else do { s1 \<leftarrow> thread_close t s;
                Some (RT_EOK, tlist_push DefunctQ t s1) })"

definition rt_thread_yield :: "kstate \<Rightarrow> kstate option" where
  "rt_thread_yield s = rt_schedule s"

definition rt_thread_sleep :: "u32 \<Rightarrow> kstate \<Rightarrow> kstate option" where
  "rt_thread_sleep tick s =
     do { t \<leftarrow> k_cur s;
          if \<not> t_attached (k_thr s t) then None
          else do { (_, s1) \<leftarrow> rt_thread_suspend t s;
                    (_, s2) \<leftarrow> rt_timer_control (ThreadTimer t) (RT_TIMER_CTRL_SET_TIME tick) s1;
                    s3 \<leftarrow> rt_timer_start (ThreadTimer t) s2;
                    rt_schedule s3 } }"

definition rt_thread_sleep_wake :: "tid \<Rightarrow> kstate \<Rightarrow> (int \<times> kstate)" where
  "rt_thread_sleep_wake t s =
     (RT_EOK, if t_error (k_thr s t) = - RT_ETIMEOUT
              then upd_thr t (\<lambda>h. h\<lparr>t_error := RT_EOK\<rparr>) s else s)"

definition rt_thread_delay :: "u32 \<Rightarrow> kstate \<Rightarrow> kstate option" where
  "rt_thread_delay tick s = rt_thread_sleep tick s"

datatype thread_cmd =
    RT_THREAD_CTRL_CHANGE_PRIORITY nat
  | RT_THREAD_CTRL_STARTUP
  | RT_THREAD_CTRL_CLOSE
  | RT_THREAD_CTRL_OTHER

text \<open>
  A priority of 32 or more is not checked by the code: the shift is undefined and the ready
  table is indexed out of bounds, which is \<open>None\<close> here.
\<close>

definition set_priority :: "nat \<Rightarrow> rt_thread \<Rightarrow> rt_thread" where
  "set_priority p h = h\<lparr>t_current_priority := p, t_number_mask := push_bit p 1\<rparr>"

definition rt_thread_control :: "tid \<Rightarrow> thread_cmd \<Rightarrow> kstate \<Rightarrow> (int \<times> kstate) option" where
  "rt_thread_control t cmd s =
     (if \<not> t_attached (k_thr s t) then None
      else case cmd of
        RT_THREAD_CTRL_CHANGE_PRIORITY p \<Rightarrow>
          (if \<not> p < RT_THREAD_PRIORITY_MAX then None
           else if th_stat s t = RT_THREAD_READY
           then Some (RT_EOK, rt_schedule_insert_thread t
                        (upd_thr t (set_priority p) (rt_schedule_remove_thread t s)))
           else Some (RT_EOK, upd_thr t (set_priority p) s))
      | RT_THREAD_CTRL_STARTUP \<Rightarrow> rt_thread_startup t s
      | RT_THREAD_CTRL_CLOSE \<Rightarrow> rt_thread_delete t s
      | RT_THREAD_CTRL_OTHER \<Rightarrow> Some (RT_EOK, s))"

definition rt_thread_timeout :: "tid \<Rightarrow> kstate \<Rightarrow> kstate option" where
  "rt_thread_timeout t s =
     (if th_stat s t \<noteq> RT_THREAD_SUSPEND \<or> \<not> t_attached (k_thr s t) then None
      else rt_schedule (rt_schedule_insert_thread t
             (tlist_remove t (upd_thr t (\<lambda>h. h\<lparr>t_error := - RT_ETIMEOUT\<rparr>) s))))"

section \<open>The kernel invariant\<close>

text \<open>A started thread and its timer are live objects.\<close>

definition live :: "kstate \<Rightarrow> tid \<Rightarrow> bool" where
  "live s t \<longleftrightarrow> th_stat s t \<in> {RT_THREAD_READY, RT_THREAD_SUSPEND, RT_THREAD_RUNNING}"

definition thr_inv :: "kstate \<Rightarrow> bool" where
  "thr_inv s \<longleftrightarrow> (\<forall>t. live s t \<longrightarrow> t_attached (k_thr s t) \<and>
     tm_attached (k_tmr s (ThreadTimer t)) \<and> tm_static (k_tmr s (ThreadTimer t)))"

definition kernel_inv :: "kstate \<Rightarrow> bool" where
  "kernel_inv s \<longleftrightarrow> sched_inv s \<and> timer_inv s \<and> thr_inv s \<and> k_cur s \<noteq> None"

lemma kernel_invD:
  assumes "kernel_inv s"
  shows "sched_inv s" "table_inv s" "current_inv s" "timer_inv s" "thr_inv s" "\<exists>c. k_cur s = Some c"
  using assms by (auto simp: kernel_inv_def sched_inv_def)

lemma thr_invD:
  assumes "thr_inv s" "live s t"
  shows "t_attached (k_thr s t)" "tm_attached (k_tmr s (ThreadTimer t))"
    "tm_static (k_tmr s (ThreadTimer t))"
  using assms by (auto simp: thr_inv_def)

lemma live_simps [simp]:
  "th_stat s t = RT_THREAD_READY \<Longrightarrow> live s t"
  "th_stat s t = RT_THREAD_SUSPEND \<Longrightarrow> live s t"
  "th_stat s t = RT_THREAD_RUNNING \<Longrightarrow> live s t"
  by (simp_all add: live_def)

text \<open>What the invariant looks at in a thread; the other fields may change freely.\<close>

definition thr_core :: "rt_thread \<Rightarrow> tstat \<times> nat \<times> u32 \<times> bool" where
  "thr_core h = (t_stat h, t_current_priority h, t_number_mask h, t_attached h)"

lemma thr_coreD:
  "thr_core h = thr_core h' \<Longrightarrow> t_stat h = t_stat h' \<and> t_current_priority h = t_current_priority h' \<and>
     t_number_mask h = t_number_mask h' \<and> t_attached h = t_attached h'"
  by (simp add: thr_core_def)

lemma table_inv_core:
  assumes "\<And>t. thr_core (k_thr s' t) = thr_core (k_thr s t)" "k_q s' = k_q s" "k_group s' = k_group s"
  shows "table_inv s' \<longleftrightarrow> table_inv s"
  using thr_coreD [OF assms(1)] assms(2,3) unfolding table_inv_def started_def by simp

lemma kernel_inv_core:
  assumes "\<And>t. thr_core (k_thr s' t) = thr_core (k_thr s t)" "k_q s' = k_q s" "k_group s' = k_group s"
    "k_cur s' = k_cur s" "k_tmr s' = k_tmr s" "k_tlist s' = k_tlist s"
  shows "kernel_inv s' \<longleftrightarrow> kernel_inv s"
  using thr_coreD [OF assms(1)] table_inv_core [OF assms(1-3)] assms(4-)
  unfolding kernel_inv_def sched_inv_def current_inv_def timer_inv_def thr_inv_def live_def by simp

section \<open>Waking and suspending, seen from the scheduler\<close>

lemma wake_table_inv:
  assumes inv: "sched_inv s" and st: "th_stat s t = RT_THREAD_SUSPEND"
  shows "sched_inv (rt_schedule_insert_thread t (tlist_remove t s))"
proof -
  have tab: "table_inv s" and ci: "current_inv s" using inv by (simp_all add: sched_inv_def)
  have rem: "table_inv (tlist_remove t s)" using tlist_remove_table_inv [OF tab] st by simp
  have start: "started s t" by (rule table_invD(8) [OF tab st])
  show ?thesis
  proof (cases "k_cur s = Some t")
    case True
    let ?s = "set_stat t RT_THREAD_RUNNING (tlist_remove t s)"
    have eq: "rt_schedule_insert_thread t (tlist_remove t s) = ?s"
      using True by (simp add: rt_schedule_insert_thread_def)
    note D = table_invD [OF rem]
    have "table_inv ?s"
    proof (rule table_invI)
      fix q q' u p i
      show "distinct (k_q ?s q)" using D(1) [of q] by simp
      show "q = q'" if "u \<in> set (k_q ?s q)" "u \<in> set (k_q ?s q')" using that D(2) [of u q q'] by simp
      show "th_stat ?s u = RT_THREAD_READY \<and> th_prio ?s u = p" if "u \<in> set (k_q ?s (ReadyQ p))"
        using that D(3,4) [of u p] by auto
      show "u \<in> set (k_q ?s (ReadyQ (th_prio ?s u)))" if "th_stat ?s u = RT_THREAD_READY"
        using that D(5) [of u] by (simp split: if_splits)
      show "bit (k_group ?s) p \<longleftrightarrow> k_q ?s (ReadyQ p) \<noteq> []" if "p < 32" using D(6) [OF that] by simp
      show "started ?s u" if "th_stat ?s u \<in> {RT_THREAD_READY, RT_THREAD_SUSPEND, RT_THREAD_RUNNING}"
        using that D(7,8,9) [of u] start by (auto simp: started_def split: if_splits)
      show "th_stat ?s u = RT_THREAD_SUSPEND" if "u \<in> set (k_q ?s (SuspQ i)) \<or> u \<in> set (k_q ?s (SenderQ i))"
        using that D(10,11) [of u i] by auto
      show "th_stat ?s u = RT_THREAD_CLOSE" if "u \<in> set (k_q ?s DefunctQ)"
        using that D(12) [of u] by auto
    qed
    moreover have "current_inv ?s" using ci True by (auto simp: current_inv_def)
    ultimately show ?thesis by (simp add: sched_inv_def eq)
  next
    case False
    have "table_inv (rt_schedule_insert_thread t (tlist_remove t s))"
      using rem start False unlinked_tlist_remove
      by (intro insert_table_inv) (simp_all add: started_def)
    moreover have "current_inv (rt_schedule_insert_thread t (tlist_remove t s))"
      using ci False by (auto simp: current_inv_def)
    ultimately show ?thesis by (simp add: sched_inv_def)
  qed
qed

text \<open>The state a woken thread gets: READY, or RUNNING when it is still the current thread.\<close>

lemma insert_thr:
  "k_thr (rt_schedule_insert_thread t s) = (k_thr s)(t := (k_thr s t)\<lparr>t_stat :=
     if k_cur s = Some t then RT_THREAD_RUNNING else RT_THREAD_READY\<rparr>)"
  by (simp add: rt_schedule_insert_thread_def Let_def)

lemma suspend_sched_inv:
  assumes inv: "sched_inv s" and st: "live s t"
    and x: "x \<noteq> RT_THREAD_READY" "x \<noteq> RT_THREAD_RUNNING"
  shows "sched_inv (set_stat t x (rt_schedule_remove_thread t s))"
    and "unlinked t (set_stat t x (rt_schedule_remove_thread t s))"
proof -
  have tab: "table_inv s" and ci: "current_inv s" using inv by (simp_all add: sched_inv_def)
  have start: "started s t" using st table_invD(7,8,9) [OF tab] by (auto simp: live_def)
  show "unlinked t (set_stat t x (rt_schedule_remove_thread t s))"
    by (rule remove_table_inv(2) [OF tab start x(1)])
  have "current_inv (set_stat t x (rt_schedule_remove_thread t s))"
    using ci x by (auto simp: current_inv_def)
  then show "sched_inv (set_stat t x (rt_schedule_remove_thread t s))"
    using remove_table_inv(1) [OF tab start x(1)] by (simp add: sched_inv_def)
qed

text \<open>Linking a suspended thread into a wait list at any place.\<close>

lemma link_table_inv:
  assumes tab: "table_inv s" and ul: "unlinked t s" and st: "th_stat s t = RT_THREAD_SUSPEND"
    and q: "q = SuspQ i \<or> q = SenderQ i" and xs: "xs = us @ t # vs" "k_q s q = us @ vs"
  shows "table_inv (s\<lparr>k_q := (k_q s)(q := xs)\<rparr>)"
proof -
  note D = table_invD [OF tab]
  have nt: "t \<notin> set (k_q s y)" for y using ul by (simp add: unlinked_def)
  have set: "set xs = insert t (set (k_q s q))" and dist: "distinct xs"
    using xs D(1) [of q] nt [of q] by auto
  let ?s = "s\<lparr>k_q := (k_q s)(q := xs)\<rparr>"
  have nr: "q \<noteq> ReadyQ p" "q \<noteq> DefunctQ" for p using q by auto
  show ?thesis
  proof (rule table_invI)
    fix y y' u p j
    show "distinct (k_q ?s y)" using D(1) [of y] dist by simp
    show "y = y'" if "u \<in> set (k_q ?s y)" "u \<in> set (k_q ?s y')"
      using that D(2) [of u y y'] D(2) [of u q y'] D(2) [of u y q] nt [of y] nt [of y'] set
      by (auto split: if_splits)
    show "th_stat ?s u = RT_THREAD_READY \<and> th_prio ?s u = p" if "u \<in> set (k_q ?s (ReadyQ p))"
      using that D(3,4) [of u p] nr(1) [of p] by simp
    show "u \<in> set (k_q ?s (ReadyQ (th_prio ?s u)))" if "th_stat ?s u = RT_THREAD_READY"
      using that D(5) [of u] nr(1) [of "th_prio s u"] by simp
    show "bit (k_group ?s) p \<longleftrightarrow> k_q ?s (ReadyQ p) \<noteq> []" if "p < 32"
      using D(6) [OF that] nr(1) [of p] by simp
    show "started ?s u" if "th_stat ?s u \<in> {RT_THREAD_READY, RT_THREAD_SUSPEND, RT_THREAD_RUNNING}"
      using that D(7,8,9) [of u] by (auto simp: started_def)
    show "th_stat ?s u = RT_THREAD_SUSPEND" if "u \<in> set (k_q ?s (SuspQ j)) \<or> u \<in> set (k_q ?s (SenderQ j))"
      using that D(10,11) [of u j] D(10,11) [of u i] st set q by (auto split: if_splits)
    show "th_stat ?s u = RT_THREAD_CLOSE" if "u \<in> set (k_q ?s DefunctQ)"
      using that D(12) [of u] nr(2) by simp
  qed
qed

section \<open>rt_schedule and the kernel invariant\<close>

text \<open>
  What a call of the scheduler leaves alone: everything but the current thread, the ready
  lists and the switch of threads between READY and RUNNING.
\<close>

definition objs_same :: "kstate \<Rightarrow> kstate \<Rightarrow> bool" where
  "objs_same s s' \<longleftrightarrow> k_sem s' = k_sem s \<and> k_mtx s' = k_mtx s \<and> k_ev s' = k_ev s \<and>
     k_mb s' = k_mb s \<and> k_mq s' = k_mq s \<and> k_tick s' = k_tick s \<and> k_lock s' = k_lock s \<and>
     k_nest s' = k_nest s"

definition sched_only :: "kstate \<Rightarrow> kstate \<Rightarrow> bool" where
  "sched_only s s' \<longleftrightarrow> objs_same s s' \<and> k_tmr s' = k_tmr s \<and> k_tlist s' = k_tlist s \<and>
     (\<forall>i. k_q s' (SuspQ i) = k_q s (SuspQ i) \<and> k_q s' (SenderQ i) = k_q s (SenderQ i)) \<and>
     k_q s' DefunctQ = k_q s DefunctQ \<and>
     (\<forall>t. k_thr s' t = (k_thr s t)\<lparr>t_stat := th_stat s' t\<rparr>) \<and>
     (\<forall>t. th_stat s' t = th_stat s t \<or>
          th_stat s t \<in> {RT_THREAD_READY, RT_THREAD_RUNNING} \<and>
          th_stat s' t \<in> {RT_THREAD_READY, RT_THREAD_RUNNING})"

lemma objs_same_refl [simp, intro]: "objs_same s s"
  by (simp add: objs_same_def)

lemma objs_same_trans [trans]: "objs_same s s' \<Longrightarrow> objs_same s' s'' \<Longrightarrow> objs_same s s''"
  by (simp add: objs_same_def)

lemma sched_only_refl [simp, intro]: "sched_only s s"
  by (simp add: sched_only_def)

lemma sched_onlyD:
  assumes "sched_only s s'"
  shows "objs_same s s'" "k_tmr s' = k_tmr s" "k_tlist s' = k_tlist s"
    "k_q s' (SuspQ i) = k_q s (SuspQ i)" "k_q s' (SenderQ i) = k_q s (SenderQ i)"
    "k_q s' DefunctQ = k_q s DefunctQ"
    "k_thr s' t = (k_thr s t)\<lparr>t_stat := th_stat s' t\<rparr>"
    "th_stat s t \<noteq> RT_THREAD_READY \<Longrightarrow> th_stat s t \<noteq> RT_THREAD_RUNNING \<Longrightarrow> th_stat s' t = th_stat s t"
    "live s' t = live s t"
    "th_stat s' t = RT_THREAD_SUSPEND \<longleftrightarrow> th_stat s t = RT_THREAD_SUSPEND"
proof -
  have th: "th_stat s' u = th_stat s u \<or> th_stat s u \<in> {RT_THREAD_READY, RT_THREAD_RUNNING} \<and>
          th_stat s' u \<in> {RT_THREAD_READY, RT_THREAD_RUNNING}" for u
    using assms unfolding sched_only_def by blast
  show "live s' t = live s t" "th_stat s' t = RT_THREAD_SUSPEND \<longleftrightarrow> th_stat s t = RT_THREAD_SUSPEND"
    "th_stat s t \<noteq> RT_THREAD_READY \<Longrightarrow> th_stat s t \<noteq> RT_THREAD_RUNNING \<Longrightarrow> th_stat s' t = th_stat s t"
    using th [of t] by (auto simp: live_def)
  show "objs_same s s'" "k_tmr s' = k_tmr s" "k_tlist s' = k_tlist s"
    "k_q s' (SuspQ i) = k_q s (SuspQ i)" "k_q s' (SenderQ i) = k_q s (SenderQ i)"
    "k_q s' DefunctQ = k_q s DefunctQ" "k_thr s' t = (k_thr s t)\<lparr>t_stat := th_stat s' t\<rparr>"
    using assms unfolding sched_only_def by blast+
qed

lemma rt_thread_fields:
  assumes "h = g\<lparr>t_stat := x\<rparr>"
  shows "t_error h = t_error g" "t_current_priority h = t_current_priority g"
    "t_init_priority h = t_init_priority g" "t_number_mask h = t_number_mask g"
    "t_event_set h = t_event_set g" "t_event_info h = t_event_info g"
    "t_init_tick h = t_init_tick g" "t_remaining_tick h = t_remaining_tick g"
    "t_cleanup h = t_cleanup g" "t_static h = t_static g" "t_attached h = t_attached g"
  using assms by simp_all

lemmas sched_only_fields = rt_thread_fields [OF sched_onlyD(7)]

lemma sched_only_timer_inv:
  "sched_only s s' \<Longrightarrow> timer_inv s \<Longrightarrow> timer_inv s'"
  using sched_onlyD(2,3,10) [of s s'] unfolding timer_inv_def by simp

lemma sched_only_thr_inv:
  assumes "sched_only s s'" "thr_inv s" shows "thr_inv s'"
  using sched_onlyD(2,9) [OF assms(1)] sched_only_fields(11) [OF assms(1)] assms(2)
  unfolding thr_inv_def by simp

definition runnable :: "kstate \<Rightarrow> bool" where
  "runnable s \<longleftrightarrow> (\<exists>t. th_stat s t = RT_THREAD_READY \<or> th_stat s t = RT_THREAD_RUNNING)"

lemma rt_schedule_only:
  assumes inv: "sched_inv s" and cur: "k_cur s = Some c" and go: "rt_schedule s = Some s'"
  shows "sched_only s s'"
proof (cases "k_lock s = 0 \<and> k_group s \<noteq> 0")
  case False
  then have "s' = s" using go by (auto simp: rt_schedule_def)
  then show ?thesis by simp
next
  case True
  then have lg: "k_lock s = 0" "k_group s \<noteq> 0" by simp_all
  have tab: "table_inv s" using inv by (simp add: sched_inv_def)
  have idle: "filter (\<lambda>x. x \<noteq> u) (k_q s q) = k_q s q"
    if "th_stat s u = RT_THREAD_RUNNING \<or> th_stat s u = RT_THREAD_READY \<and> (\<forall>p. q \<noteq> ReadyQ p)" for u q
  proof (rule filter_neq_idle)
    show "u \<notin> set (k_q s q)"
      using that table_invD(3,10,11,12) [OF tab, of u] by (cases q) auto
  qed
  from inv cur lg show ?thesis
  proof (cases rule: rt_schedule_cases)
    case (stay p)
    then have s': "s' = set_stat c RT_THREAD_RUNNING (rt_schedule_remove_thread c s)" using go by simp
    show ?thesis unfolding s' using idle stay(1) by (auto simp: sched_only_def objs_same_def)
  next
    case (preempt t p)
    then have s': "s' = set_stat t RT_THREAD_RUNNING (rt_schedule_remove_thread t
         (rt_schedule_insert_thread c (s\<lparr>k_cur_prio := p, k_cur := Some t\<rparr>)))" using go by simp
    have q: "k_q (rt_schedule_insert_thread c (s\<lparr>k_cur_prio := p, k_cur := Some t\<rparr>)) q = k_q s q"
      if "\<forall>p. q \<noteq> ReadyQ p" for q
      using preempt(2) that by (simp add: rt_schedule_insert_thread_def Let_def)
    show ?thesis unfolding s' using idle preempt(1,2,4) q
      by (auto simp: sched_only_def objs_same_def)
  next
    case (handover t p)
    then have s': "s' = set_stat t RT_THREAD_RUNNING (rt_schedule_remove_thread t
         (s\<lparr>k_cur_prio := p, k_cur := Some t\<rparr>))" using go by simp
    show ?thesis unfolding s' using idle handover(3) by (auto simp: sched_only_def objs_same_def)
  qed
qed

lemma rt_schedule_kernel:
  assumes inv: "kernel_inv s"
  obtains s' where "rt_schedule s = Some s'" "kernel_inv s'" "sched_only s s'"
    "k_lock s = 0 \<and> runnable s \<Longrightarrow> best_runs s'"
proof -
  obtain c where cur: "k_cur s = Some c" using kernel_invD(6) [OF inv] by blast
  obtain s' c' where s': "rt_schedule s = Some s'" "sched_inv s'" "k_cur s' = Some c'"
    "k_lock s = 0 \<and> (k_group s \<noteq> 0 \<or> th_stat s c = RT_THREAD_RUNNING) \<longrightarrow> best_runs s'"
    using rt_schedule_inv [OF kernel_invD(1) [OF inv] cur] by blast
  note so = rt_schedule_only [OF kernel_invD(1) [OF inv] cur s'(1)]
  have k: "kernel_inv s'"
    using s' sched_only_timer_inv [OF so kernel_invD(4) [OF inv]]
      sched_only_thr_inv [OF so kernel_invD(5) [OF inv]] by (simp add: kernel_inv_def)
  have b: "best_runs s'" if "k_lock s = 0 \<and> runnable s"
  proof -
    have "k_group s \<noteq> 0 \<or> th_stat s c = RT_THREAD_RUNNING"
      using that group_zero_iff [OF kernel_invD(2) [OF inv]] kernel_invD(3) [OF inv] cur
      unfolding runnable_def current_inv_def by fastforce
    then show ?thesis using s'(4) that by simp
  qed
  show thesis by (rule that [OF s'(1) k so b])
qed

section \<open>Every thread operation keeps the kernel invariant\<close>

lemma sched_inv_tm_cong:
  "k_thr s' = k_thr s \<Longrightarrow> k_q s' = k_q s \<Longrightarrow> k_group s' = k_group s \<Longrightarrow> k_cur s' = k_cur s \<Longrightarrow>
     sched_inv s' \<longleftrightarrow> sched_inv s"
  using table_inv_cong [of s' s] by (simp add: sched_inv_def current_inv_def)

lemma thr_inv_step:
  assumes "thr_inv s" and "\<And>u. live s' u \<Longrightarrow> live s u"
    and "\<And>u. live s' u \<Longrightarrow> t_attached (k_thr s' u) = t_attached (k_thr s u)"
    and "\<And>u. live s' u \<Longrightarrow> tm_attached (k_tmr s' (ThreadTimer u)) = tm_attached (k_tmr s (ThreadTimer u))"
    and "\<And>u. live s' u \<Longrightarrow> tm_static (k_tmr s' (ThreadTimer u)) = tm_static (k_tmr s (ThreadTimer u))"
  shows "thr_inv s'"
  using assms unfolding thr_inv_def by metis

lemma timer_inv_step:
  assumes "timer_inv s" and "distinct (k_tlist s')" and "set (k_tlist s') \<subseteq> set (k_tlist s)"
    and "\<And>m. m \<in> set (k_tlist s') \<Longrightarrow> k_tmr s' m = k_tmr s m"
    and "\<And>m. tm_timeout_func (k_tmr s' m) = tm_timeout_func (k_tmr s m)"
    and "\<And>t. ThreadTimer t \<in> set (k_tlist s') \<Longrightarrow> th_stat s' t = th_stat s t"
  shows "timer_inv s'"
  using assms unfolding timer_inv_def by (metis subsetD)

lemma rt_thread_resume_spec:
  assumes inv: "kernel_inv s" and st: "th_stat s t = RT_THREAD_SUSPEND"
  obtains s' where "rt_thread_resume t s = Some (RT_EOK, s')" "kernel_inv s'" "objs_same s s'"
    "k_thr s' = (k_thr s)(t := (k_thr s t)\<lparr>t_stat :=
       if k_cur s = Some t then RT_THREAD_RUNNING else RT_THREAD_READY\<rparr>)"
    "k_cur s' = k_cur s" "\<And>q. \<forall>p. q \<noteq> ReadyQ p \<Longrightarrow> k_q s' q = filter (\<lambda>x. x \<noteq> t) (k_q s q)"
    "k_tlist s' = filter (\<lambda>x. x \<noteq> ThreadTimer t) (k_tlist s)"
    "\<And>m. m \<noteq> ThreadTimer t \<Longrightarrow> k_tmr s' m = k_tmr s m"
    "\<And>m. tm_attached (k_tmr s' m) = tm_attached (k_tmr s m)"
    "\<And>m. tm_timeout_tick (k_tmr s' m) = tm_timeout_tick (k_tmr s m)"
proof -
  note K = kernel_invD [OF inv]
  note T = thr_invD [OF K(5), of t]
  have tinv: "timer_inv (tlist_remove t s)" using K(4) timer_inv_cong [of "tlist_remove t s" s] by simp
  obtain r s1 where s1: "rt_timer_stop (ThreadTimer t) (tlist_remove t s) = Some (r, s1)" "timer_inv s1"
    "k_tlist s1 = filter (\<lambda>x. x \<noteq> ThreadTimer t) (k_tlist s)"
    "s1 = (tlist_remove t s)\<lparr>k_tmr := (k_tmr s)(ThreadTimer t := (k_tmr s (ThreadTimer t))\<lparr>tm_activated := False\<rparr>),
                k_tlist := filter (\<lambda>x. x \<noteq> ThreadTimer t) (k_tlist s)\<rparr>"
    using rt_timer_stop_spec [OF tinv, of "ThreadTimer t"] T st by (auto simp del: upd_thr_sel)
  let ?w = "rt_schedule_insert_thread t (tlist_remove t s)"
  let ?s' = "rt_schedule_insert_thread t s1"
  have same: "k_thr ?s' = k_thr ?w" "k_q ?s' = k_q ?w" "k_group ?s' = k_group ?w" "k_cur ?s' = k_cur ?w"
    unfolding s1(4) by (simp_all add: rt_schedule_insert_thread_def Let_def)
  have sinv: "sched_inv ?s'"
    using wake_table_inv [OF K(1) st] sched_inv_tm_cong [OF same] by simp
  have thr: "k_thr ?s' = (k_thr s)(t := (k_thr s t)\<lparr>t_stat :=
       if k_cur s = Some t then RT_THREAD_RUNNING else RT_THREAD_READY\<rparr>)"
    unfolding insert_thr by (simp add: s1(4))
  have "timer_inv ?s'"
    using timer_invD [OF s1(2)] unfolding timer_inv_def s1(4) by (auto simp: insert_thr)
  moreover have "thr_inv ?s'"
    by (rule thr_inv_step [OF K(5)])
      (use st in \<open>auto simp: live_def insert_thr s1(4) split: if_splits\<close>)
  ultimately have kinv: "kernel_inv ?s'" using sinv K(6) by (auto simp: kernel_inv_def s1(4))
  have other: "k_q ?s' q = filter (\<lambda>x. x \<noteq> t) (k_q s q)" if "\<forall>p. q \<noteq> ReadyQ p" for q
    using that by (simp add: rt_schedule_insert_thread_def Let_def s1(4))
  show thesis
  proof (rule that [of ?s'])
    show "rt_thread_resume t s = Some (RT_EOK, ?s')" using T st s1(1) by (simp add: rt_thread_resume_def)
    show "objs_same s ?s'" by (simp add: objs_same_def s1(4))
  qed (use kinv thr other in \<open>simp_all add: s1(4)\<close>)
qed

lemma rt_thread_suspend_spec:
  assumes inv: "kernel_inv s" and st: "th_stat s t = RT_THREAD_READY \<or> th_stat s t = RT_THREAD_RUNNING"
  obtains s' where "rt_thread_suspend t s = Some (RT_EOK, s')" "kernel_inv s'" "objs_same s s'"
    "k_thr s' = (k_thr s)(t := (k_thr s t)\<lparr>t_stat := RT_THREAD_SUSPEND\<rparr>)"
    "unlinked t s'" "k_cur s' = k_cur s" "\<And>q. k_q s' q = filter (\<lambda>x. x \<noteq> t) (k_q s q)"
    "k_tlist s' = filter (\<lambda>x. x \<noteq> ThreadTimer t) (k_tlist s)"
    "k_tmr s' = (k_tmr s)(ThreadTimer t := (k_tmr s (ThreadTimer t))\<lparr>tm_activated := False\<rparr>)"
proof -
  note K = kernel_invD [OF inv]
  have lv: "live s t" using st by auto
  note T = thr_invD [OF K(5) lv]
  let ?s1 = "set_stat t RT_THREAD_SUSPEND (rt_schedule_remove_thread t s)"
  have tinv: "timer_inv ?s1" using timer_invD [OF K(4)] unfolding timer_inv_def by auto
  obtain r s' where s': "rt_timer_stop (ThreadTimer t) ?s1 = Some (r, s')" "timer_inv s'"
    "s' = ?s1\<lparr>k_tmr := (k_tmr s)(ThreadTimer t := (k_tmr s (ThreadTimer t))\<lparr>tm_activated := False\<rparr>),
                k_tlist := filter (\<lambda>x. x \<noteq> ThreadTimer t) (k_tlist s)\<rparr>"
    using rt_timer_stop_spec [OF tinv, of "ThreadTimer t"] T by auto
  have cur: "th_stat s t = RT_THREAD_RUNNING \<Longrightarrow> k_cur s = Some t" using K(3) by (simp add: current_inv_def)
  have "sched_inv s'"
    using suspend_sched_inv(1) [OF K(1) lv, of RT_THREAD_SUSPEND] sched_inv_tm_cong [of s' ?s1]
    by (simp add: s'(3))
  moreover have "thr_inv s'" using K(5) T unfolding thr_inv_def by (auto simp: live_def s'(3))
  ultimately have kinv: "kernel_inv s'" using s'(2) K(6) by (auto simp: kernel_inv_def s'(3))
  show thesis
  proof (rule that [of s'])
    show "rt_thread_suspend t s = Some (RT_EOK, s')"
      using T st s'(1) cur unfolding rt_thread_suspend_def by auto
    show "objs_same s s'" by (simp add: objs_same_def s'(3))
    show "unlinked t s'"
      using suspend_sched_inv(2) [OF K(1) lv, of RT_THREAD_SUSPEND] by (simp add: unlinked_def s'(3))
  qed (use kinv in \<open>simp_all add: s'(3)\<close>)
qed

text \<open>The callback of a thread timer: its assertion holds, and it leaves the timers alone.\<close>

lemma rt_thread_timeout_spec:
  assumes inv: "kernel_inv s" and st: "th_stat s t = RT_THREAD_SUSPEND"
    and off: "ThreadTimer t \<notin> set (k_tlist s)"
  obtains s' where "rt_thread_timeout t s = Some s'" "kernel_inv s'" "objs_same s s'"
    "k_tmr s' = k_tmr s" "k_tlist s' = k_tlist s" "t_error (k_thr s' t) = - RT_ETIMEOUT"
    "th_stat s' t = RT_THREAD_READY \<or> th_stat s' t = RT_THREAD_RUNNING"
    "k_lock s = 0 \<Longrightarrow> best_runs s'"
    "\<And>u. u \<noteq> t \<Longrightarrow> th_stat s u = RT_THREAD_SUSPEND \<longleftrightarrow> th_stat s' u = RT_THREAD_SUSPEND"
    "\<And>u. u \<noteq> t \<Longrightarrow> th_stat s u = RT_THREAD_READY \<or> th_stat s u = RT_THREAD_RUNNING \<Longrightarrow>
       th_stat s' u = RT_THREAD_READY \<or> th_stat s' u = RT_THREAD_RUNNING"
    "\<And>u. u \<noteq> t \<Longrightarrow> t_error (k_thr s' u) = t_error (k_thr s u)"
    "\<And>i. k_q s' (SuspQ i) = filter (\<lambda>x. x \<noteq> t) (k_q s (SuspQ i)) \<and>
       k_q s' (SenderQ i) = filter (\<lambda>x. x \<noteq> t) (k_q s (SenderQ i))"
proof -
  let ?s1 = "upd_thr t (\<lambda>h. h\<lparr>t_error := - RT_ETIMEOUT\<rparr>) s"
  let ?s2 = "rt_schedule_insert_thread t (tlist_remove t ?s1)"
  have "kernel_inv ?s1" using inv kernel_inv_core [of ?s1 s] by (simp add: thr_core_def)
  note K = kernel_invD [OF this]
  have st1: "th_stat ?s1 t = RT_THREAD_SUSPEND" using st by simp
  note T = thr_invD [OF K(5) live_simps(2) [OF st1]]
  have thr: "k_thr ?s2 = (k_thr ?s1)(t := (k_thr ?s1 t)\<lparr>t_stat :=
       if k_cur s = Some t then RT_THREAD_RUNNING else RT_THREAD_READY\<rparr>)"
    unfolding insert_thr by simp
  have "sched_inv ?s2" by (rule wake_table_inv [OF K(1) st1])
  moreover have "timer_inv ?s2" by (rule timer_inv_step [OF K(4)])
    (use off timer_invD(1) [OF K(4)] in \<open>auto simp: insert_thr split: if_splits\<close>)
  moreover have "thr_inv ?s2" by (rule thr_inv_step [OF K(5)])
    (use st in \<open>auto simp: live_def insert_thr split: if_splits\<close>)
  ultimately have k2: "kernel_inv ?s2" using K(6) by (auto simp: kernel_inv_def)
  obtain s' where s': "rt_schedule ?s2 = Some s'" "kernel_inv s'" "sched_only ?s2 s'"
    "k_lock ?s2 = 0 \<and> runnable ?s2 \<Longrightarrow> best_runs s'"
    using rt_schedule_kernel [OF k2] by blast
  have st2: "th_stat ?s2 t = RT_THREAD_READY \<or> th_stat ?s2 t = RT_THREAD_RUNNING"
    by (simp add: insert_thr)
  have "runnable ?s2" using st2 unfolding runnable_def by blast
  note O = sched_onlyD [OF s'(3)]
  show thesis
  proof (rule that [of s'])
    show "rt_thread_timeout t s = Some s'" using T st s'(1) by (simp add: rt_thread_timeout_def)
    show "objs_same s s'" using O(1) by (simp add: objs_same_def)
    show "t_error (k_thr s' t) = - RT_ETIMEOUT" using sched_only_fields(1) [OF s'(3), of t] by (simp add: insert_thr)
    show "th_stat s' t = RT_THREAD_READY \<or> th_stat s' t = RT_THREAD_RUNNING"
      using s'(3) st2 unfolding sched_only_def by (metis insertE singletonD)
    show "best_runs s'" if "k_lock s = 0" using s'(4) that \<open>runnable ?s2\<close> by simp
    show "th_stat s u = RT_THREAD_SUSPEND \<longleftrightarrow> th_stat s' u = RT_THREAD_SUSPEND" if "u \<noteq> t" for u
      using O(10) [of u] that by (simp add: insert_thr)
    show "th_stat s' u = RT_THREAD_READY \<or> th_stat s' u = RT_THREAD_RUNNING"
      if "u \<noteq> t" "th_stat s u = RT_THREAD_READY \<or> th_stat s u = RT_THREAD_RUNNING" for u
    proof -
      have "th_stat ?s2 u = th_stat s u" using that(1) by (simp add: insert_thr)
      then show ?thesis using that(2) s'(3) unfolding sched_only_def by (metis insertE singletonD)
    qed
    show "t_error (k_thr s' u) = t_error (k_thr s u)" if "u \<noteq> t" for u
      using sched_only_fields(1) [OF s'(3), of u] that by (simp add: insert_thr)
    show "k_q s' (SuspQ i) = filter (\<lambda>x. x \<noteq> t) (k_q s (SuspQ i)) \<and>
       k_q s' (SenderQ i) = filter (\<lambda>x. x \<noteq> t) (k_q s (SenderQ i))" for i
      using O(4) [of i] O(5) [of i] by (simp add: rt_schedule_insert_thread_def tlist_append_def Let_def)
  qed (use s'(2) O(2,3) in simp_all)
qed

lemma relabel_table_inv:
  assumes tab: "table_inv s" and ul: "unlinked t s" and nr: "t_stat (f (k_thr s t)) \<noteq> RT_THREAD_READY"
    and st: "t_stat (f (k_thr s t)) \<in> {RT_THREAD_SUSPEND, RT_THREAD_RUNNING} \<Longrightarrow> started (upd_thr t f s) t"
  shows "table_inv (upd_thr t f s)"
proof -
  note D = table_invD [OF tab]
  have nt: "t \<notin> set (k_q s y)" for y using ul by (simp add: unlinked_def)
  let ?s = "upd_thr t f s"
  show ?thesis
  proof (rule table_invI)
    fix y y' u p j
    show "distinct (k_q ?s y)" using D(1) by simp
    show "y = y'" if "u \<in> set (k_q ?s y)" "u \<in> set (k_q ?s y')" using that D(2) by simp
    show "th_stat ?s u = RT_THREAD_READY \<and> th_prio ?s u = p" if "u \<in> set (k_q ?s (ReadyQ p))"
      using that D(3,4) [of u p] nt by auto
    show "u \<in> set (k_q ?s (ReadyQ (th_prio ?s u)))" if "th_stat ?s u = RT_THREAD_READY"
      using that D(5) [of u] nr by (auto split: if_splits)
    show "bit (k_group ?s) p \<longleftrightarrow> k_q ?s (ReadyQ p) \<noteq> []" if "p < 32" using D(6) [OF that] by simp
    show "started ?s u" if "th_stat ?s u \<in> {RT_THREAD_READY, RT_THREAD_SUSPEND, RT_THREAD_RUNNING}"
      using that D(7,8,9) [of u] st nr by (cases "u = t") (auto simp: started_def)
    show "th_stat ?s u = RT_THREAD_SUSPEND" if "u \<in> set (k_q ?s (SuspQ j)) \<or> u \<in> set (k_q ?s (SenderQ j))"
      using that D(10,11) [of u j] nt by auto
    show "th_stat ?s u = RT_THREAD_CLOSE" if "u \<in> set (k_q ?s DefunctQ)"
      using that D(12) [of u] nt by auto
  qed
qed

lemma defunct_table_inv:
  assumes tab: "table_inv s" and ul: "unlinked t s" and st: "th_stat s t = RT_THREAD_CLOSE"
  shows "table_inv (tlist_push DefunctQ t s)"
proof -
  note D = table_invD [OF tab]
  have nt: "t \<notin> set (k_q s y)" for y using ul by (simp add: unlinked_def)
  let ?s = "tlist_push DefunctQ t s"
  show ?thesis
  proof (rule table_invI)
    fix y y' u p j
    show "distinct (k_q ?s y)" using D(1) nt by (simp add: insert_head_def)
    show "y = y'" if "u \<in> set (k_q ?s y)" "u \<in> set (k_q ?s y')"
      using that D(2) [of u y y'] nt by (auto split: if_splits)
    show "th_stat ?s u = RT_THREAD_READY \<and> th_prio ?s u = p" if "u \<in> set (k_q ?s (ReadyQ p))"
      using that D(3,4) [of u p] by simp
    show "u \<in> set (k_q ?s (ReadyQ (th_prio ?s u)))" if "th_stat ?s u = RT_THREAD_READY"
      using that D(5) [of u] by simp
    show "bit (k_group ?s) p \<longleftrightarrow> k_q ?s (ReadyQ p) \<noteq> []" if "p < 32" using D(6) [OF that] by simp
    show "started ?s u" if "th_stat ?s u \<in> {RT_THREAD_READY, RT_THREAD_SUSPEND, RT_THREAD_RUNNING}"
      using that D(7,8,9) [of u] by (auto simp: started_def)
    show "th_stat ?s u = RT_THREAD_SUSPEND" if "u \<in> set (k_q ?s (SuspQ j)) \<or> u \<in> set (k_q ?s (SenderQ j))"
      using that D(10,11) [of u j] by auto
    show "th_stat ?s u = RT_THREAD_CLOSE" if "u \<in> set (k_q ?s DefunctQ)"
      using that D(12) [of u] st by auto
  qed
qed

text \<open>
  Closing a thread, from any state but CLOSE: it leaves every list and the timer list, and is
  then parked in the defunct list or taken out of the container.
\<close>

lemma thread_close_spec:
  assumes inv: "kernel_inv s" and st: "th_stat s t \<noteq> RT_THREAD_CLOSE"
    and init: "th_stat s t = RT_THREAD_INIT \<Longrightarrow>
      tm_attached (k_tmr s (ThreadTimer t)) \<and> tm_static (k_tmr s (ThreadTimer t))"
  obtains s' where "thread_close t s = Some s'" "kernel_inv s'" "objs_same s s'" "unlinked t s'"
    "k_thr s' = (k_thr s)(t := (k_thr s t)\<lparr>t_stat := RT_THREAD_CLOSE\<rparr>)" "k_cur s' = k_cur s"
    "ThreadTimer t \<notin> set (k_tlist s')" "\<And>q. k_q s' q = filter (\<lambda>x. x \<noteq> t) (k_q s q)"
proof -
  note K = kernel_invD [OF inv]
  have lv: "live s t" if "th_stat s t \<noteq> RT_THREAD_INIT"
    using that st by (cases "th_stat s t") auto
  have T: "tm_attached (k_tmr s (ThreadTimer t))" "tm_static (k_tmr s (ThreadTimer t))"
    using init thr_invD [OF K(5) lv] by blast+
  let ?s1 = "if th_stat s t \<noteq> RT_THREAD_INIT then rt_schedule_remove_thread t s else s"
  let ?s2 = "upd_tmr (ThreadTimer t) (\<lambda>m. m\<lparr>tm_attached := False\<rparr>) (timer_unlink (ThreadTimer t) ?s1)"
  let ?s' = "set_stat t RT_THREAD_CLOSE ?s2"
  have run: "thread_close t s = Some ?s'" using T by (auto simp: thread_close_def rt_timer_detach_def Let_def)
  have sch: "sched_inv ?s' \<and> unlinked t ?s' \<and> (\<forall>q. k_q ?s' q = filter (\<lambda>x. x \<noteq> t) (k_q s q))"
  proof (cases "th_stat s t = RT_THREAD_INIT")
    case True
    have ul: "unlinked t s" using running_unlinked [OF K(2)] True by simp
    have "table_inv (set_stat t RT_THREAD_CLOSE s)"
      by (rule relabel_table_inv [OF K(2) ul]) simp_all
    then have "table_inv ?s'" using True table_inv_cong [of ?s' "set_stat t RT_THREAD_CLOSE s"] by simp
    moreover have "current_inv ?s'" using K(3) True by (auto simp: current_inv_def)
    moreover have "filter (\<lambda>x. x \<noteq> t) (k_q s q) = k_q s q" for q
      using ul by (intro filter_neq_idle) (simp add: unlinked_def)
    ultimately show ?thesis using ul True by (simp add: sched_inv_def unlinked_def)
  next
    case False
    let ?r = "set_stat t RT_THREAD_CLOSE (rt_schedule_remove_thread t s)"
    have "sched_inv ?r" "unlinked t ?r"
      using suspend_sched_inv [OF K(1) lv [OF False], of RT_THREAD_CLOSE] by simp_all
    then show ?thesis using False sched_inv_tm_cong [of ?s' ?r] by (simp add: unlinked_def)
  qed
  have "timer_inv ?s'"
    by (rule timer_inv_step [OF K(4)]) (use timer_invD(1) [OF K(4)] in auto)
  moreover have "thr_inv ?s'"
    by (rule thr_inv_step [OF K(5)]) (use st in \<open>auto simp: live_def split: if_splits\<close>)
  ultimately show thesis using sch K(6)
    by (intro that [OF run]) (auto simp: kernel_inv_def objs_same_def)
qed

lemma park_kernel_inv:
  assumes inv: "kernel_inv s" and ul: "unlinked t s" and st: "th_stat s t = RT_THREAD_CLOSE"
  shows "kernel_inv (if b then upd_thr t (\<lambda>h. h\<lparr>t_attached := False\<rparr>) s else tlist_push DefunctQ t s)"
proof (cases b)
  case True
  let ?s = "upd_thr t (\<lambda>h. h\<lparr>t_attached := False\<rparr>) s"
  note K = kernel_invD [OF inv]
  have "table_inv ?s" by (rule relabel_table_inv [OF K(2) ul]) (simp_all add: st)
  moreover have "current_inv ?s" using K(3) by (auto simp: current_inv_def)
  moreover have "timer_inv ?s" by (rule timer_inv_step [OF K(4)]) (use timer_invD(1) [OF K(4)] in auto)
  moreover have "thr_inv ?s"
    by (rule thr_inv_step [OF K(5)]) (use st in \<open>auto simp: live_def split: if_splits\<close>)
  ultimately show ?thesis using True K(6) by (auto simp: kernel_inv_def sched_inv_def)
next
  case False
  let ?s = "tlist_push DefunctQ t s"
  note K = kernel_invD [OF inv]
  have "table_inv ?s" by (rule defunct_table_inv [OF K(2) ul st])
  moreover have "current_inv ?s" using K(3) by (auto simp: current_inv_def)
  moreover have "timer_inv ?s" using K(4) timer_inv_cong [of ?s s] by simp
  moreover have "thr_inv ?s" using K(5) by (simp add: thr_inv_def live_def)
  ultimately show ?thesis using False K(6) by (auto simp: kernel_inv_def sched_inv_def)
qed

lemma detach_set_stat:
  "rt_timer_detach m (set_stat t x s) = map_option (set_stat t x) (rt_timer_detach m s)"
  by (cases s) (simp add: rt_timer_detach_def upd_thr_def upd_tmr_def timer_unlink_def)

lemma rt_thread_exit_spec:
  assumes inv: "kernel_inv s" and cur: "k_cur s = Some t" and run: "th_stat s t = RT_THREAD_RUNNING"
  obtains s' where "rt_thread_exit s = Some s'" "kernel_inv s'" "objs_same s s'"
    "th_stat s' t = RT_THREAD_CLOSE" "\<And>p. t \<notin> set (k_q s' (ReadyQ p))"
    "t \<in> set (k_q s' DefunctQ) \<longleftrightarrow> t_cleanup (k_thr s t) \<or> \<not> t_static (k_thr s t)"
    "k_lock s = 0 \<Longrightarrow> (\<exists>u. th_stat s u = RT_THREAD_READY) \<Longrightarrow> best_runs s'"
proof -
  note K = kernel_invD [OF inv]
  obtain s1 where s1: "thread_close t s = Some s1" "kernel_inv s1" "objs_same s s1" "unlinked t s1"
    "k_thr s1 = (k_thr s)(t := (k_thr s t)\<lparr>t_stat := RT_THREAD_CLOSE\<rparr>)"
    using thread_close_spec [OF inv, of t] run by auto
  have st1: "th_stat s1 t = RT_THREAD_CLOSE" by (simp add: s1(5))
  let ?b = "t_static (k_thr s1 t) \<and> \<not> t_cleanup (k_thr s1 t)"
  let ?s2 = "if ?b then upd_thr t (\<lambda>h. h\<lparr>t_attached := False\<rparr>) s1 else tlist_push DefunctQ t s1"
  have exit: "rt_thread_exit s = rt_schedule ?s2"
    using s1(1) cur run
    by (cases "rt_timer_detach (ThreadTimer t) (rt_schedule_remove_thread t s)")
      (simp_all add: rt_thread_exit_def thread_close_def Let_def detach_set_stat del: upd_thr_sel)
  have k2: "kernel_inv ?s2" by (rule park_kernel_inv [OF s1(2,4) st1])
  have st2: "th_stat ?s2 u = th_stat s1 u" for u by simp
  have obj2: "objs_same s ?s2" using s1(3) by (simp add: objs_same_def)
  have q2: "k_q ?s2 DefunctQ = (if ?b then k_q s1 DefunctQ else t # k_q s1 DefunctQ)"
    by (simp add: insert_head_def)
  obtain s' where s': "rt_schedule ?s2 = Some s'" "kernel_inv s'" "sched_only ?s2 s'"
    "k_lock ?s2 = 0 \<and> runnable ?s2 \<Longrightarrow> best_runs s'"
    using rt_schedule_kernel [OF k2] by blast
  note O = sched_onlyD [OF s'(3)]
  have st': "th_stat s' t = RT_THREAD_CLOSE" using O(8) [of t] st1 st2 [of t] by simp
  have nd: "t \<notin> set (k_q s1 DefunctQ)" using s1(4) by (simp add: unlinked_def)
  have b: "?b \<longleftrightarrow> t_static (k_thr s t) \<and> \<not> t_cleanup (k_thr s t)" by (simp add: s1(5))
  show thesis
  proof (rule that [of s'])
    show "rt_thread_exit s = Some s'" "kernel_inv s'" "th_stat s' t = RT_THREAD_CLOSE"
      using exit s' st' by simp_all
    show "objs_same s s'" by (rule objs_same_trans [OF obj2 O(1)])
    show "t \<notin> set (k_q s' (ReadyQ p))" for p
      using table_invD(3) [OF kernel_invD(2) [OF s'(2)], of t p] st' by auto
    show "t \<in> set (k_q s' DefunctQ) \<longleftrightarrow> t_cleanup (k_thr s t) \<or> \<not> t_static (k_thr s t)"
      using nd O(6) q2 b by auto
    show "best_runs s'" if "k_lock s = 0" and ex: "\<exists>u. th_stat s u = RT_THREAD_READY"
    proof (rule s'(4))
      obtain u where u: "th_stat s u = RT_THREAD_READY" using ex by blast
      then have "th_stat ?s2 u = RT_THREAD_READY" using run st2 [of u] by (auto simp: s1(5))
      then have "runnable ?s2" unfolding runnable_def by blast
      then show "k_lock ?s2 = 0 \<and> runnable ?s2" using that(1) obj2 by (simp only: objs_same_def simp_thms)
    qed
  qed
qed

lemma rt_thread_detach_spec:
  assumes inv: "kernel_inv s" and st: "th_stat s t \<noteq> RT_THREAD_CLOSE"
    and att: "t_attached (k_thr s t)" "t_static (k_thr s t)"
    and init: "th_stat s t = RT_THREAD_INIT \<Longrightarrow>
      tm_attached (k_tmr s (ThreadTimer t)) \<and> tm_static (k_tmr s (ThreadTimer t))"
  shows "\<exists>s'. rt_thread_detach t s = Some (RT_EOK, s') \<and> kernel_inv s' \<and> objs_same s s' \<and>
    th_stat s' t = RT_THREAD_CLOSE \<and> (\<forall>q. q \<noteq> DefunctQ \<longrightarrow> t \<notin> set (k_q s' q))"
proof -
  obtain s1 where s1: "thread_close t s = Some s1" "kernel_inv s1" "objs_same s s1" "unlinked t s1"
    "k_thr s1 = (k_thr s)(t := (k_thr s t)\<lparr>t_stat := RT_THREAD_CLOSE\<rparr>)"
    using thread_close_spec [OF inv st init] by metis
  have st1: "th_stat s1 t = RT_THREAD_CLOSE" by (simp add: s1(5))
  note P = park_kernel_inv [OF s1(2,4) st1, of "t_static (k_thr s1 t) \<and> \<not> t_cleanup (k_thr s1 t)"]
  show ?thesis
    using P s1(1,3,4) st1 att unfolding rt_thread_detach_def
    by (auto simp: Let_def objs_same_def unlinked_def)
qed

lemma rt_thread_delete_spec:
  assumes inv: "kernel_inv s" and st: "th_stat s t \<noteq> RT_THREAD_CLOSE"
    and att: "t_attached (k_thr s t)" "\<not> t_static (k_thr s t)"
    and init: "th_stat s t = RT_THREAD_INIT \<Longrightarrow>
      tm_attached (k_tmr s (ThreadTimer t)) \<and> tm_static (k_tmr s (ThreadTimer t))"
  shows "\<exists>s'. rt_thread_delete t s = Some (RT_EOK, s') \<and> kernel_inv s' \<and> objs_same s s' \<and>
    th_stat s' t = RT_THREAD_CLOSE \<and> (\<forall>q. t \<in> set (k_q s' q) \<longleftrightarrow> q = DefunctQ)"
proof -
  obtain s1 where s1: "thread_close t s = Some s1" "kernel_inv s1" "objs_same s s1" "unlinked t s1"
    "k_thr s1 = (k_thr s)(t := (k_thr s t)\<lparr>t_stat := RT_THREAD_CLOSE\<rparr>)"
    using thread_close_spec [OF inv st init] by metis
  have st1: "th_stat s1 t = RT_THREAD_CLOSE" by (simp add: s1(5))
  note P = park_kernel_inv [OF s1(2,4) st1, of False]
  show ?thesis
    using P s1(1,3,4) st1 att unfolding rt_thread_delete_def
    by (auto simp: objs_same_def unlinked_def)
qed

text \<open>
  Starting an initialised thread makes it ready, and the scheduler runs it at once if it has
  the best priority.
\<close>

lemma rt_thread_startup_spec:
  assumes inv: "kernel_inv s" and st: "th_stat s t = RT_THREAD_INIT"
    and att: "t_attached (k_thr s t)" "tm_attached (k_tmr s (ThreadTimer t))"
      "tm_static (k_tmr s (ThreadTimer t))"
    and prio: "t_init_priority (k_thr s t) < RT_THREAD_PRIORITY_MAX"
  shows "\<exists>s'. rt_thread_startup t s = Some (RT_EOK, s') \<and> kernel_inv s' \<and> objs_same s s' \<and>
    (th_stat s' t = RT_THREAD_READY \<or> th_stat s' t = RT_THREAD_RUNNING) \<and>
    th_prio s' t = t_init_priority (k_thr s t) \<and> (k_lock s = 0 \<longrightarrow> best_runs s')"
proof -
  note K = kernel_invD [OF inv]
  let ?s1 = "upd_thr t (\<lambda>h. h\<lparr>t_current_priority := t_init_priority h,
      t_number_mask := push_bit (t_init_priority h) 1, t_stat := RT_THREAD_SUSPEND\<rparr>) s"
  have ul: "unlinked t s" using running_unlinked [OF K(2)] st by simp
  have "table_inv ?s1" by (rule relabel_table_inv [OF K(2) ul]) (use prio in \<open>simp_all add: started_def\<close>)
  moreover have "current_inv ?s1" using K(3) by (auto simp: current_inv_def)
  moreover have "timer_inv ?s1"
    by (rule timer_inv_step [OF K(4)])
      (use st timer_invD(1,4) [OF K(4)] in \<open>auto split: if_splits\<close>)
  moreover have "thr_inv ?s1" using K(5) att unfolding thr_inv_def live_def by auto
  ultimately have k1: "kernel_inv ?s1" using K(6) by (auto simp: kernel_inv_def sched_inv_def)
  have st1: "th_stat ?s1 t = RT_THREAD_SUSPEND" by simp
  obtain s2 where s2: "rt_thread_resume t ?s1 = Some (RT_EOK, s2)" "kernel_inv s2" "objs_same ?s1 s2"
    "k_thr s2 = (k_thr ?s1)(t := (k_thr ?s1 t)\<lparr>t_stat :=
       if k_cur ?s1 = Some t then RT_THREAD_RUNNING else RT_THREAD_READY\<rparr>)"
    by (rule rt_thread_resume_spec [OF k1 st1]) (rule that, assumption+)
  obtain s' where s': "rt_schedule s2 = Some s'" "kernel_inv s'" "sched_only s2 s'"
    "k_lock s2 = 0 \<and> runnable s2 \<Longrightarrow> best_runs s'"
    using rt_schedule_kernel [OF s2(2)] by blast
  have st2: "th_stat s2 t = RT_THREAD_READY \<or> th_stat s2 t = RT_THREAD_RUNNING" by (simp add: s2(4))
  then have "th_stat s' t = RT_THREAD_READY \<or> th_stat s' t = RT_THREAD_RUNNING"
    using s'(3) unfolding sched_only_def by (metis insertE singletonD)
  moreover have "rt_thread_startup t s = Some (RT_EOK, s')"
  proof -
    have "k_cur s2 \<noteq> None" using kernel_invD(6) [OF s2(2)] by blast
    then show ?thesis using st att s2(1) s'(1) by (simp add: rt_thread_startup_def Let_def del: upd_thr_sel)
  qed
  moreover have "objs_same s s'"
    using objs_same_trans [OF s2(3) sched_onlyD(1) [OF s'(3)]] by (simp add: objs_same_def)
  moreover have "th_prio s' t = t_init_priority (k_thr s t)"
    using sched_only_fields(2) [OF s'(3), of t] by (simp add: s2(4))
  moreover have "best_runs s'" if "k_lock s = 0"
    using s'(4) that st2 s2(3) by (auto simp: runnable_def objs_same_def)
  ultimately show ?thesis using s'(2) by blast
qed

text \<open>Arming a thread's timer while it is suspended.\<close>

lemma set_time_eq:
  "tm_attached (k_tmr s m) \<Longrightarrow> rt_timer_control m (RT_TIMER_CTRL_SET_TIME x) s =
     Some ((RT_EOK, None), upd_tmr m (\<lambda>t. t\<lparr>tm_init_tick := x\<rparr>) s)"
  by (simp add: rt_timer_control_def)

lemma arm_kernel_inv:
  assumes inv: "kernel_inv s" and st: "th_stat s t = RT_THREAD_SUSPEND" and tick: "tick < RT_TICK_HALF"
    and srt: "timers_sorted (k_tick s) s"
  obtains s' where
    "rt_timer_start (ThreadTimer t) (upd_tmr (ThreadTimer t) (\<lambda>m. m\<lparr>tm_init_tick := tick\<rparr>) s) = Some s'"
    "kernel_inv s'" "timers_sorted (k_tick s') s'" "ThreadTimer t \<in> set (k_tlist s')"
    "tm_timeout_tick (k_tmr s' (ThreadTimer t)) = k_tick s + tick"
    "\<And>x. x \<noteq> ThreadTimer t \<Longrightarrow> k_tmr s' x = k_tmr s x"
    "s' = s\<lparr>k_tmr := k_tmr s', k_tlist := k_tlist s'\<rparr>"
proof -
  let ?m = "ThreadTimer t"
  let ?s1 = "upd_tmr ?m (\<lambda>m. m\<lparr>tm_init_tick := tick\<rparr>) s"
  note K = kernel_invD [OF inv]
  note T = thr_invD [OF K(5) live_simps(2) [OF st]]
  have ti1: "timer_inv ?s1" using timer_invD [OF K(4)] unfolding timer_inv_def by auto
  have srt1: "timers_sorted (k_tick s) ?s1"
  proof -
    have "tdist (k_tick s) (k_tmr ?s1) = tdist (k_tick s) (k_tmr s)" by (simp add: tdist_def fun_eq_iff)
    then show ?thesis using srt unfolding timers_sorted_def by simp
  qed
  obtain s' where s': "rt_timer_start ?m ?s1 = Some s'" "timers_sorted (k_tick s) s'"
    "tm_timeout_tick (k_tmr s' ?m) = k_tick ?s1 + tm_init_tick (k_tmr ?s1 ?m)"
    "\<And>x. x \<noteq> ?m \<Longrightarrow> k_tmr s' x = k_tmr ?s1 x"
    "s' = ?s1\<lparr>k_tmr := k_tmr s', k_tlist := k_tlist s'\<rparr>"
    "k_tmr s' ?m = (k_tmr ?s1 ?m)\<lparr>tm_timeout_tick := k_tick ?s1 + tm_init_tick (k_tmr ?s1 ?m), tm_activated := True\<rparr>"
    "k_tlist s' = filter (\<lambda>x. tdist (k_tick s) (k_tmr s') x \<le> tdist (k_tick s) (k_tmr s') ?m)
           (filter (\<lambda>x. x \<noteq> ?m) (k_tlist ?s1)) @ ?m #
         filter (\<lambda>x. tdist (k_tick s) (k_tmr s') ?m < tdist (k_tick s) (k_tmr s') x)
           (filter (\<lambda>x. x \<noteq> ?m) (k_tlist ?s1))"
  proof (rule rt_timer_start_spec [OF srt1, of ?m])
    show "tm_attached (k_tmr ?s1 ?m)" "tm_init_tick (k_tmr ?s1 ?m) < RT_TICK_HALF" using T tick by simp_all
    show "unat (k_tick ?s1 + tm_init_tick (k_tmr ?s1 ?m) - k_tick s) < unat RT_TICK_HALF"
      using tick by (simp add: word_less_nat_alt)
  qed (rule that, assumption+)
  have eq: "s' = s\<lparr>k_tmr := k_tmr s', k_tlist := k_tlist s'\<rparr>"
    by (subst s'(5)) (simp add: upd_tmr_def)
  have sel: "k_thr s' = k_thr s" "k_q s' = k_q s" "k_group s' = k_group s" "k_cur s' = k_cur s"
    "k_tick s' = k_tick s"
    by (subst eq, simp)+
  have "timer_inv s'" by (rule rt_timer_start_inv [OF ti1 s'(1)]) (simp add: st)
  moreover have "sched_inv s'" using K(1) sched_inv_tm_cong [OF sel(1-4)] by simp
  moreover have "thr_inv s'"
  proof (rule thr_inv_step [OF K(5)])
    fix u
    show "live s u" if "live s' u" using that by (simp add: live_def sel)
    show "t_attached (k_thr s' u) = t_attached (k_thr s u)" by (simp add: sel)
    show "tm_attached (k_tmr s' (ThreadTimer u)) = tm_attached (k_tmr s (ThreadTimer u))"
      "tm_static (k_tmr s' (ThreadTimer u)) = tm_static (k_tmr s (ThreadTimer u))"
      by (cases "u = t"; simp add: s'(4,6))+
  qed
  ultimately have "kernel_inv s'" using K(6) by (auto simp: kernel_inv_def sel)
  then show thesis
    by (intro that [of s', OF s'(1)]) (use s'(2,3,4) eq in \<open>simp_all add: sel s'(7)\<close>)
qed

text \<open>Sleeping: the caller is suspended with its timer armed, and the best ready thread runs.\<close>

lemma rt_thread_sleep_spec:
  assumes inv: "kernel_inv s" and cur: "k_cur s = Some t" and run: "th_stat s t = RT_THREAD_RUNNING"
    and tick: "tick < RT_TICK_HALF" and srt: "timers_sorted (k_tick s) s"
  obtains s' where "rt_thread_sleep tick s = Some s'" "kernel_inv s'" "objs_same s s'"
    "timers_sorted (k_tick s') s'" "th_stat s' t = RT_THREAD_SUSPEND"
    "ThreadTimer t \<in> set (k_tlist s')" "tm_timeout_tick (k_tmr s' (ThreadTimer t)) = k_tick s + tick"
    "k_lock s = 0 \<Longrightarrow> (\<exists>u. th_stat s u = RT_THREAD_READY) \<Longrightarrow> best_runs s'"
proof -
  let ?m = "ThreadTimer t"
  note K = kernel_invD [OF inv]
  note T = thr_invD [OF K(5) live_simps(3) [OF run]]
  obtain s1 where s1: "rt_thread_suspend t s = Some (RT_EOK, s1)" "kernel_inv s1" "objs_same s s1"
    "k_thr s1 = (k_thr s)(t := (k_thr s t)\<lparr>t_stat := RT_THREAD_SUSPEND\<rparr>)"
    "k_tlist s1 = filter (\<lambda>x. x \<noteq> ?m) (k_tlist s)"
    "k_tmr s1 = (k_tmr s)(?m := (k_tmr s ?m)\<lparr>tm_activated := False\<rparr>)"
    by (rule rt_thread_suspend_spec [OF inv disjI2 [OF run]]) (rule that, assumption+)
  have tick1: "k_tick s1 = k_tick s" "k_lock s1 = k_lock s" using s1(3) by (simp_all add: objs_same_def)
  have st1: "th_stat s1 t = RT_THREAD_SUSPEND" by (simp add: s1(4))
  have srt1: "timers_sorted (k_tick s1) s1"
    unfolding tick1 by (rule timers_sorted_filter [OF srt s1(5)]) (simp add: s1(6))
  obtain s2 where s2:
    "rt_timer_start ?m (upd_tmr ?m (\<lambda>m. m\<lparr>tm_init_tick := tick\<rparr>) s1) = Some s2"
    "kernel_inv s2" "timers_sorted (k_tick s2) s2" "?m \<in> set (k_tlist s2)"
    "tm_timeout_tick (k_tmr s2 ?m) = k_tick s1 + tick"
    "\<And>x. x \<noteq> ?m \<Longrightarrow> k_tmr s2 x = k_tmr s1 x"
    "s2 = s1\<lparr>k_tmr := k_tmr s2, k_tlist := k_tlist s2\<rparr>"
    by (rule arm_kernel_inv [OF s1(2) st1 tick srt1]) (rule that, assumption+)
  have sel: "k_thr s2 = k_thr s1" "objs_same s1 s2" by (subst s2(7), simp add: objs_same_def)+
  obtain s' where s': "rt_schedule s2 = Some s'" "kernel_inv s'" "sched_only s2 s'"
    "k_lock s2 = 0 \<and> runnable s2 \<Longrightarrow> best_runs s'"
    using rt_schedule_kernel [OF s2(2)] by blast
  note O = sched_onlyD [OF s'(3)]
  have att1: "tm_attached (k_tmr s1 ?m)" using T(2) by (simp add: s1(6))
  show thesis
  proof (rule that [of s'])
    show "rt_thread_sleep tick s = Some s'"
      using cur T(1) s1(1) s2(1) s'(1) by (simp add: rt_thread_sleep_def set_time_eq [OF att1])
    show "objs_same s s'" using objs_same_trans [OF objs_same_trans [OF s1(3) sel(2)] O(1)] .
    have "k_tick s' = k_tick s2" using O(1) by (simp add: objs_same_def)
    then show "timers_sorted (k_tick s') s'" using s2(3) timers_sorted_cong [OF O(3,2)] by simp
    show "th_stat s' t = RT_THREAD_SUSPEND" using O(10) [of t] st1 by (simp add: sel)
    show "best_runs s'" if "k_lock s = 0" "\<exists>u. th_stat s u = RT_THREAD_READY"
    proof (rule s'(4))
      from that(2) obtain u where "th_stat s u = RT_THREAD_READY" ..
      then have "th_stat s2 u = RT_THREAD_READY" using run by (auto simp: sel s1(4))
      then show "k_lock s2 = 0 \<and> runnable s2"
        using that(1) sel(2) tick1 unfolding runnable_def objs_same_def by auto
    qed
  qed (use s'(2) s2(4,5) O(2,3) tick1 in simp_all)
qed

text \<open>A tick count of half the range or more runs into the assertion of the timer.\<close>

lemma rt_thread_sleep_too_long:
  assumes "RT_TICK_HALF \<le> tick"
  shows "rt_thread_sleep tick s = None"
proof -
  have "(rt_timer_control (ThreadTimer t) (RT_TIMER_CTRL_SET_TIME tick) s1 \<bind>
      (\<lambda>(_, s2). rt_timer_start (ThreadTimer t) s2 \<bind> rt_schedule)) = None" for t s1
    using assms by (cases "tm_attached (k_tmr s1 (ThreadTimer t))")
      (simp_all add: rt_timer_control_def rt_timer_start_def Let_def leD)
  then have "(x \<bind> (\<lambda>(_, s1). rt_timer_control (ThreadTimer t) (RT_TIMER_CTRL_SET_TIME tick) s1 \<bind>
      (\<lambda>(_, s2). rt_timer_start (ThreadTimer t) s2 \<bind> rt_schedule))) = None" for x :: "(int \<times> kstate) option" and t
    by (cases x) auto
  then show ?thesis by (cases "k_cur s") (simp_all add: rt_thread_sleep_def)
qed

section \<open>Changing a priority\<close>

lemma set_priority_sel [simp]:
  "t_stat (set_priority p h) = t_stat h" "t_attached (set_priority p h) = t_attached h"
  "t_current_priority (set_priority p h) = p" "t_number_mask (set_priority p h) = push_bit p 1"
  "t_error (set_priority p h) = t_error h" "t_init_priority (set_priority p h) = t_init_priority h"
  by (simp_all add: set_priority_def)

lemma insert_after_stat:
  "rt_schedule_insert_thread t (upd_thr t (set_priority p) (set_stat t x s)) =
     rt_schedule_insert_thread t (upd_thr t (set_priority p) s)"
  by (cases s) (simp add: rt_schedule_insert_thread_def Let_def upd_thr_def set_priority_def
      tlist_append_def fun_eq_iff)

lemma change_priority_spec:
  assumes inv: "kernel_inv s" and att: "t_attached (k_thr s t)" and p: "p < RT_THREAD_PRIORITY_MAX"
  obtains s' where "rt_thread_control t (RT_THREAD_CTRL_CHANGE_PRIORITY p) s = Some (RT_EOK, s')"
    "kernel_inv s'" "objs_same s s'" "k_thr s' = (k_thr s)(t := set_priority p (k_thr s t))"
    "k_cur s' = k_cur s" "k_tmr s' = k_tmr s" "k_tlist s' = k_tlist s"
    "\<And>q. \<forall>p. q \<noteq> ReadyQ p \<Longrightarrow> k_q s' q = k_q s q"
proof (cases "th_stat s t = RT_THREAD_READY")
  case True
  note K = kernel_invD [OF inv]
  let ?s0 = "set_stat t RT_THREAD_SUSPEND (rt_schedule_remove_thread t s)"
  let ?s1 = "upd_thr t (set_priority p) ?s0"
  let ?s' = "rt_schedule_insert_thread t ?s1"
  have cur: "k_cur s \<noteq> Some t" using True K(3) by (auto simp: current_inv_def)
  have s0: "sched_inv ?s0" "unlinked t ?s0"
    using suspend_sched_inv [OF K(1) live_simps(1) [OF True], of RT_THREAD_SUSPEND] by simp_all
  then have t0: "table_inv ?s0" by (simp add: sched_inv_def)
  have "table_inv ?s1"
    by (rule relabel_table_inv [OF t0 s0(2)]) (use p in \<open>simp_all add: started_def\<close>)
  then have "table_inv ?s'"
    using s0(2) cur p by (intro insert_table_inv) (simp_all add: started_def unlinked_def)
  moreover have thr: "k_thr ?s' = (k_thr s)(t := set_priority p (k_thr s t))"
    using cur True by (simp add: fun_eq_iff set_priority_def)
  moreover have "current_inv ?s'" using K(3) unfolding current_inv_def thr by auto
  moreover have "timer_inv ?s'"
    by (rule timer_inv_step [OF K(4)]) (use timer_invD(1) [OF K(4)] in \<open>auto simp: thr simp del: insert_stat\<close>)
  moreover have "thr_inv ?s'"
    by (rule thr_inv_step [OF K(5)]) (auto simp: thr live_def simp del: insert_stat split: if_splits)
  ultimately have kinv: "kernel_inv ?s'" using K(6) by (auto simp: kernel_inv_def sched_inv_def)
  have q: "k_q ?s' y = k_q s y" if "\<forall>p. y \<noteq> ReadyQ p" for y
  proof -
    have "t \<notin> set (k_q s y)" using that True table_invD(10,11,12) [OF K(2), of t] by (cases y) auto
    then have "filter (\<lambda>x. x \<noteq> t) (k_q s y) = k_q s y" by (rule filter_neq_idle)
    then show ?thesis using cur that by (simp add: rt_schedule_insert_thread_def Let_def)
  qed
  show thesis
  proof (rule that [of ?s'])
    show "rt_thread_control t (RT_THREAD_CTRL_CHANGE_PRIORITY p) s = Some (RT_EOK, ?s')"
      using att p True by (simp add: rt_thread_control_def insert_after_stat)
  qed (use kinv thr q in \<open>simp_all add: objs_same_def del: insert_stat\<close>)
next
  case False
  note K = kernel_invD [OF inv]
  let ?s' = "upd_thr t (set_priority p) s"
  note D = table_invD [OF K(2)]
  have "table_inv ?s'"
  proof (rule table_invI)
    fix y y' u r j
    show "distinct (k_q ?s' y)" using D(1) by simp
    show "y = y'" if "u \<in> set (k_q ?s' y)" "u \<in> set (k_q ?s' y')" using that D(2) by simp
    show "th_stat ?s' u = RT_THREAD_READY \<and> th_prio ?s' u = r" if "u \<in> set (k_q ?s' (ReadyQ r))"
      using that D(3,4) [of u r] False by auto
    show "u \<in> set (k_q ?s' (ReadyQ (th_prio ?s' u)))" if "th_stat ?s' u = RT_THREAD_READY"
      using that D(5) [of u] False by (auto split: if_splits)
    show "bit (k_group ?s') r \<longleftrightarrow> k_q ?s' (ReadyQ r) \<noteq> []" if "r < 32" using D(6) [OF that] by simp
    show "started ?s' u" if "th_stat ?s' u \<in> {RT_THREAD_READY, RT_THREAD_SUSPEND, RT_THREAD_RUNNING}"
      using that D(7,8,9) [of u] p by (auto simp: started_def split: if_splits)
    show "th_stat ?s' u = RT_THREAD_SUSPEND" if "u \<in> set (k_q ?s' (SuspQ j)) \<or> u \<in> set (k_q ?s' (SenderQ j))"
      using that D(10,11) [of u j] by auto
    show "th_stat ?s' u = RT_THREAD_CLOSE" if "u \<in> set (k_q ?s' DefunctQ)"
      using that D(12) [of u] by auto
  qed
  moreover have "current_inv ?s'" using K(3) by (auto simp: current_inv_def)
  moreover have "timer_inv ?s'"
    by (rule timer_inv_step [OF K(4)]) (use timer_invD(1) [OF K(4)] in auto)
  moreover have "thr_inv ?s'"
    by (rule thr_inv_step [OF K(5)]) (auto simp: live_def split: if_splits)
  ultimately have "kernel_inv ?s'" using K(6) by (auto simp: kernel_inv_def sched_inv_def)
  with att p False show thesis
    by (intro that [of ?s']) (simp_all add: rt_thread_control_def objs_same_def)
qed

end
