(* ===== verification/Clock.thy ===== *)
theory Clock
  imports Thread
begin

text \<open>
  The timer check of src/timer.c and the tick of src/clock.c. Callbacks of the application's
  timers are a parameter \<open>usr\<close>; a thread's timer calls \<open>rt_thread_timeout\<close>. The loop runs until
  the list has no expired timer at its head, so it is a partial function: \<open>None\<close> is a failed
  assertion in a callback or a loop that never ends.
\<close>

section \<open>Operations\<close>

definition call_timeout :: "(nat \<Rightarrow> kstate \<Rightarrow> kstate option) \<Rightarrow> timeout_fn \<Rightarrow> kstate \<Rightarrow> kstate option" where
  "call_timeout usr f s = (case f of Thread_Timeout t \<Rightarrow> rt_thread_timeout t s | User_Timeout n \<Rightarrow> usr n s)"

text \<open>One round of the loop for the expired timer \<open>m\<close>.\<close>

definition timer_fire :: "(timeout_fn \<Rightarrow> kstate \<Rightarrow> kstate option) \<Rightarrow> tmid \<Rightarrow> kstate \<Rightarrow> kstate option" where
  "timer_fire call m s =
     do { let s1 = timer_unlink m s;
          s2 \<leftarrow> call (tm_timeout_func (k_tmr s1 m)) s1;
          let s3 = upd_tmr m (\<lambda>t. t\<lparr>tm_activated := False\<rparr>) s2;
          (if tm_periodic (k_tmr s2 m) \<and> tm_activated (k_tmr s2 m)
           then rt_timer_start m s3 else Some s3) }"

partial_function (option) timer_check_loop ::
    "(timeout_fn \<Rightarrow> kstate \<Rightarrow> kstate option) \<Rightarrow> u32 \<Rightarrow> kstate \<Rightarrow> kstate option" where
  "timer_check_loop call current_tick s =
     (case k_tlist s of
        [] \<Rightarrow> Some s
      | m # _ \<Rightarrow>
          if current_tick - tm_timeout_tick (k_tmr s m) < RT_TICK_HALF
          then do { s' \<leftarrow> timer_fire call m s; timer_check_loop call (k_tick s') s' }
          else Some s)"

definition rt_timer_check :: "(nat \<Rightarrow> kstate \<Rightarrow> kstate option) \<Rightarrow> kstate \<Rightarrow> kstate option" where
  "rt_timer_check usr s = timer_check_loop (call_timeout usr) (k_tick s) s"

definition rt_tick_set :: "u32 \<Rightarrow> kstate \<Rightarrow> kstate" where
  "rt_tick_set tick s = s\<lparr>k_tick := tick\<rparr>"

definition rt_tick_increase :: "(nat \<Rightarrow> kstate \<Rightarrow> kstate option) \<Rightarrow> kstate \<Rightarrow> kstate option" where
  "rt_tick_increase usr s =
     do { let s1 = s\<lparr>k_tick := k_tick s + 1\<rparr>;
          t \<leftarrow> k_cur s1;
          let s2 = upd_thr t (\<lambda>h. h\<lparr>t_remaining_tick := t_remaining_tick h - 1\<rparr>) s1;
          s3 \<leftarrow> (if t_remaining_tick (k_thr s2 t) = 0
                then rt_thread_yield (upd_thr t (\<lambda>h. h\<lparr>t_remaining_tick := t_init_tick h\<rparr>) s2)
                else Some s2);
          rt_timer_check usr s3 }"

text \<open>
  The conversion is done in \<open>int\<close> (32 bits); a product that does not fit is undefined
  behaviour, here \<open>None\<close>. RT_WAITING_FOREVER is -1 and RT_TICK_PER_SECOND is 1000.
\<close>

definition RT_TICK_PER_SECOND :: int where "RT_TICK_PER_SECOND = 1000"
definition RT_WAITING_FOREVER :: int where "RT_WAITING_FOREVER = -1"

definition rt_tick_from_millisecond :: "int \<Rightarrow> int option" where
  "rt_tick_from_millisecond ms =
     (if ms < 0 then Some RT_WAITING_FOREVER
      else if RT_TICK_PER_SECOND * ms + 999 \<le> 0x7fffffff
      then Some ((RT_TICK_PER_SECOND * ms + 999) div 1000) else None)"

definition rt_thread_mdelay :: "int \<Rightarrow> kstate \<Rightarrow> kstate option" where
  "rt_thread_mdelay ms s =
     do { tick \<leftarrow> rt_tick_from_millisecond ms; rt_thread_sleep (word_of_int tick) s }"

section \<open>Termination and effect of the timer check\<close>

text \<open>A timer is due when its timeout, seen from the base, has passed.\<close>

definition due :: "u32 \<Rightarrow> kstate \<Rightarrow> tmid \<Rightarrow> bool" where
  "due base s m \<longleftrightarrow> tdist base (k_tmr s) m \<le> unat (k_tick s - base)"

lemma due_compare:
  assumes "tdist base (k_tmr s) m < unat RT_TICK_HALF" "unat (k_tick s - base) < unat RT_TICK_HALF"
  shows "k_tick s - tm_timeout_tick (k_tmr s m) < RT_TICK_HALF \<longleftrightarrow> due base s m"
  using assms unat_diff_wrap [of "k_tick s" "tm_timeout_tick (k_tmr s m)" base]
  unfolding due_def tdist_def word_less_nat_alt half_value by (simp split: if_splits)

text \<open>
  The contract between the loop and the callbacks: in a state that satisfies \<open>I\<close>, firing the
  due timer at the head succeeds, keeps \<open>I\<close>, makes no other timer due, and serves the timer
  (\<open>P\<close>); nothing that was served is undone, and one round changes the state by \<open>R\<close> at most.
\<close>

locale timer_service =
  fixes call :: "timeout_fn \<Rightarrow> kstate \<Rightarrow> kstate option"
    and base :: u32
    and I :: "kstate \<Rightarrow> bool"
    and P :: "tmid \<Rightarrow> kstate \<Rightarrow> bool"
    and R :: "kstate \<Rightarrow> kstate \<Rightarrow> bool"
  assumes sorted: "I s \<Longrightarrow> timers_sorted base s"
    and near: "I s \<Longrightarrow> unat (k_tick s - base) < unat RT_TICK_HALF"
    and fire: "I s \<Longrightarrow> k_tlist s = m # ms \<Longrightarrow> due base s m \<Longrightarrow>
      \<exists>s'. timer_fire call m s = Some s' \<and> I s' \<and>
           filter (due base s') (k_tlist s') = filter (due base s) ms \<and> P m s' \<and> R s s'"
    and R_refl: "R s s" and R_trans: "R s s' \<Longrightarrow> R s' s'' \<Longrightarrow> R s s''"
    and keep: "I s \<Longrightarrow> k_tlist s = m # ms \<Longrightarrow> due base s m \<Longrightarrow> timer_fire call m s = Some s' \<Longrightarrow>
      P n s \<Longrightarrow> P n s'"
begin

lemma check_loop:
  assumes "I s"
  shows "\<exists>s'. timer_check_loop call (k_tick s) s = Some s' \<and> I s' \<and>
           filter (due base s') (k_tlist s') = [] \<and> R s s' \<and>
           (\<forall>n. (n \<in> set (k_tlist s) \<and> due base s n) \<or> P n s \<longrightarrow> P n s')"
  using assms
proof (induction "length (filter (due base s) (k_tlist s))" arbitrary: s rule: less_induct)
  case less
  show ?case
  proof (cases "k_tlist s")
    case Nil
    then show ?thesis using less.prems R_refl by (subst timer_check_loop.simps) simp
  next
    case (Cons m ms)
    have srt: "timers_sorted base s" by (rule sorted [OF less.prems])
    have cmp: "k_tick s - tm_timeout_tick (k_tmr s m) < RT_TICK_HALF \<longleftrightarrow> due base s m"
      by (rule due_compare) (use srt near [OF less.prems] Cons in \<open>simp_all add: timers_sorted_def\<close>)
    show ?thesis
    proof (cases "due base s m")
      case True
      obtain s1 where s1: "timer_fire call m s = Some s1" "I s1"
        "filter (due base s1) (k_tlist s1) = filter (due base s) ms" "P m s1" "R s s1"
        using fire [OF less.prems Cons True] by blast
      have "length (filter (due base s1) (k_tlist s1)) < length (filter (due base s) (k_tlist s))"
        using s1(3) Cons True by simp
      from less.hyps [OF this s1(2)] obtain s' where s': "timer_check_loop call (k_tick s1) s1 = Some s'"
        "I s'" "filter (due base s') (k_tlist s') = []" "R s1 s'"
        "\<forall>n. (n \<in> set (k_tlist s1) \<and> due base s1 n) \<or> P n s1 \<longrightarrow> P n s'" by blast
      have "timer_check_loop call (k_tick s) s = Some s'"
        using Cons cmp True s1(1) s'(1) by (subst timer_check_loop.simps) simp
      moreover have "P n s'" if n: "(n \<in> set (k_tlist s) \<and> due base s n) \<or> P n s" for n
      proof -
        have "n = m \<or> n \<in> set (filter (due base s) ms) \<or> P n s" using n Cons by auto
        then have "P n s1 \<or> n \<in> set (filter (due base s1) (k_tlist s1))"
          using s1(3,4) keep [OF less.prems Cons True s1(1)] by auto
        then show ?thesis using s'(5) by auto
      qed
      ultimately show ?thesis using s'(2,3) R_trans [OF s1(5) s'(4)] by blast
    next
      case False
      have "\<not> due base s x" if "x \<in> set (k_tlist s)" for x
        using srt False that Cons by (auto simp: timers_sorted_def due_def)
      then have "filter (due base s) (k_tlist s) = []" by (simp add: filter_empty_conv)
      moreover have "timer_check_loop call (k_tick s) s = Some s"
        using Cons cmp False by (subst timer_check_loop.simps) simp
      ultimately show ?thesis using less.prems R_refl by (auto simp: filter_empty_conv)
    qed
  qed
qed

end

section \<open>Thread timers\<close>

text \<open>
  The contract holds for the kernel's own callback: when only threads wait, a tick wakes the
  threads whose time has come, and no one else.
\<close>

definition only_threads :: "u32 \<Rightarrow> kstate \<Rightarrow> bool" where
  "only_threads base s \<longleftrightarrow> kernel_inv s \<and> timers_sorted base s \<and>
     unat (k_tick s - base) < unat RT_TICK_HALF \<and> (\<forall>m \<in> set (k_tlist s). \<exists>t. m = ThreadTimer t) \<and>
     (\<forall>t. \<not> tm_periodic (k_tmr s (ThreadTimer t)))"

definition timed_out :: "tmid \<Rightarrow> kstate \<Rightarrow> bool" where
  "timed_out m s \<longleftrightarrow> (case m of ThreadTimer t \<Rightarrow>
      (th_stat s t = RT_THREAD_READY \<or> th_stat s t = RT_THREAD_RUNNING) \<and>
      t_error (k_thr s t) = - RT_ETIMEOUT | SysTimer _ \<Rightarrow> False)"

text \<open>Timers that are not due stay armed, and the kernel objects stay as they are.\<close>

definition leaves_rest :: "u32 \<Rightarrow> kstate \<Rightarrow> kstate \<Rightarrow> bool" where
  "leaves_rest base s s' \<longleftrightarrow> objs_same s s' \<and>
     (\<forall>x. tm_timeout_tick (k_tmr s' x) = tm_timeout_tick (k_tmr s x)) \<and>
     (\<forall>n \<in> set (k_tlist s). \<not> due base s n \<longrightarrow> n \<in> set (k_tlist s'))"

lemma leaves_restD: "leaves_rest base s s' \<Longrightarrow> due base s' = due base s"
  by (simp add: leaves_rest_def due_def tdist_def objs_same_def fun_eq_iff)

lemma leaves_rest_trans:
  assumes a: "leaves_rest base s s'" and b: "leaves_rest base s' s''"
  shows "leaves_rest base s s''"
  using leaves_restD [OF a] a b objs_same_trans [of s s' s''] unfolding leaves_rest_def by metis

lemma fire_thread_timer:
  assumes ok: "only_threads base s" and lst: "k_tlist s = m # ms" and dm: "due base s m"
  obtains t s' where "m = ThreadTimer t" "timer_fire (call_timeout usr) m s = Some s'"
    "only_threads base s'" "k_tlist s' = ms"
    "\<And>x. tm_timeout_tick (k_tmr s' x) = tm_timeout_tick (k_tmr s x)" "objs_same s s'" "timed_out m s'"
    "\<And>n. timed_out n s \<Longrightarrow> timed_out n s'"
    "\<And>u. u \<noteq> t \<Longrightarrow> th_stat s u = RT_THREAD_SUSPEND \<longleftrightarrow> th_stat s' u = RT_THREAD_SUSPEND"
    "k_lock s = 0 \<Longrightarrow> best_runs s'"
proof -
  obtain t where m: "m = ThreadTimer t" using ok lst by (auto simp: only_threads_def)
  have inv: "kernel_inv s" and np: "\<not> tm_periodic (k_tmr s m)" using ok m by (simp_all add: only_threads_def)
  note K = kernel_invD [OF inv]
  have dist: "m \<notin> set ms" "distinct ms" using timer_invD(1) [OF K(4)] lst by simp_all
  then have unl: "filter (\<lambda>x. x \<noteq> m) (k_tlist s) = ms" using lst by (simp add: filter_neq_idle)
  let ?s1 = "timer_unlink m s"
  have "timer_inv ?s1" by (rule timer_inv_step [OF K(4)]) (use dist lst unl in auto)
  moreover have "sched_inv ?s1" using K(1) sched_inv_tm_cong [of ?s1 s] by simp
  moreover have "thr_inv ?s1" by (rule thr_inv_step [OF K(5)]) (simp_all add: live_def)
  ultimately have k1: "kernel_inv ?s1" using K(6) by (auto simp: kernel_inv_def)
  have st: "th_stat s t = RT_THREAD_SUSPEND" using timer_invD(4) [OF K(4), of t] lst m by simp
  have st1: "th_stat ?s1 t = RT_THREAD_SUSPEND" and off: "ThreadTimer t \<notin> set (k_tlist ?s1)"
    using st m by simp_all
  obtain s2 where s2: "rt_thread_timeout t ?s1 = Some s2" "kernel_inv s2" "objs_same ?s1 s2"
    "k_tmr s2 = k_tmr ?s1" "k_tlist s2 = k_tlist ?s1" "t_error (k_thr s2 t) = - RT_ETIMEOUT"
    "th_stat s2 t = RT_THREAD_READY \<or> th_stat s2 t = RT_THREAD_RUNNING"
    "k_lock ?s1 = 0 \<Longrightarrow> best_runs s2"
    "\<And>u. u \<noteq> t \<Longrightarrow> th_stat ?s1 u = RT_THREAD_SUSPEND \<longleftrightarrow> th_stat s2 u = RT_THREAD_SUSPEND"
    "\<And>u. u \<noteq> t \<Longrightarrow> th_stat ?s1 u = RT_THREAD_READY \<or> th_stat ?s1 u = RT_THREAD_RUNNING \<Longrightarrow>
       th_stat s2 u = RT_THREAD_READY \<or> th_stat s2 u = RT_THREAD_RUNNING"
    "\<And>u. u \<noteq> t \<Longrightarrow> t_error (k_thr s2 u) = t_error (k_thr ?s1 u)"
    by (rule rt_thread_timeout_spec [OF k1 st1 off]) (rule that, assumption+)
  let ?s' = "upd_tmr m (\<lambda>t. t\<lparr>tm_activated := False\<rparr>) s2"
  note K2 = kernel_invD [OF s2(2)]
  have l2: "k_tlist s2 = ms" using s2(5) unl by simp
  have "timer_inv ?s'" by (rule timer_inv_step [OF K2(4)]) (use dist l2 in auto)
  moreover have "sched_inv ?s'" using K2(1) sched_inv_tm_cong [of ?s' s2] by simp
  moreover have "thr_inv ?s'" by (rule thr_inv_step [OF K2(5)]) (simp_all add: live_def)
  ultimately have k': "kernel_inv ?s'" using K2(6) by (auto simp: kernel_inv_def)
  have fire: "timer_fire (call_timeout usr) m s = Some ?s'"
    using s2(1,4) timer_invD(5) [OF K(4), of t] np m by (simp add: timer_fire_def call_timeout_def)
  have tick: "k_tick ?s' = k_tick s" using s2(3) by (simp add: objs_same_def)
  have tmr: "tm_timeout_tick (k_tmr ?s' x) = tm_timeout_tick (k_tmr s x)" for x by (simp add: s2(4))
  have filt: "k_tlist ?s' = filter (\<lambda>x. x \<noteq> m) (k_tlist s)" using l2 unl by simp
  have "timers_sorted base ?s'"
    by (rule timers_sorted_filter [OF _ filt tmr]) (use ok in \<open>simp add: only_threads_def\<close>)
  then have ok': "only_threads base ?s'"
    using ok k' tick l2 lst by (auto simp: only_threads_def s2(4))
  have keep: "timed_out n ?s'" if "timed_out n s" for n
  proof (cases n)
    case (ThreadTimer u)
    then have "u \<noteq> t" using that st by (auto simp: timed_out_def)
    then show ?thesis using that s2(10,11) [of u] ThreadTimer by (auto simp: timed_out_def)
  qed (use that in \<open>simp add: timed_out_def\<close>)
  show thesis
    by (rule that [OF m fire ok' _ tmr _ _ keep])
      (use l2 s2(3,6,7,8,9) m in \<open>auto simp: timed_out_def objs_same_def best_runs_def\<close>)
qed

interpretation thread_timers: timer_service "call_timeout usr" base "only_threads base" timed_out
    "leaves_rest base"
  for usr base
proof
  fix s m ms
  assume a: "only_threads base s" "k_tlist s = m # ms" "due base s m"
  show "\<exists>s'. timer_fire (call_timeout usr) m s = Some s' \<and> only_threads base s' \<and>
      filter (due base s') (k_tlist s') = filter (due base s) ms \<and> timed_out m s' \<and>
      leaves_rest base s s'"
  proof (rule fire_thread_timer [OF a, of usr])
    fix t s' assume b: "timer_fire (call_timeout usr) m s = Some s'" "only_threads base s'" "k_tlist s' = ms"
      "\<And>x. tm_timeout_tick (k_tmr s' x) = tm_timeout_tick (k_tmr s x)" "objs_same s s'" "timed_out m s'"
    have "due base s' = due base s" using b(4,5) by (simp add: due_def tdist_def objs_same_def fun_eq_iff)
    moreover have "leaves_rest base s s'" using a(2,3) b(3-5) by (simp add: leaves_rest_def)
    ultimately show ?thesis using b by metis
  qed
next
  fix s m ms s' n
  assume a: "only_threads base s" "k_tlist s = m # ms" "due base s m"
    and b: "timer_fire (call_timeout usr) m s = Some s'" "timed_out n s"
  show "timed_out n s'" by (rule fire_thread_timer [OF a, of usr]) (use b in auto)
qed (simp_all add: only_threads_def leaves_rest_trans leaves_rest_def [of _ s s for s])

section \<open>The tick\<close>

lemma unat_next: "unat (x + 1 - x :: u32) = 1"
  by simp

lemma tdist_shift:
  assumes "1 < tdist base tmr m"
  shows "tdist (base + 1) tmr m = tdist base tmr m - 1"
proof -
  have e: "tm_timeout_tick (tmr m) - (base + 1) = (tm_timeout_tick (tmr m) - base) - 1" by simp
  have "unat ((tm_timeout_tick (tmr m) - base) - 1) = unat (tm_timeout_tick (tmr m) - base) - unat (1 :: u32)"
    by (rule unat_sub) (use assms in \<open>simp add: tdist_def word_le_nat_alt\<close>)
  then show ?thesis by (simp only: tdist_def e unat_1)
qed

lemma timers_sorted_shift:
  assumes "timers_sorted base s" "\<forall>m \<in> set (k_tlist s). 1 < tdist base (k_tmr s) m"
  shows "timers_sorted (base + 1) s"
  unfolding timers_sorted_def
proof
  show "\<forall>m\<in>set (k_tlist s). tdist (base + 1) (k_tmr s) m < unat RT_TICK_HALF"
    using assms tdist_shift [of base "k_tmr s"] by (auto simp: timers_sorted_def)
  show "sorted_wrt (\<lambda>a b. tdist (base + 1) (k_tmr s) a \<le> tdist (base + 1) (k_tmr s) b) (k_tlist s)"
  proof (rule sorted_wrt_mono_rel [rotated])
    show "sorted_wrt (\<lambda>a b. tdist base (k_tmr s) a \<le> tdist base (k_tmr s) b) (k_tlist s)"
      using assms(1) by (simp add: timers_sorted_def)
    show "tdist (base + 1) (k_tmr s) x \<le> tdist (base + 1) (k_tmr s) y"
      if "x \<in> set (k_tlist s)" "y \<in> set (k_tlist s)" "tdist base (k_tmr s) x \<le> tdist base (k_tmr s) y" for x y
      using that assms(2) tdist_shift [of base "k_tmr s"] by (metis diff_le_mono)
  qed
qed

lemma tick_spec:
  assumes inv: "kernel_inv s" and srt: "timers_sorted (k_tick s) s"
    and thr: "\<forall>m \<in> set (k_tlist s). \<exists>t. m = ThreadTimer t"
    and one: "\<forall>t. \<not> tm_periodic (k_tmr s (ThreadTimer t))"
  shows "\<exists>s'. rt_tick_increase usr s = Some s' \<and> kernel_inv s' \<and> k_tick s' = k_tick s + 1 \<and>
    timers_sorted (k_tick s') s' \<and>
    (\<forall>t. ThreadTimer t \<in> set (k_tlist s) \<longrightarrow>
       (if tm_timeout_tick (k_tmr s (ThreadTimer t)) - k_tick s \<le> 1 then timed_out (ThreadTimer t) s'
        else ThreadTimer t \<in> set (k_tlist s') \<and> th_stat s' t = RT_THREAD_SUSPEND))"
proof -
  let ?b = "k_tick s" and ?s1 = "s\<lparr>k_tick := k_tick s + 1\<rparr>"
  obtain c where cur: "k_cur s = Some c" using kernel_invD(6) [OF inv] by blast
  let ?s2 = "upd_thr c (\<lambda>h. h\<lparr>t_remaining_tick := t_remaining_tick h - 1\<rparr>) ?s1"
  let ?s3 = "upd_thr c (\<lambda>h. h\<lparr>t_remaining_tick := t_init_tick h\<rparr>) ?s2"
  have k2: "kernel_inv ?s2" and k3: "kernel_inv ?s3"
    using inv kernel_inv_core [of ?s2 s] kernel_inv_core [of ?s3 s] by (simp_all add: thr_core_def)
  obtain s4 where s4: "(if t_remaining_tick (k_thr ?s2 c) = 0 then rt_thread_yield ?s3 else Some ?s2) = Some s4"
    "kernel_inv s4" "k_tlist s4 = k_tlist s" "k_tmr s4 = k_tmr s" "k_tick s4 = k_tick s + 1"
  proof (cases "t_remaining_tick (k_thr ?s2 c) = 0")
    case True
    obtain s' where s': "rt_schedule ?s3 = Some s'" "kernel_inv s'" "sched_only ?s3 s'"
      by (rule rt_schedule_kernel [OF k3])
    note O = sched_onlyD [OF s'(3)]
    show thesis
      by (rule that [of s']) (use True s' O(1,2,3) in \<open>simp_all add: rt_thread_yield_def objs_same_def\<close>)
  next
    case False
    show thesis by (rule that [of ?s2]) (use False k2 in simp_all)
  qed
  have ok: "only_threads ?b s4"
    using s4(2-5) thr one srt timers_sorted_cong [of s4 s ?b]
    by (simp add: only_threads_def half_value)
  have inc: "rt_tick_increase usr s = timer_check_loop (call_timeout usr) (k_tick s4) s4"
    using cur s4(1) by (simp add: rt_tick_increase_def rt_timer_check_def Let_def del: upd_thr_sel)
  obtain s' where s': "timer_check_loop (call_timeout usr) (k_tick s4) s4 = Some s'" "only_threads ?b s'"
    "filter (due ?b s') (k_tlist s') = []" "leaves_rest ?b s4 s'"
    "\<forall>n. (n \<in> set (k_tlist s4) \<and> due ?b s4 n) \<or> timed_out n s4 \<longrightarrow> timed_out n s'"
    using thread_timers.check_loop [OF ok, of usr] by blast
  have tick': "k_tick s' = k_tick s + 1" using s'(4) s4(5) by (simp add: leaves_rest_def objs_same_def)
  have due4: "due ?b s4 m \<longleftrightarrow> tm_timeout_tick (k_tmr s m) - k_tick s \<le> 1" for m
    by (simp add: due_def tdist_def s4(4,5) word_le_nat_alt)
  have "timers_sorted (?b + 1) s'"
  proof (rule timers_sorted_shift)
    show "timers_sorted ?b s'" using s'(2) by (simp add: only_threads_def)
    show "\<forall>m\<in>set (k_tlist s'). 1 < tdist ?b (k_tmr s') m"
      using s'(3) by (auto simp: filter_empty_conv due_def tick')
  qed
  moreover have kinv': "kernel_inv s'" using s'(2) by (simp add: only_threads_def)
  moreover have "timed_out (ThreadTimer t) s'" if "ThreadTimer t \<in> set (k_tlist s)"
      "tm_timeout_tick (k_tmr s (ThreadTimer t)) - k_tick s \<le> 1" for t
    using s'(5) that due4 s4(3) by simp
  moreover have "ThreadTimer t \<in> set (k_tlist s')" if "ThreadTimer t \<in> set (k_tlist s)"
      "\<not> tm_timeout_tick (k_tmr s (ThreadTimer t)) - k_tick s \<le> 1" for t
    using s'(4) that due4 s4(3) by (simp add: leaves_rest_def)
  ultimately show ?thesis
    using s'(1) inc tick' timer_invD(4) [OF kernel_invD(4) [OF kinv']] by auto
qed

text \<open>
  A one-shot timer that its own callback starts again stays in the list although the check
  clears its active flag afterwards: stopping it fails and it still fires.
\<close>

lemma restarted_one_shot:
  assumes fire: "timer_fire call m s = Some s'" and one: "\<not> tm_periodic (k_tmr s m)"
    and cb: "\<And>s1 s2. call (tm_timeout_func (k_tmr s m)) s1 = Some s2 \<Longrightarrow> rt_timer_start m s1 = Some s2"
  shows "m \<in> set (k_tlist s') \<and> \<not> tm_activated (k_tmr s' m) \<and>
    rt_timer_stop m s' = Some (- RT_ERROR, s')"
proof -
  obtain s2 where s2: "call (tm_timeout_func (k_tmr s m)) (timer_unlink m s) = Some s2"
    using fire by (auto simp: timer_fire_def bind_eq_Some_conv)
  have st: "rt_timer_start m (timer_unlink m s) = Some s2" by (rule cb [OF s2])
  then have "m \<in> set (k_tlist s2)" "tm_attached (k_tmr s2 m)" "\<not> tm_periodic (k_tmr s2 m)"
    using one by (auto simp: rt_timer_start_def Let_def split: if_splits)
  moreover have "s' = upd_tmr m (\<lambda>t. t\<lparr>tm_activated := False\<rparr>) s2"
    using fire s2 \<open>\<not> tm_periodic (k_tmr s2 m)\<close> by (simp add: timer_fire_def)
  ultimately show ?thesis by (simp add: rt_timer_stop_def)
qed

end
