(* ===== verification/Ipc.thy ===== *)
theory Ipc
  imports Thread
begin

text \<open>
  The wait lists shared by all IPC objects of src/ipc.c: suspending the caller in FIFO or
  priority order, waking the first waiter or all of them. Every blocking call of src/ipc.c
  performs the same steps before its call of the scheduler; they are \<open>ipc_block\<close>.
\<close>

section \<open>Operations\<close>

definition in_thread_context :: "kstate \<Rightarrow> bool" where
  "in_thread_context s \<longleftrightarrow> k_cur s \<noteq> None \<and> k_nest s = 0"

text \<open>The search of a thread of lower priority, and the insertion before it or at the end.\<close>

fun ipc_prio_insert :: "kstate \<Rightarrow> tid \<Rightarrow> tid list \<Rightarrow> tid list" where
  "ipc_prio_insert s t [] = [t]"
| "ipc_prio_insert s t (x # xs) =
     (if th_prio s t < th_prio s x then t # x # xs else x # ipc_prio_insert s t xs)"

definition rt_ipc_list_suspend :: "qid \<Rightarrow> tid \<Rightarrow> nat \<Rightarrow> kstate \<Rightarrow> kstate option" where
  "rt_ipc_list_suspend q t flag s =
     do { (_, s1) \<leftarrow> rt_thread_suspend t s;
          Some (if flag = RT_IPC_FLAG_FIFO then tlist_append q t s1
                else if flag = RT_IPC_FLAG_PRIO
                then s1\<lparr>k_q := (k_q s1)(q := ipc_prio_insert s1 t (k_q s1 q))\<rparr>
                else s1) }"

definition rt_ipc_list_resume :: "qid \<Rightarrow> kstate \<Rightarrow> kstate option" where
  "rt_ipc_list_resume q s =
     (case k_q s q of [] \<Rightarrow> None
      | t # _ \<Rightarrow> map_option snd (rt_thread_resume t s))"

partial_function (option) rt_ipc_list_resume_all :: "qid \<Rightarrow> kstate \<Rightarrow> kstate option" where
  "rt_ipc_list_resume_all q s =
     (case k_q s q of [] \<Rightarrow> Some s
      | t # _ \<Rightarrow>
          do { (_, s1) \<leftarrow> rt_thread_resume t (upd_thr t (\<lambda>h. h\<lparr>t_error := - RT_ERROR\<rparr>) s);
               rt_ipc_list_resume_all q s1 })"

text \<open>A waiting time above zero arms the caller's timer; a negative one waits for ever.\<close>

definition ipc_arm :: "tid \<Rightarrow> int \<Rightarrow> kstate \<Rightarrow> kstate option" where
  "ipc_arm t time s =
     (if 0 < time
      then do { (_, s1) \<leftarrow> rt_timer_control (ThreadTimer t) (RT_TIMER_CTRL_SET_TIME (word_of_int time)) s;
                rt_timer_start (ThreadTimer t) s1 }
      else Some s)"

definition ipc_block :: "qid \<Rightarrow> tid \<Rightarrow> nat \<Rightarrow> int \<Rightarrow> kstate \<Rightarrow> kstate option" where
  "ipc_block q t flag time s =
     do { s1 \<leftarrow> rt_ipc_list_suspend q t flag s;
          s2 \<leftarrow> ipc_arm t time s1;
          rt_schedule s2 }"

section \<open>Waiting\<close>

text \<open>The kernel between two operations: its invariant, and no timer overdue by much.\<close>

definition kernel_ok :: "kstate \<Rightarrow> bool" where
  "kernel_ok s \<longleftrightarrow> kernel_inv s \<and> timers_sorted (k_tick s) s"

lemma kernel_okD: "kernel_ok s \<Longrightarrow> kernel_inv s" "kernel_ok s \<Longrightarrow> timers_sorted (k_tick s) s"
  by (simp_all add: kernel_ok_def)

lemma kernel_ok_core:
  assumes "\<And>t. thr_core (k_thr s' t) = thr_core (k_thr s t)" "k_q s' = k_q s" "k_group s' = k_group s"
    "k_cur s' = k_cur s" "k_tmr s' = k_tmr s" "k_tlist s' = k_tlist s" "k_tick s' = k_tick s"
  shows "kernel_ok s' \<longleftrightarrow> kernel_ok s"
  using kernel_inv_core [OF assms(1-6)] timers_sorted_cong [OF assms(6,5)] assms(7)
  by (simp add: kernel_ok_def)

lemma sched_only_kernel_ok:
  "kernel_inv s' \<Longrightarrow> timers_sorted (k_tick s) s \<Longrightarrow> sched_only s s' \<Longrightarrow> kernel_ok s'"
  using sched_onlyD(1,2,3) [of s s'] timers_sorted_cong [of s' s] by (simp add: kernel_ok_def objs_same_def)

lemma ipc_prio_insert_split:
  "\<exists>us vs. ipc_prio_insert s t xs = us @ t # vs \<and> xs = us @ vs \<and>
     (\<forall>u \<in> set us. th_prio s u \<le> th_prio s t) \<and> (vs \<noteq> [] \<longrightarrow> th_prio s t < th_prio s (hd vs))"
proof (induction xs)
  case (Cons x xs)
  show ?case
  proof (cases "th_prio s t < th_prio s x")
    case True
    then show ?thesis by (intro exI [of _ "[]"] exI [of _ "x # xs"]) simp
  next
    case False
    from Cons.IH obtain us vs where uv: "ipc_prio_insert s t xs = us @ t # vs" "xs = us @ vs"
      "\<forall>u \<in> set us. th_prio s u \<le> th_prio s t" "vs \<noteq> [] \<longrightarrow> th_prio s t < th_prio s (hd vs)" by blast
    then show ?thesis using False
      by (intro exI [of _ "x # us"] exI [of _ vs]) simp
  qed
qed simp

lemma ipc_prio_insert_set [simp]: "set (ipc_prio_insert s t xs) = insert t (set xs)"
  by (induction xs) auto

lemma ipc_prio_insert_sorted:
  assumes "sorted_wrt (\<lambda>a b. th_prio s a \<le> th_prio s b) xs"
  shows "sorted_wrt (\<lambda>a b. th_prio s a \<le> th_prio s b) (ipc_prio_insert s t xs)"
  using assms by (induction xs) (auto simp: not_less)

lemma ipc_prio_insert_cong:
  "(\<And>u. u \<in> insert t (set xs) \<Longrightarrow> th_prio s u = th_prio s' u) \<Longrightarrow> ipc_prio_insert s t xs = ipc_prio_insert s' t xs"
proof (induction xs)
  case (Cons x xs)
  have "th_prio s t = th_prio s' t" "th_prio s x = th_prio s' x" using Cons.prems by simp_all
  moreover have "ipc_prio_insert s t xs = ipc_prio_insert s' t xs" by (rule Cons.IH, rule Cons.prems) auto
  ultimately show ?case by simp
qed simp

text \<open>The place of a new waiter.\<close>

definition waiters_with :: "kstate \<Rightarrow> tid \<Rightarrow> nat \<Rightarrow> tid list \<Rightarrow> tid list" where
  "waiters_with s t flag xs = (if flag = RT_IPC_FLAG_FIFO then xs @ [t] else ipc_prio_insert s t xs)"

lemma waiters_with_set [simp]: "set (waiters_with s t flag xs) = insert t (set xs)"
  by (simp add: waiters_with_def)

lemma waiters_with_split: "\<exists>us vs. waiters_with s t flag xs = us @ t # vs \<and> xs = us @ vs"
  using ipc_prio_insert_split [of s t xs] unfolding waiters_with_def by auto

lemma waiters_with_cong:
  "(\<And>u. u \<in> insert t (set xs) \<Longrightarrow> th_prio s u = th_prio s' u) \<Longrightarrow>
     waiters_with s t flag xs = waiters_with s' t flag xs"
  using ipc_prio_insert_cong [of t xs s s'] by (simp add: waiters_with_def)

definition wait_flag :: "nat \<Rightarrow> bool" where
  "wait_flag flag \<longleftrightarrow> flag = RT_IPC_FLAG_FIFO \<or> flag = RT_IPC_FLAG_PRIO"

definition wait_list :: "qid \<Rightarrow> bool" where
  "wait_list q \<longleftrightarrow> (\<exists>i. q = SuspQ i \<or> q = SenderQ i)"

text \<open>Suspending a thread and linking it into a waiting list, wherever in the list.\<close>

definition parked :: "kstate \<Rightarrow> qid \<Rightarrow> tid \<Rightarrow> tid list \<Rightarrow> kstate \<Rightarrow> bool" where
  "parked s q t xs s' \<longleftrightarrow> kernel_ok s' \<and> objs_same s s' \<and>
     k_thr s' = (k_thr s)(t := (k_thr s t)\<lparr>t_stat := RT_THREAD_SUSPEND\<rparr>) \<and> k_cur s' = k_cur s \<and>
     (\<forall>y. wait_list y \<longrightarrow> k_q s' y = (if y = q then xs else k_q s y)) \<and>
     ThreadTimer t \<notin> set (k_tlist s')"

lemma park_spec:
  assumes ok: "kernel_ok s" and run: "th_stat s t = RT_THREAD_RUNNING" and q: "wait_list q"
    and uv: "xs = us @ t # vs" "k_q s q = us @ vs"
  obtains s1 where "rt_thread_suspend t s = Some (RT_EOK, s1)" "k_q s1 = k_q s"
    "\<And>u. th_prio s1 u = th_prio s u" "parked s q t xs (s1\<lparr>k_q := (k_q s1)(q := xs)\<rparr>)"
proof -
  note inv = kernel_okD(1) [OF ok]
  obtain s1 where s1: "rt_thread_suspend t s = Some (RT_EOK, s1)" "kernel_inv s1" "objs_same s s1"
    "k_thr s1 = (k_thr s)(t := (k_thr s t)\<lparr>t_stat := RT_THREAD_SUSPEND\<rparr>)"
    "unlinked t s1" "k_cur s1 = k_cur s" "\<And>q. k_q s1 q = filter (\<lambda>x. x \<noteq> t) (k_q s q)"
    "k_tlist s1 = filter (\<lambda>x. x \<noteq> ThreadTimer t) (k_tlist s)"
    "k_tmr s1 = (k_tmr s)(ThreadTimer t := (k_tmr s (ThreadTimer t))\<lparr>tm_activated := False\<rparr>)"
    by (rule rt_thread_suspend_spec [OF inv disjI2 [OF run]]) (rule that, assumption+)
  note K = kernel_invD [OF s1(2)]
  have "unlinked t s" using running_unlinked [OF kernel_invD(2) [OF inv]] run by simp
  then have q1: "k_q s1 = k_q s"
    using s1(7) filter_neq_idle [of t] by (simp add: unlinked_def fun_eq_iff)
  let ?s' = "s1\<lparr>k_q := (k_q s1)(q := xs)\<rparr>"
  obtain i where qi: "q = SuspQ i \<or> q = SenderQ i" using q by (auto simp: wait_list_def)
  have "table_inv ?s'"
    by (rule link_table_inv [OF K(2) s1(5) _ qi uv(1)]) (simp_all add: s1(4) q1 uv(2))
  moreover have "current_inv ?s'" using K(3) by (simp add: current_inv_def)
  moreover have "timer_inv ?s'" using K(4) timer_inv_cong [of ?s' s1] by simp
  moreover have "thr_inv ?s'" using K(5) by (simp add: thr_inv_def live_def)
  ultimately have kinv: "kernel_inv ?s'" using K(6) by (auto simp: kernel_inv_def sched_inv_def)
  have tick: "k_tick ?s' = k_tick s" using s1(3) by (simp add: objs_same_def)
  have "timers_sorted (k_tick s) ?s'"
    by (rule timers_sorted_filter [OF kernel_okD(2) [OF ok]]) (simp_all add: s1(8,9))
  with kinv tick have ok': "kernel_ok ?s'" by (simp add: kernel_ok_def)
  show thesis
    by (rule that [OF s1(1) q1]) (use ok' s1(3,6) q1 in \<open>simp_all add: s1(4,8) objs_same_def parked_def\<close>)
qed

lemma rt_ipc_list_suspend_spec:
  assumes ok: "kernel_ok s" and run: "th_stat s t = RT_THREAD_RUNNING" and q: "wait_list q"
    and flag: "wait_flag flag"
  obtains s' where "rt_ipc_list_suspend q t flag s = Some s'" "parked s q t (waiters_with s t flag (k_q s q)) s'"
proof -
  obtain us vs where uv: "waiters_with s t flag (k_q s q) = us @ t # vs" "k_q s q = us @ vs"
    using waiters_with_split [of s t flag "k_q s q"] by blast
  obtain s1 where s1: "rt_thread_suspend t s = Some (RT_EOK, s1)" "k_q s1 = k_q s"
    "\<And>u. th_prio s1 u = th_prio s u"
    "parked s q t (waiters_with s t flag (k_q s q)) (s1\<lparr>k_q := (k_q s1)(q := waiters_with s t flag (k_q s q))\<rparr>)"
    by (rule park_spec [OF ok run q uv]) (rule that, assumption+)
  have "rt_ipc_list_suspend q t flag s = Some (s1\<lparr>k_q := (k_q s1)(q := waiters_with s t flag (k_q s q))\<rparr>)"
    using s1(1,2) flag ipc_prio_insert_cong [of t "k_q s q" s1 s] s1(3)
    by (auto simp: rt_ipc_list_suspend_def wait_flag_def waiters_with_def RT_IPC_FLAG_FIFO_def
        RT_IPC_FLAG_PRIO_def tlist_append_def insert_tail_def)
  then show thesis by (rule that) (rule s1(4))
qed

text \<open>Blocking: the caller waits in its place, armed if asked to, and another thread runs.\<close>

definition blocked_in :: "kstate \<Rightarrow> qid \<Rightarrow> tid \<Rightarrow> tid list \<Rightarrow> int \<Rightarrow> kstate \<Rightarrow> bool" where
  "blocked_in s q t xs time s' \<longleftrightarrow>
     kernel_ok s' \<and> objs_same s s' \<and> th_stat s' t = RT_THREAD_SUSPEND \<and>
     (\<forall>y. wait_list y \<longrightarrow> k_q s' y = (if y = q then xs else k_q s y)) \<and>
     (ThreadTimer t \<in> set (k_tlist s') \<longleftrightarrow> 0 < time) \<and>
     (0 < time \<longrightarrow> tm_timeout_tick (k_tmr s' (ThreadTimer t)) = k_tick s + word_of_int time) \<and>
     (\<forall>u. k_thr s' u = (k_thr s u)\<lparr>t_stat := th_stat s' u\<rparr>) \<and>
     (\<forall>u. th_stat s' u = RT_THREAD_SUSPEND \<longleftrightarrow> u = t \<or> th_stat s u = RT_THREAD_SUSPEND) \<and>
     (\<forall>u. live s' u = live s u) \<and>
     (k_lock s = 0 \<and> (\<exists>u. th_stat s u = RT_THREAD_READY) \<longrightarrow> best_runs s')"

abbreviation blocked :: "kstate \<Rightarrow> qid \<Rightarrow> tid \<Rightarrow> nat \<Rightarrow> int \<Rightarrow> kstate \<Rightarrow> bool" where
  "blocked s q t flag time s' \<equiv> blocked_in s q t (waiters_with s t flag (k_q s q)) time s'"

lemma time_word:
  assumes "0 < time" "time < 0x7fffffff"
  shows "(word_of_int time :: u32) < RT_TICK_HALF"
proof -
  have "uint (word_of_int time :: u32) = time"
    using assms by (simp add: uint_word_of_int_eq take_bit_int_eq_self)
  then have "unat (word_of_int time :: u32) = nat time" by (simp add: unat_eq_nat_uint)
  then show ?thesis using assms by (simp add: word_less_nat_alt half_value)
qed

lemma ipc_arm_spec:
  assumes ok: "kernel_ok s" and st: "th_stat s t = RT_THREAD_SUSPEND"
    and off: "ThreadTimer t \<notin> set (k_tlist s)" and time: "time < 0x7fffffff"
  obtains s' where "ipc_arm t time s = Some s'" "kernel_ok s'"
    "s' = s\<lparr>k_tmr := k_tmr s', k_tlist := k_tlist s'\<rparr>"
    "ThreadTimer t \<in> set (k_tlist s') \<longleftrightarrow> 0 < time"
    "0 < time \<Longrightarrow> tm_timeout_tick (k_tmr s' (ThreadTimer t)) = k_tick s + word_of_int time"
proof (cases "0 < time")
  case True
  note inv = kernel_okD(1) [OF ok]
  note T = thr_invD [OF kernel_invD(5) [OF inv] live_simps(2) [OF st]]
  obtain s' where s':
    "rt_timer_start (ThreadTimer t) (upd_tmr (ThreadTimer t) (\<lambda>m. m\<lparr>tm_init_tick := word_of_int time\<rparr>) s) = Some s'"
    "kernel_inv s'" "timers_sorted (k_tick s') s'" "ThreadTimer t \<in> set (k_tlist s')"
    "tm_timeout_tick (k_tmr s' (ThreadTimer t)) = k_tick s + word_of_int time"
    "\<And>x. x \<noteq> ThreadTimer t \<Longrightarrow> k_tmr s' x = k_tmr s x"
    "s' = s\<lparr>k_tmr := k_tmr s', k_tlist := k_tlist s'\<rparr>"
    by (rule arm_kernel_inv [OF inv st time_word [OF True time] kernel_okD(2) [OF ok]])
      (rule that, assumption+)
  have "ipc_arm t time s = Some s'" using True s'(1) by (simp add: ipc_arm_def set_time_eq [OF T(2)])
  then show thesis by (rule that) (use s' True in \<open>simp_all add: kernel_ok_def\<close>)
next
  case False
  show thesis by (rule that [of s]) (use False ok off in \<open>simp_all add: ipc_arm_def\<close>)
qed

lemma arm_and_switch:
  assumes run: "th_stat s t = RT_THREAD_RUNNING" and park: "parked s q t xs s1" and time: "time < 0x7fffffff"
  obtains s2 s' where "ipc_arm t time s1 = Some s2" "rt_schedule s2 = Some s'" "blocked_in s q t xs time s'"
proof -
  have s1: "kernel_ok s1" "kernel_ok s1" "objs_same s s1"
    "k_thr s1 = (k_thr s)(t := (k_thr s t)\<lparr>t_stat := RT_THREAD_SUSPEND\<rparr>)" "k_cur s1 = k_cur s"
    "\<And>y. wait_list y \<Longrightarrow> k_q s1 y = (if y = q then xs else k_q s y)"
    "ThreadTimer t \<notin> set (k_tlist s1)"
    using park unfolding parked_def by blast+
  have st1: "th_stat s1 t = RT_THREAD_SUSPEND" by (simp add: s1(4))
  obtain s2 where s2: "ipc_arm t time s1 = Some s2" "kernel_ok s2"
    "s2 = s1\<lparr>k_tmr := k_tmr s2, k_tlist := k_tlist s2\<rparr>"
    "ThreadTimer t \<in> set (k_tlist s2) \<longleftrightarrow> 0 < time"
    "0 < time \<Longrightarrow> tm_timeout_tick (k_tmr s2 (ThreadTimer t)) = k_tick s1 + word_of_int time"
    by (rule ipc_arm_spec [OF s1(2) st1 s1(7) time]) (rule that, assumption+)
  have sel: "k_thr s2 = k_thr s1" "objs_same s1 s2" "k_q s2 = k_q s1"
    by (subst s2(3), simp add: objs_same_def)+
  obtain s' where s': "rt_schedule s2 = Some s'" "kernel_inv s'" "sched_only s2 s'"
    "k_lock s2 = 0 \<and> runnable s2 \<Longrightarrow> best_runs s'"
    using rt_schedule_kernel [OF kernel_okD(1) [OF s2(2)]] by blast
  note O = sched_onlyD [OF s'(3)]
  have obj: "objs_same s s'" by (rule objs_same_trans [OF objs_same_trans [OF s1(3) sel(2)] O(1)])
  have tick: "k_tick s1 = k_tick s" using s1(3) by (simp add: objs_same_def)
  have ok': "kernel_ok s'" by (rule sched_only_kernel_ok [OF s'(2) kernel_okD(2) [OF s2(2)] s'(3)])
  have qs: "k_q s' y = k_q s1 y" if "wait_list y" for y
    using that O(4,5) sel(3) by (auto simp: wait_list_def)
  have st_upd: "(k_thr s2 u)\<lparr>t_stat := x\<rparr> = (k_thr s u)\<lparr>t_stat := x\<rparr>" for u x
    by (simp add: sel(1) s1(4))
  have thr: "k_thr s' u = (k_thr s u)\<lparr>t_stat := th_stat s' u\<rparr>" for u
    by (rule trans [OF O(7) st_upd])
  have best: "best_runs s'" if "k_lock s = 0" "th_stat s u = RT_THREAD_READY" for u
  proof (rule s'(4))
    have "th_stat s2 u = RT_THREAD_READY" using that(2) run by (auto simp: sel(1) s1(4))
    then have "runnable s2" by (auto simp: runnable_def)
    moreover have "k_lock s2 = 0" using that(1) sel(2) s1(3) by (simp add: objs_same_def)
    ultimately show "k_lock s2 = 0 \<and> runnable s2" by simp
  qed
  have "blocked_in s q t xs time s'"
    unfolding blocked_in_def
  proof (intro conjI allI impI)
    show "kernel_ok s'" "objs_same s s'" by (fact ok' obj)+
    show "th_stat s' t = RT_THREAD_SUSPEND" using O(10) [of t] st1 by (simp add: sel(1))
    show "k_q s' y = (if y = q then xs else k_q s y)" if "wait_list y" for y
      using qs [OF that] s1(6) [OF that] by simp
    show "ThreadTimer t \<in> set (k_tlist s') \<longleftrightarrow> 0 < time" using s2(4) O(3) by simp
    show "tm_timeout_tick (k_tmr s' (ThreadTimer t)) = k_tick s + word_of_int time" if "0 < time"
      using s2(5) [OF that] O(2) tick by simp
    show "k_thr s' u = (k_thr s u)\<lparr>t_stat := th_stat s' u\<rparr>" for u by (rule thr)
    show "th_stat s' u = RT_THREAD_SUSPEND \<longleftrightarrow> u = t \<or> th_stat s u = RT_THREAD_SUSPEND" for u
      using O(10) [of u] by (simp add: sel(1) s1(4))
    show "live s' u = live s u" for u
      using O(9) [of u] run by (auto simp: live_def sel(1) s1(4) split: if_splits)
    show "best_runs s'" if "k_lock s = 0 \<and> (\<exists>u. th_stat s u = RT_THREAD_READY)"
      using that best by blast
  qed
  with s2(1) s'(1) show thesis by (rule that)
qed

lemma ipc_block_spec:
  assumes ok: "kernel_ok s" and run: "th_stat s t = RT_THREAD_RUNNING"
    and q: "wait_list q" and flag: "wait_flag flag" and time: "time < 0x7fffffff"
  obtains s' where "ipc_block q t flag time s = Some s'" "blocked s q t flag time s'"
proof -
  obtain s1 where s1: "rt_ipc_list_suspend q t flag s = Some s1" "parked s q t (waiters_with s t flag (k_q s q)) s1"
    by (rule rt_ipc_list_suspend_spec [OF ok run q flag])
  obtain s2 s' where s': "ipc_arm t time s1 = Some s2" "rt_schedule s2 = Some s'" "blocked s q t flag time s'"
    by (rule arm_and_switch [OF run s1(2) time])
  show thesis by (rule that [OF _ s'(3)]) (simp add: ipc_block_def s1(1) s'(1,2))
qed

lemma blockedD:
  assumes "blocked_in s q t xs time s'"
  shows "kernel_ok s'" "objs_same s s'" "th_stat s' t = RT_THREAD_SUSPEND"
    "wait_list y \<Longrightarrow> k_q s' y = (if y = q then xs else k_q s y)"
    "k_thr s' u = (k_thr s u)\<lparr>t_stat := th_stat s' u\<rparr>" "live s' u = live s u"
  using assms unfolding blocked_in_def by blast+

text \<open>The longest waiting time that does not stop the system is 0x7ffffffe ticks.\<close>

lemma ipc_arm_too_long:
  assumes "time = 0x7fffffff" shows "ipc_arm t time s = None"
  using assms by (cases "tm_attached (k_tmr s (ThreadTimer t))")
    (simp_all add: ipc_arm_def rt_timer_control_def rt_timer_start_def Let_def RT_TICK_HALF_def RT_TICK_MAX_def)

section \<open>Waking\<close>

lemma waiting_suspended:
  assumes "kernel_inv s" "wait_list q" "t \<in> set (k_q s q)"
  shows "th_stat s t = RT_THREAD_SUSPEND"
  using assms table_invD(10,11) [OF kernel_invD(2) [OF assms(1)]] by (auto simp: wait_list_def)

text \<open>What waking thread \<open>t\<close> from the list \<open>q\<close> does.\<close>

definition woken :: "kstate \<Rightarrow> tid \<Rightarrow> kstate \<Rightarrow> bool" where
  "woken s t s' \<longleftrightarrow> kernel_ok s' \<and> objs_same s s' \<and> k_cur s' = k_cur s \<and>
     k_thr s' = (k_thr s)(t := (k_thr s t)\<lparr>t_stat :=
       if k_cur s = Some t then RT_THREAD_RUNNING else RT_THREAD_READY\<rparr>) \<and>
     (\<forall>y. wait_list y \<longrightarrow> k_q s' y = filter (\<lambda>x. x \<noteq> t) (k_q s y))"

lemma rt_thread_resume_ok:
  assumes ok: "kernel_ok s" and st: "th_stat s t = RT_THREAD_SUSPEND"
  obtains s' where "rt_thread_resume t s = Some (RT_EOK, s')" "woken s t s'"
proof -
  obtain s' where s': "rt_thread_resume t s = Some (RT_EOK, s')" "kernel_inv s'" "objs_same s s'"
    "k_thr s' = (k_thr s)(t := (k_thr s t)\<lparr>t_stat :=
       if k_cur s = Some t then RT_THREAD_RUNNING else RT_THREAD_READY\<rparr>)"
    "k_cur s' = k_cur s" "\<And>q. \<forall>p. q \<noteq> ReadyQ p \<Longrightarrow> k_q s' q = filter (\<lambda>x. x \<noteq> t) (k_q s q)"
    "k_tlist s' = filter (\<lambda>x. x \<noteq> ThreadTimer t) (k_tlist s)"
    "\<And>m. m \<noteq> ThreadTimer t \<Longrightarrow> k_tmr s' m = k_tmr s m"
    "\<And>m. tm_attached (k_tmr s' m) = tm_attached (k_tmr s m)"
    "\<And>m. tm_timeout_tick (k_tmr s' m) = tm_timeout_tick (k_tmr s m)"
    by (rule rt_thread_resume_spec [OF kernel_okD(1) [OF ok] st]) (rule that, assumption+)
  have "timers_sorted (k_tick s) s'"
    by (rule timers_sorted_filter [OF kernel_okD(2) [OF ok] s'(7)]) (rule s'(10))
  then have "kernel_ok s'" using s'(2,3) by (simp add: kernel_ok_def objs_same_def)
  then have "woken s t s'" unfolding woken_def using s'(3-6) by (auto simp: wait_list_def)
  with s'(1) show thesis by (rule that)
qed

lemma wokenD:
  assumes "woken s t s'"
  shows "kernel_ok s'" "objs_same s s'" "k_cur s' = k_cur s"
    "k_thr s' = (k_thr s)(t := (k_thr s t)\<lparr>t_stat :=
       if k_cur s = Some t then RT_THREAD_RUNNING else RT_THREAD_READY\<rparr>)"
    "wait_list y \<Longrightarrow> k_q s' y = filter (\<lambda>x. x \<noteq> t) (k_q s y)"
  using assms unfolding woken_def by blast+

lemma rt_ipc_list_resume_spec:
  assumes ok: "kernel_ok s" and q: "wait_list q" and ne: "k_q s q = t # ts"
  obtains s' where "rt_ipc_list_resume q s = Some s'" "woken s t s'"
    "\<And>y. wait_list y \<Longrightarrow> k_q s' y = (if y = q then ts else k_q s y)"
proof -
  note inv = kernel_okD(1) [OF ok]
  note D = table_invD [OF kernel_invD(2) [OF inv]]
  have st: "th_stat s t = RT_THREAD_SUSPEND" using waiting_suspended [OF inv q] ne by simp
  obtain s' where s': "rt_thread_resume t s = Some (RT_EOK, s')" "woken s t s'"
    by (rule rt_thread_resume_ok [OF ok st])
  have "k_q s' y = (if y = q then ts else k_q s y)" if "wait_list y" for y
  proof (cases "y = q")
    case True
    then show ?thesis using wokenD(5) [OF s'(2) that] ne D(1) [of q] by (simp add: filter_neq_idle)
  next
    case False
    then have "t \<notin> set (k_q s y)" using D(2) [of t y q] ne by auto
    then show ?thesis using wokenD(5) [OF s'(2) that] False by (simp add: filter_neq_idle)
  qed
  then show thesis using s' ne by (intro that [of s']) (simp_all add: rt_ipc_list_resume_def)
qed

text \<open>Waking everybody ends, with the list empty and each waiter's error set.\<close>

definition drained :: "kstate \<Rightarrow> qid \<Rightarrow> kstate \<Rightarrow> bool" where
  "drained s q s' \<longleftrightarrow> kernel_ok s' \<and> objs_same s s' \<and> k_cur s' = k_cur s \<and>
     (\<forall>y. wait_list y \<longrightarrow> k_q s' y = (if y = q then [] else k_q s y)) \<and>
     (\<forall>u \<in> set (k_q s q). (th_stat s' u = RT_THREAD_READY \<or> th_stat s' u = RT_THREAD_RUNNING) \<and>
        t_error (k_thr s' u) = - RT_ERROR) \<and>
     (\<forall>u. u \<notin> set (k_q s q) \<longrightarrow> k_thr s' u = k_thr s u)"

lemma rt_ipc_list_resume_all_spec:
  assumes "kernel_ok s" and "wait_list q"
  shows "\<exists>s'. rt_ipc_list_resume_all q s = Some s' \<and> drained s q s'"
  using assms
proof (induction "k_q s q" arbitrary: s)
  case Nil
  then show ?case by (subst rt_ipc_list_resume_all.simps) (auto simp: drained_def)
next
  case (Cons t ts)
  let ?s0 = "upd_thr t (\<lambda>h. h\<lparr>t_error := - RT_ERROR\<rparr>) s"
  have ok0: "kernel_ok ?s0" using Cons.prems(1) kernel_ok_core [of ?s0 s] by (simp add: thr_core_def)
  note inv0 = kernel_okD(1) [OF ok0]
  note D = table_invD [OF kernel_invD(2) [OF inv0]]
  have st: "th_stat ?s0 t = RT_THREAD_SUSPEND"
    using waiting_suspended [OF inv0 Cons.prems(2), of t] Cons.hyps(2) [symmetric] by simp
  obtain s1 where s1: "rt_thread_resume t ?s0 = Some (RT_EOK, s1)" "woken ?s0 t s1"
    by (rule rt_thread_resume_ok [OF ok0 st])
  note W = wokenD [OF s1(2)]
  have q1: "k_q s1 y = (if y = q then ts else k_q s y)" if "wait_list y" for y
  proof (cases "y = q")
    case True
    then show ?thesis using W(5) [OF that] Cons.hyps(2) [symmetric] D(1) [of q] by (simp add: filter_neq_idle)
  next
    case False
    then have "t \<notin> set (k_q s y)" using D(2) [of t y q] Cons.hyps(2) [symmetric] by auto
    then show ?thesis using W(5) [OF that] False by (simp add: filter_neq_idle)
  qed
  have "ts = k_q s1 q" using q1 [OF Cons.prems(2)] by simp
  from Cons.hyps(1) [OF this W(1) Cons.prems(2)] obtain s' where
    s': "rt_ipc_list_resume_all q s1 = Some s'" "drained s1 q s'" by blast
  have nt: "t \<notin> set ts" using D(1) [of q] Cons.hyps(2) [symmetric] by simp
  have run: "rt_ipc_list_resume_all q s = Some s'"
    using Cons.hyps(2) [symmetric] s1(1) s'(1) by (subst rt_ipc_list_resume_all.simps) (simp del: upd_thr_sel)
  have t1: "k_thr s' t = k_thr s1 t" "t_error (k_thr s1 t) = - RT_ERROR"
    "th_stat s1 t = RT_THREAD_READY \<or> th_stat s1 t = RT_THREAD_RUNNING"
    using s'(2) nt q1 [OF Cons.prems(2)] by (simp_all add: drained_def W(4))
  have other: "k_thr s' u = k_thr s u" if "u \<noteq> t" "u \<notin> set ts" for u
  proof -
    have "k_thr s' u = k_thr s1 u" using s'(2) q1 [OF Cons.prems(2)] that by (simp add: drained_def)
    then show ?thesis using that by (simp add: W(4))
  qed
  have "drained s q s'"
    unfolding drained_def
  proof (intro conjI allI ballI impI)
    show "kernel_ok s'" "k_cur s' = k_cur s" using s'(2) W(3) by (simp_all add: drained_def)
    have "objs_same s1 s'" using s'(2) by (simp add: drained_def)
    then show "objs_same s s'" using W(2) by (simp add: objs_same_def)
    show "k_q s' y = (if y = q then [] else k_q s y)" if "wait_list y" for y
      using s'(2) q1 [OF that] that by (simp add: drained_def)
    show "k_thr s' u = k_thr s u" if "u \<notin> set (k_q s q)" for u
      using other that Cons.hyps(2) [symmetric] by simp
    fix u assume "u \<in> set (k_q s q)"
    then have "u = t \<or> u \<in> set (k_q s1 q)" using Cons.hyps(2) [symmetric] q1 [OF Cons.prems(2)] by auto
    then show "th_stat s' u = RT_THREAD_READY \<or> th_stat s' u = RT_THREAD_RUNNING"
      "t_error (k_thr s' u) = - RT_ERROR"
      using t1 s'(2) by (auto simp: drained_def)
  qed
  with run show ?case by blast
qed

text \<open>Waking the first waiter and calling the scheduler.\<close>

lemma wake_first:
  assumes ok: "kernel_ok s" and q: "wait_list q" and ne: "k_q s q = t # ts"
  obtains s2 s' where "rt_ipc_list_resume q s = Some s2" "rt_schedule s2 = Some s'" "kernel_ok s'"
    "objs_same s s'" "\<And>y. wait_list y \<Longrightarrow> k_q s' y = (if y = q then ts else k_q s y)"
    "th_stat s' t = RT_THREAD_READY \<or> th_stat s' t = RT_THREAD_RUNNING"
    "\<And>u. k_thr s' u = (k_thr s u)\<lparr>t_stat := th_stat s' u\<rparr>" "k_lock s = 0 \<Longrightarrow> best_runs s'"
proof -
  obtain s2 where s2: "rt_ipc_list_resume q s = Some s2" "woken s t s2"
    "\<And>y. wait_list y \<Longrightarrow> k_q s2 y = (if y = q then ts else k_q s y)"
    by (rule rt_ipc_list_resume_spec [OF ok q ne]) (rule that, assumption+)
  note W = wokenD [OF s2(2)]
  obtain s' where s': "rt_schedule s2 = Some s'" "kernel_inv s'" "sched_only s2 s'"
    "k_lock s2 = 0 \<and> runnable s2 \<Longrightarrow> best_runs s'"
    using rt_schedule_kernel [OF kernel_okD(1) [OF W(1)]] by blast
  note O = sched_onlyD [OF s'(3)]
  have st2: "th_stat s2 t = RT_THREAD_READY \<or> th_stat s2 t = RT_THREAD_RUNNING" by (simp add: W(4))
  have upd: "(k_thr s2 u)\<lparr>t_stat := x\<rparr> = (k_thr s u)\<lparr>t_stat := x\<rparr>" for u x by (simp add: W(4))
  show thesis
  proof (rule that [OF s2(1) s'(1)])
    show "kernel_ok s'" by (rule sched_only_kernel_ok [OF s'(2) kernel_okD(2) [OF W(1)] s'(3)])
    show "objs_same s s'" by (rule objs_same_trans [OF W(2) O(1)])
    show "k_q s' y = (if y = q then ts else k_q s y)" if "wait_list y" for y
      using that O(4,5) s2(3) [OF that] by (auto simp: wait_list_def)
    show "th_stat s' t = RT_THREAD_READY \<or> th_stat s' t = RT_THREAD_RUNNING"
      using s'(3) st2 unfolding sched_only_def by (metis insertE singletonD)
    show "k_thr s' u = (k_thr s u)\<lparr>t_stat := th_stat s' u\<rparr>" for u by (rule trans [OF O(7) upd])
    have "runnable s2" using st2 by (auto simp: runnable_def)
    then show "best_runs s'" if "k_lock s = 0" using s'(4) that W(2) by (simp add: objs_same_def)
  qed
qed

end
