(* ===== verification/Semaphore.thy ===== *)
theory Semaphore
  imports Ipc
begin

text \<open>
  Semaphores of src/ipc.c. \<open>rt_sem_take\<close> is split at its call of the scheduler: it returns, or
  it waits and \<open>rt_sem_take_wake\<close> gives the result once the caller runs again.
\<close>

section \<open>Operations\<close>

abbreviation semq :: "oid \<Rightarrow> qid" where "semq i \<equiv> SuspQ (ISem i)"

definition upd_sem :: "oid \<Rightarrow> (rt_semaphore \<Rightarrow> rt_semaphore) \<Rightarrow> kstate \<Rightarrow> kstate" where
  "upd_sem i f s = s\<lparr>k_sem := (k_sem s)(i := f (k_sem s i))\<rparr>"

text \<open>The value is given as 32 bits and stored in 16.\<close>

definition sem_setup :: "oid \<Rightarrow> u32 \<Rightarrow> nat \<Rightarrow> kstate \<Rightarrow> kstate" where
  "sem_setup i value flag s =
     upd_sem i (\<lambda>x. x\<lparr>sem_value := ucast value, sem_flag := flag\<rparr>) (s\<lparr>k_q := (k_q s)(semq i := [])\<rparr>)"

definition rt_sem_init :: "oid \<Rightarrow> u32 \<Rightarrow> nat \<Rightarrow> kstate \<Rightarrow> int \<times> kstate" where
  "rt_sem_init i value flag s = (RT_EOK, sem_setup i value flag s)"

definition rt_sem_detach :: "oid \<Rightarrow> kstate \<Rightarrow> (int \<times> kstate) option" where
  "rt_sem_detach i s = do { s1 \<leftarrow> rt_ipc_list_resume_all (semq i) s; Some (RT_EOK, s1) }"

definition rt_sem_create :: "oid option \<Rightarrow> u32 \<Rightarrow> nat \<Rightarrow> kstate \<Rightarrow> (oid option \<times> kstate) option" where
  "rt_sem_create obj value flag s =
     (if k_nest s \<noteq> 0 then None
      else case obj of None \<Rightarrow> Some (None, s) | Some i \<Rightarrow> Some (Some i, sem_setup i value flag s))"

definition rt_sem_delete :: "oid \<Rightarrow> kstate \<Rightarrow> (int \<times> kstate) option" where
  "rt_sem_delete i s =
     (if k_nest s \<noteq> 0 then None
      else do { s1 \<leftarrow> rt_ipc_list_resume_all (semq i) s; Some (RT_EOK, s1) })"

definition rt_sem_take :: "oid \<Rightarrow> int \<Rightarrow> kstate \<Rightarrow> (int, tid) outcome option" where
  "rt_sem_take i time s =
     (if 0 < sem_value (k_sem s i)
      then Some (Ret RT_EOK (upd_sem i (\<lambda>x. x\<lparr>sem_value := sem_value x - 1\<rparr>) s))
      else if time = 0 then Some (Ret (- RT_ETIMEOUT) s)
      else if \<not> in_thread_context s then None
      else do { t \<leftarrow> k_cur s;
                let s1 = upd_thr t (\<lambda>h. h\<lparr>t_error := RT_EOK\<rparr>) s;
                s2 \<leftarrow> ipc_block (semq i) t (sem_flag (k_sem s i)) time s1;
                Some (Wait t s2) })"

definition rt_sem_take_wake :: "tid \<Rightarrow> kstate \<Rightarrow> int" where
  "rt_sem_take_wake t s =
     (if t_error (k_thr s t) \<noteq> RT_EOK then t_error (k_thr s t) else RT_EOK)"

definition rt_sem_trytake :: "oid \<Rightarrow> kstate \<Rightarrow> (int, tid) outcome option" where
  "rt_sem_trytake i s = rt_sem_take i 0 s"

definition rt_sem_release :: "oid \<Rightarrow> kstate \<Rightarrow> (int \<times> kstate) option" where
  "rt_sem_release i s =
     do { (need_schedule, s1) \<leftarrow>
            (if k_q s (semq i) \<noteq> []
             then do { s1 \<leftarrow> rt_ipc_list_resume (semq i) s; Some (True, s1) }
             else Some (False, upd_sem i (\<lambda>x. x\<lparr>sem_value := sem_value x + 1\<rparr>) s));
          s2 \<leftarrow> (if need_schedule then rt_schedule s1 else Some s1);
          Some (RT_EOK, s2) }"

text \<open>The command RT_IPC_CMD_RESET carries the new value; other commands fail.\<close>

definition rt_sem_control :: "oid \<Rightarrow> u32 option \<Rightarrow> kstate \<Rightarrow> (int \<times> kstate) option" where
  "rt_sem_control i reset s =
     (case reset of
        Some value \<Rightarrow>
          do { s1 \<leftarrow> rt_ipc_list_resume_all (semq i) s;
               s2 \<leftarrow> rt_schedule (upd_sem i (\<lambda>x. x\<lparr>sem_value := ucast value\<rparr>) s1);
               Some (RT_EOK, s2) }
      | None \<Rightarrow> Some (- RT_ERROR, s))"

lemma upd_sem_sel [simp]:
  "k_sem (upd_sem i f s) = (k_sem s)(i := f (k_sem s i))" "k_thr (upd_sem i f s) = k_thr s"
  "k_q (upd_sem i f s) = k_q s" "k_group (upd_sem i f s) = k_group s" "k_cur (upd_sem i f s) = k_cur s"
  "k_cur_prio (upd_sem i f s) = k_cur_prio s" "k_lock (upd_sem i f s) = k_lock s"
  "k_nest (upd_sem i f s) = k_nest s" "k_tick (upd_sem i f s) = k_tick s"
  "k_tmr (upd_sem i f s) = k_tmr s" "k_tlist (upd_sem i f s) = k_tlist s"
  "k_mtx (upd_sem i f s) = k_mtx s" "k_ev (upd_sem i f s) = k_ev s"
  "k_mb (upd_sem i f s) = k_mb s" "k_mq (upd_sem i f s) = k_mq s"
  by (simp_all add: upd_sem_def)

section \<open>Correctness\<close>

text \<open>Nobody waits while there is something to take.\<close>

definition sem_inv :: "oid \<Rightarrow> kstate \<Rightarrow> bool" where
  "sem_inv i s \<longleftrightarrow> wait_flag (sem_flag (k_sem s i)) \<and>
     (k_q s (semq i) \<noteq> [] \<longrightarrow> sem_value (k_sem s i) = 0)"

lemma wait_list_semq [simp]: "wait_list (semq i)"
  by (simp add: wait_list_def)

lemma kernel_ok_upd_sem [simp]: "kernel_ok (upd_sem i f s) \<longleftrightarrow> kernel_ok s"
  by (rule kernel_ok_core) simp_all

lemma rt_sem_take_immediate:
  assumes "0 < sem_value (k_sem s i)"
  shows "rt_sem_take i time s = Some (Ret RT_EOK (upd_sem i (\<lambda>x. x\<lparr>sem_value := sem_value x - 1\<rparr>) s))"
  using assms by (simp add: rt_sem_take_def)

lemma rt_sem_take_inv:
  assumes ok: "kernel_ok s" and inv: "sem_inv i s" and v: "0 < sem_value (k_sem s i)"
    and run: "rt_sem_take i time s = Some (Ret r s')"
  shows "r = RT_EOK \<and> kernel_ok s' \<and> sem_inv i s' \<and>
    unat (sem_value (k_sem s' i)) = unat (sem_value (k_sem s i)) - 1"
proof -
  have s': "r = RT_EOK" "s' = upd_sem i (\<lambda>x. x\<lparr>sem_value := sem_value x - 1\<rparr>) s"
    using run rt_sem_take_immediate [OF v, of time] by simp_all
  have "unat (sem_value (k_sem s i) - 1) = unat (sem_value (k_sem s i)) - 1"
    using v by (intro unat_minus_one) auto
  moreover have "k_q s (semq i) = []" using inv v by (auto simp: sem_inv_def)
  ultimately show ?thesis using ok inv by (simp add: s' sem_inv_def)
qed

lemma rt_sem_take_blocks:
  assumes ok: "kernel_ok s" and inv: "sem_inv i s" and v: "sem_value (k_sem s i) = 0"
    and cur: "k_cur s = Some t" and run: "th_stat s t = RT_THREAD_RUNNING" and isr: "k_nest s = 0"
    and time: "time \<noteq> 0" "time < 0x7fffffff"
  shows "\<exists>s'. rt_sem_take i time s = Some (Wait t s') \<and> sem_inv i s' \<and>
    blocked (upd_thr t (\<lambda>h. h\<lparr>t_error := RT_EOK\<rparr>) s) (semq i) t (sem_flag (k_sem s i)) time s'"
proof -
  let ?s1 = "upd_thr t (\<lambda>h. h\<lparr>t_error := RT_EOK\<rparr>) s"
  have ok1: "kernel_ok ?s1" using ok kernel_ok_core [of ?s1 s] by (simp add: thr_core_def)
  have run1: "th_stat ?s1 t = RT_THREAD_RUNNING" using run by simp
  have fl: "wait_flag (sem_flag (k_sem s i))" using inv by (simp add: sem_inv_def)
  obtain s' where s': "ipc_block (semq i) t (sem_flag (k_sem s i)) time ?s1 = Some s'"
    "blocked ?s1 (semq i) t (sem_flag (k_sem s i)) time s'"
    by (rule ipc_block_spec [OF ok1 run1 wait_list_semq fl time(2)])
  have "k_sem s' = k_sem s" using blockedD(2) [OF s'(2)] by (simp add: objs_same_def)
  then have "sem_inv i s'" using fl v by (simp add: sem_inv_def)
  moreover have "rt_sem_take i time s = Some (Wait t s')"
    using v time(1) cur isr s'(1) by (simp add: rt_sem_take_def in_thread_context_def del: upd_thr_sel)
  ultimately show ?thesis using s'(2) by blast
qed

text \<open>
  Releasing hands the unit to the first waiter, with the value untouched, or counts it. The
  woken thread is ready, and where it is the better one it runs.
\<close>

lemma rt_sem_release_spec:
  assumes ok: "kernel_ok s" and inv: "sem_inv i s"
  obtains s' where "rt_sem_release i s = Some (RT_EOK, s')" "kernel_ok s'" "sem_inv i s'"
    "\<And>t ts. k_q s (semq i) = t # ts \<Longrightarrow> k_q s' (semq i) = ts \<and> sem_value (k_sem s' i) = 0 \<and>
       (th_stat s' t = RT_THREAD_READY \<or> th_stat s' t = RT_THREAD_RUNNING) \<and>
       t_error (k_thr s' t) = t_error (k_thr s t) \<and> (k_lock s = 0 \<longrightarrow> best_runs s')"
    "k_q s (semq i) = [] \<Longrightarrow> k_q s' (semq i) = [] \<and> sem_value (k_sem s' i) = sem_value (k_sem s i) + 1"
proof (cases "k_q s (semq i)")
  case Nil
  let ?s' = "upd_sem i (\<lambda>x. x\<lparr>sem_value := sem_value x + 1\<rparr>) s"
  show thesis
    by (rule that [of ?s']) (use Nil ok inv in \<open>simp_all add: rt_sem_release_def sem_inv_def\<close>)
next
  case (Cons t ts)
  obtain s1 where s1: "rt_ipc_list_resume (semq i) s = Some s1" "woken s t s1"
    "\<And>y. wait_list y \<Longrightarrow> k_q s1 y = (if y = semq i then ts else k_q s y)"
    by (rule rt_ipc_list_resume_spec [OF ok wait_list_semq Cons]) (rule that, assumption+)
  note W = wokenD [OF s1(2)]
  obtain s' where s': "rt_schedule s1 = Some s'" "kernel_inv s'" "sched_only s1 s'"
    "k_lock s1 = 0 \<and> runnable s1 \<Longrightarrow> best_runs s'"
    using rt_schedule_kernel [OF kernel_okD(1) [OF W(1)]] by blast
  note O = sched_onlyD [OF s'(3)]
  have st1: "th_stat s1 t = RT_THREAD_READY \<or> th_stat s1 t = RT_THREAD_RUNNING" by (simp add: W(4))
  have st': "th_stat s' t = RT_THREAD_READY \<or> th_stat s' t = RT_THREAD_RUNNING"
    using s'(3) st1 unfolding sched_only_def by (metis insertE singletonD)
  have sem: "k_sem s' = k_sem s" and lock: "k_lock s1 = k_lock s"
    using O(1) W(2) by (simp_all add: objs_same_def)
  have q: "k_q s' (semq i) = ts" using O(4) s1(3) [of "semq i"] by simp
  have v: "sem_value (k_sem s i) = 0" using inv Cons by (simp add: sem_inv_def)
  have err: "t_error (k_thr s' t) = t_error (k_thr s t)"
    using sched_only_fields(1) [OF s'(3), of t] by (simp add: W(4))
  have "runnable s1" using st1 by (auto simp: runnable_def)
  then have best: "k_lock s = 0 \<longrightarrow> best_runs s'" using s'(4) lock by simp
  show thesis
  proof (rule that [of s'])
    show "rt_sem_release i s = Some (RT_EOK, s')" using Cons s1(1) s'(1) by (simp add: rt_sem_release_def)
    show "kernel_ok s'" by (rule sched_only_kernel_ok [OF s'(2) kernel_okD(2) [OF W(1)] s'(3)])
    show "sem_inv i s'" using inv v by (simp add: sem_inv_def sem)
  qed (use Cons q v sem st' err best in auto)
qed

lemma rt_sem_detach_spec:
  assumes "kernel_ok s"
  shows "\<exists>s'. rt_sem_detach i s = Some (RT_EOK, s') \<and> drained s (semq i) s'"
  using rt_ipc_list_resume_all_spec [OF assms wait_list_semq [of i]]
  by (auto simp: rt_sem_detach_def)

lemma rt_sem_control_spec:
  assumes ok: "kernel_ok s" and inv: "sem_inv i s"
  shows "\<exists>s'. rt_sem_control i (Some value) s = Some (RT_EOK, s') \<and> kernel_ok s' \<and> sem_inv i s' \<and>
    k_q s' (semq i) = [] \<and> sem_value (k_sem s' i) = ucast value"
proof -
  obtain s1 where s1: "rt_ipc_list_resume_all (semq i) s = Some s1" "drained s (semq i) s1"
    using rt_ipc_list_resume_all_spec [OF ok wait_list_semq] by blast
  let ?s2 = "upd_sem i (\<lambda>x. x\<lparr>sem_value := ucast value\<rparr>) s1"
  have ok2: "kernel_ok ?s2" using s1(2) by (simp add: drained_def)
  obtain s' where s': "rt_schedule ?s2 = Some s'" "kernel_inv s'" "sched_only ?s2 s'"
    by (rule rt_schedule_kernel [OF kernel_okD(1) [OF ok2]])
  note O = sched_onlyD [OF s'(3)]
  have sem: "k_sem s' = k_sem ?s2" "k_sem s1 = k_sem s"
    using O(1) s1(2) by (simp_all add: objs_same_def drained_def)
  have q: "k_q s' (semq i) = []" using O(4) s1(2) by (simp add: drained_def)
  have "sem_inv i s'" using inv sem q by (simp add: sem_inv_def)
  moreover have "kernel_ok s'" by (rule sched_only_kernel_ok [OF s'(2) kernel_okD(2) [OF ok2] s'(3)])
  ultimately show ?thesis using s1(1) s'(1) sem q by (simp add: rt_sem_control_def)
qed

end
