(* ===== verification/Mutex.thy ===== *)
theory Mutex
  imports Ipc
begin

text \<open>
  Mutexes of src/ipc.c: ownership, recursion, priority inheritance. \<open>mutex_again\<close> is the code
  from the label \<open>__again\<close> on, up to the call of the scheduler.
\<close>

section \<open>Operations\<close>

abbreviation mtxq :: "oid \<Rightarrow> qid" where "mtxq i \<equiv> SuspQ (IMtx i)"

definition upd_mtx :: "oid \<Rightarrow> (rt_mutex \<Rightarrow> rt_mutex) \<Rightarrow> kstate \<Rightarrow> kstate" where
  "upd_mtx i f s = s\<lparr>k_mtx := (k_mtx s)(i := f (k_mtx s i))\<rparr>"

definition mutex_setup :: "oid \<Rightarrow> nat \<Rightarrow> kstate \<Rightarrow> kstate" where
  "mutex_setup i flag s =
     upd_mtx i (\<lambda>m. m\<lparr>mtx_value := 1, mtx_owner := None, mtx_original_priority := 0xFF,
                      mtx_hold := 0, mtx_flag := flag\<rparr>) (s\<lparr>k_q := (k_q s)(mtxq i := [])\<rparr>)"

definition rt_mutex_init :: "oid \<Rightarrow> nat \<Rightarrow> kstate \<Rightarrow> int \<times> kstate" where
  "rt_mutex_init i flag s = (RT_EOK, mutex_setup i flag s)"

definition rt_mutex_detach :: "oid \<Rightarrow> kstate \<Rightarrow> (int \<times> kstate) option" where
  "rt_mutex_detach i s = do { s1 \<leftarrow> rt_ipc_list_resume_all (mtxq i) s; Some (RT_EOK, s1) }"

definition rt_mutex_create :: "oid option \<Rightarrow> nat \<Rightarrow> kstate \<Rightarrow> (oid option \<times> kstate) option" where
  "rt_mutex_create obj flag s =
     (if k_nest s \<noteq> 0 then None
      else case obj of None \<Rightarrow> Some (None, s) | Some i \<Rightarrow> Some (Some i, mutex_setup i flag s))"

definition rt_mutex_delete :: "oid \<Rightarrow> kstate \<Rightarrow> (int \<times> kstate) option" where
  "rt_mutex_delete i s =
     (if k_nest s \<noteq> 0 then None
      else do { s1 \<leftarrow> rt_ipc_list_resume_all (mtxq i) s; Some (RT_EOK, s1) })"

definition mutex_again :: "oid \<Rightarrow> tid \<Rightarrow> int \<Rightarrow> kstate \<Rightarrow> (int, tid) outcome option" where
  "mutex_again i t time s =
     (let m = k_mtx s i in
      if 0 < mtx_value m
      then Some (Ret RT_EOK (upd_mtx i (\<lambda>m. m\<lparr>mtx_value := mtx_value m - 1, mtx_owner := Some t,
                    mtx_original_priority := th_prio s t, mtx_hold := mtx_hold m + 1\<rparr>) s))
      else if time = 0
      then Some (Ret (- RT_ETIMEOUT) (upd_thr t (\<lambda>h. h\<lparr>t_error := - RT_ETIMEOUT\<rparr>) s))
      else do {
        ow \<leftarrow> mtx_owner m;
        s1 \<leftarrow> (if th_prio s t < th_prio s ow
              then map_option snd (rt_thread_control ow (RT_THREAD_CTRL_CHANGE_PRIORITY (th_prio s t)) s)
              else Some s);
        s2 \<leftarrow> ipc_block (mtxq i) t (mtx_flag m) time s1;
        Some (Wait t s2) })"

definition rt_mutex_take :: "oid \<Rightarrow> int \<Rightarrow> kstate \<Rightarrow> (int, tid) outcome option" where
  "rt_mutex_take i time s =
     (if \<not> in_thread_context s then None
      else do { t \<leftarrow> k_cur s;
                let s1 = upd_thr t (\<lambda>h. h\<lparr>t_error := RT_EOK\<rparr>) s;
                (if mtx_owner (k_mtx s1 i) = Some t
                 then Some (Ret RT_EOK (upd_mtx i (\<lambda>m. m\<lparr>mtx_hold := mtx_hold m + 1\<rparr>) s1))
                 else mutex_again i t time s1) })"

definition rt_mutex_take_wake :: "oid \<Rightarrow> tid \<Rightarrow> int \<Rightarrow> kstate \<Rightarrow> (int, tid) outcome option" where
  "rt_mutex_take_wake i t time s =
     (if t_error (k_thr s t) \<noteq> RT_EOK
      then if t_error (k_thr s t) = - RT_EINTR then mutex_again i t time s
           else Some (Ret (t_error (k_thr s t)) s)
      else Some (Ret RT_EOK s))"

definition rt_mutex_release :: "oid \<Rightarrow> kstate \<Rightarrow> (int \<times> kstate) option" where
  "rt_mutex_release i s =
     (if \<not> in_thread_context s then None
      else do {
        t \<leftarrow> k_cur s;
        (if mtx_owner (k_mtx s i) \<noteq> Some t
         then Some (- RT_ERROR, upd_thr t (\<lambda>h. h\<lparr>t_error := - RT_ERROR\<rparr>) s)
         else do {
           let s1 = upd_mtx i (\<lambda>m. m\<lparr>mtx_hold := mtx_hold m - 1\<rparr>) s;
           let orig = mtx_original_priority (k_mtx s1 i);
           (if mtx_hold (k_mtx s1 i) = 0
            then do {
              s2 \<leftarrow> (if orig \<noteq> th_prio s1 t
                    then map_option snd (rt_thread_control t (RT_THREAD_CTRL_CHANGE_PRIORITY orig) s1)
                    else Some s1);
              (case k_q s2 (mtxq i) of
                 w # _ \<Rightarrow>
                   do { s3 \<leftarrow> rt_ipc_list_resume (mtxq i)
                               (upd_mtx i (\<lambda>m. m\<lparr>mtx_owner := Some w,
                                  mtx_original_priority := th_prio s2 w, mtx_hold := mtx_hold m + 1\<rparr>) s2);
                        s4 \<leftarrow> rt_schedule s3;
                        Some (RT_EOK, s4) }
               | [] \<Rightarrow> Some (RT_EOK, upd_mtx i (\<lambda>m. m\<lparr>mtx_value := mtx_value m + 1,
                          mtx_owner := None, mtx_original_priority := 0xff\<rparr>) s2)) }
            else Some (RT_EOK, s1)) }) })"

definition rt_mutex_control :: "oid \<Rightarrow> kstate \<Rightarrow> int \<times> kstate" where
  "rt_mutex_control i s = (- RT_ERROR, s)"

lemma upd_mtx_sel [simp]:
  "k_mtx (upd_mtx i f s) = (k_mtx s)(i := f (k_mtx s i))" "k_thr (upd_mtx i f s) = k_thr s"
  "k_q (upd_mtx i f s) = k_q s" "k_group (upd_mtx i f s) = k_group s" "k_cur (upd_mtx i f s) = k_cur s"
  "k_cur_prio (upd_mtx i f s) = k_cur_prio s" "k_lock (upd_mtx i f s) = k_lock s"
  "k_nest (upd_mtx i f s) = k_nest s" "k_tick (upd_mtx i f s) = k_tick s"
  "k_tmr (upd_mtx i f s) = k_tmr s" "k_tlist (upd_mtx i f s) = k_tlist s"
  "k_sem (upd_mtx i f s) = k_sem s" "k_ev (upd_mtx i f s) = k_ev s"
  "k_mb (upd_mtx i f s) = k_mb s" "k_mq (upd_mtx i f s) = k_mq s"
  by (simp_all add: upd_mtx_def)

section \<open>Correctness\<close>

text \<open>
  A free mutex has value 1 and no waiters; a held one has value 0, a positive depth and a live
  owner, who is not among the waiters.
\<close>

definition mutex_inv :: "oid \<Rightarrow> kstate \<Rightarrow> bool" where
  "mutex_inv i s \<longleftrightarrow> wait_flag (mtx_flag (k_mtx s i)) \<and>
     (case mtx_owner (k_mtx s i) of
        None \<Rightarrow> mtx_value (k_mtx s i) = 1 \<and> mtx_hold (k_mtx s i) = 0 \<and> k_q s (mtxq i) = []
      | Some ow \<Rightarrow> mtx_value (k_mtx s i) = 0 \<and> 0 < mtx_hold (k_mtx s i) \<and> live s ow \<and>
          mtx_original_priority (k_mtx s i) < RT_THREAD_PRIORITY_MAX \<and> ow \<notin> set (k_q s (mtxq i)))"

lemma mutex_inv_cong:
  assumes "k_mtx s' i = k_mtx s i" "k_q s' (mtxq i) = k_q s (mtxq i)" "\<And>u. live s' u = live s u"
  shows "mutex_inv i s' \<longleftrightarrow> mutex_inv i s"
  using assms by (simp add: mutex_inv_def split: option.split)

lemma wait_list_mtxq [simp]: "wait_list (mtxq i)"
  by (simp add: wait_list_def)

lemma kernel_ok_upd_mtx [simp]: "kernel_ok (upd_mtx i f s) \<longleftrightarrow> kernel_ok s"
  by (rule kernel_ok_core) simp_all

lemma kernel_ok_error [simp]: "kernel_ok (upd_thr t (\<lambda>h. h\<lparr>t_error := e\<rparr>) s) \<longleftrightarrow> kernel_ok s"
  by (rule kernel_ok_core) (simp_all add: thr_core_def)

lemma live_prio: "kernel_ok s \<Longrightarrow> live s t \<Longrightarrow> th_prio s t < RT_THREAD_PRIORITY_MAX"
  using table_invD(7,8,9) [OF kernel_invD(2) [OF kernel_okD(1)], of s t]
  by (auto simp: live_def started_def)

lemma change_priority_ok:
  assumes ok: "kernel_ok s" and lv: "live s t" and p: "p < RT_THREAD_PRIORITY_MAX"
  obtains s' where "rt_thread_control t (RT_THREAD_CTRL_CHANGE_PRIORITY p) s = Some (RT_EOK, s')"
    "kernel_ok s'" "objs_same s s'" "k_thr s' = (k_thr s)(t := set_priority p (k_thr s t))"
    "k_cur s' = k_cur s" "\<And>q. wait_list q \<Longrightarrow> k_q s' q = k_q s q"
proof -
  note inv = kernel_okD(1) [OF ok]
  have att: "t_attached (k_thr s t)" by (rule thr_invD(1) [OF kernel_invD(5) [OF inv] lv])
  obtain s' where s': "rt_thread_control t (RT_THREAD_CTRL_CHANGE_PRIORITY p) s = Some (RT_EOK, s')"
    "kernel_inv s'" "objs_same s s'" "k_thr s' = (k_thr s)(t := set_priority p (k_thr s t))"
    "k_cur s' = k_cur s" "k_tmr s' = k_tmr s" "k_tlist s' = k_tlist s"
    "\<And>q. \<forall>p. q \<noteq> ReadyQ p \<Longrightarrow> k_q s' q = k_q s q"
    by (rule change_priority_spec [OF inv att p]) (rule that, assumption+)
  have "kernel_ok s'"
    using s'(2,3) kernel_okD(2) [OF ok] timers_sorted_cong [OF s'(7,6)] by (simp add: kernel_ok_def objs_same_def)
  then show thesis using s' by (intro that [of s']) (auto simp: wait_list_def)
qed

text \<open>Taking: a free mutex is owned at depth one; its owner goes one level deeper.\<close>

lemma rt_mutex_take_free:
  assumes ok: "kernel_ok s" and inv: "mutex_inv i s" and cur: "k_cur s = Some t" and lv: "live s t"
    and isr: "k_nest s = 0" and free: "mtx_owner (k_mtx s i) = None"
  shows "\<exists>s'. rt_mutex_take i time s = Some (Ret RT_EOK s') \<and> kernel_ok s' \<and> mutex_inv i s' \<and>
    mtx_owner (k_mtx s' i) = Some t \<and> mtx_hold (k_mtx s' i) = 1 \<and>
    mtx_original_priority (k_mtx s' i) = th_prio s t \<and>
    s' = upd_mtx i (\<lambda>_. k_mtx s' i) (upd_thr t (\<lambda>h. h\<lparr>t_error := RT_EOK\<rparr>) s)"
  using assms live_prio [OF ok lv]
  by (auto simp: rt_mutex_take_def mutex_again_def in_thread_context_def mutex_inv_def Let_def live_def)

lemma rt_mutex_take_again:
  assumes ok: "kernel_ok s" and inv: "mutex_inv i s" and cur: "k_cur s = Some t"
    and isr: "k_nest s = 0" and own: "mtx_owner (k_mtx s i) = Some t" and deep: "mtx_hold (k_mtx s i) < 255"
  shows "\<exists>s'. rt_mutex_take i time s = Some (Ret RT_EOK s') \<and> kernel_ok s' \<and> mutex_inv i s' \<and>
    mtx_owner (k_mtx s' i) = Some t \<and> unat (mtx_hold (k_mtx s' i)) = unat (mtx_hold (k_mtx s i)) + 1"
proof -
  have u: "unat (mtx_hold (k_mtx s i) + 1) = unat (mtx_hold (k_mtx s i)) + 1"
    using deep by (simp add: unat_plus_simple [THEN iffD1] word_less_nat_alt word_le_nat_alt unat_word_ariths)
  then have "0 < mtx_hold (k_mtx s i) + 1" by (simp add: word_less_nat_alt)
  then show ?thesis using assms u
    by (auto simp: rt_mutex_take_def in_thread_context_def mutex_inv_def live_def)
qed

text \<open>The owner runs at least at the priority of everybody it makes wait.\<close>

definition inherits :: "oid \<Rightarrow> kstate \<Rightarrow> bool" where
  "inherits i s \<longleftrightarrow> (\<forall>ow. mtx_owner (k_mtx s i) = Some ow \<longrightarrow>
     (\<forall>w \<in> set (k_q s (mtxq i)). th_prio s ow \<le> th_prio s w))"

text \<open>Waiting for a mutex raises its owner to the waiter's priority.\<close>

lemma rt_mutex_take_blocks:
  assumes ok: "kernel_ok s" and inv: "mutex_inv i s" and cur: "k_cur s = Some t"
    and run: "th_stat s t = RT_THREAD_RUNNING" and isr: "k_nest s = 0"
    and own: "mtx_owner (k_mtx s i) = Some ow" "ow \<noteq> t" and time: "time \<noteq> 0" "time < 0x7fffffff"
  shows "\<exists>s'. rt_mutex_take i time s = Some (Wait t s') \<and> kernel_ok s' \<and> mutex_inv i s' \<and>
    k_mtx s' = k_mtx s \<and> th_stat s' t = RT_THREAD_SUSPEND \<and>
    k_q s' (mtxq i) = waiters_with s t (mtx_flag (k_mtx s i)) (k_q s (mtxq i)) \<and>
    th_prio s' ow = min (th_prio s t) (th_prio s ow) \<and>
    (\<forall>u. u \<noteq> ow \<longrightarrow> th_prio s' u = th_prio s u) \<and> (inherits i s \<longrightarrow> inherits i s')"
proof -
  let ?s0 = "upd_thr t (\<lambda>h. h\<lparr>t_error := RT_EOK\<rparr>) s"
  have ok0: "kernel_ok ?s0" using ok by simp
  have I: "mtx_value (k_mtx s i) = 0" "live s ow" "ow \<notin> set (k_q s (mtxq i))"
    "wait_flag (mtx_flag (k_mtx s i))" "0 < mtx_hold (k_mtx s i)"
    "mtx_original_priority (k_mtx s i) < RT_THREAD_PRIORITY_MAX"
    using inv own(1) by (simp_all add: mutex_inv_def)
  have lv0: "live ?s0 ow" using I(2) by (auto simp: live_def)
  have pt: "th_prio ?s0 t < RT_THREAD_PRIORITY_MAX" using live_prio [OF ok, of t] run by simp
  obtain s1 where s1: "(if th_prio ?s0 t < th_prio ?s0 ow
      then map_option snd (rt_thread_control ow (RT_THREAD_CTRL_CHANGE_PRIORITY (th_prio ?s0 t)) ?s0)
      else Some ?s0) = Some s1" "kernel_ok s1" "objs_same s s1" "k_cur s1 = Some t"
    "\<And>q. wait_list q \<Longrightarrow> k_q s1 q = k_q s q" "\<And>u. th_stat s1 u = th_stat s u"
    "\<And>u. th_prio s1 u = (if u = ow then min (th_prio s t) (th_prio s ow) else th_prio s u)"
  proof (cases "th_prio ?s0 t < th_prio ?s0 ow")
    case True
    obtain s1 where a: "rt_thread_control ow (RT_THREAD_CTRL_CHANGE_PRIORITY (th_prio ?s0 t)) ?s0 = Some (RT_EOK, s1)"
      "kernel_ok s1" "objs_same ?s0 s1" "k_thr s1 = (k_thr ?s0)(ow := set_priority (th_prio ?s0 t) (k_thr ?s0 ow))"
      "k_cur s1 = k_cur ?s0" "\<And>q. wait_list q \<Longrightarrow> k_q s1 q = k_q ?s0 q"
      by (rule change_priority_ok [OF ok0 lv0 pt]) (rule that, assumption+)
    show thesis
      by (rule that [of s1])
        (use True a(1-3,5,6) cur own(2) in \<open>auto simp: a(4) objs_same_def simp del: upd_thr_sel\<close>, simp_all)
  next
    case False
    show thesis
      by (rule that [of ?s0]) (use False ok0 cur in \<open>auto simp: objs_same_def\<close>)
  qed
  have mtx1: "k_mtx s1 = k_mtx s" using s1(3) by (simp add: objs_same_def)
  have run1: "th_stat s1 t = RT_THREAD_RUNNING" using run by (simp add: s1(6))
  obtain s' where s': "ipc_block (mtxq i) t (mtx_flag (k_mtx s i)) time s1 = Some s'"
    "blocked s1 (mtxq i) t (mtx_flag (k_mtx s i)) time s'"
    by (rule ipc_block_spec [OF s1(2) run1 wait_list_mtxq I(4) time(2)])
  note B = blockedD [OF s'(2)]
  have take: "rt_mutex_take i time s = Some (Wait t s')"
    using cur isr own I(1) time(1) s1(1) s'(1)
    by (simp add: rt_mutex_take_def mutex_again_def in_thread_context_def Let_def del: upd_thr_sel(1))
  have mtx': "k_mtx s' = k_mtx s" using B(2) mtx1 by (simp add: objs_same_def)
  have pr: "th_prio s' u = th_prio s1 u" for u using B(5) [of u] by (rule rt_thread_fields(2))
  have q': "k_q s' (mtxq i) = waiters_with s t (mtx_flag (k_mtx s i)) (k_q s (mtxq i))"
  proof -
    have "waiters_with s1 t (mtx_flag (k_mtx s i)) (k_q s (mtxq i)) =
        waiters_with s t (mtx_flag (k_mtx s i)) (k_q s (mtxq i))"
      by (rule waiters_with_cong) (use I(3) own(2) s1(7) in auto)
    then show ?thesis using B(4) [of "mtxq i"] s1(5) [of "mtxq i"] by simp
  qed
  have lv: "live s' ow" using B(6) [of ow] I(2) s1(6) own(2) by (auto simp: live_def)
  have "mutex_inv i s'"
    using I own lv q' by (simp add: mutex_inv_def mtx')
  moreover have "inherits i s'" if "inherits i s"
    using that own q' by (auto simp: inherits_def mtx' pr s1(7))
  ultimately show ?thesis
    using take B(1,3) mtx' q' own(2) by (auto simp: pr s1(7))
qed

text \<open>Releasing: only the owner may; an inner release only counts down.\<close>

lemma rt_mutex_release_not_owner:
  assumes "k_cur s = Some t" "k_nest s = 0" "mtx_owner (k_mtx s i) \<noteq> Some t"
  shows "rt_mutex_release i s = Some (- RT_ERROR, upd_thr t (\<lambda>h. h\<lparr>t_error := - RT_ERROR\<rparr>) s)"
  using assms by (simp add: rt_mutex_release_def in_thread_context_def)

lemma hold_minus:
  fixes h :: u8
  assumes "1 < h" shows "h - 1 \<noteq> 0" "unat (h - 1) = unat h - 1"
proof -
  show "unat (h - 1) = unat h - 1"
    using assms by (intro unat_minus_one) auto
  show "h - 1 \<noteq> 0" using assms by auto
qed

lemma rt_mutex_release_nested:
  assumes ok: "kernel_ok s" and inv: "mutex_inv i s" and cur: "k_cur s = Some t" and isr: "k_nest s = 0"
    and own: "mtx_owner (k_mtx s i) = Some t" and deep: "1 < mtx_hold (k_mtx s i)"
  shows "\<exists>s'. rt_mutex_release i s = Some (RT_EOK, s') \<and> kernel_ok s' \<and> mutex_inv i s' \<and>
    mtx_owner (k_mtx s' i) = Some t \<and> unat (mtx_hold (k_mtx s' i)) = unat (mtx_hold (k_mtx s i)) - 1"
proof -
  note H = hold_minus [OF deep]
  have "0 < mtx_hold (k_mtx s i) - 1" using H(1) unfolding word_neq_0_conv .
  then show ?thesis using assms H
    by (auto simp: rt_mutex_release_def in_thread_context_def mutex_inv_def live_def Let_def)
qed

text \<open>
  The last release gives the priority of before the take back and passes the mutex to the
  first waiter, or frees it.
\<close>

lemma rt_mutex_release_last:
  assumes ok: "kernel_ok s" and inv: "mutex_inv i s" and cur: "k_cur s = Some t" and isr: "k_nest s = 0"
    and own: "mtx_owner (k_mtx s i) = Some t" and one: "mtx_hold (k_mtx s i) = 1"
  shows "\<exists>s'. rt_mutex_release i s = Some (RT_EOK, s') \<and> kernel_ok s' \<and> mutex_inv i s' \<and>
    th_prio s' t = mtx_original_priority (k_mtx s i) \<and> (\<forall>u. u \<noteq> t \<longrightarrow> th_prio s' u = th_prio s u) \<and>
    (case k_q s (mtxq i) of
       [] \<Rightarrow> mtx_owner (k_mtx s' i) = None \<and> (\<forall>j. j \<noteq> i \<longrightarrow> k_mtx s' j = k_mtx s j) \<and>
         k_cur s' = k_cur s \<and> k_nest s' = k_nest s \<and> (\<forall>u. live s' u = live s u) \<and>
         (\<forall>q. wait_list q \<longrightarrow> k_q s' q = k_q s q)
     | w # ws \<Rightarrow> mtx_owner (k_mtx s' i) = Some w \<and> mtx_hold (k_mtx s' i) = 1 \<and>
         mtx_original_priority (k_mtx s' i) = th_prio s w \<and> k_q s' (mtxq i) = ws \<and>
         (th_stat s' w = RT_THREAD_READY \<or> th_stat s' w = RT_THREAD_RUNNING) \<and>
         (k_lock s = 0 \<longrightarrow> best_runs s'))"
proof -
  let ?s1 = "upd_mtx i (\<lambda>m. m\<lparr>mtx_hold := mtx_hold m - 1\<rparr>) s"
  let ?orig = "mtx_original_priority (k_mtx s i)"
  have I: "mtx_value (k_mtx s i) = 0" "live s t" "t \<notin> set (k_q s (mtxq i))"
    "wait_flag (mtx_flag (k_mtx s i))" "?orig < RT_THREAD_PRIORITY_MAX"
    using inv own by (simp_all add: mutex_inv_def)
  have ok1: "kernel_ok ?s1" using ok by simp
  have lv1: "live ?s1 t" using I(2) by (simp add: live_def)
  obtain s2 where s2: "(if ?orig \<noteq> th_prio ?s1 t
      then map_option snd (rt_thread_control t (RT_THREAD_CTRL_CHANGE_PRIORITY ?orig) ?s1)
      else Some ?s1) = Some s2" "kernel_ok s2" "objs_same ?s1 s2" "k_cur s2 = k_cur s"
    "\<And>q. wait_list q \<Longrightarrow> k_q s2 q = k_q s q" "\<And>u. th_stat s2 u = th_stat s u"
    "\<And>u. th_prio s2 u = (if u = t then ?orig else th_prio s u)"
  proof (cases "?orig \<noteq> th_prio ?s1 t")
    case True
    obtain s2 where a: "rt_thread_control t (RT_THREAD_CTRL_CHANGE_PRIORITY ?orig) ?s1 = Some (RT_EOK, s2)"
      "kernel_ok s2" "objs_same ?s1 s2" "k_thr s2 = (k_thr ?s1)(t := set_priority ?orig (k_thr ?s1 t))"
      "k_cur s2 = k_cur ?s1" "\<And>q. wait_list q \<Longrightarrow> k_q s2 q = k_q ?s1 q"
      by (rule change_priority_ok [OF ok1 lv1 I(5)]) (rule that, assumption+)
    show thesis by (rule that [of s2]) (use True a(1-3,5,6) in \<open>simp_all add: a(4)\<close>)
  next
    case False
    show thesis by (rule that [of ?s1]) (use False ok1 in simp_all)
  qed
  have mtx2: "k_mtx s2 = k_mtx ?s1" using s2(3) by (simp add: objs_same_def)
  let ?rest = "\<lambda>s2. case k_q s2 (mtxq i) of
      w # _ \<Rightarrow> do { s3 \<leftarrow> rt_ipc_list_resume (mtxq i) (upd_mtx i (\<lambda>m. m\<lparr>mtx_owner := Some w,
                        mtx_original_priority := th_prio s2 w, mtx_hold := mtx_hold m + 1\<rparr>) s2);
                     s4 \<leftarrow> rt_schedule s3; Some (RT_EOK, s4) }
    | [] \<Rightarrow> Some (RT_EOK, upd_mtx i (\<lambda>m. m\<lparr>mtx_value := mtx_value m + 1,
                 mtx_owner := None, mtx_original_priority := 0xff\<rparr>) s2)"
  have "rt_mutex_release i s = (if ?orig \<noteq> th_prio ?s1 t
      then map_option snd (rt_thread_control t (RT_THREAD_CTRL_CHANGE_PRIORITY ?orig) ?s1)
      else Some ?s1) \<bind> ?rest"
    using cur isr own one by (simp add: rt_mutex_release_def in_thread_context_def Let_def)
  then have rel: "rt_mutex_release i s = ?rest s2" by (simp only: s2(1) bind.bind_lunit)
  show ?thesis
  proof (cases "k_q s (mtxq i)")
    case Nil
    let ?s' = "upd_mtx i (\<lambda>m. m\<lparr>mtx_value := mtx_value m + 1, mtx_owner := None,
        mtx_original_priority := 0xff\<rparr>) s2"
    have "rt_mutex_release i s = Some (RT_EOK, ?s')"
      using rel s2(5) Nil by simp
    moreover have "mutex_inv i ?s'" using I Nil one s2(5) by (simp add: mutex_inv_def mtx2)
    ultimately show ?thesis using Nil s2(2-7) by (simp add: mtx2 live_def objs_same_def)
  next
    case (Cons w ws)
    let ?s3 = "upd_mtx i (\<lambda>m. m\<lparr>mtx_owner := Some w, mtx_original_priority := th_prio s2 w,
        mtx_hold := mtx_hold m + 1\<rparr>) s2"
    have ok3: "kernel_ok ?s3" using s2(2) by simp
    have q3: "k_q ?s3 (mtxq i) = w # ws" using Cons s2(5) by simp
    have wt: "w \<noteq> t" "w \<notin> set ws"
      using I(3) Cons table_invD(1) [OF kernel_invD(2) [OF kernel_okD(1) [OF ok3]], of "mtxq i"] q3 by auto
    have wsus: "th_stat s w = RT_THREAD_SUSPEND"
      using waiting_suspended [OF kernel_okD(1) [OF ok], of "mtxq i" w] Cons by simp
    obtain s4 where s4: "rt_ipc_list_resume (mtxq i) ?s3 = Some s4" "woken ?s3 w s4"
      "\<And>y. wait_list y \<Longrightarrow> k_q s4 y = (if y = mtxq i then ws else k_q ?s3 y)"
      by (rule rt_ipc_list_resume_spec [OF ok3 wait_list_mtxq q3]) (rule that, assumption+)
    note W = wokenD [OF s4(2)]
    obtain s' where s': "rt_schedule s4 = Some s'" "kernel_inv s'" "sched_only s4 s'"
      "k_lock s4 = 0 \<and> runnable s4 \<Longrightarrow> best_runs s'"
      using rt_schedule_kernel [OF kernel_okD(1) [OF W(1)]] by blast
    note O = sched_onlyD [OF s'(3)]
    have st4: "th_stat s4 w = RT_THREAD_READY \<or> th_stat s4 w = RT_THREAD_RUNNING" by (simp add: W(4))
    have st': "th_stat s' w = RT_THREAD_READY \<or> th_stat s' w = RT_THREAD_RUNNING"
      using s'(3) st4 unfolding sched_only_def by (metis insertE singletonD)
    have mtx': "k_mtx s' = k_mtx ?s3" using O(1) W(2) by (simp add: objs_same_def)
    have pr: "th_prio s' u = th_prio s2 u" for u
      using sched_only_fields(2) [OF s'(3), of u] by (simp add: W(4))
    have "runnable s4" using st4 by (auto simp: runnable_def)
    then have best: "k_lock s = 0 \<longrightarrow> best_runs s'"
      using s'(4) W(2) s2(3) by (simp add: objs_same_def)
    have q': "k_q s' (mtxq i) = ws" using O(4) s4(3) [of "mtxq i"] by simp
    have pw: "th_prio s w < RT_THREAD_PRIORITY_MAX" using live_prio [OF ok, of w] wsus by simp
    have rel': "rt_mutex_release i s = Some (RT_EOK, s')"
      using rel s2(5) Cons s4(1) s'(1) by simp
    have lw: "live s' w" using st' by auto
    have "mutex_inv i s'"
      using I(1,4) one lw pw q' wt by (simp add: mutex_inv_def mtx' mtx2 s2(7))
    moreover have "kernel_ok s'" by (rule sched_only_kernel_ok [OF s'(2) kernel_okD(2) [OF W(1)] s'(3)])
    ultimately show ?thesis
      using rel' Cons q' st' best one wt(1) by (simp add: mtx' mtx2 pr s2(7))
  qed
qed

lemma rt_mutex_detach_spec:
  assumes "kernel_ok s"
  shows "\<exists>s'. rt_mutex_detach i s = Some (RT_EOK, s') \<and> drained s (mtxq i) s'"
  using rt_ipc_list_resume_all_spec [OF assms wait_list_mtxq [of i]] by (auto simp: rt_mutex_detach_def)

section \<open>Where priority inheritance fails\<close>

text \<open>
  Each mutex remembers the priority its owner had when it was taken, boosted or not. A thread
  that was boosted through one mutex, takes a second one and releases them in the order in
  which it took them ends with the boosted priority while it holds nothing.
\<close>

lemma boost_survives:
  assumes ok: "kernel_ok s" and inv: "mutex_inv i s" "mutex_inv j s" and ij: "i \<noteq> j"
    and cur: "k_cur s = Some t" and lv: "live s t" and isr: "k_nest s = 0"
    and own: "mtx_owner (k_mtx s i) = Some t" "mtx_hold (k_mtx s i) = 1" "k_q s (mtxq i) = []"
    and free: "mtx_owner (k_mtx s j) = None"
  shows "\<exists>s1 s2 s3. rt_mutex_take j 0 s = Some (Ret RT_EOK s1) \<and>
    rt_mutex_release i s1 = Some (RT_EOK, s2) \<and> th_prio s2 t = mtx_original_priority (k_mtx s i) \<and>
    rt_mutex_release j s2 = Some (RT_EOK, s3) \<and> th_prio s3 t = th_prio s t \<and>
    mtx_owner (k_mtx s3 i) = None \<and> mtx_owner (k_mtx s3 j) = None"
proof -
  obtain s1 where s1: "rt_mutex_take j 0 s = Some (Ret RT_EOK s1)" "kernel_ok s1" "mutex_inv j s1"
    "mtx_owner (k_mtx s1 j) = Some t" "mtx_hold (k_mtx s1 j) = 1"
    "mtx_original_priority (k_mtx s1 j) = th_prio s t"
    "s1 = upd_mtx j (\<lambda>_. k_mtx s1 j) (upd_thr t (\<lambda>h. h\<lparr>t_error := RT_EOK\<rparr>) s)"
    using rt_mutex_take_free [OF ok inv(2) cur lv isr free, of 0] by blast
  have sel: "k_cur s1 = Some t" "k_nest s1 = 0" "\<And>q. k_q s1 q = k_q s q" "k_mtx s1 i = k_mtx s i"
    "\<And>u. th_stat s1 u = th_stat s u"
    by (subst s1(7), use cur isr ij in simp)+
  have inv1: "mutex_inv i s1"
    using inv(1) mutex_inv_cong [of s1 i s] by (simp add: sel live_def)
  obtain s2 where s2: "rt_mutex_release i s1 = Some (RT_EOK, s2)" "kernel_ok s2"
    "th_prio s2 t = mtx_original_priority (k_mtx s i)" "mtx_owner (k_mtx s2 i) = None"
    "\<And>k. k \<noteq> i \<Longrightarrow> k_mtx s2 k = k_mtx s1 k" "k_cur s2 = k_cur s1" "k_nest s2 = k_nest s1"
    "\<And>u. live s2 u = live s1 u" "\<And>q. wait_list q \<Longrightarrow> k_q s2 q = k_q s1 q"
    using rt_mutex_release_last [OF s1(2) inv1 sel(1,2)] own by (auto simp: sel)
  have inv2: "mutex_inv j s2"
    using s1(3) s2(5) [of j] s2(8,9) ij mutex_inv_cong [of s2 j s1] by simp
  have q2: "k_q s2 (mtxq j) = []"
    using inv(2) free s2(9) [of "mtxq j"] by (simp add: mutex_inv_def sel)
  obtain s3 where s3: "rt_mutex_release j s2 = Some (RT_EOK, s3)"
    "th_prio s3 t = mtx_original_priority (k_mtx s2 j)" "mtx_owner (k_mtx s3 j) = None"
    "\<And>k. k \<noteq> j \<Longrightarrow> k_mtx s3 k = k_mtx s2 k"
    using rt_mutex_release_last [OF s2(2) inv2, of t] sel(1,2) s2(5) [of j] s2(6,7) s1(4,5) ij q2 by auto
  show ?thesis
    using s1(1,6) s2(1,3,4,5) s3 ij by (metis (no_types))
qed

text \<open>
  A mutex with a FIFO wait list is passed on without looking at the other waiters: the new
  owner keeps its own priority even when a better thread still waits.
\<close>

lemma fifo_handover_inverts:
  assumes ok: "kernel_ok s" and inv: "mutex_inv i s" and cur: "k_cur s = Some t" and isr: "k_nest s = 0"
    and own: "mtx_owner (k_mtx s i) = Some t" and one: "mtx_hold (k_mtx s i) = 1"
    and q: "k_q s (mtxq i) = w # ws" and v: "v \<in> set ws" "th_prio s v < th_prio s w"
  shows "\<exists>s'. rt_mutex_release i s = Some (RT_EOK, s') \<and> \<not> inherits i s'"
proof -
  obtain s' where s': "rt_mutex_release i s = Some (RT_EOK, s')" "\<And>u. u \<noteq> t \<Longrightarrow> th_prio s' u = th_prio s u"
    "mtx_owner (k_mtx s' i) = Some w" "k_q s' (mtxq i) = ws"
    using rt_mutex_release_last [OF ok inv cur isr own one] q by auto
  have "w \<noteq> t" "v \<noteq> t" using inv own q v(1) by (auto simp: mutex_inv_def)
  then have "\<not> inherits i s'" using s'(2-4) v by (auto simp: inherits_def intro!: bexI [of _ v])
  with s'(1) show ?thesis by blast
qed

text \<open>The depth has 8 bits: the 256th nested take makes it zero.\<close>

lemma hold_wraps:
  assumes "k_cur s = Some t" "k_nest s = 0" "mtx_owner (k_mtx s i) = Some t" "mtx_hold (k_mtx s i) = 255"
  shows "\<exists>s'. rt_mutex_take i time s = Some (Ret RT_EOK s') \<and> mtx_hold (k_mtx s' i) = 0 \<and>
    mtx_owner (k_mtx s' i) = Some t"
  using assms by (auto simp: rt_mutex_take_def in_thread_context_def)

end
