(* ===== verification/Event.thy ===== *)
theory Event
  imports Ipc
begin

text \<open>
  Event sets of src/ipc.c: 32 flags, on which threads wait with AND or OR, with or without
  clearing what they received. \<open>rt_event_recv\<close> is split at its call of the scheduler.
\<close>

section \<open>Operations\<close>

abbreviation evq :: "oid \<Rightarrow> qid" where "evq i \<equiv> SuspQ (IEv i)"

definition RT_EVENT_FLAG_AND :: u8 where "RT_EVENT_FLAG_AND = 1"
definition RT_EVENT_FLAG_OR :: u8 where "RT_EVENT_FLAG_OR = 2"
definition RT_EVENT_FLAG_CLEAR :: u8 where "RT_EVENT_FLAG_CLEAR = 4"

definition upd_ev :: "oid \<Rightarrow> (rt_event \<Rightarrow> rt_event) \<Rightarrow> kstate \<Rightarrow> kstate" where
  "upd_ev i f s = s\<lparr>k_ev := (k_ev s)(i := f (k_ev s i))\<rparr>"

definition event_setup :: "oid \<Rightarrow> nat \<Rightarrow> kstate \<Rightarrow> kstate" where
  "event_setup i flag s =
     upd_ev i (\<lambda>e. e\<lparr>ev_flag := flag, ev_set := 0\<rparr>) (s\<lparr>k_q := (k_q s)(evq i := [])\<rparr>)"

definition rt_event_init :: "oid \<Rightarrow> nat \<Rightarrow> kstate \<Rightarrow> int \<times> kstate" where
  "rt_event_init i flag s = (RT_EOK, event_setup i flag s)"

definition rt_event_detach :: "oid \<Rightarrow> kstate \<Rightarrow> (int \<times> kstate) option" where
  "rt_event_detach i s = do { s1 \<leftarrow> rt_ipc_list_resume_all (evq i) s; Some (RT_EOK, s1) }"

definition rt_event_create :: "oid option \<Rightarrow> nat \<Rightarrow> kstate \<Rightarrow> (oid option \<times> kstate) option" where
  "rt_event_create obj flag s =
     (if k_nest s \<noteq> 0 then None
      else case obj of None \<Rightarrow> Some (None, s) | Some i \<Rightarrow> Some (Some i, event_setup i flag s))"

definition rt_event_delete :: "oid \<Rightarrow> kstate \<Rightarrow> (int \<times> kstate) option" where
  "rt_event_delete i s =
     (if k_nest s \<noteq> 0 then None
      else do { s1 \<leftarrow> rt_ipc_list_resume_all (evq i) s; Some (RT_EOK, s1) })"

text \<open>
  The scan of \<open>rt_event_send\<close>. The code steps to the next node before it wakes a thread, and
  waking unlinks only that thread, so the scan visits the list as it was at the start.
\<close>

fun event_scan :: "oid \<Rightarrow> tid list \<Rightarrow> bool \<Rightarrow> kstate \<Rightarrow> (bool \<times> kstate) option" where
  "event_scan i [] need_schedule s = Some (need_schedule, s)"
| "event_scan i (t # ts) need_schedule s =
     (let h = k_thr s t; received = t_event_set h AND ev_set (k_ev s i);
          (status, s1) =
            (if t_event_info h AND RT_EVENT_FLAG_AND \<noteq> 0 then (received = t_event_set h, s)
             else if t_event_info h AND RT_EVENT_FLAG_OR \<noteq> 0
             then if received \<noteq> 0 then (True, upd_thr t (\<lambda>h. h\<lparr>t_event_set := received\<rparr>) s)
                  else (False, s)
             else (False, s))
      in if status
         then do {
           let s2 = (if t_event_info h AND RT_EVENT_FLAG_CLEAR \<noteq> 0
                     then upd_ev i (\<lambda>e. e\<lparr>ev_set := ev_set e AND NOT (t_event_set (k_thr s1 t))\<rparr>) s1
                     else s1);
           (_, s3) \<leftarrow> rt_thread_resume t s2;
           event_scan i ts True s3 }
         else event_scan i ts need_schedule s1)"

definition rt_event_send :: "oid \<Rightarrow> u32 \<Rightarrow> kstate \<Rightarrow> (int \<times> kstate) option" where
  "rt_event_send i sent s =
     (if sent = 0 then Some (- RT_ERROR, s)
      else do {
        let s1 = upd_ev i (\<lambda>e. e\<lparr>ev_set := ev_set e OR sent\<rparr>) s;
        (need_schedule, s2) \<leftarrow> event_scan i (k_q s1 (evq i)) False s1;
        s3 \<leftarrow> (if need_schedule then rt_schedule s2 else Some s2);
        Some (RT_EOK, s3) })"

text \<open>The result is the error code and, when one is written, the received set.\<close>

definition rt_event_recv :: "oid \<Rightarrow> u32 \<Rightarrow> u8 \<Rightarrow> int \<Rightarrow> kstate \<Rightarrow>
    (int \<times> u32 option, tid) outcome option" where
  "rt_event_recv i want opt timeout s =
     (if \<not> in_thread_context s then None
      else if want = 0 then Some (Ret (- RT_ERROR, None) s)
      else do {
        t \<leftarrow> k_cur s;
        let s1 = upd_thr t (\<lambda>h. h\<lparr>t_error := RT_EOK\<rparr>) s;
        let received = ev_set (k_ev s1 i) AND want;
        status \<leftarrow> (if opt AND RT_EVENT_FLAG_AND \<noteq> 0 then Some (received = want)
                  else if opt AND RT_EVENT_FLAG_OR \<noteq> 0 then Some (received \<noteq> 0)
                  else None);
        (if status
         then Some (Ret (RT_EOK, Some received)
                (if opt AND RT_EVENT_FLAG_CLEAR \<noteq> 0
                 then upd_ev i (\<lambda>e. e\<lparr>ev_set := ev_set e AND NOT want\<rparr>) s1 else s1))
         else if timeout = 0
         then Some (Ret (- RT_ETIMEOUT, None) (upd_thr t (\<lambda>h. h\<lparr>t_error := - RT_ETIMEOUT\<rparr>) s1))
         else do {
           let s2 = upd_thr t (\<lambda>h. h\<lparr>t_event_set := want, t_event_info := opt\<rparr>) s1;
           s3 \<leftarrow> ipc_block (evq i) t (ev_flag (k_ev s2 i)) timeout s2;
           Some (Wait t s3) }) })"

definition rt_event_recv_wake :: "tid \<Rightarrow> kstate \<Rightarrow> int \<times> u32 option" where
  "rt_event_recv_wake t s =
     (if t_error (k_thr s t) \<noteq> RT_EOK then (t_error (k_thr s t), None)
      else (t_error (k_thr s t), Some (t_event_set (k_thr s t))))"

definition rt_event_control :: "oid \<Rightarrow> bool \<Rightarrow> kstate \<Rightarrow> (int \<times> kstate) option" where
  "rt_event_control i reset s =
     (if reset
      then do { s1 \<leftarrow> rt_ipc_list_resume_all (evq i) s;
                s2 \<leftarrow> rt_schedule (upd_ev i (\<lambda>e. e\<lparr>ev_set := 0\<rparr>) s1);
                Some (RT_EOK, s2) }
      else Some (- RT_ERROR, s))"

lemma upd_ev_sel [simp]:
  "k_ev (upd_ev i f s) = (k_ev s)(i := f (k_ev s i))" "k_thr (upd_ev i f s) = k_thr s"
  "k_q (upd_ev i f s) = k_q s" "k_group (upd_ev i f s) = k_group s" "k_cur (upd_ev i f s) = k_cur s"
  "k_cur_prio (upd_ev i f s) = k_cur_prio s" "k_lock (upd_ev i f s) = k_lock s"
  "k_nest (upd_ev i f s) = k_nest s" "k_tick (upd_ev i f s) = k_tick s"
  "k_tmr (upd_ev i f s) = k_tmr s" "k_tlist (upd_ev i f s) = k_tlist s"
  "k_sem (upd_ev i f s) = k_sem s" "k_mtx (upd_ev i f s) = k_mtx s"
  "k_mb (upd_ev i f s) = k_mb s" "k_mq (upd_ev i f s) = k_mq s"
  by (simp_all add: upd_ev_def)

section \<open>Correctness\<close>

text \<open>When a request of the given flags is satisfied by a set.\<close>

definition ev_sat :: "u32 \<Rightarrow> u32 \<Rightarrow> u8 \<Rightarrow> bool" where
  "ev_sat flags want info \<longleftrightarrow>
     (if info AND RT_EVENT_FLAG_AND \<noteq> 0 then want AND flags = want
      else info AND RT_EVENT_FLAG_OR \<noteq> 0 \<and> want AND flags \<noteq> 0)"

lemma and_sub:
  fixes want :: u32
  assumes "want AND (flags AND x) = want"
  shows "want AND flags = want"
proof (rule bit_word_eqI)
  fix n assume "n < LENGTH(32)"
  from assms have "bit (want AND (flags AND x)) n = bit want n" by simp
  then show "bit (want AND flags) n = bit want n" by (auto simp: bit_and_iff)
qed

lemma ev_sat_mono:
  assumes "ev_sat (flags AND x) want info"
  shows "ev_sat flags want info"
proof -
  have b: "want AND flags \<noteq> 0" if "want AND (flags AND x) \<noteq> 0"
  proof
    assume "want AND flags = 0"
    then have "(want AND flags) AND x = 0" by simp
    with that show False by (simp add: and.assoc)
  qed
  show ?thesis using assms and_sub [of want flags x] b unfolding ev_sat_def by (auto split: if_splits)
qed

text \<open>No thread waits for what is there already.\<close>

definition unserved :: "oid \<Rightarrow> kstate \<Rightarrow> tid \<Rightarrow> bool" where
  "unserved i s t \<longleftrightarrow> \<not> ev_sat (ev_set (k_ev s i)) (t_event_set (k_thr s t)) (t_event_info (k_thr s t))"

definition event_inv :: "oid \<Rightarrow> kstate \<Rightarrow> bool" where
  "event_inv i s \<longleftrightarrow> wait_flag (ev_flag (k_ev s i)) \<and> (\<forall>t \<in> set (k_q s (evq i)). unserved i s t)"

lemma wait_list_evq [simp]: "wait_list (evq i)"
  by (simp add: wait_list_def)

lemma kernel_ok_upd_ev [simp]: "kernel_ok (upd_ev i f s) \<longleftrightarrow> kernel_ok s"
  by (rule kernel_ok_core) simp_all

text \<open>
  Serving waiters by sets alone, in the order of the list: what a waiter whose request is satisfied takes,
  and what it leaves there. \<open>ev_serve\<close> gives the flags at the end, the waiters that stay, and
  the ones that go with what they took.
\<close>

definition ev_takes :: "u32 \<Rightarrow> rt_thread \<Rightarrow> u32" where
  "ev_takes flags h = (if t_event_info h AND RT_EVENT_FLAG_AND \<noteq> 0 then t_event_set h else t_event_set h AND flags)"

definition ev_leaves :: "u32 \<Rightarrow> rt_thread \<Rightarrow> u32" where
  "ev_leaves flags h = (if t_event_info h AND RT_EVENT_FLAG_CLEAR \<noteq> 0 then flags AND NOT (ev_takes flags h) else flags)"

fun ev_serve :: "(tid \<Rightarrow> rt_thread) \<Rightarrow> u32 \<Rightarrow> tid list \<Rightarrow> u32 \<times> tid list \<times> (tid \<times> u32) list" where
  "ev_serve thr flags [] = (flags, [], [])"
| "ev_serve thr flags (t # ts) =
     (if ev_sat flags (t_event_set (thr t)) (t_event_info (thr t))
      then case ev_serve thr (ev_leaves flags (thr t)) ts of (fl, ws, sv) \<Rightarrow> (fl, ws, (t, ev_takes flags (thr t)) # sv)
      else case ev_serve thr flags ts of (fl, ws, sv) \<Rightarrow> (fl, t # ws, sv))"

lemma ev_serve_cong: "(\<And>u. u \<in> set ts \<Longrightarrow> thr u = thr' u) \<Longrightarrow> ev_serve thr flags ts = ev_serve thr' flags ts"
  by (induction ts arbitrary: flags) simp_all

lemma ev_serve_parts: "ev_serve thr flags ts = (fl, ws, sv) \<Longrightarrow> set ws \<subseteq> set ts \<and> fst ` set sv \<subseteq> set ts"
  by (induction ts arbitrary: flags fl ws sv) (fastforce split: if_splits prod.splits)+

lemma ev_serve_disjoint:
  "distinct ts \<Longrightarrow> ev_serve thr flags ts = (fl, ws, sv) \<Longrightarrow> set ws \<inter> fst ` set sv = {}"
proof (induction ts arbitrary: flags fl ws sv)
  case (Cons t ts)
  obtain f w v where r: "ev_serve thr (if ev_sat flags (t_event_set (thr t)) (t_event_info (thr t))
      then ev_leaves flags (thr t) else flags) ts = (f, w, v)" by (metis prod_cases3)
  have "\<And>a b. (a, b) \<in> set v \<Longrightarrow> a \<notin> set w \<and> a \<noteq> t" "t \<notin> set w"
    using Cons.IH [OF _ r] Cons.prems(1) ev_serve_parts [OF r] by force+
  then show ?case
    using r Cons.prems(2) by (cases "ev_sat flags (t_event_set (thr t)) (t_event_info (thr t))") auto
qed simp

text \<open>What a woken waiter got: all it wanted with AND, some of it with OR.\<close>

definition got :: "u32 \<Rightarrow> rt_thread \<Rightarrow> rt_thread \<Rightarrow> bool" where
  "got flags h h' \<longleftrightarrow> (t_stat h' = RT_THREAD_READY \<or> t_stat h' = RT_THREAD_RUNNING) \<and>
     ev_sat flags (t_event_set h) (t_event_info h) \<and> t_error h' = t_error h \<and>
     t_event_set h' AND flags = t_event_set h' \<and>
     (if t_event_info h AND RT_EVENT_FLAG_AND \<noteq> 0 then t_event_set h' = t_event_set h
      else t_event_set h' \<noteq> 0 \<and> t_event_set h' AND t_event_set h = t_event_set h')"

lemma got_mono: "got (flags AND x) h h' \<Longrightarrow> got flags h h'"
  using ev_sat_mono [of flags x] and_sub [of "t_event_set h'" flags x] by (auto simp: got_def)

definition scanned :: "oid \<Rightarrow> tid list \<Rightarrow> kstate \<Rightarrow> bool \<Rightarrow> bool \<Rightarrow> kstate \<Rightarrow> bool" where
  "scanned i xs s need need' s' \<longleftrightarrow> kernel_ok s' \<and>
     (\<forall>u \<in> set (k_q s' (evq i)). unserved i s' u \<and> k_thr s' u = k_thr s u) \<and>
     set (k_q s' (evq i)) \<subseteq> set xs \<and>
     (\<forall>t \<in> set xs - set (k_q s' (evq i)). got (ev_set (k_ev s i)) (k_thr s t) (k_thr s' t)) \<and>
     (\<forall>u. u \<notin> set xs \<longrightarrow> k_thr s' u = k_thr s u) \<and>
     (\<forall>y. wait_list y \<and> y \<noteq> evq i \<longrightarrow> k_q s' y = k_q s y) \<and>
     k_cur s' = k_cur s \<and> k_lock s' = k_lock s \<and> k_tick s' = k_tick s \<and>
     ev_flag (k_ev s' i) = ev_flag (k_ev s i) \<and> (\<exists>x. ev_set (k_ev s' i) = ev_set (k_ev s i) AND x) \<and>
     (need \<or> set xs - set (k_q s' (evq i)) \<noteq> {} \<longrightarrow> need')"

lemma event_scan_step:
  assumes ok: "kernel_ok s" and q: "k_q s (evq i) = us @ t # ts" and sat: "\<not> unserved i s t"
    and us: "\<forall>u \<in> set us. unserved i s u"
  obtains s3 where "event_scan i (t # ts) need s = event_scan i ts True s3" "kernel_ok s3"
    "k_q s3 (evq i) = us @ ts" "\<forall>u \<in> set us. unserved i s3 u"
    "\<And>u. u \<noteq> t \<Longrightarrow> k_thr s3 u = k_thr s u" "got (ev_set (k_ev s i)) (k_thr s t) (k_thr s3 t)"
    "\<And>y. wait_list y \<Longrightarrow> y \<noteq> evq i \<Longrightarrow> k_q s3 y = k_q s y" "k_cur s3 = k_cur s" "k_lock s3 = k_lock s"
    "k_tick s3 = k_tick s" "ev_flag (k_ev s3 i) = ev_flag (k_ev s i)"
    "\<exists>x. ev_set (k_ev s3 i) = ev_set (k_ev s i) AND x"
    "ev_set (k_ev s3 i) = ev_leaves (ev_set (k_ev s i)) (k_thr s t)"
    "t_event_set (k_thr s3 t) = ev_takes (ev_set (k_ev s i)) (k_thr s t)"
proof -
  let ?h = "k_thr s t" and ?fl = "ev_set (k_ev s i)"
  let ?and = "t_event_info ?h AND RT_EVENT_FLAG_AND \<noteq> 0"
  let ?rec = "t_event_set ?h AND ?fl"
  have sat': "ev_sat ?fl (t_event_set ?h) (t_event_info ?h)" using sat by (simp add: unserved_def)
  let ?s1 = "if ?and then s else upd_thr t (\<lambda>h. h\<lparr>t_event_set := ?rec\<rparr>) s"
  let ?s2 = "if t_event_info ?h AND RT_EVENT_FLAG_CLEAR \<noteq> 0
             then upd_ev i (\<lambda>e. e\<lparr>ev_set := ev_set e AND NOT (t_event_set (k_thr ?s1 t))\<rparr>) ?s1 else ?s1"
  have ok1: "kernel_ok ?s1" using ok kernel_ok_core [of "upd_thr t (\<lambda>h. h\<lparr>t_event_set := ?rec\<rparr>) s" s]
    by (simp add: thr_core_def)
  then have ok2: "kernel_ok ?s2" by simp
  have st: "th_stat s t = RT_THREAD_SUSPEND"
    using waiting_suspended [OF kernel_okD(1) [OF ok], of "evq i" t] q by simp
  then have st2: "th_stat ?s2 t = RT_THREAD_SUSPEND" by simp
  obtain s3 where s3: "rt_thread_resume t ?s2 = Some (RT_EOK, s3)" "woken ?s2 t s3"
    by (rule rt_thread_resume_ok [OF ok2 st2])
  note W = wokenD [OF s3(2)]
  have scan: "event_scan i (t # ts) need s = event_scan i ts True s3"
    using sat' s3(1) by (auto simp: ev_sat_def Let_def simp del: upd_thr_sel upd_ev_sel)
  have dist: "t \<notin> set us" "t \<notin> set ts"
    using table_invD(1) [OF kernel_invD(2) [OF kernel_okD(1) [OF ok]], of "evq i"] q by auto
  have q2: "k_q ?s2 y = k_q s y" for y by simp
  have q3: "k_q s3 (evq i) = us @ ts"
    using W(5) [of "evq i"] q dist by (simp add: q2 filter_neq_idle)
  have qo: "k_q s3 y = k_q s y" if "wait_list y" "y \<noteq> evq i" for y
  proof -
    have "t \<notin> set (k_q s y)"
      using table_invD(2) [OF kernel_invD(2) [OF kernel_okD(1) [OF ok]], of t y "evq i"] q that(2) by auto
    then show ?thesis using W(5) [OF that(1)] by (simp add: q2 filter_neq_idle)
  qed
  have ev3: "k_ev s3 i = k_ev ?s2 i" using W(2) by (simp add: objs_same_def)
  have fl3: "\<exists>x. ev_set (k_ev s3 i) = ?fl AND x"
    unfolding ev3 by (rule exI [of _ "if t_event_info ?h AND RT_EVENT_FLAG_CLEAR \<noteq> 0
        then NOT (t_event_set (k_thr ?s1 t)) else - 1"]) simp
  have th: "k_thr s3 u = k_thr s u" if "u \<noteq> t" for u using that by (simp add: W(4))
  have us3: "\<forall>u \<in> set us. unserved i s3 u"
    using us fl3 th dist(1) ev_sat_mono unfolding unserved_def by metis
  have "got ?fl ?h (k_thr s3 t)"
    using sat' by (auto simp: got_def W(4) ev_sat_def and.assoc and.left_commute and.commute split: if_splits)
  moreover have "k_lock s3 = k_lock s" "k_tick s3 = k_tick s" "k_cur s3 = k_cur s"
    using W(2,3) by (simp_all add: objs_same_def)
  moreover have "ev_flag (k_ev s3 i) = ev_flag (k_ev s i)" by (simp add: ev3)
  moreover have "ev_set (k_ev s3 i) = ev_leaves ?fl ?h" unfolding ev3 by (simp add: ev_leaves_def ev_takes_def)
  moreover have "t_event_set (k_thr s3 t) = ev_takes ?fl ?h" by (simp add: W(4) ev_takes_def)
  ultimately show thesis using scan W(1) q3 us3 th qo fl3 by (intro that) simp_all
qed

lemma event_scan_spec:
  assumes "kernel_ok s" and "k_q s (evq i) = us @ ts" and "\<forall>u \<in> set us. unserved i s u"
  shows "\<exists>need' s'. event_scan i ts need s = Some (need', s') \<and> scanned i (us @ ts) s need need' s'"
  using assms
proof (induction ts arbitrary: us need s)
  case Nil
  then show ?case by (auto simp: scanned_def intro: exI [of _ "- 1"])
next
  case (Cons t ts)
  show ?case
  proof (cases "unserved i s t")
    case True
    then have scan: "event_scan i (t # ts) need s = event_scan i ts need s"
      by (auto simp: unserved_def ev_sat_def Let_def)
    have "\<forall>u \<in> set (us @ [t]). unserved i s u" using Cons.prems(3) True by simp
    from Cons.IH [OF Cons.prems(1) _ this, of need] Cons.prems(2) scan show ?thesis by simp
  next
    case False
    obtain s3 where s3: "event_scan i (t # ts) need s = event_scan i ts True s3" "kernel_ok s3"
      "k_q s3 (evq i) = us @ ts" "\<forall>u \<in> set us. unserved i s3 u"
      "\<And>u. u \<noteq> t \<Longrightarrow> k_thr s3 u = k_thr s u" "got (ev_set (k_ev s i)) (k_thr s t) (k_thr s3 t)"
      "\<And>y. wait_list y \<Longrightarrow> y \<noteq> evq i \<Longrightarrow> k_q s3 y = k_q s y" "k_cur s3 = k_cur s" "k_lock s3 = k_lock s"
      "k_tick s3 = k_tick s" "ev_flag (k_ev s3 i) = ev_flag (k_ev s i)"
      "\<exists>x. ev_set (k_ev s3 i) = ev_set (k_ev s i) AND x"
      by (rule event_scan_step [OF Cons.prems(1,2) False Cons.prems(3), of need]) (rule that, assumption+)
    have dist: "t \<notin> set us" "t \<notin> set ts"
      using table_invD(1) [OF kernel_invD(2) [OF kernel_okD(1) [OF Cons.prems(1)]], of "evq i"] Cons.prems(2) by auto
    obtain need' s' where s': "event_scan i ts True s3 = Some (need', s')" "scanned i (us @ ts) s3 True need' s'"
      using Cons.IH [OF s3(2-4)] by blast
    note S = s'(2) [unfolded scanned_def]
    obtain x where x: "ev_set (k_ev s3 i) = ev_set (k_ev s i) AND x" using s3(12) by blast
    have sub: "set (k_q s' (evq i)) \<subseteq> set (us @ ts)" using S by blast
    have tt: "k_thr s' t = k_thr s3 t" using S dist by simp
    have "scanned i (us @ t # ts) s need need' s'"
      unfolding scanned_def
    proof (intro conjI ballI allI impI)
      show "kernel_ok s'" using S by blast
      show "unserved i s' u" "k_thr s' u = k_thr s u" if "u \<in> set (k_q s' (evq i))" for u
        using S that sub dist s3(5) [of u] by auto
      show "set (k_q s' (evq i)) \<subseteq> set (us @ t # ts)" using sub by auto
      show "got (ev_set (k_ev s i)) (k_thr s u) (k_thr s' u)"
        if "u \<in> set (us @ t # ts) - set (k_q s' (evq i))" for u
      proof (cases "u = t")
        case True
        then show ?thesis using s3(6) tt by simp
      next
        case False
        then have "got (ev_set (k_ev s3 i)) (k_thr s3 u) (k_thr s' u)" using S that by auto
        then show ?thesis using got_mono s3(5) [OF False] x by metis
      qed
      show "k_thr s' u = k_thr s u" if "u \<notin> set (us @ t # ts)" for u
        using S s3(5) [of u] that by auto
      show "k_q s' y = k_q s y" if "wait_list y \<and> y \<noteq> evq i" for y
        using S s3(7) [of y] that by simp
      show "k_cur s' = k_cur s" "k_lock s' = k_lock s" "k_tick s' = k_tick s"
        "ev_flag (k_ev s' i) = ev_flag (k_ev s i)" using S s3(8-11) by simp_all
      show "\<exists>x. ev_set (k_ev s' i) = ev_set (k_ev s i) AND x"
        using S x by (metis and.assoc)
      show need' using S by blast
    qed
    with s'(1) s3(1) show ?thesis by auto
  qed
qed

text \<open>The scan does to the flags, the waiting list and the threads it wakes what \<open>ev_serve\<close> says.\<close>

lemma event_scan_serves:
  assumes "kernel_ok s" and "k_q s (evq i) = us @ ts" and "\<forall>u \<in> set us. unserved i s u"
    and "event_scan i ts need s = Some (need', s')" and "ev_serve (k_thr s) (ev_set (k_ev s i)) ts = (fl, ws, sv)"
  shows "ev_set (k_ev s' i) = fl \<and> k_q s' (evq i) = us @ ws \<and> (\<forall>(t, b) \<in> set sv. t_event_set (k_thr s' t) = b)"
  using assms
proof (induction ts arbitrary: us need s fl ws sv)
  case (Cons t ts)
  have dist: "t \<notin> set us" "t \<notin> set ts"
    using table_invD(1) [OF kernel_invD(2) [OF kernel_okD(1) [OF Cons.prems(1)]], of "evq i"] Cons.prems(2) by auto
  show ?case
  proof (cases "unserved i s t")
    case True
    then have scan: "event_scan i (t # ts) need s = event_scan i ts need s"
      by (auto simp: unserved_def ev_sat_def Let_def)
    obtain w where w: "ev_serve (k_thr s) (ev_set (k_ev s i)) ts = (fl, w, sv)" "ws = t # w"
      using Cons.prems(5) True by (auto simp: unserved_def split: prod.splits)
    have "\<forall>u \<in> set (us @ [t]). unserved i s u" "k_q s (evq i) = (us @ [t]) @ ts" using Cons.prems(2,3) True by simp_all
    from Cons.IH [OF Cons.prems(1) this(2,1) Cons.prems(4) [unfolded scan] w(1)] w(2) show ?thesis by simp
  next
    case False
    obtain s3 where s3: "event_scan i (t # ts) need s = event_scan i ts True s3" "kernel_ok s3"
      "k_q s3 (evq i) = us @ ts" "\<forall>u \<in> set us. unserved i s3 u" "\<And>u. u \<noteq> t \<Longrightarrow> k_thr s3 u = k_thr s u"
      "ev_set (k_ev s3 i) = ev_leaves (ev_set (k_ev s i)) (k_thr s t)"
      "t_event_set (k_thr s3 t) = ev_takes (ev_set (k_ev s i)) (k_thr s t)"
      by (rule event_scan_step [OF Cons.prems(1,2) False Cons.prems(3), of need]) (rule that, assumption+)
    have "ev_serve (k_thr s3) (ev_set (k_ev s3 i)) ts = ev_serve (k_thr s) (ev_set (k_ev s3 i)) ts"
      by (rule ev_serve_cong) (use s3(5) dist in metis)
    then obtain v where v: "ev_serve (k_thr s3) (ev_set (k_ev s3 i)) ts = (fl, ws, v)"
      "sv = (t, ev_takes (ev_set (k_ev s i)) (k_thr s t)) # v"
      using Cons.prems(5) False s3(6) by (auto simp: unserved_def split: prod.splits)
    have run: "event_scan i ts True s3 = Some (need', s')" using Cons.prems(4) s3(1) by simp
    have "scanned i (us @ ts) s3 True need' s'"
      using event_scan_spec [OF s3(2-4), of True] run by auto
    then have "k_thr s' t = k_thr s3 t" using dist by (simp add: scanned_def)
    then show ?thesis using Cons.IH [OF s3(2-4) run v(1)] s3(7) v(2) by simp
  qed
qed simp

lemma got_sched:
  assumes "got flags h (k_thr s t)" "sched_only s s'"
  shows "got flags h (k_thr s' t)"
proof -
  have "th_stat s' t = RT_THREAD_READY \<or> th_stat s' t = RT_THREAD_RUNNING"
    using assms unfolding got_def sched_only_def by (metis insertE singletonD)
  then show ?thesis using assms(1) sched_only_fields(1,5,6) [OF assms(2), of t] by (simp add: got_def)
qed

lemma event_inv_cong:
  assumes "\<And>u. t_event_set (k_thr s' u) = t_event_set (k_thr s u)"
    "\<And>u. t_event_info (k_thr s' u) = t_event_info (k_thr s u)"
    "k_ev s' i = k_ev s i" "k_q s' (evq i) = k_q s (evq i)"
  shows "event_inv i s' \<longleftrightarrow> event_inv i s"
  using assms by (simp add: event_inv_def unserved_def)

text \<open>
  Sending wakes exactly the waiters whose request is satisfied when the scan reaches them, and
  nobody who stays could have been served.
\<close>

lemma rt_event_send_spec:
  assumes ok: "kernel_ok s" and inv: "event_inv i s" and ne: "sent \<noteq> 0"
  obtains s' where "rt_event_send i sent s = Some (RT_EOK, s')" "kernel_ok s'" "event_inv i s'"
    "set (k_q s' (evq i)) \<subseteq> set (k_q s (evq i))"
    "\<And>t. t \<in> set (k_q s (evq i)) \<Longrightarrow> t \<notin> set (k_q s' (evq i)) \<Longrightarrow>
       got (ev_set (k_ev s i) OR sent) (k_thr s t) (k_thr s' t)"
    "\<And>t. t \<in> set (k_q s (evq i)) \<Longrightarrow> t \<notin> set (k_q s' (evq i)) \<Longrightarrow> k_lock s = 0 \<Longrightarrow> best_runs s'"
    "\<And>fl ws sv. ev_serve (k_thr s) (ev_set (k_ev s i) OR sent) (k_q s (evq i)) = (fl, ws, sv) \<Longrightarrow>
       ev_set (k_ev s' i) = fl \<and> k_q s' (evq i) = ws \<and> (\<forall>(t, b) \<in> set sv. t_event_set (k_thr s' t) = b)"
proof -
  let ?s1 = "upd_ev i (\<lambda>e. e\<lparr>ev_set := ev_set e OR sent\<rparr>) s"
  have ok1: "kernel_ok ?s1" using ok by simp
  obtain need s2 where s2: "event_scan i (k_q s (evq i)) False ?s1 = Some (need, s2)"
    "scanned i (k_q s (evq i)) ?s1 False need s2"
    using event_scan_spec [OF ok1, of i "[]" "k_q s (evq i)" False] by auto
  note S = s2(2) [unfolded scanned_def]
  have ok2: "kernel_ok s2" using S by blast
  have fl: "wait_flag (ev_flag (k_ev s2 i))" using S inv by (simp add: event_inv_def)
  obtain s' where s': "(if need then rt_schedule s2 else Some s2) = Some s'" "kernel_ok s'" "sched_only s2 s'"
    "need \<Longrightarrow> k_lock s2 = 0 \<and> runnable s2 \<Longrightarrow> best_runs s'"
  proof (cases need)
    case True
    obtain s' where a: "rt_schedule s2 = Some s'" "kernel_inv s'" "sched_only s2 s'"
      "k_lock s2 = 0 \<and> runnable s2 \<Longrightarrow> best_runs s'"
      using rt_schedule_kernel [OF kernel_okD(1) [OF ok2]] by blast
    show thesis
      by (rule that [of s']) (use True a sched_only_kernel_ok [OF a(2) kernel_okD(2) [OF ok2] a(3)] in auto)
  qed (rule that [of s2], use ok2 in auto)
  note O = sched_onlyD [OF s'(3)]
  have q': "k_q s' (evq i) = k_q s2 (evq i)" by (rule O(4))
  have ev': "k_ev s' = k_ev s2" using O(1) by (simp add: objs_same_def)
  have "event_inv i s2" using S fl by (simp add: event_inv_def)
  then have inv': "event_inv i s'"
    using event_inv_cong [of s' s2 i] sched_only_fields(5,6) [OF s'(3)] ev' q' by simp
  have send: "rt_event_send i sent s = Some (RT_EOK, s')"
    using ne s2(1) s'(1) by (simp add: rt_event_send_def)
  have woke: "got (ev_set (k_ev s i) OR sent) (k_thr s t) (k_thr s2 t)"
    if "t \<in> set (k_q s (evq i))" "t \<notin> set (k_q s' (evq i))" for t
    using S that q' by simp
  show thesis
  proof (rule that [OF send s'(2) inv'])
    show "set (k_q s' (evq i)) \<subseteq> set (k_q s (evq i))" using S q' by simp
    fix t assume t: "t \<in> set (k_q s (evq i))" "t \<notin> set (k_q s' (evq i))"
    show "got (ev_set (k_ev s i) OR sent) (k_thr s t) (k_thr s' t)"
      by (rule got_sched [OF woke [OF t] s'(3)])
    show "best_runs s'" if "k_lock s = 0"
    proof (rule s'(4))
      have "set (k_q s (evq i)) - set (k_q s2 (evq i)) \<noteq> {}" using t q' by auto
      then show need using S by simp
      show "k_lock s2 = 0 \<and> runnable s2"
        using woke [OF t] S that unfolding runnable_def got_def by auto
    qed
  next
    fix fl ws sv assume sv: "ev_serve (k_thr s) (ev_set (k_ev s i) OR sent) (k_q s (evq i)) = (fl, ws, sv)"
    have "ev_set (k_ev s2 i) = fl \<and> k_q s2 (evq i) = [] @ ws \<and> (\<forall>(t, b) \<in> set sv. t_event_set (k_thr s2 t) = b)"
      by (rule event_scan_serves [OF ok1 _ _ s2(1)]) (use sv in simp_all)
    then show "ev_set (k_ev s' i) = fl \<and> k_q s' (evq i) = ws \<and> (\<forall>(t, b) \<in> set sv. t_event_set (k_thr s' t) = b)"
      using ev' q' sched_only_fields(5) [OF s'(3)] by auto
  qed
qed

text \<open>The same, for all that are served at once.\<close>

lemma rt_event_send_serves:
  assumes "kernel_ok s" "event_inv i s" "sent \<noteq> 0"
    and sv: "ev_serve (k_thr s) (ev_set (k_ev s i) OR sent) (k_q s (evq i)) = (fl, ws, sv)"
  shows "\<exists>s'. rt_event_send i sent s = Some (RT_EOK, s') \<and> kernel_ok s' \<and> event_inv i s' \<and>
    ev_set (k_ev s' i) = fl \<and> k_q s' (evq i) = ws \<and>
    (\<forall>(t, b) \<in> set sv. (th_stat s' t = RT_THREAD_READY \<or> th_stat s' t = RT_THREAD_RUNNING) \<and>
       t_event_set (k_thr s' t) = b \<and> t_error (k_thr s' t) = t_error (k_thr s t) \<and> (k_lock s = 0 \<longrightarrow> best_runs s'))"
proof -
  obtain s' where s': "rt_event_send i sent s = Some (RT_EOK, s')" "kernel_ok s'" "event_inv i s'"
    "\<And>t. t \<in> set (k_q s (evq i)) \<Longrightarrow> t \<notin> set (k_q s' (evq i)) \<Longrightarrow> got (ev_set (k_ev s i) OR sent) (k_thr s t) (k_thr s' t)"
    "\<And>t. t \<in> set (k_q s (evq i)) \<Longrightarrow> t \<notin> set (k_q s' (evq i)) \<Longrightarrow> k_lock s = 0 \<Longrightarrow> best_runs s'"
    "\<And>fl ws sv. ev_serve (k_thr s) (ev_set (k_ev s i) OR sent) (k_q s (evq i)) = (fl, ws, sv) \<Longrightarrow>
       ev_set (k_ev s' i) = fl \<and> k_q s' (evq i) = ws \<and> (\<forall>(t, b) \<in> set sv. t_event_set (k_thr s' t) = b)"
    by (rule rt_event_send_spec [OF assms(1-3)]) (rule that, assumption+)
  note E = s'(6) [OF sv]
  have dist: "distinct (k_q s (evq i))"
    using table_invD(1) [OF kernel_invD(2) [OF kernel_okD(1) [OF assms(1)]], of "evq i"] by simp
  have gone: "t \<in> set (k_q s (evq i))" "t \<notin> set (k_q s' (evq i))" if "(t, b) \<in> set sv" for t b
    using ev_serve_parts [OF sv] ev_serve_disjoint [OF dist sv] E that by force+
  have "(th_stat s' t = RT_THREAD_READY \<or> th_stat s' t = RT_THREAD_RUNNING) \<and> t_event_set (k_thr s' t) = b \<and>
      t_error (k_thr s' t) = t_error (k_thr s t) \<and> (k_lock s = 0 \<longrightarrow> best_runs s')" if "(t, b) \<in> set sv" for t b
    using s'(4,5) [OF gone [OF that]] E that unfolding got_def by auto
  then show ?thesis using s'(1-3) E by (intro exI [of _ s']) auto
qed

lemma rt_event_recv_now:
  assumes ok: "kernel_ok s" and inv: "event_inv i s" and cur: "k_cur s = Some t" and isr: "k_nest s = 0"
    and run: "th_stat s t = RT_THREAD_RUNNING"
    and want: "want \<noteq> 0" and sat: "ev_sat (ev_set (k_ev s i)) want opt"
  shows "\<exists>s'. rt_event_recv i want opt timeout s = Some (Ret (RT_EOK, Some (ev_set (k_ev s i) AND want)) s') \<and>
    kernel_ok s' \<and> event_inv i s' \<and> k_q s' (evq i) = k_q s (evq i) \<and>
    ev_set (k_ev s' i) = (if opt AND RT_EVENT_FLAG_CLEAR \<noteq> 0 then ev_set (k_ev s i) AND NOT want
                          else ev_set (k_ev s i))"
proof -
  let ?s1 = "upd_thr t (\<lambda>h. h\<lparr>t_error := RT_EOK\<rparr>) s"
  let ?s' = "if opt AND RT_EVENT_FLAG_CLEAR \<noteq> 0
             then upd_ev i (\<lambda>e. e\<lparr>ev_set := ev_set e AND NOT want\<rparr>) ?s1 else ?s1"
  have take: "rt_event_recv i want opt timeout s = Some (Ret (RT_EOK, Some (ev_set (k_ev s i) AND want)) ?s')"
    using cur isr want sat
    by (auto simp: rt_event_recv_def in_thread_context_def ev_sat_def Let_def and.commute)
  have ok1: "kernel_ok ?s1" using ok kernel_ok_core [of ?s1 s] by (simp add: thr_core_def)
  have uns: "unserved i ?s' u" if "u \<in> set (k_q s (evq i))" for u
  proof -
    have "unserved i s u" using inv that by (simp add: event_inv_def)
    then show ?thesis
      using ev_sat_mono [of "ev_set (k_ev s i)" "NOT want" "t_event_set (k_thr s u)" "t_event_info (k_thr s u)"]
      by (auto simp: unserved_def)
  qed
  have sel: "k_q ?s' (evq i) = k_q s (evq i)" "ev_flag (k_ev ?s' i) = ev_flag (k_ev s i)" by simp_all
  have "wait_flag (ev_flag (k_ev s i))" using inv by (simp add: event_inv_def)
  then have "event_inv i ?s'" unfolding event_inv_def sel using uns by blast
  with take ok1 show ?thesis by (intro exI [of _ ?s']) simp
qed

lemma rt_event_recv_blocks:
  assumes ok: "kernel_ok s" and inv: "event_inv i s" and cur: "k_cur s = Some t" and isr: "k_nest s = 0"
    and run: "th_stat s t = RT_THREAD_RUNNING"
    and want: "want \<noteq> 0" and sat: "\<not> ev_sat (ev_set (k_ev s i)) want opt"
    and opt: "opt AND RT_EVENT_FLAG_AND \<noteq> 0 \<or> opt AND RT_EVENT_FLAG_OR \<noteq> 0"
    and time: "timeout \<noteq> 0" "timeout < 0x7fffffff"
  shows "\<exists>s'. rt_event_recv i want opt timeout s = Some (Wait t s') \<and> kernel_ok s' \<and> event_inv i s' \<and>
    th_stat s' t = RT_THREAD_SUSPEND \<and> k_ev s' = k_ev s \<and>
    k_q s' (evq i) = waiters_with s t (ev_flag (k_ev s i)) (k_q s (evq i)) \<and>
    t_event_set (k_thr s' t) = want \<and> t_event_info (k_thr s' t) = opt"
proof -
  let ?s1 = "upd_thr t (\<lambda>h. h\<lparr>t_error := RT_EOK\<rparr>) s"
  let ?s2 = "upd_thr t (\<lambda>h. h\<lparr>t_event_set := want, t_event_info := opt\<rparr>) ?s1"
  have ok2: "kernel_ok ?s2" using ok kernel_ok_core [of ?s2 s] by (simp add: thr_core_def)
  have run2: "th_stat ?s2 t = RT_THREAD_RUNNING" using run by simp
  have fl: "wait_flag (ev_flag (k_ev s i))" using inv by (simp add: event_inv_def)
  obtain s' where s': "ipc_block (evq i) t (ev_flag (k_ev s i)) timeout ?s2 = Some s'"
    "blocked ?s2 (evq i) t (ev_flag (k_ev s i)) timeout s'"
    by (rule ipc_block_spec [OF ok2 run2 wait_list_evq fl time(2)])
  note B = blockedD [OF s'(2)]
  have take: "rt_event_recv i want opt timeout s = Some (Wait t s')"
    using cur isr want sat opt time(1) s'(1) and.commute [of "ev_set (k_ev s i)" want]
    by (auto simp: rt_event_recv_def in_thread_context_def ev_sat_def Let_def simp del: upd_thr_sel(1)
        split: if_splits)
  have ev': "k_ev s' = k_ev s" using B(2) by (simp add: objs_same_def)
  have q': "k_q s' (evq i) = waiters_with s t (ev_flag (k_ev s i)) (k_q s (evq i))"
    using B(4) [of "evq i"] waiters_with_cong [of t "k_q s (evq i)" ?s2 s] by simp
  have es: "t_event_set (k_thr s' u) = (if u = t then want else t_event_set (k_thr s u))"
    and ei: "t_event_info (k_thr s' u) = (if u = t then opt else t_event_info (k_thr s u))" for u
    using rt_thread_fields(5,6) [OF B(5) [of u]] by simp_all
  have nw: "t \<notin> set (k_q s (evq i))"
    using waiting_suspended [OF kernel_okD(1) [OF ok], of "evq i" t] run by auto
  have "event_inv i s'"
    using inv sat nw by (auto simp: event_inv_def unserved_def q' ev' es ei)
  then show ?thesis using take B(1,3) ev' q' es ei by simp
qed

end
