(* ===== verification/Mailbox.thy ===== *)
theory Mailbox
  imports Ipc Fifo
begin

text \<open>
  Mailboxes of src/ipc.c: a circular array of words, one list of waiting receivers and one of
  waiting senders. The blocking loops are cut at their call of the scheduler; \<open>mb_send_loop\<close>
  and \<open>mb_recv_loop\<close> are the code from the head of the loop on, and a \<open>Wait\<close> carries the
  locals: the thread, the rest of the waiting time and the tick at which it began.
\<close>

section \<open>Operations\<close>

abbreviation mbq :: "oid \<Rightarrow> qid" where "mbq i \<equiv> SuspQ (IMb i)"
abbreviation mbsq :: "oid \<Rightarrow> qid" where "mbsq i \<equiv> SenderQ (IMb i)"

definition upd_mb :: "oid \<Rightarrow> (rt_mailbox \<Rightarrow> rt_mailbox) \<Rightarrow> kstate \<Rightarrow> kstate" where
  "upd_mb i f s = s\<lparr>k_mb := (k_mb s)(i := f (k_mb s i))\<rparr>"

definition mb_setup :: "oid \<Rightarrow> u32 list \<Rightarrow> nat \<Rightarrow> nat \<Rightarrow> kstate \<Rightarrow> kstate" where
  "mb_setup i pool size' flag s =
     upd_mb i (\<lambda>m. m\<lparr>mb_flag := flag, mb_msg_pool := pool, mb_size := size' mod 2 ^ 16, mb_entry := 0,
                     mb_in_offset := 0, mb_out_offset := 0\<rparr>)
       (s\<lparr>k_q := (k_q s)(mbq i := [], mbsq i := [])\<rparr>)"

definition rt_mb_init :: "oid \<Rightarrow> u32 list \<Rightarrow> nat \<Rightarrow> nat \<Rightarrow> kstate \<Rightarrow> int \<times> kstate" where
  "rt_mb_init i pool size' flag s = (RT_EOK, mb_setup i pool size' flag s)"

definition rt_mb_detach :: "oid \<Rightarrow> kstate \<Rightarrow> (int \<times> kstate) option" where
  "rt_mb_detach i s =
     do { s1 \<leftarrow> rt_ipc_list_resume_all (mbq i) s;
          s2 \<leftarrow> rt_ipc_list_resume_all (mbsq i) s1;
          Some (RT_EOK, s2) }"

text \<open>The allocator's answers: the object and the pool (\<open>size'\<close> words), or nothing.\<close>

definition rt_mb_create :: "oid option \<Rightarrow> u32 list option \<Rightarrow> nat \<Rightarrow> nat \<Rightarrow> kstate \<Rightarrow>
    (oid option \<times> kstate) option" where
  "rt_mb_create obj pool size' flag s =
     (if k_nest s \<noteq> 0 then None
      else case obj of None \<Rightarrow> Some (None, s)
        | Some i \<Rightarrow> (case pool of
              None \<Rightarrow> Some (None, upd_mb i (\<lambda>m. m\<lparr>mb_flag := flag, mb_size := size' mod 2 ^ 16\<rparr>)
                                   (s\<lparr>k_q := (k_q s)(mbq i := [])\<rparr>))
            | Some p \<Rightarrow> Some (Some i, mb_setup i p size' flag s)))"

definition rt_mb_delete :: "oid \<Rightarrow> kstate \<Rightarrow> (int \<times> kstate) option" where
  "rt_mb_delete i s = (if k_nest s \<noteq> 0 then None else rt_mb_detach i s)"

text \<open>\<open>timeout -= tick_delta; if (timeout < 0) timeout = 0\<close>, in 32 bits.\<close>

definition rest_time :: "int \<Rightarrow> u32 \<Rightarrow> u32 \<Rightarrow> int" where
  "rest_time timeout start now =
     (if 0 < timeout
      then let rest = sint (word_of_int timeout - (now - start) :: u32) in if rest < 0 then 0 else rest
      else timeout)"

text \<open>Moving an offset (16 bits) on, with the wrap at the end of the pool.\<close>

definition mb_next :: "nat \<Rightarrow> nat \<Rightarrow> nat" where
  "mb_next size' off = (let o1 = (off + 1) mod 2 ^ 16 in if size' \<le> o1 then 0 else o1)"

definition mb_put :: "u32 \<Rightarrow> rt_mailbox \<Rightarrow> rt_mailbox" where
  "mb_put v m = m\<lparr>mb_msg_pool := (mb_msg_pool m)[mb_in_offset m := v],
                  mb_in_offset := mb_next (mb_size m) (mb_in_offset m),
                  mb_entry := (mb_entry m + 1) mod 2 ^ 16\<rparr>"

definition mb_get :: "rt_mailbox \<Rightarrow> rt_mailbox" where
  "mb_get m = m\<lparr>mb_out_offset := mb_next (mb_size m) (mb_out_offset m), mb_entry := mb_entry m - 1\<rparr>"

definition mb_send_loop :: "oid \<Rightarrow> u32 \<Rightarrow> tid option \<Rightarrow> int \<Rightarrow> kstate \<Rightarrow>
    (int, tid \<times> int \<times> u32) outcome option" where
  "mb_send_loop i v thread timeout s =
     (let m = k_mb s i in
      if mb_entry m = mb_size m
      then do {
        t \<leftarrow> thread;
        let s1 = upd_thr t (\<lambda>h. h\<lparr>t_error := RT_EOK\<rparr>) s;
        (if timeout = 0 then Some (Ret (- RT_EFULL) s1)
         else if \<not> in_thread_context s1 then None
         else do { s2 \<leftarrow> ipc_block (mbsq i) t (mb_flag m) timeout s1;
                   Some (Wait (t, timeout, k_tick s1) s2) }) }
      else if \<not> mb_in_offset m < length (mb_msg_pool m) then None
      else do {
        let s1 = upd_mb i (mb_put v) s;
        (if k_q s1 (mbq i) \<noteq> []
         then do { s2 \<leftarrow> rt_ipc_list_resume (mbq i) s1; s3 \<leftarrow> rt_schedule s2; Some (Ret RT_EOK s3) }
         else Some (Ret RT_EOK s1)) })"

definition rt_mb_send_wait :: "oid \<Rightarrow> u32 \<Rightarrow> int \<Rightarrow> kstate \<Rightarrow> (int, tid \<times> int \<times> u32) outcome option" where
  "rt_mb_send_wait i v timeout s =
     (if mb_entry (k_mb s i) = mb_size (k_mb s i) \<and> timeout = 0 then Some (Ret (- RT_EFULL) s)
      else mb_send_loop i v (k_cur s) timeout s)"

definition rt_mb_send_wake :: "oid \<Rightarrow> u32 \<Rightarrow> tid \<times> int \<times> u32 \<Rightarrow> kstate \<Rightarrow>
    (int, tid \<times> int \<times> u32) outcome option" where
  "rt_mb_send_wake i v k s =
     (case k of (t, timeout, tick_delta) \<Rightarrow>
        if t_error (k_thr s t) \<noteq> RT_EOK then Some (Ret (t_error (k_thr s t)) s)
        else mb_send_loop i v (Some t) (rest_time timeout tick_delta (k_tick s)) s)"

definition rt_mb_send :: "oid \<Rightarrow> u32 \<Rightarrow> kstate \<Rightarrow> (int, tid \<times> int \<times> u32) outcome option" where
  "rt_mb_send i v s = rt_mb_send_wait i v 0 s"

definition mb_recv_loop :: "oid \<Rightarrow> tid option \<Rightarrow> int \<Rightarrow> kstate \<Rightarrow>
    (int \<times> u32 option, tid \<times> int \<times> u32) outcome option" where
  "mb_recv_loop i thread timeout s =
     (let m = k_mb s i in
      if mb_entry m = 0
      then do {
        t \<leftarrow> thread;
        let s1 = upd_thr t (\<lambda>h. h\<lparr>t_error := RT_EOK\<rparr>) s;
        (if timeout = 0
         then Some (Ret (- RT_ETIMEOUT, None) (upd_thr t (\<lambda>h. h\<lparr>t_error := - RT_ETIMEOUT\<rparr>) s1))
         else if \<not> in_thread_context s1 then None
         else do { s2 \<leftarrow> ipc_block (mbq i) t (mb_flag m) timeout s1;
                   Some (Wait (t, timeout, k_tick s1) s2) }) }
      else if \<not> mb_out_offset m < length (mb_msg_pool m) then None
      else do {
        let v = mb_msg_pool m ! mb_out_offset m;
        let s1 = upd_mb i mb_get s;
        (if k_q s1 (mbsq i) \<noteq> []
         then do { s2 \<leftarrow> rt_ipc_list_resume (mbsq i) s1; s3 \<leftarrow> rt_schedule s2;
                   Some (Ret (RT_EOK, Some v) s3) }
         else Some (Ret (RT_EOK, Some v) s1)) })"

definition rt_mb_recv :: "oid \<Rightarrow> int \<Rightarrow> kstate \<Rightarrow> (int \<times> u32 option, tid \<times> int \<times> u32) outcome option" where
  "rt_mb_recv i timeout s =
     (if mb_entry (k_mb s i) = 0 \<and> timeout = 0 then Some (Ret (- RT_ETIMEOUT, None) s)
      else mb_recv_loop i (k_cur s) timeout s)"

definition rt_mb_recv_wake :: "oid \<Rightarrow> tid \<times> int \<times> u32 \<Rightarrow> kstate \<Rightarrow>
    (int \<times> u32 option, tid \<times> int \<times> u32) outcome option" where
  "rt_mb_recv_wake i k s =
     (case k of (t, timeout, tick_delta) \<Rightarrow>
        if t_error (k_thr s t) \<noteq> RT_EOK then Some (Ret (t_error (k_thr s t), None) s)
        else mb_recv_loop i (Some t) (rest_time timeout tick_delta (k_tick s)) s)"

definition rt_mb_control :: "oid \<Rightarrow> bool \<Rightarrow> kstate \<Rightarrow> (int \<times> kstate) option" where
  "rt_mb_control i reset s =
     (if reset
      then do { s1 \<leftarrow> rt_ipc_list_resume_all (mbq i) s;
                s2 \<leftarrow> rt_ipc_list_resume_all (mbsq i) s1;
                s3 \<leftarrow> rt_schedule (upd_mb i (\<lambda>m. m\<lparr>mb_entry := 0, mb_in_offset := 0,
                                     mb_out_offset := 0\<rparr>) s2);
                Some (RT_EOK, s3) }
      else Some (- RT_ERROR, s))"

lemma upd_mb_sel [simp]:
  "k_mb (upd_mb i f s) = (k_mb s)(i := f (k_mb s i))" "k_thr (upd_mb i f s) = k_thr s"
  "k_q (upd_mb i f s) = k_q s" "k_group (upd_mb i f s) = k_group s" "k_cur (upd_mb i f s) = k_cur s"
  "k_cur_prio (upd_mb i f s) = k_cur_prio s" "k_lock (upd_mb i f s) = k_lock s"
  "k_nest (upd_mb i f s) = k_nest s" "k_tick (upd_mb i f s) = k_tick s"
  "k_tmr (upd_mb i f s) = k_tmr s" "k_tlist (upd_mb i f s) = k_tlist s"
  "k_sem (upd_mb i f s) = k_sem s" "k_mtx (upd_mb i f s) = k_mtx s"
  "k_ev (upd_mb i f s) = k_ev s" "k_mq (upd_mb i f s) = k_mq s"
  by (simp_all add: upd_mb_def)

section \<open>The mailbox as a queue\<close>

text \<open>The offsets and the count describe a stretch of the circular array.\<close>

definition mb_wf :: "rt_mailbox \<Rightarrow> bool" where
  "mb_wf m \<longleftrightarrow> wait_flag (mb_flag m) \<and> 0 < mb_size m \<and> mb_size m < 2 ^ 16 \<and>
     length (mb_msg_pool m) = mb_size m \<and> mb_entry m \<le> mb_size m \<and> mb_out_offset m < mb_size m \<and>
     mb_in_offset m = (mb_out_offset m + mb_entry m) mod mb_size m"

definition mb_mails :: "rt_mailbox \<Rightarrow> u32 list" where
  "mb_mails m = ring_read (mb_msg_pool m) (mb_out_offset m) (mb_entry m)"

lemma length_mb_mails [simp]: "length (mb_mails m) = mb_entry m"
  by (simp add: mb_mails_def)

lemma mb_next_mod:
  assumes "off < n" "n < 2 ^ 16"
  shows "mb_next n off = (off + 1) mod n"
  using assms by (cases "off + 1 = n") (auto simp: mb_next_def Let_def)

lemma mb_put_wf:
  assumes wf: "mb_wf m" and room: "mb_entry m \<noteq> mb_size m"
  shows "mb_wf (mb_put v m)" "mb_mails (mb_put v m) = mb_mails m @ [v]" "mb_in_offset m < length (mb_msg_pool m)"
proof -
  have W: "0 < mb_size m" "mb_size m < 2 ^ 16" "length (mb_msg_pool m) = mb_size m"
    "mb_entry m < mb_size m" "mb_out_offset m < mb_size m"
    "mb_in_offset m = (mb_out_offset m + mb_entry m) mod mb_size m" "wait_flag (mb_flag m)"
    using wf room by (auto simp: mb_wf_def)
  show i: "mb_in_offset m < length (mb_msg_pool m)" using W by simp
  have nx: "mb_next (mb_size m) (mb_in_offset m) = (mb_out_offset m + (mb_entry m + 1)) mod mb_size m"
    using mb_next_mod [of "mb_in_offset m" "mb_size m"] i W by (simp add: mod_Suc_eq)
  have en: "(mb_entry m + 1) mod 2 ^ 16 = mb_entry m + 1" using W by simp
  show "mb_wf (mb_put v m)" unfolding mb_put_def mb_wf_def using W nx en by simp
  have "ring_read ((mb_msg_pool m)[mb_in_offset m := v]) (mb_out_offset m) (mb_entry m + 1) =
      ring_read (mb_msg_pool m) (mb_out_offset m) (mb_entry m) @ [v]"
    using ring_read_put_end [of "mb_out_offset m" "mb_msg_pool m" "mb_entry m" "[v]"]
      ring_put_single [OF i, of v] W by simp
  then show "mb_mails (mb_put v m) = mb_mails m @ [v]" unfolding mb_put_def mb_mails_def using en by simp
qed

lemma mb_get_wf:
  assumes wf: "mb_wf m" and some: "mb_entry m \<noteq> 0"
  shows "mb_wf (mb_get m)" "mb_mails m = mb_msg_pool m ! mb_out_offset m # mb_mails (mb_get m)"
    "mb_out_offset m < length (mb_msg_pool m)"
proof -
  have W: "0 < mb_size m" "mb_size m < 2 ^ 16" "length (mb_msg_pool m) = mb_size m"
    "mb_entry m \<le> mb_size m" "mb_out_offset m < mb_size m"
    "mb_in_offset m = (mb_out_offset m + mb_entry m) mod mb_size m" "wait_flag (mb_flag m)"
    using wf by (auto simp: mb_wf_def)
  show "mb_out_offset m < length (mb_msg_pool m)" using W by simp
  have nx: "mb_next (mb_size m) (mb_out_offset m) = (mb_out_offset m + 1) mod mb_size m"
    by (rule mb_next_mod) (use W in simp_all)
  obtain n where n: "mb_entry m = Suc n" using some by (cases "mb_entry m") auto
  show "mb_wf (mb_get m)" unfolding mb_get_def mb_wf_def using W nx n by (simp add: mod_Suc_eq mod_add_left_eq)
  show "mb_mails m = mb_msg_pool m ! mb_out_offset m # mb_mails (mb_get m)"
    unfolding mb_get_def mb_mails_def using n nx W
      ring_read_mod [of "mb_msg_pool m" "Suc (mb_out_offset m)" n] by (simp add: ring_read_Suc)
qed

section \<open>Correctness\<close>

definition mb_inv :: "oid \<Rightarrow> kstate \<Rightarrow> bool" where
  "mb_inv i s \<longleftrightarrow> kernel_ok s \<and> mb_wf (k_mb s i)"

lemma wait_list_mb [simp]: "wait_list (mbq i)" "wait_list (mbsq i)"
  by (simp_all add: wait_list_def)

lemma kernel_ok_upd_mb [simp]: "kernel_ok (upd_mb i f s) \<longleftrightarrow> kernel_ok s"
  by (rule kernel_ok_core) simp_all

lemma mb_flags [simp]: "mb_flag (mb_put v m) = mb_flag m" "mb_size (mb_put v m) = mb_size m"
  "mb_flag (mb_get m) = mb_flag m" "mb_size (mb_get m) = mb_size m"
  by (simp_all add: mb_put_def mb_get_def)

text \<open>A step of one mailbox: what it holds, with every other object as it was.\<close>

definition mb_step :: "oid \<Rightarrow> rt_mailbox \<Rightarrow> qid \<Rightarrow> kstate \<Rightarrow> kstate \<Rightarrow> bool" where
  "mb_step i m' q s s' \<longleftrightarrow> mb_inv i s' \<and> k_mb s' = (k_mb s)(i := m') \<and>
     k_sem s' = k_sem s \<and> k_mtx s' = k_mtx s \<and> k_ev s' = k_ev s \<and> k_mq s' = k_mq s \<and>
     (\<forall>y. wait_list y \<longrightarrow> k_q s' y = (if y = q then tl (k_q s q) else k_q s y)) \<and>
     (\<forall>t ts. k_q s q = t # ts \<longrightarrow>
        (th_stat s' t = RT_THREAD_READY \<or> th_stat s' t = RT_THREAD_RUNNING) \<and>
        t_error (k_thr s' t) = t_error (k_thr s t) \<and> (k_lock s = 0 \<longrightarrow> best_runs s'))"

lemma mb_step_rule:
  assumes inv: "mb_inv i s" and wf: "mb_wf (f (k_mb s i))" and q: "wait_list q"
  obtains s' where "mb_step i (f (k_mb s i)) q s s'"
    "(if k_q s q \<noteq> []
      then do { s2 \<leftarrow> rt_ipc_list_resume q (upd_mb i f s); s3 \<leftarrow> rt_schedule s2; Some (Ret r s3) }
      else Some (Ret r (upd_mb i f s))) = Some (Ret r s')"
proof (cases "k_q s q")
  case Nil
  then show thesis
    by (intro that [of "upd_mb i f s"]) (use inv wf in \<open>auto simp: mb_step_def mb_inv_def\<close>)
next
  case (Cons t ts)
  have ok: "kernel_ok (upd_mb i f s)" using inv by (simp add: mb_inv_def)
  have ne: "k_q (upd_mb i f s) q = t # ts" using Cons by simp
  obtain s2 s' where s': "rt_ipc_list_resume q (upd_mb i f s) = Some s2" "rt_schedule s2 = Some s'"
    "kernel_ok s'" "objs_same (upd_mb i f s) s'"
    "\<And>y. wait_list y \<Longrightarrow> k_q s' y = (if y = q then ts else k_q (upd_mb i f s) y)"
    "th_stat s' t = RT_THREAD_READY \<or> th_stat s' t = RT_THREAD_RUNNING"
    "\<And>u. k_thr s' u = (k_thr (upd_mb i f s) u)\<lparr>t_stat := th_stat s' u\<rparr>"
    "k_lock (upd_mb i f s) = 0 \<Longrightarrow> best_runs s'"
    by (rule wake_first [OF ok q ne]) (rule that, assumption+)
  have "mb_step i (f (k_mb s i)) q s s'"
    using s'(3-6,8) rt_thread_fields(1) [OF s'(7) [of t]] wf Cons
    by (simp add: mb_step_def mb_inv_def objs_same_def)
  then show thesis by (rule that) (use s'(1,2) Cons in simp)
qed

text \<open>Sending into a mailbox with room appends the mail and wakes the first receiver.\<close>

lemma mb_send_loop_room:
  assumes inv: "mb_inv i s" and room: "mb_entry (k_mb s i) \<noteq> mb_size (k_mb s i)"
  shows "\<exists>s'. mb_send_loop i v thread timeout s = Some (Ret RT_EOK s') \<and>
    mb_step i (mb_put v (k_mb s i)) (mbq i) s s'"
proof -
  have wf: "mb_wf (k_mb s i)" using inv by (simp add: mb_inv_def)
  note P = mb_put_wf(1,2) [OF wf room, of v] mb_put_wf(3) [OF wf room]
  obtain s' where "mb_step i (mb_put v (k_mb s i)) (mbq i) s s'"
    "(if k_q s (mbq i) \<noteq> []
      then do { s2 \<leftarrow> rt_ipc_list_resume (mbq i) (upd_mb i (mb_put v) s); s3 \<leftarrow> rt_schedule s2; Some (Ret RT_EOK s3) }
      else Some (Ret RT_EOK (upd_mb i (mb_put v) s))) =
     (Some (Ret RT_EOK s') :: (int, tid \<times> int \<times> u32) outcome option)"
    by (rule mb_step_rule [where f = "mb_put v", OF inv P(1) wait_list_mb(1)])
  then show ?thesis using room P(3) by (auto simp: mb_send_loop_def Let_def)
qed

lemma mb_recv_loop_some:
  assumes inv: "mb_inv i s" and some: "mb_entry (k_mb s i) \<noteq> 0"
  shows "\<exists>s'. mb_recv_loop i thread timeout s = Some (Ret (RT_EOK, Some (hd (mb_mails (k_mb s i)))) s') \<and>
    mb_step i (mb_get (k_mb s i)) (mbsq i) s s' \<and>
    mb_mails (k_mb s i) = hd (mb_mails (k_mb s i)) # mb_mails (mb_get (k_mb s i))"
proof -
  have wf: "mb_wf (k_mb s i)" using inv by (simp add: mb_inv_def)
  note G = mb_get_wf [OF wf some]
  have hd: "hd (mb_mails (k_mb s i)) = mb_msg_pool (k_mb s i) ! mb_out_offset (k_mb s i)"
    using G(2) by simp
  obtain s' where "mb_step i (mb_get (k_mb s i)) (mbsq i) s s'"
    "(if k_q s (mbsq i) \<noteq> []
      then do { s2 \<leftarrow> rt_ipc_list_resume (mbsq i) (upd_mb i mb_get s); s3 \<leftarrow> rt_schedule s2;
                Some (Ret (RT_EOK, Some (hd (mb_mails (k_mb s i)))) s3) }
      else Some (Ret (RT_EOK, Some (hd (mb_mails (k_mb s i)))) (upd_mb i mb_get s))) =
     (Some (Ret (RT_EOK, Some (hd (mb_mails (k_mb s i)))) s') ::
        (int \<times> u32 option, tid \<times> int \<times> u32) outcome option)"
    by (rule mb_step_rule [where f = mb_get, OF inv G(1) wait_list_mb(2)])
  then show ?thesis using some G(2,3) hd by (auto simp: mb_recv_loop_def Let_def)
qed

text \<open>Without waiting time the mailbox is a bounded FIFO of mails, with wakeups on the side.\<close>

definition mb_enq :: "oid \<Rightarrow> kstate \<Rightarrow> u32 \<Rightarrow> kstate option" where
  "mb_enq i s v = (case rt_mb_send i v s of
      Some (Ret r s') \<Rightarrow> if r = RT_EOK then Some s' else None | _ \<Rightarrow> None)"

definition mb_deq :: "oid \<Rightarrow> kstate \<Rightarrow> (u32 \<times> kstate) option" where
  "mb_deq i s = (case rt_mb_recv i 0 s of
      Some (Ret (r, Some v) s') \<Rightarrow> if r = RT_EOK then Some (v, s') else None | _ \<Rightarrow> None)"

lemma mb_enq_cases:
  assumes inv: "mb_inv i s"
  shows "mb_entry (k_mb s i) = mb_size (k_mb s i) \<Longrightarrow> mb_enq i s v = None"
    and "mb_entry (k_mb s i) \<noteq> mb_size (k_mb s i) \<Longrightarrow>
      \<exists>s'. mb_enq i s v = Some s' \<and> mb_step i (mb_put v (k_mb s i)) (mbq i) s s'"
  using mb_send_loop_room [OF inv, of v "k_cur s" 0]
  by (auto simp: mb_enq_def rt_mb_send_def rt_mb_send_wait_def)

lemma mb_deq_cases:
  assumes inv: "mb_inv i s"
  shows "mb_entry (k_mb s i) = 0 \<Longrightarrow> mb_deq i s = None"
    and "mb_entry (k_mb s i) \<noteq> 0 \<Longrightarrow>
      \<exists>s'. mb_deq i s = Some (hd (mb_mails (k_mb s i)), s') \<and> mb_step i (mb_get (k_mb s i)) (mbsq i) s s' \<and>
        mb_mails (k_mb s i) = hd (mb_mails (k_mb s i)) # mb_mails (mb_get (k_mb s i))"
  using mb_recv_loop_some [OF inv, of "k_cur s" 0]
  by (auto simp: mb_deq_def rt_mb_recv_def)

interpretation mbf: bounded_fifo "mb_inv i" "\<lambda>s. mb_mails (k_mb s i)" "\<lambda>s. mb_size (k_mb s i)" "mb_enq i" "mb_deq i"
  for i
proof unfold_locales
  fix s v s'
  assume inv: "mb_inv i s"
  have wf: "mb_wf (k_mb s i)" using inv by (simp add: mb_inv_def)
  show "length (mb_mails (k_mb s i)) \<le> mb_size (k_mb s i)" using wf by (simp add: mb_wf_def)
  show "(mb_enq i s v = None) = (length (mb_mails (k_mb s i)) = mb_size (k_mb s i))"
    using mb_enq_cases [OF inv, of v]
    by (cases "mb_entry (k_mb s i) = mb_size (k_mb s i)") auto
  show "mb_inv i s' \<and> mb_size (k_mb s' i) = mb_size (k_mb s i) \<and>
      mb_mails (k_mb s' i) = mb_mails (k_mb s i) @ [v]" if e: "mb_enq i s v = Some s'"
  proof -
    have room: "mb_entry (k_mb s i) \<noteq> mb_size (k_mb s i)" using mb_enq_cases(1) [OF inv, of v] e by auto
    then show ?thesis
      using mb_enq_cases(2) [OF inv room, of v] e mb_put_wf(2) [OF wf room, of v] by (auto simp: mb_step_def)
  qed
  show "(mb_deq i s = None) = (mb_mails (k_mb s i) = [])"
    using mb_deq_cases [OF inv] by (metis length_0_conv length_mb_mails option.distinct(1))
  show "mb_inv i s' \<and> mb_size (k_mb s' i) = mb_size (k_mb s i) \<and>
      mb_mails (k_mb s i) = v # mb_mails (k_mb s' i)" if d: "mb_deq i s = Some (v, s')"
  proof -
    have some: "mb_entry (k_mb s i) \<noteq> 0" using mb_deq_cases(1) [OF inv] d by auto
    then show ?thesis using mb_deq_cases(2) [OF inv some] d by (auto simp: mb_step_def)
  qed
qed

section \<open>Blocking calls\<close>

lemma rest_time_spec:
  assumes t: "0 < timeout" "timeout < 2 ^ 31" and e: "unat (now - start) < 2 ^ 31"
  shows "rest_time timeout start now = max 0 (timeout - int (unat (now - start)))"
proof -
  let ?d = "now - start"
  have d: "uint ?d = int (unat ?d)" by simp
  have "nat (uint ?d) < nat (2 ^ 31)" using e by simp
  then have "uint ?d < 2 ^ 31" by (subst (asm) nat_less_eq_zless) (rule uint_ge_0, assumption)
  moreover have "0 \<le> uint ?d" by (rule uint_ge_0)
  ultimately have r: "- (2 ^ 31) \<le> timeout - uint ?d \<and> timeout - uint ?d < 2 ^ 31" using t by linarith
  have "sint (word_of_int (timeout - uint ?d) :: u32) = timeout - uint ?d"
    unfolding sint_sbintrunc' by (rule signed_take_bit_int_eq_self) (use r in simp_all)
  moreover have "word_of_int (timeout - uint ?d) = (word_of_int timeout - ?d :: u32)" by simp
  ultimately have "sint (word_of_int timeout - ?d :: u32) = timeout - uint ?d" by metis
  then show ?thesis using t(1) d unfolding rest_time_def Let_def max_def by presburger
qed

lemma rest_time_forever: "timeout < 0 \<Longrightarrow> rest_time timeout start now = timeout"
  by (simp add: rest_time_def)

lemma mb_loop_blocks:
  assumes inv: "mb_inv i s" and cur: "k_cur s = Some t" and run: "th_stat s t = RT_THREAD_RUNNING"
    and isr: "k_nest s = 0" and time: "timeout < 0x7fffffff" and q: "wait_list q"
  obtains s' where
    "ipc_block q t (mb_flag (k_mb s i)) timeout (upd_thr t (\<lambda>h. h\<lparr>t_error := RT_EOK\<rparr>) s) = Some s'"
    "mb_inv i s'" "objs_same s s'" "th_stat s' t = RT_THREAD_SUSPEND"
    "k_q s' q = waiters_with s t (mb_flag (k_mb s i)) (k_q s q)" "t_error (k_thr s' t) = RT_EOK"
proof -
  let ?s1 = "upd_thr t (\<lambda>h. h\<lparr>t_error := RT_EOK\<rparr>) s"
  have ok1: "kernel_ok ?s1" using inv kernel_ok_core [of ?s1 s] by (simp add: thr_core_def mb_inv_def)
  have run1: "th_stat ?s1 t = RT_THREAD_RUNNING" using run by simp
  have fl: "wait_flag (mb_flag (k_mb s i))" using inv by (simp add: mb_inv_def mb_wf_def)
  obtain s' where s': "ipc_block q t (mb_flag (k_mb s i)) timeout ?s1 = Some s'"
    "blocked ?s1 q t (mb_flag (k_mb s i)) timeout s'"
    by (rule ipc_block_spec [OF ok1 run1 q fl time])
  note B = blockedD [OF s'(2)]
  show thesis
  proof (rule that [OF s'(1)])
    show "objs_same s s'" using B(2) by (simp add: objs_same_def)
    then show "mb_inv i s'" using B(1) inv by (simp add: mb_inv_def objs_same_def)
    show "th_stat s' t = RT_THREAD_SUSPEND" by (rule B(3))
    show "k_q s' q = waiters_with s t (mb_flag (k_mb s i)) (k_q s q)"
      using B(4) [OF q] waiters_with_cong [of t "k_q s q" ?s1 s] by simp
    show "t_error (k_thr s' t) = RT_EOK" using rt_thread_fields(1) [OF B(5) [of t]] by simp
  qed
qed

lemma rt_mb_send_blocks:
  assumes inv: "mb_inv i s" and cur: "k_cur s = Some t" and run: "th_stat s t = RT_THREAD_RUNNING"
    and isr: "k_nest s = 0" and time: "timeout \<noteq> 0" "timeout < 0x7fffffff"
    and full: "mb_entry (k_mb s i) = mb_size (k_mb s i)"
  shows "\<exists>s'. rt_mb_send_wait i v timeout s = Some (Wait (t, timeout, k_tick s) s') \<and> mb_inv i s' \<and>
    objs_same s s' \<and> th_stat s' t = RT_THREAD_SUSPEND \<and>
    k_q s' (mbsq i) = waiters_with s t (mb_flag (k_mb s i)) (k_q s (mbsq i)) \<and> t_error (k_thr s' t) = RT_EOK"
proof -
  obtain s' where s': "ipc_block (mbsq i) t (mb_flag (k_mb s i)) timeout (upd_thr t (\<lambda>h. h\<lparr>t_error := RT_EOK\<rparr>) s) = Some s'"
    "mb_inv i s'" "objs_same s s'" "th_stat s' t = RT_THREAD_SUSPEND"
    "k_q s' (mbsq i) = waiters_with s t (mb_flag (k_mb s i)) (k_q s (mbsq i))" "t_error (k_thr s' t) = RT_EOK"
    by (rule mb_loop_blocks [OF inv cur run isr time(2) wait_list_mb(2)]) (rule that, assumption+)
  then show ?thesis using cur isr time(1) full
    by (simp add: rt_mb_send_wait_def mb_send_loop_def in_thread_context_def Let_def del: upd_thr_sel(1))
qed

lemma rt_mb_recv_blocks:
  assumes inv: "mb_inv i s" and cur: "k_cur s = Some t" and run: "th_stat s t = RT_THREAD_RUNNING"
    and isr: "k_nest s = 0" and time: "timeout \<noteq> 0" "timeout < 0x7fffffff"
    and empty: "mb_entry (k_mb s i) = 0"
  shows "\<exists>s'. rt_mb_recv i timeout s = Some (Wait (t, timeout, k_tick s) s') \<and> mb_inv i s' \<and>
    objs_same s s' \<and> th_stat s' t = RT_THREAD_SUSPEND \<and>
    k_q s' (mbq i) = waiters_with s t (mb_flag (k_mb s i)) (k_q s (mbq i)) \<and> t_error (k_thr s' t) = RT_EOK"
proof -
  obtain s' where s': "ipc_block (mbq i) t (mb_flag (k_mb s i)) timeout (upd_thr t (\<lambda>h. h\<lparr>t_error := RT_EOK\<rparr>) s) = Some s'"
    "mb_inv i s'" "objs_same s s'" "th_stat s' t = RT_THREAD_SUSPEND"
    "k_q s' (mbq i) = waiters_with s t (mb_flag (k_mb s i)) (k_q s (mbq i))" "t_error (k_thr s' t) = RT_EOK"
    by (rule mb_loop_blocks [OF inv cur run isr time(2) wait_list_mb(1)]) (rule that, assumption+)
  then show ?thesis using cur isr time(1) empty
    by (simp add: rt_mb_recv_def mb_recv_loop_def in_thread_context_def Let_def del: upd_thr_sel(1))
qed

lemma rt_mb_control_spec:
  assumes inv: "mb_inv i s"
  shows "\<exists>s'. rt_mb_control i True s = Some (RT_EOK, s') \<and> mb_inv i s' \<and> mb_mails (k_mb s' i) = [] \<and>
    k_q s' (mbq i) = [] \<and> k_q s' (mbsq i) = []"
proof -
  have ok: "kernel_ok s" and wf: "mb_wf (k_mb s i)" using inv by (simp_all add: mb_inv_def)
  obtain s1 where s1: "rt_ipc_list_resume_all (mbq i) s = Some s1" "drained s (mbq i) s1"
    using rt_ipc_list_resume_all_spec [OF ok wait_list_mb(1)] by blast
  have ok1: "kernel_ok s1" using s1(2) by (simp add: drained_def)
  obtain s2 where s2: "rt_ipc_list_resume_all (mbsq i) s1 = Some s2" "drained s1 (mbsq i) s2"
    using rt_ipc_list_resume_all_spec [OF ok1 wait_list_mb(2)] by blast
  let ?f = "\<lambda>m. m\<lparr>mb_entry := 0, mb_in_offset := 0, mb_out_offset := 0\<rparr>"
  have ok2: "kernel_ok (upd_mb i ?f s2)" using s2(2) by (simp add: drained_def)
  obtain s' where s': "rt_schedule (upd_mb i ?f s2) = Some s'" "kernel_inv s'" "sched_only (upd_mb i ?f s2) s'"
    by (rule rt_schedule_kernel [OF kernel_okD(1) [OF ok2]])
  note O = sched_onlyD [OF s'(3)]
  have mb: "k_mb s' i = ?f (k_mb s i)"
    using O(1) s1(2) s2(2) by (simp add: drained_def objs_same_def)
  have "mb_wf (k_mb s' i)" using wf by (simp add: mb mb_wf_def)
  moreover have "kernel_ok s'" by (rule sched_only_kernel_ok [OF s'(2) kernel_okD(2) [OF ok2] s'(3)])
  moreover have "k_q s' (mbq i) = []" "k_q s' (mbsq i) = []"
    using O(4,5) s1(2) s2(2) by (simp_all add: drained_def)
  ultimately show ?thesis
    using s1(1) s2(1) s'(1) by (simp add: rt_mb_control_def mb_inv_def mb mb_mails_def)
qed

end
