(* ===== verification/MqCore.thy ===== *)
theory MqCore
  imports KState "HOL-Library.Monad_Syntax"
begin

text \<open>
  The message list of a message queue (src/ipc.c), apart from the waiting threads: message nodes
  of the pool are linked into the queue or into the free list, or are in the hands of a thread that
  copies a message in or out. The code enables interrupts while it copies, so the pieces between two
  enablings are separate operations here, and \<open>mq_step\<close> interleaves them freely.
\<close>

section \<open>The pieces of the operations\<close>

text \<open>Taking a node off the free list; no node is left when the queue is full.\<close>

definition mq_alloc :: "rt_messagequeue \<Rightarrow> (nat \<times> rt_messagequeue) option" where
  "mq_alloc m = (case mq_free m of None \<Rightarrow> None | Some n \<Rightarrow> Some (n, m\<lparr>mq_free := mq_next m n\<rparr>))"

definition mq_end :: "nat \<Rightarrow> rt_messagequeue \<Rightarrow> rt_messagequeue" where
  "mq_end n m = m\<lparr>mq_next := (mq_next m)(n := None)\<rparr>"

definition mq_copy_in :: "nat \<Rightarrow> u8 list \<Rightarrow> nat \<Rightarrow> rt_messagequeue \<Rightarrow> rt_messagequeue option" where
  "mq_copy_in n buffer sz m =
     do { b \<leftarrow> memcpy (mq_body m n) 0 buffer 0 (int sz);
          Some (m\<lparr>mq_body := (mq_body m)(n := b)\<rparr>) }"

definition mq_link_tail :: "nat \<Rightarrow> rt_messagequeue \<Rightarrow> rt_messagequeue" where
  "mq_link_tail n m =
     (let m1 = (case mq_tail m of None \<Rightarrow> m
                | Some t \<Rightarrow> m\<lparr>mq_next := (mq_next m)(t := Some n)\<rparr>);
          m2 = m1\<lparr>mq_tail := Some n\<rparr>;
          m3 = (if mq_head m2 = None then m2\<lparr>mq_head := Some n\<rparr> else m2)
      in m3\<lparr>mq_entry := (mq_entry m3 + 1) mod 2 ^ 16\<rparr>)"

definition mq_link_head :: "nat \<Rightarrow> rt_messagequeue \<Rightarrow> rt_messagequeue" where
  "mq_link_head n m =
     (let m1 = m\<lparr>mq_next := (mq_next m)(n := mq_head m), mq_head := Some n\<rparr>;
          m2 = (if mq_tail m1 = None then m1\<lparr>mq_tail := Some n\<rparr> else m1)
      in m2\<lparr>mq_entry := (mq_entry m2 + 1) mod 2 ^ 16\<rparr>)"

text \<open>The head of the queue; without one the code would read through a null pointer.\<close>

definition mq_unlink :: "rt_messagequeue \<Rightarrow> (nat \<times> rt_messagequeue) option" where
  "mq_unlink m =
     (case mq_head m of None \<Rightarrow> None
      | Some n \<Rightarrow>
          let m1 = m\<lparr>mq_head := mq_next m n\<rparr>
          in Some (n, if mq_tail m1 = Some n then m1\<lparr>mq_tail := None\<rparr> else m1))"

definition mq_take :: "rt_messagequeue \<Rightarrow> (nat \<times> rt_messagequeue) option" where
  "mq_take m =
     (case mq_unlink m of None \<Rightarrow> None
      | Some (n, m1) \<Rightarrow> Some (n, m1\<lparr>mq_entry := nat ((int (mq_entry m1) - 1) mod 2 ^ 16)\<rparr>))"

definition mq_copy_out :: "nat \<Rightarrow> u8 list \<Rightarrow> nat \<Rightarrow> rt_messagequeue \<Rightarrow> u8 list option" where
  "mq_copy_out n buffer sz m =
     memcpy buffer 0 (mq_body m n) 0 (int (if sz > mq_msg_size m then mq_msg_size m else sz))"

definition mq_release :: "nat \<Rightarrow> rt_messagequeue \<Rightarrow> rt_messagequeue" where
  "mq_release n m = m\<lparr>mq_next := (mq_next m)(n := mq_free m), mq_free := Some n\<rparr>"

text \<open>The loop of the reset command.\<close>

partial_function (option) mq_flush :: "rt_messagequeue \<Rightarrow> rt_messagequeue option" where
  "mq_flush m =
     (case mq_unlink m of None \<Rightarrow> Some m | Some (n, m1) \<Rightarrow> mq_flush (mq_release n m1))"

text \<open>Threading the first \<open>n\<close> nodes of the pool into the free list.\<close>

primrec mq_thread_pool :: "nat \<Rightarrow> rt_messagequeue \<Rightarrow> rt_messagequeue" where
  "mq_thread_pool 0 m = m"
| "mq_thread_pool (Suc n) m = mq_release n (mq_thread_pool n m)"

definition mq_setup :: "nat \<Rightarrow> nat \<Rightarrow> nat \<Rightarrow> (nat \<Rightarrow> u8 list) \<Rightarrow> rt_messagequeue \<Rightarrow> rt_messagequeue" where
  "mq_setup flag msg_size max_msgs pool m =
     (mq_thread_pool max_msgs (m\<lparr>mq_flag := flag, mq_msg_size := msg_size, mq_max_msgs := max_msgs,
        mq_body := pool, mq_head := None, mq_tail := None, mq_free := None\<rparr>))\<lparr>mq_entry := 0\<rparr>"

section \<open>Chains of nodes\<close>

fun mq_chain :: "(nat \<Rightarrow> nat option) \<Rightarrow> nat option \<Rightarrow> nat list \<Rightarrow> bool" where
  "mq_chain nx h [] \<longleftrightarrow> h = None"
| "mq_chain nx h (n # ns) \<longleftrightarrow> h = Some n \<and> mq_chain nx (nx n) ns"

lemma mq_chain_other [simp]: "n \<notin> set ns \<Longrightarrow> mq_chain (nx(n := x)) h ns = mq_chain nx h ns"
  by (induction ns arbitrary: h) auto

lemma mq_chain_unique: "mq_chain nx h ns \<Longrightarrow> mq_chain nx h ms \<Longrightarrow> ns = ms"
proof (induction ns arbitrary: h ms)
  case Nil
  then show ?case by (cases ms) auto
next
  case (Cons n ns)
  then show ?case by (cases ms) auto
qed

lemma mq_chain_Some: "mq_chain nx (Some n) ns \<longleftrightarrow> (\<exists>ms. ns = n # ms \<and> mq_chain nx (nx n) ms)"
  by (cases ns) auto

lemma mq_chain_None [simp]: "mq_chain nx None ns \<longleftrightarrow> ns = []"
  by (cases ns) auto

lemma mq_chain_snoc:
  "mq_chain nx h ns \<Longrightarrow> ns \<noteq> [] \<Longrightarrow> distinct ns \<Longrightarrow> n \<notin> set ns \<Longrightarrow> nx n = None \<Longrightarrow>
     mq_chain (nx(last ns := Some n)) h (ns @ [n])"
proof (induction ns arbitrary: h)
  case (Cons a ns)
  show ?case
  proof (cases "ns = []")
    case True
    then show ?thesis using Cons.prems by auto
  next
    case False
    then have "mq_chain (nx(last ns := Some n)) (nx a) (ns @ [n])"
      by (intro Cons.IH) (use Cons.prems in simp_all)
    moreover have "last ns \<noteq> a" using False Cons.prems by (metis distinct.simps(2) last_in_set)
    ultimately show ?thesis using False Cons.prems
      by (simp del: fun_upd_apply add: fun_upd_other)
  qed
qed simp

lemma mq_chain_end: "mq_chain nx h ns \<Longrightarrow> ns \<noteq> [] \<Longrightarrow> nx (last ns) = None"
proof (induction ns arbitrary: h)
  case (Cons a ns)
  then show ?case by (cases ns) auto
qed simp

text \<open>
  \<open>qs\<close> are the nodes of the queue, \<open>fs\<close> the free ones and \<open>out\<close> those in the hands of
  a thread; together they are the pool.
\<close>

definition mq_rep :: "rt_messagequeue \<Rightarrow> nat list \<Rightarrow> nat list \<Rightarrow> nat set \<Rightarrow> bool" where
  "mq_rep m qs fs out \<longleftrightarrow>
     mq_chain (mq_next m) (mq_head m) qs \<and> mq_chain (mq_next m) (mq_free m) fs \<and>
     distinct (qs @ fs) \<and> set (qs @ fs) \<inter> out = {} \<and> set (qs @ fs) \<union> out = {..<mq_max_msgs m} \<and>
     mq_tail m = (if qs = [] then None else Some (last qs)) \<and> mq_entry m = length qs \<and>
     mq_max_msgs m < 2 ^ 16 \<and> (\<forall>n < mq_max_msgs m. length (mq_body m n) = mq_msg_size m)"

lemma mq_repD:
  assumes "mq_rep m qs fs out"
  shows "mq_chain (mq_next m) (mq_head m) qs" "mq_chain (mq_next m) (mq_free m) fs"
    "distinct (qs @ fs)" "set (qs @ fs) \<inter> out = {}" "set (qs @ fs) \<union> out = {..<mq_max_msgs m}"
    "mq_tail m = (if qs = [] then None else Some (last qs))" "mq_entry m = length qs"
    "mq_max_msgs m < 2 ^ 16" "n < mq_max_msgs m \<Longrightarrow> length (mq_body m n) = mq_msg_size m"
  using assms unfolding mq_rep_def by blast+

lemma mq_rep_cong:
  assumes "mq_next m' = mq_next m" "mq_head m' = mq_head m" "mq_free m' = mq_free m" "mq_tail m' = mq_tail m"
    "mq_entry m' = mq_entry m" "mq_max_msgs m' = mq_max_msgs m" "mq_body m' = mq_body m"
    "mq_msg_size m' = mq_msg_size m"
  shows "mq_rep m' qs fs out = mq_rep m qs fs out"
  by (simp add: mq_rep_def assms)

lemma mq_rep_count:
  assumes "mq_rep m qs fs out"
  shows "length qs + length fs + card out = mq_max_msgs m" "finite out"
proof -
  note R = mq_repD [OF assms]
  show f: "finite out" using R(5) by (metis finite_Un finite_lessThan)
  have "mq_max_msgs m = card (set (qs @ fs) \<union> out)" using R(5) by simp
  also have "\<dots> = card (set (qs @ fs)) + card out" by (rule card_Un_disjoint) (use f R(4) in auto)
  also have "card (set (qs @ fs)) = length qs + length fs" using distinct_card [OF R(3)] by simp
  finally show "length qs + length fs + card out = mq_max_msgs m" by simp
qed

lemma mq_rep_bound:
  assumes "mq_rep m qs fs out"
  shows "n \<in> set qs \<Longrightarrow> n < mq_max_msgs m" "n \<in> set fs \<Longrightarrow> n < mq_max_msgs m" "n \<in> out \<Longrightarrow> n < mq_max_msgs m"
  using mq_repD(5) [OF assms] by auto

section \<open>What the pieces do\<close>

lemma mq_alloc_rep:
  assumes "mq_rep m qs (n # fs) out"
  shows "mq_alloc m = Some (n, m\<lparr>mq_free := mq_next m n\<rparr>)"
    "mq_rep (m\<lparr>mq_free := mq_next m n\<rparr>) qs fs (insert n out)" "n \<notin> out" "n < mq_max_msgs m"
proof -
  note R = mq_repD [OF assms]
  show "mq_alloc m = Some (n, m\<lparr>mq_free := mq_next m n\<rparr>)" using R(2) by (simp add: mq_alloc_def)
  show "mq_rep (m\<lparr>mq_free := mq_next m n\<rparr>) qs fs (insert n out)" unfolding mq_rep_def
    using R by (simp add: insert_commute)
  show "n \<notin> out" "n < mq_max_msgs m" using R(4,5) by auto
qed

lemma mq_alloc_full: "mq_rep m qs fs out \<Longrightarrow> mq_alloc m = None \<longleftrightarrow> fs = []"
  using mq_repD(2) [of m qs fs out] by (cases fs) (auto simp: mq_alloc_def)

lemma mq_alloc_cases:
  assumes "mq_rep m qs fs out" and "mq_alloc m = Some (n, m')"
  obtains fs' where "fs = n # fs'" "m' = m\<lparr>mq_free := mq_next m n\<rparr>" "mq_rep m' qs fs' (insert n out)"
    "n \<notin> out" "n < mq_max_msgs m"
proof (cases fs)
  case Nil
  then show thesis using assms mq_alloc_full by fastforce
next
  case (Cons a fs')
  note A = mq_alloc_rep [OF assms(1) [unfolded Cons]]
  have "n = a" "m' = m\<lparr>mq_free := mq_next m a\<rparr>" using A(1) assms(2) by simp_all
  then show thesis by (intro that [of fs']) (use A Cons in simp_all)
qed

lemma mq_end_rep:
  assumes "mq_rep m qs fs out" and "n \<in> out"
  shows "mq_rep (mq_end n m) qs fs out"
proof -
  note R = mq_repD [OF assms(1)]
  have "n \<notin> set qs" "n \<notin> set fs" using R(4) assms(2) by auto
  then show ?thesis using R by (simp add: mq_rep_def mq_end_def)
qed

lemma mq_end_sel [simp]:
  "mq_next (mq_end n m) n = None" "mq_body (mq_end n m) = mq_body m" "mq_max_msgs (mq_end n m) = mq_max_msgs m"
  "mq_msg_size (mq_end n m) = mq_msg_size m" "x \<noteq> n \<Longrightarrow> mq_next (mq_end n m) x = mq_next m x"
  "mq_flag (mq_end n m) = mq_flag m" "mq_entry (mq_end n m) = mq_entry m"
  by (simp_all add: mq_end_def)

text \<open>A message of \<open>sz\<close> bytes in a slot that held \<open>old\<close>.\<close>

definition stored :: "u8 list \<Rightarrow> nat \<Rightarrow> u8 list \<Rightarrow> u8 list" where
  "stored buffer sz old = take sz buffer @ drop sz old"

lemma length_stored [simp]:
  "sz \<le> length buffer \<Longrightarrow> sz \<le> length old \<Longrightarrow> length (stored buffer sz old) = length old"
  by (simp add: stored_def)

lemma take_stored [simp]: "sz \<le> length buffer \<Longrightarrow> take sz (stored buffer sz old) = take sz buffer"
  by (simp add: stored_def)

lemma mq_copy_in_eq:
  assumes "sz \<le> length buffer" and "sz \<le> length (mq_body m n)"
  shows "mq_copy_in n buffer sz m = Some (m\<lparr>mq_body := (mq_body m)(n := stored buffer sz (mq_body m n))\<rparr>)"
  using assms by (simp add: mq_copy_in_def memcpy_def stored_def)

lemma mq_body_rep:
  assumes "mq_rep m qs fs out" and "length b = mq_msg_size m"
  shows "mq_rep (m\<lparr>mq_body := (mq_body m)(n := b)\<rparr>) qs fs out"
  using assms by (simp add: mq_rep_def)

lemma mq_link_tail_rep:
  assumes "mq_rep m qs fs out" and "n \<in> out" and "mq_next m n = None"
  shows "mq_rep (mq_link_tail n m) (qs @ [n]) fs (out - {n})" "mq_body (mq_link_tail n m) = mq_body m"
    "x \<in> out - {n} \<Longrightarrow> mq_next (mq_link_tail n m) x = mq_next m x"
    "mq_msg_size (mq_link_tail n m) = mq_msg_size m" "mq_max_msgs (mq_link_tail n m) = mq_max_msgs m"
    "mq_flag (mq_link_tail n m) = mq_flag m"
proof -
  note R = mq_repD [OF assms(1)]
  have n: "n \<notin> set qs" "n \<notin> set fs" using R(4) assms(2) by auto
  have en: "(length qs + 1) mod 2 ^ 16 = length qs + 1"
  proof -
    have "length qs + card out \<le> mq_max_msgs m" "0 < card out"
      using mq_rep_count [OF assms(1)] assms(2) by (auto simp: card_gt_0_iff)
    then show ?thesis using R(8) by simp
  qed
  have s: "set ((qs @ [n]) @ fs) \<union> (out - {n}) = {..<mq_max_msgs m}"
    using R(5) assms(2) by auto
  have s2: "set ((qs @ [n]) @ fs) \<inter> (out - {n}) = {}" using R(4) by auto
  have hd: "mq_head m = None \<longleftrightarrow> qs = []" using R(1) by (cases qs) auto
  show "mq_rep (mq_link_tail n m) (qs @ [n]) fs (out - {n})"
  proof (cases "qs = []")
    case True
    then show ?thesis using R n s s2 hd en assms(3)
      by (simp add: mq_rep_def mq_link_tail_def Let_def)
  next
    case False
    then have l: "last qs \<notin> set fs" using R(3) last_in_set [OF False] unfolding distinct_append by blast
    let ?nx = "(mq_next m)(last qs := Some n)"
    have c: "mq_chain ?nx (mq_head m) (qs @ [n])"
      by (rule mq_chain_snoc) (use R False n assms(3) in simp_all)
    have e: "mq_link_tail n m = m\<lparr>mq_next := ?nx, mq_tail := Some n, mq_entry := length qs + 1\<rparr>"
      using hd False R(6,7) en by (simp add: mq_link_tail_def Let_def)
    show ?thesis unfolding e mq_rep_def
    proof (intro conjI)
      show "mq_chain (mq_next (m\<lparr>mq_next := ?nx, mq_tail := Some n, mq_entry := length qs + 1\<rparr>))
          (mq_free (m\<lparr>mq_next := ?nx, mq_tail := Some n, mq_entry := length qs + 1\<rparr>)) fs"
        using R(2) mq_chain_other [OF l] by simp
      show "distinct ((qs @ [n]) @ fs)" using R(3) n by auto
    qed (use c s s2 R(8,9) in simp_all)
  qed
  show "mq_next (mq_link_tail n m) x = mq_next m x" if "x \<in> out - {n}"
  proof -
    have "x \<notin> set qs" using that R(4) by auto
    then show ?thesis using R(6) last_in_set [of qs] by (cases "qs = []") (auto simp: mq_link_tail_def Let_def)
  qed
qed (simp_all add: mq_link_tail_def Let_def split: option.splits)

lemma mq_link_head_rep:
  assumes "mq_rep m qs fs out" and "n \<in> out"
  shows "mq_rep (mq_link_head n m) (n # qs) fs (out - {n})" "mq_body (mq_link_head n m) = mq_body m"
    "x \<in> out - {n} \<Longrightarrow> mq_next (mq_link_head n m) x = mq_next m x"
    "mq_msg_size (mq_link_head n m) = mq_msg_size m" "mq_max_msgs (mq_link_head n m) = mq_max_msgs m"
    "mq_flag (mq_link_head n m) = mq_flag m"
proof -
  note R = mq_repD [OF assms(1)]
  have n: "n \<notin> set qs" "n \<notin> set fs" using R(4) assms(2) by auto
  have en: "(length qs + 1) mod 2 ^ 16 = length qs + 1"
  proof -
    have "length qs + card out \<le> mq_max_msgs m" "0 < card out"
      using mq_rep_count [OF assms(1)] assms(2) by (auto simp: card_gt_0_iff)
    then show ?thesis using R(8) by simp
  qed
  have s: "set ((n # qs) @ fs) \<union> (out - {n}) = {..<mq_max_msgs m}" using R(5) assms(2) by auto
  show "mq_rep (mq_link_head n m) (n # qs) fs (out - {n})"
    using R n s en by (cases "qs = []") (simp_all add: mq_rep_def mq_link_head_def Let_def, blast+)
qed (auto simp: mq_link_head_def Let_def split: option.splits)

lemma mq_unlink_rep:
  assumes "mq_rep m (n # qs) fs out"
  obtains m' where "mq_unlink m = Some (n, m')" "mq_rep (m'\<lparr>mq_entry := length qs\<rparr>) qs fs (insert n out)"
    "mq_body m' = mq_body m" "mq_next m' = mq_next m" "mq_entry m' = mq_entry m"
    "mq_msg_size m' = mq_msg_size m" "mq_max_msgs m' = mq_max_msgs m" "mq_flag m' = mq_flag m"
proof -
  note R = mq_repD [OF assms]
  let ?m1 = "m\<lparr>mq_head := mq_next m n\<rparr>"
  have tl: "mq_tail m = Some n \<longleftrightarrow> qs = []"
    using R(3,6) by (cases "qs = []") (auto dest: last_in_set)
  let ?m' = "?m1\<lparr>mq_tail := (if qs = [] then None else mq_tail m)\<rparr>"
  have "mq_unlink m = Some (n, ?m')" using R(1) tl by (simp add: mq_unlink_def Let_def)
  moreover have "mq_rep (?m'\<lparr>mq_entry := length qs\<rparr>) qs fs (insert n out)"
    unfolding mq_rep_def
  proof (intro conjI)
    show "set (qs @ fs) \<inter> insert n out = {}" using R(3,4) by auto
    show "set (qs @ fs) \<union> insert n out = {..<mq_max_msgs (?m'\<lparr>mq_entry := length qs\<rparr>)}" using R(5) by auto
  qed (use R in simp_all)
  ultimately show thesis by (rule that) auto
qed

lemma mq_take_rep:
  assumes "mq_rep m (n # qs) fs out"
  obtains m' where "mq_take m = Some (n, m')" "mq_rep m' qs fs (insert n out)"
    "mq_body m' = mq_body m" "mq_next m' = mq_next m"
    "mq_msg_size m' = mq_msg_size m" "mq_max_msgs m' = mq_max_msgs m" "mq_flag m' = mq_flag m"
proof -
  obtain m' where m': "mq_unlink m = Some (n, m')" "mq_rep (m'\<lparr>mq_entry := length qs\<rparr>) qs fs (insert n out)"
    "mq_body m' = mq_body m" "mq_next m' = mq_next m" "mq_entry m' = mq_entry m"
    "mq_msg_size m' = mq_msg_size m" "mq_max_msgs m' = mq_max_msgs m" "mq_flag m' = mq_flag m"
    by (rule mq_unlink_rep [OF assms])
  have "mq_entry m' = Suc (length qs)" "Suc (length qs) < 2 ^ 16"
    using m'(5) mq_repD(7,8) [OF assms] mq_rep_count(1) [OF assms] by simp_all
  then have "nat ((int (mq_entry m') - 1) mod 2 ^ 16) = length qs" by simp
  then have "mq_take m = Some (n, m'\<lparr>mq_entry := length qs\<rparr>)" using m'(1) by (simp add: mq_take_def)
  then show thesis by (rule that) (use m' in simp_all)
qed

lemma mq_release_rep:
  assumes "mq_rep m qs fs out" and "n \<in> out"
  shows "mq_rep (mq_release n m) qs (n # fs) (out - {n})" "mq_body (mq_release n m) = mq_body m"
    "x \<noteq> n \<Longrightarrow> mq_next (mq_release n m) x = mq_next m x"
    "mq_msg_size (mq_release n m) = mq_msg_size m" "mq_max_msgs (mq_release n m) = mq_max_msgs m"
    "mq_flag (mq_release n m) = mq_flag m" "mq_entry (mq_release n m) = mq_entry m"
proof -
  note R = mq_repD [OF assms(1)]
  have n: "n \<notin> set qs" "n \<notin> set fs" using R(4) assms(2) by auto
  have "set (qs @ n # fs) \<union> (out - {n}) = {..<mq_max_msgs m}" using R(5) assms(2) by auto
  then show "mq_rep (mq_release n m) qs (n # fs) (out - {n})"
    using R n by (simp add: mq_rep_def mq_release_def) blast
qed (simp_all add: mq_release_def)

lemma mq_flush_rep:
  assumes "mq_rep (m\<lparr>mq_entry := length qs\<rparr>) qs fs out"
  shows "\<exists>m'. mq_flush m = Some m' \<and> mq_rep (m'\<lparr>mq_entry := 0\<rparr>) [] (rev qs @ fs) out \<and>
    mq_body m' = mq_body m \<and> (\<forall>x \<in> out. mq_next m' x = mq_next m x) \<and> mq_msg_size m' = mq_msg_size m \<and>
    mq_max_msgs m' = mq_max_msgs m \<and> mq_flag m' = mq_flag m"
  using assms
proof (induction qs arbitrary: m fs)
  case Nil
  then have "mq_head m = None" using mq_repD(1) [OF Nil.prems] by simp
  then show ?case using Nil.prems
    by (intro exI [of _ m]) (simp add: mq_flush.simps mq_unlink_def)
next
  case (Cons n qs)
  let ?e = "m\<lparr>mq_entry := length (n # qs)\<rparr>"
  obtain m1 where m1: "mq_unlink ?e = Some (n, m1)" "mq_rep (m1\<lparr>mq_entry := length qs\<rparr>) qs fs (insert n out)"
    "mq_body m1 = mq_body ?e" "mq_next m1 = mq_next ?e" "mq_entry m1 = mq_entry ?e"
    "mq_msg_size m1 = mq_msg_size ?e" "mq_max_msgs m1 = mq_max_msgs ?e" "mq_flag m1 = mq_flag ?e"
    by (rule mq_unlink_rep [OF Cons.prems])
  let ?m2 = "m1\<lparr>mq_entry := mq_entry m\<rparr>"
  have u: "mq_unlink m = Some (n, ?m2)"
    using m1(1) by (auto simp: mq_unlink_def Let_def split: option.splits if_splits)
  have n: "n \<notin> out" using mq_repD(4) [OF Cons.prems] by simp
  note L = mq_release_rep [OF m1(2), of n, simplified]
  have "mq_rep ((mq_release n ?m2)\<lparr>mq_entry := length qs\<rparr>) qs (n # fs) out"
    using mq_rep_cong [THEN iffD1, OF _ _ _ _ _ _ _ _ L(1)] n by (simp add: mq_release_def)
  from Cons.IH [OF this] obtain m' where m': "mq_flush (mq_release n ?m2) = Some m'"
    "mq_rep (m'\<lparr>mq_entry := 0\<rparr>) [] (rev qs @ n # fs) out" "mq_body m' = mq_body (mq_release n ?m2)"
    "\<forall>x \<in> out. mq_next m' x = mq_next (mq_release n ?m2) x" "mq_msg_size m' = mq_msg_size (mq_release n ?m2)"
    "mq_max_msgs m' = mq_max_msgs (mq_release n ?m2)" "mq_flag m' = mq_flag (mq_release n ?m2)" by blast
  have "mq_flush m = Some m'" by (subst mq_flush.simps) (simp add: u m'(1))
  moreover have "\<forall>x \<in> out. mq_next m' x = mq_next m x"
    using m'(4) m1(4) n by (auto simp: mq_release_def)
  ultimately show ?case
    using m'(2,3,5,6,7) m1(3,6,7,8) by (intro exI [of _ m']) (simp add: mq_release_def)
qed

text \<open>Setting the queue up threads every node into the free list, the last one first.\<close>

lemma mq_thread_pool_rep:
  assumes "mq_free m = None"
  shows "mq_chain (mq_next (mq_thread_pool n m)) (mq_free (mq_thread_pool n m)) (rev [0..<n]) \<and>
    mq_head (mq_thread_pool n m) = mq_head m \<and> mq_tail (mq_thread_pool n m) = mq_tail m \<and>
    mq_body (mq_thread_pool n m) = mq_body m \<and> mq_msg_size (mq_thread_pool n m) = mq_msg_size m \<and>
    mq_max_msgs (mq_thread_pool n m) = mq_max_msgs m \<and> mq_flag (mq_thread_pool n m) = mq_flag m"
  using assms by (induction n) (simp_all add: mq_release_def)

lemma mq_setup_rep:
  assumes "max_msgs < 2 ^ 16" and "\<And>n. n < max_msgs \<Longrightarrow> length (pool n) = msg_size"
  shows "mq_rep (mq_setup flag msg_size max_msgs pool m) [] (rev [0..<max_msgs]) {}"
    "mq_max_msgs (mq_setup flag msg_size max_msgs pool m) = max_msgs"
    "mq_msg_size (mq_setup flag msg_size max_msgs pool m) = msg_size"
    "mq_flag (mq_setup flag msg_size max_msgs pool m) = flag"
proof -
  let ?m0 = "m\<lparr>mq_flag := flag, mq_msg_size := msg_size, mq_max_msgs := max_msgs,
        mq_body := pool, mq_head := None, mq_tail := None, mq_free := None\<rparr>"
  have T: "mq_chain (mq_next (mq_thread_pool max_msgs ?m0)) (mq_free (mq_thread_pool max_msgs ?m0)) (rev [0..<max_msgs])"
    "mq_head (mq_thread_pool max_msgs ?m0) = None" "mq_tail (mq_thread_pool max_msgs ?m0) = None"
    "mq_body (mq_thread_pool max_msgs ?m0) = pool" "mq_msg_size (mq_thread_pool max_msgs ?m0) = msg_size"
    "mq_max_msgs (mq_thread_pool max_msgs ?m0) = max_msgs" "mq_flag (mq_thread_pool max_msgs ?m0) = flag"
    using mq_thread_pool_rep [of ?m0 max_msgs] by simp_all
  have s: "set ([] @ rev [0..<max_msgs]) \<union> {} = {..<max_msgs}" by auto
  show "mq_rep (mq_setup flag msg_size max_msgs pool m) [] (rev [0..<max_msgs]) {}"
    using T s assms by (simp add: mq_rep_def mq_setup_def)
  show "mq_max_msgs (mq_setup flag msg_size max_msgs pool m) = max_msgs"
    "mq_msg_size (mq_setup flag msg_size max_msgs pool m) = msg_size"
    "mq_flag (mq_setup flag msg_size max_msgs pool m) = flag"
    using T by (simp_all add: mq_setup_def)
qed

section \<open>Senders and receivers interleaved\<close>

text \<open>
  What a node in the hands of a thread is for: a sender has to fill it and then link it at the
  tail or, for an urgent message, at the head; a receiver reads it and gives it back. The abstract
  queue is the list of the messages linked and not yet taken.
\<close>

datatype mq_phase = Fresh bool | Filled bool "u8 list" | Reading "u8 list"

record mq_sys =
  sys_mq :: rt_messagequeue
  sys_out :: "nat \<Rightarrow> mq_phase option"
  sys_queue :: "u8 list list"

inductive mq_step :: "mq_sys \<Rightarrow> mq_sys \<Rightarrow> bool" where
  step_alloc: "mq_alloc (sys_mq s) = Some (n, m) \<Longrightarrow>
    mq_step s (s\<lparr>sys_mq := m, sys_out := (sys_out s)(n := Some (Fresh urgent))\<rparr>)"
| step_fill: "sys_out s n = Some (Fresh urgent) \<Longrightarrow> sz \<le> mq_msg_size (sys_mq s) \<Longrightarrow>
    mq_copy_in n buffer sz (if urgent then sys_mq s else mq_end n (sys_mq s)) = Some m \<Longrightarrow>
    mq_step s (s\<lparr>sys_mq := m, sys_out := (sys_out s)(n := Some (Filled urgent (mq_body m n)))\<rparr>)"
| step_send: "sys_out s n = Some (Filled False b) \<Longrightarrow>
    mq_step s (s\<lparr>sys_mq := mq_link_tail n (sys_mq s), sys_out := (sys_out s)(n := None),
                 sys_queue := sys_queue s @ [b]\<rparr>)"
| step_urgent: "sys_out s n = Some (Filled True b) \<Longrightarrow>
    mq_step s (s\<lparr>sys_mq := mq_link_head n (sys_mq s), sys_out := (sys_out s)(n := None),
                 sys_queue := b # sys_queue s\<rparr>)"
| step_take: "mq_entry (sys_mq s) \<noteq> 0 \<Longrightarrow> mq_take (sys_mq s) = Some (n, m) \<Longrightarrow>
    mq_step s (s\<lparr>sys_mq := m, sys_out := (sys_out s)(n := Some (Reading (hd (sys_queue s)))),
                 sys_queue := tl (sys_queue s)\<rparr>)"
| step_release: "sys_out s n = Some (Reading b) \<Longrightarrow>
    mq_step s (s\<lparr>sys_mq := mq_release n (sys_mq s), sys_out := (sys_out s)(n := None)\<rparr>)"
| step_reset: "mq_flush (sys_mq s) = Some m \<Longrightarrow>
    mq_step s (s\<lparr>sys_mq := m\<lparr>mq_entry := 0\<rparr>, sys_queue := []\<rparr>)"

inductive_cases mq_stepE: "mq_step s s'"

text \<open>The links realise the abstract queue, and no thread's node changes under its hands.\<close>

definition phase_ok :: "rt_messagequeue \<Rightarrow> nat \<Rightarrow> mq_phase \<Rightarrow> bool" where
  "phase_ok m n p = (case p of Fresh _ \<Rightarrow> True
     | Filled urgent b \<Rightarrow> mq_body m n = b \<and> (urgent \<or> mq_next m n = None)
     | Reading b \<Rightarrow> mq_body m n = b)"

definition sys_inv :: "mq_sys \<Rightarrow> bool" where
  "sys_inv s \<longleftrightarrow> (\<exists>qs fs. mq_rep (sys_mq s) qs fs (dom (sys_out s)) \<and> sys_queue s = map (mq_body (sys_mq s)) qs) \<and>
     (\<forall>n p. sys_out s n = Some p \<longrightarrow> phase_ok (sys_mq s) n p)"

lemma sys_invI:
  assumes "mq_rep (sys_mq s) qs fs (dom (sys_out s))" and "sys_queue s = map (mq_body (sys_mq s)) qs"
    and "\<And>n p. sys_out s n = Some p \<Longrightarrow> phase_ok (sys_mq s) n p"
  shows "sys_inv s"
  using assms unfolding sys_inv_def by blast

lemma phase_ok_simps [simp]:
  "phase_ok m n (Fresh u)" "phase_ok m n (Reading b) \<longleftrightarrow> mq_body m n = b"
  "phase_ok m n (Filled u b) \<longleftrightarrow> mq_body m n = b \<and> (u \<or> mq_next m n = None)"
  by (simp_all add: phase_ok_def)

lemma phase_ok_same:
  "phase_ok m n p \<Longrightarrow> mq_body m' n = mq_body m n \<Longrightarrow> mq_next m' n = mq_next m n \<Longrightarrow> phase_ok m' n p"
  by (auto simp: phase_ok_def split: mq_phase.splits)

lemma sys_inv_step:
  assumes "mq_step s s'" and "sys_inv s"
  shows "sys_inv s'"
proof -
  obtain qs fs where rep: "mq_rep (sys_mq s) qs fs (dom (sys_out s))"
    and q: "sys_queue s = map (mq_body (sys_mq s)) qs"
    using assms(2) unfolding sys_inv_def by blast
  have ph: "phase_ok (sys_mq s) n p" if "sys_out s n = Some p" for n p
    using assms(2) that unfolding sys_inv_def by blast
  have out: "n \<notin> set qs" if "n \<in> dom (sys_out s)" for n using mq_repD(4) [OF rep] that by auto
  show ?thesis
    using assms(1)
  proof cases
    case (step_alloc n m urgent)
    obtain fs' where A: "m = sys_mq s\<lparr>mq_free := mq_next (sys_mq s) n\<rparr>"
      "mq_rep m qs fs' (insert n (dom (sys_out s)))" "n \<notin> dom (sys_out s)"
      by (rule mq_alloc_cases [OF rep step_alloc(2)])
    show ?thesis
    proof (rule sys_invI [where qs = qs and fs = fs'])
      show "phase_ok (sys_mq s') x p" if "sys_out s' x = Some p" for x p
      proof (cases "x = n")
        case True
        then show ?thesis using that by (auto simp: step_alloc(1))
      next
        case False
        then have "sys_out s x = Some p" using that by (simp add: step_alloc(1))
        then show ?thesis by (rule phase_ok_same [OF ph]) (simp_all add: step_alloc(1) A(1))
      qed
    qed (use step_alloc(1) A q in simp_all)
  next
    case (step_fill n urgent sz buffer m)
    let ?m = "if urgent then sys_mq s else mq_end n (sys_mq s)"
    have n: "n \<in> dom (sys_out s)" using step_fill(2) by blast
    have rep': "mq_rep ?m qs fs (dom (sys_out s))" using rep mq_end_rep [OF rep n] by simp
    have same: "mq_body ?m = mq_body (sys_mq s)" "mq_msg_size ?m = mq_msg_size (sys_mq s)"
      "mq_max_msgs ?m = mq_max_msgs (sys_mq s)" by auto
    have len: "length (mq_body ?m n) = mq_msg_size ?m"
      by (rule mq_repD(9) [OF rep' mq_rep_bound(3) [OF rep' n]])
    have sz: "sz \<le> length buffer" "sz \<le> length (mq_body ?m n)"
      using step_fill(4) by (auto simp: mq_copy_in_def memcpy_def split: if_splits)
    define b where "b = stored buffer sz (mq_body ?m n)"
    have m: "m = ?m\<lparr>mq_body := (mq_body ?m)(n := b)\<rparr>"
      using step_fill(4) unfolding mq_copy_in_eq [OF sz] b_def by simp
    have repm: "mq_rep m qs fs (dom (sys_out s))"
      unfolding m by (rule mq_body_rep [OF rep']) (use sz len same in \<open>simp add: b_def\<close>)
    have "phase_ok m x p" if "x \<noteq> n" "sys_out s x = Some p" for x p
      by (rule phase_ok_same [OF ph [OF that(2)]]) (use that(1) same in \<open>auto simp: m\<close>)
    moreover have "phase_ok m n (Filled urgent (mq_body m n))" by (simp add: phase_ok_def m)
    moreover have "map (mq_body m) qs = map (mq_body (sys_mq s)) qs" using out [OF n] same by (auto simp: m)
    ultimately show ?thesis
      by (intro sys_invI [where qs = qs and fs = fs])
        (use step_fill repm q n in \<open>auto simp: insert_absorb split: if_splits\<close>)
  next
    case (step_send n b)
    have n: "n \<in> dom (sys_out s)" using step_send(2) by blast
    have p: "mq_body (sys_mq s) n = b" "mq_next (sys_mq s) n = None"
      using ph [OF step_send(2)] by (simp_all add: phase_ok_def)
    note L = mq_link_tail_rep [OF rep n p(2)]
    show ?thesis
    proof (rule sys_invI [where qs = "qs @ [n]" and fs = fs])
      show "mq_rep (sys_mq s') (qs @ [n]) fs (dom (sys_out s'))" using L(1) by (simp add: step_send(1))
      show "sys_queue s' = map (mq_body (sys_mq s')) (qs @ [n])" by (simp add: step_send(1) q L(2) p)
      show "phase_ok (sys_mq s') x ph'" if "sys_out s' x = Some ph'" for x ph'
        using that L(3) [of x] L(2)
        by (auto simp: step_send(1) intro!: phase_ok_same [OF ph] split: if_splits)
    qed
  next
    case (step_urgent n b)
    have n: "n \<in> dom (sys_out s)" using step_urgent(2) by blast
    have p: "mq_body (sys_mq s) n = b" using ph [OF step_urgent(2)] by (simp add: phase_ok_def)
    note L = mq_link_head_rep [OF rep n]
    show ?thesis
    proof (rule sys_invI [where qs = "n # qs" and fs = fs])
      show "mq_rep (sys_mq s') (n # qs) fs (dom (sys_out s'))" using L(1) by (simp add: step_urgent(1))
      show "sys_queue s' = map (mq_body (sys_mq s')) (n # qs)" by (simp add: step_urgent(1) q L(2) p)
      show "phase_ok (sys_mq s') x ph'" if "sys_out s' x = Some ph'" for x ph'
        using that L(3) [of x] L(2)
        by (auto simp: step_urgent(1) intro!: phase_ok_same [OF ph] split: if_splits)
    qed
  next
    case (step_take n m)
    obtain a qs' where qs: "qs = a # qs'" using mq_repD(7) [OF rep] step_take(2) by (cases qs) auto
    obtain m' where m': "mq_take (sys_mq s) = Some (a, m')" "mq_rep m' qs' fs (insert a (dom (sys_out s)))"
      "mq_body m' = mq_body (sys_mq s)" "mq_next m' = mq_next (sys_mq s)"
      by (rule mq_take_rep [OF rep [unfolded qs]])
    have am: "n = a" "m = m'" using m'(1) step_take(3) by simp_all
    have na: "a \<notin> dom (sys_out s)" using mq_repD(4) [OF rep] qs by auto
    show ?thesis
    proof (rule sys_invI [where qs = qs' and fs = fs])
      show "phase_ok (sys_mq s') x p" if "sys_out s' x = Some p" for x p
      proof (cases "x = n")
        case True
        then show ?thesis using that m'(3) am q qs by (auto simp: step_take(1))
      next
        case False
        then have "sys_out s x = Some p" using that by (simp add: step_take(1))
        then show ?thesis by (rule phase_ok_same [OF ph]) (use m'(3,4) am in \<open>simp_all add: step_take(1)\<close>)
      qed
    qed (use step_take(1) m' am q qs in simp_all)
  next
    case (step_release n b)
    have n: "n \<in> dom (sys_out s)" using step_release(2) by blast
    note L = mq_release_rep [OF rep n]
    show ?thesis
    proof (rule sys_invI [where qs = qs and fs = "n # fs"])
      show "mq_rep (sys_mq s') qs (n # fs) (dom (sys_out s'))" using L(1) by (simp add: step_release(1))
      show "sys_queue s' = map (mq_body (sys_mq s')) qs" by (simp add: step_release(1) q L(2))
      show "phase_ok (sys_mq s') x ph'" if "sys_out s' x = Some ph'" for x ph'
        using that L(3) [of x] L(2)
        by (auto simp: step_release(1) intro!: phase_ok_same [OF ph] split: if_splits)
    qed
  next
    case (step_reset m)
    have "mq_rep ((sys_mq s)\<lparr>mq_entry := length qs\<rparr>) qs fs (dom (sys_out s))"
      using rep by (simp add: mq_rep_def)
    from mq_flush_rep [OF this] step_reset(2) have F: "mq_rep (m\<lparr>mq_entry := 0\<rparr>) [] (rev qs @ fs) (dom (sys_out s))"
      "mq_body m = mq_body (sys_mq s)" "\<And>x. x \<in> dom (sys_out s) \<Longrightarrow> mq_next m x = mq_next (sys_mq s) x"
      by auto
    show ?thesis
    proof (rule sys_invI [where qs = "[]" and fs = "rev qs @ fs"])
      show "phase_ok (sys_mq s') x ph'" if "sys_out s' x = Some ph'" for x ph'
        using that F(2) F(3) [OF domI, of x ph']
        by (auto simp: step_reset(1) intro!: phase_ok_same [OF ph])
    qed (use F(1) in \<open>simp_all add: step_reset(1)\<close>)
  qed
qed

text \<open>Every state that can be reached from a queue that is set up satisfies the invariant.\<close>

inductive mq_reach :: "mq_sys \<Rightarrow> mq_sys \<Rightarrow> bool" for s0 where
  reach_refl: "mq_reach s0 s0"
| reach_step: "mq_reach s0 s \<Longrightarrow> mq_step s s' \<Longrightarrow> mq_reach s0 s'"

lemma mq_reach_inv: "mq_reach s0 s \<Longrightarrow> sys_inv s0 \<Longrightarrow> sys_inv s"
  by (induction rule: mq_reach.induct) (auto intro: sys_inv_step)

text \<open>No step can lose or repeat a node, overrun the count, or read through a null pointer.\<close>

lemma sys_inv_count:
  assumes "sys_inv s"
  obtains fs where "mq_chain (mq_next (sys_mq s)) (mq_free (sys_mq s)) fs" "finite (dom (sys_out s))"
    "length (sys_queue s) + length fs + card (dom (sys_out s)) = mq_max_msgs (sys_mq s)"
    "mq_entry (sys_mq s) = length (sys_queue s)"
proof -
  obtain qs fs where rep: "mq_rep (sys_mq s) qs fs (dom (sys_out s))"
    and q: "sys_queue s = map (mq_body (sys_mq s)) qs"
    using assms unfolding sys_inv_def by blast
  show thesis
    by (rule that [OF mq_repD(2) [OF rep] mq_rep_count(2) [OF rep]])
      (use q mq_rep_count(1) [OF rep] mq_repD(7) [OF rep] in simp_all)
qed

lemma sys_inv_take:
  assumes "sys_inv s" and "mq_entry (sys_mq s) \<noteq> 0"
  shows "\<exists>n m. mq_take (sys_mq s) = Some (n, m) \<and> mq_body m n = hd (sys_queue s) \<and> sys_out s n = None"
proof -
  obtain qs fs where rep: "mq_rep (sys_mq s) qs fs (dom (sys_out s))"
    and q: "sys_queue s = map (mq_body (sys_mq s)) qs"
    using assms unfolding sys_inv_def by blast
  obtain a qs' where qs: "qs = a # qs'" using mq_repD(7) [OF rep] assms(2) by (cases qs) auto
  obtain m' where m': "mq_take (sys_mq s) = Some (a, m')" "mq_body m' = mq_body (sys_mq s)"
    by (rule mq_take_rep [OF rep [unfolded qs]])
  have "a \<notin> dom (sys_out s)" using mq_repD(4) [OF rep] qs by auto
  then show ?thesis using m' q qs by (auto simp: domIff)
qed

end
