(* ===== verification/MsgQueue.thy ===== *)
theory MsgQueue
  imports MqCore Ipc Mailbox
begin

text \<open>
  Message queues of src/ipc.c on the kernel state: the message list of theory MqCore with the list
  of waiting receivers. A sender whose queue is full fails at once; a receiver whose queue is empty
  waits, with its loop cut at the call of the scheduler as for mailboxes. Here an operation runs
  without another thread between its critical sections; \<open>mq_step\<close> of MqCore covers the
  interleavings of those sections.
\<close>

section \<open>Operations\<close>

abbreviation mqq :: "oid \<Rightarrow> qid" where "mqq i \<equiv> SuspQ (IMq i)"

definition upd_mq :: "oid \<Rightarrow> (rt_messagequeue \<Rightarrow> rt_messagequeue) \<Rightarrow> kstate \<Rightarrow> kstate" where
  "upd_mq i f s = s\<lparr>k_mq := (k_mq s)(i := f (k_mq s i))\<rparr>"

definition sizeof_rt_mq_message :: nat where "sizeof_rt_mq_message = 4"

text \<open>The body of node \<open>n\<close> of a pool of bytes; a node is a link and \<open>msg_size\<close> bytes.\<close>

definition pool_slot :: "u8 list \<Rightarrow> nat \<Rightarrow> nat \<Rightarrow> u8 list" where
  "pool_slot pool msg_size n =
     take msg_size (drop (n * (msg_size + sizeof_rt_mq_message) + sizeof_rt_mq_message) pool)"

definition mq_init_with :: "oid \<Rightarrow> nat \<Rightarrow> nat \<Rightarrow> nat \<Rightarrow> u8 list \<Rightarrow> kstate \<Rightarrow> kstate" where
  "mq_init_with i flag msg_size max_msgs pool s =
     upd_mq i (mq_setup flag msg_size max_msgs (pool_slot pool msg_size))
       (s\<lparr>k_q := (k_q s)(mqq i := [])\<rparr>)"

definition rt_mq_init :: "oid \<Rightarrow> u8 list \<Rightarrow> nat \<Rightarrow> nat \<Rightarrow> nat \<Rightarrow> kstate \<Rightarrow> int \<times> kstate" where
  "rt_mq_init i msgpool msg_size pool_size flag s =
     (let ms = trunc_u 16 (int (rt_align msg_size));
          mm = trunc_u 16 (int (pool_size div (ms + sizeof_rt_mq_message)))
      in (RT_EOK, mq_init_with i flag ms mm msgpool s))"

definition rt_mq_detach :: "oid \<Rightarrow> kstate \<Rightarrow> (int \<times> kstate) option" where
  "rt_mq_detach i s = do { s1 \<leftarrow> rt_ipc_list_resume_all (mqq i) s; Some (RT_EOK, s1) }"

definition rt_mq_delete :: "oid \<Rightarrow> kstate \<Rightarrow> (int \<times> kstate) option" where
  "rt_mq_delete i s =
     (if k_nest s \<noteq> 0 then None
      else do { s1 \<leftarrow> rt_ipc_list_resume_all (mqq i) s; Some (RT_EOK, s1) })"

text \<open>The allocator's answers: the object, and the pool for the bytes asked for, or nothing.\<close>

definition rt_mq_create :: "oid option \<Rightarrow> (nat \<Rightarrow> u8 list option) \<Rightarrow> nat \<Rightarrow> nat \<Rightarrow> nat \<Rightarrow> kstate \<Rightarrow>
    (oid option \<times> kstate) option" where
  "rt_mq_create obj alloc msg_size max_msgs flag s =
     (if k_nest s \<noteq> 0 then None
      else case obj of None \<Rightarrow> Some (None, s)
        | Some i \<Rightarrow>
            let ms = trunc_u 16 (int (rt_align msg_size)); mm = trunc_u 16 (int max_msgs) in
            (case alloc ((ms + sizeof_rt_mq_message) * mm) of
               None \<Rightarrow> do { (_, s1) \<leftarrow> rt_mq_delete i
                              (upd_mq i (\<lambda>m. m\<lparr>mq_flag := flag, mq_msg_size := ms, mq_max_msgs := mm\<rparr>)
                                 (s\<lparr>k_q := (k_q s)(mqq i := [])\<rparr>));
                            Some (None, s1) }
             | Some pool \<Rightarrow> Some (Some i, mq_init_with i flag ms mm pool s)))"

text \<open>The end of both send operations: wake a receiver and call the scheduler.\<close>

definition mq_wake :: "oid \<Rightarrow> kstate \<Rightarrow> (int \<times> kstate) option" where
  "mq_wake i s =
     (if k_q s (mqq i) \<noteq> []
      then do { s1 \<leftarrow> rt_ipc_list_resume (mqq i) s; s2 \<leftarrow> rt_schedule s1; Some (RT_EOK, s2) }
      else Some (RT_EOK, s))"

definition rt_mq_send :: "oid \<Rightarrow> u8 list \<Rightarrow> nat \<Rightarrow> kstate \<Rightarrow> (int \<times> kstate) option" where
  "rt_mq_send i buffer sz s =
     (if sz = 0 then None
      else if sz > mq_msg_size (k_mq s i) then Some (- RT_ERROR, s)
      else case mq_alloc (k_mq s i) of
        None \<Rightarrow> Some (- RT_EFULL, s)
      | Some (n, m1) \<Rightarrow>
          do { m2 \<leftarrow> mq_copy_in n buffer sz (mq_end n m1);
               mq_wake i (upd_mq i (\<lambda>_. mq_link_tail n m2) s) })"

definition rt_mq_urgent :: "oid \<Rightarrow> u8 list \<Rightarrow> nat \<Rightarrow> kstate \<Rightarrow> (int \<times> kstate) option" where
  "rt_mq_urgent i buffer sz s =
     (if sz = 0 then None
      else if sz > mq_msg_size (k_mq s i) then Some (- RT_ERROR, s)
      else case mq_alloc (k_mq s i) of
        None \<Rightarrow> Some (- RT_EFULL, s)
      | Some (n, m1) \<Rightarrow>
          do { m2 \<leftarrow> mq_copy_in n buffer sz m1;
               mq_wake i (upd_mq i (\<lambda>_. mq_link_head n m2) s) })"

text \<open>The result is the error code and, on success, the caller's buffer.\<close>

definition mq_recv_loop :: "oid \<Rightarrow> u8 list \<Rightarrow> nat \<Rightarrow> tid option \<Rightarrow> int \<Rightarrow> kstate \<Rightarrow>
    (int \<times> u8 list, tid \<times> int \<times> u32) outcome option" where
  "mq_recv_loop i buffer sz thread timeout s =
     (let m = k_mq s i in
      if mq_entry m = 0
      then if \<not> in_thread_context s then None
      else do {
        t \<leftarrow> thread;
        let s1 = upd_thr t (\<lambda>h. h\<lparr>t_error := RT_EOK\<rparr>) s;
        (if timeout = 0
         then Some (Ret (- RT_ETIMEOUT, buffer) (upd_thr t (\<lambda>h. h\<lparr>t_error := - RT_ETIMEOUT\<rparr>) s1))
         else do { s2 \<leftarrow> ipc_block (mqq i) t (mq_flag m) timeout s1;
                   Some (Wait (t, timeout, k_tick s1) s2) }) }
      else do {
        (n, m1) \<leftarrow> mq_take m;
        buffer' \<leftarrow> mq_copy_out n buffer sz m1;
        Some (Ret (RT_EOK, buffer') (upd_mq i (\<lambda>_. mq_release n m1) s)) })"

definition rt_mq_recv :: "oid \<Rightarrow> u8 list \<Rightarrow> nat \<Rightarrow> int \<Rightarrow> kstate \<Rightarrow>
    (int \<times> u8 list, tid \<times> int \<times> u32) outcome option" where
  "rt_mq_recv i buffer sz timeout s =
     (if sz = 0 then None
      else if mq_entry (k_mq s i) = 0 \<and> timeout = 0 then Some (Ret (- RT_ETIMEOUT, buffer) s)
      else mq_recv_loop i buffer sz (k_cur s) timeout s)"

definition rt_mq_recv_wake :: "oid \<Rightarrow> u8 list \<Rightarrow> nat \<Rightarrow> tid \<times> int \<times> u32 \<Rightarrow> kstate \<Rightarrow>
    (int \<times> u8 list, tid \<times> int \<times> u32) outcome option" where
  "rt_mq_recv_wake i buffer sz k s =
     (case k of (t, timeout, tick_delta) \<Rightarrow>
        if t_error (k_thr s t) \<noteq> RT_EOK then Some (Ret (t_error (k_thr s t), buffer) s)
        else mq_recv_loop i buffer sz (Some t) (rest_time timeout tick_delta (k_tick s)) s)"

definition rt_mq_control :: "oid \<Rightarrow> bool \<Rightarrow> kstate \<Rightarrow> (int \<times> kstate) option" where
  "rt_mq_control i reset s =
     (if reset
      then do { s1 \<leftarrow> rt_ipc_list_resume_all (mqq i) s;
                m \<leftarrow> mq_flush (k_mq s1 i);
                s2 \<leftarrow> rt_schedule (upd_mq i (\<lambda>_. m\<lparr>mq_entry := 0\<rparr>) s1);
                Some (RT_EOK, s2) }
      else Some (- RT_ERROR, s))"

lemma upd_mq_sel [simp]:
  "k_mq (upd_mq i f s) = (k_mq s)(i := f (k_mq s i))" "k_thr (upd_mq i f s) = k_thr s"
  "k_q (upd_mq i f s) = k_q s" "k_group (upd_mq i f s) = k_group s" "k_cur (upd_mq i f s) = k_cur s"
  "k_cur_prio (upd_mq i f s) = k_cur_prio s" "k_lock (upd_mq i f s) = k_lock s"
  "k_nest (upd_mq i f s) = k_nest s" "k_tick (upd_mq i f s) = k_tick s"
  "k_tmr (upd_mq i f s) = k_tmr s" "k_tlist (upd_mq i f s) = k_tlist s"
  "k_sem (upd_mq i f s) = k_sem s" "k_mtx (upd_mq i f s) = k_mtx s"
  "k_ev (upd_mq i f s) = k_ev s" "k_mb (upd_mq i f s) = k_mb s"
  by (simp_all add: upd_mq_def)

lemma wait_list_mq [simp]: "wait_list (mqq i)"
  by (simp add: wait_list_def)

lemma kernel_ok_upd_mq [simp]: "kernel_ok (upd_mq i f s) \<longleftrightarrow> kernel_ok s"
  by (rule kernel_ok_core) simp_all

section \<open>Correctness\<close>

text \<open>At rest every node is queued or free; \<open>ms\<close> are the queued messages.\<close>

definition mq_holds :: "rt_messagequeue \<Rightarrow> u8 list list \<Rightarrow> bool" where
  "mq_holds m ms \<longleftrightarrow> wait_flag (mq_flag m) \<and> (\<exists>qs fs. mq_rep m qs fs {} \<and> ms = map (mq_body m) qs)"

lemma mq_holdsI:
  "mq_rep m qs fs {} \<Longrightarrow> wait_flag (mq_flag m) \<Longrightarrow> ms = map (mq_body m) qs \<Longrightarrow> mq_holds m ms"
  unfolding mq_holds_def by blast

lemma mq_holdsE:
  assumes "mq_holds m ms"
  obtains qs fs where "mq_rep m qs fs {}" "ms = map (mq_body m) qs" "wait_flag (mq_flag m)"
    "length ms + length fs = mq_max_msgs m" "mq_entry m = length ms"
proof -
  obtain qs fs where r: "mq_rep m qs fs {}" "ms = map (mq_body m) qs" "wait_flag (mq_flag m)"
    using assms unfolding mq_holds_def by blast
  show thesis by (rule that [OF r]) (use r(2) mq_rep_count(1) [OF r(1)] mq_repD(7) [OF r(1)] in simp_all)
qed

definition mq_inv :: "oid \<Rightarrow> u8 list list \<Rightarrow> kstate \<Rightarrow> bool" where
  "mq_inv i ms s \<longleftrightarrow> kernel_ok s \<and> mq_holds (k_mq s i) ms"

text \<open>A queue is full when every node of the pool holds a message.\<close>

lemma mq_alloc_holds:
  assumes "mq_holds m ms"
  shows "mq_alloc m = None \<longleftrightarrow> length ms = mq_max_msgs m"
proof -
  obtain qs fs where r: "mq_rep m qs fs {}" "length ms + length fs = mq_max_msgs m"
    using mq_holdsE [OF assms] by metis
  show ?thesis using mq_alloc_full [OF r(1)] r(2) by auto
qed

text \<open>Sending a message: the piece before the linking is common to both operations.\<close>

lemma mq_alloc_fill:
  assumes h: "mq_holds m ms" and room: "length ms < mq_max_msgs m"
    and sz: "sz \<le> mq_msg_size m" "sz \<le> length buffer"
  obtains n m1 m2 b qs fs where "mq_free m = Some n" "b = take sz buffer @ drop sz (mq_body m n)" "mq_alloc m = Some (n, m1)"
    "mq_copy_in n buffer sz (mq_end n m1) = Some m2" "mq_rep m2 qs fs {n}" "mq_next m2 n = None"
    "map (mq_body m2) qs = ms" "mq_body m2 n = b" "length b = mq_msg_size m" "take sz b = take sz buffer"
    "mq_flag m2 = mq_flag m" "mq_msg_size m2 = mq_msg_size m" "mq_max_msgs m2 = mq_max_msgs m"
proof -
  obtain qs fs0 where r: "mq_rep m qs fs0 {}" "ms = map (mq_body m) qs" "length ms + length fs0 = mq_max_msgs m"
    using mq_holdsE [OF h] by metis
  obtain n fs where fs: "fs0 = n # fs" using r(3) room by (cases fs0) auto
  let ?m1 = "m\<lparr>mq_free := mq_next m n\<rparr>"
  note A = mq_alloc_rep [OF r(1) [unfolded fs]]
  have rep1: "mq_rep (mq_end n ?m1) qs fs {n}" by (rule mq_end_rep [OF A(2)]) simp
  have len: "length (mq_body m n) = mq_msg_size m" by (rule mq_repD(9) [OF r(1) A(4)])
  let ?b = "stored buffer sz (mq_body m n)"
  let ?m2 = "(mq_end n ?m1)\<lparr>mq_body := (mq_body (mq_end n ?m1))(n := ?b)\<rparr>"
  have cp: "mq_copy_in n buffer sz (mq_end n ?m1) = Some ?m2"
    using mq_copy_in_eq [of sz buffer "mq_end n ?m1" n] sz len by simp
  have rep2: "mq_rep ?m2 qs fs {n}" by (rule mq_body_rep [OF rep1]) (use sz len in simp)
  have "n \<notin> set qs" using mq_repD(4) [OF rep2] by auto
  moreover have "mq_free m = Some n" using A(1) by (auto simp: mq_alloc_def split: option.splits)
  moreover have "?b = take sz buffer @ drop sz (mq_body m n)" by (simp add: stored_def)
  ultimately show thesis
    by (intro that [OF _ _ A(1) cp rep2, of ?b]) (use r(2) sz len in auto)
qed

text \<open>The queue object has a new value, every other object is as it was, and a receiver that
  waited first is awake.\<close>

definition mq_woken :: "oid \<Rightarrow> rt_messagequeue \<Rightarrow> kstate \<Rightarrow> kstate \<Rightarrow> bool" where
  "mq_woken i m' s s' \<longleftrightarrow> kernel_ok s' \<and> k_mq s' = (k_mq s)(i := m') \<and>
     k_sem s' = k_sem s \<and> k_mtx s' = k_mtx s \<and> k_ev s' = k_ev s \<and> k_mb s' = k_mb s \<and>
     (\<forall>y. wait_list y \<longrightarrow> k_q s' y = (if y = mqq i then tl (k_q s y) else k_q s y)) \<and>
     (\<forall>t ts. k_q s (mqq i) = t # ts \<longrightarrow>
        (th_stat s' t = RT_THREAD_READY \<or> th_stat s' t = RT_THREAD_RUNNING) \<and>
        t_error (k_thr s' t) = t_error (k_thr s t) \<and> (k_lock s = 0 \<longrightarrow> best_runs s'))"

lemma mq_wake_spec:
  assumes ok: "kernel_ok s"
  shows "\<exists>s'. mq_wake i (upd_mq i (\<lambda>_. m') s) = Some (RT_EOK, s') \<and> mq_woken i m' s s'"
proof (cases "k_q s (mqq i)")
  case Nil
  then show ?thesis using ok
    by (intro exI [of _ "upd_mq i (\<lambda>_. m') s"]) (auto simp: mq_wake_def mq_woken_def)
next
  case (Cons t ts)
  let ?s = "upd_mq i (\<lambda>_. m') s"
  have ok': "kernel_ok ?s" using ok by simp
  have ne: "k_q ?s (mqq i) = t # ts" using Cons by simp
  obtain s2 s' where s': "rt_ipc_list_resume (mqq i) ?s = Some s2" "rt_schedule s2 = Some s'" "kernel_ok s'"
    "objs_same ?s s'" "\<And>y. wait_list y \<Longrightarrow> k_q s' y = (if y = mqq i then ts else k_q ?s y)"
    "th_stat s' t = RT_THREAD_READY \<or> th_stat s' t = RT_THREAD_RUNNING"
    "\<And>u. k_thr s' u = (k_thr ?s u)\<lparr>t_stat := th_stat s' u\<rparr>" "k_lock ?s = 0 \<Longrightarrow> best_runs s'"
    by (rule wake_first [OF ok' wait_list_mq ne]) (rule that, assumption+)
  have "mq_woken i m' s s'"
    using s'(3-6,8) rt_thread_fields(1) [OF s'(7) [of t]] Cons
    by (simp add: mq_woken_def objs_same_def)
  then show ?thesis using s'(1,2) Cons by (auto simp: mq_wake_def)
qed

text \<open>Sending appends the message, padded with what the slot held before, and wakes a receiver.\<close>

lemma rt_mq_send_spec:
  assumes inv: "mq_inv i ms s" and sz: "0 < sz" "sz \<le> mq_msg_size (k_mq s i)" "sz \<le> length buffer"
  shows "length ms = mq_max_msgs (k_mq s i) \<Longrightarrow> rt_mq_send i buffer sz s = Some (- RT_EFULL, s)"
    and "length ms < mq_max_msgs (k_mq s i) \<Longrightarrow>
      \<exists>n m' s'. mq_free (k_mq s i) = Some n \<and> rt_mq_send i buffer sz s = Some (RT_EOK, s') \<and> mq_woken i m' s s' \<and>
        mq_inv i (ms @ [take sz buffer @ drop sz (mq_body (k_mq s i) n)]) s' \<and>
        mq_msg_size m' = mq_msg_size (k_mq s i) \<and> mq_max_msgs m' = mq_max_msgs (k_mq s i)"
proof -
  have ok: "kernel_ok s" and h: "mq_holds (k_mq s i) ms" using inv by (simp_all add: mq_inv_def)
  show "rt_mq_send i buffer sz s = Some (- RT_EFULL, s)" if "length ms = mq_max_msgs (k_mq s i)"
    using mq_alloc_holds [OF h] that sz by (simp add: rt_mq_send_def)
  assume room: "length ms < mq_max_msgs (k_mq s i)"
  obtain n m1 m2 b qs fs where f: "mq_free (k_mq s i) = Some n" "b = take sz buffer @ drop sz (mq_body (k_mq s i) n)"
    and a: "mq_alloc (k_mq s i) = Some (n, m1)"
    "mq_copy_in n buffer sz (mq_end n m1) = Some m2" "mq_rep m2 qs fs {n}" "mq_next m2 n = None"
    "map (mq_body m2) qs = ms" "mq_body m2 n = b" "length b = mq_msg_size (k_mq s i)"
    "take sz b = take sz buffer"
    "mq_flag m2 = mq_flag (k_mq s i)" "mq_msg_size m2 = mq_msg_size (k_mq s i)"
    "mq_max_msgs m2 = mq_max_msgs (k_mq s i)"
    by (rule mq_alloc_fill [OF h room sz(2,3)])
  note L = mq_link_tail_rep [OF a(3) singletonI a(4)]
  obtain s' where s': "mq_wake i (upd_mq i (\<lambda>_. mq_link_tail n m2) s) = Some (RT_EOK, s')"
    "mq_woken i (mq_link_tail n m2) s s'"
    using mq_wake_spec [OF ok] by blast
  have "wait_flag (mq_flag (k_mq s i))" using h by (simp add: mq_holds_def)
  then have "mq_holds (mq_link_tail n m2) (ms @ [b])"
    by (intro mq_holdsI [where qs = "qs @ [n]" and fs = fs]) (use L a in simp_all)
  then have "mq_inv i (ms @ [b]) s'" using s'(2) by (simp add: mq_inv_def mq_woken_def)
  then show "\<exists>n m' s'. mq_free (k_mq s i) = Some n \<and> rt_mq_send i buffer sz s = Some (RT_EOK, s') \<and> mq_woken i m' s s' \<and>
        mq_inv i (ms @ [take sz buffer @ drop sz (mq_body (k_mq s i) n)]) s' \<and>
        mq_msg_size m' = mq_msg_size (k_mq s i) \<and> mq_max_msgs m' = mq_max_msgs (k_mq s i)"
    using s' sz a f L by (intro exI [of _ n] exI [of _ "mq_link_tail n m2"] exI [of _ s'])
      (simp add: rt_mq_send_def)
qed

text \<open>The first piece of an urgent message does not end the node's link; the node is linked anyway.\<close>

lemma mq_copy_in_end:
  "mq_copy_in n buffer sz (mq_end n m1) = Some m2 \<Longrightarrow>
     \<exists>m3. mq_copy_in n buffer sz m1 = Some m3 \<and> mq_link_head n m3 = mq_link_head n m2"
  by (auto simp: mq_copy_in_def mq_end_def mq_link_head_def Let_def split: Option.bind_splits)

lemma rt_mq_urgent_spec:
  assumes inv: "mq_inv i ms s" and sz: "0 < sz" "sz \<le> mq_msg_size (k_mq s i)" "sz \<le> length buffer"
  shows "length ms = mq_max_msgs (k_mq s i) \<Longrightarrow> rt_mq_urgent i buffer sz s = Some (- RT_EFULL, s)"
    and "length ms < mq_max_msgs (k_mq s i) \<Longrightarrow>
      \<exists>b m' s'. rt_mq_urgent i buffer sz s = Some (RT_EOK, s') \<and> mq_woken i m' s s' \<and>
        mq_inv i (b # ms) s' \<and> take sz b = take sz buffer \<and> length b = mq_msg_size (k_mq s i) \<and>
        mq_msg_size m' = mq_msg_size (k_mq s i) \<and> mq_max_msgs m' = mq_max_msgs (k_mq s i)"
proof -
  have ok: "kernel_ok s" and h: "mq_holds (k_mq s i) ms" using inv by (simp_all add: mq_inv_def)
  show "rt_mq_urgent i buffer sz s = Some (- RT_EFULL, s)" if "length ms = mq_max_msgs (k_mq s i)"
    using mq_alloc_holds [OF h] that sz by (simp add: rt_mq_urgent_def)
  assume room: "length ms < mq_max_msgs (k_mq s i)"
  obtain n m1 m2 b qs fs where a: "mq_alloc (k_mq s i) = Some (n, m1)"
    "mq_copy_in n buffer sz (mq_end n m1) = Some m2" "mq_rep m2 qs fs {n}" "mq_next m2 n = None"
    "map (mq_body m2) qs = ms" "mq_body m2 n = b" "length b = mq_msg_size (k_mq s i)"
    "take sz b = take sz buffer"
    "mq_flag m2 = mq_flag (k_mq s i)" "mq_msg_size m2 = mq_msg_size (k_mq s i)"
    "mq_max_msgs m2 = mq_max_msgs (k_mq s i)"
    by (rule mq_alloc_fill [OF h room sz(2,3)])
  obtain m3 where m3: "mq_copy_in n buffer sz m1 = Some m3" "mq_link_head n m3 = mq_link_head n m2"
    using mq_copy_in_end [OF a(2)] by blast
  note L = mq_link_head_rep [OF a(3) singletonI]
  obtain s' where s': "mq_wake i (upd_mq i (\<lambda>_. mq_link_head n m2) s) = Some (RT_EOK, s')"
    "mq_woken i (mq_link_head n m2) s s'"
    using mq_wake_spec [OF ok] by blast
  have "wait_flag (mq_flag (k_mq s i))" using h by (simp add: mq_holds_def)
  then have "mq_holds (mq_link_head n m2) (b # ms)"
    by (intro mq_holdsI [where qs = "n # qs" and fs = fs]) (use L a in simp_all)
  then have "mq_inv i (b # ms) s'" using s'(2) by (simp add: mq_inv_def mq_woken_def)
  then show "\<exists>b m' s'. rt_mq_urgent i buffer sz s = Some (RT_EOK, s') \<and> mq_woken i m' s s' \<and>
        mq_inv i (b # ms) s' \<and> take sz b = take sz buffer \<and> length b = mq_msg_size (k_mq s i) \<and>
        mq_msg_size m' = mq_msg_size (k_mq s i) \<and> mq_max_msgs m' = mq_max_msgs (k_mq s i)"
    using s' sz a L m3 by (intro exI [of _ b] exI [of _ "mq_link_head n m2"] exI [of _ s'])
      (simp add: rt_mq_urgent_def)
qed

text \<open>Receiving takes the first message; the caller's buffer is filled as far as both go.\<close>

lemma mq_recv_loop_some:
  assumes inv: "mq_inv i (b # ms) s" and sz: "sz \<le> length buffer"
  shows "\<exists>m'. mq_recv_loop i buffer sz thread timeout s =
      Some (Ret (RT_EOK, stored b (min sz (mq_msg_size (k_mq s i))) buffer) (upd_mq i (\<lambda>_. m') s)) \<and>
    mq_inv i ms (upd_mq i (\<lambda>_. m') s) \<and> mq_msg_size m' = mq_msg_size (k_mq s i) \<and>
    mq_max_msgs m' = mq_max_msgs (k_mq s i)"
proof -
  let ?m = "k_mq s i"
  have ok: "kernel_ok s" and h: "mq_holds ?m (b # ms)" using inv by (simp_all add: mq_inv_def)
  obtain qs fs where r: "mq_rep ?m qs fs {}" "b # ms = map (mq_body ?m) qs" "wait_flag (mq_flag ?m)"
    "mq_entry ?m = length (b # ms)"
    using mq_holdsE [OF h] by metis
  obtain n qs' where qs: "qs = n # qs'" "mq_body ?m n = b" "map (mq_body ?m) qs' = ms" using r(2) by auto
  obtain m1 where m1: "mq_take ?m = Some (n, m1)" "mq_rep m1 qs' fs {n}" "mq_body m1 = mq_body ?m"
    "mq_next m1 = mq_next ?m" "mq_msg_size m1 = mq_msg_size ?m" "mq_max_msgs m1 = mq_max_msgs ?m"
    "mq_flag m1 = mq_flag ?m"
    by (rule mq_take_rep [OF r(1) [unfolded qs(1)]])
  have len: "length b = mq_msg_size ?m"
    using mq_repD(9) [OF m1(2) mq_rep_bound(3) [OF m1(2) singletonI]] m1 qs(2) by simp
  have out: "mq_copy_out n buffer sz m1 = Some (stored b (min sz (mq_msg_size ?m)) buffer)"
    using sz len m1 qs(2) by (auto simp: mq_copy_out_def memcpy_def stored_def min_def)
  note L = mq_release_rep [OF m1(2) singletonI]
  have "mq_holds (mq_release n m1) ms"
    by (rule mq_holdsI [where qs = qs' and fs = "n # fs"]) (use L m1 qs r(3) in simp_all)
  then show ?thesis
    using m1 out r(4) L ok by (intro exI [of _ "mq_release n m1"])
      (simp add: mq_recv_loop_def mq_inv_def)
qed

lemma rt_mq_recv_blocks:
  assumes inv: "mq_inv i [] s" and cur: "k_cur s = Some t" and run: "th_stat s t = RT_THREAD_RUNNING"
    and isr: "k_nest s = 0" and time: "timeout \<noteq> 0" "timeout < 0x7fffffff" and sz: "0 < sz"
  shows "\<exists>s'. rt_mq_recv i buffer sz timeout s = Some (Wait (t, timeout, k_tick s) s') \<and> mq_inv i [] s' \<and>
    objs_same s s' \<and> th_stat s' t = RT_THREAD_SUSPEND \<and>
    k_q s' (mqq i) = waiters_with s t (mq_flag (k_mq s i)) (k_q s (mqq i)) \<and> t_error (k_thr s' t) = RT_EOK"
proof -
  let ?s1 = "upd_thr t (\<lambda>h. h\<lparr>t_error := RT_EOK\<rparr>) s"
  have ok1: "kernel_ok ?s1" using inv kernel_ok_core [of ?s1 s] by (simp add: thr_core_def mq_inv_def)
  have run1: "th_stat ?s1 t = RT_THREAD_RUNNING" using run by simp
  have fl: "wait_flag (mq_flag (k_mq s i))" using inv by (simp add: mq_inv_def mq_holds_def)
  have en: "mq_entry (k_mq s i) = 0" using inv mq_holdsE [of "k_mq s i" "[]"] by (auto simp: mq_inv_def)
  obtain s' where s': "ipc_block (mqq i) t (mq_flag (k_mq s i)) timeout ?s1 = Some s'"
    "blocked ?s1 (mqq i) t (mq_flag (k_mq s i)) timeout s'"
    by (rule ipc_block_spec [OF ok1 run1 wait_list_mq fl time(2)])
  note B = blockedD [OF s'(2)]
  have o: "objs_same s s'" using B(2) by (simp add: objs_same_def)
  have "k_q s' (mqq i) = waiters_with s t (mq_flag (k_mq s i)) (k_q s (mqq i))"
    using B(4) [OF wait_list_mq] waiters_with_cong [of t "k_q s (mqq i)" ?s1 s] by simp
  moreover have "mq_inv i [] s'" using B(1) o inv by (simp add: mq_inv_def objs_same_def)
  moreover have "t_error (k_thr s' t) = RT_EOK" using rt_thread_fields(1) [OF B(5) [of t]] by simp
  ultimately show ?thesis using cur isr time(1) sz en s'(1) o B(3)
    by (simp add: rt_mq_recv_def mq_recv_loop_def in_thread_context_def Let_def del: upd_thr_sel(1))
qed

text \<open>Reset wakes every receiver with an error and gives all nodes back.\<close>

lemma rt_mq_control_spec:
  assumes inv: "mq_inv i ms s"
  shows "\<exists>s'. rt_mq_control i True s = Some (RT_EOK, s') \<and> mq_inv i [] s' \<and> k_q s' (mqq i) = [] \<and>
    (\<forall>t \<in> set (k_q s (mqq i)). t_error (k_thr s' t) = - RT_ERROR)"
proof -
  have ok: "kernel_ok s" and h: "mq_holds (k_mq s i) ms" using inv by (simp_all add: mq_inv_def)
  obtain s1 where s1: "rt_ipc_list_resume_all (mqq i) s = Some s1" "drained s (mqq i) s1"
    using rt_ipc_list_resume_all_spec [OF ok wait_list_mq] by blast
  have mq1: "k_mq s1 = k_mq s" using s1(2) by (simp add: drained_def objs_same_def)
  obtain qs fs where r: "mq_rep (k_mq s i) qs fs {}" "wait_flag (mq_flag (k_mq s i))"
    using mq_holdsE [OF h] by metis
  have "mq_rep ((k_mq s i)\<lparr>mq_entry := length qs\<rparr>) qs fs {}" using r(1) by (simp add: mq_rep_def)
  from mq_flush_rep [OF this] obtain m where m: "mq_flush (k_mq s i) = Some m"
    "mq_rep (m\<lparr>mq_entry := 0\<rparr>) [] (rev qs @ fs) {}" "mq_flag m = mq_flag (k_mq s i)" by blast
  let ?s2 = "upd_mq i (\<lambda>_. m\<lparr>mq_entry := 0\<rparr>) s1"
  have ok2: "kernel_ok ?s2" using s1(2) by (simp add: drained_def)
  obtain s' where s': "rt_schedule ?s2 = Some s'" "kernel_inv s'" "sched_only ?s2 s'"
    by (rule rt_schedule_kernel [OF kernel_okD(1) [OF ok2]])
  note O = sched_onlyD [OF s'(3)]
  have "kernel_ok s'" by (rule sched_only_kernel_ok [OF s'(2) kernel_okD(2) [OF ok2] s'(3)])
  moreover have "mq_holds (k_mq s' i) []"
    by (rule mq_holdsI [where qs = "[]" and fs = "rev qs @ fs"]) (use O(1) m r(2) in \<open>simp_all add: objs_same_def\<close>)
  moreover have "k_q s' (mqq i) = []" using O(4,5) s1(2) by (simp add: drained_def)
  moreover have "t_error (k_thr s' t) = - RT_ERROR" if "t \<in> set (k_q s (mqq i))" for t
    using s1(2) that rt_thread_fields(1) [OF O(7) [of t]] by (simp add: drained_def)
  ultimately show ?thesis using s1(1) m(1) s'(1) by (simp add: rt_mq_control_def mq_inv_def mq1)
qed

text \<open>A new queue is empty and has as many slots as fit into the pool.\<close>

lemma length_pool_slot:
  assumes "n < max_msgs" and "max_msgs * (msg_size + sizeof_rt_mq_message) \<le> length pool"
  shows "length (pool_slot pool msg_size n) = msg_size"
proof -
  let ?w = "msg_size + sizeof_rt_mq_message"
  have "Suc n * ?w \<le> max_msgs * ?w" using assms(1) by (intro mult_le_mono1) simp
  then have "n * ?w + sizeof_rt_mq_message + msg_size \<le> length pool" using assms(2) by simp
  then show ?thesis by (simp add: pool_slot_def)
qed

lemma mq_init_with_spec:
  assumes ok: "kernel_ok s" and q: "k_q s (mqq i) = []" and fl: "wait_flag flag"
    and mm: "max_msgs < 2 ^ 16" "max_msgs * (msg_size + sizeof_rt_mq_message) \<le> length pool"
  shows "mq_inv i [] (mq_init_with i flag msg_size max_msgs pool s)"
    "mq_max_msgs (k_mq (mq_init_with i flag msg_size max_msgs pool s) i) = max_msgs"
    "mq_msg_size (k_mq (mq_init_with i flag msg_size max_msgs pool s) i) = msg_size"
proof -
  have same: "s\<lparr>k_q := (k_q s)(mqq i := [])\<rparr> = s" using q by (simp add: fun_upd_idem)
  note S = mq_setup_rep [OF mm(1), of "pool_slot pool msg_size" msg_size, OF length_pool_slot [OF _ mm(2)]]
  show "mq_inv i [] (mq_init_with i flag msg_size max_msgs pool s)"
    unfolding mq_init_with_def same mq_inv_def
    using ok fl by (simp add: mq_holdsI [OF S(1)] S(4))
  show "mq_max_msgs (k_mq (mq_init_with i flag msg_size max_msgs pool s) i) = max_msgs"
    "mq_msg_size (k_mq (mq_init_with i flag msg_size max_msgs pool s) i) = msg_size"
    using S(2,3) by (simp_all add: mq_init_with_def)
qed

lemma rt_mq_init_spec:
  assumes ok: "kernel_ok s" and q: "k_q s (mqq i) = []" and fl: "wait_flag flag"
    and ms: "msg_size \<le> 65532" and pool: "pool_size \<le> length pool"
      "pool_size div (rt_align msg_size + sizeof_rt_mq_message) < 2 ^ 16"
  shows "\<exists>s'. rt_mq_init i pool msg_size pool_size flag s = (RT_EOK, s') \<and> mq_inv i [] s' \<and>
    mq_msg_size (k_mq s' i) = rt_align msg_size \<and>
    mq_max_msgs (k_mq s' i) = pool_size div (rt_align msg_size + sizeof_rt_mq_message)"
proof -
  have "rt_align msg_size < 2 ^ 16"
    using ms unfolding rt_align_def rt_align_down_def RT_ALIGN_SIZE_def by simp
  then have t: "trunc_u 16 (int (rt_align msg_size)) = rt_align msg_size" by (simp add: trunc_u_of_nat)
  have t2: "trunc_u 16 (int (pool_size div (rt_align msg_size + sizeof_rt_mq_message))) =
    pool_size div (rt_align msg_size + sizeof_rt_mq_message)" using pool(2) by (simp only: trunc_u_of_nat)
  have "pool_size div (rt_align msg_size + sizeof_rt_mq_message) * (rt_align msg_size + sizeof_rt_mq_message)
    \<le> length pool" using pool(1) by (meson div_times_less_eq_dividend le_trans)
  note I = mq_init_with_spec [OF ok q fl pool(2) this]
  show ?thesis unfolding rt_mq_init_def Let_def t t2 using I by blast
qed

lemma mq_setup_sel: "mq_msg_size (mq_setup flag sz mm pool m) = sz"
  using mq_thread_pool_rep [of "m\<lparr>mq_flag := flag, mq_msg_size := sz, mq_max_msgs := mm, mq_body := pool,
      mq_head := None, mq_tail := None, mq_free := None\<rparr>" mm] by (simp add: mq_setup_def)

text \<open>A message size above 65532 is truncated: such a queue refuses every message.\<close>

lemma rt_mq_init_truncates:
  assumes "65532 < msg_size" "msg_size \<le> 65536" "0 < sz"
  shows "rt_mq_send i buffer sz (snd (rt_mq_init i pool msg_size pool_size flag s)) =
    Some (- RT_ERROR, snd (rt_mq_init i pool msg_size pool_size flag s))"
proof -
  have "msg_size = 65533 \<or> msg_size = 65534 \<or> msg_size = 65535 \<or> msg_size = 65536" using assms(1,2) by linarith
  then have "rt_align msg_size = 65536" by (auto simp: rt_align_def rt_align_down_def RT_ALIGN_SIZE_def)
  then have "trunc_u 16 (int (rt_align msg_size)) = 0" by (simp add: trunc_u_def)
  then have "mq_msg_size (k_mq (snd (rt_mq_init i pool msg_size pool_size flag s)) i) = 0"
    unfolding rt_mq_init_def mq_init_with_def Let_def snd_conv upd_mq_sel fun_upd_same mq_setup_sel .
  then show ?thesis using assms(3) by (simp only: rt_mq_send_def) simp
qed

end
