(* ===== verification/MemPool.thy ===== *)
theory MemPool
  imports Ipc Mailbox
begin

text \<open>
  Fixed-size memory pools (src/mempool.c): blocks linked into a free list through their first word,
  which holds the pool of an allocated block; threads wait for a block with or without a timeout.
  A pool is kept beside the kernel state; its blocks are numbered by their place in the pool. The
  list of waiting threads is \<open>SuspQ (IMp i)\<close> of the kernel state, and \<open>mp_suspended\<close>
  is the counter the code keeps beside that list.
\<close>

section \<open>Operations\<close>

abbreviation mpq :: "oid \<Rightarrow> qid" where "mpq i \<equiv> SuspQ (IMp i)"

text \<open>The first word of a block: the next free block, or the control block of its pool.\<close>

datatype mp_word = LinkTo "nat option" | Owner

record rt_mempool =
  mp_size :: nat
  mp_block_size :: nat
  mp_block_list :: "nat option"
  mp_block_total_count :: nat
  mp_block_free_count :: nat
  mp_suspended :: nat
  mp_word :: "nat \<Rightarrow> mp_word"

definition sizeof_ptr :: nat where "sizeof_ptr = 4"

primrec mp_thread_blocks :: "nat \<Rightarrow> (nat \<Rightarrow> mp_word) \<Rightarrow> nat \<Rightarrow> mp_word" where
  "mp_thread_blocks 0 w = w"
| "mp_thread_blocks (Suc n) w = (mp_thread_blocks n w)(n := LinkTo (Some (n + 1)))"

text \<open>After the loop the last link is cut; with no block at all the code writes before the pool.\<close>

definition mp_setup :: "nat \<Rightarrow> nat \<Rightarrow> nat \<Rightarrow> rt_mempool \<Rightarrow> rt_mempool option" where
  "mp_setup size' block_size cnt m =
     (if cnt = 0 then None
      else Some (m\<lparr>mp_size := size', mp_block_size := block_size, mp_block_total_count := cnt,
             mp_block_free_count := cnt, mp_suspended := 0,
             mp_word := (mp_thread_blocks cnt (mp_word m))(cnt - 1 := LinkTo None),
             mp_block_list := Some 0\<rparr>))"

definition rt_mp_init :: "oid \<Rightarrow> nat \<Rightarrow> nat \<Rightarrow> rt_mempool \<times> kstate \<Rightarrow>
    (int \<times> rt_mempool \<times> kstate) option" where
  "rt_mp_init i size' block_size ms =
     (case ms of (m, s) \<Rightarrow>
        let sz = rt_align_down size'; bs = rt_align block_size in
        do { m' \<leftarrow> mp_setup sz bs (sz div (bs + sizeof_ptr)) m;
             Some (RT_EOK, m', s\<lparr>k_q := (k_q s)(mpq i := [])\<rparr>) })"

definition rt_mp_create :: "oid option \<Rightarrow> (nat \<Rightarrow> bool) \<Rightarrow> nat \<Rightarrow> nat \<Rightarrow> rt_mempool \<times> kstate \<Rightarrow>
    (oid option \<times> rt_mempool \<times> kstate) option" where
  "rt_mp_create obj malloc block_count block_size ms =
     (case ms of (m, s) \<Rightarrow>
        if k_nest s \<noteq> 0 then None
        else case obj of None \<Rightarrow> Some (None, m, s)
          | Some i \<Rightarrow>
              let bs = rt_align block_size; sz = (bs + sizeof_ptr) * block_count mod 2 ^ 32 in
              if \<not> malloc sz
              then Some (None, m\<lparr>mp_block_size := bs, mp_size := sz\<rparr>, s)
              else do { m' \<leftarrow> mp_setup sz bs block_count m;
                        Some (Some i, m', s\<lparr>k_q := (k_q s)(mpq i := [])\<rparr>) })"

text \<open>Waking everybody, in \<open>rt_mp_detach\<close> and \<open>rt_mp_delete\<close>.\<close>

definition mp_count_down :: "rt_mempool \<Rightarrow> rt_mempool" where
  "mp_count_down m = m\<lparr>mp_suspended := nat ((int (mp_suspended m) - 1) mod 2 ^ 32)\<rparr>"

partial_function (option) mp_wake_all :: "oid \<Rightarrow> rt_mempool \<times> kstate \<Rightarrow> (rt_mempool \<times> kstate) option" where
  "mp_wake_all i ms =
     (case ms of (m, s) \<Rightarrow>
        (case k_q s (mpq i) of [] \<Rightarrow> Some (m, s)
         | t # _ \<Rightarrow>
             do { (_, s1) \<leftarrow> rt_thread_resume t (upd_thr t (\<lambda>h. h\<lparr>t_error := - RT_ERROR\<rparr>) s);
                  mp_wake_all i (mp_count_down m, s1) }))"

definition rt_mp_detach :: "oid \<Rightarrow> rt_mempool \<times> kstate \<Rightarrow> (int \<times> rt_mempool \<times> kstate) option" where
  "rt_mp_detach i ms = do { ms' \<leftarrow> mp_wake_all i ms; Some (RT_EOK, ms') }"

definition rt_mp_delete :: "oid \<Rightarrow> rt_mempool \<times> kstate \<Rightarrow> (int \<times> rt_mempool \<times> kstate) option" where
  "rt_mp_delete i ms =
     (if k_nest (snd ms) \<noteq> 0 then None else do { ms' \<leftarrow> mp_wake_all i ms; Some (RT_EOK, ms') })"

definition rt_set_errno :: "int \<Rightarrow> kstate \<Rightarrow> kstate" where
  "rt_set_errno e s =
     (if k_nest s \<noteq> 0 then s
      else case k_cur s of None \<Rightarrow> s | Some t \<Rightarrow> upd_thr t (\<lambda>h. h\<lparr>t_error := e\<rparr>) s)"

text \<open>Taking the first free block; the word of a listed block has to be a link.\<close>

definition mp_take :: "rt_mempool \<Rightarrow> (nat \<times> rt_mempool) option" where
  "mp_take m =
     (case mp_block_list m of None \<Rightarrow> None
      | Some b \<Rightarrow>
          (case mp_word m b of Owner \<Rightarrow> None
           | LinkTo nx \<Rightarrow> Some (b, m\<lparr>mp_block_free_count := mp_block_free_count m - 1,
               mp_block_list := nx, mp_word := (mp_word m)(b := Owner)\<rparr>)))"

text \<open>The loop of \<open>rt_mp_alloc\<close> from its head; the result is the block, if there is one.\<close>

definition mp_alloc_loop :: "oid \<Rightarrow> tid option \<Rightarrow> int \<Rightarrow> rt_mempool \<Rightarrow> kstate \<Rightarrow>
    (nat option \<times> rt_mempool, tid \<times> int \<times> u32 \<times> rt_mempool) outcome option" where
  "mp_alloc_loop i thread time m s =
     (if mp_block_free_count m = 0
      then if time = 0 then Some (Ret (None, m) (rt_set_errno (- RT_ETIMEOUT) s))
      else if k_nest s \<noteq> 0 then None
      else do {
        t \<leftarrow> thread;
        let s1 = upd_thr t (\<lambda>h. h\<lparr>t_error := RT_EOK\<rparr>) s;
        (_, s2) \<leftarrow> rt_thread_suspend t s1;
        let m' = m\<lparr>mp_suspended := (mp_suspended m + 1) mod 2 ^ 32\<rparr>;
        s3 \<leftarrow> ipc_arm t time (tlist_push (mpq i) t s2);
        s4 \<leftarrow> rt_schedule s3;
        Some (Wait (t, time, k_tick s2, m') s4) }
      else do { (b, m') \<leftarrow> mp_take m; Some (Ret (Some b, m') s) })"

definition rt_mp_alloc :: "oid \<Rightarrow> int \<Rightarrow> rt_mempool \<times> kstate \<Rightarrow>
    (nat option \<times> rt_mempool, tid \<times> int \<times> u32 \<times> rt_mempool) outcome option" where
  "rt_mp_alloc i time ms = (case ms of (m, s) \<Rightarrow> mp_alloc_loop i (k_cur s) time m s)"

text \<open>After the switch; \<open>m\<close> is the pool as it is by then.\<close>

definition rt_mp_alloc_wake :: "oid \<Rightarrow> tid \<times> int \<times> u32 \<Rightarrow> rt_mempool \<times> kstate \<Rightarrow>
    (nat option \<times> rt_mempool, tid \<times> int \<times> u32 \<times> rt_mempool) outcome option" where
  "rt_mp_alloc_wake i k ms =
     (case (k, ms) of ((t, time, before_sleep), (m, s)) \<Rightarrow>
        if t_error (k_thr s t) \<noteq> RT_EOK then Some (Ret (None, m) s)
        else mp_alloc_loop i (Some t) (rest_time time before_sleep (k_tick s)) m s)"

text \<open>
  A block is given back. The pool is found through the block's own word, and the waiting thread
  through the list, if the counter says there is one: an empty list then makes the code treat the
  head of the list as a thread.
\<close>

definition rt_mp_free :: "oid \<Rightarrow> nat \<Rightarrow> rt_mempool \<times> kstate \<Rightarrow> (rt_mempool \<times> kstate) option" where
  "rt_mp_free i b ms =
     (case ms of (m, s) \<Rightarrow>
        (case mp_word m b of LinkTo _ \<Rightarrow> None
         | Owner \<Rightarrow>
            let m1 = m\<lparr>mp_block_free_count := (mp_block_free_count m + 1) mod 2 ^ 32,
                       mp_word := (mp_word m)(b := LinkTo (mp_block_list m)), mp_block_list := Some b\<rparr> in
            if mp_suspended m1 > 0
            then (case k_q s (mpq i) of [] \<Rightarrow> None
                  | t # _ \<Rightarrow>
                      do { (_, s1) \<leftarrow> rt_thread_resume t (upd_thr t (\<lambda>h. h\<lparr>t_error := RT_EOK\<rparr>) s);
                           s2 \<leftarrow> rt_schedule s1;
                           Some (mp_count_down m1, s2) })
            else Some (m1, s)))"

section \<open>The free list\<close>

fun mp_chain :: "(nat \<Rightarrow> mp_word) \<Rightarrow> nat option \<Rightarrow> nat list \<Rightarrow> bool" where
  "mp_chain w h [] \<longleftrightarrow> h = None"
| "mp_chain w h (b # bs) \<longleftrightarrow> h = Some b \<and> (\<exists>nx. w b = LinkTo nx \<and> mp_chain w nx bs)"

lemma mp_chain_other [simp]: "b \<notin> set bs \<Longrightarrow> mp_chain (w(b := x)) h bs = mp_chain w h bs"
  by (induction bs arbitrary: h) auto

text \<open>\<open>fs\<close> are the free blocks in order; every other block of the pool is in use.\<close>

definition mp_rep :: "rt_mempool \<Rightarrow> nat list \<Rightarrow> bool" where
  "mp_rep m fs \<longleftrightarrow> mp_chain (mp_word m) (mp_block_list m) fs \<and> distinct fs \<and>
     set fs \<subseteq> {..<mp_block_total_count m} \<and> mp_block_free_count m = length fs \<and>
     mp_block_total_count m < 2 ^ 32 \<and>
     (\<forall>b < mp_block_total_count m. b \<notin> set fs \<longrightarrow> mp_word m b = Owner)"

lemma mp_repD:
  assumes "mp_rep m fs"
  shows "mp_chain (mp_word m) (mp_block_list m) fs" "distinct fs" "set fs \<subseteq> {..<mp_block_total_count m}"
    "mp_block_free_count m = length fs" "mp_block_total_count m < 2 ^ 32"
    "b < mp_block_total_count m \<Longrightarrow> b \<notin> set fs \<Longrightarrow> mp_word m b = Owner"
  using assms unfolding mp_rep_def by blast+

lemma mp_rep_length:
  assumes "mp_rep m fs" shows "length fs \<le> mp_block_total_count m"
proof -
  note R = mp_repD [OF assms]
  have "card (set fs) \<le> card {..<mp_block_total_count m}" by (rule card_mono) (use R(3) in simp_all)
  then show ?thesis using distinct_card [OF R(2)] by simp
qed

lemma mp_take_rep:
  assumes "mp_rep m (b # fs)"
  shows "\<exists>m'. mp_take m = Some (b, m') \<and> mp_rep m' fs \<and> mp_suspended m' = mp_suspended m \<and>
    mp_block_total_count m' = mp_block_total_count m"
proof -
  note R = mp_repD [OF assms]
  obtain nx where nx: "mp_block_list m = Some b" "mp_word m b = LinkTo nx" "mp_chain (mp_word m) nx fs"
    using R(1) by auto
  let ?m = "m\<lparr>mp_block_free_count := mp_block_free_count m - 1, mp_block_list := nx,
              mp_word := (mp_word m)(b := Owner)\<rparr>"
  have "mp_take m = Some (b, ?m)" using nx by (simp add: mp_take_def)
  moreover have "mp_rep ?m fs" unfolding mp_rep_def using R nx(3) by auto
  ultimately show ?thesis by (intro exI [of _ ?m]) simp
qed

text \<open>Setting up threads all blocks in order.\<close>

lemma mp_thread_blocks_nth: "mp_thread_blocks n w b = (if b < n then LinkTo (Some (b + 1)) else w b)"
  by (induction n) auto

lemma mp_chain_upt:
  assumes "\<And>b. b < n - 1 \<Longrightarrow> w b = LinkTo (Some (b + 1))" and "w (n - 1) = LinkTo None"
  shows "k < n \<Longrightarrow> mp_chain w (Some k) [k..<n]"
proof (induction "n - k" arbitrary: k)
  case (Suc d)
  show ?case
  proof (cases "k = n - 1")
    case True
    then have "[k..<n] = [k]" using Suc.prems by (simp add: upt_rec)
    then show ?thesis using assms(2) True by simp
  next
    case False
    then have k: "k < n - 1" "Suc k < n" using Suc.prems by auto
    have "mp_chain w (Some (Suc k)) [Suc k..<n]" by (rule Suc.hyps(1)) (use Suc.hyps(2) k in auto)
    then show ?thesis using assms(1) [OF k(1)] upt_conv_Cons [OF Suc.prems] by simp
  qed
qed simp

lemma mp_setup_rep:
  assumes "0 < cnt" "cnt < 2 ^ 32"
  shows "\<exists>m'. mp_setup sz bs cnt m = Some m' \<and> mp_rep m' [0..<cnt] \<and> mp_suspended m' = 0 \<and>
    mp_block_total_count m' = cnt"
proof -
  let ?w = "(mp_thread_blocks cnt (mp_word m))(cnt - 1 := LinkTo None)"
  have "mp_chain ?w (Some 0) [0..<cnt]"
    by (rule mp_chain_upt) (use assms in \<open>auto simp: mp_thread_blocks_nth\<close>)
  then show ?thesis using assms by (auto simp: mp_setup_def mp_rep_def)
qed

section \<open>Correctness\<close>

text \<open>The counter agrees with the list of waiting threads.\<close>

definition mp_inv :: "oid \<Rightarrow> nat list \<Rightarrow> rt_mempool \<times> kstate \<Rightarrow> bool" where
  "mp_inv i fs ms \<longleftrightarrow> kernel_ok (snd ms) \<and> mp_rep (fst ms) fs \<and>
     mp_suspended (fst ms) = length (k_q (snd ms) (mpq i)) \<and> mp_suspended (fst ms) < 2 ^ 32"

lemma wait_list_mp [simp]: "wait_list (mpq i)"
  by (simp add: wait_list_def)

lemma mp_rep_suspended [simp]: "mp_rep (m\<lparr>mp_suspended := n\<rparr>) fs = mp_rep m fs"
  by (simp add: mp_rep_def)

lemma mp_count_down_sel [simp]:
  "mp_rep (mp_count_down m) fs = mp_rep m fs" "mp_block_total_count (mp_count_down m) = mp_block_total_count m"
  by (simp_all add: mp_count_down_def)

lemma mp_count_down_count:
  "0 < mp_suspended m \<Longrightarrow> mp_suspended m < 2 ^ 32 \<Longrightarrow> mp_suspended (mp_count_down m) = mp_suspended m - 1"
  by (simp add: mp_count_down_def nat_diff_distrib)

lemma rt_mp_alloc_some:
  assumes "mp_inv i (b # fs) (m, s)"
  shows "\<exists>m'. rt_mp_alloc i time (m, s) = Some (Ret (Some b, m') s) \<and> mp_inv i fs (m', s) \<and>
    mp_block_total_count m' = mp_block_total_count m"
proof -
  have "mp_rep m (b # fs)" using assms by (simp add: mp_inv_def)
  from mp_take_rep [OF this] mp_repD(4) [OF this] obtain m' where
    "mp_take m = Some (b, m')" "mp_rep m' fs" "mp_suspended m' = mp_suspended m"
    "mp_block_total_count m' = mp_block_total_count m" "mp_block_free_count m \<noteq> 0" by auto
  then show ?thesis using assms by (auto simp: rt_mp_alloc_def mp_alloc_loop_def mp_inv_def)
qed

lemma rt_mp_alloc_fails:
  assumes "mp_inv i [] (m, s)"
  shows "rt_mp_alloc i 0 (m, s) = Some (Ret (None, m) (rt_set_errno (- RT_ETIMEOUT) s))"
  using assms mp_repD(4) [of m "[]"] by (simp add: mp_inv_def rt_mp_alloc_def mp_alloc_loop_def)

text \<open>A thread that has to wait goes to the front of the list.\<close>

lemma rt_mp_alloc_blocks:
  assumes inv: "mp_inv i [] (m, s)" and cur: "k_cur s = Some t" and run: "th_stat s t = RT_THREAD_RUNNING"
    and isr: "k_nest s = 0" and time: "time \<noteq> 0" "time < 0x7fffffff"
    and cnt: "mp_suspended m + 1 < 2 ^ 32"
  shows "\<exists>m' s'. rt_mp_alloc i time (m, s) = Some (Wait (t, time, k_tick s, m') s') \<and> mp_inv i [] (m', s') \<and>
    k_q s' (mpq i) = t # k_q s (mpq i) \<and> th_stat s' t = RT_THREAD_SUSPEND \<and> t_error (k_thr s' t) = RT_EOK \<and>
    (ThreadTimer t \<in> set (k_tlist s') \<longleftrightarrow> 0 < time)"
proof -
  let ?s1 = "upd_thr t (\<lambda>h. h\<lparr>t_error := RT_EOK\<rparr>) s"
  have ok1: "kernel_ok ?s1" using inv kernel_ok_core [of ?s1 s] by (simp add: thr_core_def mp_inv_def)
  have run1: "th_stat ?s1 t = RT_THREAD_RUNNING" using run by simp
  obtain s2 where s2: "rt_thread_suspend t ?s1 = Some (RT_EOK, s2)" "k_q s2 = k_q ?s1"
    "\<And>u. th_prio s2 u = th_prio ?s1 u"
    "parked ?s1 (mpq i) t (t # k_q s (mpq i)) (s2\<lparr>k_q := (k_q s2)(mpq i := t # k_q s (mpq i))\<rparr>)"
    by (rule park_spec [OF ok1 run1 wait_list_mp, of "t # k_q s (mpq i)" "[]" "k_q s (mpq i)" i])
      (simp, simp, rule that, assumption+)
  let ?s3 = "s2\<lparr>k_q := (k_q s2)(mpq i := t # k_q s (mpq i))\<rparr>"
  have push: "tlist_push (mpq i) t s2 = ?s3" by (simp add: tlist_push_def insert_head_def s2(2))
  obtain s4 s' where s': "ipc_arm t time ?s3 = Some s4" "rt_schedule s4 = Some s'"
    "blocked_in ?s1 (mpq i) t (t # k_q s (mpq i)) time s'"
    by (rule arm_and_switch [OF run1 s2(4) time(2)])
  note B = blockedD [OF s'(3)]
  have tick: "k_tick s2 = k_tick s" using s2(4) by (simp add: parked_def objs_same_def)
  let ?m = "m\<lparr>mp_suspended := (mp_suspended m + 1) mod 2 ^ 32\<rparr>"
  have free: "mp_block_free_count m = 0" using inv mp_repD(4) [of m "[]"] by (simp add: mp_inv_def)
  have "rt_mp_alloc i time (m, s) = Some (Wait (t, time, k_tick s, ?m) s')"
    using cur isr time(1) free s2(1) push s'(1,2) tick
    by (simp add: rt_mp_alloc_def mp_alloc_loop_def Let_def del: upd_thr_sel(1))
  moreover have "mp_inv i [] (?m, s')"
    using inv B(1) B(4) [OF wait_list_mp] cnt by (simp add: mp_inv_def)
  moreover have "t_error (k_thr s' t) = RT_EOK" using rt_thread_fields(1) [OF B(5) [of t]] by simp
  ultimately show ?thesis
    using B(3) B(4) [OF wait_list_mp] s'(3) by (auto simp: blocked_in_def)
qed

text \<open>Giving a block back wakes the thread at the front of the list.\<close>

lemma mp_give_back:
  assumes r: "mp_rep m fs" and b: "b < mp_block_total_count m" "b \<notin> set fs"
  shows "mp_word m b = Owner"
    "mp_rep (m\<lparr>mp_block_free_count := (mp_block_free_count m + 1) mod 2 ^ 32,
       mp_word := (mp_word m)(b := LinkTo (mp_block_list m)), mp_block_list := Some b\<rparr>) (b # fs)"
proof -
  note R = mp_repD [OF r]
  show "mp_word m b = Owner" by (rule R(6) [OF b])
  have "card (set (b # fs)) \<le> card {..<mp_block_total_count m}" by (rule card_mono) (use R(3) b(1) in simp_all)
  then have "Suc (length fs) \<le> mp_block_total_count m" using distinct_card [OF R(2)] b(2) by simp
  then have "(mp_block_free_count m + 1) mod 2 ^ 32 = Suc (length fs)" using R(4,5) by simp
  then show "mp_rep (m\<lparr>mp_block_free_count := (mp_block_free_count m + 1) mod 2 ^ 32,
       mp_word := (mp_word m)(b := LinkTo (mp_block_list m)), mp_block_list := Some b\<rparr>) (b # fs)"
    using R b by (simp add: mp_rep_def)
qed

lemma rt_mp_free_spec:
  assumes inv: "mp_inv i fs (m, s)" and b: "b < mp_block_total_count m" "b \<notin> set fs"
  shows "\<exists>m' s'. rt_mp_free i b (m, s) = Some (m', s') \<and> mp_inv i (b # fs) (m', s') \<and>
    mp_block_total_count m' = mp_block_total_count m \<and> k_q s' (mpq i) = tl (k_q s (mpq i)) \<and>
    (\<forall>t ts. k_q s (mpq i) = t # ts \<longrightarrow>
      (th_stat s' t = RT_THREAD_READY \<or> th_stat s' t = RT_THREAD_RUNNING) \<and> t_error (k_thr s' t) = RT_EOK)"
proof -
  have r: "mp_rep m fs" and ok: "kernel_ok s" and c: "mp_suspended m = length (k_q s (mpq i))"
    "mp_suspended m < 2 ^ 32"
    using inv by (simp_all add: mp_inv_def)
  let ?m1 = "m\<lparr>mp_block_free_count := (mp_block_free_count m + 1) mod 2 ^ 32,
       mp_word := (mp_word m)(b := LinkTo (mp_block_list m)), mp_block_list := Some b\<rparr>"
  note G = mp_give_back [OF r b]
  show ?thesis
  proof (cases "k_q s (mpq i)")
    case Nil
    then show ?thesis using G ok c by (auto simp: rt_mp_free_def mp_inv_def)
  next
    case (Cons t ts)
    let ?s0 = "upd_thr t (\<lambda>h. h\<lparr>t_error := RT_EOK\<rparr>) s"
    have ok0: "kernel_ok ?s0" using ok kernel_ok_core [of ?s0 s] by (simp add: thr_core_def)
    have ne: "k_q ?s0 (mpq i) = t # ts" using Cons by simp
    obtain s2 s' where s': "rt_ipc_list_resume (mpq i) ?s0 = Some s2" "rt_schedule s2 = Some s'" "kernel_ok s'"
      "objs_same ?s0 s'" "\<And>y. wait_list y \<Longrightarrow> k_q s' y = (if y = mpq i then ts else k_q ?s0 y)"
      "th_stat s' t = RT_THREAD_READY \<or> th_stat s' t = RT_THREAD_RUNNING"
      "\<And>u. k_thr s' u = (k_thr ?s0 u)\<lparr>t_stat := th_stat s' u\<rparr>" "k_lock ?s0 = 0 \<Longrightarrow> best_runs s'"
      by (rule wake_first [OF ok0 wait_list_mp ne]) (rule that, assumption+)
    obtain x where x: "rt_thread_resume t ?s0 = Some (x, s2)"
      using s'(1) ne by (auto simp: rt_ipc_list_resume_def)
    have e: "t_error (k_thr s' t) = RT_EOK" using rt_thread_fields(1) [OF s'(7) [of t]] by simp
    have q: "k_q s' (mpq i) = ts" using s'(5) [OF wait_list_mp] by simp
    have run: "rt_mp_free i b (m, s) = Some (mp_count_down ?m1, s')"
      using G(1) Cons c(1) x s'(2) by (simp add: rt_mp_free_def del: upd_thr_sel(1))
    have "mp_suspended (mp_count_down ?m1) = length ts"
      using mp_count_down_count [of ?m1] c Cons by simp
    then have "mp_inv i (b # fs) (mp_count_down ?m1, s')"
      using G(2) s'(3) q c Cons by (simp add: mp_inv_def)
    with run show ?thesis using q s'(6) e Cons by (intro exI [of _ "mp_count_down ?m1"] exI [of _ s']) simp
  qed
qed

text \<open>
  A waiter that times out leaves the list, but nothing lowers the counter: the next block that is
  given back makes the code use the head of the empty list as a thread.
\<close>

lemma mp_timeout_breaks_free:
  assumes inv: "mp_inv i [] (m, s)" and q: "k_q s (mpq i) = [t]"
    and off: "ThreadTimer t \<notin> set (k_tlist s)" and b: "b < mp_block_total_count m"
  shows "\<exists>s'. rt_thread_timeout t s = Some s' \<and> k_q s' (mpq i) = [] \<and>
    rt_mp_alloc_wake i (t, time, start) (m, s') = Some (Ret (None, m) s') \<and> rt_mp_free i b (m, s') = None"
proof -
  have ok: "kernel_ok s" and r: "mp_rep m []" and c: "mp_suspended m = 1"
    using inv q by (simp_all add: mp_inv_def)
  note k = kernel_okD(1) [OF ok]
  have st: "th_stat s t = RT_THREAD_SUSPEND" by (rule waiting_suspended [OF k wait_list_mp [of i]]) (simp add: q)
  obtain s' where s': "rt_thread_timeout t s = Some s'" "t_error (k_thr s' t) = - RT_ETIMEOUT"
    "\<And>j. k_q s' (SuspQ j) = filter (\<lambda>x. x \<noteq> t) (k_q s (SuspQ j)) \<and>
       k_q s' (SenderQ j) = filter (\<lambda>x. x \<noteq> t) (k_q s (SenderQ j))"
    by (rule rt_thread_timeout_spec [OF k st off]) (rule that, assumption+)
  have e: "k_q s' (mpq i) = []" using s'(3) [of "IMp i"] q by simp
  have "mp_word m b = Owner" by (rule mp_repD(6) [OF r b]) simp
  then have "rt_mp_free i b (m, s') = None" using e c by (simp add: rt_mp_free_def)
  then show ?thesis using s'(1,2) e by (simp add: rt_mp_alloc_wake_def)
qed

text \<open>Detaching wakes every waiter with an error and ends with the counter at zero.\<close>

lemma mp_wake_all_spec:
  assumes "mp_inv i fs (m, s)"
  shows "\<exists>m' s'. mp_wake_all i (m, s) = Some (m', s') \<and> mp_inv i fs (m', s') \<and> k_q s' (mpq i) = [] \<and>
    rt_ipc_list_resume_all (mpq i) s = Some s'"
  using assms
proof (induction "k_q s (mpq i)" arbitrary: m s)
  case Nil
  then show ?case by (subst mp_wake_all.simps, subst rt_ipc_list_resume_all.simps) simp
next
  case (Cons t ts)
  let ?s0 = "upd_thr t (\<lambda>h. h\<lparr>t_error := - RT_ERROR\<rparr>) s"
  have inv: "kernel_ok s" "mp_rep m fs" "mp_suspended m = length (t # ts)" "mp_suspended m < 2 ^ 32"
    using Cons.prems Cons.hyps(2) by (simp_all add: mp_inv_def)
  have ok0: "kernel_ok ?s0" using inv(1) kernel_ok_core [of ?s0 s] by (simp add: thr_core_def)
  have ne: "k_q ?s0 (mpq i) = t # ts" using Cons.hyps(2) by simp
  obtain s1 where s1: "rt_ipc_list_resume (mpq i) ?s0 = Some s1" "woken ?s0 t s1"
    "\<And>y. wait_list y \<Longrightarrow> k_q s1 y = (if y = mpq i then ts else k_q ?s0 y)"
    by (rule rt_ipc_list_resume_spec [OF ok0 wait_list_mp ne]) (rule that, assumption+)
  obtain x where x: "rt_thread_resume t ?s0 = Some (x, s1)"
    using s1(1) ne by (auto simp: rt_ipc_list_resume_def)
  have q1: "ts = k_q s1 (mpq i)" using s1(3) [OF wait_list_mp] by simp
  have "mp_suspended (mp_count_down m) = length ts" using mp_count_down_count [of m] inv by simp
  then have "mp_inv i fs (mp_count_down m, s1)" using inv q1 wokenD(1) [OF s1(2)] by (simp add: mp_inv_def)
  from Cons.hyps(1) [OF q1 this] show ?case
    using x Cons.hyps(2) [symmetric]
    by (subst mp_wake_all.simps, subst rt_ipc_list_resume_all.simps) (auto simp del: upd_thr_sel)
qed

end
