(* ===== verification/DataQueue.thy ===== *)
theory DataQueue
  imports Ipc Mailbox
begin

text \<open>
  Data queues of the device drivers (components/drivers/src/dataqueue.c): a circular array of items
  (an address and a size) addressed by two 16-bit counters, threads waiting to push and to pop. The
  counters run freely; C computes their difference in \<open>int\<close>, so it is taken in \<open>int\<close>
  here. The notification is a callback of the client on the kernel state.
\<close>

section \<open>Operations\<close>

abbreviation popq :: "oid \<Rightarrow> qid" where "popq i \<equiv> SuspQ (IDq i)"
abbreviation pushq :: "oid \<Rightarrow> qid" where "pushq i \<equiv> SenderQ (IDq i)"

type_synonym item = "u32 \<times> u32"

datatype dq_event = RT_DATAQUEUE_EVENT_POP | RT_DATAQUEUE_EVENT_PUSH | RT_DATAQUEUE_EVENT_LWM

record rt_data_queue =
  dq_size :: u16
  dq_lwm :: u16
  dq_get_index :: u16
  dq_put_index :: u16
  dq_queue :: "item list"
  dq_evt_notify :: "(dq_event \<Rightarrow> kstate \<Rightarrow> kstate option) option"

definition dq_notify :: "rt_data_queue \<Rightarrow> dq_event \<Rightarrow> kstate \<Rightarrow> kstate option" where
  "dq_notify q e s = (case dq_evt_notify q of None \<Rightarrow> Some s | Some f \<Rightarrow> f e s)"

definition rt_data_queue_init :: "oid \<Rightarrow> u16 \<Rightarrow> u16 \<Rightarrow> (dq_event \<Rightarrow> kstate \<Rightarrow> kstate option) option \<Rightarrow>
    item list option \<Rightarrow> rt_data_queue \<times> kstate \<Rightarrow> int \<times> rt_data_queue \<times> kstate" where
  "rt_data_queue_init i sz lwm notify mem qs =
     (case qs of (q, s) \<Rightarrow>
        let q1 = q\<lparr>dq_evt_notify := notify, dq_size := sz, dq_lwm := lwm, dq_get_index := 0, dq_put_index := 0\<rparr>;
            s1 = s\<lparr>k_q := (k_q s)(pushq i := [], popq i := [])\<rparr>
        in (case mem of None \<Rightarrow> (- 5, q1, s1)
            | Some cells \<Rightarrow> (RT_EOK, q1\<lparr>dq_queue := cells\<rparr>, s1)))"

text \<open>\<open>put_index - get_index\<close> as C computes it, and the slot of a counter.\<close>

definition dq_count :: "rt_data_queue \<Rightarrow> int" where
  "dq_count q = uint (dq_put_index q) - uint (dq_get_index q)"

definition dq_slot :: "rt_data_queue \<Rightarrow> u16 \<Rightarrow> nat" where
  "dq_slot q n = unat (n mod dq_size q)"

definition dq_store :: "item \<Rightarrow> rt_data_queue \<Rightarrow> rt_data_queue option" where
  "dq_store x q =
     (if dq_slot q (dq_put_index q) < length (dq_queue q)
      then Some (q\<lparr>dq_queue := (dq_queue q)[dq_slot q (dq_put_index q) := x],
                   dq_put_index := dq_put_index q + 1\<rparr>)
      else None)"

definition dq_fetch :: "rt_data_queue \<Rightarrow> item option" where
  "dq_fetch q = (if dq_slot q (dq_get_index q) < length (dq_queue q)
                 then Some (dq_queue q ! dq_slot q (dq_get_index q)) else None)"

text \<open>Waiting at the end of a list, as both loops do it.\<close>

definition dq_block :: "qid \<Rightarrow> tid \<Rightarrow> int \<Rightarrow> kstate \<Rightarrow> kstate option" where
  "dq_block l t timeout s = ipc_block l t RT_IPC_FLAG_FIFO timeout (upd_thr t (\<lambda>h. h\<lparr>t_error := RT_EOK\<rparr>) s)"

text \<open>\<open>rt_data_queue_push\<close> from the head of its loop.\<close>

definition dq_push_loop :: "oid \<Rightarrow> item \<Rightarrow> tid option \<Rightarrow> int \<Rightarrow> rt_data_queue \<Rightarrow> kstate \<Rightarrow>
    (int \<times> rt_data_queue, tid \<times> int \<times> rt_data_queue) outcome option" where
  "dq_push_loop i x thread timeout q s =
     (if dq_count q = uint (dq_size q)
      then if timeout = 0 then Some (Ret (- RT_ETIMEOUT, q) s)
      else if k_nest s \<noteq> 0 then None
      else do { t \<leftarrow> thread;
                s1 \<leftarrow> dq_block (pushq i) t timeout s;
                Some (Wait (t, timeout, q) s1) }
      else do {
        q1 \<leftarrow> dq_store x q;
        (if k_q s (popq i) \<noteq> []
         then do { s1 \<leftarrow> rt_ipc_list_resume (popq i) s; s2 \<leftarrow> rt_schedule s1; Some (Ret (RT_EOK, q1) s2) }
         else do { s1 \<leftarrow> dq_notify q1 RT_DATAQUEUE_EVENT_PUSH s; Some (Ret (RT_EOK, q1) s1) }) })"

definition rt_data_queue_push :: "oid \<Rightarrow> item \<Rightarrow> int \<Rightarrow> rt_data_queue \<times> kstate \<Rightarrow>
    (int \<times> rt_data_queue, tid \<times> int \<times> rt_data_queue) outcome option" where
  "rt_data_queue_push i x timeout qs = (case qs of (q, s) \<Rightarrow> dq_push_loop i x (k_cur s) timeout q s)"

definition rt_data_queue_push_wake :: "oid \<Rightarrow> item \<Rightarrow> tid \<times> int \<Rightarrow> rt_data_queue \<times> kstate \<Rightarrow>
    (int \<times> rt_data_queue, tid \<times> int \<times> rt_data_queue) outcome option" where
  "rt_data_queue_push_wake i x k qs =
     (case (k, qs) of ((t, timeout), (q, s)) \<Rightarrow>
        if t_error (k_thr s t) \<noteq> RT_EOK then Some (Ret (t_error (k_thr s t), q) s)
        else dq_push_loop i x (Some t) timeout q s)"

definition dq_pop_loop :: "oid \<Rightarrow> tid option \<Rightarrow> int \<Rightarrow> rt_data_queue \<Rightarrow> kstate \<Rightarrow>
    (int \<times> item option \<times> rt_data_queue, tid \<times> int \<times> rt_data_queue) outcome option" where
  "dq_pop_loop i thread timeout q s =
     (if dq_get_index q = dq_put_index q
      then if timeout = 0 then Some (Ret (- RT_ETIMEOUT, None, q) s)
      else if k_nest s \<noteq> 0 then None
      else do { t \<leftarrow> thread;
                s1 \<leftarrow> dq_block (popq i) t timeout s;
                Some (Wait (t, timeout, q) s1) }
      else do {
        x \<leftarrow> dq_fetch q;
        let q1 = q\<lparr>dq_get_index := dq_get_index q + 1\<rparr>;
        (if dq_count q1 \<le> uint (dq_lwm q1)
         then do {
           s2 \<leftarrow> (if k_q s (pushq i) \<noteq> []
                 then do { s1 \<leftarrow> rt_ipc_list_resume (pushq i) s; rt_schedule s1 }
                 else Some s);
           s3 \<leftarrow> dq_notify q1 RT_DATAQUEUE_EVENT_LWM s2;
           Some (Ret (RT_EOK, Some x, q1) s3) }
         else do { s1 \<leftarrow> dq_notify q1 RT_DATAQUEUE_EVENT_POP s; Some (Ret (RT_EOK, Some x, q1) s1) }) })"

definition rt_data_queue_pop :: "oid \<Rightarrow> int \<Rightarrow> rt_data_queue \<times> kstate \<Rightarrow>
    (int \<times> item option \<times> rt_data_queue, tid \<times> int \<times> rt_data_queue) outcome option" where
  "rt_data_queue_pop i timeout qs = (case qs of (q, s) \<Rightarrow> dq_pop_loop i (k_cur s) timeout q s)"

definition rt_data_queue_pop_wake :: "oid \<Rightarrow> tid \<times> int \<Rightarrow> rt_data_queue \<times> kstate \<Rightarrow>
    (int \<times> item option \<times> rt_data_queue, tid \<times> int \<times> rt_data_queue) outcome option" where
  "rt_data_queue_pop_wake i k qs =
     (case (k, qs) of ((t, timeout), (q, s)) \<Rightarrow>
        if t_error (k_thr s t) \<noteq> RT_EOK then Some (Ret (t_error (k_thr s t), None, q) s)
        else dq_pop_loop i (Some t) timeout q s)"

definition rt_data_queue_peak :: "rt_data_queue \<Rightarrow> (int \<times> item option) option" where
  "rt_data_queue_peak q =
     (if dq_get_index q = dq_put_index q then Some (- 4, None)
      else do { x \<leftarrow> dq_fetch q; Some (RT_EOK, Some x) })"

definition rt_data_queue_reset :: "oid \<Rightarrow> kstate \<Rightarrow> kstate option" where
  "rt_data_queue_reset i s =
     do { s1 \<leftarrow> rt_ipc_list_resume_all (popq i) (rt_enter_critical s);
          s2 \<leftarrow> rt_ipc_list_resume_all (pushq i) s1;
          s3 \<leftarrow> rt_exit_critical s2;
          rt_schedule s3 }"

section \<open>The queue between two wraps of its counters\<close>

text \<open>
  As long as the put counter has not overtaken its 16 bits, the counters describe a stretch of the
  circular array. After the wrap the difference the code computes is negative and the queue never
  counts as full again.
\<close>

definition dq_wf :: "rt_data_queue \<Rightarrow> bool" where
  "dq_wf q \<longleftrightarrow> 0 < dq_size q \<and> length (dq_queue q) = unat (dq_size q) \<and>
     dq_get_index q \<le> dq_put_index q \<and> unat (dq_put_index q) - unat (dq_get_index q) \<le> unat (dq_size q)"

definition dq_items :: "rt_data_queue \<Rightarrow> item list" where
  "dq_items q = ring_read (dq_queue q) (unat (dq_get_index q)) (unat (dq_put_index q) - unat (dq_get_index q))"

lemma length_dq_items [simp]: "length (dq_items q) = unat (dq_put_index q) - unat (dq_get_index q)"
  by (simp add: dq_items_def)

lemma dq_count_length: "dq_wf q \<Longrightarrow> dq_count q = int (length (dq_items q))"
  by (simp add: dq_wf_def dq_count_def word_le_nat_alt of_nat_diff)

lemma dq_slot_mod: "dq_wf q \<Longrightarrow> dq_slot q n = unat n mod length (dq_queue q)"
  by (simp add: dq_slot_def dq_wf_def unat_mod)

lemma dq_slot_bound: "dq_wf q \<Longrightarrow> dq_slot q n < length (dq_queue q)"
  using dq_slot_mod [of q n] by (simp add: dq_wf_def word_less_nat_alt)

lemma unat_plus_one: "(w :: 'a::len word) \<noteq> - 1 \<Longrightarrow> unat (w + 1) = unat w + 1"
  by (metis Suc_eq_plus1 add.commute add_eq_0_iff unatSuc)

lemma put_not_max: "unat (p :: u16) + 1 < 2 ^ 16 \<Longrightarrow> p \<noteq> - 1"
  by (auto simp: unsigned_minus_1_eq_mask mask_eq_exp_minus_1)

lemma dq_store_wf:
  assumes wf: "dq_wf q" and room: "length (dq_items q) < unat (dq_size q)" and nw: "dq_put_index q \<noteq> - 1"
  shows "\<exists>q'. dq_store x q = Some q' \<and> dq_wf q' \<and> dq_items q' = dq_items q @ [x] \<and> dq_size q' = dq_size q \<and>
    dq_put_index q' = dq_put_index q + 1 \<and> dq_evt_notify q' = dq_evt_notify q \<and> dq_lwm q' = dq_lwm q \<and>
    dq_get_index q' = dq_get_index q"
proof -
  have W: "0 < length (dq_queue q)" "unat (dq_get_index q) \<le> unat (dq_put_index q)"
    "length (dq_queue q) = unat (dq_size q)"
    using wf by (simp_all add: dq_wf_def word_le_nat_alt word_less_nat_alt)
  have p: "unat (dq_put_index q + 1) = unat (dq_put_index q) + 1"
    using nw by (rule unat_plus_one)
  let ?q = "q\<lparr>dq_queue := (dq_queue q)[dq_slot q (dq_put_index q) := x], dq_put_index := dq_put_index q + 1\<rparr>"
  have run: "dq_store x q = Some ?q" using dq_slot_bound [OF wf] by (simp add: dq_store_def)
  have wf': "dq_wf ?q" using wf room W(2) p by (simp add: dq_wf_def word_le_nat_alt)
  let ?n = "unat (dq_put_index q) - unat (dq_get_index q)"
  let ?s = "unat (dq_get_index q) mod length (dq_queue q)"
  have sl: "dq_slot q (dq_put_index q) = (?s + ?n) mod length (dq_queue q)"
  proof -
    have "(?s + ?n) mod length (dq_queue q) = (unat (dq_get_index q) + ?n) mod length (dq_queue q)"
      by (rule mod_add_left_eq)
    then show ?thesis using dq_slot_mod [OF wf] W(2) by simp
  qed
  have "ring_read (ring_put (dq_queue q) ((?s + ?n) mod length (dq_queue q)) [x]) ?s (?n + length [x]) =
      ring_read (dq_queue q) ?s ?n @ [x]"
    by (rule ring_read_put_end) (use W room in simp_all)
  moreover have "ring_put (dq_queue q) ((?s + ?n) mod length (dq_queue q)) [x] =
      (dq_queue q)[dq_slot q (dq_put_index q) := x]"
    unfolding sl [symmetric] by (rule ring_put_single [OF dq_slot_bound [OF wf]])
  moreover have "ring_read ((dq_queue q)[dq_slot q (dq_put_index q) := x]) ?s k =
      ring_read ((dq_queue q)[dq_slot q (dq_put_index q) := x]) (unat (dq_get_index q)) k"
    "ring_read (dq_queue q) ?s k = ring_read (dq_queue q) (unat (dq_get_index q)) k" for k
    using ring_read_mod [of "(dq_queue q)[dq_slot q (dq_put_index q) := x]" "unat (dq_get_index q)" k]
      ring_read_mod [of "dq_queue q" "unat (dq_get_index q)" k] by simp_all
  moreover have "unat (dq_put_index q + 1) - unat (dq_get_index q) = ?n + 1" using p W(2) by simp
  ultimately have "dq_items ?q = dq_items q @ [x]" by (simp add: dq_items_def)
  then show ?thesis using run wf' by (intro exI [of _ ?q]) simp
qed

lemma dq_fetch_wf:
  assumes wf: "dq_wf q" and ne: "dq_get_index q \<noteq> dq_put_index q"
  shows "dq_fetch q = Some (hd (dq_items q))" "dq_wf (q\<lparr>dq_get_index := dq_get_index q + 1\<rparr>)"
    "dq_items q = hd (dq_items q) # dq_items (q\<lparr>dq_get_index := dq_get_index q + 1\<rparr>)"
proof -
  have lt: "dq_get_index q < dq_put_index q" using wf ne by (simp add: dq_wf_def order.strict_iff_order)
  have W: "0 < length (dq_queue q)" "unat (dq_get_index q) < unat (dq_put_index q)"
    "length (dq_queue q) = unat (dq_size q)"
    using wf lt by (auto simp: dq_wf_def word_less_nat_alt)
  from lt have g: "unat (dq_get_index q + 1) = unat (dq_get_index q) + 1"
    by (intro unat_plus_one) (metis lt word_order.extremum_strict)
  obtain n where n: "unat (dq_put_index q) - unat (dq_get_index q) = Suc n"
    using W(2) by (cases "unat (dq_put_index q) - unat (dq_get_index q)") auto
  let ?q = "q\<lparr>dq_get_index := dq_get_index q + 1\<rparr>"
  show "dq_wf ?q" using wf W(2) g by (simp add: dq_wf_def word_le_nat_alt) linarith
  have c: "dq_items q = dq_queue q ! (unat (dq_get_index q) mod length (dq_queue q)) #
      ring_read (dq_queue q) (Suc (unat (dq_get_index q))) n"
    unfolding dq_items_def n by (simp add: ring_read_Suc)
  show "dq_fetch q = Some (hd (dq_items q))"
    using dq_slot_bound [OF wf] dq_slot_mod [OF wf] c by (simp add: dq_fetch_def)
  have "unat (dq_put_index q) - (unat (dq_get_index q) + 1) = n" using n by simp
  then have "dq_items ?q = ring_read (dq_queue q) (Suc (unat (dq_get_index q))) n"
    using g by (simp add: dq_items_def)
  then show "dq_items q = hd (dq_items q) # dq_items ?q" using c by simp
qed

section \<open>Correctness\<close>

lemma wait_list_dq [simp]: "wait_list (popq i)" "wait_list (pushq i)"
  by (simp_all add: wait_list_def)

text \<open>The client's callback, if any, returns and leaves the kernel in order.\<close>

definition notify_ok :: "rt_data_queue \<Rightarrow> bool" where
  "notify_ok q \<longleftrightarrow> (\<forall>e s. kernel_ok s \<longrightarrow> (\<exists>s'. dq_notify q e s = Some s' \<and> kernel_ok s'))"

lemma notify_ok_None: "dq_evt_notify q = None \<Longrightarrow> notify_ok q"
  by (simp add: notify_ok_def dq_notify_def)

lemma notify_ok_cong: "dq_evt_notify q' = dq_evt_notify q \<Longrightarrow> notify_ok q' = notify_ok q"
  by (simp add: notify_ok_def dq_notify_def)

definition dq_inv :: "rt_data_queue \<times> kstate \<Rightarrow> bool" where
  "dq_inv qs \<longleftrightarrow> kernel_ok (snd qs) \<and> dq_wf (fst qs) \<and> notify_ok (fst qs)"

lemma rt_data_queue_push_spec:
  assumes inv: "dq_inv (q, s)" and room: "length (dq_items q) < unat (dq_size q)" and nw: "dq_put_index q \<noteq> - 1"
  shows "\<exists>q' s'. rt_data_queue_push i x timeout (q, s) = Some (Ret (RT_EOK, q') s') \<and> dq_inv (q', s') \<and>
    dq_items q' = dq_items q @ [x] \<and> dq_size q' = dq_size q \<and> dq_put_index q' = dq_put_index q + 1 \<and>
    (\<forall>t ts. k_q s (popq i) = t # ts \<longrightarrow> k_q s' (popq i) = ts \<and>
        (th_stat s' t = RT_THREAD_READY \<or> th_stat s' t = RT_THREAD_RUNNING))"
proof -
  have ok: "kernel_ok s" and wf: "dq_wf q" and no: "notify_ok q" using inv by (simp_all add: dq_inv_def)
  obtain q' where q': "dq_store x q = Some q'" "dq_wf q'" "dq_items q' = dq_items q @ [x]" "dq_size q' = dq_size q"
    "dq_evt_notify q' = dq_evt_notify q" "dq_put_index q' = dq_put_index q + 1"
    using dq_store_wf [OF wf room nw] by blast
  have no': "notify_ok q'" using no notify_ok_cong [OF q'(5)] by simp
  have nf: "dq_count q \<noteq> uint (dq_size q)"
    using room unfolding dq_count_length [OF wf] by (metis nat_int nat_uint_eq less_irrefl)
  show ?thesis
  proof (cases "k_q s (popq i)")
    case Nil
    obtain s' where s': "dq_notify q' RT_DATAQUEUE_EVENT_PUSH s = Some s'" "kernel_ok s'"
      using no' ok unfolding notify_ok_def by blast
    show ?thesis using Nil s' q' no' nf
      by (intro exI [of _ q'] exI [of _ s']) (simp add: rt_data_queue_push_def dq_push_loop_def dq_inv_def)
  next
    case (Cons t ts)
    obtain s2 s' where s': "rt_ipc_list_resume (popq i) s = Some s2" "rt_schedule s2 = Some s'" "kernel_ok s'"
      "objs_same s s'" "\<And>y. wait_list y \<Longrightarrow> k_q s' y = (if y = popq i then ts else k_q s y)"
      "th_stat s' t = RT_THREAD_READY \<or> th_stat s' t = RT_THREAD_RUNNING"
      "\<And>u. k_thr s' u = (k_thr s u)\<lparr>t_stat := th_stat s' u\<rparr>" "k_lock s = 0 \<Longrightarrow> best_runs s'"
      by (rule wake_first [OF ok wait_list_dq(1) Cons]) (rule that, assumption+)
    show ?thesis using Cons s'(1-3,6) s'(5) [OF wait_list_dq(1)] q' no' nf
      by (intro exI [of _ q'] exI [of _ s']) (simp add: rt_data_queue_push_def dq_push_loop_def dq_inv_def)
  qed
qed

lemma rt_data_queue_pop_spec:
  assumes inv: "dq_inv (q, s)" and ne: "dq_get_index q \<noteq> dq_put_index q"
  shows "\<exists>q' s'. rt_data_queue_pop i timeout (q, s) = Some (Ret (RT_EOK, Some (hd (dq_items q)), q') s') \<and>
    dq_inv (q', s') \<and> dq_items q = hd (dq_items q) # dq_items q' \<and> dq_size q' = dq_size q \<and>
    dq_put_index q' = dq_put_index q"
proof -
  have ok: "kernel_ok s" and wf: "dq_wf q" and no: "notify_ok q" using inv by (simp_all add: dq_inv_def)
  let ?q = "q\<lparr>dq_get_index := dq_get_index q + 1\<rparr>"
  note F = dq_fetch_wf [OF wf ne]
  have no': "notify_ok ?q" using no notify_ok_cong [of ?q q] by simp
  obtain s2 where s2: "(if k_q s (pushq i) \<noteq> []
      then do { s1 \<leftarrow> rt_ipc_list_resume (pushq i) s; rt_schedule s1 } else Some s) = Some s2" "kernel_ok s2"
  proof (cases "k_q s (pushq i)")
    case Nil
    then show thesis using ok by (intro that [of s]) simp_all
  next
    case (Cons t ts)
    obtain s2 s' where s': "rt_ipc_list_resume (pushq i) s = Some s2" "rt_schedule s2 = Some s'" "kernel_ok s'"
      by (rule wake_first [OF ok wait_list_dq(2) Cons])
    then show thesis using Cons by (intro that [of s']) simp_all
  qed
  obtain s3 where s3: "dq_notify ?q RT_DATAQUEUE_EVENT_LWM s2 = Some s3" "kernel_ok s3"
    using no' s2(2) unfolding notify_ok_def by blast
  obtain s4 where s4: "dq_notify ?q RT_DATAQUEUE_EVENT_POP s = Some s4" "kernel_ok s4"
    using no' ok unfolding notify_ok_def by blast
  have inv': "dq_inv (?q, s3)" "dq_inv (?q, s4)" using F(2) no' s3(2) s4(2) by (simp_all add: dq_inv_def)
  show ?thesis
  proof (cases "dq_count ?q \<le> uint (dq_lwm ?q)")
    case True
    then have "rt_data_queue_pop i timeout (q, s) = Some (Ret (RT_EOK, Some (hd (dq_items q)), ?q) s3)"
      using ne F(1) s2(1) s3(1) by (simp add: rt_data_queue_pop_def dq_pop_loop_def Let_def)
    then show ?thesis using inv'(1) F(3) by auto
  next
    case False
    then have "rt_data_queue_pop i timeout (q, s) = Some (Ret (RT_EOK, Some (hd (dq_items q)), ?q) s4)"
      using ne F(1) s4(1) by (simp add: rt_data_queue_pop_def dq_pop_loop_def Let_def)
    then show ?thesis using inv'(2) F(3) by auto
  qed
qed

text \<open>
  Once the put counter has wrapped, a queue that is full still accepts a push: it then counts one
  item more than it has slots, so an item that was accepted before is gone.
\<close>

lemma dq_wrapped_push_accepted:
  assumes full: "dq_put_index q - dq_get_index q = dq_size q" and wrap: "dq_put_index q < dq_get_index q"
    and sz: "length (dq_queue q) = unat (dq_size q)" "0 < dq_size q"
    and idle: "k_q s (popq i) = []" "dq_evt_notify q = None"
  shows "\<exists>q'. rt_data_queue_push i x timeout (q, s) = Some (Ret (RT_EOK, q') s) \<and>
    dq_put_index q' - dq_get_index q' = dq_size q + 1 \<and> length (dq_queue q') = unat (dq_size q)"
proof -
  have "uint (dq_put_index q) < uint (dq_get_index q)" using wrap by (simp add: word_less_def)
  then have c: "dq_count q \<noteq> uint (dq_size q)" using uint_ge_0 [of "dq_size q"] unfolding dq_count_def by linarith
  have "unat (dq_put_index q mod dq_size q) < unat (dq_size q)" using sz(2) by (simp add: unat_mod word_less_nat_alt)
  then have st: "dq_store x q = Some (q\<lparr>dq_queue := (dq_queue q)[dq_slot q (dq_put_index q) := x],
      dq_put_index := dq_put_index q + 1\<rparr>)" using sz(1) by (simp add: dq_store_def dq_slot_def)
  let ?q' = "q\<lparr>dq_queue := (dq_queue q)[dq_slot q (dq_put_index q) := x], dq_put_index := dq_put_index q + 1\<rparr>"
  have "rt_data_queue_push i x timeout (q, s) = Some (Ret (RT_EOK, ?q') s)"
    using c st idle by (simp add: rt_data_queue_push_def dq_push_loop_def dq_notify_def)
  moreover have "dq_put_index q + 1 - dq_get_index q = dq_size q + 1" using full by (simp add: algebra_simps)
  ultimately show ?thesis using sz(1) by (intro exI [of _ ?q']) simp
qed

text \<open>Without waiting time a full queue refuses; with one the caller waits at the end of the list.\<close>

lemma rt_data_queue_full_fails:
  assumes "dq_wf q" "length (dq_items q) = unat (dq_size q)"
  shows "rt_data_queue_push i x 0 (q, s) = Some (Ret (- RT_ETIMEOUT, q) s)"
  using dq_count_length [OF assms(1)] assms(2)
  by (simp add: rt_data_queue_push_def dq_push_loop_def)

lemma rt_data_queue_push_blocks:
  assumes inv: "dq_inv (q, s)" and full: "length (dq_items q) = unat (dq_size q)" and cur: "k_cur s = Some t"
    and run: "th_stat s t = RT_THREAD_RUNNING" and isr: "k_nest s = 0" and time: "timeout \<noteq> 0" "timeout < 0x7fffffff"
  shows "\<exists>s'. rt_data_queue_push i x timeout (q, s) = Some (Wait (t, timeout, q) s') \<and> dq_inv (q, s') \<and>
    th_stat s' t = RT_THREAD_SUSPEND \<and> k_q s' (pushq i) = k_q s (pushq i) @ [t]"
proof -
  let ?s1 = "upd_thr t (\<lambda>h. h\<lparr>t_error := RT_EOK\<rparr>) s"
  have wf: "dq_wf q" using inv by (simp add: dq_inv_def)
  have ok1: "kernel_ok ?s1" using inv kernel_ok_core [of ?s1 s] by (simp add: thr_core_def dq_inv_def)
  have run1: "th_stat ?s1 t = RT_THREAD_RUNNING" using run by simp
  have fl: "wait_flag RT_IPC_FLAG_FIFO" by (simp add: wait_flag_def)
  obtain s' where s': "ipc_block (pushq i) t RT_IPC_FLAG_FIFO timeout ?s1 = Some s'"
    "blocked ?s1 (pushq i) t RT_IPC_FLAG_FIFO timeout s'"
    by (rule ipc_block_spec [OF ok1 run1 wait_list_dq(2) fl time(2)])
  note B = blockedD [OF s'(2)]
  have "k_q s' (pushq i) = k_q s (pushq i) @ [t]" using B(4) [OF wait_list_dq(2)] by (simp add: waiters_with_def)
  then show ?thesis
    using s'(1) B(1,3) inv cur isr time(1) dq_count_length [OF wf] full
    by (simp add: rt_data_queue_push_def dq_push_loop_def dq_block_def dq_inv_def del: upd_thr_sel(1))
qed

section \<open>Runs\<close>

text \<open>
  Calls without waiting time, in any order. The run gives the items that were accepted and the items
  that came out; \<open>dq_spec\<close> does the same on a list with \<open>cap\<close> places.
\<close>

datatype dq_call = Push_Item item | Pop_Item

fun dq_run :: "oid \<Rightarrow> dq_call list \<Rightarrow> rt_data_queue \<times> kstate \<Rightarrow> (item list \<times> item list \<times> rt_data_queue \<times> kstate) option" where
  "dq_run i [] qs = Some ([], [], qs)"
| "dq_run i (Push_Item x # cs) qs =
     (case rt_data_queue_push i x 0 qs of
        Some (Ret (e, q) s) \<Rightarrow>
          map_option (\<lambda>(ins, outs, r). (if e = RT_EOK then x # ins else ins, outs, r)) (dq_run i cs (q, s))
      | _ \<Rightarrow> None)"
| "dq_run i (Pop_Item # cs) qs =
     (case rt_data_queue_pop i 0 qs of
        Some (Ret (e, y, q) s) \<Rightarrow>
          map_option (\<lambda>(ins, outs, r). (ins, if e = RT_EOK then the y # outs else outs, r)) (dq_run i cs (q, s))
      | _ \<Rightarrow> None)"

fun dq_spec :: "nat \<Rightarrow> dq_call list \<Rightarrow> item list \<Rightarrow> item list \<times> item list \<times> item list" where
  "dq_spec cap [] xs = ([], [], xs)"
| "dq_spec cap (Push_Item x # cs) xs =
     (if length xs < cap then case dq_spec cap cs (xs @ [x]) of (ins, outs, r) \<Rightarrow> (x # ins, outs, r)
      else dq_spec cap cs xs)"
| "dq_spec cap (Pop_Item # cs) xs =
     (case xs of [] \<Rightarrow> dq_spec cap cs []
      | y # ys \<Rightarrow> case dq_spec cap cs ys of (ins, outs, r) \<Rightarrow> (ins, y # outs, r))"

definition dq_pushes :: "dq_call list \<Rightarrow> nat" where
  "dq_pushes cs = length (filter (\<lambda>c. c \<noteq> Pop_Item) cs)"

lemma dq_pushes_simps [simp]:
  "dq_pushes [] = 0" "dq_pushes (Push_Item x # cs) = Suc (dq_pushes cs)" "dq_pushes (Pop_Item # cs) = dq_pushes cs"
  by (simp_all add: dq_pushes_def)

lemma dq_spec_fifo: "dq_spec cap cs xs = (ins, outs, r) \<Longrightarrow> outs @ r = xs @ ins"
  by (induction cap cs xs arbitrary: ins outs r rule: dq_spec.induct)
    (auto split: if_splits list.splits prod.splits)

lemma dq_run_refines:
  assumes "dq_inv (q, s)" and "unat (dq_put_index q) + dq_pushes cs < 2 ^ 16"
  shows "\<exists>ins outs q' s'. dq_run i cs (q, s) = Some (ins, outs, q', s') \<and> dq_inv (q', s') \<and> dq_size q' = dq_size q \<and>
    dq_spec (unat (dq_size q)) cs (dq_items q) = (ins, outs, dq_items q')"
  using assms
proof (induction cs arbitrary: q s)
  case (Cons c cs)
  have wf: "dq_wf q" using Cons.prems(1) by (simp add: dq_inv_def)
  then have le: "length (dq_items q) \<le> unat (dq_size q)" by (simp add: dq_wf_def)
  show ?case
  proof (cases c)
    case (Push_Item x)
    show ?thesis
    proof (cases "length (dq_items q) < unat (dq_size q)")
      case True
      have lt: "unat (dq_put_index q) + 1 < 2 ^ 16" using Cons.prems(2) Push_Item by simp
      then have nw: "dq_put_index q \<noteq> - 1" by (rule put_not_max)
      obtain q1 s1 where p: "rt_data_queue_push i x 0 (q, s) = Some (Ret (RT_EOK, q1) s1)" "dq_inv (q1, s1)"
        "dq_items q1 = dq_items q @ [x]" "dq_size q1 = dq_size q" "dq_put_index q1 = dq_put_index q + 1"
        using rt_data_queue_push_spec [OF Cons.prems(1) True nw, of i x 0] by blast
      have "unat (dq_put_index q1) + dq_pushes cs < 2 ^ 16"
        using Cons.prems(2) Push_Item p(5) unat_plus_one [OF nw] by simp
      from Cons.IH [OF p(2) this] show ?thesis using Push_Item True p by auto
    next
      case False
      then have full: "length (dq_items q) = unat (dq_size q)" using le by simp
      have "unat (dq_put_index q) + dq_pushes cs < 2 ^ 16" using Cons.prems(2) Push_Item by simp
      from Cons.IH [OF Cons.prems(1) this] show ?thesis
        using Push_Item False rt_data_queue_full_fails [OF wf full, of i x s] by auto
    qed
  next
    case Pop_Item
    have w: "unat (dq_put_index q) + dq_pushes cs < 2 ^ 16" using Cons.prems(2) Pop_Item by simp
    show ?thesis
    proof (cases "dq_get_index q = dq_put_index q")
      case True
      then have "rt_data_queue_pop i 0 (q, s) = Some (Ret (- RT_ETIMEOUT, None, q) s)" "dq_items q = []"
        by (simp_all add: rt_data_queue_pop_def dq_pop_loop_def dq_items_def)
      then show ?thesis using Cons.IH [OF Cons.prems(1) w] Pop_Item by auto
    next
      case False
      obtain q1 s1 where p: "rt_data_queue_pop i 0 (q, s) = Some (Ret (RT_EOK, Some (hd (dq_items q)), q1) s1)"
        "dq_inv (q1, s1)" "dq_items q = hd (dq_items q) # dq_items q1" "dq_size q1 = dq_size q"
        "dq_put_index q1 = dq_put_index q"
        using rt_data_queue_pop_spec [OF Cons.prems(1) False, of i 0] by blast
      obtain y where y: "dq_items q = y # dq_items q1" using p(3) by blast
      have "unat (dq_put_index q1) + dq_pushes cs < 2 ^ 16" using w p(5) by simp
      from Cons.IH [OF p(2) this] show ?thesis using Pop_Item p(1,4) y by auto
    qed
  qed
qed simp

end
