(* ===== verification/DevSync.thy ===== *)
theory DevSync
  imports Semaphore Clock
begin

text \<open>
  The small synchronisation objects of the device drivers: completions (completion.c), wait queues
  (waitqueue.c) and work queues (workqueue.c) of components/drivers/src. Blocking operations are cut
  at their call of the scheduler as in ipc.c.
\<close>

section \<open>Completions\<close>

abbreviation cpq :: "oid \<Rightarrow> qid" where "cpq i \<equiv> SuspQ (ICp i)"

text \<open>The flag is RT_COMPLETED or not; the list of waiters is in the kernel state.\<close>

record rt_completion =
  cp_flag :: bool

definition rt_completion_init :: "oid \<Rightarrow> rt_completion \<times> kstate \<Rightarrow> rt_completion \<times> kstate" where
  "rt_completion_init i cs = (case cs of (c, s) \<Rightarrow> (c\<lparr>cp_flag := False\<rparr>, s\<lparr>k_q := (k_q s)(cpq i := [])\<rparr>))"

definition rt_completion_wait :: "oid \<Rightarrow> int \<Rightarrow> rt_completion \<times> kstate \<Rightarrow>
    (int \<times> rt_completion, tid \<times> rt_completion) outcome option" where
  "rt_completion_wait i timeout cs =
     (case cs of (c, s) \<Rightarrow>
        if cp_flag c then Some (Ret (RT_EOK, c\<lparr>cp_flag := False\<rparr>) s)
        else if k_q s (cpq i) \<noteq> [] then None
        else if timeout = 0 then Some (Ret (- RT_ETIMEOUT, c) s)
        else do { t \<leftarrow> k_cur s;
                  s1 \<leftarrow> rt_ipc_list_suspend (cpq i) t RT_IPC_FLAG_FIFO (upd_thr t (\<lambda>h. h\<lparr>t_error := RT_EOK\<rparr>) s);
                  if k_nest s1 \<noteq> 0 then None
                  else do { s2 \<leftarrow> ipc_arm t timeout s1;
                            s3 \<leftarrow> rt_schedule s2;
                            Some (Wait (t, c) s3) } })"

definition rt_completion_wait_wake :: "tid \<Rightarrow> rt_completion \<times> kstate \<Rightarrow> int \<times> rt_completion" where
  "rt_completion_wait_wake t cs = (case cs of (c, s) \<Rightarrow> (t_error (k_thr s t), c\<lparr>cp_flag := False\<rparr>))"

definition rt_completion_done :: "oid \<Rightarrow> rt_completion \<times> kstate \<Rightarrow> (rt_completion \<times> kstate) option" where
  "rt_completion_done i cs =
     (case cs of (c, s) \<Rightarrow>
        if cp_flag c then Some (c, s)
        else if k_q s (cpq i) \<noteq> []
        then do { s1 \<leftarrow> rt_ipc_list_resume (cpq i) s; s2 \<leftarrow> rt_schedule s1; Some (c\<lparr>cp_flag := True\<rparr>, s2) }
        else Some (c\<lparr>cp_flag := True\<rparr>, s))"

lemma wait_list_cp [simp]: "wait_list (cpq i)"
  by (simp add: wait_list_def)

lemma rt_completion_wait_blocks:
  assumes ok: "kernel_ok s" and fl: "\<not> cp_flag c" and q: "k_q s (cpq i) = []" and cur: "k_cur s = Some t"
    and run: "th_stat s t = RT_THREAD_RUNNING" and isr: "k_nest s = 0" and time: "timeout \<noteq> 0" "timeout < 0x7fffffff"
  shows "\<exists>s'. rt_completion_wait i timeout (c, s) = Some (Wait (t, c) s') \<and> kernel_ok s' \<and>
    th_stat s' t = RT_THREAD_SUSPEND \<and> k_q s' (cpq i) = [t] \<and> t_error (k_thr s' t) = RT_EOK"
proof -
  let ?s1 = "upd_thr t (\<lambda>h. h\<lparr>t_error := RT_EOK\<rparr>) s"
  have ok1: "kernel_ok ?s1" using ok kernel_ok_core [of ?s1 s] by (simp add: thr_core_def)
  have run1: "th_stat ?s1 t = RT_THREAD_RUNNING" using run by simp
  have fl1: "wait_flag RT_IPC_FLAG_FIFO" by (simp add: wait_flag_def)
  obtain s2 where s2: "rt_ipc_list_suspend (cpq i) t RT_IPC_FLAG_FIFO ?s1 = Some s2"
    "parked ?s1 (cpq i) t (waiters_with ?s1 t RT_IPC_FLAG_FIFO (k_q ?s1 (cpq i))) s2"
    by (rule rt_ipc_list_suspend_spec [OF ok1 run1 wait_list_cp fl1])
  have w: "waiters_with ?s1 t RT_IPC_FLAG_FIFO (k_q ?s1 (cpq i)) = [t]" using q by (simp add: waiters_with_def)
  have n: "k_nest s2 = 0" using s2(2) isr by (simp add: parked_def objs_same_def)
  obtain s3 s' where s': "ipc_arm t timeout s2 = Some s3" "rt_schedule s3 = Some s'"
    "blocked_in ?s1 (cpq i) t [t] timeout s'"
    by (rule arm_and_switch [OF run1 s2(2) [unfolded w] time(2)])
  note B = blockedD [OF s'(3)]
  have "rt_completion_wait i timeout (c, s) = Some (Wait (t, c) s')"
    using fl q time(1) cur s2(1) n s'(1,2) by (simp add: rt_completion_wait_def del: upd_thr_sel(1))
  moreover have "t_error (k_thr s' t) = RT_EOK" using rt_thread_fields(1) [OF B(5) [of t]] by simp
  ultimately show ?thesis using B(1,3) B(4) [OF wait_list_cp] by simp
qed

text \<open>Completing wakes the waiter, who then returns success and consumes the completion.\<close>

lemma rt_completion_done_wakes:
  assumes ok: "kernel_ok s" and fl: "\<not> cp_flag c" and q: "k_q s (cpq i) = [t]" and e: "t_error (k_thr s t) = RT_EOK"
  shows "\<exists>s'. rt_completion_done i (c, s) = Some (c\<lparr>cp_flag := True\<rparr>, s') \<and> kernel_ok s' \<and> k_q s' (cpq i) = [] \<and>
    (th_stat s' t = RT_THREAD_READY \<or> th_stat s' t = RT_THREAD_RUNNING) \<and>
    rt_completion_wait_wake t (c\<lparr>cp_flag := True\<rparr>, s') = (RT_EOK, c\<lparr>cp_flag := False\<rparr>)"
proof -
  obtain s2 s' where s': "rt_ipc_list_resume (cpq i) s = Some s2" "rt_schedule s2 = Some s'" "kernel_ok s'"
    "objs_same s s'" "\<And>y. wait_list y \<Longrightarrow> k_q s' y = (if y = cpq i then [] else k_q s y)"
    "th_stat s' t = RT_THREAD_READY \<or> th_stat s' t = RT_THREAD_RUNNING"
    "\<And>u. k_thr s' u = (k_thr s u)\<lparr>t_stat := th_stat s' u\<rparr>" "k_lock s = 0 \<Longrightarrow> best_runs s'"
    by (rule wake_first [OF ok wait_list_cp q]) (rule that, assumption+)
  have "t_error (k_thr s' t) = RT_EOK" using rt_thread_fields(1) [OF s'(7) [of t]] e by simp
  then show ?thesis using fl q s'(1,2,3,6) s'(5) [OF wait_list_cp]
    by (intro exI [of _ s']) (simp add: rt_completion_done_def rt_completion_wait_wake_def)
qed

section \<open>Wait queues\<close>

text \<open>
  The nodes of a wait queue are kept in order of arrival; each names the thread that polls and has a
  wakeup function, which the caller of \<open>rt_wqueue_wakeup\<close> gives here as a predicate: it is zero when
  the node takes the key.
\<close>

record rt_wqueue_node =
  wqn_thread :: tid
  wqn_id :: nat

record rt_wqueue =
  wqu_flag :: bool
  wqu_list :: "rt_wqueue_node list"

definition rt_wqueue_init :: "rt_wqueue \<Rightarrow> rt_wqueue" where
  "rt_wqueue_init q = q\<lparr>wqu_flag := False, wqu_list := []\<rparr>"

definition rt_wqueue_add :: "rt_wqueue_node \<Rightarrow> rt_wqueue \<Rightarrow> rt_wqueue" where
  "rt_wqueue_add n q = q\<lparr>wqu_list := insert_tail n (wqu_list q)\<rparr>"

definition rt_wqueue_remove :: "rt_wqueue_node \<Rightarrow> rt_wqueue \<Rightarrow> rt_wqueue" where
  "rt_wqueue_remove n q = q\<lparr>wqu_list := filter (\<lambda>x. x \<noteq> n) (wqu_list q)\<rparr>"

text \<open>The first node whose wakeup function returns zero.\<close>

fun wqueue_find :: "(rt_wqueue_node \<Rightarrow> int) \<Rightarrow> rt_wqueue_node list \<Rightarrow> rt_wqueue_node option" where
  "wqueue_find wakeup [] = None"
| "wqueue_find wakeup (n # ns) = (if wakeup n = 0 then Some n else wqueue_find wakeup ns)"

definition rt_wqueue_wakeup :: "(rt_wqueue_node \<Rightarrow> int) \<Rightarrow> rt_wqueue \<times> kstate \<Rightarrow> (rt_wqueue \<times> kstate) option" where
  "rt_wqueue_wakeup wakeup qs =
     (case qs of (q, s) \<Rightarrow>
        let q1 = q\<lparr>wqu_flag := True\<rparr> in
        (case wqueue_find wakeup (wqu_list q1) of
           None \<Rightarrow> Some (q1, s)
         | Some n \<Rightarrow> do { (_, s1) \<leftarrow> rt_thread_resume (wqn_thread n) s;
                          s2 \<leftarrow> rt_schedule s1;
                          Some (rt_wqueue_remove n q1, s2) }))"

text \<open>\<open>n\<close> is the node on the caller's stack.\<close>

definition rt_wqueue_wait :: "rt_wqueue_node \<Rightarrow> bool \<Rightarrow> int \<Rightarrow> rt_wqueue \<times> kstate \<Rightarrow>
    (int \<times> rt_wqueue, rt_wqueue_node \<times> rt_wqueue) outcome option" where
  "rt_wqueue_wait n condition msec qs =
     (case qs of (q, s) \<Rightarrow>
        if k_nest s \<noteq> 0 then None
        else do {
          t \<leftarrow> k_cur s;
          tick \<leftarrow> rt_tick_from_millisecond msec;
          (if condition \<or> tick = 0 then Some (Ret (0, q) s)
           else if wqu_flag q
           then Some (Ret (0, rt_wqueue_remove (n\<lparr>wqn_thread := t\<rparr>) (q\<lparr>wqu_flag := False\<rparr>)) s)
           else do {
             let q1 = rt_wqueue_add (n\<lparr>wqn_thread := t\<rparr>) q;
             (_, s1) \<leftarrow> rt_thread_suspend t s;
             s2 \<leftarrow> (if tick \<noteq> RT_WAITING_FOREVER
                   then do { (_, s2) \<leftarrow> rt_timer_control (ThreadTimer t) (RT_TIMER_CTRL_SET_TIME (word_of_int tick)) s1;
                             rt_timer_start (ThreadTimer t) s2 }
                   else Some s1);
             s3 \<leftarrow> rt_schedule s2;
             Some (Wait (n\<lparr>wqn_thread := t\<rparr>, q1) s3) }) })"

definition rt_wqueue_wait_wake :: "rt_wqueue_node \<Rightarrow> rt_wqueue \<Rightarrow> int \<times> rt_wqueue" where
  "rt_wqueue_wait_wake n q = (0, rt_wqueue_remove n (q\<lparr>wqu_flag := False\<rparr>))"

lemma wqueue_find_Some:
  "wqueue_find wakeup ns = Some n \<longleftrightarrow>
     (\<exists>us vs. ns = us @ n # vs \<and> wakeup n = 0 \<and> (\<forall>u \<in> set us. wakeup u \<noteq> 0))"
proof (induction ns)
  case (Cons a ns)
  show ?case
  proof
    assume l: "wqueue_find wakeup (a # ns) = Some n"
    show "\<exists>us vs. a # ns = us @ n # vs \<and> wakeup n = 0 \<and> (\<forall>u \<in> set us. wakeup u \<noteq> 0)"
    proof (cases "wakeup a = 0")
      case True
      then show ?thesis using l by (intro exI [of _ "[]"] exI [of _ ns]) simp
    next
      case False
      then obtain us vs where "ns = us @ n # vs" "wakeup n = 0" "\<forall>u \<in> set us. wakeup u \<noteq> 0"
        using l Cons by auto
      then show ?thesis using False by (intro exI [of _ "a # us"] exI [of _ vs]) simp
    qed
  next
    assume "\<exists>us vs. a # ns = us @ n # vs \<and> wakeup n = 0 \<and> (\<forall>u \<in> set us. wakeup u \<noteq> 0)"
    then obtain us vs where "a # ns = us @ n # vs" "wakeup n = 0" "\<forall>u \<in> set us. wakeup u \<noteq> 0" by blast
    then show "wqueue_find wakeup (a # ns) = Some n" using Cons by (cases us) auto
  qed
qed simp

text \<open>A wakeup that comes before the wait is not lost: the next wait returns at once.\<close>

lemma wakeup_before_wait:
  assumes none: "wqu_list q = []" and cur: "k_cur s = Some t" and isr: "k_nest s = 0"
    and ms: "rt_tick_from_millisecond msec = Some tick"
  shows "\<exists>q1. rt_wqueue_wakeup wakeup (q, s) = Some (q1, s) \<and>
    (\<exists>q2. rt_wqueue_wait n False msec (q1, s) = Some (Ret (0, q2) s))"
  using assms by (simp add: rt_wqueue_wakeup_def rt_wqueue_wait_def)

section \<open>Work queues\<close>

record rt_workqueue =
  wk_list :: "nat list"
  wk_current :: "nat option"
  wk_sem :: oid
  wk_thread :: tid

text \<open>The loop of the worker thread, cut where it waits and where it runs a work's function.\<close>

definition worker_wait :: "rt_workqueue \<times> kstate \<Rightarrow> kstate option" where
  "worker_wait qs =
     (case qs of (q, s) \<Rightarrow>
        if wk_list q = [] then do { t \<leftarrow> k_cur s; (_, s1) \<leftarrow> rt_thread_suspend t s; rt_schedule s1 }
        else Some s)"

text \<open>The head of the list; an empty list would make its own head the work.\<close>

definition worker_take :: "rt_workqueue \<Rightarrow> (nat \<times> rt_workqueue) option" where
  "worker_take q =
     (case wk_list q of [] \<Rightarrow> None | w # ws \<Rightarrow> Some (w, q\<lparr>wk_list := ws, wk_current := Some w\<rparr>))"

partial_function (option) work_completion_loop :: "oid \<Rightarrow> kstate \<Rightarrow> (int \<times> kstate) option" where
  "work_completion_loop i s =
     (case rt_sem_trytake i s of
        Some (Ret r s1) \<Rightarrow>
          (if r = - RT_ETIMEOUT then do { (_, s2) \<leftarrow> rt_sem_release i s1; work_completion_loop i s2 }
           else if r = RT_EOK then Some (RT_EOK, s1)
           else Some (- RT_ERROR, s1))
      | _ \<Rightarrow> None)"

definition workqueue_work_completion :: "oid \<Rightarrow> kstate \<Rightarrow> (int \<times> kstate) option" where
  "workqueue_work_completion i s =
     do { (r, s1) \<leftarrow> work_completion_loop i (rt_enter_critical s);
          s2 \<leftarrow> rt_exit_critical s1;
          Some (r, s2) }"

definition worker_done :: "rt_workqueue \<times> kstate \<Rightarrow> (rt_workqueue \<times> kstate) option" where
  "worker_done qs =
     (case qs of (q, s) \<Rightarrow>
        do { (_, s1) \<leftarrow> workqueue_work_completion (wk_sem q) s; Some (q\<lparr>wk_current := None\<rparr>, s1) })"

definition work_submit :: "nat \<Rightarrow> rt_workqueue \<times> kstate \<Rightarrow> (int \<times> rt_workqueue \<times> kstate) option" where
  "work_submit w qs =
     (case qs of (q, s) \<Rightarrow>
        if wk_current q = Some w then Some (- 7, q, s)
        else let q1 = q\<lparr>wk_list := insert_tail w (filter (\<lambda>x. x \<noteq> w) (wk_list q))\<rparr> in
             if wk_current q1 = None
             then do { (_, s1) \<leftarrow> rt_thread_resume (wk_thread q1) s; s2 \<leftarrow> rt_schedule s1; Some (RT_EOK, q1, s2) }
             else Some (RT_EOK, q1, s))"

definition rt_workqueue_dowork :: "nat \<Rightarrow> rt_workqueue \<times> kstate \<Rightarrow> (int \<times> rt_workqueue \<times> kstate) option" where
  "rt_workqueue_dowork w qs = work_submit w qs"

definition rt_workqueue_critical_work :: "nat \<Rightarrow> rt_workqueue \<times> kstate \<Rightarrow> (int \<times> rt_workqueue \<times> kstate) option" where
  "rt_workqueue_critical_work w qs = work_submit w qs"

definition rt_workqueue_cancel_work :: "nat \<Rightarrow> rt_workqueue \<Rightarrow> int \<times> rt_workqueue" where
  "rt_workqueue_cancel_work w q =
     (if wk_current q = Some w then (- 7, q)
      else (RT_EOK, q\<lparr>wk_list := filter (\<lambda>x. x \<noteq> w) (wk_list q)\<rparr>))"

definition rt_workqueue_cancel_work_sync :: "nat \<Rightarrow> rt_workqueue \<times> kstate \<Rightarrow>
    (int \<times> rt_workqueue, tid \<times> rt_workqueue) outcome option" where
  "rt_workqueue_cancel_work_sync w qs =
     (case qs of (q, s) \<Rightarrow>
        if wk_current q = Some w
        then (case rt_sem_take (wk_sem q) RT_WAITING_FOREVER s of
                None \<Rightarrow> None
              | Some (Ret _ s1) \<Rightarrow> Some (Ret (RT_EOK, q) s1)
              | Some (Wait t s1) \<Rightarrow> Some (Wait (t, q) s1))
        else Some (Ret (RT_EOK, q\<lparr>wk_list := filter (\<lambda>x. x \<noteq> w) (wk_list q)\<rparr>) s))"

definition rt_workqueue_cancel_all_work :: "rt_workqueue \<times> kstate \<Rightarrow> (int \<times> rt_workqueue \<times> kstate) option" where
  "rt_workqueue_cancel_all_work qs =
     (case qs of (q, s) \<Rightarrow>
        do { s1 \<leftarrow> rt_exit_critical (rt_enter_critical s); Some (RT_EOK, q\<lparr>wk_list := []\<rparr>, s1) })"

text \<open>
  Acknowledging a work's completion ends: every thread that waits for it is woken, one release each,
  and one last unit is released and taken back.
\<close>

lemma work_completion_loop_spec:
  assumes "kernel_ok s" "sem_inv i s" "sem_value (k_sem s i) = 0"
  shows "\<exists>s'. work_completion_loop i s = Some (RT_EOK, s') \<and> kernel_ok s' \<and> sem_inv i s' \<and>
    k_q s' (semq i) = [] \<and> sem_value (k_sem s' i) = 0"
  using assms
proof (induction "k_q s (semq i)" arbitrary: s)
  case Nil
  have t0: "rt_sem_trytake i s = Some (Ret (- RT_ETIMEOUT) s)"
    using Nil.prems(3) by (simp add: rt_sem_trytake_def rt_sem_take_def)
  obtain s1 where s1: "rt_sem_release i s = Some (RT_EOK, s1)" "kernel_ok s1" "sem_inv i s1"
    "k_q s (semq i) = [] \<Longrightarrow> k_q s1 (semq i) = [] \<and> sem_value (k_sem s1 i) = sem_value (k_sem s i) + 1"
    by (rule rt_sem_release_spec [OF Nil.prems(1,2)]) (rule that, assumption+)
  have v1: "k_q s1 (semq i) = []" "sem_value (k_sem s1 i) = 1" using s1(4) Nil by simp_all
  let ?s2 = "upd_sem i (\<lambda>x. x\<lparr>sem_value := sem_value x - 1\<rparr>) s1"
  have t1: "rt_sem_trytake i s1 = Some (Ret RT_EOK ?s2)"
    using v1(2) by (simp add: rt_sem_trytake_def rt_sem_take_def)
  have "work_completion_loop i s = Some (RT_EOK, ?s2)"
    by (subst work_completion_loop.simps, simp add: t0 s1(1), subst work_completion_loop.simps, simp add: t1)
  then show ?case using v1 s1(2,3) by (intro exI [of _ ?s2]) (simp add: sem_inv_def)
next
  case (Cons t ts)
  have t0: "rt_sem_trytake i s = Some (Ret (- RT_ETIMEOUT) s)"
    using Cons.prems(3) by (simp add: rt_sem_trytake_def rt_sem_take_def)
  obtain s1 where s1: "rt_sem_release i s = Some (RT_EOK, s1)" "kernel_ok s1" "sem_inv i s1"
    "k_q s1 (semq i) = ts" "sem_value (k_sem s1 i) = 0"
    using rt_sem_release_spec [OF Cons.prems(1,2)] Cons.hyps(2) by metis
  from Cons.hyps(1) [OF s1(4) [symmetric] s1(2,3,5)] obtain s' where
    s': "work_completion_loop i s1 = Some (RT_EOK, s')" "kernel_ok s'" "sem_inv i s'"
    "k_q s' (semq i) = []" "sem_value (k_sem s' i) = 0" by blast
  have "work_completion_loop i s = Some (RT_EOK, s')"
    by (subst work_completion_loop.simps) (simp add: t0 s1(1) s'(1))
  then show ?case using s'(2-) by blast
qed

text \<open>
  The worker does not look at the list again when it is woken: a work that is cancelled before the
  worker runs leaves it with an empty list, whose head it takes for a work.
\<close>

lemma cancelled_work_breaks_worker:
  assumes ok: "kernel_ok s" and idle: "wk_list q = []" "wk_current q = None"
    and st: "th_stat s (wk_thread q) = RT_THREAD_SUSPEND"
  shows "\<exists>q1 s1 q2. rt_workqueue_dowork w (q, s) = Some (RT_EOK, q1, s1) \<and> wk_list q1 = [w] \<and>
    (th_stat s1 (wk_thread q) = RT_THREAD_READY \<or> th_stat s1 (wk_thread q) = RT_THREAD_RUNNING) \<and>
    rt_workqueue_cancel_work w q1 = (RT_EOK, q2) \<and> worker_take q2 = None"
proof -
  let ?q1 = "q\<lparr>wk_list := [w]\<rparr>"
  obtain s0 where s0: "rt_thread_resume (wk_thread q) s = Some (RT_EOK, s0)" "woken s (wk_thread q) s0"
    by (rule rt_thread_resume_ok [OF ok st])
  note W = wokenD [OF s0(2)]
  obtain s1 where s1: "rt_schedule s0 = Some s1" "kernel_inv s1" "sched_only s0 s1"
    by (rule rt_schedule_kernel [OF kernel_okD(1) [OF W(1)]])
  have "th_stat s0 (wk_thread q) = RT_THREAD_READY \<or> th_stat s0 (wk_thread q) = RT_THREAD_RUNNING"
    by (simp add: W(4))
  then have r: "th_stat s1 (wk_thread q) = RT_THREAD_READY \<or> th_stat s1 (wk_thread q) = RT_THREAD_RUNNING"
    using s1(3) unfolding sched_only_def by (metis insertE singletonD)
  have "rt_workqueue_dowork w (q, s) = Some (RT_EOK, ?q1, s1)"
    using idle s0(1) s1(1) by (simp add: rt_workqueue_dowork_def work_submit_def insert_tail_def)
  then show ?thesis using r idle(2)
    by (intro exI [of _ ?q1] exI [of _ s1] exI [of _ "?q1\<lparr>wk_list := []\<rparr>"])
      (simp add: rt_workqueue_cancel_work_def worker_take_def)
qed

end
