(* ===== verification/RingBlk.thy ===== *)
theory RingBlk
  imports KPrelude "HOL-Library.Monad_Syntax"
begin

text \<open>
  The block ring buffer of the device drivers (components/drivers/src/ringblk_buf.c): variable-size
  blocks are cut from a circular byte buffer. A block is a slot of the block set; the block list holds
  the slots in order of allocation. Addresses are offsets from the start of the buffer, and the
  differences of addresses are the unsigned 32-bit values the code compares.
\<close>

section \<open>Operations\<close>

datatype rt_rbb_status = RT_RBB_BLK_UNUSED | RT_RBB_BLK_INITED | RT_RBB_BLK_PUT | RT_RBB_BLK_GET

record rt_rbb_blk =
  blk_status :: rt_rbb_status
  blk_buf :: nat
  blk_size :: nat

record rt_rbb =
  rbb_buf_size :: nat
  rbb_blk_set :: "rt_rbb_blk list"
  rbb_blk_max_num :: nat
  rbb_blk_list :: "nat list"

record rt_rbb_blk_queue =
  bq_blocks :: nat
  bq_blk_num :: nat

abbreviation blk :: "rt_rbb \<Rightarrow> nat \<Rightarrow> rt_rbb_blk" where "blk r i \<equiv> rbb_blk_set r ! i"

definition upd_blk :: "nat \<Rightarrow> (rt_rbb_blk \<Rightarrow> rt_rbb_blk) \<Rightarrow> rt_rbb \<Rightarrow> rt_rbb" where
  "upd_blk i f r = r\<lparr>rbb_blk_set := (rbb_blk_set r)[i := f (blk r i)]\<rparr>"

definition rt_rbb_init :: "nat \<Rightarrow> rt_rbb_blk list \<Rightarrow> nat \<Rightarrow> rt_rbb" where
  "rt_rbb_init buf_size block_set blk_max_num =
     \<lparr>rbb_buf_size = buf_size,
      rbb_blk_set = map (\<lambda>i. if i < blk_max_num then (block_set ! i)\<lparr>blk_status := RT_RBB_BLK_UNUSED\<rparr>
                              else block_set ! i) [0..<length block_set],
      rbb_blk_max_num = blk_max_num, rbb_blk_list = []\<rparr>"

text \<open>The allocator's answer for each of the three requests, in order.\<close>

definition rt_rbb_create :: "bool \<Rightarrow> bool \<Rightarrow> rt_rbb_blk list option \<Rightarrow> nat \<Rightarrow> nat \<Rightarrow> rt_rbb option" where
  "rt_rbb_create rbb_mem buf_mem blk_set_mem buf_size blk_max_num =
     (if \<not> rbb_mem then None
      else if \<not> buf_mem then None
      else case blk_set_mem of None \<Rightarrow> None
        | Some block_set \<Rightarrow> Some (rt_rbb_init buf_size block_set blk_max_num))"

fun find_unused :: "rt_rbb \<Rightarrow> nat list \<Rightarrow> nat option" where
  "find_unused r [] = None"
| "find_unused r (i # is) = (if blk_status (blk r i) = RT_RBB_BLK_UNUSED then Some i else find_unused r is)"

definition find_empty_blk_in_set :: "rt_rbb \<Rightarrow> nat option" where
  "find_empty_blk_in_set r = find_unused r [0..<rbb_blk_max_num r]"

definition sub32 :: "nat \<Rightarrow> nat \<Rightarrow> nat" where
  "sub32 a b = nat ((int a - int b) mod 2 ^ 32)"

text \<open>Appending slot \<open>n\<close> to the list as a block at offset \<open>at\<close>.\<close>

definition blk_place :: "nat \<Rightarrow> nat \<Rightarrow> nat \<Rightarrow> rt_rbb \<Rightarrow> rt_rbb" where
  "blk_place n at sz r =
     upd_blk n (\<lambda>b. b\<lparr>blk_status := RT_RBB_BLK_INITED, blk_buf := at, blk_size := sz mod 2 ^ 24\<rparr>)
       (r\<lparr>rbb_blk_list := rbb_blk_list r @ [n]\<rparr>)"

definition rt_rbb_blk_alloc :: "nat \<Rightarrow> rt_rbb \<Rightarrow> (nat option \<times> rt_rbb) option" where
  "rt_rbb_blk_alloc sz r =
     (if \<not> sz < 2 ^ 24 then None
      else case find_empty_blk_in_set r of
        None \<Rightarrow> Some (None, r)
      | Some n \<Rightarrow>
          if \<not> length (rbb_blk_list r) < rbb_blk_max_num r then Some (None, r)
          else if 0 < length (rbb_blk_list r)
          then let hd_b = blk r (hd (rbb_blk_list r)); tl_b = blk r (last (rbb_blk_list r)) in
            if blk_buf hd_b \<le> blk_buf tl_b
            then let empty1 = sub32 (rbb_buf_size r) (blk_buf tl_b + blk_size tl_b); empty2 = blk_buf hd_b in
              if empty1 \<ge> sz then Some (Some n, blk_place n (blk_buf tl_b + blk_size tl_b) sz r)
              else if empty2 \<ge> sz then Some (Some n, blk_place n 0 sz r)
              else Some (None, r)
            else let empty1 = sub32 (blk_buf hd_b) (blk_buf tl_b + blk_size tl_b) in
              if empty1 \<ge> sz then Some (Some n, blk_place n (blk_buf tl_b + blk_size tl_b) sz r)
              else Some (None, r)
          else Some (Some n, blk_place n 0 sz r))"

definition rt_rbb_blk_put :: "nat \<Rightarrow> rt_rbb \<Rightarrow> rt_rbb option" where
  "rt_rbb_blk_put i r =
     (if blk_status (blk r i) = RT_RBB_BLK_INITED
      then Some (upd_blk i (\<lambda>b. b\<lparr>blk_status := RT_RBB_BLK_PUT\<rparr>) r) else None)"

fun first_put :: "rt_rbb \<Rightarrow> nat list \<Rightarrow> nat option" where
  "first_put r [] = None"
| "first_put r (i # is) = (if blk_status (blk r i) = RT_RBB_BLK_PUT then Some i else first_put r is)"

definition rt_rbb_blk_get :: "rt_rbb \<Rightarrow> nat option \<times> rt_rbb" where
  "rt_rbb_blk_get r =
     (if rbb_blk_list r = [] then (None, r)
      else case first_put r (rbb_blk_list r) of
        None \<Rightarrow> (None, r)
      | Some i \<Rightarrow> (Some i, upd_blk i (\<lambda>b. b\<lparr>blk_status := RT_RBB_BLK_GET\<rparr>) r))"

definition rt_rbb_blk_size :: "nat \<Rightarrow> rt_rbb \<Rightarrow> nat" where "rt_rbb_blk_size i r = blk_size (blk r i)"
definition rt_rbb_blk_buf :: "nat \<Rightarrow> rt_rbb \<Rightarrow> nat" where "rt_rbb_blk_buf i r = blk_buf (blk r i)"

definition slist_remove :: "nat \<Rightarrow> nat list \<Rightarrow> nat list" where
  "slist_remove i is = remove1 i is"

definition rt_rbb_blk_free :: "nat \<Rightarrow> rt_rbb \<Rightarrow> rt_rbb option" where
  "rt_rbb_blk_free i r =
     (if blk_status (blk r i) = RT_RBB_BLK_UNUSED then None
      else Some (upd_blk i (\<lambda>b. b\<lparr>blk_status := RT_RBB_BLK_UNUSED\<rparr>)
             (r\<lparr>rbb_blk_list := slist_remove i (rbb_blk_list r)\<rparr>)))"

text \<open>
  The scan of \<open>rt_rbb_blk_queue_get\<close> over the list as it was at the start: removing the current
  node leaves its own link alone. \<open>last\<close> is \<open>last_block\<close>, \<open>tot\<close> is \<open>data_total_size\<close>.
\<close>

definition queue_take :: "nat \<Rightarrow> rt_rbb \<Rightarrow> rt_rbb" where
  "queue_take i r =
     upd_blk i (\<lambda>b. b\<lparr>blk_status := RT_RBB_BLK_GET\<rparr>) (r\<lparr>rbb_blk_list := slist_remove i (rbb_blk_list r)\<rparr>)"

fun queue_get_loop :: "nat \<Rightarrow> nat list \<Rightarrow> nat option \<Rightarrow> nat \<Rightarrow> rt_rbb_blk_queue \<Rightarrow> rt_rbb \<Rightarrow>
    nat \<times> rt_rbb_blk_queue \<times> rt_rbb" where
  "queue_get_loop len [] lst tot q r = (tot, q, r)"
| "queue_get_loop len (i # is) None tot q r =
     (if blk_status (blk r i) = RT_RBB_BLK_PUT
      then queue_get_loop len is (Some i) ((tot + blk_size (blk r i)) mod 2 ^ 32)
             (q\<lparr>bq_blocks := i, bq_blk_num := 1\<rparr>) (queue_take i r)
      else queue_get_loop len is None tot q r)"
| "queue_get_loop len (i # is) (Some l) tot q r =
     (if blk_status (blk r i) \<noteq> RT_RBB_BLK_PUT \<or> blk_buf (blk r l) > blk_buf (blk r i) \<or>
         (tot + blk_size (blk r i)) mod 2 ^ 32 > len
      then (tot, q, r)
      else queue_get_loop len is (Some i) ((tot + blk_size (blk r i)) mod 2 ^ 32)
             (q\<lparr>bq_blk_num := bq_blk_num q + 1\<rparr>) (queue_take i r))"

definition rt_rbb_blk_queue_get :: "nat \<Rightarrow> rt_rbb_blk_queue \<Rightarrow> rt_rbb \<Rightarrow> nat \<times> rt_rbb_blk_queue \<times> rt_rbb" where
  "rt_rbb_blk_queue_get len q r =
     (if rbb_blk_list r = [] then (0, q, r) else queue_get_loop len (rbb_blk_list r) None 0 q r)"

definition rt_rbb_blk_queue_len :: "rt_rbb_blk_queue \<Rightarrow> rt_rbb \<Rightarrow> nat" where
  "rt_rbb_blk_queue_len q r = (\<Sum>i<bq_blk_num q. blk_size (blk r (bq_blocks q + i))) mod 2 ^ 32"

definition rt_rbb_blk_queue_buf :: "rt_rbb_blk_queue \<Rightarrow> rt_rbb \<Rightarrow> nat" where
  "rt_rbb_blk_queue_buf q r = blk_buf (blk r (bq_blocks q))"

primrec queue_free_loop :: "nat \<Rightarrow> nat \<Rightarrow> rt_rbb \<Rightarrow> rt_rbb option" where
  "queue_free_loop first 0 r = Some r"
| "queue_free_loop first (Suc n) r =
     do { r1 \<leftarrow> queue_free_loop first n r; rt_rbb_blk_free (first + n) r1 }"

definition rt_rbb_blk_queue_free :: "rt_rbb_blk_queue \<Rightarrow> rt_rbb \<Rightarrow> rt_rbb option" where
  "rt_rbb_blk_queue_free q r = queue_free_loop (bq_blocks q) (bq_blk_num q) r"

fun next_queue_loop :: "rt_rbb \<Rightarrow> nat list \<Rightarrow> nat option \<Rightarrow> nat \<Rightarrow> nat" where
  "next_queue_loop r [] lst len = len"
| "next_queue_loop r (i # is) None len =
     (if blk_status (blk r i) \<noteq> RT_RBB_BLK_PUT then next_queue_loop r is None len
      else next_queue_loop r is (Some i) ((len + blk_size (blk r i)) mod 2 ^ 32))"
| "next_queue_loop r (i # is) (Some l) len =
     (if blk_status (blk r i) \<noteq> RT_RBB_BLK_PUT \<or> blk_buf (blk r l) > blk_buf (blk r i) then len
      else next_queue_loop r is (Some i) ((len + blk_size (blk r i)) mod 2 ^ 32))"

definition rt_rbb_next_blk_queue_len :: "rt_rbb \<Rightarrow> nat" where
  "rt_rbb_next_blk_queue_len r =
     (if rbb_blk_list r = [] then 0 else next_queue_loop r (rbb_blk_list r) None 0)"

definition rt_rbb_get_buf_size :: "rt_rbb \<Rightarrow> nat" where "rt_rbb_get_buf_size r = rbb_buf_size r"

section \<open>The layout of the blocks\<close>

text \<open>
  The list is a run of blocks in ascending order followed, after the wrap, by another run that lies
  wholly before it.
\<close>

definition blk_end :: "rt_rbb \<Rightarrow> nat \<Rightarrow> nat" where
  "blk_end r i = blk_buf (blk r i) + blk_size (blk r i)"

definition before :: "rt_rbb \<Rightarrow> nat \<Rightarrow> nat \<Rightarrow> bool" where
  "before r i j \<longleftrightarrow> blk_end r i \<le> blk_buf (blk r j)"

definition in_buf :: "rt_rbb \<Rightarrow> nat \<Rightarrow> bool" where
  "in_buf r i \<longleftrightarrow> i < rbb_blk_max_num r \<and> blk_status (blk r i) \<noteq> RT_RBB_BLK_UNUSED \<and>
     0 < blk_size (blk r i) \<and> blk_end r i \<le> rbb_buf_size r"

definition rbb_inv :: "rt_rbb \<Rightarrow> bool" where
  "rbb_inv r \<longleftrightarrow> length (rbb_blk_set r) = rbb_blk_max_num r \<and> rbb_buf_size r < 2 ^ 32 \<and>
     distinct (rbb_blk_list r) \<and> (\<forall>i \<in> set (rbb_blk_list r). in_buf r i) \<and>
     (\<exists>xs ys. rbb_blk_list r = xs @ ys \<and> sorted_wrt (before r) (ys @ xs))"

definition disjoint_blks :: "rt_rbb \<Rightarrow> nat \<Rightarrow> nat \<Rightarrow> bool" where
  "disjoint_blks r i j \<longleftrightarrow> before r i j \<or> before r j i"

lemma sorted_wrt_disjoint:
  "sorted_wrt (before r) zs \<Longrightarrow> i \<in> set zs \<Longrightarrow> j \<in> set zs \<Longrightarrow> i \<noteq> j \<Longrightarrow> disjoint_blks r i j"
  by (induction zs) (auto simp: disjoint_blks_def)

lemma rbb_inv_disjoint:
  assumes "rbb_inv r" "i \<in> set (rbb_blk_list r)" "j \<in> set (rbb_blk_list r)" "i \<noteq> j"
  shows "disjoint_blks r i j"
proof -
  obtain xs ys where "rbb_blk_list r = xs @ ys" "sorted_wrt (before r) (ys @ xs)"
    using assms(1) unfolding rbb_inv_def by blast
  then show ?thesis using assms by (intro sorted_wrt_disjoint [of r "ys @ xs"]) auto
qed

lemma find_unused_Some:
  "find_unused r is = Some n \<Longrightarrow> n \<in> set is \<and> blk_status (blk r n) = RT_RBB_BLK_UNUSED"
  by (induction "is") (auto split: if_splits)

lemma sub32_exact: "b \<le> a \<Longrightarrow> a < 2 ^ 32 \<Longrightarrow> sub32 a b = a - b"
  by (simp add: sub32_def nat_diff_distrib)

text \<open>The two cases of the code tell the two shapes of the list apart.\<close>

lemma rbb_shape:
  assumes inv: "rbb_inv r" and ne: "rbb_blk_list r \<noteq> []"
  shows "blk_buf (blk r (hd (rbb_blk_list r))) \<le> blk_buf (blk r (last (rbb_blk_list r))) \<Longrightarrow>
      sorted_wrt (before r) (rbb_blk_list r)"
    and "\<not> blk_buf (blk r (hd (rbb_blk_list r))) \<le> blk_buf (blk r (last (rbb_blk_list r))) \<Longrightarrow>
      \<exists>xs ys. rbb_blk_list r = xs @ ys \<and> xs \<noteq> [] \<and> ys \<noteq> [] \<and> sorted_wrt (before r) (ys @ xs)"
proof -
  let ?l = "rbb_blk_list r"
  obtain xs ys where l: "?l = xs @ ys" "sorted_wrt (before r) (ys @ xs)"
    using inv unfolding rbb_inv_def by blast
  have pos: "0 < blk_size (blk r i)" if "i \<in> set ?l" for i using inv that by (auto simp: rbb_inv_def in_buf_def)
  have wrapped: "blk_buf (blk r (last ?l)) < blk_buf (blk r (hd ?l))" if "xs \<noteq> []" "ys \<noteq> []"
  proof -
    have m: "last ys \<in> set ys" "hd xs \<in> set xs" using that by simp_all
    then have "before r (last ys) (hd xs)" using l(2) by (auto simp: sorted_wrt_append)
    moreover have "0 < blk_size (blk r (last ys))" by (rule pos) (use l(1) m in simp)
    ultimately show ?thesis using l(1) that by (simp add: before_def blk_end_def)
  qed
  show "sorted_wrt (before r) ?l" if "blk_buf (blk r (hd ?l)) \<le> blk_buf (blk r (last ?l))"
  proof -
    have "xs = [] \<or> ys = []" using wrapped that by auto
    then show ?thesis using l by auto
  qed
  show "\<exists>xs ys. ?l = xs @ ys \<and> xs \<noteq> [] \<and> ys \<noteq> [] \<and> sorted_wrt (before r) (ys @ xs)"
    if "\<not> blk_buf (blk r (hd ?l)) \<le> blk_buf (blk r (last ?l))"
  proof (rule ccontr)
    assume "\<not> ?thesis"
    then have "xs = [] \<or> ys = []" using l by blast
    then have s: "sorted_wrt (before r) ?l" using l by auto
    have "blk_buf (blk r (hd ?l)) \<le> blk_buf (blk r (last ?l))"
    proof (cases "tl ?l = []")
      case True
      then have "?l = [hd ?l]" using ne by (cases ?l) auto
      then have "last ?l = hd ?l" by (metis last.simps)
      then show ?thesis by simp
    next
      case False
      then have "last ?l \<in> set (tl ?l)" using ne by (metis last_in_set last_tl)
      then have "before r (hd ?l) (last ?l)" using s ne by (cases ?l) auto
      then show ?thesis by (simp add: before_def blk_end_def)
    qed
    then show False using that by simp
  qed
qed

section \<open>Correctness\<close>

lemma blk_place_sel [simp]:
  "rbb_buf_size (blk_place n a sz r) = rbb_buf_size r" "rbb_blk_max_num (blk_place n a sz r) = rbb_blk_max_num r"
  "rbb_blk_list (blk_place n a sz r) = rbb_blk_list r @ [n]"
  "length (rbb_blk_set (blk_place n a sz r)) = length (rbb_blk_set r)"
  "i \<noteq> n \<Longrightarrow> blk (blk_place n a sz r) i = blk r i"
  by (simp_all add: blk_place_def upd_blk_def)

lemma blk_place_new:
  "n < length (rbb_blk_set r) \<Longrightarrow> sz < 2 ^ 24 \<Longrightarrow>
     blk (blk_place n a sz r) n = (blk r n)\<lparr>blk_status := RT_RBB_BLK_INITED, blk_buf := a, blk_size := sz\<rparr>"
  by (simp add: blk_place_def upd_blk_def)

text \<open>A new block that fits behind the newest one, or before everything, keeps the layout.\<close>

lemma blk_place_inv:
  assumes inv: "rbb_inv r" and new: "n < rbb_blk_max_num r" "blk_status (blk r n) = RT_RBB_BLK_UNUSED"
    and sz: "0 < sz" "sz < 2 ^ 24" and fit: "a + sz \<le> rbb_buf_size r"
    and l: "rbb_blk_list r = xs @ ys" "sorted_wrt (before r) (ys @ xs)"
    and left: "\<forall>i \<in> set ys. blk_end r i \<le> a" and right: "\<forall>i \<in> set xs. a + sz \<le> blk_buf (blk r i)"
  shows "rbb_inv (blk_place n a sz r)"
proof -
  let ?r = "blk_place n a sz r"
  have len: "length (rbb_blk_set r) = rbb_blk_max_num r" using inv by (simp add: rbb_inv_def)
  note B = blk_place_new [of n r sz a, unfolded len, OF new(1) sz(2)]
  have n: "n \<notin> set (rbb_blk_list r)" using inv new(2) by (auto simp: rbb_inv_def in_buf_def)
  have eq: "blk_buf (blk ?r i) = blk_buf (blk r i)" "blk_size (blk ?r i) = blk_size (blk r i)"
    "blk_status (blk ?r i) = blk_status (blk r i)"
    if "i \<in> set (rbb_blk_list r)" for i using that n by (metis blk_place_sel(5))+
  have bef: "before ?r i j = before r i j" if "i \<in> set (rbb_blk_list r)" "j \<in> set (rbb_blk_list r)" for i j
    using eq that by (simp add: before_def blk_end_def)
  have s: "sorted_wrt (before ?r) (ys @ xs)"
    using l(2) by (rule sorted_wrt_mono_rel [rotated]) (use bef l(1) in auto)
  have "before ?r i n" if "i \<in> set ys" for i
  proof -
    have "i \<in> set (rbb_blk_list r)" using that l(1) by simp
    then show ?thesis using left that B eq [of i] by (simp add: before_def blk_end_def)
  qed
  moreover have "before ?r n i" if "i \<in> set xs" for i
  proof -
    have "i \<in> set (rbb_blk_list r)" using that l(1) by simp
    then show ?thesis using right that B eq [of i] by (simp add: before_def blk_end_def)
  qed
  ultimately have "sorted_wrt (before ?r) ((ys @ [n]) @ xs)"
    using s by (auto simp: sorted_wrt_append)
  moreover have "rbb_blk_list ?r = xs @ ys @ [n]" using l(1) by simp
  ultimately have lay: "\<exists>xs ys. rbb_blk_list ?r = xs @ ys \<and> sorted_wrt (before ?r) (ys @ xs)" by blast
  have "in_buf ?r i" if "i \<in> set (rbb_blk_list ?r)" for i
  proof (cases "i = n")
    case True
    then show ?thesis using B new(1) sz fit by (simp add: in_buf_def blk_end_def)
  next
    case False
    then have "i \<in> set (rbb_blk_list r)" using that by simp
    then show ?thesis using inv eq [of i] by (simp add: rbb_inv_def in_buf_def blk_end_def)
  qed
  then show ?thesis unfolding rbb_inv_def using inv lay n by (simp add: rbb_inv_def)
qed

lemma sorted_run_ends:
  assumes "sorted_wrt (before r) is" and "i \<in> set is"
  shows "blk_end r i \<le> blk_end r (last is)" "blk_buf (blk r (hd is)) \<le> blk_buf (blk r i)"
  using assms
proof (induction "is")
  case (Cons a "is")
  {
    case 1
    then show ?case using Cons.IH(1) by (cases "is = []") (auto simp: before_def blk_end_def dest!: bspec [OF _ last_in_set])
  next
    case 2
    then show ?case by (auto simp: before_def blk_end_def)
  }
qed simp_all

text \<open>Slot \<open>n\<close> is new and the place \<open>at\<close> is a right one for it.\<close>

definition alloc_ok :: "rt_rbb \<Rightarrow> nat \<Rightarrow> nat \<Rightarrow> nat \<Rightarrow> bool" where
  "alloc_ok r sz n at \<longleftrightarrow> rbb_inv (blk_place n at sz r) \<and> n < rbb_blk_max_num r \<and>
     n \<notin> set (rbb_blk_list r) \<and> at + sz \<le> rbb_buf_size r"

lemma alloc_okI:
  assumes "rbb_inv r" "n < rbb_blk_max_num r" "blk_status (blk r n) = RT_RBB_BLK_UNUSED"
    "0 < sz" "sz < 2 ^ 24" "at + sz \<le> rbb_buf_size r" "rbb_blk_list r = xs @ ys" "sorted_wrt (before r) (ys @ xs)"
    "\<forall>i \<in> set ys. blk_end r i \<le> at" "\<forall>i \<in> set xs. at + sz \<le> blk_buf (blk r i)"
  shows "alloc_ok r sz n at"
  using blk_place_inv [OF assms] assms by (auto simp: alloc_ok_def rbb_inv_def in_buf_def)

lemma in_buf_ends:
  assumes "rbb_inv r" "i \<in> set (rbb_blk_list r)"
  shows "blk_end r i \<le> rbb_buf_size r" "blk_buf (blk r i) \<le> rbb_buf_size r"
  using assms by (auto simp: rbb_inv_def in_buf_def blk_end_def)

text \<open>The list has not wrapped: there may be room behind the newest block or before the oldest.\<close>

lemma alloc_up:
  assumes inv: "rbb_inv r" and new: "n < rbb_blk_max_num r" "blk_status (blk r n) = RT_RBB_BLK_UNUSED"
    and sz: "0 < sz" "sz < 2 ^ 24" and ne: "rbb_blk_list r \<noteq> []"
    and up: "blk_buf (blk r (hd (rbb_blk_list r))) \<le> blk_buf (blk r (last (rbb_blk_list r)))"
  defines "lst \<equiv> blk_end r (last (rbb_blk_list r))" and "fst' \<equiv> blk_buf (blk r (hd (rbb_blk_list r)))"
  shows "sub32 (rbb_buf_size r) lst = rbb_buf_size r - lst"
    and "sz \<le> rbb_buf_size r - lst \<Longrightarrow> alloc_ok r sz n lst" and "sz \<le> fst' \<Longrightarrow> alloc_ok r sz n 0"
proof -
  note S = rbb_shape(1) [OF inv ne up]
  note E = in_buf_ends [OF inv]
  have hl: "hd (rbb_blk_list r) \<in> set (rbb_blk_list r)" "last (rbb_blk_list r) \<in> set (rbb_blk_list r)"
    using ne by simp_all
  show "sub32 (rbb_buf_size r) lst = rbb_buf_size r - lst"
    using sub32_exact E(1) [OF hl(2)] inv by (simp add: rbb_inv_def lst_def)
  show "alloc_ok r sz n lst" if "sz \<le> rbb_buf_size r - lst"
    by (rule alloc_okI [OF inv new sz, of _ "[]" "rbb_blk_list r"])
      (use S that E(1) [OF hl(2)] sorted_run_ends(1) [OF S] in \<open>simp_all add: lst_def\<close>)
  show "alloc_ok r sz n 0" if "sz \<le> fst'"
  proof (rule alloc_okI [OF inv new sz, of _ "rbb_blk_list r" "[]"])
    show "0 + sz \<le> rbb_buf_size r" using that E(2) [OF hl(1)] by (simp add: fst'_def)
    show "\<forall>i \<in> set (rbb_blk_list r). 0 + sz \<le> blk_buf (blk r i)"
      using that sorted_run_ends(2) [OF S] by (fastforce simp: fst'_def)
  qed (use S in simp_all)
qed

text \<open>The list has wrapped: there may be room between the newest and the oldest block.\<close>

lemma alloc_down:
  assumes inv: "rbb_inv r" and new: "n < rbb_blk_max_num r" "blk_status (blk r n) = RT_RBB_BLK_UNUSED"
    and sz: "0 < sz" "sz < 2 ^ 24" and ne: "rbb_blk_list r \<noteq> []"
    and down: "\<not> blk_buf (blk r (hd (rbb_blk_list r))) \<le> blk_buf (blk r (last (rbb_blk_list r)))"
  defines "lst \<equiv> blk_end r (last (rbb_blk_list r))" and "fst' \<equiv> blk_buf (blk r (hd (rbb_blk_list r)))"
  shows "sub32 fst' lst = fst' - lst" and "sz \<le> fst' - lst \<Longrightarrow> alloc_ok r sz n lst"
proof -
  obtain xs ys where l: "rbb_blk_list r = xs @ ys" "xs \<noteq> []" "ys \<noteq> []" "sorted_wrt (before r) (ys @ xs)"
    using rbb_shape(2) [OF inv ne down] by blast
  note E = in_buf_ends [OF inv]
  have ht: "lst = blk_end r (last ys)" "fst' = blk_buf (blk r (hd xs))" using l(1-3) by (simp_all add: lst_def fst'_def)
  have S: "sorted_wrt (before r) xs" "sorted_wrt (before r) ys" "\<forall>y \<in> set ys. \<forall>x \<in> set xs. before r y x"
    using l(4) by (auto simp: sorted_wrt_append)
  have "before r (last ys) (hd xs)" using S(3) l(2,3) by simp
  then have tb: "lst \<le> fst'" using ht by (simp add: before_def)
  have hb: "fst' \<le> rbb_buf_size r" using E(2) [of "hd (rbb_blk_list r)"] ne by (simp add: fst'_def)
  show "sub32 fst' lst = fst' - lst" using sub32_exact [OF tb] hb inv by (simp add: rbb_inv_def)
  show "alloc_ok r sz n lst" if "sz \<le> fst' - lst"
  proof (rule alloc_okI [OF inv new sz _ l(1,4)])
    show "lst + sz \<le> rbb_buf_size r" using that tb hb by simp
    show "\<forall>i \<in> set ys. blk_end r i \<le> lst" using sorted_run_ends(1) [OF S(2)] ht by simp
    show "\<forall>i \<in> set xs. lst + sz \<le> blk_buf (blk r i)"
      using sorted_run_ends(2) [OF S(1)] ht that tb by fastforce
  qed
qed

text \<open>
  An allocation that succeeds gives a place inside the buffer that no listed block touches, provided
  the list is not empty or the request is not larger than the buffer: an empty list skips that test.
\<close>

lemma alloc_result:
  assumes inv: "rbb_inv r" and sz: "0 < sz" "sz < 2 ^ 24" and fits: "rbb_blk_list r \<noteq> [] \<or> sz \<le> rbb_buf_size r"
  shows "rt_rbb_blk_alloc sz r = Some (None, r) \<or>
    (\<exists>n at. rt_rbb_blk_alloc sz r = Some (Some n, blk_place n at sz r) \<and> alloc_ok r sz n at)"
proof (cases "find_empty_blk_in_set r")
  case None
  then show ?thesis using sz by (simp add: rt_rbb_blk_alloc_def)
next
  case (Some n)
  have new: "n < rbb_blk_max_num r" "blk_status (blk r n) = RT_RBB_BLK_UNUSED"
    using find_unused_Some [of r "[0..<rbb_blk_max_num r]" n] Some by (auto simp: find_empty_blk_in_set_def)
  note code = rt_rbb_blk_alloc_def [of sz r] Let_def Some
  show ?thesis
  proof (cases "rbb_blk_list r = []")
    case True
    have "alloc_ok r sz n 0"
      by (rule alloc_okI [OF inv new sz, of _ "[]" "[]"]) (use True fits in simp_all)
    then show ?thesis using sz True by (simp add: code) blast
  next
    case ne: False
    show ?thesis
    proof (cases "blk_buf (blk r (hd (rbb_blk_list r))) \<le> blk_buf (blk r (last (rbb_blk_list r)))")
      case True
      note U = alloc_up [OF inv new sz ne True]
      show ?thesis using sz ne True U by (auto simp: code blk_end_def)
    next
      case False
      note D = alloc_down [OF inv new sz ne False]
      show ?thesis using sz ne False D by (auto simp: code blk_end_def)
    qed
  qed
qed

text \<open>The new block touches no other.\<close>

lemma alloc_ok_disjoint:
  assumes ok: "alloc_ok r sz n at" and sz: "0 < sz" "sz < 2 ^ 24" and len: "length (rbb_blk_set r) = rbb_blk_max_num r"
    and i: "i \<in> set (rbb_blk_list r)"
  shows "at + sz \<le> blk_buf (blk r i) \<or> blk_end r i \<le> at"
proof -
  let ?r = "blk_place n at sz r"
  have n: "n \<notin> set (rbb_blk_list r)" "n < rbb_blk_max_num r" using ok by (simp_all add: alloc_ok_def)
  have "disjoint_blks ?r i n"
    by (rule rbb_inv_disjoint) (use ok i n in \<open>auto simp: alloc_ok_def\<close>)
  moreover have "blk ?r i = blk r i" using i n(1) by (metis blk_place_sel(5))
  moreover have "blk ?r n = (blk r n)\<lparr>blk_status := RT_RBB_BLK_INITED, blk_buf := at, blk_size := sz\<rparr>"
    using blk_place_new n(2) sz(2) len by simp
  ultimately show ?thesis by (auto simp: disjoint_blks_def before_def blk_end_def)
qed

text \<open>An empty ring takes any size.\<close>

lemma alloc_empty_oversize:
  assumes "rbb_blk_list r = []" "find_empty_blk_in_set r = Some n" "0 < rbb_blk_max_num r" "sz < 2 ^ 24"
  shows "rt_rbb_blk_alloc sz r = Some (Some n, blk_place n 0 sz r)"
  using assms by (simp add: rt_rbb_blk_alloc_def)

text \<open>
  A block of size 0 that closes the ring makes it look as if it had not wrapped: the next allocation is
  placed over the oldest block, which is still in use.
\<close>

definition ring_closed :: rt_rbb where
  "ring_closed = \<lparr>rbb_buf_size = 32, rbb_blk_set =
     [\<lparr>blk_status = RT_RBB_BLK_PUT, blk_buf = 20, blk_size = 10\<rparr>,
      \<lparr>blk_status = RT_RBB_BLK_PUT, blk_buf = 0, blk_size = 20\<rparr>,
      \<lparr>blk_status = RT_RBB_BLK_UNUSED, blk_buf = 0, blk_size = 0\<rparr>,
      \<lparr>blk_status = RT_RBB_BLK_UNUSED, blk_buf = 0, blk_size = 0\<rparr>],
     rbb_blk_max_num = 4, rbb_blk_list = [0, 1]\<rparr>"

lemma zero_block_overlaps:
  "\<exists>r1 r2. rt_rbb_blk_alloc 0 ring_closed = Some (Some 2, r1) \<and> rt_rbb_blk_alloc 10 r1 = Some (Some 3, r2) \<and>
    rbb_blk_list r2 = [0, 1, 2, 3] \<and> blk_buf (blk r2 3) = blk_buf (blk r2 0) \<and> blk_size (blk r2 0) = 10"
  by (simp add: rt_rbb_blk_alloc_def ring_closed_def find_empty_blk_in_set_def upt_rec sub32_def Let_def
      blk_place_def upd_blk_def)

text \<open>Changes of the status of a listed block, and taking blocks off the list, keep the invariant.\<close>

lemma upd_status_sel [simp]:
  "blk_buf (blk (upd_blk i (\<lambda>b. b\<lparr>blk_status := st\<rparr>) r) j) = blk_buf (blk r j)"
  "blk_size (blk (upd_blk i (\<lambda>b. b\<lparr>blk_status := st\<rparr>) r) j) = blk_size (blk r j)"
  "rbb_blk_list (upd_blk i f r) = rbb_blk_list r" "rbb_buf_size (upd_blk i f r) = rbb_buf_size r"
  "rbb_blk_max_num (upd_blk i f r) = rbb_blk_max_num r"
  "length (rbb_blk_set (upd_blk i f r)) = length (rbb_blk_set r)"
  unfolding upd_blk_def
  by (cases "i < length (rbb_blk_set r)"; cases "i = j"; simp add: not_less list_update_beyond)+

lemma upd_status_status:
  "blk_status (blk (upd_blk i (\<lambda>b. b\<lparr>blk_status := st\<rparr>) r) j) =
     (if j = i \<and> i < length (rbb_blk_set r) then st else blk_status (blk r j))"
  unfolding upd_blk_def
  by (cases "i < length (rbb_blk_set r)"; cases "i = j"; simp add: not_less list_update_beyond)

lemma before_upd_status [simp]: "before (upd_blk i (\<lambda>b. b\<lparr>blk_status := st\<rparr>) r) = before r"
  by (simp add: before_def blk_end_def fun_eq_iff)

lemma upd_status_inv:
  assumes inv: "rbb_inv r" and st: "st \<noteq> RT_RBB_BLK_UNUSED"
  shows "rbb_inv (upd_blk i (\<lambda>b. b\<lparr>blk_status := st\<rparr>) r)"
  using assms by (auto simp: rbb_inv_def in_buf_def upd_status_status blk_end_def)

lemma remove_inv:
  assumes inv: "rbb_inv r"
  shows "rbb_inv (r\<lparr>rbb_blk_list := remove1 i (rbb_blk_list r)\<rparr>)"
proof -
  have b: "before (r\<lparr>rbb_blk_list := l\<rparr>) = before r" "in_buf (r\<lparr>rbb_blk_list := l\<rparr>) = in_buf r" for l
    by (simp_all add: before_def in_buf_def blk_end_def fun_eq_iff)
  obtain xs ys where l: "rbb_blk_list r = xs @ ys" "sorted_wrt (before r) (ys @ xs)"
    using inv unfolding rbb_inv_def by blast
  have d: "distinct (xs @ ys)" using inv l(1) by (simp add: rbb_inv_def)
  have f: "remove1 i zs = filter (\<lambda>x. x \<noteq> i) zs" if "distinct zs" for zs
    using that by (simp add: distinct_remove1_removeAll removeAll_filter_not_eq eq_commute)
  have "remove1 i (xs @ ys) = filter (\<lambda>x. x \<noteq> i) xs @ filter (\<lambda>x. x \<noteq> i) ys" using f [OF d] by simp
  moreover have "sorted_wrt (before r) (filter (\<lambda>x. x \<noteq> i) ys @ filter (\<lambda>x. x \<noteq> i) xs)"
    using sorted_wrt_filter [OF l(2), of "\<lambda>x. x \<noteq> i"] by simp
  ultimately have "\<exists>xs' ys'. remove1 i (xs @ ys) = xs' @ ys' \<and> sorted_wrt (before r) (ys' @ xs')" by blast
  then show ?thesis using inv l(1) d by (auto simp: rbb_inv_def b dest: set_remove1_subset [THEN subsetD])
qed

lemma rt_rbb_blk_put_inv: "rbb_inv r \<Longrightarrow> rt_rbb_blk_put i r = Some r' \<Longrightarrow> rbb_inv r'"
  by (auto simp: rt_rbb_blk_put_def upd_status_inv split: if_splits)

lemma rt_rbb_blk_get_inv: "rbb_inv r \<Longrightarrow> rt_rbb_blk_get r = (b, r') \<Longrightarrow> rbb_inv r'"
  by (auto simp: rt_rbb_blk_get_def upd_status_inv split: if_splits option.splits)

lemma rt_rbb_blk_free_inv:
  assumes inv: "rbb_inv r" and run: "rt_rbb_blk_free i r = Some r'"
  shows "rbb_inv r' \<and> i \<notin> set (rbb_blk_list r') \<and> (i < rbb_blk_max_num r \<longrightarrow> blk_status (blk r' i) = RT_RBB_BLK_UNUSED)"
proof -
  let ?r = "r\<lparr>rbb_blk_list := remove1 i (rbb_blk_list r)\<rparr>"
  have r': "r' = upd_blk i (\<lambda>b. b\<lparr>blk_status := RT_RBB_BLK_UNUSED\<rparr>) ?r"
    using run by (auto simp: rt_rbb_blk_free_def slist_remove_def split: if_splits)
  have d: "distinct (rbb_blk_list r)" "length (rbb_blk_set r) = rbb_blk_max_num r" using inv by (simp_all add: rbb_inv_def)
  have ni: "i \<notin> set (rbb_blk_list ?r)" using d(1) by simp
  have "rbb_inv r'" using remove_inv [OF inv, of i] ni
    by (auto simp: r' rbb_inv_def in_buf_def upd_status_status blk_end_def)
  then show ?thesis using ni d(2) by (simp add: r' upd_status_status)
qed

text \<open>\<open>rt_rbb_blk_get\<close> delivers the oldest block that was put.\<close>

lemma first_put_Some:
  "first_put r is = Some i \<Longrightarrow> \<exists>us vs. is = us @ i # vs \<and> blk_status (blk r i) = RT_RBB_BLK_PUT \<and>
     (\<forall>u \<in> set us. blk_status (blk r u) \<noteq> RT_RBB_BLK_PUT)"
proof (induction "is")
  case (Cons a "is")
  show ?case
  proof (cases "blk_status (blk r a) = RT_RBB_BLK_PUT")
    case True
    then show ?thesis using Cons.prems by (intro exI [of _ "[]"] exI [of _ "is"]) simp
  next
    case False
    then obtain us vs where "is = us @ i # vs" "blk_status (blk r i) = RT_RBB_BLK_PUT"
      "\<forall>u \<in> set us. blk_status (blk r u) \<noteq> RT_RBB_BLK_PUT" using Cons by auto
    then show ?thesis using False by (intro exI [of _ "a # us"] exI [of _ vs]) simp
  qed
qed simp

text \<open>
  \<open>rt_rbb_blk_queue_get\<close> takes blocks off the list before the client has read them, so their room is
  handed out again. It also returns a first block that is longer than the limit.
\<close>

lemma queue_get_reuses:
  assumes inv: "rbb_inv r" and l: "rbb_blk_list r = [i]" and st: "blk_status (blk r i) = RT_RBB_BLK_PUT"
    and at0: "blk_buf (blk r i) = 0" and sz: "blk_size (blk r i) < 2 ^ 24"
    and free: "find_empty_blk_in_set (queue_take i r) = Some n"
  shows "\<exists>q' r' r''. rt_rbb_blk_queue_get len q r = (blk_size (blk r i), q', r') \<and> bq_blocks q' = i \<and>
    blk_status (blk r' i) = RT_RBB_BLK_GET \<and> rt_rbb_blk_alloc (blk_size (blk r i)) r' = Some (Some n, r'') \<and>
    blk_buf (blk r'' n) = 0 \<and> blk_buf (blk r'' i) = 0 \<and> blk_size (blk r'' i) = blk_size (blk r i)"
proof -
  let ?r = "queue_take i r"
  have i: "i < length (rbb_blk_set r)" using inv l by (simp add: rbb_inv_def in_buf_def)
  have g: "rt_rbb_blk_queue_get len q r = (blk_size (blk r i), q\<lparr>bq_blocks := i, bq_blk_num := 1\<rparr>, ?r)"
    using l st sz by (simp add: rt_rbb_blk_queue_get_def)
  have t: "blk_status (blk ?r i) = RT_RBB_BLK_GET" "rbb_blk_list ?r = []" "rbb_blk_max_num ?r = rbb_blk_max_num r"
    "length (rbb_blk_set ?r) = length (rbb_blk_set r)" "blk_buf (blk ?r i) = 0" "blk_size (blk ?r i) = blk_size (blk r i)"
    using l i at0 by (simp_all add: queue_take_def slist_remove_def upd_status_status)
  have n: "n < rbb_blk_max_num r" "n \<noteq> i"
    using find_unused_Some [of ?r "[0..<rbb_blk_max_num r]" n] free t by (auto simp: find_empty_blk_in_set_def)
  have mx: "0 < rbb_blk_max_num ?r" using n(1) t(3) by simp
  have a: "rt_rbb_blk_alloc (blk_size (blk r i)) ?r = Some (Some n, blk_place n 0 (blk_size (blk r i)) ?r)"
    by (rule alloc_empty_oversize [OF t(2) free mx sz])
  have nn: "n < length (rbb_blk_set ?r)" using n(1) inv t(4) by (simp add: rbb_inv_def)
  have "blk_buf (blk (blk_place n 0 (blk_size (blk r i)) ?r) n) = 0" using blk_place_new [OF nn sz] by simp
  moreover have "blk (blk_place n 0 (blk_size (blk r i)) ?r) i = blk ?r i" by (rule blk_place_sel(5)) (use n(2) in simp)
  ultimately show ?thesis using g t a by auto
qed

end
