(* ===== verification/KObject.thy ===== *)
theory KObject
  imports KMemory "HOL-Library.Monad_Syntax"
begin

unbundle bit_operations_syntax

text \<open>
  The registry of kernel objects (src/object.c): every object has a class, a name of eight characters
  and a place in the container of its class; the containers of the classes of this configuration are
  fixed. Objects are named by their addresses.
\<close>

section \<open>Classes and containers\<close>

definition RT_NAME_MAX :: nat where "RT_NAME_MAX = 8"

definition RT_Object_Class_Null :: u8 where "RT_Object_Class_Null = 0"
definition RT_Object_Class_Thread :: u8 where "RT_Object_Class_Thread = 1"
definition RT_Object_Class_Device :: u8 where "RT_Object_Class_Device = 9"
definition RT_Object_Class_Unknown :: u8 where "RT_Object_Class_Unknown = 12"
definition RT_Object_Class_Static :: u8 where "RT_Object_Class_Static = 0x80"

lemmas object_classes = RT_Object_Class_Null_def RT_Object_Class_Thread_def RT_Object_Class_Device_def
  RT_Object_Class_Unknown_def RT_Object_Class_Static_def

text \<open>Thread, semaphore, mutex, event, mailbox, message queue, memory pool, device, timer.\<close>

definition rt_object_container :: "u8 list" where
  "rt_object_container = [1, 2, 3, 4, 5, 6, 8, 9, 10]"

record rt_object =
  ob_name :: "u8 list"
  ob_type :: u8
  ob_flag :: u8

record registry =
  rg_obj :: "nat \<Rightarrow> rt_object"
  rg_list :: "u8 \<Rightarrow> nat list"

definition rt_object_get_information :: "u8 \<Rightarrow> u8 option" where
  "rt_object_get_information type = List.find (\<lambda>c. c = type) rt_object_container"

lemma get_information: "rt_object_get_information c = (if c \<in> set rt_object_container then Some c else None)"
  by (simp add: rt_object_get_information_def rt_object_container_def)

section \<open>Operations\<close>

definition upd_obj :: "nat \<Rightarrow> (rt_object \<Rightarrow> rt_object) \<Rightarrow> registry \<Rightarrow> registry" where
  "upd_obj a f r = r\<lparr>rg_obj := (rg_obj r)(a := f (rg_obj r a))\<rparr>"

text \<open>\<open>rt_list_insert_after\<close> at the head of a container, and \<open>rt_list_remove\<close>.\<close>

definition container_push :: "u8 \<Rightarrow> nat \<Rightarrow> registry \<Rightarrow> registry" where
  "container_push c a r = r\<lparr>rg_list := (rg_list r)(c := a # rg_list r c)\<rparr>"

definition container_remove :: "nat \<Rightarrow> registry \<Rightarrow> registry" where
  "container_remove a r = r\<lparr>rg_list := (\<lambda>c. remove1 a (rg_list r c))\<rparr>"

definition rt_object_init :: "nat \<Rightarrow> u8 \<Rightarrow> u8 list \<Rightarrow> registry \<Rightarrow> registry option" where
  "rt_object_init object type name r =
     do { c \<leftarrow> rt_object_get_information type;
          let r1 = upd_obj object (\<lambda>x. x\<lparr>ob_type := type OR RT_Object_Class_Static\<rparr>) r;
          n \<leftarrow> rt_strncpy (ob_name (rg_obj r1 object)) name RT_NAME_MAX;
          Some (container_push c object (upd_obj object (\<lambda>x. x\<lparr>ob_name := n\<rparr>) r1)) }"

definition rt_object_detach :: "nat \<Rightarrow> registry \<Rightarrow> registry" where
  "rt_object_detach object r = container_remove object (upd_obj object (\<lambda>x. x\<lparr>ob_type := 0\<rparr>) r)"

text \<open>\<open>mem\<close> is the answer of the heap.\<close>

definition rt_object_allocate :: "u8 \<Rightarrow> u8 list \<Rightarrow> nat option \<Rightarrow> registry \<Rightarrow> (nat option \<times> registry) option" where
  "rt_object_allocate type name mem r =
     do { c \<leftarrow> rt_object_get_information type;
          (case mem of
             None \<Rightarrow> Some (None, r)
           | Some a \<Rightarrow>
               do { let r1 = upd_obj a (\<lambda>x. \<lparr>ob_name = replicate RT_NAME_MAX 0, ob_type = type, ob_flag = 0\<rparr>) r;
                    n \<leftarrow> rt_strncpy (ob_name (rg_obj r1 a)) name RT_NAME_MAX;
                    Some (Some a, container_push c a (upd_obj a (\<lambda>x. x\<lparr>ob_name := n\<rparr>) r1)) }) }"

definition rt_object_is_systemobject :: "nat \<Rightarrow> registry \<Rightarrow> bool" where
  "rt_object_is_systemobject object r \<longleftrightarrow> ob_type (rg_obj r object) AND RT_Object_Class_Static \<noteq> 0"

definition rt_object_get_type :: "nat \<Rightarrow> registry \<Rightarrow> u8" where
  "rt_object_get_type object r = ob_type (rg_obj r object) AND NOT RT_Object_Class_Static"

definition rt_object_delete :: "nat \<Rightarrow> registry \<Rightarrow> registry option" where
  "rt_object_delete object r =
     (if rt_object_is_systemobject object r then None
      else Some (container_remove object (upd_obj object (\<lambda>x. x\<lparr>ob_type := 0\<rparr>) r)))"

text \<open>The search through a container, shared with \<open>rt_device_find\<close>.\<close>

fun container_find :: "registry \<Rightarrow> u8 list \<Rightarrow> nat list \<Rightarrow> nat option option" where
  "container_find r name [] = Some None"
| "container_find r name (a # as) =
     do { d \<leftarrow> rt_strncmp (ob_name (rg_obj r a)) name RT_NAME_MAX;
          if d = 0 then Some (Some a) else container_find r name as }"

text \<open>A null name is refused; a class without a container fails the assertion.\<close>

definition rt_object_find :: "u8 list option \<Rightarrow> u8 \<Rightarrow> registry \<Rightarrow> nat option option" where
  "rt_object_find name type r =
     (case name of
        None \<Rightarrow> Some None
      | Some nm \<Rightarrow>
          if type > RT_Object_Class_Unknown then Some None
          else do { c \<leftarrow> rt_object_get_information type; container_find r nm (rg_list r c) })"

section \<open>Names\<close>

text \<open>The characters of a stored name; a name of eight characters has no terminator.\<close>

definition name_of :: "registry \<Rightarrow> nat \<Rightarrow> u8 list" where
  "name_of r a = takeWhile (\<lambda>x. x \<noteq> 0) (ob_name (rg_obj r a))"

lemma strncpy_name:
  "cstring s bs \<Longrightarrow> length d = k \<Longrightarrow> rt_strncpy d s k = Some (take k (bs @ replicate k 0))"
proof (induction d s k arbitrary: bs rule: rt_strncpy.induct)
  case (2 d ds c cs n)
  show ?case
  proof (cases "c = 0")
    case False
    then obtain bs' where "bs = c # bs'" "cstring cs bs'" using "2.prems"(1) by (auto simp: cstring_Cons)
    moreover have "replicate (Suc n) (0 :: u8) = replicate n 0 @ [0]" by (simp add: replicate_append_same)
    ultimately show ?thesis using 2 False by (auto simp del: replicate.simps)
  qed (use 2 in \<open>auto simp: cstring_Cons\<close>)
qed (auto simp: cstring_def)

lemma takeWhile_padded: "0 \<notin> set bs \<Longrightarrow> takeWhile (\<lambda>x. x \<noteq> 0) (take k (bs @ replicate k 0)) = take k bs"
proof (induction bs arbitrary: k)
  case Nil
  then show ?case by (cases k) auto
next
  case (Cons b bs)
  show ?case
  proof (cases k)
    case (Suc n)
    have "replicate (Suc n) (0 :: 'a) = replicate n 0 @ [0]" by (simp add: replicate_append_same)
    then show ?thesis using Cons.IH [of n] Cons.prems Suc by (auto simp del: replicate.simps)
  qed simp
qed

lemma strncmp_name:
  "length n = k \<Longrightarrow> cstring s bs \<Longrightarrow>
     \<exists>d. rt_strncmp n s k = Some d \<and> (d = 0 \<longleftrightarrow> takeWhile (\<lambda>x. x \<noteq> 0) n = take k bs)"
proof (induction n s k arbitrary: bs rule: rt_strncmp.induct)
  case (2 x cs y ct n)
  have z: "to_schar (int (unat x) - int (unat y)) = 0 \<longleftrightarrow> x = y"
    using to_schar_zero [OF unat_diff_range [of x y]] by simp
  show ?case
  proof (cases "x \<noteq> 0 \<and> x = y")
    case True
    with "2.prems" obtain bs' where b: "bs = y # bs'" "cstring ct bs'" by (auto simp: cstring_Cons)
    have "\<not> (to_schar (int (unat x) - int (unat y)) \<noteq> 0 \<or> x = 0)" using z True by auto
    from "2.IH" [OF refl this _ b(2)] this b True "2.prems" show ?thesis by (auto simp: Let_def)
  next
    case False
    with z "2.prems" show ?thesis by (auto simp: cstring_Cons Let_def split: if_splits)
  qed
qed (auto simp: cstring_def)

section \<open>The invariant\<close>

definition registered :: "registry \<Rightarrow> nat \<Rightarrow> bool" where
  "registered r a \<longleftrightarrow> (\<exists>c. a \<in> set (rg_list r c))"

definition registry_ok :: "registry \<Rightarrow> bool" where
  "registry_ok r \<longleftrightarrow> (\<forall>c. distinct (rg_list r c) \<and>
     (\<forall>a \<in> set (rg_list r c). c \<in> set rt_object_container \<and> rt_object_get_type a r = c \<and>
        length (ob_name (rg_obj r a)) = RT_NAME_MAX))"

lemma class_bits:
  assumes "c \<in> set rt_object_container"
  shows "(c OR RT_Object_Class_Static) AND NOT RT_Object_Class_Static = c"
    "(c OR RT_Object_Class_Static) AND RT_Object_Class_Static \<noteq> 0"
    "c AND NOT RT_Object_Class_Static = c" "c AND RT_Object_Class_Static = 0" "c \<noteq> 0"
  using assms by (auto simp: rt_object_container_def object_classes)

lemma one_container:
  assumes "registry_ok r" "a \<in> set (rg_list r c)" "a \<in> set (rg_list r d)"
  shows "c = d"
  using assms unfolding registry_ok_def by metis

lemma container_find_spec:
  assumes "\<And>a. a \<in> set as \<Longrightarrow> length (ob_name (rg_obj r a)) = RT_NAME_MAX" "cstring nm bs"
  shows "container_find r nm as = Some (List.find (\<lambda>a. name_of r a = take RT_NAME_MAX bs) as)"
  using assms
proof (induction as)
  case (Cons a as)
  obtain d where "rt_strncmp (ob_name (rg_obj r a)) nm RT_NAME_MAX = Some d"
    "d = 0 \<longleftrightarrow> name_of r a = take RT_NAME_MAX bs"
    using strncmp_name [OF Cons.prems(1) Cons.prems(2), of a] by (auto simp: name_of_def)
  then show ?case using Cons by auto
qed simp

lemma rt_object_find_spec:
  assumes "registry_ok r" "c \<in> set rt_object_container" "cstring nm bs"
  shows "rt_object_find (Some nm) c r =
    Some (List.find (\<lambda>a. name_of r a = take RT_NAME_MAX bs) (rg_list r c))"
proof -
  have "\<not> c > RT_Object_Class_Unknown" using assms(2) by (auto simp: rt_object_container_def object_classes)
  moreover have "container_find r nm (rg_list r c) =
      Some (List.find (\<lambda>a. name_of r a = take RT_NAME_MAX bs) (rg_list r c))"
    by (rule container_find_spec) (use assms in \<open>auto simp: registry_ok_def\<close>)
  ultimately show ?thesis using assms(2) by (simp add: rt_object_find_def get_information)
qed

text \<open>A class without a container is not refused but fails the assertion.\<close>

lemma rt_object_find_unknown:
  assumes "c \<le> RT_Object_Class_Unknown" "c \<notin> set rt_object_container"
  shows "rt_object_find (Some nm) c r = None"
  using assms by (simp add: rt_object_find_def get_information)

text \<open>A new object stands at the head of its container.\<close>

definition joins :: "u8 \<Rightarrow> nat \<Rightarrow> u8 list \<Rightarrow> registry \<Rightarrow> registry \<Rightarrow> bool" where
  "joins c a bs r r' \<longleftrightarrow> registry_ok r' \<and> rg_list r' = (rg_list r)(c := a # rg_list r c) \<and>
     name_of r' a = take RT_NAME_MAX bs \<and> rt_object_get_type a r' = c \<and> (\<forall>b. b \<noteq> a \<longrightarrow> rg_obj r' b = rg_obj r b)"

lemma joins_container:
  assumes "registry_ok r" "c \<in> set rt_object_container" "\<not> registered r a" "cstring nm bs"
    and "ob_name x = take RT_NAME_MAX (bs @ replicate RT_NAME_MAX 0)" "ob_type x AND NOT RT_Object_Class_Static = c"
  shows "joins c a bs r (container_push c a (r\<lparr>rg_obj := (rg_obj r)(a := x)\<rparr>))"
proof -
  have "0 \<notin> set bs" using assms(4) by (simp add: cstring_def)
  then have "takeWhile (\<lambda>x. x \<noteq> 0) (ob_name x) = take RT_NAME_MAX bs" unfolding assms(5) by (rule takeWhile_padded)
  moreover have "length (ob_name x) = RT_NAME_MAX" by (simp add: assms(5))
  ultimately show ?thesis
    using assms(1-3,6)
    by (auto simp: joins_def registry_ok_def registered_def container_push_def name_of_def rt_object_get_type_def)
qed

lemma rt_object_init_spec:
  assumes "registry_ok r" "c \<in> set rt_object_container" "\<not> registered r a" "cstring nm bs"
    and "length (ob_name (rg_obj r a)) = RT_NAME_MAX"
  shows "\<exists>r'. rt_object_init a c nm r = Some r' \<and> joins c a bs r r' \<and> rt_object_is_systemobject a r'"
proof -
  define x where "x = (rg_obj r a)\<lparr>ob_type := c OR RT_Object_Class_Static,
    ob_name := take RT_NAME_MAX (bs @ replicate RT_NAME_MAX 0)\<rparr>"
  have "rt_object_init a c nm r = Some (container_push c a (r\<lparr>rg_obj := (rg_obj r)(a := x)\<rparr>))"
    using strncpy_name [OF assms(4,5)] assms(2)
    by (simp add: rt_object_init_def get_information upd_obj_def x_def)
  moreover have "joins c a bs r (container_push c a (r\<lparr>rg_obj := (rg_obj r)(a := x)\<rparr>))"
    by (rule joins_container [OF assms(1-4)]) (use class_bits(1) [OF assms(2)] in \<open>simp_all add: x_def\<close>)
  ultimately show ?thesis
    using class_bits(2) [OF assms(2)] by (simp add: rt_object_is_systemobject_def container_push_def x_def)
qed

lemma rt_object_allocate_spec:
  assumes "registry_ok r" "c \<in> set rt_object_container" "\<not> registered r a" "cstring nm bs"
  shows "\<exists>r'. rt_object_allocate c nm (Some a) r = Some (Some a, r') \<and> joins c a bs r r' \<and>
    \<not> rt_object_is_systemobject a r'"
proof -
  define x where "x = \<lparr>ob_name = take RT_NAME_MAX (bs @ replicate RT_NAME_MAX 0), ob_type = c, ob_flag = 0\<rparr>"
  have "rt_object_allocate c nm (Some a) r = Some (Some a, container_push c a (r\<lparr>rg_obj := (rg_obj r)(a := x)\<rparr>))"
    using strncpy_name [OF assms(4), of "replicate RT_NAME_MAX 0"] assms(2)
    by (simp add: rt_object_allocate_def get_information upd_obj_def x_def)
  moreover have "joins c a bs r (container_push c a (r\<lparr>rg_obj := (rg_obj r)(a := x)\<rparr>))"
    by (rule joins_container [OF assms(1-4)]) (use class_bits(3) [OF assms(2)] in \<open>simp_all add: x_def\<close>)
  ultimately show ?thesis
    using class_bits(4) [OF assms(2)] by (simp add: rt_object_is_systemobject_def container_push_def x_def)
qed

text \<open>The newest object of a name is the one that is found.\<close>

lemma joins_find:
  assumes "joins c a bs r r'" "c \<in> set rt_object_container" "cstring nm bs"
  shows "rt_object_find (Some nm) c r' = Some (Some a)"
  using rt_object_find_spec [OF _ assms(2,3), of r'] assms(1) by (simp add: joins_def)

text \<open>Leaving: the object is in no container any more and has no class.\<close>

lemma leaves_container:
  fixes a :: nat
  assumes "registry_ok r"
  defines "r' \<equiv> container_remove a (upd_obj a (\<lambda>x. x\<lparr>ob_type := 0\<rparr>) r)"
  shows "registry_ok r'" "\<not> registered r' a" "rt_object_get_type a r' = RT_Object_Class_Null"
    "\<And>b. b \<noteq> a \<Longrightarrow> rg_obj r' b = rg_obj r b \<and> (\<forall>c. b \<in> set (rg_list r' c) \<longleftrightarrow> b \<in> set (rg_list r c))"
proof -
  have d: "distinct (rg_list r c)" for c using assms(1) by (simp add: registry_ok_def)
  show "\<not> registered r' a" "rt_object_get_type a r' = RT_Object_Class_Null"
    "\<And>b. b \<noteq> a \<Longrightarrow> rg_obj r' b = rg_obj r b \<and> (\<forall>c. b \<in> set (rg_list r' c) \<longleftrightarrow> b \<in> set (rg_list r c))"
    using d by (auto simp: r'_def registered_def container_remove_def upd_obj_def rt_object_get_type_def object_classes)
  show "registry_ok r'"
    using assms(1) d by (auto simp: registry_ok_def r'_def container_remove_def upd_obj_def rt_object_get_type_def)
qed

lemmas rt_object_detach_spec = leaves_container [folded rt_object_detach_def]

lemma rt_object_delete_spec:
  "\<not> rt_object_is_systemobject a r \<Longrightarrow> rt_object_delete a r = Some (rt_object_detach a r)"
  by (simp add: rt_object_delete_def rt_object_detach_def)

text \<open>A detached object is no longer static: the test that guards \<open>rt_object_delete\<close> lets it pass.\<close>

lemma detached_not_static: "\<not> rt_object_is_systemobject a (rt_object_detach a r)"
  by (simp add: rt_object_is_systemobject_def rt_object_detach_def container_remove_def upd_obj_def)

end
