(* ===== verification/Device.thy ===== *)
theory Device
  imports KObject KState
begin

unbundle bit_operations_syntax

text \<open>
  The device framework (src/device.c): devices are registered by name, opened and closed with a
  reference count, and their operations are functions of their drivers. A driver works on the common
  part of the device, \<open>rt_device\<close>, and on its own data \<open>'p\<close>.
\<close>

section \<open>Devices and drivers\<close>

abbreviation RT_ENOMEM :: int where "RT_ENOMEM \<equiv> 5"
abbreviation RT_ENOSYS :: int where "RT_ENOSYS \<equiv> 6"
abbreviation RT_EBUSY :: int where "RT_EBUSY \<equiv> 7"
abbreviation RT_EIO :: int where "RT_EIO \<equiv> 8"
abbreviation RT_EINVAL :: int where "RT_EINVAL \<equiv> 10"

definition RT_DEVICE_FLAG_STANDALONE :: u16 where "RT_DEVICE_FLAG_STANDALONE = 0x008"
definition RT_DEVICE_FLAG_ACTIVATED :: u16 where "RT_DEVICE_FLAG_ACTIVATED = 0x010"
definition RT_DEVICE_OFLAG_CLOSE :: u16 where "RT_DEVICE_OFLAG_CLOSE = 0x000"
definition RT_DEVICE_OFLAG_OPEN :: u16 where "RT_DEVICE_OFLAG_OPEN = 0x008"
definition RT_DEVICE_OFLAG_MASK :: u16 where "RT_DEVICE_OFLAG_MASK = 0xf0f"

lemmas device_flags = RT_DEVICE_FLAG_STANDALONE_def RT_DEVICE_FLAG_ACTIVATED_def RT_DEVICE_OFLAG_CLOSE_def
  RT_DEVICE_OFLAG_OPEN_def RT_DEVICE_OFLAG_MASK_def

record rt_device =
  dv_flag :: u16
  dv_open_flag :: u16
  dv_ref_count :: u8

type_synonym 'p dev = "rt_device \<times> 'p"

text \<open>
  An absent operation is \<open>None\<close>. A read returns a length, the bytes it put in the caller's buffer and
  what it set errno to. A write is given the address of its buffer and the bytes there; \<open>'w\<close> is how
  it ends, which may be in the middle, waiting. \<open>'a\<close> is what the argument of a control command points
  to, which the command can change.
\<close>

type_synonym readout = "nat \<times> u8 list \<times> int option"

record ('p, 'a, 'w) rt_device_ops =
  do_init :: "('p dev \<Rightarrow> (int \<times> 'p dev) option) option"
  do_open :: "(u16 \<Rightarrow> 'p dev \<Rightarrow> (int \<times> 'p dev) option) option"
  do_close :: "('p dev \<Rightarrow> (int \<times> 'p dev) option) option"
  do_read :: "(int \<Rightarrow> u32 \<Rightarrow> nat \<Rightarrow> 'p dev \<Rightarrow> (readout \<times> 'p dev) option) option"
  do_write :: "(int \<Rightarrow> u32 \<times> u8 list \<Rightarrow> 'p dev \<Rightarrow> 'w option) option"
  do_control :: "(int \<Rightarrow> 'a \<Rightarrow> 'p dev \<Rightarrow> (int \<times> 'a \<times> 'p dev) option) option"

definition upd_dev :: "(rt_device \<Rightarrow> rt_device) \<Rightarrow> 'p dev \<Rightarrow> 'p dev" where
  "upd_dev f d = (f (fst d), snd d)"

section \<open>Registration\<close>

text \<open>The null device is \<open>None\<close>; \<open>ds\<close> gives the common parts by address.\<close>

definition rt_device_find :: "u8 list \<Rightarrow> registry \<Rightarrow> nat option option" where
  "rt_device_find name r =
     do { c \<leftarrow> rt_object_get_information RT_Object_Class_Device;
          container_find r name (rg_list r c) }"

definition rt_device_register :: "nat option \<Rightarrow> u8 list \<Rightarrow> u16 \<Rightarrow> registry \<times> (nat \<Rightarrow> rt_device) \<Rightarrow>
    (int \<times> registry \<times> (nat \<Rightarrow> rt_device)) option" where
  "rt_device_register dev name flags rs =
     (case dev of
        None \<Rightarrow> Some (- RT_ERROR, rs)
      | Some a \<Rightarrow>
          do { found \<leftarrow> rt_device_find name (fst rs);
               if found \<noteq> None then Some (- RT_ERROR, rs)
               else do { r1 \<leftarrow> rt_object_init a RT_Object_Class_Device name (fst rs);
                         Some (RT_EOK, r1, (snd rs)(a := (snd rs a)\<lparr>dv_flag := flags, dv_ref_count := 0,
                                                                    dv_open_flag := 0\<rparr>)) } })"

definition rt_device_unregister :: "nat \<Rightarrow> registry \<Rightarrow> (int \<times> registry) option" where
  "rt_device_unregister a r =
     (if rt_object_get_type a r = RT_Object_Class_Device \<and> rt_object_is_systemobject a r
      then Some (RT_EOK, rt_object_detach a r) else None)"

text \<open>The memory itself is given back to the heap.\<close>

definition rt_device_destroy :: "nat \<Rightarrow> registry \<Rightarrow> registry option" where
  "rt_device_destroy a r =
     (if rt_object_get_type a r = RT_Object_Class_Device \<and> \<not> rt_object_is_systemobject a r
      then Some (rt_object_detach a r) else None)"

section \<open>Operations\<close>

definition activated :: "'p dev \<Rightarrow> bool" where
  "activated d \<longleftrightarrow> dv_flag (fst d) AND RT_DEVICE_FLAG_ACTIVATED \<noteq> 0"

definition activate :: "'p dev \<Rightarrow> 'p dev" where
  "activate = upd_dev (\<lambda>x. x\<lparr>dv_flag := dv_flag x OR RT_DEVICE_FLAG_ACTIVATED\<rparr>)"

definition rt_device_init :: "('p, 'a, 'w) rt_device_ops \<Rightarrow> 'p dev \<Rightarrow> (int \<times> 'p dev) option" where
  "rt_device_init ops d =
     (case do_init ops of
        None \<Rightarrow> Some (RT_EOK, d)
      | Some init \<Rightarrow>
          if activated d then Some (RT_EOK, d)
          else do { (result, d1) \<leftarrow> init d;
                    Some (result, if result \<noteq> RT_EOK then d1 else activate d1) })"

text \<open>The first part of \<open>rt_device_open\<close>: an error leaves the device as the driver left it.\<close>

definition open_init :: "('p, 'a, 'w) rt_device_ops \<Rightarrow> 'p dev \<Rightarrow> (int \<times> 'p dev) option" where
  "open_init ops d =
     (if activated d then Some (RT_EOK, d)
      else case do_init ops of
             None \<Rightarrow> Some (RT_EOK, activate d)
           | Some init \<Rightarrow> do { (result, d1) \<leftarrow> init d;
                               Some (if result \<noteq> RT_EOK then (result, d1) else (RT_EOK, activate d1)) })"

definition rt_device_open :: "('p, 'a, 'w) rt_device_ops \<Rightarrow> u16 \<Rightarrow> 'p dev \<Rightarrow> (int \<times> 'p dev) option" where
  "rt_device_open ops oflag d =
     do { (result, d1) \<leftarrow> open_init ops d;
          if result \<noteq> RT_EOK then Some (result, d1)
          else if dv_flag (fst d1) AND RT_DEVICE_FLAG_STANDALONE \<noteq> 0 \<and>
                  dv_open_flag (fst d1) AND RT_DEVICE_OFLAG_OPEN \<noteq> 0
          then Some (- RT_EBUSY, d1)
          else do { (result2, d2) \<leftarrow>
                      (case do_open ops of
                         Some opn \<Rightarrow> opn oflag d1
                       | None \<Rightarrow> Some (RT_EOK, upd_dev (\<lambda>x. x\<lparr>dv_open_flag := oflag AND RT_DEVICE_OFLAG_MASK\<rparr>) d1));
                    if result2 = RT_EOK \<or> result2 = - RT_ENOSYS
                    then let d3 = upd_dev (\<lambda>x. x\<lparr>dv_open_flag := dv_open_flag x OR RT_DEVICE_OFLAG_OPEN,
                                                dv_ref_count := dv_ref_count x + 1\<rparr>) d2
                         in if dv_ref_count (fst d3) \<noteq> 0 then Some (result2, d3) else None
                    else Some (result2, d2) } }"

definition rt_device_close :: "('p, 'a, 'w) rt_device_ops \<Rightarrow> 'p dev \<Rightarrow> (int \<times> 'p dev) option" where
  "rt_device_close ops d =
     (if dv_ref_count (fst d) = 0 then Some (- RT_ERROR, d)
      else let d1 = upd_dev (\<lambda>x. x\<lparr>dv_ref_count := dv_ref_count x - 1\<rparr>) d in
           if dv_ref_count (fst d1) \<noteq> 0 then Some (RT_EOK, d1)
           else do { (result, d2) \<leftarrow> (case do_close ops of None \<Rightarrow> Some (RT_EOK, d1) | Some cls \<Rightarrow> cls d1);
                     Some (result, if result = RT_EOK \<or> result = - RT_ENOSYS
                                   then upd_dev (\<lambda>x. x\<lparr>dv_open_flag := RT_DEVICE_OFLAG_CLOSE\<rparr>) d2 else d2) })"

text \<open>Reading or writing an unopened device, or one without the operation, does nothing and sets errno.\<close>

definition rt_device_read :: "('p, 'a, 'w) rt_device_ops \<Rightarrow> int \<Rightarrow> u32 \<Rightarrow> nat \<Rightarrow> 'p dev \<Rightarrow> (readout \<times> 'p dev) option" where
  "rt_device_read ops pos buf n d =
     (if dv_ref_count (fst d) = 0 then Some ((0, [], Some (- RT_ERROR)), d)
      else case do_read ops of
             None \<Rightarrow> Some ((0, [], Some (- RT_ENOSYS)), d)
           | Some rd \<Rightarrow> rd pos buf n d)"

definition rt_device_write :: "('p, 'a, 'w) rt_device_ops \<Rightarrow> int \<Rightarrow> u32 \<times> u8 list \<Rightarrow> 'p dev \<Rightarrow> (int + 'w) option" where
  "rt_device_write ops pos xs d =
     (if dv_ref_count (fst d) = 0 then Some (Inl (- RT_ERROR))
      else case do_write ops of
             None \<Rightarrow> Some (Inl (- RT_ENOSYS))
           | Some wr \<Rightarrow> map_option Inr (wr pos xs d))"

definition rt_device_control :: "('p, 'a, 'w) rt_device_ops \<Rightarrow> int \<Rightarrow> 'a \<Rightarrow> 'p dev \<Rightarrow> (int \<times> 'a \<times> 'p dev) option" where
  "rt_device_control ops cmd arg d =
     (case do_control ops of None \<Rightarrow> Some (- RT_ENOSYS, arg, d) | Some ctl \<Rightarrow> ctl cmd arg d)"

section \<open>Names are unique\<close>

definition devices :: "registry \<Rightarrow> nat list" where
  "devices r = rg_list r RT_Object_Class_Device"

definition device_names_ok :: "registry \<Rightarrow> bool" where
  "device_names_ok r \<longleftrightarrow> registry_ok r \<and> distinct (map (name_of r) (devices r))"

lemma device_class: "RT_Object_Class_Device \<in> set rt_object_container"
  by (simp add: object_classes rt_object_container_def)

lemma rt_device_find_spec:
  assumes "registry_ok r" "cstring nm bs"
  shows "rt_device_find nm r = Some (List.find (\<lambda>a. name_of r a = take RT_NAME_MAX bs) (devices r))"
proof -
  have "container_find r nm (devices r) = Some (List.find (\<lambda>a. name_of r a = take RT_NAME_MAX bs) (devices r))"
    by (rule container_find_spec) (use assms in \<open>auto simp: registry_ok_def devices_def\<close>)
  then show ?thesis by (simp add: rt_device_find_def get_information device_class devices_def)
qed

text \<open>A registered device is found by its name.\<close>

lemma rt_device_find_unique:
  assumes "device_names_ok r" "a \<in> set (devices r)" "cstring nm bs" "name_of r a = take RT_NAME_MAX bs"
  shows "rt_device_find nm r = Some (Some a)"
proof -
  have "List.find (\<lambda>b. name_of r b = take RT_NAME_MAX bs) xs = Some a"
    if "distinct (map (name_of r) xs)" "a \<in> set xs" for xs
    using that assms(4) by (induction xs) (auto simp: rev_image_eqI)
  then show ?thesis using rt_device_find_spec [of r nm bs] assms by (simp add: device_names_ok_def)
qed

lemma rt_device_register_spec:
  assumes ok: "device_names_ok r" and new: "\<not> registered r a" "cstring nm bs"
    "length (ob_name (rg_obj r a)) = RT_NAME_MAX"
  shows "if take RT_NAME_MAX bs \<in> name_of r ` set (devices r)
    then rt_device_register (Some a) nm flags (r, ds) = Some (- RT_ERROR, r, ds)
    else \<exists>r' ds'. rt_device_register (Some a) nm flags (r, ds) = Some (RT_EOK, r', ds') \<and>
      joins RT_Object_Class_Device a bs r r' \<and> device_names_ok r' \<and> rt_device_find nm r' = Some (Some a) \<and>
      dv_ref_count (ds' a) = 0 \<and> dv_open_flag (ds' a) = 0 \<and> dv_flag (ds' a) = flags"
proof (cases "take RT_NAME_MAX bs \<in> name_of r ` set (devices r)")
  case True
  then have "List.find (\<lambda>b. name_of r b = take RT_NAME_MAX bs) (devices r) \<noteq> None"
    by (auto simp: find_None_iff)
  then show ?thesis
    using True rt_device_find_spec [of r nm bs] ok new(2) by (simp add: rt_device_register_def device_names_ok_def)
next
  case False
  then have none: "rt_device_find nm r = Some None"
    using rt_device_find_spec [of r nm bs] ok new(2) by (auto simp: device_names_ok_def find_None_iff rev_image_eqI)
  obtain r' where r': "rt_object_init a RT_Object_Class_Device nm r = Some r'"
    "joins RT_Object_Class_Device a bs r r'"
    using rt_object_init_spec [OF _ device_class new] ok by (auto simp: device_names_ok_def)
  have dev: "devices r' = a # devices r" using r'(2) by (simp add: joins_def devices_def)
  have old: "name_of r' b = name_of r b" if "b \<in> set (devices r)" for b
    using r'(2) new(1) that by (auto simp: joins_def name_of_def registered_def devices_def)
  have "device_names_ok r'"
    using ok r'(2) False old by (auto simp: device_names_ok_def dev joins_def cong: map_cong)
  moreover have "rt_device_find nm r' = Some (Some a)"
    by (rule rt_device_find_unique) (use calculation dev r'(2) new(2) in \<open>auto simp: joins_def\<close>)
  ultimately show ?thesis
    using False none r' by (simp add: rt_device_register_def)
qed

section \<open>Opening and closing\<close>

text \<open>
  A run of opens (\<open>True\<close>) with the flags \<open>oflag\<close> and closes, and the number of users it leaves when
  none closes what is not open and the counter is not exceeded.
\<close>

fun device_session :: "('p, 'a, 'w) rt_device_ops \<Rightarrow> u16 \<Rightarrow> bool list \<Rightarrow> 'p dev \<Rightarrow> 'p dev option" where
  "device_session ops oflag [] d = Some d"
| "device_session ops oflag (b # bs) d =
     do { (e, d1) \<leftarrow> (if b then rt_device_open ops oflag d else rt_device_close ops d);
          device_session ops oflag bs d1 }"

fun users_after :: "bool list \<Rightarrow> nat \<Rightarrow> nat option" where
  "users_after [] n = Some n"
| "users_after (b # bs) n =
     (if b then (if n < 255 then users_after bs (n + 1) else None)
      else case n of 0 \<Rightarrow> None | Suc m \<Rightarrow> users_after bs m)"

text \<open>
  What a driver promises to clients that all open it with the flags \<open>oflag\<close>: opening works, again and
  again, and the last close returns it to its idle state. The framework's own fields are its business
  alone.
\<close>

locale device_driver =
  fixes ops :: "('p, 'a, 'w) rt_device_ops"
    and oflag :: u16
    and idle :: "'p dev \<Rightarrow> bool"
    and busy :: "'p dev \<Rightarrow> bool"
    and opn :: "u16 \<Rightarrow> 'p dev \<Rightarrow> (int \<times> 'p dev) option"
    and cls :: "'p dev \<Rightarrow> (int \<times> 'p dev) option"
  assumes has: "do_open ops = Some opn" "do_close ops = Some cls"
    and opens: "idle d \<or> busy d \<Longrightarrow> \<exists>d'. opn oflag d = Some (RT_EOK, d') \<and> busy d' \<and>
      dv_flag (fst d') = dv_flag (fst d) \<and> dv_ref_count (fst d') = dv_ref_count (fst d)"
    and closes: "busy d \<Longrightarrow> dv_ref_count (fst d) = 0 \<Longrightarrow> \<exists>d'. cls d = Some (RT_EOK, d') \<and> idle d' \<and>
      dv_flag (fst d') = dv_flag (fst d) \<and> dv_ref_count (fst d') = 0"
    and counted: "busy d \<Longrightarrow> busy (upd_dev (\<lambda>x. x\<lparr>dv_ref_count := n\<rparr>) d)"
    and marked: "busy d \<Longrightarrow> busy (upd_dev (\<lambda>x. x\<lparr>dv_open_flag := dv_open_flag x OR RT_DEVICE_OFLAG_OPEN,
      dv_ref_count := m\<rparr>) d)"
    and closed: "idle d \<Longrightarrow> idle (upd_dev (\<lambda>x. x\<lparr>dv_open_flag := RT_DEVICE_OFLAG_CLOSE\<rparr>) d)"
begin

text \<open>An initialised device that \<open>n\<close> users have open.\<close>

definition users :: "nat \<Rightarrow> 'p dev \<Rightarrow> bool" where
  "users n d \<longleftrightarrow> activated d \<and> dv_flag (fst d) AND RT_DEVICE_FLAG_STANDALONE = 0 \<and>
     unat (dv_ref_count (fst d)) = n \<and> (if n = 0 then idle d else busy d)"

lemma open_counts:
  assumes "users n d" "n < 255"
  shows "\<exists>d'. rt_device_open ops oflag d = Some (RT_EOK, d') \<and> users (n + 1) d'"
proof -
  obtain d1 where d1: "opn oflag d = Some (RT_EOK, d1)" "busy d1" "dv_flag (fst d1) = dv_flag (fst d)"
    "dv_ref_count (fst d1) = dv_ref_count (fst d)"
    using opens [of d] assms(1) by (auto simp: users_def split: if_splits)
  let ?d = "upd_dev (\<lambda>x. x\<lparr>dv_open_flag := dv_open_flag x OR RT_DEVICE_OFLAG_OPEN,
                           dv_ref_count := dv_ref_count x + 1\<rparr>) d1"
  have c: "unat (dv_ref_count (fst d) + 1) = n + 1"
    using assms by (simp add: users_def unat_word_ariths)
  then have "dv_ref_count (fst d) + 1 \<noteq> 0" by (metis Suc_eq_plus1 nat.distinct(1) unat_0)
  then have "rt_device_open ops oflag d = Some (RT_EOK, ?d)"
    using assms(1) d1 has by (simp add: rt_device_open_def open_init_def users_def Let_def upd_dev_def)
  moreover have "busy ?d"
    using marked [OF d1(2), of "dv_ref_count (fst d1) + 1"] by (simp add: upd_dev_def)
  ultimately show ?thesis
    using assms(1) d1 c by (simp add: users_def upd_dev_def activated_def)
qed

lemma close_counts:
  assumes "users (Suc n) d"
  shows "\<exists>d'. rt_device_close ops d = Some (RT_EOK, d') \<and> users n d'"
proof -
  let ?d = "upd_dev (\<lambda>x. x\<lparr>dv_ref_count := dv_ref_count x - 1\<rparr>) d"
  have r: "unat (dv_ref_count (fst d)) = Suc n" "busy d" using assms by (auto simp: users_def)
  then have nz: "dv_ref_count (fst d) \<noteq> 0" by auto
  then have c: "unat (dv_ref_count (fst d) - 1) = n" using r(1) by (simp add: unat_minus_one)
  have b: "busy ?d" using counted [OF r(2), of "dv_ref_count (fst d) - 1"] by (simp add: upd_dev_def)
  have z: "dv_ref_count (fst d) - 1 = 0 \<longleftrightarrow> n = 0" using c by (metis unat_eq_zero)
  show ?thesis
  proof (cases "n = 0")
    case False
    then show ?thesis
      using assms nz c z b by (simp add: rt_device_close_def users_def upd_dev_def activated_def)
  next
    case True
    then have "dv_ref_count (fst ?d) = 0" using z by (simp add: upd_dev_def)
    then obtain d' where "cls ?d = Some (RT_EOK, d')" "idle d'" "dv_flag (fst d') = dv_flag (fst d)"
      "dv_ref_count (fst d') = 0"
      using closes [OF b] by (auto simp: upd_dev_def)
    then show ?thesis
      using assms nz True z has closed [of d']
      by (simp add: rt_device_close_def users_def upd_dev_def activated_def Let_def)
  qed
qed

lemma session_users: "users_after bs n = Some m \<Longrightarrow> users n d \<Longrightarrow> \<exists>d'. device_session ops oflag bs d = Some d' \<and> users m d'"
proof (induction bs arbitrary: n d)
  case (Cons b bs)
  show ?case
  proof (cases b)
    case True
    then obtain d1 where "rt_device_open ops oflag d = Some (RT_EOK, d1)" "users (n + 1) d1"
      using open_counts [OF Cons.prems(2)] Cons.prems(1) by (auto split: if_splits)
    then show ?thesis using Cons True by (auto split: if_splits)
  next
    case False
    then obtain k where k: "n = Suc k" "users_after bs k = Some m" using Cons.prems(1) by (cases n) auto
    then obtain d1 where "rt_device_close ops d = Some (RT_EOK, d1)" "users k d1"
      using close_counts [of k d] Cons.prems(2) by auto
    then show ?thesis using Cons.IH [OF k(2)] False by auto
  qed
qed simp

lemma session_closed:
  assumes "users_after bs 0 = Some 0" "users 0 d"
  shows "\<exists>d'. device_session ops oflag bs d = Some d' \<and> idle d' \<and> dv_ref_count (fst d') = 0"
  using session_users [OF assms] by (auto simp: users_def unat_eq_zero)

end

end
