(* ===== verification/SerialFifo.thy ===== *)
theory SerialFifo
  imports Fifo "HOL-Library.Sublist" "HOL-Library.Monad_Syntax"
begin

text \<open>
  The receive buffer of a serial device (components/drivers/serial/serial.c): a circular array that the
  interrupt fills and \<open>rt_serial_read\<close> empties. It never refuses a byte: when there is no room the
  oldest one is lost. The interrupt mode and the DMA mode use the same record in two different ways.
\<close>

section \<open>The record\<close>

record rt_serial_rx_fifo =
  rf_buffer :: "u8 list"
  rf_put :: nat
  rf_get :: nat
  rf_full :: bool

text \<open>\<open>z\<close> is \<open>serial->config.bufsz\<close>.\<close>

definition serial_fifo_open :: "nat \<Rightarrow> rt_serial_rx_fifo" where
  "serial_fifo_open z = \<lparr>rf_buffer = replicate z 0, rf_put = 0, rf_get = 0, rf_full = False\<rparr>"

definition serial_fifo_calc_recved_len :: "nat \<Rightarrow> rt_serial_rx_fifo \<Rightarrow> nat" where
  "serial_fifo_calc_recved_len z f =
     (if rf_put f = rf_get f then (if rf_full f then z else 0)
      else if rf_put f > rf_get f then rf_put f - rf_get f
      else z - (rf_get f - rf_put f))"

section \<open>Interrupt mode\<close>

text \<open>One byte in the loop of \<open>rt_hw_serial_isr\<close>.\<close>

definition serial_rx_store :: "nat \<Rightarrow> u8 \<Rightarrow> rt_serial_rx_fifo \<Rightarrow> rt_serial_rx_fifo option" where
  "serial_rx_store z ch f =
     do { m \<leftarrow> mem_write (rf_buffer f) (int (rf_put f)) ch;
          let p1 = (rf_put f + 1) mod 2 ^ 16;
          let p = (if p1 \<ge> z then 0 else p1);
          let g1 = (rf_get f + 1) mod 2 ^ 16;
          let f1 = f\<lparr>rf_buffer := m, rf_put := p\<rparr>;
          Some (if p = rf_get f then f1\<lparr>rf_get := (if g1 \<ge> z then 0 else g1), rf_full := True\<rparr> else f1) }"

fun serial_rx_isr :: "nat \<Rightarrow> u8 list \<Rightarrow> rt_serial_rx_fifo \<Rightarrow> rt_serial_rx_fifo option" where
  "serial_rx_isr z [] f = Some f"
| "serial_rx_isr z (ch # chs) f = do { f1 \<leftarrow> serial_rx_store z ch f; serial_rx_isr z chs f1 }"

text \<open>The length the callback is told.\<close>

definition serial_rx_length :: "nat \<Rightarrow> rt_serial_rx_fifo \<Rightarrow> nat" where
  "serial_rx_length z f =
     (if rf_put f \<ge> rf_get f then rf_put f - rf_get f else z - (rf_get f - rf_put f))"

fun serial_int_rx :: "nat \<Rightarrow> nat \<Rightarrow> rt_serial_rx_fifo \<Rightarrow> (u8 list \<times> rt_serial_rx_fifo) option" where
  "serial_int_rx z 0 f = Some ([], f)"
| "serial_int_rx z (Suc n) f =
     (if rf_get f = rf_put f \<and> \<not> rf_full f then Some ([], f)
      else do { ch \<leftarrow> mem_read (rf_buffer f) (int (rf_get f));
                let g1 = (rf_get f + 1) mod 2 ^ 16;
                (xs, f1) \<leftarrow> serial_int_rx z n (f\<lparr>rf_get := (if g1 \<ge> z then 0 else g1), rf_full := False\<rparr>);
                Some (ch # xs, f1) })"

section \<open>DMA mode\<close>

definition rt_dma_recv_update_get_index :: "nat \<Rightarrow> nat \<Rightarrow> rt_serial_rx_fifo \<Rightarrow> rt_serial_rx_fifo option" where
  "rt_dma_recv_update_get_index z len f =
     (if len \<le> serial_fifo_calc_recved_len z f
      then let g = (rf_get f + len) mod 2 ^ 16 in
           Some (f\<lparr>rf_full := (rf_full f \<and> len = 0), rf_get := (if g \<ge> z then g mod z else g)\<rparr>)
      else None)"

definition rt_dma_recv_update_put_index :: "nat \<Rightarrow> nat \<Rightarrow> rt_serial_rx_fifo \<Rightarrow> rt_serial_rx_fifo" where
  "rt_dma_recv_update_put_index z len f =
     (let p1 = (rf_put f + len) mod 2 ^ 16;
          f1 = (if rf_get f \<le> rf_put f
                then if p1 \<ge> z
                     then let p = p1 mod z in f\<lparr>rf_put := p, rf_full := (p \<ge> rf_get f \<or> rf_full f)\<rparr>
                     else f\<lparr>rf_put := p1\<rparr>
                else if p1 \<ge> rf_get f
                     then f\<lparr>rf_put := (if p1 \<ge> z then p1 mod z else p1), rf_full := True\<rparr>
                     else f\<lparr>rf_put := p1\<rparr>);
          f2 = (if rf_full f1 then f1\<lparr>rf_get := rf_put f1\<rparr> else f1)
      in if rf_get f2 \<ge> z then f2\<lparr>rf_get := 0\<rparr> else f2)"

text \<open>\<open>_serial_dma_rx\<close> with a buffer, and the copies it makes.\<close>

definition serial_dma_rx :: "nat \<Rightarrow> nat \<Rightarrow> rt_serial_rx_fifo \<Rightarrow> (u8 list \<times> rt_serial_rx_fifo) option" where
  "serial_dma_rx z len f =
     (let fifo_recved_len = serial_fifo_calc_recved_len z f;
          recv_len = (if len < fifo_recved_len then len else fifo_recved_len);
          g = rf_get f;
          data = replicate recv_len 0
      in do { d \<leftarrow> (if g + recv_len < z then memcpy data 0 (rf_buffer f) (int g) (int recv_len)
                   else do { d1 \<leftarrow> memcpy data 0 (rf_buffer f) (int g) (int z - int g);
                             memcpy d1 (int z - int g) (rf_buffer f) 0 (int recv_len + int g - int z) });
              f1 \<leftarrow> rt_dma_recv_update_get_index z recv_len f;
              Some (d, f1) })"

text \<open>
  The controller in circular mode writes the bytes into the buffer itself; the interrupt then advances
  the index.
\<close>

definition serial_dma_receive :: "nat \<Rightarrow> u8 list \<Rightarrow> rt_serial_rx_fifo \<Rightarrow> rt_serial_rx_fifo" where
  "serial_dma_receive z xs f =
     rt_dma_recv_update_put_index z (length xs) (f\<lparr>rf_buffer := ring_put (rf_buffer f) (rf_put f) xs\<rparr>)"

section \<open>A buffer that forgets\<close>

definition lastn :: "nat \<Rightarrow> 'a list \<Rightarrow> 'a list" where
  "lastn n xs = drop (length xs - n) xs"

lemma lastn_all [simp]: "length xs \<le> n \<Longrightarrow> lastn n xs = xs"
  by (simp add: lastn_def)

lemma length_lastn [simp]: "length (lastn n xs) = min n (length xs)"
  by (simp add: lastn_def)

lemma lastn_append: "lastn n (lastn n xs @ ys) = lastn n (xs @ ys)"
proof (cases "length xs \<le> n")
  case False
  then show ?thesis by (cases "length ys \<le> n") (auto simp: lastn_def add.commute)
qed simp

lemma subseq_lastn: "subseq (lastn n xs) xs"
  unfolding lastn_def by (rule suffix_imp_subseq) (simp add: suffix_drop)

text \<open>
  A run of arrivals and reads, with what was read; all that arrived; and when the reader is fast enough:
  nothing arrives that does not fit.
\<close>

fun fifo_run :: "('a list \<Rightarrow> 's \<Rightarrow> 's option) \<Rightarrow> (nat \<Rightarrow> 's \<Rightarrow> ('a list \<times> 's) option) \<Rightarrow> ('a list + nat) list \<Rightarrow>
    's \<Rightarrow> ('a list \<times> 's) option" where
  "fifo_run receive fetch [] s = Some ([], s)"
| "fifo_run receive fetch (Inl xs # es) s = do { s1 \<leftarrow> receive xs s; fifo_run receive fetch es s1 }"
| "fifo_run receive fetch (Inr n # es) s =
     do { (ys, s1) \<leftarrow> fetch n s; (zs, s2) \<leftarrow> fifo_run receive fetch es s1; Some (ys @ zs, s2) }"

definition arrived :: "('a list + nat) list \<Rightarrow> 'a list" where
  "arrived es = concat (map (\<lambda>e. case e of Inl xs \<Rightarrow> xs | Inr n \<Rightarrow> []) es)"

fun keeps_up :: "nat \<Rightarrow> ('a list + nat) list \<Rightarrow> nat \<Rightarrow> bool" where
  "keeps_up cap [] n = True"
| "keeps_up cap (Inl xs # es) n = (n + length xs \<le> cap \<and> keeps_up cap es (n + length xs))"
| "keeps_up cap (Inr m # es) n = keeps_up cap es (n - m)"

text \<open>
  What a client of such a buffer sees: \<open>receive\<close> appends and keeps the last \<open>cap\<close> elements, \<open>fetch\<close>
  takes the first ones.
\<close>

locale sliding_fifo =
  fixes inv :: "'s \<Rightarrow> bool"
    and content :: "'s \<Rightarrow> 'a list"
    and cap :: nat
    and receive :: "'a list \<Rightarrow> 's \<Rightarrow> 's option"
    and fetch :: "nat \<Rightarrow> 's \<Rightarrow> ('a list \<times> 's) option"
  assumes bounded: "inv s \<Longrightarrow> length (content s) \<le> cap"
    and received: "inv s \<Longrightarrow> length xs \<le> cap \<Longrightarrow>
      \<exists>s'. receive xs s = Some s' \<and> inv s' \<and> content s' = lastn cap (content s @ xs)"
    and fetched: "inv s \<Longrightarrow>
      \<exists>s'. fetch n s = Some (take n (content s), s') \<and> inv s' \<and> content s' = drop n (content s)"
begin

lemma run_in_order:
  assumes "inv s" "\<forall>xs. Inl xs \<in> set es \<longrightarrow> length xs \<le> cap"
  shows "\<exists>ys t. fifo_run receive fetch es s = Some (ys, t) \<and> inv t \<and> subseq (ys @ content t) (content s @ arrived es) \<and>
    (keeps_up cap es (length (content s)) \<longrightarrow> ys @ content t = content s @ arrived es)"
  using assms
proof (induction es arbitrary: s)
  case Nil
  then show ?case by (simp add: arrived_def)
next
  case (Cons e es)
  show ?case
  proof (cases e)
    case (Inl xs)
    then have "length xs \<le> cap" using Cons.prems(2) by simp
    then obtain s1 where s1: "receive xs s = Some s1" "inv s1" "content s1 = lastn cap (content s @ xs)"
      using received [OF Cons.prems(1)] by blast
    obtain ys t where t: "fifo_run receive fetch es s1 = Some (ys, t)" "inv t" "subseq (ys @ content t) (content s1 @ arrived es)"
      "keeps_up cap es (length (content s1)) \<longrightarrow> ys @ content t = content s1 @ arrived es"
      using Cons.IH [OF s1(2)] Cons.prems(2) by auto
    have "subseq (content s1 @ arrived es) ((content s @ xs) @ arrived es)"
      unfolding s1(3) by (intro list_emb_append_mono subseq_lastn) simp
    with t(3) have "subseq (ys @ content t) (content s @ arrived (e # es))"
      by (auto simp: arrived_def Inl intro: subseq_order.trans)
    moreover have "ys @ content t = content s @ arrived (e # es)" if "keeps_up cap (e # es) (length (content s))"
      using that t(4) s1(3) by (simp add: Inl arrived_def)
    ultimately show ?thesis using t s1 by (auto simp: Inl)
  next
    case (Inr n)
    obtain s1 where s1: "fetch n s = Some (take n (content s), s1)" "inv s1" "content s1 = drop n (content s)"
      using fetched [OF Cons.prems(1)] by blast
    obtain ys t where t: "fifo_run receive fetch es s1 = Some (ys, t)" "inv t" "subseq (ys @ content t) (content s1 @ arrived es)"
      "keeps_up cap es (length (content s1)) \<longrightarrow> ys @ content t = content s1 @ arrived es"
      using Cons.IH [OF s1(2)] Cons.prems(2) by auto
    have "subseq (take n (content s) @ ys @ content t) (take n (content s) @ content s1 @ arrived es)"
      by (intro list_emb_append_mono subseq_order.refl t(3))
    then have "subseq ((take n (content s) @ ys) @ content t) (content s @ arrived (e # es))"
      unfolding s1(3) append_assoc [symmetric] append_take_drop_id by (simp add: arrived_def Inr)
    moreover have "(take n (content s) @ ys) @ content t = content s @ arrived (e # es)"
      if "keeps_up cap (e # es) (length (content s))"
    proof -
      have "ys @ content t = content s1 @ arrived es" using that t(4) s1(3) by (simp add: Inr)
      then have "(take n (content s) @ ys) @ content t = (take n (content s) @ drop n (content s)) @ arrived es"
        by (simp only: append_assoc s1(3))
      then show ?thesis by (simp add: Inr arrived_def)
    qed
    ultimately show ?thesis using t s1 by (auto simp: Inr)
  qed
qed

end

section \<open>The interrupt mode keeps one byte less than the buffer holds\<close>

definition int_inv :: "nat \<Rightarrow> rt_serial_rx_fifo \<Rightarrow> bool" where
  "int_inv z f \<longleftrightarrow> 2 \<le> z \<and> z < 2 ^ 16 \<and> length (rf_buffer f) = z \<and> rf_put f < z \<and> rf_get f < z \<and>
     (rf_full f \<longrightarrow> rf_put f \<noteq> rf_get f)"

definition int_content :: "nat \<Rightarrow> rt_serial_rx_fifo \<Rightarrow> u8 list" where
  "int_content z f = ring_read (rf_buffer f) (rf_get f) (serial_rx_length z f)"

lemma rx_length_place:
  assumes "rf_put f < z" "rf_get f < z"
  shows "rf_put f = (rf_get f + serial_rx_length z f) mod z" "serial_rx_length z f < z"
  using assms by (auto simp: serial_rx_length_def mod_if)

lemma rx_length_unique:
  assumes "rf_get f < z" "n < z" "rf_put f = (rf_get f + n) mod z"
  shows "serial_rx_length z f = n"
  using assms by (auto simp: serial_rx_length_def mod_if split: if_splits)

lemma next_index:
  fixes i z :: nat
  assumes "i < z" "z < 2 ^ 16"
  shows "(let i1 = (i + 1) mod 2 ^ 16 in if i1 \<ge> z then 0 else i1) = (i + 1) mod z"
  using assms by (auto simp: Let_def mod_if)

lemma serial_rx_store_spec:
  assumes i: "int_inv z f"
  shows "\<exists>f'. serial_rx_store z ch f = Some f' \<and> int_inv z f' \<and>
    int_content z f' = lastn (z - 1) (int_content z f @ [ch])"
proof -
  define n where "n = serial_rx_length z f"
  let ?b = "(rf_buffer f)[rf_put f := ch]"
  have z: "length (rf_buffer f) = z" "rf_put f < z" "rf_get f < z" "2 \<le> z" "z < 2 ^ 16"
    using i by (auto simp: int_inv_def)
  note p = rx_length_place [OF z(2,3), folded n_def]
  define p' where "p' = (rf_put f + 1) mod z"
  define g' where "g' = (rf_get f + 1) mod z"
  have store: "serial_rx_store z ch f = Some (if p' = rf_get f
      then f\<lparr>rf_buffer := ?b, rf_put := p', rf_get := g', rf_full := True\<rparr>
      else f\<lparr>rf_buffer := ?b, rf_put := p'\<rparr>)"
    using z next_index [OF z(2,5)] next_index [OF z(3,5)]
    by (simp add: serial_rx_store_def Let_def p'_def g'_def)
  have rp: "ring_put (rf_buffer f) ((rf_get f + n) mod z) [ch] = ?b"
    using ring_put_single [of "rf_put f" "rf_buffer f" ch] z p(1) by simp
  have all: "ring_read ?b (rf_get f) (Suc n) = int_content z f @ [ch]"
    using ring_read_put_end [of "rf_get f" "rf_buffer f" n "[ch]"] z p(2) unfolding int_content_def n_def [symmetric]
    by (simp add: rp)
  have p'n: "p' = (rf_get f + Suc n) mod z" unfolding p'_def p(1) by (simp add: mod_Suc_eq)
  have lc: "length (int_content z f) = n" by (simp add: int_content_def n_def)
  show ?thesis
  proof (cases "Suc n = z")
    case False
    then have n: "Suc n < z" using p(2) by simp
    then have ne: "p' \<noteq> rf_get f" unfolding p'n using z(3) by (auto simp: mod_if split: if_splits)
    let ?f = "f\<lparr>rf_buffer := ?b, rf_put := p'\<rparr>"
    have "serial_rx_length z ?f = Suc n" by (rule rx_length_unique) (use n p'n z in simp_all)
    then have "int_content z ?f = int_content z f @ [ch]" by (simp add: int_content_def [of z ?f] all)
    moreover have "int_inv z ?f" using i ne z by (simp add: int_inv_def p'_def)
    ultimately show ?thesis using store ne n lc by simp
  next
    case True
    then have eq: "p' = rf_get f" using z(3) unfolding p'n by simp
    let ?f = "f\<lparr>rf_buffer := ?b, rf_put := p', rf_get := g', rf_full := True\<rparr>"
    have g: "g' \<noteq> rf_get f" "g' < z" using z by (auto simp: g'_def mod_if)
    have "(g' + (z - 1)) mod z = (rf_get f + z) mod z"
      unfolding g'_def mod_add_left_eq using z(4) by (simp add: add.assoc)
    then have "serial_rx_length z ?f = z - 1"
      by (intro rx_length_unique) (use z eq g in simp_all)
    moreover have "ring_read ?b g' n = tl (ring_read ?b (rf_get f) (Suc n))"
      using z ring_read_mod [of ?b "Suc (rf_get f)" n] by (simp add: ring_read_Suc g'_def)
    moreover have zn: "z - 1 = n" using True by simp
    moreover have "rf_buffer ?f = ?b" "rf_get ?f = g'" by simp_all
    ultimately have "int_content z ?f = tl (int_content z f @ [ch])"
      using True all zn unfolding int_content_def [of z ?f] by metis
    also have "\<dots> = lastn (z - 1) (int_content z f @ [ch])"
    proof -
      have "length (int_content z f @ [ch]) - (z - 1) = 1" using True lc by simp
      then show ?thesis by (simp only: lastn_def One_nat_def drop_Suc drop_0)
    qed
    finally have "int_content z ?f = lastn (z - 1) (int_content z f @ [ch])" .
    moreover have "int_inv z ?f" using i z g eq by (simp add: int_inv_def)
    ultimately show ?thesis using store eq by simp
  qed
qed

lemma serial_rx_isr_spec:
  assumes "int_inv z f"
  shows "\<exists>f'. serial_rx_isr z chs f = Some f' \<and> int_inv z f' \<and>
    int_content z f' = lastn (z - 1) (int_content z f @ chs)"
  using assms
proof (induction chs arbitrary: f)
  case Nil
  then have "length (int_content z f) \<le> z - 1"
    using rx_length_place [of f z] by (simp add: int_content_def int_inv_def)
  then show ?case using Nil by simp
next
  case (Cons ch chs)
  obtain f1 where f1: "serial_rx_store z ch f = Some f1" "int_inv z f1"
    "int_content z f1 = lastn (z - 1) (int_content z f @ [ch])"
    using serial_rx_store_spec [OF Cons.prems] by blast
  obtain f2 where "serial_rx_isr z chs f1 = Some f2" "int_inv z f2"
    "int_content z f2 = lastn (z - 1) (int_content z f1 @ chs)"
    using Cons.IH [OF f1(2)] by blast
  then show ?case using f1 lastn_append [of "z - 1" "int_content z f @ [ch]" chs] by simp
qed

lemma serial_int_rx_spec:
  assumes "int_inv z f"
  shows "\<exists>f'. serial_int_rx z n f = Some (take n (int_content z f), f') \<and> int_inv z f' \<and>
    int_content z f' = drop n (int_content z f)"
  using assms
proof (induction n arbitrary: f)
  case 0
  then show ?case by simp
next
  case (Suc n)
  have z: "length (rf_buffer f) = z" "rf_put f < z" "rf_get f < z" "2 \<le> z" "z < 2 ^ 16"
    using Suc.prems by (auto simp: int_inv_def)
  define m where "m = serial_rx_length z f"
  note p = rx_length_place [OF z(2,3), folded m_def]
  show ?case
  proof (cases "rf_get f = rf_put f")
    case True
    then have "\<not> rf_full f" "int_content z f = []"
      using Suc.prems by (auto simp: int_inv_def int_content_def serial_rx_length_def)
    then show ?thesis using True Suc.prems by simp
  next
    case False
    then obtain k where k: "m = Suc k" using p z by (cases m) auto
    let ?g = "(rf_get f + 1) mod z"
    let ?f = "f\<lparr>rf_get := ?g, rf_full := False\<rparr>"
    have len: "serial_rx_length z ?f = k"
      by (rule rx_length_unique) (use p z k in \<open>simp_all add: mod_add_left_eq\<close>)
    have c: "int_content z f = rf_buffer f ! rf_get f # int_content z ?f"
      using z k m_def len ring_read_mod [of "rf_buffer f" "Suc (rf_get f)" k]
      by (simp add: int_content_def ring_read_Suc)
    have "int_inv z ?f" using Suc.prems z by (simp add: int_inv_def)
    then obtain f' where "serial_int_rx z n ?f = Some (take n (int_content z ?f), f')" "int_inv z f'"
      "int_content z f' = drop n (int_content z ?f)"
      using Suc.IH by blast
    then show ?thesis using False z next_index [OF z(3,5)] by (simp add: c Let_def)
  qed
qed

interpretation serial_int: sliding_fifo "int_inv z" "int_content z" "z - 1" "serial_rx_isr z" "serial_int_rx z"
proof
  show "length (int_content z f) \<le> z - 1" if "int_inv z f" for f
    using rx_length_place [of f z] that by (simp add: int_content_def int_inv_def)
qed (use serial_rx_isr_spec serial_int_rx_spec in auto)

section \<open>The DMA mode keeps as many bytes as the buffer holds\<close>

definition dma_inv :: "nat \<Rightarrow> rt_serial_rx_fifo \<Rightarrow> bool" where
  "dma_inv z f \<longleftrightarrow> 0 < z \<and> z \<le> 2 ^ 15 \<and> length (rf_buffer f) = z \<and> rf_put f < z \<and> rf_get f < z \<and>
     (rf_full f \<longrightarrow> rf_put f = rf_get f)"

definition dma_content :: "nat \<Rightarrow> rt_serial_rx_fifo \<Rightarrow> u8 list" where
  "dma_content z f = ring_read (rf_buffer f) (rf_get f) (serial_fifo_calc_recved_len z f)"

lemma recved_len_place:
  assumes "dma_inv z f"
  shows "rf_put f = (rf_get f + serial_fifo_calc_recved_len z f) mod z" "serial_fifo_calc_recved_len z f \<le> z"
    "rf_full f \<longleftrightarrow> serial_fifo_calc_recved_len z f = z"
  using assms by (auto simp: dma_inv_def serial_fifo_calc_recved_len_def mod_if split: if_splits)

lemma recved_len_unique:
  assumes "rf_get f < z" "n \<le> z" "rf_put f = (rf_get f + n) mod z" "rf_full f \<longleftrightarrow> n = z"
  shows "serial_fifo_calc_recved_len z f = n"
  using assms by (auto simp: serial_fifo_calc_recved_len_def mod_if split: if_splits)

text \<open>Advancing the indices: the content grows, or is full and ends at the new index.\<close>

lemma update_put_index_spec:
  assumes "dma_inv z f" "len \<le> z"
  defines "n \<equiv> serial_fifo_calc_recved_len z f"
  defines "p \<equiv> (rf_put f + len) mod z"
  shows "rt_dma_recv_update_put_index z len f =
    (if n + len < z then f\<lparr>rf_put := p\<rparr> else f\<lparr>rf_put := p, rf_get := p, rf_full := True\<rparr>)"
proof -
  have z: "0 < z" "z \<le> 2 ^ 15" "rf_put f < z" "rf_get f < z" using assms(1) by (auto simp: dma_inv_def)
  have m: "(rf_put f + len) mod 2 ^ 16 = rf_put f + len" "(rf_put f + len) mod 65536 = rf_put f + len"
    using z assms(2) by simp_all
  have pz: "p < z" using z by (simp add: p_def)
  have lo: "p = rf_put f + len" if "rf_put f + len < z" using that by (simp add: p_def)
  have hi: "p = rf_put f + len - z" if "z \<le> rf_put f + len"
    using that z assms(2) by (simp add: p_def le_mod_geq)
  have f0: "f\<lparr>rf_get := rf_get f\<rparr> = f" by simp
  consider (full) "rf_full f" "rf_put f = rf_get f" "n = z"
    | (up) "\<not> rf_full f" "rf_get f \<le> rf_put f" "n = rf_put f - rf_get f"
    | (down) "\<not> rf_full f" "rf_put f < rf_get f" "n = z - (rf_get f - rf_put f)"
  proof -
    have "n = (if rf_full f then z else if rf_get f \<le> rf_put f then rf_put f - rf_get f
      else z - (rf_get f - rf_put f))" "rf_full f \<longrightarrow> rf_put f = rf_get f"
      using assms(1) by (auto simp: n_def serial_fifo_calc_recved_len_def dma_inv_def)
    then show thesis using that by (cases "rf_full f"; cases "rf_get f \<le> rf_put f") auto
  qed
  then show ?thesis
  proof cases
    case full
    have "f\<lparr>rf_put := p, rf_get := p\<rparr> = f\<lparr>rf_put := p, rf_get := p, rf_full := True\<rparr>" using full(1) by simp
    then show ?thesis
      using full z pz lo [unfolded full(2)]
      by (cases "rf_get f + len < z")
        (simp_all add: rt_dma_recv_update_put_index_def m [unfolded full(2)] Let_def p_def [symmetric, unfolded full(2)])
  next
    case up
    show ?thesis
    proof (cases "rf_put f + len < z")
      case True
      then have "n + len < z" using up by linarith
      then show ?thesis
        using True up z lo by (simp add: rt_dma_recv_update_put_index_def m Let_def)
    next
      case False
      then have "p \<ge> rf_get f \<longleftrightarrow> \<not> n + len < z" using up hi assms(2) by linarith
      then show ?thesis
        using False up z pz
        by (cases "n + len < z") (simp_all add: rt_dma_recv_update_put_index_def m Let_def p_def [symmetric])
    qed
  next
    case down
    have c: "rf_put f + len \<ge> rf_get f \<longleftrightarrow> \<not> n + len < z" using down z by linarith
    show ?thesis
    proof (cases "n + len < z")
      case True
      then have "rf_put f + len < z" using down z by linarith
      then show ?thesis
        using True c down z lo by (simp add: rt_dma_recv_update_put_index_def m Let_def)
    next
      case False
      then show ?thesis
        using c down z pz lo hi
        by (cases "rf_put f + len < z") (simp_all add: rt_dma_recv_update_put_index_def m Let_def p_def [symmetric])
    qed
  qed
qed

lemma serial_dma_receive_spec:
  assumes i: "dma_inv z f" and len: "length xs \<le> z"
  shows "dma_inv z (serial_dma_receive z xs f)"
    "dma_content z (serial_dma_receive z xs f) = lastn z (dma_content z f @ xs)"
proof -
  define n where "n = serial_fifo_calc_recved_len z f"
  define p where "p = (rf_put f + length xs) mod z"
  define b where "b = ring_put (rf_buffer f) (rf_put f) xs"
  let ?f = "f\<lparr>rf_buffer := b\<rparr>"
  have z: "0 < z" "z \<le> 2 ^ 15" "length (rf_buffer f) = z" "rf_put f < z" "rf_get f < z"
    using i by (auto simp: dma_inv_def)
  note q = recved_len_place [OF i, folded n_def]
  have ib: "dma_inv z ?f" using i by (simp add: dma_inv_def b_def)
  have nb: "serial_fifo_calc_recved_len z ?f = n" by (simp add: serial_fifo_calc_recved_len_def n_def)
  have r: "serial_dma_receive z xs f =
    (if n + length xs < z then ?f\<lparr>rf_put := p\<rparr> else ?f\<lparr>rf_put := p, rf_get := p, rf_full := True\<rparr>)"
    using update_put_index_spec [OF ib len] by (simp add: serial_dma_receive_def b_def [symmetric] nb p_def)
  have lb: "length b = z" by (simp add: b_def z)
  have pp: "p = (rf_get f + (n + length xs)) mod z"
    unfolding p_def q(1) by (simp add: mod_add_left_eq add.assoc)
  have pz: "p < z" using z by (simp add: p_def)
  have lc: "length (dma_content z f) = n" by (simp add: dma_content_def n_def)
  show "dma_inv z (serial_dma_receive z xs f)"
    using ib pz q(3) by (auto simp: r dma_inv_def)
  show "dma_content z (serial_dma_receive z xs f) = lastn z (dma_content z f @ xs)"
  proof (cases "n + length xs < z")
    case True
    have "serial_fifo_calc_recved_len z (?f\<lparr>rf_put := p\<rparr>) = n + length xs"
      by (rule recved_len_unique) (use True pp z q(3) in auto)
    moreover have "ring_read b (rf_get f) (n + length xs) = dma_content z f @ xs"
      using ring_read_put_end [of "rf_get f" "rf_buffer f" n xs] True z q(1)
      by (simp add: b_def dma_content_def n_def)
    ultimately show ?thesis using True lc by (simp add: r dma_content_def [of z "?f\<lparr>rf_put := p\<rparr>"])
  next
    case False
    let ?g = "?f\<lparr>rf_put := p, rf_get := p, rf_full := True\<rparr>"
    have "serial_fifo_calc_recved_len z ?g = z" by (simp add: serial_fifo_calc_recved_len_def)
    then have "dma_content z ?g = ring_read b p z" by (simp add: dma_content_def)
    also have "\<dots> = ring_read b (rf_put f + length xs) ((z - length xs) + length xs)"
      using ring_read_mod [of b "rf_put f + length xs" z] lb len by (simp add: p_def)
    also have "\<dots> = ring_read b (rf_put f + length xs) (z - length xs) @ ring_read b (rf_put f + z) (length xs)"
      using len by (simp only: ring_read_append add.assoc) simp
    also have "ring_read b (rf_put f + z) (length xs) = xs"
      using ring_read_mod [of b "rf_put f + z" "length xs"] ring_read_put_same [of "rf_put f" "rf_buffer f" xs] lb z len
      by (simp add: b_def)
    also have "ring_read b (rf_put f + length xs) (z - length xs) = drop (n + length xs - z) (dma_content z f)"
    proof -
      define d where "d = n + length xs - z"
      have n: "n = d + (z - length xs)" "z + d = n + length xs" using False len q(2) by (simp_all add: d_def)
      define g where "g = (rf_get f + d) mod z"
      have g: "g < z" using z by (simp add: g_def)
      have e1: "(rf_put f + length xs) mod z = g"
      proof -
        have "(rf_put f + length xs) mod z = (rf_get f + (z + d)) mod z"
          unfolding q(1) n(2) by (simp add: mod_add_left_eq add.assoc)
        also have "rf_get f + (z + d) = rf_get f + d + z" by simp
        finally show ?thesis by (simp add: g_def)
      qed
      have e2: "rf_put f = (g + (z - length xs)) mod z"
        unfolding g_def mod_add_left_eq using q(1) n(1) by (simp add: add.assoc)
      have "ring_read b (rf_put f + length xs) (z - length xs) = ring_read b g (z - length xs)"
        using ring_read_mod [of b "rf_put f + length xs"] lb e1 by simp
      also have "\<dots> = ring_read (rf_buffer f) g (z - length xs)"
        using ring_read_put_before [of g "rf_buffer f" "z - length xs" xs] g z len e2 by (simp add: b_def)
      also have "\<dots> = ring_read (rf_buffer f) (rf_get f + d) (z - length xs)"
        using ring_read_mod [of "rf_buffer f" "rf_get f + d"] z by (simp add: g_def)
      also have "\<dots> = drop d (ring_read (rf_buffer f) (rf_get f) n)"
        by (simp add: n(1) ring_read_append)
      finally show ?thesis by (simp add: dma_content_def n_def d_def)
    qed
    finally show ?thesis using False lc len by (simp add: r lastn_def)
  qed
qed

lemma serial_dma_rx_spec:
  assumes i: "dma_inv z f"
  shows "\<exists>f'. serial_dma_rx z len f = Some (take len (dma_content z f), f') \<and> dma_inv z f' \<and>
    dma_content z f' = drop len (dma_content z f)"
proof -
  define n where "n = serial_fifo_calc_recved_len z f"
  define r where "r = (if len < n then len else n)"
  define g where "g = rf_get f"
  have z: "0 < z" "z \<le> 2 ^ 15" "length (rf_buffer f) = z" "g < z" using i by (auto simp: dma_inv_def g_def)
  note q = recved_len_place [OF i, folded n_def]
  have rn: "r \<le> n" "r \<le> z" using q(2) by (auto simp: r_def)
  have data: "(if g + r < z then memcpy (replicate r 0) 0 (rf_buffer f) (int g) (int r)
      else do { d1 \<leftarrow> memcpy (replicate r 0) 0 (rf_buffer f) (int g) (int z - int g);
                memcpy d1 (int z - int g) (rf_buffer f) 0 (int r + int g - int z) }) =
      Some (ring_read (rf_buffer f) g r)"
  proof (cases "g + r < z")
    case True
    then show ?thesis
      using memcpy_ok [of 0 r "replicate r 0" g "rf_buffer f"] ring_read_one_piece [of g r "rf_buffer f"] z by simp
  next
    case False
    define a where "a = z - g"
    define c where "c = r - a"
    have a: "r = a + c" "int z - int g = int a" "int r + int g - int z = int c" "g + a = z" "c \<le> z"
      using False z rn by (auto simp: a_def c_def)
    have "memcpy (replicate r 0) (int 0) (rf_buffer f) (int g) (int a) =
        Some (drop g (rf_buffer f) @ replicate c (0 :: u8))"
      unfolding a(1) using memcpy_ok [of 0 a "replicate (a + c) (0 :: u8)" g "rf_buffer f"] z a(2-) by simp
    moreover have "memcpy (drop g (rf_buffer f) @ replicate c (0 :: u8)) (int a) (rf_buffer f) (int 0) (int c) =
        Some (drop g (rf_buffer f) @ take c (rf_buffer f))"
    proof -
      have "length (drop g (rf_buffer f)) = a" using z by (simp add: a_def)
      then show ?thesis
        using memcpy_ok [of a c "drop g (rf_buffer f) @ replicate c (0 :: u8)" 0 "rf_buffer f"] z(3) a(5) by simp
    qed
    moreover have "ring_read (rf_buffer f) g r = drop g (rf_buffer f) @ take c (rf_buffer f)"
      using ring_read_two_pieces [of g "rf_buffer f" r] z a rn by (simp add: a_def)
    ultimately show ?thesis using False by (simp add: a(2,3))
  qed
  have gm: "(g + r) mod 2 ^ 16 = g + r" using z rn by simp
  let ?f = "f\<lparr>rf_full := (rf_full f \<and> r = 0), rf_get := (g + r) mod z\<rparr>"
  have up: "rt_dma_recv_update_get_index z r f = Some ?f"
    using rn z gm by (simp add: rt_dma_recv_update_get_index_def Let_def n_def [symmetric] g_def [symmetric])
  have eq: "serial_dma_rx z len f = Some (ring_read (rf_buffer f) g r, ?f)"
    unfolding serial_dma_rx_def Let_def n_def [symmetric] r_def [symmetric] g_def [symmetric] data
    by (simp add: up)
  have cnt: "serial_fifo_calc_recved_len z ?f = n - r"
  proof (rule recved_len_unique)
    show "rf_put ?f = (rf_get ?f + (n - r)) mod z"
    proof -
      have "(g + r) + (n - r) = g + n" using rn by simp
      then have "((g + r) mod z + (n - r)) mod z = (g + n) mod z" by (metis mod_add_left_eq)
      then show ?thesis using q(1) by (simp add: g_def)
    qed
    show "rf_full ?f \<longleftrightarrow> n - r = z" using q(2,3) rn z by auto
  qed (use z q(2) in simp_all)
  have sp: "ring_read (rf_buffer f) g n = ring_read (rf_buffer f) g r @ ring_read (rf_buffer f) (g + r) (n - r)"
    using ring_read_append [of "rf_buffer f" g r "n - r"] rn by simp
  have c: "dma_content z f = ring_read (rf_buffer f) g n" by (simp add: dma_content_def n_def g_def)
  have c': "dma_content z ?f = ring_read (rf_buffer f) (g + r) (n - r)"
    using ring_read_mod [of "rf_buffer f" "g + r"] z by (simp add: dma_content_def cnt)
  have "take len (dma_content z f) = take r (dma_content z f)" "drop len (dma_content z f) = drop r (dma_content z f)"
    by (simp_all add: r_def c)
  moreover have "take r (dma_content z f) = ring_read (rf_buffer f) g r" "drop r (dma_content z f) = dma_content z ?f"
    by (simp_all add: c' c sp)
  moreover have "dma_inv z ?f" using i z q(3) rn
    by (auto simp: dma_inv_def g_def)
  ultimately show ?thesis using eq by auto
qed

interpretation serial_dma: sliding_fifo "dma_inv z" "dma_content z" z
  "\<lambda>xs f. Some (serial_dma_receive z xs f)" "serial_dma_rx z"
proof
  show "length (dma_content z f) \<le> z" if "dma_inv z f" for f
    using recved_len_place(2) [OF that] by (simp add: dma_content_def)
qed (use serial_dma_receive_spec serial_dma_rx_spec in auto)

end
