(* ===== verification/Serial.thy ===== *)
theory Serial
  imports Device SerialFifo DataQueue DevSync
begin

unbundle bit_operations_syntax

text \<open>
  The serial driver (components/drivers/serial/serial.c) above the operations of an UART: opening and
  closing, the three ways to receive and to transmit (polling, interrupt, DMA), the control commands
  and the interrupt entry. The UART is a parameter: a record of functions on its own state \<open>'h\<close>.
\<close>

section \<open>Flags, configuration and state\<close>

abbreviation RT_DEVICE_FLAG_SUSPENDED :: u16 where "RT_DEVICE_FLAG_SUSPENDED \<equiv> 0x020"
abbreviation RT_DEVICE_FLAG_STREAM :: u16 where "RT_DEVICE_FLAG_STREAM \<equiv> 0x040"
abbreviation RT_DEVICE_FLAG_INT_RX :: u16 where "RT_DEVICE_FLAG_INT_RX \<equiv> 0x100"
abbreviation RT_DEVICE_FLAG_DMA_RX :: u16 where "RT_DEVICE_FLAG_DMA_RX \<equiv> 0x200"
abbreviation RT_DEVICE_FLAG_INT_TX :: u16 where "RT_DEVICE_FLAG_INT_TX \<equiv> 0x400"
abbreviation RT_DEVICE_FLAG_DMA_TX :: u16 where "RT_DEVICE_FLAG_DMA_TX \<equiv> 0x800"

abbreviation RT_DEVICE_CTRL_RESUME :: int where "RT_DEVICE_CTRL_RESUME \<equiv> 1"
abbreviation RT_DEVICE_CTRL_SUSPEND :: int where "RT_DEVICE_CTRL_SUSPEND \<equiv> 2"
abbreviation RT_DEVICE_CTRL_CONFIG :: int where "RT_DEVICE_CTRL_CONFIG \<equiv> 3"
abbreviation RT_DEVICE_CTRL_SET_INT :: int where "RT_DEVICE_CTRL_SET_INT \<equiv> 0x10"
abbreviation RT_DEVICE_CTRL_CLR_INT :: int where "RT_DEVICE_CTRL_CLR_INT \<equiv> 0x11"

record serial_configure =
  sc_baud_rate :: u32
  sc_data_bits :: "4 word"
  sc_stop_bits :: "2 word"
  sc_parity :: "2 word"
  sc_bit_order :: "1 word"
  sc_invert :: "1 word"
  sc_bufsz :: u16
  sc_reserved :: "6 word"

text \<open>The fields of \<open>struct termios\<close> the driver uses.\<close>

record termios =
  c_iflag :: u32
  c_oflag :: u32
  c_cflag :: u32
  c_lflag :: u32

record rt_serial_tx_dma =
  td_activated :: bool
  td_queue :: rt_data_queue

datatype serial_rx = Rx_Fifo rt_serial_rx_fifo | Rx_Dma bool
datatype serial_tx = Tx_Fifo rt_completion | Tx_Dma rt_serial_tx_dma

text \<open>The null structures are \<open>None\<close>; the callbacks of the client work on the kernel state.\<close>

record 'h rt_serial =
  sr_config :: serial_configure
  sr_rx :: "serial_rx option"
  sr_tx :: "serial_tx option"
  sr_hw :: 'h
  sr_rx_indicate :: "(int \<Rightarrow> kstate \<Rightarrow> kstate option) option"
  sr_tx_complete :: "(u32 \<Rightarrow> kstate \<Rightarrow> kstate option) option"

type_synonym 'h serial = "('h rt_serial \<times> kstate) dev"

datatype serial_arg = No_Arg | Arg_Word u32 | Arg_Config serial_configure | Arg_Termios termios | Arg_Size u32

record 'h rt_uart_ops =
  uo_configure :: "(serial_configure \<Rightarrow> 'h \<Rightarrow> int \<times> 'h) option"
  uo_control :: "int \<Rightarrow> serial_arg \<Rightarrow> 'h \<Rightarrow> int \<times> serial_arg \<times> 'h"
  uo_putc :: "u8 \<Rightarrow> 'h \<Rightarrow> int \<times> 'h"
  uo_getc :: "'h \<Rightarrow> int \<times> 'h"
  uo_dma_transmit :: "(bool \<Rightarrow> item \<Rightarrow> 'h \<Rightarrow> 'h) option"

text \<open>
  What else the driver gets from outside: whether the heap has room for its structures, the cells of
  the queue that a successful allocation gives, and whether the device is the console.
\<close>

record serial_env =
  se_room :: bool
  se_cells :: "item list option"
  se_console :: bool

definition bufsz :: "'h rt_serial \<Rightarrow> nat" where
  "bufsz r = unat (sc_bufsz (sr_config r))"

definition hw_control :: "'h rt_uart_ops \<Rightarrow> int \<Rightarrow> u16 \<Rightarrow> 'h rt_serial \<Rightarrow> 'h rt_serial" where
  "hw_control u cmd flag r = r\<lparr>sr_hw := snd (snd (uo_control u cmd (Arg_Word (ucast flag)) (sr_hw r)))\<rparr>"

section \<open>Opening and closing\<close>

definition rt_serial_init :: "'h rt_uart_ops \<Rightarrow> 'h serial \<Rightarrow> (int \<times> 'h serial) option" where
  "rt_serial_init u d =
     (case d of (v, r, s) \<Rightarrow>
        let r1 = r\<lparr>sr_rx := None, sr_tx := None\<rparr> in
        case uo_configure u of
          None \<Rightarrow> Some (RT_EOK, v, r1, s)
        | Some cfg \<Rightarrow> (case cfg (sr_config r1) (sr_hw r1) of (e, h) \<Rightarrow> Some (e, v, r1\<lparr>sr_hw := h\<rparr>, s)))"

definition serial_open_rx :: "'h rt_uart_ops \<Rightarrow> serial_env \<Rightarrow> u16 \<Rightarrow> rt_device \<times> 'h rt_serial \<Rightarrow>
    (rt_device \<times> 'h rt_serial) option" where
  "serial_open_rx u ev oflag vr =
     (case vr of (v, r) \<Rightarrow>
        let int_rx = v\<lparr>dv_open_flag := dv_open_flag v OR RT_DEVICE_FLAG_INT_RX\<rparr>;
            dma_rx = v\<lparr>dv_open_flag := dv_open_flag v OR RT_DEVICE_FLAG_DMA_RX\<rparr> in
        if sr_rx r = None
        then if oflag AND RT_DEVICE_FLAG_INT_RX \<noteq> 0
             then if se_room ev
                  then Some (int_rx, hw_control u RT_DEVICE_CTRL_SET_INT RT_DEVICE_FLAG_INT_RX
                               (r\<lparr>sr_rx := Some (Rx_Fifo (serial_fifo_open (bufsz r)))\<rparr>))
                  else None
             else if oflag AND RT_DEVICE_FLAG_DMA_RX \<noteq> 0
             then if \<not> se_room ev then None
                  else if bufsz r = 0 then Some (dma_rx, r\<lparr>sr_rx := Some (Rx_Dma False)\<rparr>)
                  else Some (dma_rx, hw_control u RT_DEVICE_CTRL_CONFIG RT_DEVICE_FLAG_DMA_RX
                               (r\<lparr>sr_rx := Some (Rx_Fifo (serial_fifo_open (bufsz r)))\<rparr>))
             else Some (v, r)
        else if oflag AND RT_DEVICE_FLAG_INT_RX \<noteq> 0 then Some (int_rx, r)
        else if oflag AND RT_DEVICE_FLAG_DMA_RX \<noteq> 0 then Some (dma_rx, r)
        else Some (v, r))"

text \<open>A fresh queue; its initialisation sets every field.\<close>

definition raw_queue :: rt_data_queue where
  "raw_queue = \<lparr>dq_size = 0, dq_lwm = 0, dq_get_index = 0, dq_put_index = 0, dq_queue = [], dq_evt_notify = None\<rparr>"

definition serial_open_tx :: "'h rt_uart_ops \<Rightarrow> oid \<Rightarrow> serial_env \<Rightarrow> u16 \<Rightarrow> 'h serial \<Rightarrow> 'h serial option" where
  "serial_open_tx u i ev oflag d =
     (case d of (v, r, s) \<Rightarrow>
        let int_tx = v\<lparr>dv_open_flag := dv_open_flag v OR RT_DEVICE_FLAG_INT_TX\<rparr>;
            dma_tx = v\<lparr>dv_open_flag := dv_open_flag v OR RT_DEVICE_FLAG_DMA_TX\<rparr> in
        if sr_tx r = None
        then if oflag AND RT_DEVICE_FLAG_INT_TX \<noteq> 0
             then if \<not> se_room ev then None
                  else case rt_completion_init i (\<lparr>cp_flag = False\<rparr>, s) of (c, s1) \<Rightarrow>
                         Some (int_tx, hw_control u RT_DEVICE_CTRL_SET_INT RT_DEVICE_FLAG_INT_TX
                                 (r\<lparr>sr_tx := Some (Tx_Fifo c)\<rparr>), s1)
             else if oflag AND RT_DEVICE_FLAG_DMA_TX \<noteq> 0
             then if \<not> se_room ev then None
                  else case rt_data_queue_init i 8 4 None (se_cells ev) (raw_queue, s) of (_, q, s1) \<Rightarrow>
                         Some (dma_tx, r\<lparr>sr_tx := Some (Tx_Dma \<lparr>td_activated = False, td_queue = q\<rparr>)\<rparr>, s1)
             else Some (v, r, s)
        else if oflag AND RT_DEVICE_FLAG_INT_TX \<noteq> 0 then Some (int_tx, r, s)
        else if oflag AND RT_DEVICE_FLAG_DMA_TX \<noteq> 0 then Some (dma_tx, r, s)
        else Some (v, r, s))"

text \<open>Every mode that is asked for must be one the device was registered with.\<close>

definition serial_supports :: "u16 \<Rightarrow> rt_device \<Rightarrow> bool" where
  "serial_supports oflag v \<longleftrightarrow>
     \<not> (oflag AND RT_DEVICE_FLAG_DMA_RX \<noteq> 0 \<and> dv_flag v AND RT_DEVICE_FLAG_DMA_RX = 0) \<and>
     \<not> (oflag AND RT_DEVICE_FLAG_DMA_TX \<noteq> 0 \<and> dv_flag v AND RT_DEVICE_FLAG_DMA_TX = 0) \<and>
     \<not> (oflag AND RT_DEVICE_FLAG_INT_RX \<noteq> 0 \<and> dv_flag v AND RT_DEVICE_FLAG_INT_RX = 0) \<and>
     \<not> (oflag AND RT_DEVICE_FLAG_INT_TX \<noteq> 0 \<and> dv_flag v AND RT_DEVICE_FLAG_INT_TX = 0)"

definition rt_serial_open :: "'h rt_uart_ops \<Rightarrow> oid \<Rightarrow> serial_env \<Rightarrow> u16 \<Rightarrow> 'h serial \<Rightarrow> (int \<times> 'h serial) option" where
  "rt_serial_open u i ev oflag d =
     (case d of (v, r, s) \<Rightarrow>
        if \<not> serial_supports oflag v then Some (- RT_EIO, v, r, s)
        else let stream_flag = (if oflag AND RT_DEVICE_FLAG_STREAM \<noteq> 0 \<or> dv_open_flag v AND RT_DEVICE_FLAG_STREAM \<noteq> 0
                                then RT_DEVICE_FLAG_STREAM else 0) in
             do { (v1, r1) \<leftarrow> serial_open_rx u ev oflag (v\<lparr>dv_open_flag := oflag AND 0xff\<rparr>, r);
                  (v2, r2, s2) \<leftarrow> serial_open_tx u i ev oflag (v1, r1, s);
                  Some (RT_EOK, v2\<lparr>dv_open_flag := dv_open_flag v2 OR stream_flag\<rparr>, r2, s2) })"

definition clear_open_flag :: "u16 \<Rightarrow> rt_device \<Rightarrow> rt_device" where
  "clear_open_flag x v = v\<lparr>dv_open_flag := dv_open_flag v AND NOT x\<rparr>"

definition serial_close_rx :: "'h rt_uart_ops \<Rightarrow> rt_device \<times> 'h rt_serial \<Rightarrow> (rt_device \<times> 'h rt_serial) option" where
  "serial_close_rx u vr =
     (case vr of (v, r) \<Rightarrow>
        if dv_open_flag v AND RT_DEVICE_FLAG_INT_RX \<noteq> 0
        then if sr_rx r = None then None
             else Some (clear_open_flag RT_DEVICE_FLAG_INT_RX v,
                        hw_control u RT_DEVICE_CTRL_CLR_INT RT_DEVICE_FLAG_INT_RX (r\<lparr>sr_rx := None\<rparr>))
        else if dv_open_flag v AND RT_DEVICE_FLAG_DMA_RX \<noteq> 0
        then if sr_rx r = None then None
             else Some (clear_open_flag RT_DEVICE_FLAG_DMA_RX v,
                        (hw_control u RT_DEVICE_CTRL_CLR_INT RT_DEVICE_FLAG_DMA_RX r)\<lparr>sr_rx := None\<rparr>)
        else Some (v, r))"

definition serial_close_tx :: "'h rt_uart_ops \<Rightarrow> rt_device \<times> 'h rt_serial \<Rightarrow> (rt_device \<times> 'h rt_serial) option" where
  "serial_close_tx u vr =
     (case vr of (v, r) \<Rightarrow>
        if dv_open_flag v AND RT_DEVICE_FLAG_INT_TX \<noteq> 0
        then if sr_tx r = None then None
             else Some (clear_open_flag RT_DEVICE_FLAG_INT_TX v,
                        hw_control u RT_DEVICE_CTRL_CLR_INT RT_DEVICE_FLAG_INT_TX (r\<lparr>sr_tx := None\<rparr>))
        else if dv_open_flag v AND RT_DEVICE_FLAG_DMA_TX \<noteq> 0
        then if sr_tx r = None then None
             else Some (clear_open_flag RT_DEVICE_FLAG_DMA_TX v, r\<lparr>sr_tx := None\<rparr>)
        else Some (v, r))"

definition rt_serial_close :: "'h rt_uart_ops \<Rightarrow> 'h serial \<Rightarrow> (int \<times> 'h serial) option" where
  "rt_serial_close u d =
     (case d of (v, r, s) \<Rightarrow>
        if 1 < dv_ref_count v then Some (RT_EOK, v, r, s)
        else do { (v1, r1) \<leftarrow> serial_close_rx u (v, r);
                  (v2, r2) \<leftarrow> serial_close_tx u (v1, r1);
                  Some (RT_EOK, v2, r2, s) })"

section \<open>Reading\<close>

text \<open>\<open>_serial_poll_rx\<close>: up to a line feed, or until the UART has nothing.\<close>

fun serial_poll_rx :: "'h rt_uart_ops \<Rightarrow> nat \<Rightarrow> 'h \<Rightarrow> u8 list \<times> 'h" where
  "serial_poll_rx u 0 h = ([], h)"
| "serial_poll_rx u (Suc n) h =
     (case uo_getc u h of (ch, h1) \<Rightarrow>
        if ch = - 1 then ([], h1)
        else if ch = 10 then ([word_of_int ch], h1)
        else case serial_poll_rx u n h1 of (xs, h2) \<Rightarrow> (word_of_int ch # xs, h2))"

text \<open>
  Reading by DMA: without a buffer of its own the driver hands the caller's to the controller and
  returns at once, otherwise it copies.
\<close>

definition serial_dma_read :: "'h rt_uart_ops \<Rightarrow> u32 \<Rightarrow> nat \<Rightarrow> 'h rt_serial \<Rightarrow> (readout \<times> 'h rt_serial) option" where
  "serial_dma_read u buf n r =
     (case sr_rx r of
        Some (Rx_Dma active) \<Rightarrow>
          if bufsz r \<noteq> 0 then None
          else if active then Some ((0, [], Some (- RT_EBUSY)), r)
          else do { transmit \<leftarrow> uo_dma_transmit u;
                    Some ((n, [], None), r\<lparr>sr_rx := Some (Rx_Dma True),
                                           sr_hw := transmit True (buf, word_of_nat n) (sr_hw r)\<rparr>) }
      | Some (Rx_Fifo f) \<Rightarrow>
          if bufsz r = 0 then None
          else do { (xs, f1) \<leftarrow> serial_dma_rx (bufsz r) n f;
                    Some ((length xs, xs, None), r\<lparr>sr_rx := Some (Rx_Fifo f1)\<rparr>) }
      | None \<Rightarrow> None)"

definition rt_serial_read :: "'h rt_uart_ops \<Rightarrow> int \<Rightarrow> u32 \<Rightarrow> nat \<Rightarrow> 'h serial \<Rightarrow> (readout \<times> 'h serial) option" where
  "rt_serial_read u pos buf n d =
     (case d of (v, r, s) \<Rightarrow>
        if n = 0 then Some ((0, [], None), v, r, s)
        else if dv_open_flag v AND RT_DEVICE_FLAG_INT_RX \<noteq> 0
        then (case sr_rx r of
                Some (Rx_Fifo f) \<Rightarrow> do { (xs, f1) \<leftarrow> serial_int_rx (bufsz r) n f;
                                        Some ((length xs, xs, None), v, r\<lparr>sr_rx := Some (Rx_Fifo f1)\<rparr>, s) }
              | _ \<Rightarrow> None)
        else if dv_open_flag v AND RT_DEVICE_FLAG_DMA_RX \<noteq> 0
        then do { (x, r1) \<leftarrow> serial_dma_read u buf n r; Some (x, v, r1, s) }
        else (case serial_poll_rx u n (sr_hw r) of (xs, h) \<Rightarrow> Some ((length xs, xs, None), v, r\<lparr>sr_hw := h\<rparr>, s)))"

section \<open>Writing\<close>

fun serial_poll_tx :: "'h rt_uart_ops \<Rightarrow> bool \<Rightarrow> u8 list \<Rightarrow> 'h \<Rightarrow> 'h" where
  "serial_poll_tx u stream [] h = h"
| "serial_poll_tx u stream (x # xs) h =
     (let h1 = (if x = 10 \<and> stream then snd (uo_putc u 13 h) else h)
      in serial_poll_tx u stream xs (snd (uo_putc u x h1)))"

text \<open>
  \<open>_serial_int_tx\<close>: a byte the UART does not take is tried again after the completion. It ends, waits
  with the bytes that are left, or runs for ever if the UART never takes one.
\<close>

partial_function (option) serial_int_tx :: "'h rt_uart_ops \<Rightarrow> oid \<Rightarrow> u8 list \<Rightarrow> rt_completion \<Rightarrow> 'h \<Rightarrow> kstate \<Rightarrow>
    (rt_completion \<times> 'h, tid \<times> u8 list \<times> rt_completion \<times> 'h) outcome option" where
  "serial_int_tx u i data c h s =
     (case data of
        [] \<Rightarrow> Some (Ret (c, h) s)
      | x # xs \<Rightarrow>
          (case uo_putc u x h of (e, h1) \<Rightarrow>
             if e \<noteq> - 1 then serial_int_tx u i xs c h1 s
             else do { w \<leftarrow> rt_completion_wait i RT_WAITING_FOREVER (c, s);
                       (case w of
                          Ret (e1, c1) s1 \<Rightarrow> serial_int_tx u i data c1 h1 s1
                        | Wait (t, c1) s1 \<Rightarrow> Some (Wait (t, data, c1, h1) s1)) }))"

definition serial_int_tx_wake :: "'h rt_uart_ops \<Rightarrow> oid \<Rightarrow> tid \<times> u8 list \<Rightarrow> rt_completion \<Rightarrow> 'h \<Rightarrow> kstate \<Rightarrow>
    (rt_completion \<times> 'h, tid \<times> u8 list \<times> rt_completion \<times> 'h) outcome option" where
  "serial_int_tx_wake u i k c h s =
     (case k of (t, data) \<Rightarrow> serial_int_tx u i data (snd (rt_completion_wait_wake t (c, s))) h s)"

text \<open>
  \<open>_serial_dma_tx\<close> queues its item, and then starts the controller unless it is running. Interrupts
  and other writers can run between the two.
\<close>

definition dma_tx_push :: "oid \<Rightarrow> item \<Rightarrow> rt_serial_tx_dma \<times> kstate \<Rightarrow>
    (int \<times> rt_data_queue, tid \<times> int \<times> rt_data_queue) outcome option" where
  "dma_tx_push i x ts = (case ts of (td, s) \<Rightarrow> rt_data_queue_push i x RT_WAITING_FOREVER (td_queue td, s))"

definition dma_tx_start :: "'h rt_uart_ops \<Rightarrow> item \<Rightarrow> rt_serial_tx_dma \<times> 'h \<Rightarrow> (rt_serial_tx_dma \<times> 'h) option" where
  "dma_tx_start u x th =
     (case th of (td, h) \<Rightarrow>
        if td_activated td then Some (td, h)
        else do { transmit \<leftarrow> uo_dma_transmit u; Some (td\<lparr>td_activated := True\<rparr>, transmit False x h) })"

definition dma_tx_pushed :: "'h rt_uart_ops \<Rightarrow> item \<Rightarrow> rt_serial_tx_dma \<Rightarrow> 'h \<Rightarrow>
    (int \<times> rt_data_queue, tid \<times> int \<times> rt_data_queue) outcome \<Rightarrow>
    ((nat \<times> int option) \<times> rt_serial_tx_dma \<times> 'h, (tid \<times> int) \<times> rt_serial_tx_dma \<times> 'h) outcome option" where
  "dma_tx_pushed u x td h w =
     (case w of
        Ret (e, q) s1 \<Rightarrow>
          if e = RT_EOK
          then do { (td1, h1) \<leftarrow> dma_tx_start u x (td\<lparr>td_queue := q\<rparr>, h);
                    Some (Ret ((unat (snd x), None), td1, h1) s1) }
          else Some (Ret ((0, Some e), td\<lparr>td_queue := q\<rparr>, h) s1)
      | Wait (t, timeout, q) s1 \<Rightarrow> Some (Wait ((t, timeout), td\<lparr>td_queue := q\<rparr>, h) s1))"

definition serial_dma_tx :: "'h rt_uart_ops \<Rightarrow> oid \<Rightarrow> item \<Rightarrow> rt_serial_tx_dma \<Rightarrow> 'h \<Rightarrow> kstate \<Rightarrow>
    ((nat \<times> int option) \<times> rt_serial_tx_dma \<times> 'h, (tid \<times> int) \<times> rt_serial_tx_dma \<times> 'h) outcome option" where
  "serial_dma_tx u i x td h s = do { w \<leftarrow> dma_tx_push i x (td, s); dma_tx_pushed u x td h w }"

definition serial_dma_tx_wake :: "'h rt_uart_ops \<Rightarrow> oid \<Rightarrow> item \<Rightarrow> tid \<times> int \<Rightarrow> rt_serial_tx_dma \<Rightarrow> 'h \<Rightarrow> kstate \<Rightarrow>
    ((nat \<times> int option) \<times> rt_serial_tx_dma \<times> 'h, (tid \<times> int) \<times> rt_serial_tx_dma \<times> 'h) outcome option" where
  "serial_dma_tx_wake u i x k td h s =
     do { w \<leftarrow> rt_data_queue_push_wake i x k (td_queue td, s); dma_tx_pushed u x td h w }"

text \<open>What a write that waits goes on with.\<close>

datatype serial_wait = Wait_Int tid "u8 list" | Wait_Dma tid int

type_synonym 'h serial_written =
  "((nat \<times> int option) \<times> rt_device \<times> 'h rt_serial, serial_wait \<times> rt_device \<times> 'h rt_serial) outcome"

definition rt_serial_write :: "'h rt_uart_ops \<Rightarrow> oid \<Rightarrow> int \<Rightarrow> u32 \<times> u8 list \<Rightarrow> 'h serial \<Rightarrow> 'h serial_written option" where
  "rt_serial_write u i pos data d =
     (case (data, d) of ((buf, xs), (v, r, s)) \<Rightarrow>
        if xs = [] then Some (Ret ((0, None), v, r) s)
        else if dv_open_flag v AND RT_DEVICE_FLAG_INT_TX \<noteq> 0
        then (case sr_tx r of
                Some (Tx_Fifo c) \<Rightarrow>
                  do { w \<leftarrow> serial_int_tx u i xs c (sr_hw r) s;
                       Some (case w of
                               Ret (c1, h) s1 \<Rightarrow>
                                 Ret ((length xs, None), v, r\<lparr>sr_tx := Some (Tx_Fifo c1), sr_hw := h\<rparr>) s1
                             | Wait (t, ys, c1, h) s1 \<Rightarrow>
                                 Wait (Wait_Int t ys, v, r\<lparr>sr_tx := Some (Tx_Fifo c1), sr_hw := h\<rparr>) s1) }
              | _ \<Rightarrow> None)
        else if dv_open_flag v AND RT_DEVICE_FLAG_DMA_TX \<noteq> 0
        then (case sr_tx r of
                Some (Tx_Dma td) \<Rightarrow>
                  do { w \<leftarrow> serial_dma_tx u i (buf, word_of_nat (length xs)) td (sr_hw r) s;
                       Some (case w of
                               Ret (x, td1, h) s1 \<Rightarrow> Ret (x, v, r\<lparr>sr_tx := Some (Tx_Dma td1), sr_hw := h\<rparr>) s1
                             | Wait ((t, timeout), td1, h) s1 \<Rightarrow>
                                 Wait (Wait_Dma t timeout, v, r\<lparr>sr_tx := Some (Tx_Dma td1), sr_hw := h\<rparr>) s1) }
              | _ \<Rightarrow> None)
        else Some (Ret ((length xs, None), v,
                        r\<lparr>sr_hw := serial_poll_tx u (dv_open_flag v AND RT_DEVICE_FLAG_STREAM \<noteq> 0) xs (sr_hw r)\<rparr>) s))"

section \<open>Control\<close>

text \<open>The terminal settings: speeds and their codes, and the bits of \<open>c_cflag\<close>.\<close>

definition speed_table :: "(u32 \<times> u32) list" where
  "speed_table = [(11, 2400), (12, 4800), (13, 9600), (14, 19200), (15, 38400), (0x1001, 57600), (0x1002, 115200),
     (0x1003, 230400), (0x1004, 460800), (0x1007, 921600), (0x100b, 2000000), (0x100d, 3000000)]"

definition get_speed :: "u32 \<Rightarrow> u32" where
  "get_speed baudrate = (case List.find (\<lambda>x. snd x = baudrate) speed_table of Some x \<Rightarrow> fst x | None \<Rightarrow> 0)"

definition get_baudrate :: "u32 \<Rightarrow> u32" where
  "get_baudrate speed = (case List.find (\<lambda>x. fst x = speed) speed_table of Some x \<Rightarrow> snd x | None \<Rightarrow> 0)"

abbreviation CSIZE :: u32 where "CSIZE \<equiv> 0x30"
abbreviation CS5 :: u32 where "CS5 \<equiv> 0"
abbreviation CS6 :: u32 where "CS6 \<equiv> 0x10"
abbreviation CS7 :: u32 where "CS7 \<equiv> 0x20"
abbreviation CS8 :: u32 where "CS8 \<equiv> 0x30"
abbreviation CSTOPB :: u32 where "CSTOPB \<equiv> 0x40"
abbreviation PARENB :: u32 where "PARENB \<equiv> 0x100"
abbreviation PARODD :: u32 where "PARODD \<equiv> 0x200"
abbreviation CBAUD :: u32 where "CBAUD \<equiv> 0x100f"

definition cfgetospeed :: "termios \<Rightarrow> u32" where
  "cfgetospeed tio = c_cflag tio AND CBAUD"

definition cfsetospeed :: "u32 \<Rightarrow> termios \<Rightarrow> int \<times> termios" where
  "cfsetospeed speed tio =
     (if speed AND NOT CBAUD \<noteq> 0 then (- 1, tio)
      else (0, tio\<lparr>c_cflag := (c_cflag tio AND NOT CBAUD) OR speed\<rparr>))"

text \<open>The cases TCGETA and TCSETA of the control operation.\<close>

definition tc_get :: "bool \<Rightarrow> serial_configure \<Rightarrow> termios" where
  "tc_get console c =
     (let size = (if sc_data_bits c = 5 then CS5 else if sc_data_bits c = 6 then CS6
                  else if sc_data_bits c = 7 then CS7 else if sc_data_bits c = 8 then CS8 else 0);
          stop = (if sc_stop_bits c = 1 then CSTOPB else 0);
          par = (if sc_parity c = 2 then PARENB else if sc_parity c = 1 then PARODD OR PARENB else 0)
      in snd (cfsetospeed (get_speed (sc_baud_rate c))
                \<lparr>c_iflag = 0, c_oflag = (if console then 5 else 0), c_cflag = size OR stop OR par, c_lflag = 0\<rparr>))"

definition tc_set :: "termios \<Rightarrow> serial_configure \<Rightarrow> serial_configure" where
  "tc_set tio c =
     (let size = c_cflag tio AND CSIZE
      in c\<lparr>sc_baud_rate := get_baudrate (cfgetospeed tio),
           sc_data_bits := (if size = CS5 then 5 else if size = CS6 then 6 else if size = CS7 then 7 else 8),
           sc_stop_bits := (if c_cflag tio AND CSTOPB \<noteq> 0 then 1 else 0),
           sc_parity := (if c_cflag tio AND PARENB \<noteq> 0 then if c_cflag tio AND PARODD \<noteq> 0 then 1 else 2 else 0)\<rparr>)"

text \<open>\<open>_tc_flush\<close>. Its assertion on the buffer comes before its test of the mode.\<close>

definition tc_flush :: "u32 \<Rightarrow> rt_device \<Rightarrow> 'h rt_serial \<Rightarrow> 'h rt_serial option" where
  "tc_flush queue v r =
     (if queue = 0 \<or> queue = 2
      then case sr_rx r of
             Some (Rx_Fifo f) \<Rightarrow>
               if dv_open_flag v AND RT_DEVICE_FLAG_INT_RX \<noteq> 0 \<or> dv_open_flag v AND RT_DEVICE_FLAG_DMA_RX \<noteq> 0
               then do { m \<leftarrow> (if bufsz r \<le> length (rf_buffer f)
                              then Some (replicate (bufsz r) 0 @ drop (bufsz r) (rf_buffer f)) else None);
                         Some (r\<lparr>sr_rx := Some (Rx_Fifo (f\<lparr>rf_buffer := m, rf_put := 0, rf_get := 0,
                                                            rf_full := False\<rparr>))\<rparr>) }
               else None
           | _ \<Rightarrow> None
      else Some r)"

text \<open>The ioctl numbers.\<close>

abbreviation TCGETA :: int where "TCGETA \<equiv> 0x5405"
abbreviation TCSETA :: int where "TCSETA \<equiv> 0x5406"
abbreviation TCSETAW :: int where "TCSETAW \<equiv> 0x5407"
abbreviation TCSETAF :: int where "TCSETAF \<equiv> 0x5408"
abbreviation TCXONC :: int where "TCXONC \<equiv> 0x540A"
abbreviation TCFLSH :: int where "TCFLSH \<equiv> 0x540B"
definition FIONREAD :: int where "FIONREAD = sint (0x8004667F :: u32)"

definition configure_hw :: "'h rt_uart_ops \<Rightarrow> serial_configure \<Rightarrow> 'h rt_serial \<Rightarrow> 'h rt_serial option" where
  "configure_hw u c r = do { cfg \<leftarrow> uo_configure u; Some (r\<lparr>sr_hw := snd (cfg c (sr_hw r))\<rparr>) }"

definition serial_set_config :: "'h rt_uart_ops \<Rightarrow> serial_configure \<Rightarrow> 'h serial \<Rightarrow> (int \<times> 'h serial) option" where
  "serial_set_config u c d =
     (case d of (v, r, s) \<Rightarrow>
        if sc_bufsz c \<noteq> sc_bufsz (sr_config r) \<and> dv_ref_count v \<noteq> 0 then Some (RT_EBUSY, v, r, s)
        else let r1 = r\<lparr>sr_config := c\<rparr> in
             if dv_ref_count v \<noteq> 0 then do { r2 \<leftarrow> configure_hw u c r1; Some (RT_EOK, v, r2, s) }
             else Some (RT_EOK, v, r1, s))"

text \<open>An argument of the wrong kind is read as something it is not: no result.\<close>

definition rt_serial_control :: "'h rt_uart_ops \<Rightarrow> serial_env \<Rightarrow> int \<Rightarrow> serial_arg \<Rightarrow> 'h serial \<Rightarrow>
    (int \<times> serial_arg \<times> 'h serial) option" where
  "rt_serial_control u ev cmd arg d =
     (case d of (v, r, s) \<Rightarrow>
        if cmd = RT_DEVICE_CTRL_SUSPEND
        then Some (RT_EOK, arg, v\<lparr>dv_flag := dv_flag v OR RT_DEVICE_FLAG_SUSPENDED\<rparr>, r, s)
        else if cmd = RT_DEVICE_CTRL_RESUME
        then Some (RT_EOK, arg, v\<lparr>dv_flag := dv_flag v AND NOT RT_DEVICE_FLAG_SUSPENDED\<rparr>, r, s)
        else if cmd = RT_DEVICE_CTRL_CONFIG
        then (case arg of
                No_Arg \<Rightarrow> Some (RT_EOK, arg, d)
              | Arg_Config c \<Rightarrow> do { (e, d1) \<leftarrow> serial_set_config u c d; Some (e, arg, d1) }
              | _ \<Rightarrow> None)
        else if cmd = TCGETA
        then (case arg of
                No_Arg \<Rightarrow> Some (- RT_EINVAL, arg, d)
              | Arg_Termios tio \<Rightarrow> Some (RT_EOK, Arg_Termios (tc_get (se_console ev) (sr_config r)), d)
              | _ \<Rightarrow> None)
        else if cmd \<in> {TCSETAW, TCSETAF, TCSETA}
        then (case arg of
                No_Arg \<Rightarrow> Some (- RT_EINVAL, arg, d)
              | Arg_Termios tio \<Rightarrow> do { r1 \<leftarrow> configure_hw u (tc_set tio (sr_config r)) r; Some (RT_EOK, arg, v, r1, s) }
              | _ \<Rightarrow> None)
        else if cmd = TCFLSH
        then (case arg of
                Arg_Word q \<Rightarrow> do { r1 \<leftarrow> tc_flush q v r; Some (RT_EOK, arg, v, r1, s) }
              | _ \<Rightarrow> None)
        else if cmd = TCXONC then Some (RT_EOK, arg, d)
        else if cmd = FIONREAD
        then (case (arg, sr_rx r) of
                (Arg_Size _, Some (Rx_Fifo f)) \<Rightarrow>
                  Some (RT_EOK, Arg_Size (word_of_nat (serial_fifo_calc_recved_len (bufsz r) f)), d)
              | _ \<Rightarrow> None)
        else (case uo_control u cmd arg (sr_hw r) of (e, arg1, h) \<Rightarrow> Some (e, arg1, v, r\<lparr>sr_hw := h\<rparr>, s)))"

section \<open>Interrupts\<close>

text \<open>The receive interrupt takes every byte the UART has.\<close>

partial_function (option) serial_isr_rx :: "'h rt_uart_ops \<Rightarrow> nat \<Rightarrow> rt_serial_rx_fifo \<Rightarrow> 'h \<Rightarrow>
    (rt_serial_rx_fifo \<times> 'h) option" where
  "serial_isr_rx u z f h =
     (case uo_getc u h of (ch, h1) \<Rightarrow>
        if ch = - 1 then Some (f, h1)
        else do { f1 \<leftarrow> serial_rx_store z (word_of_int ch) f; serial_isr_rx u z f1 h1 })"

definition indicate :: "(int \<Rightarrow> kstate \<Rightarrow> kstate option) option \<Rightarrow> int \<Rightarrow> kstate \<Rightarrow> kstate option" where
  "indicate cb n s = (case cb of None \<Rightarrow> Some s | Some f \<Rightarrow> f n s)"

text \<open>The controller has sent the head of the queue: the next item follows.\<close>

definition dma_tx_done :: "'h rt_uart_ops \<Rightarrow> oid \<Rightarrow> rt_serial_tx_dma \<times> 'h \<Rightarrow> kstate \<Rightarrow>
    (item option \<times> (rt_serial_tx_dma \<times> 'h) \<times> kstate) option" where
  "dma_tx_done u i th s =
     (case th of (td, h) \<Rightarrow>
        do { w \<leftarrow> rt_data_queue_pop i 0 (td_queue td, s);
             (case w of
                Wait _ _ \<Rightarrow> None
              | Ret (_, sent, q) s1 \<Rightarrow>
                  do { (e, next) \<leftarrow> rt_data_queue_peak q;
                       (case next of
                          None \<Rightarrow> Some (sent, (td\<lparr>td_queue := q, td_activated := False\<rparr>, h), s1)
                        | Some x \<Rightarrow>
                            do { transmit \<leftarrow> uo_dma_transmit u;
                                 Some (sent, (td\<lparr>td_queue := q, td_activated := True\<rparr>, transmit False x h), s1) }) }) })"

datatype serial_event = RX_IND | TX_DONE | RX_DMADONE nat | TX_DMADONE

definition rt_hw_serial_isr :: "'h rt_uart_ops \<Rightarrow> oid \<Rightarrow> serial_event \<Rightarrow> 'h rt_serial \<times> kstate \<Rightarrow>
    ('h rt_serial \<times> kstate) option" where
  "rt_hw_serial_isr u i e rs =
     (case rs of (r, s) \<Rightarrow>
        case e of
          RX_IND \<Rightarrow>
            (case sr_rx r of
               Some (Rx_Fifo f) \<Rightarrow>
                 do { (f1, h) \<leftarrow> serial_isr_rx u (bufsz r) f (sr_hw r);
                      let n = serial_rx_length (bufsz r) f1;
                      s1 \<leftarrow> (if n \<noteq> 0 then indicate (sr_rx_indicate r) (int n) s else Some s);
                      Some (r\<lparr>sr_rx := Some (Rx_Fifo f1), sr_hw := h\<rparr>, s1) }
             | _ \<Rightarrow> None)
        | TX_DONE \<Rightarrow>
            (case sr_tx r of
               Some (Tx_Fifo c) \<Rightarrow>
                 do { (c1, s1) \<leftarrow> rt_completion_done i (c, s); Some (r\<lparr>sr_tx := Some (Tx_Fifo c1)\<rparr>, s1) }
             | _ \<Rightarrow> None)
        | TX_DMADONE \<Rightarrow>
            (case sr_tx r of
               Some (Tx_Dma td) \<Rightarrow>
                 do { (sent, (td1, h), s1) \<leftarrow> dma_tx_done u i (td, sr_hw r) s;
                      s2 \<leftarrow> (case sr_tx_complete r of
                              None \<Rightarrow> Some s1
                            | Some f \<Rightarrow> do { x \<leftarrow> sent; f (fst x) s1 });
                      Some (r\<lparr>sr_tx := Some (Tx_Dma td1), sr_hw := h\<rparr>, s2) }
             | _ \<Rightarrow> None)
        | RX_DMADONE n \<Rightarrow>
            (case sr_rx r of
               Some (Rx_Dma active) \<Rightarrow>
                 if bufsz r \<noteq> 0 then None
                 else do { f \<leftarrow> sr_rx_indicate r; s1 \<leftarrow> f (int n) s; Some (r\<lparr>sr_rx := Some (Rx_Dma False)\<rparr>, s1) }
             | Some (Rx_Fifo f) \<Rightarrow>
                 if bufsz r = 0 then None
                 else do { let f1 = rt_dma_recv_update_put_index (bufsz r) n f;
                           s1 \<leftarrow> indicate (sr_rx_indicate r) (int (serial_fifo_calc_recved_len (bufsz r) f1)) s;
                           Some (r\<lparr>sr_rx := Some (Rx_Fifo f1)\<rparr>, s1) }
             | None \<Rightarrow> None))"

section \<open>The driver\<close>

definition serial_ops :: "'h rt_uart_ops \<Rightarrow> oid \<Rightarrow> serial_env \<Rightarrow>
    ('h rt_serial \<times> kstate, serial_arg, 'h serial_written) rt_device_ops" where
  "serial_ops u i ev = \<lparr>do_init = Some (rt_serial_init u), do_open = Some (rt_serial_open u i ev),
     do_close = Some (rt_serial_close u), do_read = Some (rt_serial_read u),
     do_write = Some (rt_serial_write u i), do_control = Some (rt_serial_control u ev)\<rparr>"

text \<open>Registering the device also clears the callbacks.\<close>

definition rt_hw_serial_register :: "nat \<Rightarrow> u8 list \<Rightarrow> u32 \<Rightarrow> 'h rt_serial \<Rightarrow> registry \<times> (nat \<Rightarrow> rt_device) \<Rightarrow>
    (int \<times> 'h rt_serial \<times> registry \<times> (nat \<Rightarrow> rt_device)) option" where
  "rt_hw_serial_register a name flag r rs =
     do { (e, rs1) \<leftarrow> rt_device_register (Some a) name (ucast flag) rs;
          Some (e, r\<lparr>sr_rx_indicate := None, sr_tx_complete := None\<rparr>, rs1) }"

end
