(* ===== verification/SerialDev.thy ===== *)
theory SerialDev
  imports Serial
begin

unbundle bit_operations_syntax

text \<open>
  The serial device as its clients see it: sessions of opens and closes, polled output, the control
  commands.
\<close>

section \<open>Sessions\<close>

lemma flag_bits:
  "(x AND RT_DEVICE_FLAG_INT_RX = 0) = (\<not> bit x 8)" "(x AND RT_DEVICE_FLAG_DMA_RX = 0) = (\<not> bit x 9)"
  "(x AND RT_DEVICE_FLAG_INT_TX = 0) = (\<not> bit x 10)" "(x AND RT_DEVICE_FLAG_DMA_TX = 0) = (\<not> bit x 11)"
  "(x AND RT_DEVICE_FLAG_STREAM = 0) = (\<not> bit x 6)" for x :: u16
  using and_exp_eq_0_iff_not_bit [of x 8] and_exp_eq_0_iff_not_bit [of x 9] and_exp_eq_0_iff_not_bit [of x 10]
    and_exp_eq_0_iff_not_bit [of x 11] and_exp_eq_0_iff_not_bit [of x 6] by simp_all

lemma flag_set_bits:
  "bit (x OR RT_DEVICE_FLAG_INT_RX) n = (bit x n \<or> n = 8)" "bit (x OR RT_DEVICE_FLAG_DMA_RX) n = (bit x n \<or> n = 9)"
  "bit (x OR RT_DEVICE_FLAG_INT_TX) n = (bit x n \<or> n = 10)" "bit (x OR RT_DEVICE_FLAG_DMA_TX) n = (bit x n \<or> n = 11)"
  "bit (x OR RT_DEVICE_FLAG_STREAM) n = (bit x n \<or> n = 6)" "bit (x OR RT_DEVICE_OFLAG_OPEN) n = (bit x n \<or> n = 3)"
  for x :: u16
proof -
  have e: "bit (2 ^ k :: u16) n = (n = k)" if "k < 16" for k using that by (auto simp: bit_exp_iff)
  show "bit (x OR RT_DEVICE_FLAG_INT_RX) n = (bit x n \<or> n = 8)" "bit (x OR RT_DEVICE_FLAG_DMA_RX) n = (bit x n \<or> n = 9)"
    "bit (x OR RT_DEVICE_FLAG_INT_TX) n = (bit x n \<or> n = 10)" "bit (x OR RT_DEVICE_FLAG_DMA_TX) n = (bit x n \<or> n = 11)"
    "bit (x OR RT_DEVICE_FLAG_STREAM) n = (bit x n \<or> n = 6)" "bit (x OR RT_DEVICE_OFLAG_OPEN) n = (bit x n \<or> n = 3)"
    using e [of 8] e [of 9] e [of 10] e [of 11] e [of 6] e [of 3] by (auto simp: bit_or_iff device_flags)
qed

lemma low_byte_bits: "bit (x AND 0xff :: u16) n = (bit x n \<and> n < 8)"
proof -
  have e: "(0xff :: u16) = mask 8" by (simp add: mask_eq_exp_minus_1)
  show ?thesis unfolding e by (auto simp: bit_and_iff bit_mask_iff dest: bit_imp_le_length)
qed

lemma clear_bits: "bit (dv_open_flag (clear_open_flag x v)) n = (bit (dv_open_flag v) n \<and> \<not> bit x n)"
  by (auto simp: clear_open_flag_def bit_and_iff bit_not_iff dest: bit_imp_le_length)

lemma clear_open_flag_sel [simp]:
  "dv_flag (clear_open_flag x v) = dv_flag v" "dv_ref_count (clear_open_flag x v) = dv_ref_count v"
  by (simp_all add: clear_open_flag_def)

lemmas serial_flags = flag_bits flag_set_bits low_byte_bits clear_bits

text \<open>What all clients that open the device with the same flags rely on.\<close>

definition rx_mode :: "u16 \<Rightarrow> rt_device \<Rightarrow> 'h rt_serial \<Rightarrow> bool" where
  "rx_mode oflag v r \<longleftrightarrow>
     bit (dv_open_flag v) 8 = bit oflag 8 \<and> bit (dv_open_flag v) 9 = (bit oflag 9 \<and> \<not> bit oflag 8) \<and>
     (sr_rx r \<noteq> None \<longleftrightarrow> bit oflag 8 \<or> bit oflag 9)"

definition tx_mode :: "u16 \<Rightarrow> rt_device \<Rightarrow> 'h rt_serial \<Rightarrow> bool" where
  "tx_mode oflag v r \<longleftrightarrow>
     bit (dv_open_flag v) 10 = bit oflag 10 \<and> bit (dv_open_flag v) 11 = (bit oflag 11 \<and> \<not> bit oflag 10) \<and>
     (sr_tx r \<noteq> None \<longleftrightarrow> bit oflag 10 \<or> bit oflag 11)"

definition serial_busy :: "u16 \<Rightarrow> 'h serial \<Rightarrow> bool" where
  "serial_busy oflag d \<longleftrightarrow> serial_supports oflag (fst d) \<and> rx_mode oflag (fst d) (fst (snd d)) \<and>
     tx_mode oflag (fst d) (fst (snd d))"

definition serial_idle :: "u16 \<Rightarrow> 'h serial \<Rightarrow> bool" where
  "serial_idle oflag d \<longleftrightarrow> serial_supports oflag (fst d) \<and> sr_rx (fst (snd d)) = None \<and> sr_tx (fst (snd d)) = None"

lemma hw_control_rx [simp]: "sr_rx (hw_control u c x r) = sr_rx r" "sr_tx (hw_control u c x r) = sr_tx r"
  by (simp_all add: hw_control_def)

lemma serial_open_rx_mode:
  assumes "se_room ev" "dv_open_flag v = oflag AND 0xff"
    "sr_rx r = None \<or> (sr_rx r \<noteq> None \<longleftrightarrow> bit oflag 8 \<or> bit oflag 9)"
  shows "\<exists>v' r'. serial_open_rx u ev oflag (v, r) = Some (v', r') \<and> rx_mode oflag v' r' \<and> sr_tx r' = sr_tx r \<and>
    v' = v\<lparr>dv_open_flag := dv_open_flag v'\<rparr> \<and> \<not> bit (dv_open_flag v') 10 \<and> \<not> bit (dv_open_flag v') 11"
  using assms
  by (cases "bit oflag 8"; cases "bit oflag 9"; cases "bufsz r = 0")
    (auto simp: serial_open_rx_def rx_mode_def serial_flags Let_def)

lemma serial_open_tx_mode:
  assumes "se_room ev" "\<not> bit (dv_open_flag v) 10" "\<not> bit (dv_open_flag v) 11" "rx_mode oflag v r"
    "sr_tx r = None \<or> (sr_tx r \<noteq> None \<longleftrightarrow> bit oflag 10 \<or> bit oflag 11)"
  shows "\<exists>v' r' s'. serial_open_tx u i ev oflag (v, r, s) = Some (v', r', s') \<and> rx_mode oflag v' r' \<and>
    tx_mode oflag v' r' \<and> v' = v\<lparr>dv_open_flag := dv_open_flag v'\<rparr>"
  using assms
  by (cases "bit oflag 10"; cases "bit oflag 11")
    (auto simp: serial_open_tx_def rx_mode_def tx_mode_def serial_flags Let_def split: prod.splits)

lemma rt_serial_open_spec:
  assumes "se_room ev" "serial_idle oflag d \<or> serial_busy oflag d"
  shows "\<exists>d'. rt_serial_open u i ev oflag d = Some (RT_EOK, d') \<and> serial_busy oflag d' \<and>
    dv_flag (fst d') = dv_flag (fst d) \<and> dv_ref_count (fst d') = dv_ref_count (fst d)"
proof -
  obtain v r s where d: "d = (v, r, s)" by (cases d) auto
  have sup: "serial_supports oflag v" using assms(2) by (auto simp: d serial_idle_def serial_busy_def)
  let ?v = "v\<lparr>dv_open_flag := oflag AND 0xff\<rparr>"
  obtain v1 r1 where 1: "serial_open_rx u ev oflag (?v, r) = Some (v1, r1)" "rx_mode oflag v1 r1"
    "sr_tx r1 = sr_tx r" "v1 = ?v\<lparr>dv_open_flag := dv_open_flag v1\<rparr>" "\<not> bit (dv_open_flag v1) 10"
    "\<not> bit (dv_open_flag v1) 11"
    using serial_open_rx_mode [OF assms(1), of ?v oflag r u] assms(2)
    by (auto simp: d serial_idle_def serial_busy_def rx_mode_def)
  obtain v2 r2 s2 where 2: "serial_open_tx u i ev oflag (v1, r1, s) = Some (v2, r2, s2)" "rx_mode oflag v2 r2"
    "tx_mode oflag v2 r2" "v2 = v1\<lparr>dv_open_flag := dv_open_flag v2\<rparr>"
    using serial_open_tx_mode [OF assms(1) 1(5,6,2), of u i s] assms(2) 1(3)
    by (auto simp: d serial_idle_def serial_busy_def tx_mode_def)
  have same: "dv_flag v2 = dv_flag v" "dv_ref_count v2 = dv_ref_count v"
    by (subst 2(4), subst 1(4), simp)+
  define st where "st = (if oflag AND RT_DEVICE_FLAG_STREAM \<noteq> 0 \<or> dv_open_flag v AND RT_DEVICE_FLAG_STREAM \<noteq> 0
    then RT_DEVICE_FLAG_STREAM else 0)"
  have st: "bit (dv_open_flag v2 OR st) n = bit (dv_open_flag v2) n" if "n \<noteq> 6" for n
    using that by (simp add: st_def flag_set_bits)
  let ?d = "(v2\<lparr>dv_open_flag := dv_open_flag v2 OR st\<rparr>, r2, s2)"
  have "rt_serial_open u i ev oflag d = Some (RT_EOK, ?d)"
    using sup 1(1) 2(1) by (simp add: rt_serial_open_def d st_def)
  moreover have "serial_busy oflag ?d"
    using sup same 2(2,3) st by (simp add: serial_busy_def serial_supports_def rx_mode_def tx_mode_def)
  ultimately show ?thesis using same by (auto simp: d)
qed

lemma rt_serial_close_spec:
  assumes "serial_busy oflag d" "dv_ref_count (fst d) = 0"
  shows "\<exists>d'. rt_serial_close u d = Some (RT_EOK, d') \<and> serial_idle oflag d' \<and>
    dv_flag (fst d') = dv_flag (fst d) \<and> dv_ref_count (fst d') = 0"
proof -
  obtain v r s where d: "d = (v, r, s)" by (cases d) auto
  have m: "rx_mode oflag v r" "tx_mode oflag v r" "serial_supports oflag v" "dv_ref_count v = 0"
    using assms by (simp_all add: d serial_busy_def)
  have bits: "bit RT_DEVICE_FLAG_INT_RX n = (n = 8)" "bit RT_DEVICE_FLAG_DMA_RX n = (n = 9)"
    "bit RT_DEVICE_FLAG_INT_TX n = (n = 10)" "bit RT_DEVICE_FLAG_DMA_TX n = (n = 11)" for n
    using flag_set_bits(1-4) [of 0 n] by simp_all
  obtain v1 r1 where 1: "serial_close_rx u (v, r) = Some (v1, r1)" "sr_rx r1 = None" "tx_mode oflag v1 r1"
    "dv_flag v1 = dv_flag v" "dv_ref_count v1 = dv_ref_count v"
    using m by (cases "bit oflag 8"; cases "bit oflag 9")
      (auto simp: serial_close_rx_def rx_mode_def tx_mode_def serial_flags bits)
  obtain v2 r2 where 2: "serial_close_tx u (v1, r1) = Some (v2, r2)" "sr_rx r2 = None" "sr_tx r2 = None"
    "dv_flag v2 = dv_flag v1" "dv_ref_count v2 = dv_ref_count v1"
    using 1(2,3) by (cases "bit oflag 10"; cases "bit oflag 11")
      (auto simp: serial_close_tx_def tx_mode_def serial_flags bits)
  then show ?thesis
    using m 1 by (auto simp: d rt_serial_close_def serial_idle_def serial_supports_def)
qed

text \<open>The environment in which the heap has room.\<close>

definition roomy :: "serial_env \<Rightarrow> serial_env" where "roomy ev = ev\<lparr>se_room := True\<rparr>"

interpretation serial_driver: device_driver "serial_ops u i (roomy ev)" oflag "serial_idle oflag" "serial_busy oflag"
  "rt_serial_open u i (roomy ev)" "rt_serial_close u"
proof
  show "do_open (serial_ops u i (roomy ev)) = Some (rt_serial_open u i (roomy ev))"
    "do_close (serial_ops u i (roomy ev)) = Some (rt_serial_close u)" by (simp_all add: serial_ops_def)
  show "\<exists>d'. rt_serial_open u i (roomy ev) oflag d = Some (RT_EOK, d') \<and> serial_busy oflag d' \<and>
      dv_flag (fst d') = dv_flag (fst d) \<and> dv_ref_count (fst d') = dv_ref_count (fst d)"
    if "serial_idle oflag d \<or> serial_busy oflag d" for d :: "'a serial"
    by (rule rt_serial_open_spec) (use that in \<open>simp_all add: roomy_def\<close>)
  show "\<exists>d'. rt_serial_close u d = Some (RT_EOK, d') \<and> serial_idle oflag d' \<and>
      dv_flag (fst d') = dv_flag (fst d) \<and> dv_ref_count (fst d') = 0"
    if "serial_busy oflag d" "dv_ref_count (fst d) = 0" for d :: "'a serial"
    by (rule rt_serial_close_spec) (use that in simp_all)
qed (auto simp: serial_busy_def serial_idle_def serial_supports_def rx_mode_def tx_mode_def upd_dev_def
  flag_set_bits)

end
