(* ===== verification/SerialCtl.thy ===== *)
theory SerialCtl
  imports SerialDev
begin

unbundle bit_operations_syntax

text \<open>
  The control commands of the serial driver, what two clients with different flags do to each other,
  and the receive interrupt over the UART's bytes.
\<close>

section \<open>Terminal settings\<close>

text \<open>The configurations the terminal interface can express.\<close>

definition termios_config :: "serial_configure \<Rightarrow> bool" where
  "termios_config c \<longleftrightarrow> sc_baud_rate c \<in> snd ` set speed_table \<and> sc_data_bits c \<in> {5, 6, 7, 8} \<and>
     sc_stop_bits c \<in> {0, 1} \<and> sc_parity c \<in> {0, 1, 2}"

lemma get_baudrate_speed: "b \<in> snd ` set speed_table \<Longrightarrow> get_baudrate (get_speed b) = b \<and> get_speed b AND NOT CBAUD = 0"
  by (auto simp: speed_table_def get_speed_def get_baudrate_def)

lemma cflag_bits: "(x AND CSTOPB = 0) = (\<not> bit x 6)" "(x AND PARENB = 0) = (\<not> bit x 8)"
  "(x AND PARODD = 0) = (\<not> bit x 9)" for x :: u32
  using and_exp_eq_0_iff_not_bit [of x 6] and_exp_eq_0_iff_not_bit [of x 8] and_exp_eq_0_iff_not_bit [of x 9]
  by simp_all

text \<open>The flags but for the speed, and what the masks make of them.\<close>

definition cflag_of :: "serial_configure \<Rightarrow> u32" where
  "cflag_of c =
     (if sc_data_bits c = 6 then CS6 else if sc_data_bits c = 7 then CS7 else if sc_data_bits c = 8 then CS8 else 0)
     OR (if sc_stop_bits c = 1 then CSTOPB else 0)
     OR (if sc_parity c = 2 then PARENB else if sc_parity c = 1 then PARODD OR PARENB else 0)"

lemma tc_get_cflag: "c_cflag (tc_get console c) =
    (if get_speed (sc_baud_rate c) AND NOT CBAUD \<noteq> 0 then cflag_of c
     else (cflag_of c AND NOT CBAUD) OR get_speed (sc_baud_rate c))"
  by (simp add: tc_get_def cflag_of_def cfsetospeed_def Let_def)

lemma cflag_masks:
  assumes "sc_data_bits c \<in> {5, 6, 7, 8}" "sc_stop_bits c \<in> {0, 1}" "sc_parity c \<in> {0, 1, 2}"
  shows "cflag_of c AND CBAUD = 0"
    "cflag_of c AND CSIZE = (if sc_data_bits c = 5 then CS5 else if sc_data_bits c = 6 then CS6
                             else if sc_data_bits c = 7 then CS7 else CS8)"
    "bit (cflag_of c) 6 = (sc_stop_bits c = 1)" "bit (cflag_of c) 8 = (sc_parity c \<noteq> 0)"
    "bit (cflag_of c) 9 = (sc_parity c = 1)"
  using assms by (auto simp: cflag_of_def)

lemma disjoint_masks:
  fixes x m :: "'a::len word"
  assumes "x AND m = 0"
  shows "x AND NOT m = x"
proof (rule bit_word_eqI)
  fix n assume "n < LENGTH('a)"
  moreover have "bit (x AND m) n = False" using assms by simp
  ultimately show "bit (x AND NOT m) n = bit x n" by (auto simp: bit_and_iff bit_not_iff)
qed

lemma speed_masks:
  assumes "s AND NOT CBAUD = 0"
  shows "s AND CBAUD = s" "s AND CSIZE = 0" "\<not> bit s 6" "\<not> bit s 8" "\<not> bit s 9"
proof -
  show c: "s AND CBAUD = s" using disjoint_masks [OF assms] by simp
  have "s AND CSIZE = s AND (CBAUD AND CSIZE)" unfolding and.assoc [symmetric] c by (rule refl)
  also have "CBAUD AND CSIZE = 0" by simp
  finally show "s AND CSIZE = 0" by simp
  have "bit s n = (bit s n \<and> bit CBAUD n)" for n using c by (metis bit_and_iff)
  from this [of 6] this [of 8] this [of 9] show "\<not> bit s 6" "\<not> bit s 8" "\<not> bit s 9" by simp_all
qed

text \<open>Setting what was read configures the UART as it is.\<close>

lemma tc_set_get:
  assumes "termios_config c"
  shows "tc_set (tc_get console c) c = c"
proof -
  let ?s = "get_speed (sc_baud_rate c)"
  have b: "get_baudrate ?s = sc_baud_rate c" "?s AND NOT CBAUD = 0"
    using get_baudrate_speed assms by (auto simp: termios_config_def)
  have d: "sc_data_bits c \<in> {5, 6, 7, 8}" "sc_stop_bits c \<in> {0, 1}" "sc_parity c \<in> {0, 1, 2}"
    using assms by (simp_all add: termios_config_def)
  note k = cflag_masks [OF d]
  have f: "c_cflag (tc_get console c) = cflag_of c OR ?s"
    using b(2) disjoint_masks [OF k(1)] by (simp add: tc_get_cflag)
  have m: "c_cflag (tc_get console c) AND CBAUD = ?s" "c_cflag (tc_get console c) AND CSIZE = cflag_of c AND CSIZE"
    "bit (c_cflag (tc_get console c)) n = bit (cflag_of c) n" if "n = 6 \<or> n = 8 \<or> n = 9" for n
    using that speed_masks [OF b(2)] k(1) by (auto simp: f bit.conj_disj_distrib2 bit_or_iff)
  have "tc_set (tc_get console c) c = c\<lparr>sc_baud_rate := sc_baud_rate c, sc_data_bits := sc_data_bits c,
      sc_stop_bits := sc_stop_bits c, sc_parity := sc_parity c\<rparr>"
    using m(1) [of 6] m(2) [of 6] m(3) [of 6] m(3) [of 8] m(3) [of 9] b(1) d k(2-5)
    by (simp only: tc_set_def cfgetospeed_def cflag_bits Let_def simp_thms) auto
  then show ?thesis by simp
qed

text \<open>Nine data bits are reported as five.\<close>

lemma nine_bits_become_five:
  "sc_data_bits c = 9 \<Longrightarrow> sc_baud_rate c \<in> snd ` set speed_table \<Longrightarrow> sc_stop_bits c = 0 \<Longrightarrow> sc_parity c = 0 \<Longrightarrow>
    sc_data_bits (tc_set (tc_get console c) c) = 5"
proof -
  assume a: "sc_data_bits c = 9" "sc_baud_rate c \<in> snd ` set speed_table" "sc_stop_bits c = 0" "sc_parity c = 0"
  then have s: "get_speed (sc_baud_rate c) AND NOT CBAUD = 0" using get_baudrate_speed by blast
  have "c_cflag (tc_get console c) AND CSIZE = 0"
    using a speed_masks(2) [OF s] s by (simp add: tc_get_cflag cflag_of_def)
  then show ?thesis by (simp add: tc_set_def Let_def)
qed

section \<open>Clients with different flags\<close>

text \<open>
  A second client that does not ask for a receive mode takes it from the first: from then on reads poll
  the UART, and the last close leaves the receive buffer allocated.
\<close>

lemma second_open_drops_mode:
  assumes busy: "serial_busy oflag (v, r, s)" and rx: "bit oflag 8 \<or> bit oflag 9" and room: "se_room ev"
    and sup: "serial_supports oflag2 v" and no: "\<not> bit oflag2 8" "\<not> bit oflag2 9" "\<not> bit oflag2 10" "\<not> bit oflag2 11"
    and tx: "sr_tx r = None"
  shows "\<exists>v'. rt_serial_open u i ev oflag2 (v, r, s) = Some (RT_EOK, v', r, s) \<and>
    rt_serial_read u pos buf (Suc n) (v', r, s) =
      (case serial_poll_rx u (Suc n) (sr_hw r) of (xs, h) \<Rightarrow> Some ((length xs, xs, None), v', r\<lparr>sr_hw := h\<rparr>, s)) \<and>
    rt_serial_close u (v'\<lparr>dv_ref_count := 0\<rparr>, r, s) = Some (RT_EOK, v'\<lparr>dv_ref_count := 0\<rparr>, r, s) \<and> sr_rx r \<noteq> None"
proof -
  have r: "sr_rx r \<noteq> None" using busy rx by (simp add: serial_busy_def rx_mode_def)
  define st where "st = (if oflag2 AND RT_DEVICE_FLAG_STREAM \<noteq> 0 \<or> dv_open_flag v AND RT_DEVICE_FLAG_STREAM \<noteq> 0
    then RT_DEVICE_FLAG_STREAM else 0)"
  let ?v = "v\<lparr>dv_open_flag := (oflag2 AND 0xff) OR st\<rparr>"
  have bits: "\<not> bit ((oflag2 AND 0xff) OR st) n" if "n \<in> {8, 9, 10, 11}" for n
    using that by (auto simp: st_def flag_set_bits low_byte_bits)
  have "rt_serial_open u i ev oflag2 (v, r, s) = Some (RT_EOK, ?v, r, s)"
    using sup r no tx
    by (simp add: rt_serial_open_def serial_open_rx_def serial_open_tx_def flag_bits st_def Let_def)
  moreover have "rt_serial_read u pos buf (Suc n) (?v, r, s) =
      (case serial_poll_rx u (Suc n) (sr_hw r) of (xs, h) \<Rightarrow> Some ((length xs, xs, None), ?v, r\<lparr>sr_hw := h\<rparr>, s))"
    using bits [of 8] bits [of 9] by (simp add: rt_serial_read_def flag_bits del: serial_poll_rx.simps)
  moreover have "rt_serial_close u (?v\<lparr>dv_ref_count := 0\<rparr>, r, s) = Some (RT_EOK, ?v\<lparr>dv_ref_count := 0\<rparr>, r, s)"
    using bits [of 8] bits [of 9] bits [of 10] bits [of 11]
    by (simp add: rt_serial_close_def serial_close_rx_def serial_close_tx_def flag_bits)
  ultimately show ?thesis using r by blast
qed

section \<open>The receive interrupt\<close>

text \<open>The UART holds the bytes \<open>xs\<close>, and is empty after them.\<close>

fun uart_holds :: "'h rt_uart_ops \<Rightarrow> u8 list \<Rightarrow> 'h \<Rightarrow> 'h \<Rightarrow> bool" where
  "uart_holds u [] h h' = (uo_getc u h = (- 1, h'))"
| "uart_holds u (x # xs) h h' =
     (\<exists>h1. uo_getc u h = (uint x, h1) \<and> uart_holds u xs h1 h')"

lemma serial_isr_rx_bytes:
  "uart_holds u xs h h' \<Longrightarrow> serial_rx_isr z xs f = Some f' \<Longrightarrow> serial_isr_rx u z f h = Some (f', h')"
proof (induction xs arbitrary: f h)
  case Nil
  then show ?case by (subst serial_isr_rx.simps) simp
next
  case (Cons x xs)
  then obtain h1 f1 where h1: "uo_getc u h = (uint x, h1)" "uart_holds u xs h1 h'"
    "serial_rx_store z x f = Some f1" "serial_rx_isr z xs f1 = Some f'"
    by (auto split: Option.bind_splits)
  have "uint x \<noteq> - 1" using uint_ge_0 [of x] by linarith
  then show ?case using h1 Cons.IH by (subst serial_isr_rx.simps) simp
qed

text \<open>From the interrupt to the reader.\<close>

lemma receive_then_read:
  assumes inv: "int_inv (bufsz r) f" and rx: "sr_rx r = Some (Rx_Fifo f)" and cb: "sr_rx_indicate r = None"
    and hw: "uart_holds u xs (sr_hw r) h'" and fit: "length xs \<le> bufsz r - 1"
    and flag: "dv_open_flag v AND RT_DEVICE_FLAG_INT_RX \<noteq> 0" and n: "0 < n"
  shows "\<exists>r1 r2 f2. rt_hw_serial_isr u i RX_IND (r, s) = Some (r1, s) \<and>
    rt_serial_read u pos buf n (v, r1, s) =
      Some ((min n (length (lastn (bufsz r - 1) (int_content (bufsz r) f @ xs))),
             take n (lastn (bufsz r - 1) (int_content (bufsz r) f @ xs)), None), v, r2, s) \<and>
    sr_rx r2 = Some (Rx_Fifo f2) \<and>
    int_content (bufsz r) f2 = drop n (lastn (bufsz r - 1) (int_content (bufsz r) f @ xs))"
proof -
  let ?z = "bufsz r"
  obtain f1 where f1: "serial_rx_isr ?z xs f = Some f1" "int_inv ?z f1"
    "int_content ?z f1 = lastn (?z - 1) (int_content ?z f @ xs)"
    using serial_int.received [OF inv fit] by blast
  obtain f2 where f2: "serial_int_rx ?z n f1 = Some (take n (int_content ?z f1), f2)"
    "int_content ?z f2 = drop n (int_content ?z f1)"
    using serial_int.fetched [OF f1(2)] by blast
  let ?r1 = "r\<lparr>sr_rx := Some (Rx_Fifo f1), sr_hw := h'\<rparr>"
  have "rt_hw_serial_isr u i RX_IND (r, s) = Some (?r1, s)"
    using serial_isr_rx_bytes [OF hw f1(1)] rx cb by (simp add: rt_hw_serial_isr_def indicate_def Let_def)
  moreover have "bufsz ?r1 = ?z" by (simp add: bufsz_def)
  then have "rt_serial_read u pos buf n (v, ?r1, s) =
      Some ((min n (length (int_content ?z f1)), take n (int_content ?z f1), None), v,
            ?r1\<lparr>sr_rx := Some (Rx_Fifo f2)\<rparr>, s)"
    using n f2(1) flag by (simp add: rt_serial_read_def min.commute)
  ultimately show ?thesis using f1(3) f2(2) by auto
qed

end
