(* ===== verification/SerialTx.thy ===== *)
theory SerialTx
  imports SerialDev
begin

unbundle bit_operations_syntax

text \<open>
  What the serial driver puts on the line: polled output, the interrupt-driven writer, and the DMA
  queue with its two writers' race.
\<close>

section \<open>Polled output\<close>

text \<open>An UART whose state shows what it was given.\<close>

definition logs_putc :: "'h rt_uart_ops \<Rightarrow> ('h \<Rightarrow> u8 list) \<Rightarrow> bool" where
  "logs_putc u out \<longleftrightarrow> (\<forall>x h. out (snd (uo_putc u x h)) = out h @ [x])"

definition polite :: "bool \<Rightarrow> u8 list \<Rightarrow> u8 list" where
  "polite stream xs = concat (map (\<lambda>x. if x = 10 \<and> stream then [13, 10] else [x]) xs)"

lemma serial_poll_tx_out:
  "logs_putc u out \<Longrightarrow> out (serial_poll_tx u stream xs h) = out h @ polite stream xs"
  by (induction u stream xs h rule: serial_poll_tx.induct) (auto simp: logs_putc_def polite_def Let_def)

section \<open>The DMA queue\<close>

definition logs_dma :: "'h rt_uart_ops \<Rightarrow> ('h \<Rightarrow> item list) \<Rightarrow> bool" where
  "logs_dma u out \<longleftrightarrow> (\<exists>f. uo_dma_transmit u = Some f \<and> (\<forall>x h. out (f False x h) = out h @ [x]))"

text \<open>
  The invariant of a line on which every writer finishes before the next begins: the controller runs
  exactly when the queue is not empty, and then sends its first item.
\<close>

definition dma_line :: "('h \<Rightarrow> item list) \<Rightarrow> item list \<Rightarrow> item list \<Rightarrow> rt_serial_tx_dma \<Rightarrow> 'h \<Rightarrow> kstate \<Rightarrow> bool" where
  "dma_line out written sent td h s \<longleftrightarrow>
     dq_inv (td_queue td, s) \<and> dq_size (td_queue td) = 8 \<and>
     td_activated td = (dq_items (td_queue td) \<noteq> []) \<and>
     written = sent @ dq_items (td_queue td) \<and> out h = sent @ take 1 (dq_items (td_queue td))"

lemma dq_items_empty: "dq_wf q \<Longrightarrow> (dq_get_index q = dq_put_index q) = (dq_items q = [])"
proof -
  assume "dq_wf q"
  then have "unat (dq_get_index q) \<le> unat (dq_put_index q)" by (simp add: dq_wf_def word_le_nat_alt)
  moreover have "(dq_items q = []) = (unat (dq_put_index q) - unat (dq_get_index q) = 0)"
    using length_dq_items [of q] by (metis length_0_conv)
  ultimately show ?thesis by (auto simp: word_unat_eq_iff)
qed

lemma dma_write:
  assumes l: "dma_line out written sent td h s" and u: "logs_dma u out"
    and room: "length (dq_items (td_queue td)) < 8" and nw: "dq_put_index (td_queue td) \<noteq> - 1"
  shows "\<exists>td' h' s'. serial_dma_tx u i x td h s = Some (Ret ((unat (snd x), None), td', h') s') \<and>
    dma_line out (written @ [x]) sent td' h' s' \<and> dq_items (td_queue td') = dq_items (td_queue td) @ [x] \<and>
    dq_put_index (td_queue td') = dq_put_index (td_queue td) + 1"
proof -
  obtain f where f: "uo_dma_transmit u = Some f" "\<And>x h. out (f False x h) = out h @ [x]"
    using u by (auto simp: logs_dma_def)
  have inv: "dq_inv (td_queue td, s)" "dq_size (td_queue td) = 8" using l by (simp_all add: dma_line_def)
  obtain q s' where q: "rt_data_queue_push i x RT_WAITING_FOREVER (td_queue td, s) = Some (Ret (RT_EOK, q) s')"
    "dq_inv (q, s')" "dq_items q = dq_items (td_queue td) @ [x]" "dq_size q = dq_size (td_queue td)"
    "dq_put_index q = dq_put_index (td_queue td) + 1"
    using rt_data_queue_push_spec [OF inv(1) _ nw, of i x RT_WAITING_FOREVER] room inv(2) by fastforce
  show ?thesis
  proof (cases "td_activated td")
    case True
    then show ?thesis
      using l q inv by (cases "dq_items (td_queue td)")
        (auto simp: serial_dma_tx_def dma_tx_push_def dma_tx_pushed_def dma_tx_start_def dma_line_def)
  next
    case False
    then have "dq_items (td_queue td) = []" using l by (simp add: dma_line_def)
    then show ?thesis
      using l q inv f False
      by (auto simp: serial_dma_tx_def dma_tx_push_def dma_tx_pushed_def dma_tx_start_def dma_line_def)
  qed
qed

lemma dma_tx_done_spec:
  assumes inv: "dq_inv (td_queue td, s)" and ne: "dq_items (td_queue td) = x # xs" and f: "uo_dma_transmit u = Some f"
  shows "\<exists>q s'. dma_tx_done u i (td, h) s =
      Some (Some x, (td\<lparr>td_queue := q, td_activated := xs \<noteq> []\<rparr>, if xs = [] then h else f False (hd xs) h), s') \<and>
    dq_inv (q, s') \<and> dq_items q = xs \<and> dq_size q = dq_size (td_queue td) \<and>
    dq_put_index q = dq_put_index (td_queue td)"
proof -
  have ne': "dq_get_index (td_queue td) \<noteq> dq_put_index (td_queue td)" using ne by (auto simp: dq_items_def)
  obtain q s' where q: "rt_data_queue_pop i 0 (td_queue td, s) = Some (Ret (RT_EOK, Some x, q) s')"
    "dq_inv (q, s')" "dq_items q = xs" "dq_size q = dq_size (td_queue td)"
    "dq_put_index q = dq_put_index (td_queue td)"
    using rt_data_queue_pop_spec [OF inv ne', of i 0] ne by auto
  have "rt_data_queue_peak q = Some (if xs = [] then (- 4, None) else (RT_EOK, Some (hd xs)))"
    using dq_items_empty [of q] dq_fetch_wf(1) [of q] q(2,3) by (auto simp: rt_data_queue_peak_def dq_inv_def)
  then show ?thesis using q f by (auto simp: dma_tx_done_def)
qed

lemma dma_done:
  assumes l: "dma_line out written sent td h s" and u: "logs_dma u out"
    and ne: "dq_items (td_queue td) = x # xs"
  shows "\<exists>td' h' s'. dma_tx_done u i (td, h) s = Some (Some x, (td', h'), s') \<and>
    dma_line out written (sent @ [x]) td' h' s' \<and> dq_items (td_queue td') = xs \<and>
    dq_put_index (td_queue td') = dq_put_index (td_queue td)"
proof -
  obtain f where f: "uo_dma_transmit u = Some f" "\<And>x h. out (f False x h) = out h @ [x]"
    using u by (auto simp: logs_dma_def)
  have inv: "dq_inv (td_queue td, s)" using l by (simp add: dma_line_def)
  show ?thesis
    using dma_tx_done_spec [OF inv ne f(1), of i h] l ne f(2) by (cases xs) (auto simp: dma_line_def)
qed

text \<open>Runs of whole writes and of ends of transmissions.\<close>

datatype dma_event = Dma_Write item | Dma_Done

fun dma_run :: "'h rt_uart_ops \<Rightarrow> oid \<Rightarrow> dma_event list \<Rightarrow> rt_serial_tx_dma \<times> 'h \<times> kstate \<Rightarrow>
    (rt_serial_tx_dma \<times> 'h \<times> kstate) option" where
  "dma_run u i [] t = Some t"
| "dma_run u i (Dma_Write x # es) (td, h, s) =
     do { w \<leftarrow> serial_dma_tx u i x td h s;
          (case w of Ret (_, td1, h1) s1 \<Rightarrow> dma_run u i es (td1, h1, s1) | Wait _ _ \<Rightarrow> None) }"
| "dma_run u i (Dma_Done # es) (td, h, s) =
     do { (_, (td1, h1), s1) \<leftarrow> dma_tx_done u i (td, h) s; dma_run u i es (td1, h1, s1) }"

text \<open>No write finds the queue full, and a transmission ends only when one is under way.\<close>

fun dma_fits :: "dma_event list \<Rightarrow> nat \<Rightarrow> bool" where
  "dma_fits [] n = True"
| "dma_fits (Dma_Write x # es) n = (n < 8 \<and> dma_fits es (Suc n))"
| "dma_fits (Dma_Done # es) n = (case n of 0 \<Rightarrow> False | Suc m \<Rightarrow> dma_fits es m)"

fun dma_writes :: "dma_event list \<Rightarrow> item list" where
  "dma_writes [] = []"
| "dma_writes (Dma_Write x # es) = x # dma_writes es"
| "dma_writes (Dma_Done # es) = dma_writes es"

lemma dma_run_line:
  assumes "dma_line out written sent td h s" "logs_dma u out" "dma_fits es (length (dq_items (td_queue td)))"
    "unat (dq_put_index (td_queue td)) + length (dma_writes es) < 2 ^ 16"
  shows "\<exists>td' h' s' sent'. dma_run u i es (td, h, s) = Some (td', h', s') \<and>
    dma_line out (written @ dma_writes es) sent' td' h' s'"
  using assms
proof (induction es arbitrary: written sent td h s)
  case (Cons e es)
  show ?case
  proof (cases e)
    case (Dma_Write x)
    have room: "length (dq_items (td_queue td)) < 8" using Cons.prems(3) Dma_Write by simp
    have nw: "dq_put_index (td_queue td) \<noteq> - 1" by (rule put_not_max) (use Cons.prems(4) Dma_Write in simp)
    obtain td1 h1 s1 where 1: "serial_dma_tx u i x td h s = Some (Ret ((unat (snd x), None), td1, h1) s1)"
      "dma_line out (written @ [x]) sent td1 h1 s1" "dq_items (td_queue td1) = dq_items (td_queue td) @ [x]"
      "dq_put_index (td_queue td1) = dq_put_index (td_queue td) + 1"
      using dma_write [OF Cons.prems(1,2) room nw, of i x] by blast
    have "unat (dq_put_index (td_queue td1)) = unat (dq_put_index (td_queue td)) + 1"
      unfolding 1(4) by (rule unat_plus_one [OF nw])
    then obtain td' h' s' sent' where "dma_run u i es (td1, h1, s1) = Some (td', h', s')"
      "dma_line out ((written @ [x]) @ dma_writes es) sent' td' h' s'"
      using Cons.IH [OF 1(2) Cons.prems(2)] Cons.prems(3,4) 1(3) Dma_Write by auto
    then show ?thesis using 1(1) Dma_Write by auto
  next
    case Dma_Done
    then obtain x xs where ne: "dq_items (td_queue td) = x # xs"
      using Cons.prems(3) by (cases "dq_items (td_queue td)") auto
    obtain td1 h1 s1 where 1: "dma_tx_done u i (td, h) s = Some (Some x, (td1, h1), s1)"
      "dma_line out written (sent @ [x]) td1 h1 s1" "dq_items (td_queue td1) = xs"
      "dq_put_index (td_queue td1) = dq_put_index (td_queue td)"
      using dma_done [OF Cons.prems(1,2) ne, of i] by blast
    have fits: "dma_fits es (length (dq_items (td_queue td1)))"
      using Cons.prems(3) unfolding ne 1(3) Dma_Done by simp
    obtain td' h' s' sent' where "dma_run u i es (td1, h1, s1) = Some (td', h', s')"
      "dma_line out (written @ dma_writes es) sent' td' h' s'"
      using Cons.IH [OF 1(2) Cons.prems(2) fits] Cons.prems(4) 1(4) Dma_Done by auto
    then show ?thesis using 1(1) Dma_Done by auto
  qed
qed auto

text \<open>
  Two writers, the second of which comes in between the push and the start of the first, and then two
  ends of transmissions.
\<close>

definition two_writers :: "'h rt_uart_ops \<Rightarrow> oid \<Rightarrow> item \<Rightarrow> item \<Rightarrow> rt_serial_tx_dma \<times> 'h \<times> kstate \<Rightarrow>
    (rt_serial_tx_dma \<times> 'h \<times> kstate) option" where
  "two_writers u i a b t =
     (case t of (td, h, s) \<Rightarrow>
        do { w1 \<leftarrow> dma_tx_push i a (td, s);
             (case w1 of Wait _ _ \<Rightarrow> None | Ret (_, q1) s1 \<Rightarrow>
                do { w2 \<leftarrow> dma_tx_push i b (td\<lparr>td_queue := q1\<rparr>, s1);
                     (case w2 of Wait _ _ \<Rightarrow> None | Ret (_, q2) s2 \<Rightarrow>
                        do { th1 \<leftarrow> dma_tx_start u b (td\<lparr>td_queue := q2\<rparr>, h);
                             th2 \<leftarrow> dma_tx_start u a th1;
                             (_, th3, s3) \<leftarrow> dma_tx_done u i th2 s2;
                             (_, (td4, h4), s4) \<leftarrow> dma_tx_done u i th3 s3;
                             Some (td4, h4, s4) }) }) })"

lemma two_writers_lose:
  assumes l: "dma_line out sent sent td h s" and u: "logs_dma u out"
    and put: "unat (dq_put_index (td_queue td)) + 2 < 2 ^ 16"
  shows "\<exists>td' h' s'. two_writers u i a b (td, h, s) = Some (td', h', s') \<and> out h' = out h @ [b, b] \<and>
    dq_items (td_queue td') = [] \<and> \<not> td_activated td'"
proof -
  obtain f where f: "uo_dma_transmit u = Some f" "\<And>x h. out (f False x h) = out h @ [x]"
    using u by (auto simp: logs_dma_def)
  have inv: "dq_inv (td_queue td, s)" "dq_size (td_queue td) = 8" "dq_items (td_queue td) = []" "\<not> td_activated td"
    "out h = sent"
    using l by (simp_all add: dma_line_def)
  have nw: "dq_put_index (td_queue td) \<noteq> - 1" by (rule put_not_max) (use put in simp)
  obtain q1 s1 where 1: "rt_data_queue_push i a RT_WAITING_FOREVER (td_queue td, s) = Some (Ret (RT_EOK, q1) s1)"
    "dq_inv (q1, s1)" "dq_items q1 = [a]" "dq_size q1 = 8" "dq_put_index q1 = dq_put_index (td_queue td) + 1"
    using rt_data_queue_push_spec [OF inv(1) _ nw, of i a RT_WAITING_FOREVER] inv(2,3) by fastforce
  have "unat (dq_put_index q1) + 1 < 2 ^ 16" using put unat_plus_one [OF nw] 1(5) by simp
  then have nw1: "dq_put_index q1 \<noteq> - 1" by (rule put_not_max)
  obtain q2 s2 where 2: "rt_data_queue_push i b RT_WAITING_FOREVER (q1, s1) = Some (Ret (RT_EOK, q2) s2)"
    "dq_inv (q2, s2)" "dq_items q2 = [a, b]" "dq_size q2 = 8"
    using rt_data_queue_push_spec [OF 1(2) _ nw1, of i b RT_WAITING_FOREVER] 1(3,4) by fastforce
  let ?td = "td\<lparr>td_queue := q2, td_activated := True\<rparr>"
  obtain q3 s3 where 3: "dma_tx_done u i (?td, f False b h) s2 =
      Some (Some a, (?td\<lparr>td_queue := q3, td_activated := True\<rparr>, f False b (f False b h)), s3)"
    "dq_inv (q3, s3)" "dq_items q3 = [b]"
    using dma_tx_done_spec [of ?td s2 a "[b]" u f i "f False b h"] 2(2,3) f(1) by auto
  let ?td3 = "?td\<lparr>td_queue := q3, td_activated := True\<rparr>"
  obtain q4 s4 where 4: "dma_tx_done u i (?td3, f False b (f False b h)) s3 =
      Some (Some b, (?td3\<lparr>td_queue := q4, td_activated := False\<rparr>, f False b (f False b h)), s4)"
    "dq_inv (q4, s4)" "dq_items q4 = []"
    using dma_tx_done_spec [of ?td3 s3 b "[]" u f i "f False b (f False b h)"] 3(2,3) f(1) by auto
  have "two_writers u i a b (td, h, s) =
      Some (?td3\<lparr>td_queue := q4, td_activated := False\<rparr>, f False b (f False b h), s4)"
    using 1(1) 2(1) 3(1) 4(1) inv(4) f(1) by (simp add: two_writers_def dma_tx_push_def dma_tx_start_def)
  then show ?thesis using f(2) 4(3) by simp
qed

section \<open>The interrupt-driven writer\<close>

text \<open>The UART takes the bytes one after the other.\<close>

fun uart_takes :: "'h rt_uart_ops \<Rightarrow> u8 list \<Rightarrow> 'h \<Rightarrow> 'h \<Rightarrow> bool" where
  "uart_takes u [] h h' = (h' = h)"
| "uart_takes u (x # xs) h h' = (\<exists>e h1. uo_putc u x h = (e, h1) \<and> e \<noteq> - 1 \<and> uart_takes u xs h1 h')"

lemma serial_int_tx_takes:
  "uart_takes u xs h h' \<Longrightarrow> serial_int_tx u i xs c h s = Some (Ret (c, h') s)"
proof (induction xs arbitrary: h)
  case Nil
  then show ?case by (subst serial_int_tx.simps) simp
next
  case (Cons x xs)
  then obtain e h1 where "uo_putc u x h = (e, h1)" "e \<noteq> - 1" "uart_takes u xs h1 h'" by auto
  then show ?case using Cons.IH by (subst serial_int_tx.simps) simp
qed

text \<open>
  A byte the UART refuses makes the writer wait; when the UART reports that it can take more, the writer
  is woken and goes on with the same byte.
\<close>

lemma serial_int_tx_stalls:
  assumes no: "uo_putc u x h = (- 1, h1)" and ok: "kernel_ok s" and fl: "\<not> cp_flag c" and q: "k_q s (cpq i) = []"
    and cur: "k_cur s = Some t" and run: "th_stat s t = RT_THREAD_RUNNING" and isr: "k_nest s = 0"
  shows "\<exists>s'. serial_int_tx u i (x # xs) c h s = Some (Wait (t, x # xs, c, h1) s') \<and> kernel_ok s' \<and>
    th_stat s' t = RT_THREAD_SUSPEND \<and> k_q s' (cpq i) = [t] \<and> t_error (k_thr s' t) = RT_EOK"
proof -
  have "RT_WAITING_FOREVER \<noteq> 0" "RT_WAITING_FOREVER < 0x7fffffff" by (simp_all add: RT_WAITING_FOREVER_def)
  from rt_completion_wait_blocks [OF ok fl q cur run isr this] no show ?thesis
    by (subst serial_int_tx.simps) auto
qed

lemma serial_int_tx_resumes:
  assumes ok: "kernel_ok s" and fl: "\<not> cp_flag c" and q: "k_q s (cpq i) = [t]" and e: "t_error (k_thr s t) = RT_EOK"
    and tx: "sr_tx r = Some (Tx_Fifo c)" and takes: "uart_takes u ys (sr_hw r) h'"
  shows "\<exists>c' s'. rt_hw_serial_isr u i TX_DONE (r, s) = Some (r\<lparr>sr_tx := Some (Tx_Fifo c')\<rparr>, s') \<and> kernel_ok s' \<and>
    (th_stat s' t = RT_THREAD_READY \<or> th_stat s' t = RT_THREAD_RUNNING) \<and>
    serial_int_tx_wake u i (t, ys) c' (sr_hw r) s' = Some (Ret (c, h') s')"
proof -
  obtain s' where s': "rt_completion_done i (c, s) = Some (c\<lparr>cp_flag := True\<rparr>, s')" "kernel_ok s'"
    "th_stat s' t = RT_THREAD_READY \<or> th_stat s' t = RT_THREAD_RUNNING"
    "rt_completion_wait_wake t (c\<lparr>cp_flag := True\<rparr>, s') = (RT_EOK, c\<lparr>cp_flag := False\<rparr>)"
    using rt_completion_done_wakes [OF ok fl q e] by blast
  have c: "c\<lparr>cp_flag := False\<rparr> = c" using fl by simp
  show ?thesis using s' tx c serial_int_tx_takes [OF takes]
    by (intro exI [of _ "c\<lparr>cp_flag := True\<rparr>"] exI [of _ s'])
      (simp add: rt_hw_serial_isr_def serial_int_tx_wake_def)
qed

end
