(* ===== verification/Idle.thy ===== *)
theory Idle
  imports Thread KObject
begin

text \<open>
  The idle thread (src/idle.c): its table of hooks and the cleaning up of closed threads. A thread's
  cleanup function is the client's, a parameter.
\<close>

section \<open>Hooks\<close>

abbreviation RT_EFULL :: int where "RT_EFULL \<equiv> 3"

definition RT_IDEL_HOOK_LIST_SIZE :: nat where "RT_IDEL_HOOK_LIST_SIZE = 4"

definition idle_hook_list :: "nat option list" where
  "idle_hook_list = replicate RT_IDEL_HOOK_LIST_SIZE None"

text \<open>The first slot with a given content gets another; \<open>None\<close> when there is no such slot.\<close>

fun slot_replace :: "nat option \<Rightarrow> nat option \<Rightarrow> nat option list \<Rightarrow> nat option list option" where
  "slot_replace a b [] = None"
| "slot_replace a b (x # xs) = (if x = a then Some (b # xs) else map_option ((#) x) (slot_replace a b xs))"

definition rt_thread_idle_sethook :: "nat option \<Rightarrow> nat option list \<Rightarrow> int \<times> nat option list" where
  "rt_thread_idle_sethook hook l =
     (case slot_replace None hook l of None \<Rightarrow> (- RT_EFULL, l) | Some l1 \<Rightarrow> (RT_EOK, l1))"

definition rt_thread_idle_delhook :: "nat option \<Rightarrow> nat option list \<Rightarrow> int \<times> nat option list" where
  "rt_thread_idle_delhook hook l =
     (case slot_replace hook None l of None \<Rightarrow> (- 6, l) | Some l1 \<Rightarrow> (RT_EOK, l1))"

fun run_hooks :: "(nat \<Rightarrow> kstate \<Rightarrow> kstate option) \<Rightarrow> nat option list \<Rightarrow> kstate \<Rightarrow> kstate option" where
  "run_hooks run [] s = Some s"
| "run_hooks run (None # l) s = run_hooks run l s"
| "run_hooks run (Some h # l) s = do { s1 \<leftarrow> run h s; run_hooks run l s1 }"

section \<open>Cleaning up\<close>

definition idle_cleanup :: "(tid \<Rightarrow> kstate \<Rightarrow> kstate option) \<Rightarrow> tid \<Rightarrow> kstate \<Rightarrow> kstate option" where
  "idle_cleanup cl t s =
     (let s1 = rt_enter_critical (tlist_remove t s)
      in if t_cleanup (k_thr s t) then cl t s1 else Some s1)"

definition object_gone :: "tid \<Rightarrow> kstate \<Rightarrow> kstate" where
  "object_gone t = upd_thr t (\<lambda>h. h\<lparr>t_attached := False\<rparr>)"

text \<open>
  The loop returns after the first thread whose object is static. The memory of a dynamic one goes back
  to the heap, which the state does not show.
\<close>

partial_function (option) rt_thread_idle_excute :: "(tid \<Rightarrow> kstate \<Rightarrow> kstate option) \<Rightarrow> kstate \<Rightarrow> kstate option" where
  "rt_thread_idle_excute cl s =
     (case k_q s DefunctQ of
        [] \<Rightarrow> Some s
      | t # ts \<Rightarrow>
          if k_nest s \<noteq> 0 then None
          else do { s1 \<leftarrow> idle_cleanup cl t s;
                    if t_static (k_thr s1 t) then rt_exit_critical (object_gone t s1)
                    else do { s2 \<leftarrow> rt_exit_critical s1;
                              if t_static (k_thr s2 t) then None
                              else rt_thread_idle_excute cl (object_gone t s2) } })"

text \<open>One pass of \<open>rt_thread_idle_entry\<close>.\<close>

definition rt_thread_idle_pass :: "(nat \<Rightarrow> kstate \<Rightarrow> kstate option) \<Rightarrow> nat option list \<Rightarrow>
    (tid \<Rightarrow> kstate \<Rightarrow> kstate option) \<Rightarrow> kstate \<Rightarrow> kstate option" where
  "rt_thread_idle_pass run l cl s = do { s1 \<leftarrow> run_hooks run l s; rt_thread_idle_excute cl s1 }"

section \<open>The table of hooks\<close>

lemma slot_replace_spec:
  "slot_replace a b l = (if a \<in> set l then Some (takeWhile (\<lambda>x. x \<noteq> a) l @ b # tl (dropWhile (\<lambda>x. x \<noteq> a) l)) else None)"
  by (induction l) auto

text \<open>A hook that was set is taken out again.\<close>

lemma hook_set_del:
  assumes "None \<in> set l" "Some h \<notin> set l"
  shows "\<exists>l1. rt_thread_idle_sethook (Some h) l = (RT_EOK, l1) \<and> Some h \<in> set l1 \<and> length l1 = length l \<and>
    rt_thread_idle_delhook (Some h) l1 = (RT_EOK, l)"
  using assms
proof (induction l)
  case (Cons x l)
  show ?case
  proof (cases "x = None")
    case False
    then obtain l1 where "rt_thread_idle_sethook (Some h) l = (RT_EOK, l1)" "Some h \<in> set l1"
      "length l1 = length l" "rt_thread_idle_delhook (Some h) l1 = (RT_EOK, l)"
      using Cons by auto
    then show ?thesis using False Cons.prems
      by (auto simp: rt_thread_idle_sethook_def rt_thread_idle_delhook_def split: option.splits)
  qed (simp add: rt_thread_idle_sethook_def rt_thread_idle_delhook_def)
qed simp

section \<open>What one call cleans up\<close>

text \<open>The client's cleanup function returns and leaves the kernel's structures and this thread alone.\<close>

definition cleanup_ok :: "(tid \<Rightarrow> kstate \<Rightarrow> kstate option) \<Rightarrow> bool" where
  "cleanup_ok cl \<longleftrightarrow> (\<forall>t s. kernel_inv s \<longrightarrow> (\<exists>s'. cl t s = Some s' \<and> kernel_inv s' \<and>
     k_q s' DefunctQ = k_q s DefunctQ \<and> k_lock s' = k_lock s \<and> k_nest s' = k_nest s \<and>
     th_stat s' t = th_stat s t \<and>
     (\<forall>u. t_static (k_thr s' u) = t_static (k_thr s u) \<and> t_attached (k_thr s' u) = t_attached (k_thr s u))))"

lemma defunct_removed:
  assumes inv: "kernel_inv s" and q: "k_q s DefunctQ = t # ts"
  shows "kernel_inv (tlist_remove t s)" "k_q (tlist_remove t s) DefunctQ = ts" "th_stat s t = RT_THREAD_CLOSE"
proof -
  note K = kernel_invD [OF inv]
  note D = table_invD [OF K(2)]
  show st: "th_stat s t = RT_THREAD_CLOSE" using D(12) [of t] q by simp
  have only: "filter (\<lambda>x. x \<noteq> t) (k_q s y) = k_q s y" if "y \<noteq> DefunctQ" for y
    using D(2) [of t DefunctQ y] q that by (intro filter_neq_idle) auto
  show ts: "k_q (tlist_remove t s) DefunctQ = ts" using D(1) [of DefunctQ] q by (simp add: filter_neq_idle)
  have sub: "set (k_q (tlist_remove t s) y) \<subseteq> set (k_q s y)" for y by auto
  have tab: "table_inv (tlist_remove t s)"
  proof (rule table_invI)
    fix y y' u p j
    show "distinct (k_q (tlist_remove t s) y)" using D(1) by simp
    show "y = y'" if "u \<in> set (k_q (tlist_remove t s) y)" "u \<in> set (k_q (tlist_remove t s) y')"
      using that sub D(2) by blast
    show "th_stat (tlist_remove t s) u = RT_THREAD_READY \<and> th_prio (tlist_remove t s) u = p"
      if "u \<in> set (k_q (tlist_remove t s) (ReadyQ p))" using that D(3,4) [of u p] by simp
    show "u \<in> set (k_q (tlist_remove t s) (ReadyQ (th_prio (tlist_remove t s) u)))"
      if "th_stat (tlist_remove t s) u = RT_THREAD_READY" using that D(5) [of u] st by auto
    show "bit (k_group (tlist_remove t s)) p \<longleftrightarrow> k_q (tlist_remove t s) (ReadyQ p) \<noteq> []" if "p < 32"
      using D(6) [OF that] only [of "ReadyQ p"] by simp
    show "started (tlist_remove t s) u"
      if "th_stat (tlist_remove t s) u \<in> {RT_THREAD_READY, RT_THREAD_SUSPEND, RT_THREAD_RUNNING}"
      using that D(7,8,9) [of u] by (auto simp: started_def)
    show "th_stat (tlist_remove t s) u = RT_THREAD_SUSPEND"
      if "u \<in> set (k_q (tlist_remove t s) (SuspQ j)) \<or> u \<in> set (k_q (tlist_remove t s) (SenderQ j))"
      using that D(10,11) [of u j] by auto
    show "th_stat (tlist_remove t s) u = RT_THREAD_CLOSE" if "u \<in> set (k_q (tlist_remove t s) DefunctQ)"
      using that D(12) [of u] by simp
  qed
  moreover have "current_inv (tlist_remove t s)" using K(3) by (simp add: current_inv_def)
  moreover have "timer_inv (tlist_remove t s)" using K(4) timer_inv_cong [of "tlist_remove t s" s] by simp
  moreover have "thr_inv (tlist_remove t s)" using K(5) by (simp add: thr_inv_def live_def)
  ultimately show "kernel_inv (tlist_remove t s)" using K(6) by (auto simp: kernel_inv_def sched_inv_def)
qed

lemma closed_unlinked:
  assumes inv: "kernel_inv s" and st: "th_stat s t = RT_THREAD_CLOSE" and n: "t \<notin> set (k_q s DefunctQ)"
  shows "unlinked t s"
  unfolding unlinked_def
proof
  fix y show "t \<notin> set (k_q s y)"
    using table_invD(3,10,11) [OF kernel_invD(2) [OF inv], of t] st n by (cases y) auto
qed

lemma gone_kernel_inv:
  assumes "kernel_inv s" "th_stat s t = RT_THREAD_CLOSE" "t \<notin> set (k_q s DefunctQ)"
  shows "kernel_inv (object_gone t s)"
  using park_kernel_inv [OF assms(1) closed_unlinked [OF assms] assms(2), of True] by (simp add: object_gone_def)

lemma kernel_inv_lock: "kernel_inv (s\<lparr>k_lock := n\<rparr>) = kernel_inv s"
  by (simp add: kernel_inv_def sched_inv_def table_inv_def current_inv_def timer_inv_def thr_inv_def started_def live_def)

text \<open>Leaving the critical section schedules, which does not touch closed threads.\<close>

lemma exit_critical_spec:
  assumes "kernel_inv s" "k_lock s = 1"
  obtains s' where "rt_exit_critical s = Some s'" "kernel_inv s'" "k_q s' DefunctQ = k_q s DefunctQ" "k_lock s' = 0"
    "k_nest s' = k_nest s" "\<And>u. t_static (k_thr s' u) = t_static (k_thr s u)"
    "\<And>u. t_attached (k_thr s' u) = t_attached (k_thr s u)"
    "\<And>u. th_stat s u = RT_THREAD_CLOSE \<Longrightarrow> th_stat s' u = RT_THREAD_CLOSE"
proof -
  have z: "to_int16 0 = 0" by (simp add: to_int16_def)
  obtain s' where s': "rt_schedule (s\<lparr>k_lock := 0\<rparr>) = Some s'" "kernel_inv s'" "sched_only (s\<lparr>k_lock := 0\<rparr>) s'"
    using rt_schedule_kernel [of "s\<lparr>k_lock := 0\<rparr>"] assms(1) by (auto simp: kernel_inv_lock)
  note O = sched_onlyD [OF s'(3)]
  show thesis
  proof (rule that [OF _ s'(2)])
    show "rt_exit_critical s = Some s'" using s'(1) assms(2) z by (simp add: rt_exit_critical_def Let_def)
    show "k_q s' DefunctQ = k_q s DefunctQ" using O(6) by simp
    show "k_lock s' = 0" "k_nest s' = k_nest s" using O(1) by (simp_all add: objs_same_def)
    have f: "k_thr s' u = (k_thr s u)\<lparr>t_stat := th_stat s' u\<rparr>" for u using O(7) [of u] by simp
    show "t_static (k_thr s' u) = t_static (k_thr s u)" "t_attached (k_thr s' u) = t_attached (k_thr s u)" for u
      by (subst f, simp)+
    show "th_stat s' u = RT_THREAD_CLOSE" if "th_stat s u = RT_THREAD_CLOSE" for u using O(8) [of u] that by simp
  qed
qed

lemma idle_cleanup_spec:
  assumes inv: "kernel_inv s" and q: "k_q s DefunctQ = t # ts" and lock: "k_lock s = 0" and cl: "cleanup_ok cl"
  obtains s1 where "idle_cleanup cl t s = Some s1" "kernel_inv s1" "k_q s1 DefunctQ = ts" "k_lock s1 = 1"
    "k_nest s1 = k_nest s" "th_stat s1 t = RT_THREAD_CLOSE"
    "\<And>u. t_static (k_thr s1 u) = t_static (k_thr s u)" "\<And>u. t_attached (k_thr s1 u) = t_attached (k_thr s u)"
proof -
  let ?s = "rt_enter_critical (tlist_remove t s)"
  have one: "to_int16 1 = 1" by (simp add: to_int16_def)
  note R = defunct_removed [OF inv q]
  have s: "kernel_inv ?s" "k_q ?s DefunctQ = ts" "k_lock ?s = 1" "k_nest ?s = k_nest s" "k_thr ?s = k_thr s"
    using R(1,2) lock one by (simp_all add: rt_enter_critical_def kernel_inv_lock)
  show thesis
  proof (cases "t_cleanup (k_thr s t)")
    case True
    obtain s1 where "cl t ?s = Some s1" "kernel_inv s1" "k_q s1 DefunctQ = ts" "k_lock s1 = 1"
      "k_nest s1 = k_nest s" "th_stat s1 t = th_stat s t"
      "\<And>u. t_static (k_thr s1 u) = t_static (k_thr s u)" "\<And>u. t_attached (k_thr s1 u) = t_attached (k_thr s u)"
      using cl s unfolding cleanup_ok_def by metis
    then show thesis using True R(3) by (intro that [of s1]) (simp_all add: idle_cleanup_def)
  next
    case False
    then show thesis using s R(3) by (intro that [of ?s]) (simp_all add: idle_cleanup_def)
  qed
qed

text \<open>
  A call cleans up the closed threads from the head of the list up to and including the first static
  one, and returns: with two static ones in the list the second stays.
\<close>

definition idle_left :: "kstate \<Rightarrow> tid list" where
  "idle_left s = tl (dropWhile (\<lambda>t. \<not> t_static (k_thr s t)) (k_q s DefunctQ))"

lemma rt_thread_idle_excute_spec:
  assumes "kernel_inv s" "k_lock s = 0" "k_nest s = 0" "cleanup_ok cl"
  shows "\<exists>s'. rt_thread_idle_excute cl s = Some s' \<and> kernel_inv s' \<and> k_q s' DefunctQ = idle_left s \<and>
    (\<forall>t. t_attached (k_thr s' t) \<longleftrightarrow>
       t_attached (k_thr s t) \<and> (t \<in> set (k_q s DefunctQ) \<longrightarrow> t \<in> set (idle_left s)))"
  using assms
proof (induction "k_q s DefunctQ" arbitrary: s)
  case Nil
  then show ?case by (subst rt_thread_idle_excute.simps) (simp add: idle_left_def)
next
  case (Cons t ts)
  have q: "k_q s DefunctQ = t # ts" using Cons.hyps(2) by simp
  have dist: "t \<notin> set ts" using table_invD(1) [OF kernel_invD(2) [OF Cons.prems(1)], of DefunctQ] q by simp
  obtain s1 where s1: "idle_cleanup cl t s = Some s1" "kernel_inv s1" "k_q s1 DefunctQ = ts" "k_lock s1 = 1"
    "k_nest s1 = k_nest s" "th_stat s1 t = RT_THREAD_CLOSE"
    "\<And>u. t_static (k_thr s1 u) = t_static (k_thr s u)" "\<And>u. t_attached (k_thr s1 u) = t_attached (k_thr s u)"
    by (rule idle_cleanup_spec [OF Cons.prems(1) q Cons.prems(2,4)]) (rule that, assumption+)
  show ?case
  proof (cases "t_static (k_thr s t)")
    case True
    let ?s1 = "object_gone t s1"
    have g: "kernel_inv ?s1" "k_lock ?s1 = 1" "k_q ?s1 DefunctQ = ts"
      using gone_kernel_inv [OF s1(2,6)] s1(3,4) dist by (simp_all add: object_gone_def)
    obtain s' where s': "rt_exit_critical ?s1 = Some s'" "kernel_inv s'" "k_q s' DefunctQ = k_q ?s1 DefunctQ"
      "\<And>u. t_attached (k_thr s' u) = t_attached (k_thr ?s1 u)"
      by (rule exit_critical_spec [OF g(1,2)]) (rule that, assumption+)
    have "rt_thread_idle_excute cl s = Some s'"
      using Cons.prems(3) q s1(1,7) s'(1) True by (subst rt_thread_idle_excute.simps) simp
    moreover have "idle_left s = ts" using q True by (simp add: idle_left_def)
    moreover have "t_attached (k_thr s' u) = (t_attached (k_thr s u) \<and> u \<noteq> t)" for u
      using s'(4) [of u] s1(8) [of u] by (simp add: object_gone_def)
    ultimately show ?thesis using s'(2,3) g(3) q dist by auto
  next
    case False
    obtain s2 where s2: "rt_exit_critical s1 = Some s2" "kernel_inv s2" "k_q s2 DefunctQ = k_q s1 DefunctQ"
      "k_lock s2 = 0" "k_nest s2 = k_nest s1" "\<And>u. t_static (k_thr s2 u) = t_static (k_thr s1 u)"
      "\<And>u. t_attached (k_thr s2 u) = t_attached (k_thr s1 u)"
      "\<And>u. th_stat s1 u = RT_THREAD_CLOSE \<Longrightarrow> th_stat s2 u = RT_THREAD_CLOSE"
      by (rule exit_critical_spec [OF s1(2,4)]) (rule that, assumption+)
    let ?s2 = "object_gone t s2"
    have g: "kernel_inv ?s2" "k_lock ?s2 = 0" "k_nest ?s2 = 0" "ts = k_q ?s2 DefunctQ"
      using gone_kernel_inv [OF s2(2) s2(8) [OF s1(6)]] s2(3,4,5) s1(3,5) dist Cons.prems(3)
      by (simp_all add: object_gone_def)
    obtain s' where s': "rt_thread_idle_excute cl ?s2 = Some s'" "kernel_inv s'" "k_q s' DefunctQ = idle_left ?s2"
      "\<And>u. t_attached (k_thr s' u) = (t_attached (k_thr ?s2 u) \<and> (u \<in> set (k_q ?s2 DefunctQ) \<longrightarrow> u \<in> set (idle_left ?s2)))"
      using Cons.hyps(1) [OF g(4,1,2,3) Cons.prems(4)] by blast
    have "rt_thread_idle_excute cl s = Some s'"
      using Cons.prems(3) q s1(1,7) s2(1,6) s'(1) False by (subst rt_thread_idle_excute.simps) simp
    moreover have l: "idle_left ?s2 = idle_left s"
    proof -
      have "t_static (k_thr ?s2 u) = t_static (k_thr s u)" for u
        using s2(6) [of u] s1(7) [of u] by (auto simp: object_gone_def)
      then show ?thesis using False q g(4) by (simp add: idle_left_def)
    qed
    moreover have "set (idle_left s) \<subseteq> set ts"
    proof -
      have "set (tl xs) \<subseteq> set xs" for xs :: "tid list" by (cases xs) auto
      then show ?thesis using False q by (fastforce simp: idle_left_def dest: set_dropWhileD)
    qed
    moreover have "t_attached (k_thr ?s2 u) = (t_attached (k_thr s u) \<and> u \<noteq> t)" for u
      using s2(7) [of u] s1(8) [of u] by (simp add: object_gone_def)
    ultimately show ?thesis using s'(2,3,4) g(4) q dist by auto
  qed
qed

text \<open>With static threads only at the end of the list, one call does all.\<close>

lemma idle_left_dynamic:
  assumes "\<forall>t \<in> set (butlast (k_q s DefunctQ)). \<not> t_static (k_thr s t)"
  shows "idle_left s = []"
proof (cases "k_q s DefunctQ" rule: rev_cases)
  case Nil
  then show ?thesis by (simp add: idle_left_def)
next
  case (snoc ts t)
  then have "dropWhile (\<lambda>t. \<not> t_static (k_thr s t)) ts = []" using assms by (simp add: dropWhile_eq_Nil_conv)
  then show ?thesis using snoc by (simp add: idle_left_def dropWhile_append)
qed

lemma idle_cleans_all:
  assumes "kernel_inv s" "k_lock s = 0" "k_nest s = 0" "cleanup_ok cl"
    and "\<forall>t \<in> set (butlast (k_q s DefunctQ)). \<not> t_static (k_thr s t)"
  shows "\<exists>s'. rt_thread_idle_excute cl s = Some s' \<and> kernel_inv s' \<and> k_q s' DefunctQ = [] \<and>
    (\<forall>t. t_attached (k_thr s' t) \<longleftrightarrow> t_attached (k_thr s t) \<and> t \<notin> set (k_q s DefunctQ))"
  using rt_thread_idle_excute_spec [OF assms(1-4)] idle_left_dynamic [OF assms(5)] by auto

end
