(* ===== verification/Gpio.thy ===== *)
theory Gpio
  imports KPrelude "HOL-Library.Monad_Syntax"
begin

unbundle bit_operations_syntax

text \<open>
  The pins of the board: the GPIO driver (src/libraries/HAL_Drivers/drv_gpio.c) with its interrupt
  handlers, the pin device above it (components/drivers/misc/pin.c) and the board's LEDs and relay
  (src/applications/control.c). The registers behind the vendor's HAL calls are kept as far as the
  driver sees them: the configuration and the output bit of every pin, the external level of the
  inputs, and which interrupt vectors are enabled.
\<close>

section \<open>State\<close>

datatype gpio_mode = GPIO_MODE_INPUT | GPIO_MODE_OUTPUT_PP | GPIO_MODE_OUTPUT_OD
  | GPIO_MODE_IT_RISING | GPIO_MODE_IT_FALLING | GPIO_MODE_IT_RISING_FALLING

datatype gpio_pull = GPIO_NOPULL | GPIO_PULLUP | GPIO_PULLDOWN

record rt_pin_irq_hdr =
  ih_pin :: int
  ih_mode :: nat
  ih_hdr :: "nat option"
  ih_args :: nat

datatype irq_vector = EXTI0_IRQn | EXTI1_IRQn | EXTI2_IRQn | EXTI3_IRQn | EXTI4_IRQn | EXTI9_5_IRQn | EXTI15_10_IRQn

text \<open>Ports are numbered from \<open>GPIOA\<close>; a pin of a port is a mask of one bit.\<close>

record gpio =
  gp_cfg :: "nat \<Rightarrow> u32 \<Rightarrow> gpio_mode \<times> gpio_pull"
  gp_odr :: "nat \<Rightarrow> u32"
  gp_ext :: "nat \<Rightarrow> u32"
  gp_hdr_tab :: "rt_pin_irq_hdr list"
  gp_enable_mask :: u32
  gp_nvic :: "irq_vector \<Rightarrow> bool"
  gp_registered :: bool

section \<open>What the HAL calls do\<close>

text \<open>The pull of an input is chosen by its output bit.\<close>

definition pull_odr :: "u32 \<Rightarrow> gpio_mode \<Rightarrow> gpio_pull \<Rightarrow> u32 \<Rightarrow> u32" where
  "pull_odr pin mode pull x =
     (if mode = GPIO_MODE_OUTPUT_PP \<or> mode = GPIO_MODE_OUTPUT_OD \<or> pull = GPIO_NOPULL then x
      else if pull = GPIO_PULLUP then x OR pin else x AND NOT pin)"

definition HAL_GPIO_Init :: "nat \<Rightarrow> u32 \<Rightarrow> gpio_mode \<Rightarrow> gpio_pull \<Rightarrow> gpio \<Rightarrow> gpio" where
  "HAL_GPIO_Init port pin mode pull g =
     g\<lparr>gp_cfg := (gp_cfg g)(port := (gp_cfg g port)(pin := (mode, pull))),
       gp_odr := (gp_odr g)(port := pull_odr pin mode pull (gp_odr g port))\<rparr>"

definition HAL_GPIO_DeInit :: "nat \<Rightarrow> u32 \<Rightarrow> gpio \<Rightarrow> gpio" where
  "HAL_GPIO_DeInit port pin g =
     (HAL_GPIO_Init port pin GPIO_MODE_INPUT GPIO_NOPULL g)
       \<lparr>gp_odr := (gp_odr g)(port := gp_odr g port AND NOT pin)\<rparr>"

definition HAL_GPIO_WritePin :: "nat \<Rightarrow> u32 \<Rightarrow> bool \<Rightarrow> gpio \<Rightarrow> gpio" where
  "HAL_GPIO_WritePin port pin state g =
     g\<lparr>gp_odr := (gp_odr g)(port := if state then gp_odr g port OR pin else gp_odr g port AND NOT pin)\<rparr>"

text \<open>A push-pull output reads back what it drives, any other pin what is outside.\<close>

definition HAL_GPIO_ReadPin :: "nat \<Rightarrow> u32 \<Rightarrow> gpio \<Rightarrow> int" where
  "HAL_GPIO_ReadPin port pin g =
     (let idr = (if fst (gp_cfg g port pin) = GPIO_MODE_OUTPUT_PP then gp_odr g port else gp_ext g port)
      in if idr AND pin \<noteq> 0 then 1 else 0)"

section \<open>Pins\<close>

text \<open>The table of this processor has the ports A to G with sixteen pins each; the number is cut to 8 bits.\<close>

definition get_pin :: "int \<Rightarrow> (nat \<times> u32) option" where
  "get_pin pin =
     (let p = nat (pin mod 256) in if p < 112 then Some (p div 16, push_bit (p mod 16) 1) else None)"

definition stm32_pin_write :: "int \<Rightarrow> int \<Rightarrow> gpio \<Rightarrow> gpio" where
  "stm32_pin_write pin value g =
     (case get_pin pin of None \<Rightarrow> g | Some (port, b) \<Rightarrow> HAL_GPIO_WritePin port b (value \<noteq> 0) g)"

definition stm32_pin_read :: "int \<Rightarrow> gpio \<Rightarrow> int" where
  "stm32_pin_read pin g = (case get_pin pin of None \<Rightarrow> 0 | Some (port, b) \<Rightarrow> HAL_GPIO_ReadPin port b g)"

definition pin_mode_init :: "int \<Rightarrow> gpio_mode \<times> gpio_pull" where
  "pin_mode_init mode =
     (if mode = 0 then (GPIO_MODE_OUTPUT_PP, GPIO_NOPULL)
      else if mode = 1 then (GPIO_MODE_INPUT, GPIO_NOPULL)
      else if mode = 2 then (GPIO_MODE_INPUT, GPIO_PULLUP)
      else if mode = 3 then (GPIO_MODE_INPUT, GPIO_PULLDOWN)
      else if mode = 4 then (GPIO_MODE_OUTPUT_OD, GPIO_NOPULL)
      else (GPIO_MODE_OUTPUT_PP, GPIO_NOPULL))"

definition stm32_pin_mode :: "int \<Rightarrow> int \<Rightarrow> gpio \<Rightarrow> gpio" where
  "stm32_pin_mode pin mode g =
     (case get_pin pin of None \<Rightarrow> g
      | Some (port, b) \<Rightarrow> (case pin_mode_init mode of (m, p) \<Rightarrow> HAL_GPIO_Init port b m p g))"

section \<open>Pin interrupts\<close>

definition bit2bitno :: "u32 \<Rightarrow> int" where
  "bit2bitno b = (case List.find (\<lambda>i. push_bit i 1 = b) [0..<32] of Some i \<Rightarrow> int i | None \<Rightarrow> - 1)"

definition pin_irq_map :: "irq_vector list" where
  "pin_irq_map = [EXTI0_IRQn, EXTI1_IRQn, EXTI2_IRQn, EXTI3_IRQn, EXTI4_IRQn,
     EXTI9_5_IRQn, EXTI9_5_IRQn, EXTI9_5_IRQn, EXTI9_5_IRQn, EXTI9_5_IRQn,
     EXTI15_10_IRQn, EXTI15_10_IRQn, EXTI15_10_IRQn, EXTI15_10_IRQn, EXTI15_10_IRQn, EXTI15_10_IRQn]"

text \<open>The line of a pin, if it has an entry in the map.\<close>

definition irq_line :: "u32 \<Rightarrow> nat option" where
  "irq_line b = (let i = bit2bitno b in if i < 0 \<or> int (length pin_irq_map) \<le> i then None else Some (nat i))"

definition free_hdr :: rt_pin_irq_hdr where
  "free_hdr = \<lparr>ih_pin = - 1, ih_mode = 0, ih_hdr = None, ih_args = 0\<rparr>"

text \<open>The fields of an entry have 16 bits.\<close>

definition new_hdr :: "int \<Rightarrow> nat \<Rightarrow> nat option \<Rightarrow> nat \<Rightarrow> rt_pin_irq_hdr" where
  "new_hdr pin mode hdr args =
     \<lparr>ih_pin = sint (word_of_int pin :: 16 word), ih_mode = mode mod 2 ^ 16, ih_hdr = hdr, ih_args = args\<rparr>"

abbreviation (input) PIN_ENOSYS :: int where "PIN_ENOSYS \<equiv> 6"
abbreviation (input) PIN_EBUSY :: int where "PIN_EBUSY \<equiv> 7"

definition stm32_pin_attach_irq :: "int \<Rightarrow> nat \<Rightarrow> nat option \<Rightarrow> nat \<Rightarrow> gpio \<Rightarrow> int \<times> gpio" where
  "stm32_pin_attach_irq pin mode hdr args g =
     (case get_pin pin of None \<Rightarrow> (PIN_ENOSYS, g)
      | Some (port, b) \<Rightarrow>
          (case irq_line b of None \<Rightarrow> (PIN_ENOSYS, g)
           | Some i \<Rightarrow>
               let h = gp_hdr_tab g ! i in
               if ih_pin h = pin \<and> ih_hdr h = hdr \<and> ih_mode h = mode \<and> ih_args h = args then (0, g)
               else if ih_pin h \<noteq> - 1 then (PIN_EBUSY, g)
               else (0, g\<lparr>gp_hdr_tab := (gp_hdr_tab g)[i := new_hdr pin mode hdr args]\<rparr>)))"

definition stm32_pin_dettach_irq :: "int \<Rightarrow> gpio \<Rightarrow> int \<times> gpio" where
  "stm32_pin_dettach_irq pin g =
     (case get_pin pin of None \<Rightarrow> (PIN_ENOSYS, g)
      | Some (port, b) \<Rightarrow>
          (case irq_line b of None \<Rightarrow> (PIN_ENOSYS, g)
           | Some i \<Rightarrow>
               if ih_pin (gp_hdr_tab g ! i) = - 1 then (0, g)
               else (0, g\<lparr>gp_hdr_tab := (gp_hdr_tab g)[i := free_hdr]\<rparr>)))"

text \<open>An edge mode the switch does not know leaves the structure uninitialised: no result.\<close>

definition irq_mode_init :: "nat \<Rightarrow> (gpio_mode \<times> gpio_pull) option" where
  "irq_mode_init mode =
     (if mode = 0 then Some (GPIO_MODE_IT_RISING, GPIO_PULLDOWN)
      else if mode = 1 then Some (GPIO_MODE_IT_FALLING, GPIO_PULLUP)
      else if mode = 2 then Some (GPIO_MODE_IT_RISING_FALLING, GPIO_NOPULL)
      else None)"

definition set_nvic :: "irq_vector \<Rightarrow> bool \<Rightarrow> gpio \<Rightarrow> gpio" where
  "set_nvic v b g = g\<lparr>gp_nvic := (gp_nvic g)(v := b)\<rparr>"

text \<open>A shared vector is switched off only when none of its lines is enabled any more.\<close>

definition irq_disable_vector :: "nat \<Rightarrow> gpio \<Rightarrow> gpio" where
  "irq_disable_vector i g =
     (if 5 \<le> i \<and> i \<le> 9 then (if gp_enable_mask g AND 0x3e0 = 0 then set_nvic (pin_irq_map ! i) False g else g)
      else if 10 \<le> i \<and> i \<le> 15
      then (if gp_enable_mask g AND 0xfc00 = 0 then set_nvic (pin_irq_map ! i) False g else g)
      else set_nvic (pin_irq_map ! i) False g)"

definition stm32_pin_irq_enable :: "int \<Rightarrow> nat \<Rightarrow> gpio \<Rightarrow> (int \<times> gpio) option" where
  "stm32_pin_irq_enable pin enabled g =
     (case get_pin pin of None \<Rightarrow> Some (PIN_ENOSYS, g)
      | Some (port, b) \<Rightarrow>
          if enabled = 1
          then (case irq_line b of None \<Rightarrow> Some (PIN_ENOSYS, g)
                | Some i \<Rightarrow>
                    if ih_pin (gp_hdr_tab g ! i) = - 1 then Some (PIN_ENOSYS, g)
                    else do { (m, p) \<leftarrow> irq_mode_init (ih_mode (gp_hdr_tab g ! i));
                              let g1 = set_nvic (pin_irq_map ! i) True (HAL_GPIO_Init port b m p g);
                              Some (0, g1\<lparr>gp_enable_mask := gp_enable_mask g1 OR push_bit i 1\<rparr>) })
          else if enabled = 0
          then (case irq_line b of None \<Rightarrow> Some (PIN_ENOSYS, g)
                | Some i \<Rightarrow>
                    let g1 = HAL_GPIO_DeInit port b g;
                        g2 = g1\<lparr>gp_enable_mask := gp_enable_mask g1 AND NOT (push_bit i 1)\<rparr>
                    in Some (0, irq_disable_vector i g2))
          else Some (- PIN_ENOSYS, g))"

text \<open>A vector's handler calls, for each of its pending lines, what is attached to the line.\<close>

definition pin_irq_hdr :: "nat \<Rightarrow> gpio \<Rightarrow> (nat \<times> nat) list" where
  "pin_irq_hdr i g = (case ih_hdr (gp_hdr_tab g ! i) of None \<Rightarrow> [] | Some f \<Rightarrow> [(f, ih_args (gp_hdr_tab g ! i))])"

definition EXTI_IRQHandler :: "irq_vector \<Rightarrow> (nat \<Rightarrow> bool) \<Rightarrow> gpio \<Rightarrow> (nat \<times> nat) list" where
  "EXTI_IRQHandler v pending g =
     concat (map (\<lambda>i. if pending i then pin_irq_hdr i g else [])
       (filter (\<lambda>i. pin_irq_map ! i = v) [0..<length pin_irq_map]))"

section \<open>The pin device\<close>

definition rt_device_pin_register :: "gpio \<Rightarrow> gpio" where
  "rt_device_pin_register g = g\<lparr>gp_registered := True\<rparr>"

definition rt_pin_mode :: "int \<Rightarrow> int \<Rightarrow> gpio \<Rightarrow> gpio option" where
  "rt_pin_mode pin mode g = (if gp_registered g then Some (stm32_pin_mode pin mode g) else None)"

definition rt_pin_write :: "int \<Rightarrow> int \<Rightarrow> gpio \<Rightarrow> gpio option" where
  "rt_pin_write pin value g = (if gp_registered g then Some (stm32_pin_write pin value g) else None)"

definition rt_pin_read :: "int \<Rightarrow> gpio \<Rightarrow> int option" where
  "rt_pin_read pin g = (if gp_registered g then Some (stm32_pin_read pin g) else None)"

definition rt_pin_attach_irq :: "int \<Rightarrow> nat \<Rightarrow> nat option \<Rightarrow> nat \<Rightarrow> gpio \<Rightarrow> (int \<times> gpio) option" where
  "rt_pin_attach_irq pin mode hdr args g =
     (if gp_registered g then Some (stm32_pin_attach_irq pin mode hdr args g) else None)"

definition rt_pin_detach_irq :: "int \<Rightarrow> gpio \<Rightarrow> (int \<times> gpio) option" where
  "rt_pin_detach_irq pin g = (if gp_registered g then Some (stm32_pin_dettach_irq pin g) else None)"

definition rt_pin_irq_enable :: "int \<Rightarrow> nat \<Rightarrow> gpio \<Rightarrow> (int \<times> gpio) option" where
  "rt_pin_irq_enable pin enabled g = (if gp_registered g then stm32_pin_irq_enable pin enabled g else None)"

section \<open>The board\<close>

abbreviation (input) PIN_LOW :: int where "PIN_LOW \<equiv> 0"
abbreviation (input) PIN_HIGH :: int where "PIN_HIGH \<equiv> 1"
abbreviation (input) PIN_MODE_OUTPUT :: int where "PIN_MODE_OUTPUT \<equiv> 0"

definition GET_PIN :: "nat \<Rightarrow> nat \<Rightarrow> int" where "GET_PIN port n = int (16 * port + n)"

definition LED0_PIN :: int where "LED0_PIN = GET_PIN 1 5"
definition LED1_PIN :: int where "LED1_PIN = GET_PIN 4 5"
definition RELAY0_PIN :: int where "RELAY0_PIN = GET_PIN 1 12"

definition led_init :: "gpio \<Rightarrow> gpio option" where
  "led_init g =
     do { g1 \<leftarrow> rt_pin_mode LED0_PIN PIN_MODE_OUTPUT g;
          g2 \<leftarrow> rt_pin_mode LED1_PIN PIN_MODE_OUTPUT g1;
          g3 \<leftarrow> rt_pin_write LED0_PIN PIN_HIGH g2;
          rt_pin_write LED1_PIN PIN_HIGH g3 }"

definition relay_init :: "gpio \<Rightarrow> gpio option" where
  "relay_init g = do { g1 \<leftarrow> rt_pin_mode RELAY0_PIN PIN_MODE_OUTPUT g; rt_pin_write RELAY0_PIN PIN_HIGH g1 }"

definition led0_open :: "gpio \<Rightarrow> gpio option" where "led0_open = rt_pin_write LED0_PIN PIN_LOW"
definition led0_close :: "gpio \<Rightarrow> gpio option" where "led0_close = rt_pin_write LED0_PIN PIN_HIGH"

definition led0_toggle :: "gpio \<Rightarrow> gpio option" where
  "led0_toggle g = do { x \<leftarrow> rt_pin_read LED0_PIN g; rt_pin_write LED0_PIN (if x = 0 then 1 else 0) g }"

definition led1_open :: "gpio \<Rightarrow> gpio option" where "led1_open = rt_pin_write LED1_PIN PIN_LOW"
definition led1_close :: "gpio \<Rightarrow> gpio option" where "led1_close = rt_pin_write LED1_PIN PIN_HIGH"

definition led1_toggle :: "gpio \<Rightarrow> gpio option" where
  "led1_toggle g = do { x \<leftarrow> rt_pin_read LED1_PIN g; rt_pin_write LED1_PIN (if x = 0 then 1 else 0) g }"

definition relay_open :: "gpio \<Rightarrow> gpio option" where "relay_open = rt_pin_write RELAY0_PIN PIN_LOW"
definition relay_close :: "gpio \<Rightarrow> gpio option" where "relay_close = rt_pin_write RELAY0_PIN PIN_HIGH"

section \<open>Pin numbers and lines\<close>

lemma one_bit: "bit (push_bit i 1 :: u32) n = (n = i \<and> i < 32)"
  by (auto simp: bit_exp_iff)

lemma get_pin_board: "port < 7 \<Longrightarrow> n < 16 \<Longrightarrow> get_pin (GET_PIN port n) = Some (port, push_bit n 1)"
proof -
  assume a: "port < 7" "n < 16"
  then have "nat (GET_PIN port n mod 256) = 16 * port + n" by (simp add: GET_PIN_def nat_add_distrib nat_mult_distrib)
  then show ?thesis using a by (simp add: get_pin_def Let_def)
qed

lemma get_pinD: "get_pin pin = Some (port, b) \<Longrightarrow> \<exists>n<16. b = push_bit n 1"
  by (auto simp: get_pin_def Let_def split: if_splits intro: exI [of _ "nat (pin mod 256) mod 16"])

lemma push_bit_one_eq: "i < 32 \<Longrightarrow> j < 32 \<Longrightarrow> (push_bit i 1 = (push_bit j 1 :: u32)) = (i = j)"
  using one_bit [of i i] one_bit [of j i] by metis

lemma irq_line_pin: "n < 16 \<Longrightarrow> irq_line (push_bit n 1) = Some n"
proof -
  assume n: "n < 16"
  have f: "List.find (\<lambda>i. i = n) xs = Some n" if "n \<in> set xs" for xs
    using that by (induction xs) auto
  have "List.find (\<lambda>i. push_bit i 1 = (push_bit n 1 :: u32)) [0..<32] = List.find (\<lambda>i. i = n) [0..<32]"
    by (rule List.find_cong) (use n push_bit_one_eq in auto)
  then show ?thesis using n f [of "[0..<32]"]
    by (simp add: irq_line_def bit2bitno_def pin_irq_map_def Let_def del: push_bit_of_1)
qed

lemma pin_line:
  assumes "get_pin pin = Some (port, b)"
  obtains i where "i < 16" "b = push_bit i 1" "irq_line b = Some i"
  using get_pinD [OF assms] irq_line_pin by blast

section \<open>Vectors follow the enabled lines\<close>

definition gpio_ok :: "gpio \<Rightarrow> bool" where
  "gpio_ok g \<longleftrightarrow> length (gp_hdr_tab g) = 16 \<and>
     (\<forall>v. gp_nvic g v \<longleftrightarrow> (\<exists>i<16. pin_irq_map ! i = v \<and> bit (gp_enable_mask g) i))"

lemma pin_irq_map_nth: "i < 16 \<Longrightarrow> pin_irq_map ! i =
    (if i = 0 then EXTI0_IRQn else if i = 1 then EXTI1_IRQn else if i = 2 then EXTI2_IRQn
     else if i = 3 then EXTI3_IRQn else if i = 4 then EXTI4_IRQn else if i \<le> 9 then EXTI9_5_IRQn else EXTI15_10_IRQn)"
proof -
  have "list_all (\<lambda>i. pin_irq_map ! i =
    (if i = 0 then EXTI0_IRQn else if i = 1 then EXTI1_IRQn else if i = 2 then EXTI2_IRQn
     else if i = 3 then EXTI3_IRQn else if i = 4 then EXTI4_IRQn else if i \<le> 9 then EXTI9_5_IRQn else EXTI15_10_IRQn)) [0..<16]"
    by code_simp
  then show "i < 16 \<Longrightarrow> ?thesis" by (simp add: list_all_iff)
qed

lemma same_vector: "i < 16 \<Longrightarrow> j < 16 \<Longrightarrow> (pin_irq_map ! j = pin_irq_map ! i) =
    (if 5 \<le> i \<and> i \<le> 9 then 5 \<le> j \<and> j \<le> 9 else if 10 \<le> i \<and> i \<le> 15 then 10 \<le> j \<and> j \<le> 15 else j = i)"
  by (simp add: pin_irq_map_nth)

lemma mask_zero: "(x AND m = 0) = (\<forall>n. \<not> (bit x n \<and> bit m n))" for x m :: u32
proof -
  have "(x AND m = 0) = (\<forall>n. bit (x AND m) n = bit (0 :: u32) n)" by (metis bit_eqI)
  then show ?thesis by (simp add: bit_and_iff)
qed

lemma group_masks: "bit (0x3e0 :: u32) n = (5 \<le> n \<and> n \<le> 9)" "bit (0xfc00 :: u32) n = (10 \<le> n \<and> n \<le> 15)"
proof -
  have e: "(0x3e0 :: u32) = push_bit 5 (mask 5)" "(0xfc00 :: u32) = push_bit 10 (mask 6)"
    by (simp_all add: mask_eq_exp_minus_1 push_bit_eq_mult)
  show "bit (0x3e0 :: u32) n = (5 \<le> n \<and> n \<le> 9)" "bit (0xfc00 :: u32) n = (10 \<le> n \<and> n \<le> 15)"
    unfolding e by (auto simp: bit_push_bit_iff bit_mask_iff)
qed

lemma group_zero:
  "(x AND 0x3e0 = 0) = (\<forall>n. 5 \<le> n \<and> n \<le> 9 \<longrightarrow> \<not> bit x n)"
  "(x AND 0xfc00 = 0) = (\<forall>n. 10 \<le> n \<and> n \<le> 15 \<longrightarrow> \<not> bit x n)" for x :: u32
  unfolding mask_zero group_masks by blast+

text \<open>Switching a line off keeps its vector when another line of the group is enabled.\<close>

lemma irq_disable_vector_ok:
  assumes i: "i < 16" and off: "\<not> bit (gp_enable_mask g) i" and len: "length (gp_hdr_tab g) = 16"
    and v: "\<And>v. v \<noteq> pin_irq_map ! i \<Longrightarrow> gp_nvic g v = (\<exists>j<16. pin_irq_map ! j = v \<and> bit (gp_enable_mask g) j)"
    and on: "(\<exists>j<16. pin_irq_map ! j = pin_irq_map ! i \<and> bit (gp_enable_mask g) j) \<Longrightarrow> gp_nvic g (pin_irq_map ! i)"
  shows "gpio_ok (irq_disable_vector i g)"
proof -
  define ex where "ex = (\<exists>j<16. pin_irq_map ! j = pin_irq_map ! i \<and> bit (gp_enable_mask g) j)"
  have grp: "ex = (if 5 \<le> i \<and> i \<le> 9 then gp_enable_mask g AND 0x3e0 \<noteq> 0
     else if 10 \<le> i \<and> i \<le> 15 then gp_enable_mask g AND 0xfc00 \<noteq> 0 else False)"
  proof -
    have "ex = (\<exists>j<16. (if 5 \<le> i \<and> i \<le> 9 then 5 \<le> j \<and> j \<le> 9 else if 10 \<le> i \<and> i \<le> 15 then 10 \<le> j \<and> j \<le> 15
        else j = i) \<and> bit (gp_enable_mask g) j)"
      unfolding ex_def using same_vector [OF i] by blast
    moreover have "j < 16" if "j \<le> 9 \<or> j \<le> 15" for j :: nat using that by auto
    ultimately show ?thesis using off i unfolding group_zero by (simp split: if_splits) blast+
  qed
  have "gp_nvic (irq_disable_vector i g) w = (\<exists>j<16. pin_irq_map ! j = w \<and> bit (gp_enable_mask g) j)" for w
    using v [of w] on grp by (cases "w = pin_irq_map ! i") (auto simp: irq_disable_vector_def set_nvic_def ex_def)
  then show ?thesis using len by (simp add: gpio_ok_def irq_disable_vector_def set_nvic_def)
qed

lemma gpio_ok_other: "gp_hdr_tab g' = gp_hdr_tab g \<Longrightarrow> gp_nvic g' = gp_nvic g \<Longrightarrow> gp_enable_mask g' = gp_enable_mask g \<Longrightarrow>
    gpio_ok g' = gpio_ok g"
  by (simp add: gpio_ok_def)

lemma hal_frame [simp]:
  "gp_hdr_tab (HAL_GPIO_Init port b m p g) = gp_hdr_tab g" "gp_nvic (HAL_GPIO_Init port b m p g) = gp_nvic g"
  "gp_enable_mask (HAL_GPIO_Init port b m p g) = gp_enable_mask g"
  "gp_hdr_tab (HAL_GPIO_DeInit port b g) = gp_hdr_tab g" "gp_nvic (HAL_GPIO_DeInit port b g) = gp_nvic g"
  "gp_enable_mask (HAL_GPIO_DeInit port b g) = gp_enable_mask g"
  "gp_hdr_tab (HAL_GPIO_WritePin port b x g) = gp_hdr_tab g" "gp_nvic (HAL_GPIO_WritePin port b x g) = gp_nvic g"
  "gp_enable_mask (HAL_GPIO_WritePin port b x g) = gp_enable_mask g"
  by (simp_all add: HAL_GPIO_Init_def HAL_GPIO_DeInit_def HAL_GPIO_WritePin_def)

lemma pin_ops_ok:
  assumes "gpio_ok g"
  shows "gpio_ok (stm32_pin_write pin x g)" "gpio_ok (stm32_pin_mode pin m g)"
    "gpio_ok (snd (stm32_pin_attach_irq pin mode hdr args g))" "gpio_ok (snd (stm32_pin_dettach_irq pin g))"
  using assms
  by (auto simp: stm32_pin_write_def stm32_pin_mode_def stm32_pin_attach_irq_def stm32_pin_dettach_irq_def
      gpio_ok_def Let_def split: option.splits prod.splits)

lemma irq_enable_ok:
  assumes ok: "gpio_ok g" and run: "stm32_pin_irq_enable pin enabled g = Some (e, g')"
  shows "gpio_ok g'"
proof (cases "get_pin pin")
  case None
  then show ?thesis using ok run by (simp add: stm32_pin_irq_enable_def)
next
  case (Some x)
  obtain port b where x: "get_pin pin = Some (port, b)" using Some by (cases x) auto
  obtain i where i: "i < 16" "b = push_bit i 1" "irq_line b = Some i" by (rule pin_line [OF x])
  consider "enabled = 1" | "enabled = 0" | "enabled \<noteq> 1" "enabled \<noteq> 0" by blast
  then show ?thesis
  proof cases
    case 1
    have "bit (m OR push_bit i 1) j = (bit m j \<or> j = i)" for m :: u32 and j
      using one_bit [of i j] i(1) by (auto simp: bit_or_iff)
    then show ?thesis
      using ok run x i 1
      by (auto simp: stm32_pin_irq_enable_def gpio_ok_def set_nvic_def Let_def split: if_splits Option.bind_splits)
  next
    case 2
    have off: "bit (m AND NOT (push_bit i 1)) j = (bit m j \<and> j \<noteq> i)" for m :: u32 and j
      using one_bit [of i j] i(1) by (auto simp: bit_and_iff bit_not_iff dest: bit_imp_le_length)
    let ?g = "HAL_GPIO_DeInit port b g"
    let ?g2 = "?g\<lparr>gp_enable_mask := gp_enable_mask ?g AND NOT (push_bit i 1)\<rparr>"
    have "g' = irq_disable_vector i ?g2" using run x i 2 by (simp add: stm32_pin_irq_enable_def Let_def)
    moreover have "gpio_ok (irq_disable_vector i ?g2)"
    proof (rule irq_disable_vector_ok [OF i(1)])
      show "\<not> bit (gp_enable_mask ?g2) i" "length (gp_hdr_tab ?g2) = 16" using ok off by (simp_all add: gpio_ok_def)
      show "gp_nvic ?g2 v = (\<exists>j<16. pin_irq_map ! j = v \<and> bit (gp_enable_mask ?g2) j)" if "v \<noteq> pin_irq_map ! i" for v
        using ok that off by (auto simp: gpio_ok_def)
      show "gp_nvic ?g2 (pin_irq_map ! i)"
        if "\<exists>j<16. pin_irq_map ! j = pin_irq_map ! i \<and> bit (gp_enable_mask ?g2) j"
        using ok that off by (auto simp: gpio_ok_def)
    qed
    ultimately show ?thesis by simp
  next
    case 3
    then show ?thesis using ok run x by (simp add: stm32_pin_irq_enable_def)
  qed
qed

text \<open>Anything clients do with the pins, in any order.\<close>

inductive pin_step :: "gpio \<Rightarrow> gpio \<Rightarrow> bool" where
  "rt_pin_mode pin mode g = Some g' \<Longrightarrow> pin_step g g'"
| "rt_pin_write pin x g = Some g' \<Longrightarrow> pin_step g g'"
| "rt_pin_attach_irq pin md hdr args g = Some (e, g') \<Longrightarrow> pin_step g g'"
| "rt_pin_detach_irq pin g = Some (e, g') \<Longrightarrow> pin_step g g'"
| "rt_pin_irq_enable pin enabled g = Some (e, g') \<Longrightarrow> pin_step g g'"

inductive_cases pin_stepE: "pin_step g g'"

lemma pin_step_ok: "pin_step g g' \<Longrightarrow> gpio_ok g \<Longrightarrow> gpio_ok g'"
proof (induction rule: pin_step.induct)
  case (3 pin md hdr args g e g')
  then show ?case using pin_ops_ok(3) [of g pin md hdr args] by (simp add: rt_pin_attach_irq_def split: if_splits)
next
  case (4 pin g e g')
  then show ?case using pin_ops_ok(4) [of g pin] by (simp add: rt_pin_detach_irq_def split: if_splits)
qed (auto simp: rt_pin_mode_def rt_pin_write_def rt_pin_irq_enable_def pin_ops_ok dest: irq_enable_ok split: if_splits)

lemma pin_steps_ok: "pin_step\<^sup>*\<^sup>* g g' \<Longrightarrow> gpio_ok g \<Longrightarrow> gpio_ok g'"
  by (induction rule: rtranclp_induct) (auto dest: pin_step_ok)

section \<open>Handlers\<close>

text \<open>A handler that was attached is the one its line calls; another pin of the same number cannot take it.\<close>

lemma attach_handler:
  assumes ok: "gpio_ok g" and pin: "port < 7" "n < 16" and free: "ih_pin (gp_hdr_tab g ! n) = - 1"
  shows "\<exists>g'. stm32_pin_attach_irq (GET_PIN port n) mode (Some f) args g = (0, g') \<and> gpio_ok g' \<and>
    pin_irq_hdr n g' = [(f, args)] \<and> (\<forall>m. m \<noteq> n \<longrightarrow> pin_irq_hdr m g' = pin_irq_hdr m g) \<and>
    (\<forall>port2 < 7. port2 \<noteq> port \<longrightarrow> stm32_pin_attach_irq (GET_PIN port2 n) mode2 hdr2 args2 g' = (PIN_EBUSY, g'))"
proof -
  let ?p = "GET_PIN port n"
  let ?h = "new_hdr ?p mode (Some f) args"
  let ?g = "g\<lparr>gp_hdr_tab := (gp_hdr_tab g)[n := ?h]\<rparr>"
  have len: "n < length (gp_hdr_tab g)" using ok pin(2) by (simp add: gpio_ok_def)
  have small: "sint (word_of_int (int k) :: 16 word) = int k" if "k < 112" for k
    using that by (simp only: int_word_sint) simp
  have hp: "ih_pin ?h = ?p" using small [of "16 * port + n"] pin by (simp add: new_hdr_def GET_PIN_def)
  have nn: "?p \<noteq> - 1" by (simp add: GET_PIN_def)
  have run: "stm32_pin_attach_irq ?p mode (Some f) args g = (0, ?g)"
    using free nn get_pin_board [OF pin] irq_line_pin [OF pin(2)]
    by (simp add: stm32_pin_attach_irq_def Let_def del: push_bit_of_1)
  have busy: "stm32_pin_attach_irq (GET_PIN port2 n) mode2 hdr2 args2 ?g = (PIN_EBUSY, ?g)"
    if "port2 < 7" "port2 \<noteq> port" for port2
  proof -
    have "?p \<noteq> GET_PIN port2 n" using that(2) by (simp add: GET_PIN_def)
    then show ?thesis
      using hp nn len get_pin_board [OF that(1) pin(2)] irq_line_pin [OF pin(2)]
      by (simp add: stm32_pin_attach_irq_def Let_def del: push_bit_of_1)
  qed
  have "gpio_ok ?g" using ok by (simp add: gpio_ok_def)
  moreover have "pin_irq_hdr n ?g = [(f, args)]" using len by (simp add: pin_irq_hdr_def new_hdr_def)
  moreover have "pin_irq_hdr m ?g = pin_irq_hdr m g" if "m \<noteq> n" for m
    using that by (simp add: pin_irq_hdr_def cong: option.case_cong)
  ultimately show ?thesis using run busy by blast
qed

text \<open>Attached and enabled, the handler is called by its vector when the line is pending.\<close>

lemma concat_only: "distinct xs \<Longrightarrow> n \<in> set xs \<Longrightarrow> concat (map (\<lambda>i. if i = n then f i else []) xs) = f n"
proof (induction xs)
  case (Cons x xs)
  have "concat (map (\<lambda>i. if i = n then f i else []) xs) = []" if "n \<notin> set xs" using that by (induction xs) auto
  then show ?case using Cons by auto
qed simp

lemma length_irq_map: "length pin_irq_map = 16"
  by (simp add: pin_irq_map_def)

lemma exti_one_line: "i < 16 \<Longrightarrow> EXTI_IRQHandler (pin_irq_map ! i) (\<lambda>k. k = i) g = pin_irq_hdr i g"
  unfolding EXTI_IRQHandler_def by (rule concat_only) (simp_all add: length_irq_map)

lemma irq_mode_some: "mode \<le> 2 \<Longrightarrow> \<exists>m p. irq_mode_init mode = Some (m, p) \<and>
    m = (if mode = 0 then GPIO_MODE_IT_RISING else if mode = 1 then GPIO_MODE_IT_FALLING else GPIO_MODE_IT_RISING_FALLING)"
  by (auto simp: irq_mode_init_def)

lemma attach_enable:
  assumes ok: "gpio_ok g" and reg: "gp_registered g" and pin: "port < 7" "n < 16"
    and free: "ih_pin (gp_hdr_tab g ! n) = - 1" and mode: "mode \<le> 2"
  shows "\<exists>g1 g2. rt_pin_attach_irq (GET_PIN port n) mode (Some f) args g = Some (0, g1) \<and>
    rt_pin_irq_enable (GET_PIN port n) 1 g1 = Some (0, g2) \<and> gp_nvic g2 (pin_irq_map ! n) \<and>
    fst (gp_cfg g2 port (push_bit n 1)) =
      (if mode = 0 then GPIO_MODE_IT_RISING else if mode = 1 then GPIO_MODE_IT_FALLING else GPIO_MODE_IT_RISING_FALLING) \<and>
    EXTI_IRQHandler (pin_irq_map ! n) (\<lambda>k. k = n) g2 = [(f, args)] \<and>
    (\<forall>port2 < 7. port2 \<noteq> port \<longrightarrow>
       rt_pin_attach_irq (GET_PIN port2 n) mode2 hdr2 args2 g1 = Some (PIN_EBUSY, g1))"
proof -
  let ?p = "GET_PIN port n"
  obtain g1 where g1: "stm32_pin_attach_irq ?p mode (Some f) args g = (0, g1)" "pin_irq_hdr n g1 = [(f, args)]"
    "\<forall>port2 < 7. port2 \<noteq> port \<longrightarrow> stm32_pin_attach_irq (GET_PIN port2 n) mode2 hdr2 args2 g1 = (PIN_EBUSY, g1)"
    using attach_handler [OF ok pin free] by metis
  have len: "n < length (gp_hdr_tab g)" using ok pin(2) by (simp add: gpio_ok_def)
  have nn: "?p \<noteq> - 1" by (simp add: GET_PIN_def)
  have small: "sint (word_of_int (int k) :: 16 word) = int k" if "k < 112" for k
    using that by (simp only: int_word_sint) simp
  have "g1 = g\<lparr>gp_hdr_tab := (gp_hdr_tab g)[n := new_hdr ?p mode (Some f) args]\<rparr>"
    using g1(1) free nn get_pin_board [OF pin] irq_line_pin [OF pin(2)]
    by (simp add: stm32_pin_attach_irq_def Let_def del: push_bit_of_1)
  then have tab: "gp_registered g1 = gp_registered g" "ih_pin (gp_hdr_tab g1 ! n) \<noteq> - 1" "ih_mode (gp_hdr_tab g1 ! n) = mode"
    using len small [of "16 * port + n"] pin mode by (simp_all add: new_hdr_def GET_PIN_def)
  obtain m p where mp: "irq_mode_init mode = Some (m, p)"
    "m = (if mode = 0 then GPIO_MODE_IT_RISING else if mode = 1 then GPIO_MODE_IT_FALLING else GPIO_MODE_IT_RISING_FALLING)"
    using irq_mode_some [OF mode] by blast
  let ?h = "set_nvic (pin_irq_map ! n) True (HAL_GPIO_Init port (push_bit n 1) m p g1)"
  let ?g2 = "?h\<lparr>gp_enable_mask := gp_enable_mask ?h OR push_bit n 1\<rparr>"
  have en: "rt_pin_irq_enable ?p 1 g1 = Some (0, ?g2)"
    using reg tab mp(1) get_pin_board [OF pin] irq_line_pin [OF pin(2)]
    by (simp add: rt_pin_irq_enable_def stm32_pin_irq_enable_def Let_def del: push_bit_of_1)
  have "EXTI_IRQHandler (pin_irq_map ! n) (\<lambda>k. k = n) ?g2 = [(f, args)]"
    using exti_one_line [OF pin(2), of ?g2] g1(2) by (simp add: pin_irq_hdr_def set_nvic_def cong: option.case_cong)
  moreover have "gp_nvic ?g2 (pin_irq_map ! n)" "fst (gp_cfg ?g2 port (push_bit n 1)) = m"
    by (simp_all add: set_nvic_def HAL_GPIO_Init_def)
  ultimately show ?thesis
    using en g1(1,3) reg tab(1) mp(2) unfolding rt_pin_attach_irq_def by (intro exI [of _ g1] exI [of _ ?g2]) simp
qed

text \<open>Detaching does not look at whose handler it removes.\<close>

lemma detach_takes_anothers:
  assumes ok: "gpio_ok g" and pin: "port < 7" "n < 16"
  shows "\<exists>g'. stm32_pin_dettach_irq (GET_PIN port n) g = (0, g') \<and>
    (ih_pin (gp_hdr_tab g ! n) \<noteq> - 1 \<longrightarrow> pin_irq_hdr n g' = [])"
  using ok get_pin_board [OF pin] irq_line_pin [OF pin(2)] pin(2)
  by (auto simp: stm32_pin_dettach_irq_def pin_irq_hdr_def free_hdr_def gpio_ok_def Let_def simp del: push_bit_of_1)

section \<open>LEDs and relay\<close>

text \<open>The pins of the board as the application sees them: \<open>on\<close> is low.\<close>

definition output_pin :: "int \<Rightarrow> gpio \<Rightarrow> bool" where
  "output_pin pin g = (case get_pin pin of None \<Rightarrow> False | Some (port, b) \<Rightarrow> fst (gp_cfg g port b) = GPIO_MODE_OUTPUT_PP)"

definition board_ready :: "gpio \<Rightarrow> bool" where
  "board_ready g \<longleftrightarrow> gp_registered g \<and> output_pin LED0_PIN g \<and> output_pin LED1_PIN g \<and> output_pin RELAY0_PIN g"

definition board_levels :: "gpio \<Rightarrow> int \<times> int \<times> int" where
  "board_levels g = (stm32_pin_read LED0_PIN g, stm32_pin_read LED1_PIN g, stm32_pin_read RELAY0_PIN g)"

lemma board_pins:
  "get_pin LED0_PIN = Some (1, push_bit 5 1)" "get_pin LED1_PIN = Some (4, push_bit 5 1)"
  "get_pin RELAY0_PIN = Some (1, push_bit 12 1)"
  unfolding LED0_PIN_def LED1_PIN_def RELAY0_PIN_def by (rule get_pin_board; simp)+

lemma and_one_bit: "(x AND push_bit j 1 = (0 :: u32)) = (\<not> bit x j)"
  using and_exp_eq_0_iff_not_bit [of x j] by simp

lemma set_clear_bit:
  "i < 32 \<Longrightarrow> bit (x OR push_bit i 1 :: u32) j = (bit x j \<or> j = i)"
  "i < 32 \<Longrightarrow> bit (x AND NOT (push_bit i 1) :: u32) j = (bit x j \<and> j \<noteq> i)"
  unfolding bit_or_iff bit_and_iff bit_not_iff one_bit by (auto dest: bit_imp_le_length)

lemma board_level: "board_ready g \<Longrightarrow> board_levels g =
    (if bit (gp_odr g 1) 5 then 1 else 0, if bit (gp_odr g 4) 5 then 1 else 0, if bit (gp_odr g 1) 12 then 1 else 0)"
  by (simp add: board_levels_def board_ready_def output_pin_def stm32_pin_read_def board_pins HAL_GPIO_ReadPin_def Let_def
      and_one_bit del: push_bit_of_1)

text \<open>The eight commands, and what each is meant to do to the three levels.\<close>

datatype board_op = Led0_Open | Led0_Close | Led0_Toggle | Led1_Open | Led1_Close | Led1_Toggle | Relay_Open | Relay_Close

fun board_do :: "board_op \<Rightarrow> gpio \<Rightarrow> gpio option" where
  "board_do Led0_Open = led0_open"
| "board_do Led0_Close = led0_close"
| "board_do Led0_Toggle = led0_toggle"
| "board_do Led1_Open = led1_open"
| "board_do Led1_Close = led1_close"
| "board_do Led1_Toggle = led1_toggle"
| "board_do Relay_Open = relay_open"
| "board_do Relay_Close = relay_close"

fun board_spec :: "board_op \<Rightarrow> int \<times> int \<times> int \<Rightarrow> int \<times> int \<times> int" where
  "board_spec Led0_Open (a, b, c) = (0, b, c)"
| "board_spec Led0_Close (a, b, c) = (1, b, c)"
| "board_spec Led0_Toggle (a, b, c) = (1 - a, b, c)"
| "board_spec Led1_Open (a, b, c) = (a, 0, c)"
| "board_spec Led1_Close (a, b, c) = (a, 1, c)"
| "board_spec Led1_Toggle (a, b, c) = (a, 1 - b, c)"
| "board_spec Relay_Open (a, b, c) = (a, b, 0)"
| "board_spec Relay_Close (a, b, c) = (a, b, 1)"

fun board_run :: "board_op list \<Rightarrow> gpio \<Rightarrow> gpio option" where
  "board_run [] g = Some g"
| "board_run (x # xs) g = do { g1 \<leftarrow> board_do x g; board_run xs g1 }"

lemma board_write:
  assumes "board_ready g"
  shows "\<exists>g'. rt_pin_write LED0_PIN x g = Some g' \<and> board_ready g' \<and>
      board_levels g' = (if x = 0 then 0 else 1, snd (board_levels g))"
    "\<exists>g'. rt_pin_write LED1_PIN x g = Some g' \<and> board_ready g' \<and>
      board_levels g' = (fst (board_levels g), if x = 0 then 0 else 1, snd (snd (board_levels g)))"
    "\<exists>g'. rt_pin_write RELAY0_PIN x g = Some g' \<and> board_ready g' \<and>
      board_levels g' = (fst (board_levels g), fst (snd (board_levels g)), if x = 0 then 0 else 1)"
proof -
  have r: "board_ready (HAL_GPIO_WritePin port b y g)" for port b y
    using assms by (simp add: board_ready_def output_pin_def HAL_GPIO_WritePin_def board_pins)
  have reg: "gp_registered g" using assms by (simp add: board_ready_def)
  have w: "rt_pin_write pin x g = Some (HAL_GPIO_WritePin port b (x \<noteq> 0) g)" if "get_pin pin = Some (port, b)" for pin port b
    using reg that by (simp add: rt_pin_write_def stm32_pin_write_def)
  have l: "board_levels (HAL_GPIO_WritePin port b y g) =
     (if bit (gp_odr (HAL_GPIO_WritePin port b y g) 1) 5 then 1 else 0,
      if bit (gp_odr (HAL_GPIO_WritePin port b y g) 4) 5 then 1 else 0,
      if bit (gp_odr (HAL_GPIO_WritePin port b y g) 1) 12 then 1 else 0)" for port b y
    by (rule board_level [OF r])
  show "\<exists>g'. rt_pin_write LED0_PIN x g = Some g' \<and> board_ready g' \<and>
      board_levels g' = (if x = 0 then 0 else 1, snd (board_levels g))"
    unfolding w [OF board_pins(1)] using r l board_level [OF assms]
    by (simp add: HAL_GPIO_WritePin_def set_clear_bit del: push_bit_of_1)
  show "\<exists>g'. rt_pin_write LED1_PIN x g = Some g' \<and> board_ready g' \<and>
      board_levels g' = (fst (board_levels g), if x = 0 then 0 else 1, snd (snd (board_levels g)))"
    unfolding w [OF board_pins(2)] using r l board_level [OF assms]
    by (simp add: HAL_GPIO_WritePin_def set_clear_bit del: push_bit_of_1)
  show "\<exists>g'. rt_pin_write RELAY0_PIN x g = Some g' \<and> board_ready g' \<and>
      board_levels g' = (fst (board_levels g), fst (snd (board_levels g)), if x = 0 then 0 else 1)"
    unfolding w [OF board_pins(3)] using r l board_level [OF assms]
    by (simp add: HAL_GPIO_WritePin_def set_clear_bit del: push_bit_of_1)
qed

lemma board_do_spec:
  assumes "board_ready g"
  shows "\<exists>g'. board_do x g = Some g' \<and> board_ready g' \<and> board_levels g' = board_spec x (board_levels g)"
proof -
  obtain a b c where l: "board_levels g = (a, b, c)" by (cases "board_levels g") auto
  have reg: "gp_registered g" using assms by (simp add: board_ready_def)
  have rd: "rt_pin_read LED0_PIN g = Some a" "rt_pin_read LED1_PIN g = Some b"
    using l reg by (simp_all add: rt_pin_read_def board_levels_def)
  have ab: "a = 0 \<or> a = 1" "b = 0 \<or> b = 1" using l board_level [OF assms] by (auto split: if_splits)
  note W = board_write [OF assms, unfolded l]
  show ?thesis
    using W(1) [of 0] W(1) [of 1] W(2) [of 0] W(2) [of 1] W(3) [of 0] W(3) [of 1] rd ab
    by (cases x) (auto simp: led0_open_def led0_close_def led0_toggle_def led1_open_def led1_close_def led1_toggle_def
        relay_open_def relay_close_def l)
qed

lemma board_run_spec:
  "board_ready g \<Longrightarrow> \<exists>g'. board_run xs g = Some g' \<and> board_ready g' \<and>
    board_levels g' = fold board_spec xs (board_levels g)"
proof (induction xs arbitrary: g)
  case (Cons x xs)
  obtain g1 where "board_do x g = Some g1" "board_ready g1" "board_levels g1 = board_spec x (board_levels g)"
    using board_do_spec [OF Cons.prems] by blast
  then show ?case using Cons.IH [of g1] by auto
qed simp

lemma board_init_spec:
  assumes "gp_registered g"
  shows "\<exists>g'. do { g1 \<leftarrow> led_init g; relay_init g1 } = Some g' \<and> board_ready g' \<and> board_levels g' = (1, 1, 1)"
proof -
  let ?m = "\<lambda>port b g. HAL_GPIO_Init port b GPIO_MODE_OUTPUT_PP GPIO_NOPULL g"
  let ?w = "\<lambda>port b g. HAL_GPIO_WritePin port b True g"
  let ?g = "?w 1 (push_bit 12 1) (?m 1 (push_bit 12 1) (?w 4 (push_bit 5 1) (?w 1 (push_bit 5 1)
     (?m 4 (push_bit 5 1) (?m 1 (push_bit 5 1) g)))))"
  have reg: "gp_registered (HAL_GPIO_Init port b m p h) = gp_registered h"
    "gp_registered (HAL_GPIO_WritePin port b x h) = gp_registered h" for port b m p x h
    by (simp_all add: HAL_GPIO_Init_def HAL_GPIO_WritePin_def)
  have run: "do { g1 \<leftarrow> led_init g; relay_init g1 } = Some ?g"
    using assms
    by (simp add: led_init_def relay_init_def rt_pin_mode_def rt_pin_write_def stm32_pin_mode_def stm32_pin_write_def
        board_pins pin_mode_init_def reg del: push_bit_of_1)
  have ne: "push_bit 5 1 \<noteq> (push_bit 12 1 :: u32)" by (simp add: push_bit_one_eq)
  have ready: "board_ready ?g"
    using assms by (simp add: board_ready_def output_pin_def board_pins HAL_GPIO_Init_def HAL_GPIO_WritePin_def)
  moreover have "board_levels ?g = (1, 1, 1)"
    unfolding board_level [OF ready]
    by (simp add: HAL_GPIO_Init_def HAL_GPIO_WritePin_def pull_odr_def set_clear_bit del: push_bit_of_1)
  ultimately show ?thesis using run by blast
qed

end
