(* ===== verification/Printf.thy ===== *)
theory Printf
  imports KPrelude "HOL-Library.Monad_Syntax"
begin

unbundle bit_operations_syntax

text \<open>
  Formatted printing of src/kservice.c: \<open>print_number\<close>, \<open>rt_vsnprintf\<close> and the functions above
  it, in this configuration (\<open>RT_PRINTF_PRECISION\<close> defined, \<open>RT_PRINTF_LONGLONG\<close> and
  \<open>RT_PRINTF_SPECIAL\<close> not). A format is the list of its characters before the terminating zero, so
  that a pointer into it is a rest of the list; the output buffer is a block of memory at an address, a
  pointer into it an address of 32 bits, which may run past the end and wrap as it does in the source.
  \<open>None\<close> is an access outside the buffer, an argument that is missing or of the wrong kind, or a
  signed overflow.
\<close>

section \<open>Output\<close>

text \<open>
  The buffer and the address \<open>str\<close>. Every step knows where the buffer starts, and the address
  \<open>end\<close>.
\<close>

type_synonym pout = "char list \<times> u32"

record prange =
  p_buf :: u32
  p_end :: u32

definition put :: "prange \<Rightarrow> char \<Rightarrow> pout \<Rightarrow> pout option" where
  "put e x st = (case st of (buf, str) \<Rightarrow>
     if str \<le> p_end e then map_option (\<lambda>b. (b, str + 1)) (mem_write buf (int (unat str) - int (unat (p_buf e))) x)
     else Some (buf, str + 1))"

fun put_all :: "prange \<Rightarrow> char list \<Rightarrow> pout \<Rightarrow> pout option" where
  "put_all e [] st = Some st"
| "put_all e (x # xs) st = do { st1 \<leftarrow> put e x st; put_all e xs st1 }"

text \<open>\<open>while (n-- > 0)\<close>: what is left in \<open>n\<close>, and the output.\<close>

definition pad_down :: "prange \<Rightarrow> char \<Rightarrow> int \<Rightarrow> pout \<Rightarrow> (int \<times> pout) option" where
  "pad_down e x n st =
     (if n = - (2 ^ 31) then None
      else do { st1 \<leftarrow> put_all e (replicate (nat n) x) st; Some (if 0 < n then - 1 else n - 1, st1) })"

section \<open>Numbers\<close>

definition has_flag :: "u8 \<Rightarrow> u8 \<Rightarrow> bool" where "has_flag f b \<longleftrightarrow> f AND b \<noteq> 0"

definition ZEROPAD :: u8 where "ZEROPAD = push_bit 0 1"
definition SIGN :: u8 where "SIGN = push_bit 1 1"
definition PLUS :: u8 where "PLUS = push_bit 2 1"
definition SPACE :: u8 where "SPACE = push_bit 3 1"
definition LEFT :: u8 where "LEFT = push_bit 4 1"
definition SPECIAL :: u8 where "SPECIAL = push_bit 5 1"
definition LARGE :: u8 where "LARGE = push_bit 6 1"

text \<open>A base other than 10 is taken for 16, also the base 8 of \<open>%o\<close>.\<close>

definition divide_num :: "u32 \<Rightarrow> nat \<Rightarrow> nat \<times> u32" where
  "divide_num n base = (if base = 10 then (unat (n mod 10), n div 10) else (unat (n mod 16), n div 16))"

definition small_digits :: string where "small_digits = ''0123456789abcdef''"
definition large_digits :: string where "large_digits = ''0123456789ABCDEF''"

lemma word_div_less: "n \<noteq> 0 \<Longrightarrow> 1 < d \<Longrightarrow> unat (n div d) < unat n" for n d :: u32
  by (simp add: unat_div word_less_nat_alt unat_gt_0)

text \<open>The digits, the last one first, in \<open>tmp\<close>, which has room for 16.\<close>

function number_loop :: "string \<Rightarrow> nat \<Rightarrow> u32 \<Rightarrow> string \<Rightarrow> string option" where
  "number_loop digits base n tmp =
     (if n = 0 then Some tmp
      else case divide_num n base of (d, n1) \<Rightarrow>
        if length tmp < 16 then number_loop digits base n1 (tmp @ [digits ! d]) else None)"
  by pat_completeness auto
termination
  by (relation "measure (\<lambda>(ds, b, n, tmp). unat n)") (auto simp: divide_num_def word_div_less split: if_splits)

declare number_loop.simps [simp del]

text \<open>The sign to print and the number to print behind it; negating the smallest number gives it back.\<close>

definition number_sign :: "u8 \<Rightarrow> u32 \<Rightarrow> char option \<times> u32" where
  "number_sign type num =
     (if has_flag type SIGN
      then if sint num < 0 then (Some CHR ''-'', - num)
           else if has_flag type PLUS then (Some CHR ''+'', num)
           else if has_flag type SPACE then (Some CHR '' '', num) else (None, num)
      else (None, num))"

definition print_number :: "prange \<Rightarrow> u32 \<Rightarrow> nat \<Rightarrow> int \<Rightarrow> int \<Rightarrow> u8 \<Rightarrow> pout \<Rightarrow> pout option" where
  "print_number e num0 base s precision type0 st =
     (let digits = (if has_flag type0 LARGE then large_digits else small_digits);
          type = (if has_flag type0 LEFT then type0 AND NOT ZEROPAD else type0);
          c = (if has_flag type ZEROPAD then CHR ''0'' else CHR '' '');
          (sign, num) = number_sign type num0
      in do {
        tmp \<leftarrow> (if num = 0 then Some ''0'' else number_loop digits base num []);
        let i = int (length tmp);
        let prec = (if precision < i then i else precision);
        let size = s - prec;
        (size, st) \<leftarrow> (if \<not> has_flag type ZEROPAD \<and> \<not> has_flag type LEFT
                      then pad_down e CHR '' '' (if sign \<noteq> None \<and> 0 < size then size - 1 else size) st
                      else Some (size, st));
        (size, st) \<leftarrow> (case sign of None \<Rightarrow> Some (size, st)
                      | Some x \<Rightarrow> do { st1 \<leftarrow> put e x st;
                                   if snd st \<le> p_end e then if size = - (2 ^ 31) then None else Some (size - 1, st1)
                                   else Some (size, st1) });
        (size, st) \<leftarrow> (if \<not> has_flag type LEFT then pad_down e c size st else Some (size, st));
        st \<leftarrow> put_all e (replicate (nat (prec - i)) CHR ''0'') st;
        st \<leftarrow> (if precision \<noteq> 0 then put_all e (rev tmp) st else Some st);
        (size, st) \<leftarrow> pad_down e CHR '' '' size st;
        Some st })"

section \<open>Directives\<close>

definition isdigit :: "char \<Rightarrow> bool" where "isdigit c \<longleftrightarrow> (of_char c - 48 :: u32) < 10"

fun skip_atoi :: "int \<Rightarrow> string \<Rightarrow> (int \<times> string) option" where
  "skip_atoi i [] = Some (i, [])"
| "skip_atoi i (c # s) =
     (if isdigit c then (if i * 10 + of_char c < 2 ^ 31 then skip_atoi (i * 10 + of_char c - 48) s else None)
      else Some (i, c # s))"

datatype printf_arg = Val_Word u32 | Val_Str "string option"

fun arg_word :: "printf_arg list \<Rightarrow> (u32 \<times> printf_arg list) option" where
  "arg_word (Val_Word x # as) = Some (x, as)"
| "arg_word _ = None"

fun arg_str :: "printf_arg list \<Rightarrow> (string option \<times> printf_arg list) option" where
  "arg_str (Val_Str x # as) = Some (x, as)"
| "arg_str _ = None"

fun printf_flags :: "u8 \<Rightarrow> string \<Rightarrow> u8 \<times> string" where
  "printf_flags f [] = (f, [])"
| "printf_flags f (c # s) =
     (if c = CHR ''-'' then printf_flags (f OR LEFT) s
      else if c = CHR ''+'' then printf_flags (f OR PLUS) s
      else if c = CHR '' '' then printf_flags (f OR SPACE) s
      else if c = CHR ''#'' then printf_flags (f OR SPECIAL) s
      else if c = CHR ''0'' then printf_flags (f OR ZEROPAD) s
      else (f, c # s))"

definition printf_width :: "u8 \<Rightarrow> string \<Rightarrow> printf_arg list \<Rightarrow> (u8 \<times> int \<times> string \<times> printf_arg list) option" where
  "printf_width f s as =
     (case s of [] \<Rightarrow> Some (f, - 1, s, as)
      | c # s1 \<Rightarrow>
          if isdigit c then do { (w, s2) \<leftarrow> skip_atoi 0 s; Some (f, w, s2, as) }
          else if c = CHR ''*''
          then do { (x, as1) \<leftarrow> arg_word as;
                    if sint x = - (2 ^ 31) then None
                    else if sint x < 0 then Some (f OR LEFT, - sint x, s1, as1)
                    else Some (f, sint x, s1, as1) }
          else Some (f, - 1, s, as))"

definition printf_precision :: "string \<Rightarrow> printf_arg list \<Rightarrow> (int \<times> string \<times> printf_arg list) option" where
  "printf_precision s as =
     (case s of [] \<Rightarrow> Some (- 1, s, as)
      | c # s1 \<Rightarrow>
          if c \<noteq> CHR ''.'' then Some (- 1, s, as)
          else do {
            (p, s2, as2) \<leftarrow>
              (case s1 of [] \<Rightarrow> Some (- 1, s1, as)
               | d # s3 \<Rightarrow>
                   if isdigit d then do { (p, s4) \<leftarrow> skip_atoi 0 s1; Some (p, s4, as) }
                   else if d = CHR ''*'' then do { (x, as1) \<leftarrow> arg_word as; Some (sint x, s3, as1) }
                   else Some (- 1, s1, as));
            Some (if p < 0 then 0 else p, s2, as2) })"

definition printf_qualifier :: "string \<Rightarrow> char option \<times> string" where
  "printf_qualifier s =
     (case s of [] \<Rightarrow> (None, s) | c # s1 \<Rightarrow> if c = CHR ''h'' \<or> c = CHR ''l'' then (Some c, s1) else (None, s))"

text \<open>What stands between \<open>%\<close> and the conversion, and the conversion, which the format may end without.\<close>

record directive =
  d_flags :: u8
  d_width :: int
  d_prec :: int
  d_qual :: "char option"
  d_conv :: "char option"

definition printf_directive :: "string \<Rightarrow> printf_arg list \<Rightarrow> (directive \<times> string \<times> printf_arg list) option" where
  "printf_directive s as = do {
     let (f, s1) = printf_flags 0 s;
     (f, w, s2, as2) \<leftarrow> printf_width f s1 as;
     (p, s3, as3) \<leftarrow> printf_precision s2 as2;
     let (q, s4) = printf_qualifier s3;
     let d = \<lparr>d_flags = f, d_width = w, d_prec = p, d_qual = q, d_conv = None\<rparr>;
     (case s4 of [] \<Rightarrow> Some (d, [], as3) | c # s5 \<Rightarrow> Some (d\<lparr>d_conv := Some c\<rparr>, s5, as3)) }"

text \<open>The number an integer conversion prints; \<open>num\<close> has 32 bits whatever the qualifier.\<close>

definition printf_num :: "char option \<Rightarrow> u8 \<Rightarrow> u32 \<Rightarrow> u32" where
  "printf_num q f x =
     (if q = Some CHR ''h'' then (if has_flag f SIGN then word_of_int (sint (ucast x :: u16)) else ucast (ucast x :: u16))
      else x)"

definition printf_char :: "prange \<Rightarrow> directive \<Rightarrow> u32 \<Rightarrow> pout \<Rightarrow> pout option" where
  "printf_char e d x st = do {
     (w, st) \<leftarrow> (if \<not> has_flag (d_flags d) LEFT
               then do { st1 \<leftarrow> put_all e (replicate (nat (d_width d - 1)) CHR '' '') st; Some (min 0 (d_width d - 1), st1) }
               else Some (d_width d, st));
     st \<leftarrow> put e (char_of (unat x mod 256)) st;
     put_all e (replicate (nat (w - 1)) CHR '' '') st }"

definition printf_str :: "prange \<Rightarrow> directive \<Rightarrow> string option \<Rightarrow> pout \<Rightarrow> pout option" where
  "printf_str e d s0 st =
     (let s = (case s0 of None \<Rightarrow> ''(NULL)'' | Some s \<Rightarrow> s);
          len = (if 0 < d_prec d \<and> d_prec d < int (length s) then d_prec d else int (length s))
      in do {
        (w, st) \<leftarrow> (if \<not> has_flag (d_flags d) LEFT
                  then do { st1 \<leftarrow> put_all e (replicate (nat (d_width d - len)) CHR '' '') st;
                            Some (min len (d_width d) - 1, st1) }
                  else Some (d_width d, st));
        st \<leftarrow> put_all e (take (nat len) s) st;
        put_all e (replicate (nat (w - len)) CHR '' '') st })"

definition printf_integer :: "prange \<Rightarrow> directive \<Rightarrow> nat \<Rightarrow> u8 \<Rightarrow> printf_arg list \<Rightarrow> pout \<Rightarrow> (pout \<times> printf_arg list) option" where
  "printf_integer e d base f as st = do {
     (x, as1) \<leftarrow> arg_word as;
     st1 \<leftarrow> print_number e (printf_num (d_qual d) f x) base (d_width d) (d_prec d) f st;
     Some (st1, as1) }"

definition printf_conv :: "prange \<Rightarrow> directive \<Rightarrow> printf_arg list \<Rightarrow> pout \<Rightarrow> (pout \<times> printf_arg list) option" where
  "printf_conv e d as st =
     (case d_conv d of None \<Rightarrow> do { st1 \<leftarrow> put e CHR ''%'' st; Some (st1, as) }
      | Some c \<Rightarrow>
          if c = CHR ''c'' then do { (x, as1) \<leftarrow> arg_word as; st1 \<leftarrow> printf_char e d x st; Some (st1, as1) }
          else if c = CHR ''s'' then do { (s, as1) \<leftarrow> arg_str as; st1 \<leftarrow> printf_str e d s st; Some (st1, as1) }
          else if c = CHR ''p''
          then do {
            (x, as1) \<leftarrow> arg_word as;
            let (w, f) = (if d_width d = - 1 then (8, d_flags d OR ZEROPAD) else (d_width d, d_flags d));
            st1 \<leftarrow> print_number e x 16 w (d_prec d) f st;
            Some (st1, as1) }
          else if c = CHR ''%'' then do { st1 \<leftarrow> put e CHR ''%'' st; Some (st1, as) }
          else if c = CHR ''o'' then printf_integer e d 8 (d_flags d) as st
          else if c = CHR ''X'' then printf_integer e d 16 (d_flags d OR LARGE) as st
          else if c = CHR ''x'' then printf_integer e d 16 (d_flags d) as st
          else if c = CHR ''d'' \<or> c = CHR ''i'' then printf_integer e d 10 (d_flags d OR SIGN) as st
          else if c = CHR ''u'' then printf_integer e d 10 (d_flags d) as st
          else do { st1 \<leftarrow> put_all e [CHR ''%'', c] st; Some (st1, as) })"

section \<open>Formats\<close>

lemma printf_flags_length: "length (snd (printf_flags f s)) \<le> length s"
  by (induction f s rule: printf_flags.induct) auto

lemma skip_atoi_length: "skip_atoi i s = Some (j, s') \<Longrightarrow> length s' \<le> length s"
  by (induction i s rule: skip_atoi.induct) (auto split: if_splits)

lemma printf_directive_length: "printf_directive s as = Some (d, s', as') \<Longrightarrow> length s' \<le> length s"
proof -
  assume run: "printf_directive s as = Some (d, s', as')"
  obtain f s1 where f: "printf_flags 0 s = (f, s1)" by (cases "printf_flags 0 s")
  then have l1: "length s1 \<le> length s" using printf_flags_length [of 0 s] by simp
  from run f obtain f2 w s2 as2 where w: "printf_width f s1 as = Some (f2, w, s2, as2)"
    by (auto simp: printf_directive_def split: Option.bind_splits)
  then have l2: "length s2 \<le> length s1"
    by (auto simp: printf_width_def split: list.splits if_splits Option.bind_splits dest: skip_atoi_length)
  from run f w obtain p s3 as3 where p: "printf_precision s2 as2 = Some (p, s3, as3)"
    by (auto simp: printf_directive_def split: Option.bind_splits)
  then have l3: "length s3 \<le> length s2"
    by (auto simp: printf_precision_def split: list.splits if_splits Option.bind_splits dest: skip_atoi_length)
  obtain q s4 where q: "printf_qualifier s3 = (q, s4)" by (cases "printf_qualifier s3")
  then have l4: "length s4 \<le> length s3" by (auto simp: printf_qualifier_def split: list.splits if_splits)
  have "length s' \<le> length s4"
    using run f w p q by (auto simp: printf_directive_def Let_def split: list.splits)
  then show ?thesis using l1 l2 l3 l4 by simp
qed

function printf_loop :: "prange \<Rightarrow> string \<Rightarrow> printf_arg list \<Rightarrow> pout \<Rightarrow> pout option" where
  "printf_loop e [] as st = Some st"
| "printf_loop e (c # s) as st =
     (if c \<noteq> CHR ''%'' then do { st1 \<leftarrow> put e c st; printf_loop e s as st1 }
      else do { (d, s1, as1) \<leftarrow> printf_directive s as;
                (st1, as2) \<leftarrow> printf_conv e d as1 st;
                printf_loop e s1 as2 st1 })"
  by pat_completeness auto
termination
  by (relation "measure (\<lambda>(e, s, as, st). length s)") (auto dest!: printf_directive_length)

text \<open>The address \<open>end\<close>; a size that would put it before the buffer gives it the end of the address space.\<close>

definition printf_end :: "u32 \<Rightarrow> u32 \<Rightarrow> u32" where
  "printf_end base sz = (let e = base + sz - 1 in if e < base then - 1 else e)"

text \<open>The result is the difference of two pointers as an \<open>rt_int32_t\<close>.\<close>

definition rt_vsnprintf :: "u32 \<Rightarrow> char list \<Rightarrow> u32 \<Rightarrow> string \<Rightarrow> printf_arg list \<Rightarrow> (int \<times> char list) option" where
  "rt_vsnprintf base buf sz fmt as =
     (let e = \<lparr>p_buf = base, p_end = printf_end base sz\<rparr> in do {
        (buf1, str) \<leftarrow> printf_loop e fmt as (buf, base);
        buf2 \<leftarrow> (if str \<le> p_end e then mem_write buf1 (int (unat str) - int (unat base)) CHR 0x00
                else mem_write buf1 (int (unat (p_end e)) - int (unat base)) CHR 0x00);
        Some (sint (str - base), buf2) })"

definition rt_snprintf :: "u32 \<Rightarrow> char list \<Rightarrow> u32 \<Rightarrow> string \<Rightarrow> printf_arg list \<Rightarrow> (int \<times> char list) option" where
  "rt_snprintf = rt_vsnprintf"

definition rt_vsprintf :: "u32 \<Rightarrow> char list \<Rightarrow> string \<Rightarrow> printf_arg list \<Rightarrow> (int \<times> char list) option" where
  "rt_vsprintf base buf fmt as = rt_vsnprintf base buf (- 1) fmt as"

definition rt_sprintf :: "u32 \<Rightarrow> char list \<Rightarrow> string \<Rightarrow> printf_arg list \<Rightarrow> (int \<times> char list) option" where
  "rt_sprintf = rt_vsprintf"

text \<open>What \<open>rt_kprintf\<close> writes to the console, and its buffer afterwards.\<close>

definition RT_CONSOLEBUF_SIZE :: nat where "RT_CONSOLEBUF_SIZE = 128"

definition kprintf_text :: "u32 \<Rightarrow> char list \<Rightarrow> string \<Rightarrow> printf_arg list \<Rightarrow> (string \<times> char list) option" where
  "kprintf_text base buf fmt as = do {
     (n, buf1) \<leftarrow> rt_vsnprintf base buf (of_nat (RT_CONSOLEBUF_SIZE - 1)) fmt as;
     let n = (if int (RT_CONSOLEBUF_SIZE - 1) < n then int (RT_CONSOLEBUF_SIZE - 1) else n);
     Some (take (nat n) buf1, buf1) }"

section \<open>What a format means\<close>

text \<open>The characters each directive stands for, without any buffer.\<close>

definition justify :: "bool \<Rightarrow> int \<Rightarrow> string \<Rightarrow> string" where
  "justify left w xs =
     (let fill = replicate (nat (w - int (length xs))) CHR '' '' in if left then xs @ fill else fill @ xs)"

function numeral_text :: "string \<Rightarrow> nat \<Rightarrow> nat \<Rightarrow> string" where
  "numeral_text digits b n = (if n < b \<or> b < 2 then [digits ! n] else numeral_text digits b (n div b) @ [digits ! (n mod b)])"
  by pat_completeness auto
termination by (relation "measure (\<lambda>(ds, b, n). n)") auto

declare numeral_text.simps [simp del]

definition number_text :: "u32 \<Rightarrow> nat \<Rightarrow> int \<Rightarrow> int \<Rightarrow> u8 \<Rightarrow> string" where
  "number_text x base w p f =
     (let digits = numeral_text (if has_flag f LARGE then large_digits else small_digits)
            (if base = 10 then 10 else 16) (unat (snd (number_sign f x)));
          sign = (case fst (number_sign f x) of None \<Rightarrow> [] | Some c \<Rightarrow> [c]);
          n = max (int (length digits)) p;
          body = replicate (nat (n - int (length digits))) CHR ''0'' @ (if p = 0 then [] else digits);
          fill = nat (w - n - int (length sign))
      in if has_flag f LEFT then sign @ body @ replicate fill CHR '' ''
         else if has_flag f ZEROPAD then sign @ replicate fill CHR ''0'' @ body
         else replicate fill CHR '' '' @ sign @ body)"

definition integer_text :: "directive \<Rightarrow> nat \<Rightarrow> u8 \<Rightarrow> printf_arg list \<Rightarrow> (string \<times> printf_arg list) option" where
  "integer_text d base f as = do {
     (x, as1) \<leftarrow> arg_word as;
     Some (number_text (printf_num (d_qual d) f x) base (d_width d) (d_prec d) f, as1) }"

definition str_text :: "directive \<Rightarrow> string option \<Rightarrow> string" where
  "str_text d s0 =
     (let s = (case s0 of None \<Rightarrow> ''(NULL)'' | Some s \<Rightarrow> s)
      in justify (has_flag (d_flags d) LEFT) (d_width d) (if 0 < d_prec d then take (nat (d_prec d)) s else s))"

definition directive_text :: "directive \<Rightarrow> printf_arg list \<Rightarrow> (string \<times> printf_arg list) option" where
  "directive_text d as =
     (case d_conv d of None \<Rightarrow> Some (''%'', as)
      | Some c \<Rightarrow>
          if c = CHR ''c''
          then do { (x, as1) \<leftarrow> arg_word as;
                    Some (justify (has_flag (d_flags d) LEFT) (d_width d) [char_of (unat x mod 256)], as1) }
          else if c = CHR ''s'' then do { (s, as1) \<leftarrow> arg_str as; Some (str_text d s, as1) }
          else if c = CHR ''p''
          then do { (x, as1) \<leftarrow> arg_word as;
                    Some (if d_width d = - 1 then number_text x 16 8 (d_prec d) (d_flags d OR ZEROPAD)
                          else number_text x 16 (d_width d) (d_prec d) (d_flags d), as1) }
          else if c = CHR ''%'' then Some (''%'', as)
          else if c = CHR ''o'' then integer_text d 8 (d_flags d) as
          else if c = CHR ''X'' then integer_text d 16 (d_flags d OR LARGE) as
          else if c = CHR ''x'' then integer_text d 16 (d_flags d) as
          else if c = CHR ''d'' \<or> c = CHR ''i'' then integer_text d 10 (d_flags d OR SIGN) as
          else if c = CHR ''u'' then integer_text d 10 (d_flags d) as
          else Some ([CHR ''%'', c], as))"

function format_text :: "string \<Rightarrow> printf_arg list \<Rightarrow> string option" where
  "format_text [] as = Some []"
| "format_text (c # s) as =
     (if c \<noteq> CHR ''%'' then map_option (Cons c) (format_text s as)
      else do { (d, s1, as1) \<leftarrow> printf_directive s as;
                (t, as2) \<leftarrow> directive_text d as1;
                map_option ((@) t) (format_text s1 as2) })"
  by pat_completeness auto
termination
  by (relation "measure (\<lambda>(s, as). length s)") (auto dest!: printf_directive_length)

section \<open>The output in the buffer\<close>

text \<open>
  A buffer at \<open>b\<close> with \<open>k\<close> bytes up to \<open>end\<close>, itself included, that lies in the address
  space. \<open>within\<close>: a text of length \<open>n\<close> that is cut, with \<open>d\<close> characters more, ends in it.
\<close>

definition range_of :: "u32 \<Rightarrow> nat \<Rightarrow> prange" where
  "range_of b k = \<lparr>p_buf = b, p_end = b + of_nat (k - 1)\<rparr>"

lemma range_of_buf [simp]: "p_buf (range_of b k) = b"
  by (simp add: range_of_def)

definition buffer_ok :: "u32 \<Rightarrow> nat \<Rightarrow> bool" where
  "buffer_ok b k \<longleftrightarrow> 0 < k \<and> unat b + k \<le> 2 ^ 32"

definition within :: "u32 \<Rightarrow> nat \<Rightarrow> nat \<Rightarrow> nat \<Rightarrow> bool" where
  "within b k n d \<longleftrightarrow> (k \<le> n \<longrightarrow> unat b + n + d \<le> 2 ^ 32)"

lemma within_mono: "within b k n d \<Longrightarrow> m \<le> n \<Longrightarrow> c \<le> d \<Longrightarrow> within b k m c"
  by (auto simp: within_def)

lemma unat_offset: "unat b + n < 2 ^ 32 \<Longrightarrow> unat (b + of_nat n) = unat b + n" for b :: u32
  by (simp add: unat_word_ariths unat_of_nat)

lemma offset_le:
  assumes "buffer_ok b k" and "unat b + n < 2 ^ 32"
  shows "(b + of_nat n \<le> p_end (range_of b k)) = (n < k)"
proof -
  have "unat b + (k - 1) < 2 ^ 32" using assms(1) by (auto simp: buffer_ok_def)
  then have "unat (b + of_nat (k - 1)) = unat b + (k - 1)" by (rule unat_offset)
  then have "(b + of_nat n \<le> p_end (range_of b k)) = (unat b + n \<le> unat b + (k - 1))"
    unfolding range_of_def prange.select_convs word_le_nat_alt unat_offset [OF assms(2)] by simp
  then show ?thesis using assms(1) by (auto simp: buffer_ok_def)
qed

text \<open>
  After the text \<open>xs\<close> the buffer shows its first \<open>k\<close> characters; the pointer is exact until the
  room is used up; then it is not below the room, and at most \<open>d\<close> characters ahead of the text.
\<close>

definition shows_text :: "u32 \<Rightarrow> nat \<Rightarrow> char list \<Rightarrow> char list \<Rightarrow> nat \<Rightarrow> pout \<Rightarrow> bool" where
  "shows_text b k b0 xs d st \<longleftrightarrow> fst st = take k xs @ drop (min k (length xs)) b0 \<and>
     (\<exists>n. snd st = b + of_nat n \<and> n \<le> length xs + d \<and> (length xs < k \<longrightarrow> n = length xs) \<and> (k \<le> length xs \<longrightarrow> k \<le> n))"

lemma shows_mono: "shows_text b k b0 xs c st \<Longrightarrow> c \<le> d \<Longrightarrow> shows_text b k b0 xs d st"
  unfolding shows_text_def by (elim conjE exE, intro conjI exI) (assumption | simp)+

lemma put_shows:
  assumes ok: "buffer_ok b k" and sh: "shows_text b k b0 xs d st" and room: "min k (Suc (length xs)) \<le> length b0"
    and w: "within b k (Suc (length xs)) d"
  shows "\<exists>st'. put (range_of b k) x st = Some st' \<and> shows_text b k b0 (xs @ [x]) d st'"
proof -
  obtain buf n where st: "st = (buf, b + of_nat n)" "buf = take k xs @ drop (min k (length xs)) b0" "n \<le> length xs + d"
    "length xs < k \<longrightarrow> n = length xs" "k \<le> length xs \<longrightarrow> k \<le> n"
    using sh by (cases st) (auto simp: shows_text_def)
  have suc: "b + of_nat n + 1 = b + of_nat (Suc n)" by simp
  show ?thesis
  proof (cases "length xs < k")
    case True
    then have a: "buf = xs @ drop (length xs) b0" "n = length xs" using st by (simp_all add: min_def)
    have l: "length xs < length b0" using room True by simp
    have nb: "unat b + n < 2 ^ 32" using ok True a(2) by (auto simp: buffer_ok_def)
    have "mem_write buf (int (unat (b + of_nat n)) - int (unat b)) x = Some ((xs @ [x]) @ drop (Suc (length xs)) b0)"
      using l unat_offset [OF nb] by (simp add: a mem_write_def list_update_append Cons_nth_drop_Suc [symmetric])
    moreover have "min k (Suc (length xs)) = Suc (length xs)" using True by simp
    ultimately have "put (range_of b k) x st = Some ((xs @ [x]) @ drop (Suc (length xs)) b0, b + of_nat (Suc n))"
      using offset_le [OF ok nb] True a(2) suc by (simp add: st(1) put_def)
    moreover have "take k (xs @ [x]) = xs @ [x]" using True by simp
    ultimately show ?thesis
      using True a(2) \<open>min k (Suc (length xs)) = Suc (length xs)\<close> by (auto simp: shows_text_def intro!: exI [of _ "Suc n"])
  next
    case False
    have nb: "unat b + n < 2 ^ 32" using w False st(3) by (auto simp: within_def)
    have "put (range_of b k) x st = Some (buf, b + of_nat (Suc n))"
      using offset_le [OF ok nb] False st(5) suc by (simp add: st(1) put_def)
    then show ?thesis using False st(2,3,5) by (auto simp: shows_text_def intro!: exI [of _ "Suc n"])
  qed
qed

lemma put_all_shows:
  "buffer_ok b k \<Longrightarrow> shows_text b k b0 xs d st \<Longrightarrow> min k (length (xs @ ys)) \<le> length b0 \<Longrightarrow>
    within b k (length (xs @ ys)) d \<Longrightarrow> \<exists>st'. put_all (range_of b k) ys st = Some st' \<and> shows_text b k b0 (xs @ ys) d st'"
proof (induction ys arbitrary: xs st)
  case (Cons y ys)
  have "min k (Suc (length xs)) \<le> length b0" using Cons.prems(3) by auto
  moreover have "within b k (Suc (length xs)) d" using Cons.prems(4) by (rule within_mono) simp_all
  ultimately obtain st1 where "put (range_of b k) y st = Some st1" "shows_text b k b0 (xs @ [y]) d st1"
    using put_shows [OF Cons.prems(1,2)] by blast
  then show ?case using Cons.IH [of "xs @ [y]" st1] Cons.prems by auto
qed simp

lemma shows_room:
  assumes "buffer_ok b k" "shows_text b k b0 xs d st" "within b k (length xs) (Suc d)"
  shows "(snd st \<le> p_end (range_of b k)) = (length xs < k)"
proof -
  obtain n where n: "snd st = b + of_nat n" "n \<le> length xs + d" "length xs < k \<longrightarrow> n = length xs" "k \<le> length xs \<longrightarrow> k \<le> n"
    using assms(2) by (auto simp: shows_text_def)
  have "unat b + n < 2 ^ 32" using assms(1,3) n by (cases "length xs < k") (auto simp: buffer_ok_def within_def)
  then show ?thesis using offset_le [OF assms(1)] n by (cases "length xs < k") auto
qed

text \<open>Once the room is used up it does not matter what is put, only how much.\<close>

lemma put_all_over:
  assumes ok: "buffer_ok b k"
  shows "k \<le> n \<Longrightarrow> unat b + n + length ys \<le> 2 ^ 32 \<Longrightarrow>
    put_all (range_of b k) ys (buf, b + of_nat n) = Some (buf, b + of_nat (n + length ys))"
proof (induction ys arbitrary: n)
  case (Cons y ys)
  have nb: "unat b + n < 2 ^ 32" using Cons.prems(2) by simp
  have "put (range_of b k) y (buf, b + of_nat n) = Some (buf, b + of_nat (Suc n))"
    using offset_le [OF ok nb] Cons.prems(1) by (simp add: put_def algebra_simps)
  then show ?case using Cons.IH [of "Suc n"] Cons.prems by simp
qed simp

lemma put_step:
  assumes ok: "buffer_ok b k" and sh: "shows_text b k b0 xs d st" and room: "min k (length (xs @ zs)) \<le> length b0"
    and same: "length xs < k \<Longrightarrow> ys = zs" and len: "length ys \<le> length zs + j" and w: "within b k (length (xs @ zs)) (d + j)"
  obtains st' where "put_all (range_of b k) ys st = Some st'" "shows_text b k b0 (xs @ zs) (d + j) st'"
proof (cases "length xs < k")
  case True
  have "within b k (length (xs @ zs)) d" using w by (rule within_mono) simp_all
  then obtain st' where "put_all (range_of b k) zs st = Some st'" "shows_text b k b0 (xs @ zs) d st'"
    using put_all_shows [OF ok sh room] by blast
  then show ?thesis using same [OF True] shows_mono [of b k b0 "xs @ zs" d st' "d + j"] by (intro that) simp_all
next
  case False
  then obtain buf n where st: "st = (buf, b + of_nat n)" "buf = take k xs @ drop k b0" "n \<le> length xs + d" "k \<le> n"
    using sh by (cases st) (auto simp: shows_text_def min_def)
  have "unat b + n + length ys \<le> 2 ^ 32" using w False st(3) len by (auto simp: within_def)
  from put_all_over [OF ok st(4) this] have "put_all (range_of b k) ys st = Some (buf, b + of_nat (n + length ys))"
    by (simp only: st(1))
  moreover have "buf = take k (xs @ zs) @ drop (min k (length (xs @ zs))) b0" using False st(2) by (simp add: min_def)
  moreover have "n + length ys \<le> length (xs @ zs) + (d + j)" "k \<le> n + length ys" "k \<le> length (xs @ zs)"
    using st(3,4) len False by simp_all
  ultimately show ?thesis
    by (intro that [of "(buf, b + of_nat (n + length ys))"])
      (assumption, unfold shows_text_def fst_conv snd_conv, intro conjI exI [of _ "n + length ys"], simp_all)
qed

text \<open>The pieces of a number: what comes behind the sign may be longer by one when there was no room for the sign.\<close>

lemma put_chain:
  assumes ok: "buffer_ok b k" and sh: "shows_text b k b0 xs d st"
    and room: "min k (length (xs @ A @ S @ B @ Z @ D @ C)) \<le> length b0"
    and w: "within b k (length (xs @ A @ S @ B @ Z @ D @ C)) (Suc d)"
    and more: "length B' \<le> length B + i" "length C' \<le> length C + j" "i + j \<le> 1"
  obtains st1 st2 st3 st4 st5 st6 where "put_all (range_of b k) A st = Some st1" "put_all (range_of b k) S st1 = Some st2"
    "put_all (range_of b k) (if snd st1 \<le> p_end (range_of b k) then B else B') st2 = Some st3"
    "put_all (range_of b k) Z st3 = Some st4" "put_all (range_of b k) D st4 = Some st5"
    "put_all (range_of b k) (if snd st1 \<le> p_end (range_of b k) then C else C') st5 = Some st6"
    "shows_text b k b0 (xs @ A @ S @ B @ Z @ D @ C) (Suc d) st6"
proof -
  have room': "min k (length ws) \<le> length b0" and w': "c \<le> Suc d \<Longrightarrow> within b k (length ws) c"
    if "length ws \<le> length (xs @ A @ S @ B @ Z @ D @ C)" for ws :: string and c
    using room w that within_mono by (linarith, blast)
  obtain st1 where 1: "put_all (range_of b k) A st = Some st1" "shows_text b k b0 (xs @ A) (d + 0) st1"
    by (rule put_step [OF ok sh room' _ _ w', of A A, where j = 0]) auto
  let ?in = "snd st1 \<le> p_end (range_of b k)"
  have r1: "?in" if "length ws < k" "length (xs @ A) \<le> length ws" for ws :: string
    using shows_room [OF ok 1(2) w'] that by simp
  obtain st2 where 2: "put_all (range_of b k) S st1 = Some st2" "shows_text b k b0 ((xs @ A) @ S) (d + 0 + 0) st2"
    by (rule put_step [OF ok 1(2) room' _ _ w', of S S, where j = 0]) auto
  have e3: "(if ?in then B else B') = B" if "length ((xs @ A) @ S) < k" using r1 [OF that] by simp
  obtain st3 where 3: "put_all (range_of b k) (if ?in then B else B') st2 = Some st3"
    "shows_text b k b0 (((xs @ A) @ S) @ B) (d + 0 + 0 + i) st3"
    by (rule put_step [OF ok 2(2) room' e3 _ w', where j = i]) (use more in auto)
  obtain st4 where 4: "put_all (range_of b k) Z st3 = Some st4" "shows_text b k b0 ((((xs @ A) @ S) @ B) @ Z) (d + 0 + 0 + i + 0) st4"
    by (rule put_step [OF ok 3(2) room' _ _ w', of Z Z, where j = 0]) (use more in auto)
  obtain st5 where 5: "put_all (range_of b k) D st4 = Some st5"
    "shows_text b k b0 (((((xs @ A) @ S) @ B) @ Z) @ D) (d + 0 + 0 + i + 0 + 0) st5"
    by (rule put_step [OF ok 4(2) room' _ _ w', of D D, where j = 0]) (use more in auto)
  have e6: "(if ?in then C else C') = C" if "length (((((xs @ A) @ S) @ B) @ Z) @ D) < k" using r1 [OF that] by simp
  obtain st6 where 6: "put_all (range_of b k) (if ?in then C else C') st5 = Some st6"
    "shows_text b k b0 ((((((xs @ A) @ S) @ B) @ Z) @ D) @ C) (d + 0 + 0 + i + 0 + 0 + j) st6"
    by (rule put_step [OF ok 5(2) room' e6 _ w', where j = j]) (use more in auto)
  have "shows_text b k b0 (xs @ A @ S @ B @ Z @ D @ C) (Suc d) st6"
    using shows_mono [OF 6(2), of "Suc d"] more(3) by simp
  then show ?thesis by (rule that [OF 1(1) 2(1) 3(1) 4(1) 5(1) 6(1)])
qed

section \<open>Numbers\<close>

lemma numeral_length: "n < b ^ k \<Longrightarrow> 0 < k \<Longrightarrow> 1 < b \<Longrightarrow> length (numeral_text ds b n) \<le> k"
proof (induction ds b n arbitrary: k rule: numeral_text.induct)
  case (1 ds b n)
  show ?case
  proof (cases "n < b")
    case True
    then show ?thesis using 1(3) by (simp add: numeral_text.simps [of ds b n])
  next
    case False
    then have k: "k \<noteq> 1" using 1(2) by (cases "k = 1") auto
    then obtain j where j: "k = Suc j" "0 < j" using 1(3) by (cases k) auto
    have "n div b < b ^ j" using 1(2) j(1) by (simp add: less_mult_imp_div_less mult.commute)
    then have "length (numeral_text ds b (n div b)) \<le> j" using 1(1) False 1(4) j(2) by simp
    then show ?thesis using False 1(4) j(1) by (simp add: numeral_text.simps [of ds b n])
  qed
qed

lemma divide_unat: "b = (if base = 10 then 10 else 16) \<Longrightarrow> fst (divide_num n base) = unat n mod b \<and> unat (snd (divide_num n base)) = unat n div b"
  by (simp add: divide_num_def unat_div unat_mod)

lemma number_loop_text:
  assumes "b = (if base = 10 then 10 else 16)"
  shows "n \<noteq> 0 \<Longrightarrow> length tmp + length (numeral_text ds b (unat n)) \<le> 16 \<Longrightarrow>
    number_loop ds base n tmp = Some (tmp @ rev (numeral_text ds b (unat n)))"
proof (induction "unat n" arbitrary: n tmp rule: less_induct)
  case less
  obtain d n1 where d: "divide_num n base = (d, n1)" by (cases "divide_num n base")
  then have dn: "d = unat n mod b" "unat n1 = unat n div b" using divide_unat [OF assms, of n] by simp_all
  have b: "1 < b" using assms by (simp split: if_splits)
  have pos: "0 < unat n" using less.prems(1) by (simp add: unat_gt_0)
  have step: "number_loop ds base n tmp = (if length tmp < 16 then number_loop ds base n1 (tmp @ [ds ! d]) else None)"
    using less.prems(1) d by (simp add: number_loop.simps [of ds base n])
  show ?case
  proof (cases "unat n < b")
    case True
    then have "n1 = 0" "d = unat n" using dn by (simp_all add: unat_eq_zero [symmetric] del: unat_eq_zero)
    then show ?thesis using step True less.prems(2)
      by (simp add: numeral_text.simps [of ds b "unat n"] number_loop.simps [of ds base 0])
  next
    case False
    then have n1: "n1 \<noteq> 0" using dn b by (auto simp: div_eq_0_iff)
    have lt: "unat n1 < unat n" using dn(2) pos b by simp
    have t: "numeral_text ds b (unat n) = numeral_text ds b (unat n1) @ [ds ! d]"
      using False b dn by (simp add: numeral_text.simps [of ds b "unat n"])
    show ?thesis using less.hyps [OF lt n1, of "tmp @ [ds ! d]"] step less.prems(2) t by auto
  qed
qed

lemma has_flag_bit: "has_flag f (push_bit n 1) = bit f n" for f :: u8
  using and_exp_eq_0_iff_not_bit [of f n] by (simp add: has_flag_def)

lemma bit_one_of: "bit (push_bit n 1 :: u8) m = (m = n \<and> n < 8)"
  by (auto simp: bit_exp_iff)

lemmas flag_defs = ZEROPAD_def SIGN_def PLUS_def SPACE_def LEFT_def SPECIAL_def LARGE_def

lemma flag_clear:
  "has_flag (f AND NOT ZEROPAD) LEFT = has_flag f LEFT" "\<not> has_flag (f AND NOT ZEROPAD) ZEROPAD"
  "number_sign (f AND NOT ZEROPAD) x = number_sign f x"
  unfolding number_sign_def flag_defs has_flag_bit bit_and_iff bit_not_iff bit_one_of
  by (auto simp: bit_imp_le_length)

lemma flag_set:
  "has_flag (f OR LEFT) LEFT" "has_flag (f OR ZEROPAD) LEFT = has_flag f LEFT" "has_flag (f OR ZEROPAD) ZEROPAD"
  "has_flag (f OR ZEROPAD) SIGN = has_flag f SIGN" "has_flag (f OR ZEROPAD) LARGE = has_flag f LARGE"
  "has_flag (f OR SIGN) SIGN" "has_flag (f OR SIGN) LEFT = has_flag f LEFT" "has_flag (f OR SIGN) ZEROPAD = has_flag f ZEROPAD"
  "has_flag (f OR SIGN) PLUS = has_flag f PLUS" "has_flag (f OR SIGN) SPACE = has_flag f SPACE"
  "has_flag (f OR SIGN) LARGE = has_flag f LARGE"
  "has_flag (f OR LARGE) LARGE" "has_flag (f OR LARGE) LEFT = has_flag f LEFT" "has_flag (f OR LARGE) ZEROPAD = has_flag f ZEROPAD"
  "has_flag (f OR LARGE) SIGN = has_flag f SIGN"
  unfolding flag_defs has_flag_bit bit_or_iff bit_one_of by auto

lemma numeral_text_0: "0 < b \<Longrightarrow> numeral_text ds b 0 = [ds ! 0]"
  by (simp add: numeral_text.simps [of ds b 0])

lemma numeral_short:
  assumes "b = 10 \<or> b = 16"
  shows "length (numeral_text ds b (unat (n :: u32))) \<le> 10"
proof -
  have "unat n < b ^ 10" using unsigned_less [of n] assms by (auto intro: less_le_trans)
  then show ?thesis using assms by (intro numeral_length) auto
qed

lemma number_digits:
  assumes "b = (if base = 10 then 10 else 16)"
  shows "(if n = 0 then Some ''0'' else number_loop (if l then large_digits else small_digits) base n []) =
    Some (rev (numeral_text (if l then large_digits else small_digits) b (unat n)))"
proof (cases "n = 0")
  case True
  then show ?thesis using assms by (simp add: numeral_text_0 small_digits_def large_digits_def)
next
  case False
  have "length (numeral_text ds b (unat n)) \<le> 10" for ds by (rule numeral_short) (use assms in simp)
  then have "length (numeral_text ds b (unat n)) \<le> 16" for ds by (rule le_trans) simp
  then show ?thesis using False number_loop_text [OF assms False] by simp
qed

lemma put_all_Nil: "put_all e [] = Some"
  by (rule ext) simp

lemma print_number_shows:
  assumes ok: "buffer_ok b k" and sh: "shows_text b k b0 xs d st"
    and room: "min k (length (xs @ number_text num base w p f)) \<le> length b0"
    and win: "within b k (length (xs @ number_text num base w p f)) (Suc d)"
    and small: "- 1 \<le> w" "length (number_text num base w p f) < 2 ^ 30"
  shows "\<exists>st'. print_number (range_of b k) num base w p f st = Some st' \<and>
    shows_text b k b0 (xs @ number_text num base w p f) (Suc d) st'"
proof -
  obtain sg n where sg: "number_sign f num = (sg, n)" by (cases "number_sign f num")
  define t where "t = numeral_text (if has_flag f LARGE then large_digits else small_digits)
      (if base = 10 then 10 else 16) (unat n)"
  define i where "i = int (length t)"
  define M where "M = (if p < i then i else p)"
  define m where "m = w - M"
  define S where "S = (case sg of None \<Rightarrow> [] | Some c \<Rightarrow> [c])"
  define Z where "Z = replicate (nat (M - i)) CHR ''0''"
  define D where "D = (if p = 0 then [] else t)"
  define e where "e = range_of b k"
  let ?fill = "nat (m - int (length S))"
  define A where "A = (if \<not> has_flag f LEFT \<and> \<not> has_flag f ZEROPAD then replicate ?fill CHR '' '' else [])"
  define B where "B = (if \<not> has_flag f LEFT \<and> has_flag f ZEROPAD then replicate ?fill CHR ''0'' else [])"
  define B' where "B' = (if \<not> has_flag f LEFT \<and> has_flag f ZEROPAD then replicate (nat m) CHR ''0'' else [])"
  define C where "C = (if has_flag f LEFT then replicate ?fill CHR '' '' else [])"
  define C' where "C' = (if has_flag f LEFT then replicate (nat m) CHR '' '' else [])"
  have M: "max i p = M" by (simp add: M_def)
  have tx: "number_text num base w p f = A @ S @ B @ Z @ D @ C"
    by (simp add: number_text_def sg t_def [symmetric] i_def [symmetric] M m_def [symmetric] Let_def
        A_def S_def B_def Z_def D_def C_def)
  have digits: "(if n = 0 then Some ''0'' else number_loop (if has_flag f LARGE then large_digits else small_digits) base n [])
      = Some (rev t)"
    unfolding t_def by (rule number_digits) simp
  have dig: "(if p \<noteq> 0 then put_all e t x else Some x) = put_all e D x" for x by (simp add: D_def)
  obtain st1 st2 st3 st4 st5 st6 where s: "put_all e A st = Some st1" "put_all e S st1 = Some st2"
    "put_all e (if snd st1 \<le> p_end e then B else B') st2 = Some st3"
    "put_all e Z st3 = Some st4" "put_all e D st4 = Some st5"
    "put_all e (if snd st1 \<le> p_end e then C else C') st5 = Some st6"
    "shows_text b k b0 (xs @ A @ S @ B @ Z @ D @ C) (Suc d) st6"
  proof -
    have more: "length B' \<le> length B + (if has_flag f LEFT then 0 else 1)" "length C' \<le> length C + (if has_flag f LEFT then 1 else 0)"
      by (auto simp: B_def B'_def C_def C'_def S_def split: option.splits)
    show thesis
      by (rule put_chain [OF ok sh _ _ more, of A S Z D]) (use room win that in \<open>auto simp: tx e_def\<close>)
  qed
  have len: "int (length (rev t)) = i" by (simp add: i_def)
  have "i \<le> 10" unfolding i_def t_def using numeral_short [of "if base = 10 then 10 else 16"] by simp
  moreover have "length Z + length D < 2 ^ 30" using small(2) unfolding tx by simp
  then have "p \<noteq> 0 \<Longrightarrow> M < 2 ^ 30" by (auto simp: Z_def D_def M_def i_def split: if_splits)
  ultimately have "M < 2 ^ 30" by (cases "p = 0") (auto simp: M_def)
  then have mb: "- 1073741825 \<le> m" using small(1) by (simp add: m_def)
  have "print_number e num base w p f st = Some st6"
    unfolding print_number_def Let_def flag_clear sg case_prod_conv if_distrib [of "\<lambda>x. number_sign x num"] 
    apply (simp only: flag_clear(3) if_cancel sg case_prod_conv digits bind.bind_lunit len M_def [symmetric] m_def [symmetric] Z_def [symmetric] rev_rev_ident dig)
    using s(1-6) mb
    by (cases "has_flag f LEFT"; cases "has_flag f ZEROPAD"; cases sg)
      (auto simp: A_def S_def B_def B'_def C_def C'_def pad_down_def flag_clear put_all_Nil split: if_splits)
  then show ?thesis using s(7) tx by (auto simp: e_def)
qed

section \<open>Directives and formats\<close>

text \<open>\<open>shown b k b0 xs d r t\<close>: the output \<open>r\<close> of a step has added the text \<open>t\<close>.\<close>

abbreviation shown :: "u32 \<Rightarrow> nat \<Rightarrow> char list \<Rightarrow> string \<Rightarrow> nat \<Rightarrow> pout option \<Rightarrow> string \<Rightarrow> bool" where
  "shown b k b0 xs d r t \<equiv> \<exists>st'. r = Some st' \<and> shows_text b k b0 (xs @ t) d st'"

lemma put_all_append: "put_all e (xs @ ys) st = put_all e xs st \<bind> put_all e ys"
proof (induction xs arbitrary: st)
  case (Cons x xs)
  then show ?case by (cases "put e x st") simp_all
qed simp

lemma put_all_single: "put_all e [x] = put e x"
  by (rule ext) (simp add: put_all_Nil)

lemma printf_char_text: "printf_char e d x st =
    put_all e (justify (has_flag (d_flags d) LEFT) (d_width d) [char_of (unat x mod 256)]) st"
proof -
  have "put_all e (justify (has_flag (d_flags d) LEFT) (d_width d) [c]) st =
    (if has_flag (d_flags d) LEFT then put e c st \<bind> put_all e (replicate (nat (d_width d - 1)) CHR '' '')
     else put_all e (replicate (nat (d_width d - 1)) CHR '' '') st \<bind> put e c)" for c
    by (simp add: justify_def put_all_append put_all_single Let_def)
  then show ?thesis by (simp add: printf_char_def put_all_Nil)
qed

lemma printf_str_text: "printf_str e d s st = put_all e (str_text d s) st"
proof -
  define xs where "xs = (case s of None \<Rightarrow> ''(NULL)'' | Some s \<Rightarrow> s)"
  define n where "n = (if 0 < d_prec d \<and> d_prec d < int (length xs) then d_prec d else int (length xs))"
  have t: "(if 0 < d_prec d then take (nat (d_prec d)) xs else xs) = take (nat n) xs" "int (length (take (nat n) xs)) = n"
    by (auto simp: n_def)
  have l: "nat (d_width d - int (length (take (nat n) xs))) = nat (d_width d - n)" by (simp only: t(2))
  have z: "nat (min n (d_width d) - 1 - n) = 0" by simp
  show ?thesis
    unfolding printf_str_def str_text_def Let_def xs_def [symmetric] n_def [symmetric] t(1) justify_def l
    by (simp add: put_all_append z put_all_Nil)
qed

lemma isdigit_ge: "isdigit c \<Longrightarrow> (48 :: int) \<le> of_char c"
proof -
  define n where "n = (of_char c :: nat)"
  have n: "n < 256" "(of_char c :: u32) = of_nat n" "(of_char c :: int) = int n"
    by (simp_all add: n_def of_nat_of_char)
  have la: "list_all (\<lambda>n. (of_nat n - 48 :: u32) < 10 \<longrightarrow> 48 \<le> n) [0..<256]" by code_simp
  show "isdigit c \<Longrightarrow> ?thesis" using la n(1) unfolding isdigit_def n(2,3) list_all_iff by simp
qed

lemma skip_atoi_nonneg: "skip_atoi i s = Some (j, s') \<Longrightarrow> 0 \<le> i \<Longrightarrow> 0 \<le> j"
proof (induction i s rule: skip_atoi.induct)
  case (2 i c s)
  show ?case
  proof (cases "isdigit c")
    case True
    then show ?thesis using "2.IH" [OF True] "2.prems" isdigit_ge [OF True] by (auto split: if_splits)
  qed (use "2.prems" in simp)
qed simp

lemma printf_directive_width: "printf_directive s as = Some (d, s', as') \<Longrightarrow> - 1 \<le> d_width d"
proof -
  assume run: "printf_directive s as = Some (d, s', as')"
  obtain f s1 where f: "printf_flags 0 s = (f, s1)" by (cases "printf_flags 0 s")
  from run f obtain f2 w s2 as2 where w: "printf_width f s1 as = Some (f2, w, s2, as2)"
    by (auto simp: printf_directive_def split: Option.bind_splits)
  then have "- 1 \<le> w"
    by (auto simp: printf_width_def split: list.splits if_splits Option.bind_splits dest: skip_atoi_nonneg [OF _ order_refl] simp del: skip_atoi.simps)
  moreover have "d_width d = w"
    using run f w by (auto simp: printf_directive_def Let_def split: Option.bind_splits list.splits prod.splits)
  ultimately show ?thesis by simp
qed

lemma printf_conv_shows:
  assumes ok: "buffer_ok b k" and dt: "directive_text d as = Some (t, as')" and sh: "shows_text b k b0 xs c0 st"
    and room: "min k (length (xs @ t)) \<le> length b0" and win: "within b k (length (xs @ t)) (Suc c0)"
    and small: "- 1 \<le> d_width d" "length t < 2 ^ 30"
  shows "\<exists>st'. printf_conv (range_of b k) d as st = Some (st', as') \<and> shows_text b k b0 (xs @ t) (Suc c0) st'"
proof -
  have w0: "within b k (length (xs @ t)) c0" using win by (rule within_mono) simp_all
  have all: "shown b k b0 xs (Suc c0) (put_all (range_of b k) t st) t"
    using put_all_shows [OF ok sh room w0] shows_mono [of b k b0 "xs @ t" c0 _ "Suc c0"] by auto
  have num: "shown b k b0 xs (Suc c0) (print_number (range_of b k) x base w p f st) t"
    if "t = number_text x base w p f" "- 1 \<le> w" for x base w p f
    using print_number_shows [OF ok sh] room win small(2) that by simp
  have int: "\<exists>st'. printf_integer (range_of b k) d base f as st = Some (st', as') \<and> shows_text b k b0 (xs @ t) (Suc c0) st'"
    if "integer_text d base f as = Some (t, as')" for base f
    using that num [OF _ small(1)] by (fastforce simp: integer_text_def printf_integer_def split: Option.bind_splits)
  show ?thesis
  proof (cases "d_conv d")
    case None
    then show ?thesis using dt all by (auto simp: directive_text_def printf_conv_def put_all_Nil)
  next
    case (Some c)
    consider "c = CHR ''c''" | "c = CHR ''s''" | "c = CHR ''p''" | "c = CHR ''%''"
      | "c \<noteq> CHR ''c''" "c \<noteq> CHR ''s''" "c \<noteq> CHR ''p''" "c \<noteq> CHR ''%''" by blast
    then show ?thesis
    proof cases
      case 1
      then show ?thesis using dt all Some
        by (auto simp: directive_text_def printf_conv_def printf_char_text split: Option.bind_splits)
    next
      case 2
      then show ?thesis using dt all Some
        by (auto simp: directive_text_def printf_conv_def printf_str_text split: Option.bind_splits)
    next
      case 3
      then show ?thesis using dt Some num small(1)
        by (fastforce simp: directive_text_def printf_conv_def split: Option.bind_splits if_splits)
    next
      case 4
      then show ?thesis using dt Some all by (auto simp: directive_text_def printf_conv_def put_all_Nil)
    next
      case 5
      then show ?thesis using dt Some int all
        by (simp add: directive_text_def printf_conv_def split: if_splits) (auto split: Option.bind_splits)
    qed
  qed
qed


lemma printf_loop_shows:
  assumes "buffer_ok b k"
  shows "format_text fmt as = Some t \<Longrightarrow> shows_text b k b0 xs c0 st \<Longrightarrow> min k (length (xs @ t)) \<le> length b0 \<Longrightarrow>
    within b k (length (xs @ t)) (c0 + length fmt) \<Longrightarrow> length t < 2 ^ 30 \<Longrightarrow>
    shown b k b0 xs (c0 + length fmt) (printf_loop (range_of b k) fmt as st) t"
proof (induction fmt as arbitrary: t xs c0 st rule: format_text.induct)
  case (2 c s as)
  show ?case
  proof (cases "c = CHR ''%''")
    case False
    then obtain t1 where t1: "format_text s as = Some t1" "t = c # t1" using "2.prems"(1)
      by (simp only: format_text.simps if_True not_False_eq_True map_option_eq_Some) blast
    have "length (xs @ t) = length (xs @ [c]) + length t1" by (simp add: t1(2))
    then have room: "min k (Suc (length xs)) \<le> length b0" using "2.prems"(3) by (auto simp: min_def split: if_splits)
    have w: "within b k (Suc (length xs)) c0" using "2.prems"(4) by (rule within_mono) (simp_all add: t1(2))
    obtain st1 where st1: "put (range_of b k) c st = Some st1" "shows_text b k b0 (xs @ [c]) c0 st1"
      using put_shows [OF assms "2.prems"(2) room w] by blast
    have w1: "within b k (length ((xs @ [c]) @ t1)) (c0 + length s)"
      using "2.prems"(4) by (rule within_mono) (simp_all add: t1(2))
    have "shown b k b0 (xs @ [c]) (c0 + length s) (printf_loop (range_of b k) s as st1) t1"
      by (rule "2.IH"(1) [OF False t1(1) st1(2) _ w1]) (use "2.prems"(3,5) t1(2) in simp_all)
    then obtain st2 where "printf_loop (range_of b k) s as st1 = Some st2" "shows_text b k b0 ((xs @ [c]) @ t1) (c0 + length s) st2"
      by blast
    then show ?thesis
      using t1(2) st1(1) False shows_mono [of b k b0 "xs @ t" "c0 + length s" st2 "c0 + length (c # s)"] by simp
  next
    case True
    obtain d s1 as1 u as2 t1 where d: "printf_directive s as = Some (d, s1, as1)" "directive_text d as1 = Some (u, as2)"
      "format_text s1 as2 = Some t1" "t = u @ t1"
      using "2.prems"(1) True by (auto split: Option.bind_splits)
    have le: "length s1 \<le> length s" by (rule printf_directive_length [OF d(1)])
    have room: "min k (length (xs @ u)) \<le> length b0" using "2.prems"(3) d(4) by simp
    have w: "within b k (length (xs @ u)) (Suc c0)" using "2.prems"(4) by (rule within_mono) (simp_all add: d(4))
    have u: "length u < 2 ^ 30" using "2.prems"(5) d(4) by simp
    obtain st1 where st1: "printf_conv (range_of b k) d as1 st = Some (st1, as2)" "shows_text b k b0 (xs @ u) (Suc c0) st1"
      using printf_conv_shows [OF assms d(2) "2.prems"(2) room w printf_directive_width [OF d(1)] u] by blast
    have w1: "within b k (length ((xs @ u) @ t1)) (Suc c0 + length s1)"
      using "2.prems"(4) by (rule within_mono) (use le in \<open>simp_all add: d(4)\<close>)
    have "shown b k b0 (xs @ u) (Suc c0 + length s1) (printf_loop (range_of b k) s1 as2 st1) t1"
      using "2.IH"(2) [OF _ d(1) refl refl d(2) refl d(3) st1(2) _ w1] True "2.prems"(3,5) d(4) by simp
    then obtain st2 where "printf_loop (range_of b k) s1 as2 st1 = Some st2"
      "shows_text b k b0 ((xs @ u) @ t1) (Suc c0 + length s1) st2" by blast
    then show ?thesis
      using True d(1,4) st1(1) le shows_mono [of b k b0 "xs @ t" "Suc c0 + length s1" st2 "c0 + length (c # s)"] by simp
  qed
qed auto

section \<open>The functions of the kernel\<close>

lemma printf_end_room:
  assumes "0 < sz" and "unat base + unat sz \<le> 2 ^ 32"
  shows "printf_end base sz = base + of_nat (unat sz - 1)" "buffer_ok base (unat sz)"
proof -
  have pos: "0 < unat sz" using assms(1) by (simp add: word_less_nat_alt)
  then show "buffer_ok base (unat sz)" using assms(2) by (simp add: buffer_ok_def)
  have e: "base + sz - 1 = base + of_nat (unat sz - 1)" using pos by (simp add: of_nat_diff)
  have "unat base + (unat sz - 1) < 2 ^ 32" using assms(2) pos by simp
  then have "unat (base + of_nat (unat sz - 1)) = unat base + (unat sz - 1)" by (rule unat_offset)
  then have "\<not> base + of_nat (unat sz - 1) < base" by (simp only: word_less_nat_alt)
  then show "printf_end base sz = base + of_nat (unat sz - 1)" unfolding printf_end_def Let_def e by simp
qed

lemma sint_offset: "n < 2 ^ 31 \<Longrightarrow> sint (b + of_nat n - b :: u32) = int n"
  by (simp add: signed_of_nat signed_take_bit_int_eq_self)

text \<open>The text and the format are short enough, and a text that is cut ends in the address space.\<close>

definition text_fits :: "u32 \<Rightarrow> nat \<Rightarrow> string \<Rightarrow> string \<Rightarrow> bool" where
  "text_fits base k fmt out \<longleftrightarrow> length out + length fmt < 2 ^ 30 \<and>
     (k \<le> length out \<longrightarrow> unat base + length out + length fmt < 2 ^ 32)"

text \<open>The text and its terminating zero in a buffer whose \<open>end\<close> is at \<open>k - 1\<close>.\<close>

definition text_in :: "nat \<Rightarrow> string \<Rightarrow> char list \<Rightarrow> char list" where
  "text_in k out buf = take (k - 1) out @ CHR 0x00 # drop (Suc (min (k - 1) (length out))) buf"

lemma text_in_short: "length out < k \<Longrightarrow> text_in k out buf = out @ CHR 0x00 # drop (Suc (length out)) buf"
proof -
  assume "length out < k"
  then have "min (k - 1) (length out) = length out" "take (k - 1) out = out" by auto
  then show ?thesis by (simp add: text_in_def)
qed

lemma vsnprintf_text:
  assumes "format_text fmt args = Some out" and e: "printf_end base sz = base + of_nat (k - 1)" and ok: "buffer_ok base k"
    and room: "min k (Suc (length out)) \<le> length buf" and fits: "text_fits base k fmt out"
  shows "\<exists>n. rt_vsnprintf base buf sz fmt args = Some (n, text_in k out buf) \<and>
    (if length out < k then n = int (length out) else int k \<le> n)"
proof -
  have k0: "0 < k" using ok by (simp add: buffer_ok_def)
  have "shows_text base k buf [] 0 (buf, base)" using k0 by (simp add: shows_text_def)
  moreover have "min k (length ([] @ out)) \<le> length buf" using room by (auto simp: min_def split: if_splits)
  moreover have "within base k (length ([] @ out)) (0 + length fmt)" "length out < 2 ^ 30"
    using fits by (auto simp: text_fits_def within_def)
  ultimately obtain buf1 str where run: "printf_loop (range_of base k) fmt args (buf, base) = Some (buf1, str)"
    "shows_text base k buf out (length fmt) (buf1, str)"
    using printf_loop_shows [OF ok assms(1), of buf "[]" 0 "(buf, base)"] by auto
  obtain n where n: "str = base + of_nat n" "n \<le> length out + length fmt" "length out < k \<longrightarrow> n = length out"
    "k \<le> length out \<longrightarrow> k \<le> n" "buf1 = take k out @ drop (min k (length out)) buf"
    using run(2) by (auto simp: shows_text_def)
  have nb: "unat base + n < 2 ^ 32"
    using n(2,3) ok fits by (cases "length out < k") (auto simp: buffer_ok_def text_fits_def)
  have res: "sint (str - base) = int n" unfolding n(1) by (rule sint_offset) (use n(2) fits in \<open>simp add: text_fits_def\<close>)
  have env: "\<lparr>p_buf = base, p_end = printf_end base sz\<rparr> = range_of base k" by (simp add: e range_of_def)
  have cmp: "(str \<le> p_end (range_of base k)) = (n < k)" unfolding n(1) by (rule offset_le [OF ok nb])
  have off: "int (unat str) - int (unat base) = int n" unfolding n(1) unat_offset [OF nb] by simp
  have "unat base + (k - 1) < 2 ^ 32" using ok by (auto simp: buffer_ok_def)
  then have last: "int (unat (p_end (range_of base k))) - int (unat base) = int (k - 1)"
    using unat_offset [of base "k - 1"] by (simp add: range_of_def)
  have out: "rt_vsnprintf base buf sz fmt args =
      map_option (Pair (int n)) (mem_write buf1 (if n < k then int n else int (k - 1)) CHR 0x00)"
    unfolding rt_vsnprintf_def Let_def env run(1) bind.bind_lunit prod.case cmp off last res
    by (simp only: if_distrib map_option_case split: option.split if_splits) simp
  show ?thesis
  proof (cases "length out < k")
    case True
    then have b: "buf1 = out @ drop (length out) buf" "n = length out" "length out < length buf"
      using n room by (auto simp: min_def split: if_splits)
    have "mem_write buf1 (int n) CHR 0x00 = Some (text_in k out buf)"
      using b by (simp add: text_in_short [OF True] mem_write_def list_update_append Cons_nth_drop_Suc [symmetric])
    then show ?thesis using out b(2) True by simp
  next
    case False
    then have b: "buf1 = take k out @ drop k buf" "k \<le> n" "k \<le> length buf"
      using n room by (auto simp: min_def split: if_splits)
    obtain j where k: "k = Suc j" using k0 by (cases k) auto
    have o: "take k out = take j out @ [out ! j]" using False k by (simp add: take_Suc_conv_app_nth)
    have "mem_write buf1 (int (k - 1)) CHR 0x00 = Some (text_in k out buf)"
      unfolding b(1) o using False b(3) k by (simp add: text_in_def mem_write_def list_update_append min_def)
    then show ?thesis using out b(2) False by simp
  qed
qed

lemma snprintf_text:
  assumes "format_text fmt args = Some out" and "0 < sz" and "unat base + unat sz \<le> 2 ^ 32" and "unat sz \<le> length buf"
    and "text_fits base (unat sz) fmt out"
  shows "\<exists>n. rt_snprintf base buf sz fmt args = Some (n, text_in (unat sz) out buf) \<and>
    (if length out < unat sz then n = int (length out) else int (unat sz) \<le> n)"
proof -
  have "min (unat sz) (Suc (length out)) \<le> length buf" using assms(4) by simp
  then show ?thesis
    unfolding rt_snprintf_def using vsnprintf_text [OF assms(1) printf_end_room [OF assms(2,3)] _ assms(5)] by blast
qed

text \<open>Without a bound, and for the size 0, the whole text is written.\<close>

lemma unbounded_text:
  assumes "format_text fmt args = Some out" and "length out < length buf" and "unat base + length buf \<le> 2 ^ 32"
    and "sz = - 1 \<and> 2 \<le> base \<or> sz = 0 \<and> 1 \<le> base" and "length out + length fmt < 2 ^ 30"
  shows "rt_vsnprintf base buf sz fmt args = Some (int (length out), out @ CHR 0x00 # drop (Suc (length out)) buf)"
proof -
  have "base + sz - 1 < base"
    using assms(4)
  proof
    assume a: "sz = - 1 \<and> 2 \<le> base"
    then have "unat (base - 2) = unat base - 2" "2 \<le> unat base" by (simp_all add: unat_sub word_le_nat_alt)
    then show ?thesis using a by (simp add: word_less_nat_alt)
  next
    assume a: "sz = 0 \<and> 1 \<le> base"
    then have "unat (base - 1) = unat base - 1" "1 \<le> unat base" by (simp_all add: unat_sub word_le_nat_alt)
    then show ?thesis using a by (simp add: word_less_nat_alt)
  qed
  then have e: "printf_end base sz = - 1" by (simp add: printf_end_def Let_def)
  define k where "k = 2 ^ 32 - unat base"
  have ub: "unat base < 2 ^ 32" by (rule less_le_trans [OF unsigned_less]) simp
  then have ok: "buffer_ok base k" by (simp add: buffer_ok_def k_def)
  have "unat (base + of_nat (k - 1)) = unat (- 1 :: u32)"
  proof -
    have "unat base + (k - 1) < 2 ^ 32" using ub by (simp add: k_def)
    then have "unat (base + of_nat (k - 1)) = unat base + (k - 1)" by (rule unat_offset)
    then show ?thesis using ub by (simp add: k_def unsigned_minus_1_eq_mask mask_eq_exp_minus_1)
  qed
  then have e': "printf_end base sz = base + of_nat (k - 1)" unfolding e by (simp only: word_unat_eq_iff)
  have lt: "length out < k" "min k (Suc (length out)) \<le> length buf" using assms(2,3) by (auto simp: k_def)
  have "text_fits base k fmt out" using lt(1) assms(5) by (simp add: text_fits_def)
  from vsnprintf_text [OF assms(1) e' ok lt(2) this] show ?thesis
    unfolding text_in_short [OF lt(1)] using lt(1) by simp
qed

lemma sprintf_text:
  assumes "format_text fmt args = Some out" and "length out < length buf" and "unat base + length buf \<le> 2 ^ 32"
    and "2 \<le> base" and "length out + length fmt < 2 ^ 30"
  shows "rt_sprintf base buf fmt args = Some (int (length out), out @ CHR 0x00 # drop (Suc (length out)) buf)"
  unfolding rt_sprintf_def rt_vsprintf_def by (rule unbounded_text [OF assms(1-3) _ assms(5)]) (simp add: assms(4))

lemma kprintf_console:
  assumes "format_text fmt args = Some out" and "length buf = RT_CONSOLEBUF_SIZE" and "unat base + RT_CONSOLEBUF_SIZE \<le> 2 ^ 32"
    and "text_fits base 127 fmt out"
  shows "map_option fst (kprintf_text base buf fmt args) =
    Some (if length out < 127 then out else take 126 out @ [CHR 0x00])"
proof -
  have sz: "(of_nat (RT_CONSOLEBUF_SIZE - 1) :: u32) = 127" by (simp add: RT_CONSOLEBUF_SIZE_def)
  have u: "unat (127 :: u32) = 127" by simp
  obtain n where n: "rt_vsnprintf base buf (of_nat (RT_CONSOLEBUF_SIZE - 1)) fmt args = Some (n, text_in 127 out buf)"
    "if length out < 127 then n = int (length out) else int 127 \<le> n"
    using snprintf_text [OF assms(1), of 127 base buf] assms(2-4)
    unfolding sz rt_snprintf_def u by (auto simp: RT_CONSOLEBUF_SIZE_def)
  show ?thesis
    using n assms(2) by (auto simp: kprintf_text_def RT_CONSOLEBUF_SIZE_def text_in_def min_def Let_def)
qed

section \<open>What is printed can be read\<close>

fun digits_value :: "nat \<Rightarrow> string \<Rightarrow> nat" where
  "digits_value b [] = 0"
| "digits_value b (c # s) = (if isdigit c then of_char c - 48 else of_char c - 87) * b ^ length s + digits_value b s"

definition int_value :: "string \<Rightarrow> int" where
  "int_value s = (case s of [] \<Rightarrow> 0 | c # s1 \<Rightarrow> if c = CHR ''-'' then - int (digits_value 10 s1) else int (digits_value 10 s))"

lemma digits_value_append: "digits_value b (s @ t) = digits_value b s * b ^ length t + digits_value b t"
  by (induction s) (simp_all add: algebra_simps power_add)

lemma digit_value: "n < 16 \<Longrightarrow> digits_value b [small_digits ! n] = n"
proof -
  have "list_all (\<lambda>n. (if isdigit (small_digits ! n) then of_char (small_digits ! n) - 48
      else of_char (small_digits ! n) - 87) = n) [0..<16]"
    by code_simp
  then show "n < 16 \<Longrightarrow> ?thesis" by (simp add: list_all_iff)
qed

lemma numeral_text_value: "1 < b \<Longrightarrow> b \<le> 16 \<Longrightarrow> digits_value b (numeral_text small_digits b n) = n"
proof (induction n rule: less_induct)
  case (less n)
  show ?case
  proof (cases "n < b")
    case True
    then show ?thesis using digit_value [of n b] less.prems by (simp add: numeral_text.simps [of small_digits b n])
  next
    case False
    have "digits_value b (numeral_text small_digits b (n div b)) = n div b" using False less by simp
    moreover have "digits_value b [small_digits ! (n mod b)] = n mod b"
      using less.prems by (intro digit_value) (auto intro: less_le_trans [of _ b])
    ultimately show ?thesis using False less.prems
      by (simp add: numeral_text.simps [of small_digits b n] digits_value_append)
  qed
qed

lemma plain_directive: "c \<in> {CHR ''d'', CHR ''u'', CHR ''x'', CHR ''o''} \<Longrightarrow> printf_directive [c] as =
    Some (\<lparr>d_flags = 0, d_width = - 1, d_prec = - 1, d_qual = None, d_conv = Some c\<rparr>, [], as)"
proof -
  have d: "\<not> isdigit CHR ''d''" "\<not> isdigit CHR ''u''" "\<not> isdigit CHR ''x''" "\<not> isdigit CHR ''o''" by code_simp+
  show "c \<in> {CHR ''d'', CHR ''u'', CHR ''x'', CHR ''o''} \<Longrightarrow> ?thesis"
    by (elim insertE emptyE)
      (simp_all add: printf_directive_def printf_width_def printf_precision_def printf_qualifier_def d)
qed

lemma plain_number: "number_text x base (- 1) (- 1) f =
    (case fst (number_sign f x) of None \<Rightarrow> [] | Some c \<Rightarrow> [c]) @
    numeral_text (if has_flag f LARGE then large_digits else small_digits) (if base = 10 then 10 else 16)
      (unat (snd (number_sign f x)))"
proof -
  have "numeral_text ds b n \<noteq> []" for ds b n by (simp add: numeral_text.simps [of ds b n])
  then have m: "max (int (length (numeral_text ds b n))) (- 1) = int (length (numeral_text ds b n))" for ds b n by simp
  show ?thesis unfolding number_text_def Let_def m by simp
qed

lemma plain_texts:
  "format_text ''%d'' [Val_Word x] = Some (number_text x 10 (- 1) (- 1) SIGN)"
  "format_text ''%u'' [Val_Word x] = Some (number_text x 10 (- 1) (- 1) 0)"
  "format_text ''%x'' [Val_Word x] = Some (number_text x 16 (- 1) (- 1) 0)"
  "format_text ''%o'' [Val_Word x] = Some (number_text x 8 (- 1) (- 1) 0)"
  by (simp_all add: plain_directive directive_text_def integer_text_def printf_num_def)

lemma no_flags: "\<not> has_flag 0 b" "has_flag SIGN SIGN" "\<not> has_flag SIGN PLUS" "\<not> has_flag SIGN SPACE"
  "\<not> has_flag SIGN LARGE"
  by (simp_all add: has_flag_def flag_defs)

lemma digits_no_minus: "hd (numeral_text small_digits 10 n) \<noteq> CHR ''-''"
proof (induction n rule: less_induct)
  case (less n)
  have "list_all (\<lambda>n. small_digits ! n \<noteq> CHR ''-'') [0..<10]" by code_simp
  then have d: "n < 10 \<Longrightarrow> small_digits ! n \<noteq> CHR ''-''" by (simp add: list_all_iff)
  have "numeral_text small_digits 10 (n div 10) \<noteq> []" by (simp add: numeral_text.simps [of _ _ "n div 10"])
  then show ?case using less [of "n div 10"] d by (simp add: numeral_text.simps [of _ 10 n])
qed

lemma plain_values:
  "int_value (number_text x 10 (- 1) (- 1) SIGN) = sint x"
  "digits_value 10 (number_text x 10 (- 1) (- 1) 0) = unat x"
  "digits_value 16 (number_text x 16 (- 1) (- 1) 0) = unat x"
proof -
  show "digits_value 10 (number_text x 10 (- 1) (- 1) 0) = unat x" "digits_value 16 (number_text x 16 (- 1) (- 1) 0) = unat x"
    by (simp_all add: plain_number number_sign_def no_flags numeral_text_value)
  have ne: "numeral_text small_digits 10 n \<noteq> []" for n by (simp add: numeral_text.simps [of _ _ n])
  have pos: "int_value (numeral_text small_digits 10 n) = int n" for n
    using digits_no_minus [of n] ne [of n] numeral_text_value [of 10 n]
    by (cases "numeral_text small_digits 10 n") (simp_all add: int_value_def)
  have neg: "int_value (CHR ''-'' # numeral_text small_digits 10 n) = - int n" for n
    using numeral_text_value [of 10 n] by (simp add: int_value_def)
  have b: "- (2 ^ 31) \<le> sint x" "sint x < 2 ^ 31" using sint_ge [of x] sint_lt [of x] by simp_all
  have n: "int (unat (- x)) = - sint x" if "sint x < 0"
  proof -
    have "uint (- x) = - sint x mod 2 ^ 32" using uint_word_of_int [of "- sint x", where 'a = 32] by simp
    then show ?thesis using that b by (simp add: mod_pos_pos_trivial)
  qed
  have p: "int (unat x) = sint x" if "\<not> sint x < 0"
  proof -
    have "uint x = sint x mod 2 ^ 32" using uint_word_of_int [of "sint x", where 'a = 32] by simp
    then show ?thesis using that b by (simp add: mod_pos_pos_trivial)
  qed
  show "int_value (number_text x 10 (- 1) (- 1) SIGN) = sint x"
    using n p by (simp add: plain_number number_sign_def no_flags pos neg)
qed

lemma plain_lengths:
  "length (number_text x 10 (- 1) (- 1) SIGN) \<le> 11" "length (number_text x 10 (- 1) (- 1) 0) \<le> 11"
  "length (number_text x 16 (- 1) (- 1) 0) \<le> 11"
proof -
  have l: "length (numeral_text ds b (unat n)) \<le> 10" if "b = 10 \<or> b = 16" for ds b and n :: u32
  proof -
    show ?thesis by (rule numeral_short [OF that])
  qed
  show "length (number_text x 10 (- 1) (- 1) SIGN) \<le> 11" "length (number_text x 10 (- 1) (- 1) 0) \<le> 11"
    "length (number_text x 16 (- 1) (- 1) 0) \<le> 11"
    unfolding plain_number using l [of 10] l [of 16] by (auto intro: le_trans [of _ 10] split: option.split)
qed

section \<open>Deviations\<close>

lemma octal_prints_hex: "format_text ''%o'' [Val_Word x] = format_text ''%x'' [Val_Word x]"
  unfolding plain_texts by (simp add: number_text_def)

lemma precision_zero_prints_nothing: "number_text x base (- 1) 0 0 = []"
  by (simp add: number_text_def number_sign_def no_flags Let_def)

lemma precision_zero_string: "str_text \<lparr>d_flags = 0, d_width = - 1, d_prec = 0, d_qual = None, d_conv = Some CHR ''s''\<rparr>
    (Some s) = s"
  by (simp add: str_text_def justify_def Let_def)

lemma truncated_length_too_large:
  "print_number \<lparr>p_buf = 100, p_end = 101\<rparr> 7 10 4 (- 1) (ZEROPAD OR PLUS OR SIGN) (''ab'', 102) = Some (''ab'', 107)"
  "number_text 7 10 4 (- 1) (ZEROPAD OR PLUS OR SIGN) = ''+007''"
  by code_simp+

text \<open>
  A text that runs past the end of the address space: the pointer is then below \<open>end\<close> again and the
  next character is written before the buffer, which the model counts as a failure.
\<close>

lemma wrapped_pointer_writes_below:
  assumes "str < p_buf e" "p_buf e \<le> p_end e"
  shows "put e x (buf, str) = None"
proof -
  have "str \<le> p_end e" using assms by simp
  moreover have "unat str < unat (p_buf e)" using assms(1) by (simp add: word_less_nat_alt)
  ultimately have "put e x (buf, str) = map_option (\<lambda>b. (b, str + 1)) (mem_write buf (int (unat str) - int (unat (p_buf e))) x)"
    by (simp add: put_def)
  also have "mem_write buf (int (unat str) - int (unat (p_buf e))) x = None"
  proof -
    have "\<not> 0 \<le> int (unat str) - int (unat (p_buf e))" using \<open>unat str < unat (p_buf e)\<close> by linarith
    then show ?thesis by (simp only: mem_write_def simp_thms if_False)
  qed
  finally show ?thesis by simp
qed

text \<open>A text of 2 ^ 31 characters or more gives a negative length.\<close>

lemma mod_less_once: "\<lbrakk>(m :: int) \<le> x; x < 2 * m; y = x - m\<rbrakk> \<Longrightarrow> x mod m = y"
proof -
  assume "m \<le> x" "x < 2 * m" "y = x - m"
  then have "(x - m) mod m = x - m" by (intro mod_pos_pos_trivial) simp_all
  moreover have "(x - m) mod m = x mod m" by (rule minus_mod_self2)
  ultimately show "x mod m = y" using \<open>y = x - m\<close> by (simp only:)
qed

lemma sint_high:
  assumes "2 ^ 31 \<le> n" "n < 2 ^ 32"
  shows "sint (of_nat n :: u32) = int n - 2 ^ 32"
proof -
  define x :: u32 where "x = of_nat n"
  have "uint x = int n" using assms(2) by (simp add: x_def unsigned_of_nat take_bit_nat_eq_self)
  moreover have "sint x = (uint x + 2 ^ 31) mod 2 ^ 32 - 2 ^ 31"
    by (simp add: sint_uint signed_take_bit_eq_take_bit_shift take_bit_eq_mod)
  moreover have "(int n + 2 ^ 31) mod 2 ^ 32 = int n - 2 ^ 31"
  proof -
    have "int n < 2 ^ 32" "2 ^ 31 \<le> int n" using assms by simp_all
    then show ?thesis by (intro mod_less_once) simp_all
  qed
  ultimately show ?thesis by (simp add: x_def)
qed

lemma long_text_negative:
  assumes "printf_loop \<lparr>p_buf = base, p_end = printf_end base sz\<rparr> fmt args (buf, base) = Some (buf1, base + of_nat n)"
    and "2 ^ 31 \<le> n" "n < 2 ^ 32" and "rt_vsnprintf base buf sz fmt args = Some (r, b)"
  shows "r = int n - 2 ^ 32"
proof -
  have "r = sint (base + of_nat n - base)"
    using assms(4) by (auto simp: rt_vsnprintf_def Let_def assms(1) split: bind_splits)
  then show ?thesis using sint_high [OF assms(2,3)] by simp
qed

end
