(* ===== verification/Samples.thy ===== *)
theory Samples
  imports Ipc SmallMem MbSteps MbCoils
begin

text \<open>
  Concrete kernel states, described by a table of threads and the wait lists, with the ready
  lists and the bitmap computed from the table. One lemma shows that such a state satisfies
  the kernel invariant; the examples that apply the theorems use it.
\<close>

text \<open>A thread of the table: state, priority.\<close>

definition sample_thread :: "tstat \<Rightarrow> nat \<Rightarrow> rt_thread" where
  "sample_thread st p = \<lparr>t_error = 0, t_stat = st, t_current_priority = p, t_init_priority = p,
     t_number_mask = push_bit p 1, t_event_set = 0, t_event_info = 0, t_init_tick = 10,
     t_remaining_tick = 10, t_cleanup = False, t_static = True, t_attached = True\<rparr>"

definition sample_timer :: "tmid \<Rightarrow> rt_timer" where
  "sample_timer m = \<lparr>tm_activated = False, tm_periodic = False,
     tm_timeout_func = (case m of ThreadTimer t \<Rightarrow> Thread_Timeout t | SysTimer n \<Rightarrow> User_Timeout n),
     tm_init_tick = 0, tm_timeout_tick = 0, tm_attached = True, tm_static = True\<rparr>"

definition ready_of :: "(tstat \<times> nat) list \<Rightarrow> nat \<Rightarrow> tid list" where
  "ready_of xs p = filter (\<lambda>t. xs ! t = (RT_THREAD_READY, p)) [0..<length xs]"

definition group_of :: "(tstat \<times> nat) list \<Rightarrow> u32" where
  "group_of xs = foldr (\<lambda>p g. if ready_of xs p = [] then g else g OR push_bit p 1) [0..<32] 0"

definition wait_of :: "(qid \<times> tid list) list \<Rightarrow> qid \<Rightarrow> tid list" where
  "wait_of ws q = (case map_of ws q of None \<Rightarrow> [] | Some ts \<Rightarrow> ts)"

definition sample :: "(tstat \<times> nat) list \<Rightarrow> tid \<Rightarrow> (qid \<times> tid list) list \<Rightarrow> kstate" where
  "sample xs cur ws = \<lparr>
     k_thr = (\<lambda>t. if t < length xs then sample_thread (fst (xs ! t)) (snd (xs ! t))
                  else sample_thread RT_THREAD_CLOSE 31),
     k_q = (\<lambda>q. case q of ReadyQ p \<Rightarrow> (if p < 32 then ready_of xs p else []) | DefunctQ \<Rightarrow> []
                         | SuspQ i \<Rightarrow> wait_of ws q | SenderQ i \<Rightarrow> wait_of ws q),
     k_group = group_of xs, k_cur = Some cur, k_cur_prio = 0, k_lock = 0, k_nest = 0, k_tick = 100,
     k_tmr = sample_timer, k_tlist = [],
     k_sem = (\<lambda>_. \<lparr>sem_flag = 0, sem_value = 0\<rparr>),
     k_mtx = (\<lambda>_. \<lparr>mtx_flag = 0, mtx_value = 1, mtx_original_priority = 255, mtx_hold = 0, mtx_owner = None\<rparr>),
     k_ev = (\<lambda>_. \<lparr>ev_flag = 0, ev_set = 0\<rparr>),
     k_mb = (\<lambda>_. \<lparr>mb_flag = 0, mb_msg_pool = [0, 0, 0], mb_size = 3, mb_entry = 0, mb_in_offset = 0,
                  mb_out_offset = 0\<rparr>),
     k_mq = (\<lambda>_. \<lparr>mq_flag = 0, mq_msg_size = 4, mq_max_msgs = 2, mq_entry = 0, mq_head = None,
                  mq_tail = None, mq_free = Some 1, mq_next = (\<lambda>n. if n = 1 then Some 0 else None),
                  mq_body = (\<lambda>_. [0, 0, 0, 0])\<rparr>)\<rparr>"

definition sample_ok :: "(tstat \<times> nat) list \<Rightarrow> tid \<Rightarrow> (qid \<times> tid list) list \<Rightarrow> bool" where
  "sample_ok xs cur ws \<longleftrightarrow>
     list_all (\<lambda>(_, p). p < 32) xs \<and> cur < length xs \<and> fst (xs ! cur) = RT_THREAD_RUNNING \<and>
     list_all (\<lambda>t. fst (xs ! t) = RT_THREAD_RUNNING \<longrightarrow> t = cur) [0..<length xs] \<and>
     distinct (concat (map snd ws)) \<and> distinct (map fst ws) \<and>
     list_all (\<lambda>(q, ts). list_all (\<lambda>t. t < length xs \<and> fst (xs ! t) = RT_THREAD_SUSPEND) ts) ws"

lemma wait_of_distinct:
  assumes "distinct (concat (map snd ws))" shows "distinct (wait_of ws q)"
  using assms by (induction ws) (auto simp: wait_of_def split: option.splits)

lemma wait_of_in: "t \<in> set (wait_of ws q) \<Longrightarrow> \<exists>ts. (q, ts) \<in> set ws \<and> t \<in> set ts"
  by (cases "map_of ws q") (auto simp: wait_of_def dest: map_of_SomeD)

lemma concat_unique:
  assumes "distinct (concat (map snd ws))" "distinct (map fst ws)"
    "(q, ts) \<in> set ws" "(q', ts') \<in> set ws" "t \<in> set ts" "t \<in> set ts'"
  shows "q = q'"
  using assms
proof (induction ws)
  case (Cons w ws)
  obtain a b where w: "w = (a, b)" by (cases w)
  have no: "t \<notin> set b" if "(r, rs) \<in> set ws" "t \<in> set rs" for r rs
    using Cons.prems(1) that w by force
  show ?case
  proof (cases "(q, ts) = w \<or> (q', ts') = w")
    case True
    then show ?thesis using Cons.prems no w by auto
  next
    case False
    then show ?thesis using Cons by auto
  qed
qed simp

lemma group_of_bit: "p < 32 \<Longrightarrow> bit (group_of xs) p \<longleftrightarrow> ready_of xs p \<noteq> []"
proof -
  have "bit (foldr (\<lambda>p (g :: u32). if ready_of xs p = [] then g else g OR push_bit p 1) ps 0) p \<longleftrightarrow>
      p \<in> set ps \<and> ready_of xs p \<noteq> []" if "p < 32" for ps
    using that by (induction ps) (auto simp: bit_simps)
  then show "p < 32 \<Longrightarrow> bit (group_of xs) p \<longleftrightarrow> ready_of xs p \<noteq> []" by (simp add: group_of_def)
qed

lemma sample_kernel_ok:
  assumes ok: "sample_ok xs cur ws"
  shows "kernel_ok (sample xs cur ws)"
proof -
  let ?s = "sample xs cur ws"
  have prio: "snd (xs ! t) < 32" if "t < length xs" for t
  proof -
    have "\<forall>x \<in> set xs. snd x < 32" using ok by (simp add: sample_ok_def list_all_iff case_prod_unfold)
    then show ?thesis using that by simp
  qed
  have run: "t = cur" if "t < length xs" "fst (xs ! t) = RT_THREAD_RUNNING" for t
    using ok that by (auto simp: sample_ok_def list_all_iff)
  have stat: "th_stat ?s t = (if t < length xs then fst (xs ! t) else RT_THREAD_CLOSE)"
    and pr: "th_prio ?s t = (if t < length xs then snd (xs ! t) else 31)"
    and mask: "t_number_mask (k_thr ?s t) = push_bit (th_prio ?s t) 1" for t
    by (simp_all add: sample_def sample_thread_def)
  have rdy: "t \<in> set (k_q ?s (ReadyQ p)) \<longleftrightarrow> th_stat ?s t = RT_THREAD_READY \<and> th_prio ?s t = p" for t p
    using prio [of t] by (auto simp: sample_def ready_of_def sample_thread_def prod_eq_iff)
  have wt: "\<exists>ts. (q, ts) \<in> set ws \<and> t \<in> set ts" if "t \<in> set (k_q ?s q)" "wait_list q" for t q
    using that wait_of_in [of t ws q] by (auto simp: sample_def wait_list_def)
  have sus: "th_stat ?s t = RT_THREAD_SUSPEND" if "t \<in> set (k_q ?s q)" "wait_list q" for t q
  proof -
    obtain ts where ts: "(q, ts) \<in> set ws" "t \<in> set ts" using wt [OF \<open>t \<in> _\<close> \<open>wait_list q\<close>] by blast
    have "\<forall>w \<in> set ws. list_all (\<lambda>t. t < length xs \<and> fst (xs ! t) = RT_THREAD_SUSPEND) (snd w)"
      using ok by (simp add: sample_ok_def list_all_iff case_prod_unfold)
    then have "t < length xs \<and> fst (xs ! t) = RT_THREAD_SUSPEND" using ts by (auto simp: list_all_iff)
    then show ?thesis by (simp add: stat)
  qed
  have "table_inv ?s"
  proof (rule table_invI)
    fix q q' t p i
    show "distinct (k_q ?s q)"
      using ok wait_of_distinct [of ws q] by (cases q) (auto simp: sample_def ready_of_def sample_ok_def)
    show "q = q'" if a: "t \<in> set (k_q ?s q)" "t \<in> set (k_q ?s q')"
    proof -
      have d: "k_q ?s DefunctQ = []" by (simp add: sample_def)
      have "wait_list q \<or> (\<exists>p. q = ReadyQ p)" "wait_list q' \<or> (\<exists>p. q' = ReadyQ p)"
        using a d by (cases q; cases q'; auto simp: wait_list_def)+
      then consider p where "q = ReadyQ p" | p where "q' = ReadyQ p" | "wait_list q" "wait_list q'" by blast
      then show ?thesis
      proof cases
        case 3
        then show ?thesis
          using wt [OF a(1) 3(1)] wt [OF a(2) 3(2)] ok concat_unique [of ws] by (force simp: sample_ok_def)
      qed (use a rdy sus \<open>wait_list q \<or> _\<close> \<open>wait_list q' \<or> _\<close> in \<open>force\<close>)+
    qed
    show "th_stat ?s t = RT_THREAD_READY \<and> th_prio ?s t = p" if "t \<in> set (k_q ?s (ReadyQ p))"
      using that rdy by blast
    show "t \<in> set (k_q ?s (ReadyQ (th_prio ?s t)))" if "th_stat ?s t = RT_THREAD_READY"
      using that rdy by blast
    show "bit (k_group ?s) p \<longleftrightarrow> k_q ?s (ReadyQ p) \<noteq> []" if "p < 32"
      using group_of_bit [OF that] that by (simp add: sample_def)
    show "started ?s t" if "th_stat ?s t \<in> {RT_THREAD_READY, RT_THREAD_SUSPEND, RT_THREAD_RUNNING}"
      using prio [of t] mask [of t] by (simp add: started_def pr RT_THREAD_PRIORITY_MAX_def)
    show "th_stat ?s t = RT_THREAD_SUSPEND" if "t \<in> set (k_q ?s (SuspQ i)) \<or> t \<in> set (k_q ?s (SenderQ i))"
      using that sus by (auto simp: wait_list_def)
    show "th_stat ?s t = RT_THREAD_CLOSE" if "t \<in> set (k_q ?s DefunctQ)"
      using that by (simp add: sample_def)
  qed
  moreover have "current_inv ?s"
  proof -
    have cur: "k_cur ?s = Some cur" "cur < length xs" "fst (xs ! cur) = RT_THREAD_RUNNING"
      using ok by (simp_all add: sample_def sample_ok_def)
    show ?thesis
      unfolding current_inv_def
    proof (intro conjI allI impI)
      fix t
      show "k_cur ?s = Some t" if "th_stat ?s t = RT_THREAD_RUNNING"
      proof -
        have "t < length xs \<and> fst (xs ! t) = RT_THREAD_RUNNING"
          using that by (simp add: stat split: if_splits)
        then show ?thesis using run [of t] cur(1) by blast
      qed
      show "th_stat ?s t \<noteq> RT_THREAD_READY" if "k_cur ?s = Some t"
      proof -
        have "t = cur" using that cur(1) by simp
        then have "th_stat ?s t = RT_THREAD_RUNNING" using stat [of t] cur(2,3) by presburger
        then show ?thesis by simp
      qed
    qed
  qed
  moreover have "timer_inv ?s" by (simp add: timer_inv_def sample_def sample_timer_def)
  moreover have "t_attached (k_thr ?s t) \<and> tm_attached (k_tmr ?s m) \<and> tm_static (k_tmr ?s m)" for t m
    by (simp add: sample_def sample_thread_def sample_timer_def)
  then have "thr_inv ?s" unfolding thr_inv_def by blast
  moreover have "k_cur ?s \<noteq> None" "timers_sorted (k_tick ?s) ?s"
    by (simp_all add: sample_def timers_sorted_def)
  ultimately show ?thesis unfolding kernel_ok_def kernel_inv_def sched_inv_def by blast
qed

section \<open>The states of the examples\<close>

text \<open>
  Thread 0 is the idle thread; thread 1 runs at priority 10; thread 2 has priority 5 and is
  suspended; thread 3 is ready at priority 10; thread 4 is only initialised.
\<close>

definition table1 :: "(tstat \<times> nat) list" where
  "table1 = [(RT_THREAD_READY, 31), (RT_THREAD_RUNNING, 10), (RT_THREAD_SUSPEND, 5),
             (RT_THREAD_READY, 10), (RT_THREAD_INIT, 20)]"

definition state1 :: "(qid \<times> tid list) list \<Rightarrow> kstate" where
  "state1 ws = sample table1 1 ws"

lemma table1_threads:
  "length table1 = 5" "table1 ! 0 = (RT_THREAD_READY, 31)" "table1 ! 1 = (RT_THREAD_RUNNING, 10)"
  "table1 ! Suc 0 = (RT_THREAD_RUNNING, 10)"
  "table1 ! 2 = (RT_THREAD_SUSPEND, 5)" "table1 ! 3 = (RT_THREAD_READY, 10)"
  "table1 ! 4 = (RT_THREAD_INIT, 20)"
  by (simp_all add: table1_def)

lemma state1_ok [simp]: "kernel_ok (state1 [])" "q \<noteq> DefunctQ \<Longrightarrow> kernel_ok (state1 [(q, [2])])"
  unfolding state1_def
  by (rule sample_kernel_ok, simp add: sample_ok_def table1_def upt_rec nth_Cons')+

lemma state1_inv [simp]: "kernel_inv (state1 [])" "q \<noteq> DefunctQ \<Longrightarrow> kernel_inv (state1 [(q, [2])])"
  using kernel_okD(1) state1_ok by blast+

lemma state1_sel [simp]:
  "k_cur (state1 ws) = Some 1" "k_lock (state1 ws) = 0" "k_nest (state1 ws) = 0"
  "k_tick (state1 ws) = 100" "k_tlist (state1 ws) = []" "k_tmr (state1 ws) = sample_timer"
  "k_sem (state1 ws) i = \<lparr>sem_flag = 0, sem_value = 0\<rparr>"
  "k_mtx (state1 ws) i = \<lparr>mtx_flag = 0, mtx_value = 1, mtx_original_priority = 255, mtx_hold = 0, mtx_owner = None\<rparr>"
  "k_ev (state1 ws) i = \<lparr>ev_flag = 0, ev_set = 0\<rparr>"
  "k_mb (state1 ws) i = \<lparr>mb_flag = 0, mb_msg_pool = [0, 0, 0], mb_size = 3, mb_entry = 0, mb_in_offset = 0,
     mb_out_offset = 0\<rparr>"
  "k_q (state1 ws) (SuspQ x) = wait_of ws (SuspQ x)" "k_q (state1 ws) (SenderQ x) = wait_of ws (SenderQ x)"
  by (simp_all add: state1_def sample_def)

lemma state1_threads [simp]:
  "k_thr (state1 ws) 0 = sample_thread RT_THREAD_READY 31"
  "k_thr (state1 ws) 1 = sample_thread RT_THREAD_RUNNING 10"
  "k_thr (state1 ws) (Suc 0) = sample_thread RT_THREAD_RUNNING 10"
  "k_thr (state1 ws) 2 = sample_thread RT_THREAD_SUSPEND 5"
  "k_thr (state1 ws) 3 = sample_thread RT_THREAD_READY 10"
  "k_thr (state1 ws) 4 = sample_thread RT_THREAD_INIT 20"
  by (simp_all add: state1_def sample_def table1_threads)

lemma sample_thread_sel [simp]:
  "t_stat (sample_thread st p) = st" "t_current_priority (sample_thread st p) = p"
  "t_init_priority (sample_thread st p) = p" "t_attached (sample_thread st p)"
  "t_static (sample_thread st p)" "\<not> t_cleanup (sample_thread st p)" "t_error (sample_thread st p) = 0"
  "t_event_set (sample_thread st p) = 0" "t_event_info (sample_thread st p) = 0"
  by (simp_all add: sample_thread_def)

lemma sample_timer_sel [simp]:
  "tm_attached (sample_timer m)" "tm_static (sample_timer m)" "\<not> tm_periodic (sample_timer m)"
  "tm_init_tick (sample_timer m) = 0"
  by (simp_all add: sample_timer_def)

lemma wait_of_simps [simp]: "wait_of [] q = []" "wait_of [(q, ts)] q' = (if q' = q then ts else [])"
  by (simp_all add: wait_of_def)


section \<open>Small heaps\<close>

text \<open>A heap of 100 bytes whose only block is used, and one of 200 bytes with a used block of 24 bytes.\<close>

definition hdr :: "nat \<Rightarrow> nat \<Rightarrow> nat \<Rightarrow> heap_mem" where
  "hdr u n p = \<lparr>hm_magic = HEAP_MAGIC, hm_used = u, hm_next = n, hm_prev = p\<rparr>"

definition full_heap :: heap where
  "full_heap = \<lparr>h_mem = (\<lambda>_. hdr 0 0 0)(0 := hdr 1 112 0, 112 := hdr 1 112 112), h_size = 100,
                h_lfree = 112, h_used = 112, h_max = 112, h_data = (\<lambda>_. 0)\<rparr>"

definition half_heap :: heap where
  "half_heap = \<lparr>h_mem = (\<lambda>_. hdr 0 0 0)(0 := hdr 1 36 0, 36 := hdr 0 212 0, 212 := hdr 1 212 212),
                h_size = 200, h_lfree = 36, h_used = 36, h_max = 36, h_data = (\<lambda>b. word_of_nat b)\<rparr>"

lemma hdr_sel [simp]:
  "hm_magic (hdr u n p) = HEAP_MAGIC" "hm_used (hdr u n p) = u" "hm_next (hdr u n p) = n" "hm_prev (hdr u n p) = p"
  by (simp_all add: hdr_def)

lemma full_heap_sel [simp]:
  "h_mem full_heap = (\<lambda>_. hdr 0 0 0)(0 := hdr 1 112 0, 112 := hdr 1 112 112)" "h_size full_heap = 100"
  "h_lfree full_heap = 112" "h_used full_heap = 112" "heap_end full_heap = 112"
  by (simp_all add: full_heap_def heap_end_def SIZEOF_STRUCT_MEM_def)

lemma half_heap_sel [simp]:
  "h_mem half_heap = (\<lambda>_. hdr 0 0 0)(0 := hdr 1 36 0, 36 := hdr 0 212 0, 212 := hdr 1 212 212)"
  "h_size half_heap = 200" "h_lfree half_heap = 36" "h_used half_heap = 36" "heap_end half_heap = 212"
  by (simp_all add: half_heap_def heap_end_def SIZEOF_STRUCT_MEM_def)

lemma full_heap_live: "in_use full_heap [0] = {0}"
  by (auto simp: in_use_def)

lemma half_heap_live: "in_use half_heap [0, 36] = {0}"
  by (auto simp: in_use_def)

lemma full_heap_ok: "heap_ok full_heap [0]" "lfree_lowest full_heap [0]"
  by (simp_all add: heap_ok_def chain_ok_def no_two_free_def lfree_ok_def live_ok_def lfree_lowest_def
      full_heap_live SIZEOF_STRUCT_MEM_def RT_ALIGN_SIZE_def)

lemma half_heap_ok: "heap_ok half_heap [0, 36]" "lfree_lowest half_heap [0, 36]"
  by (simp_all add: heap_ok_def chain_ok_def no_two_free_def lfree_ok_def live_ok_def lfree_lowest_def
      half_heap_live SIZEOF_STRUCT_MEM_def RT_ALIGN_SIZE_def)

lemma small_rooms: "blk_room full_heap 0 = 100" "blk_room half_heap 0 = 24"
  by (simp_all add: blk_room_def SIZEOF_STRUCT_MEM_def)

section \<open>A Modbus slave\<close>

text \<open>Slave 1 with holding register \<open>i\<close> at value \<open>i\<close>, initialised.\<close>

definition slave_one :: mb_slave where
  "slave_one = \<lparr>s_buf = replicate 256 0, s_snd = STATE_TX_IDLE, s_rcv = STATE_RX_IDLE, s_cur = 0, s_cnt = 0,
     s_pos = 0, s_tx = [], s_rx_on = False, s_tx_on = False, s_timer_on = False, s_events = {},
     s_hold = map of_nat [0..<100], s_inp = replicate 100 0, s_coil = replicate 8 0, s_disc = replicate 2 0,
     s_id = replicate 32 0, s_idlen = 0, s_handlers = xFuncHandlers, s_addr = 1, s_state = STATE_DISABLED,
     s_rcvaddr = 0, s_frame = 0, s_func = 0, s_len = 0, s_exc = MB_EX_NONE\<rparr>"

lemma slave_one_initialised: "mb_initialised slave_one"
  by (simp add: mb_initialised_def slave_one_def ser_sizes)

definition slave_running :: mb_slave where
  "slave_running = slave_one\<lparr>s_state := STATE_ENABLED, s_rx_on := True\<rparr>"

lemma slave_running_ready: "slave_ready 1 slave_running" "s_handlers slave_running = xFuncHandlers"
  by (simp_all add: slave_running_def slave_one_def slave_ready_def line_idle_def ser_sizes table_limits
      mb_addresses del: upt_Suc)

lemma slave_running_tx [simp]: "s_tx slave_running = []"
  by (simp add: slave_running_def slave_one_def)

end
