(* ===== verification/SerialSamples.thy ===== *)
theory SerialSamples
  imports Samples Idle SerialTx SerialCtl Gpio MbModes
begin

text \<open>
  Concrete devices: an UART that records what it is given, a serial device of each kind that has been
  registered and initialised but not opened, an empty object registry, the pins of a board whose drivers
  are up, a Modbus slave in the ASCII mode, and a closed thread.
\<close>

section \<open>An UART\<close>

definition log_uart :: "(u8 list \<times> item list) rt_uart_ops" where
  "log_uart = \<lparr>uo_configure = Some (\<lambda>c h. (0, h)), uo_control = (\<lambda>cmd a h. (0, a, h)),
     uo_putc = (\<lambda>x h. (0, fst h @ [x], snd h)), uo_getc = (\<lambda>h. (- 1, h)),
     uo_dma_transmit = Some (\<lambda>rx x h. if rx then h else (fst h, snd h @ [x]))\<rparr>"

text \<open>One that takes a byte only when its record is not empty.\<close>

definition busy_uart :: "(u8 list \<times> item list) rt_uart_ops" where
  "busy_uart = log_uart\<lparr>uo_putc := \<lambda>x h. (if fst h = [] then - 1 else 0, h)\<rparr>"

definition serial_config1 :: serial_configure where
  "serial_config1 = \<lparr>sc_baud_rate = 115200, sc_data_bits = 8, sc_stop_bits = 0, sc_parity = 0, sc_bit_order = 0,
     sc_invert = 0, sc_bufsz = 64, sc_reserved = 0\<rparr>"

definition serial1 :: "(u8 list \<times> item list) serial" where
  "serial1 = (\<lparr>dv_flag = 0x113, dv_open_flag = 0, dv_ref_count = 0\<rparr>,
     \<lparr>sr_config = serial_config1, sr_rx = None, sr_tx = None, sr_hw = ([], []), sr_rx_indicate = None,
      sr_tx_complete = None\<rparr>, state1 [])"

definition serial_env1 :: serial_env where
  "serial_env1 = \<lparr>se_room = True, se_cells = Some (replicate 8 (0, 0)), se_console = False\<rparr>"

definition dma1 :: rt_serial_tx_dma where
  "dma1 = \<lparr>td_activated = False, td_queue = \<lparr>dq_size = 8, dq_lwm = 4, dq_get_index = 0, dq_put_index = 0,
     dq_queue = replicate 8 (0, 0), dq_evt_notify = None\<rparr>\<rparr>"

lemma dma1_ok: "dq_inv (td_queue dma1, state1 [])" "dq_items (td_queue dma1) = []"
  by (simp_all add: dma1_def dq_inv_def dq_wf_def dq_items_def notify_ok_None)

lemma log_uart_dma: "logs_dma log_uart snd"
  by (simp add: logs_dma_def log_uart_def)

section \<open>A registry\<close>

definition registry1 :: registry where
  "registry1 = \<lparr>rg_obj = (\<lambda>_. \<lparr>ob_name = replicate 8 0, ob_type = 0, ob_flag = 0\<rparr>), rg_list = (\<lambda>_. [])\<rparr>"

lemma registry1_ok: "device_names_ok registry1" "\<not> registered registry1 a" "devices registry1 = []"
  "length (ob_name (rg_obj registry1 a)) = RT_NAME_MAX"
  by (simp_all add: device_names_ok_def registry_ok_def registered_def devices_def registry1_def RT_NAME_MAX_def)

section \<open>A board after start-up of its drivers\<close>

definition gpio1 :: gpio where
  "gpio1 = \<lparr>gp_cfg = (\<lambda>_ _. (GPIO_MODE_INPUT, GPIO_NOPULL)), gp_odr = (\<lambda>_. 0), gp_ext = (\<lambda>_. 0),
     gp_hdr_tab = replicate 16 free_hdr, gp_enable_mask = 0, gp_nvic = (\<lambda>_. False), gp_registered = True\<rparr>"

lemma gpio1_ok: "gpio_ok gpio1" "gp_registered gpio1" "n < 16 \<Longrightarrow> ih_pin (gp_hdr_tab gpio1 ! n) = - 1"
  by (simp_all add: gpio_ok_def gpio1_def free_hdr_def)

section \<open>A slave in the ASCII mode\<close>

definition ascii_one :: mb_ascii where
  "ascii_one = \<lparr>a_rcv = ASCII_RX_IDLE, a_snd = ASCII_TX_IDLE, a_buf = replicate 256 0, a_pos = 0,
     a_byte = BYTE_HIGH_NIBBLE, a_cur = 0, a_cnt = 0, a_lf = MB_ASCII_DEFAULT_LF, a_rx_on = True, a_tx_on = False,
     a_timer_on = False, a_events = {}, a_tx = []\<rparr>"

lemma ascii_one_idle: "ascii_idle ascii_one" "line_idle slave_one"
  by (simp_all add: ascii_idle_def ascii_one_def ascii_sizes line_idle_def slave_one_def ser_sizes)

section \<open>A closed thread\<close>

lemma closed_thread:
  "\<exists>s. kernel_inv s \<and> k_lock s = 0 \<and> k_nest s = 0 \<and> k_q s DefunctQ = [4]"
proof -
  obtain s where s: "kernel_inv s" "objs_same (state1 []) s" "unlinked 4 s"
    "k_thr s = (k_thr (state1 []))(4 := (k_thr (state1 []) 4)\<lparr>t_stat := RT_THREAD_CLOSE\<rparr>)"
    "\<And>q. k_q s q = filter (\<lambda>x. x \<noteq> 4) (k_q (state1 []) q)"
    by (rule thread_close_spec [of "state1 []" 4]) auto
  have "kernel_inv (tlist_push DefunctQ 4 s)"
    using park_kernel_inv [OF s(1,3), of False] s(4) by simp
  moreover have "k_lock s = 0" "k_nest s = 0" using s(2) by (simp_all add: objs_same_def)
  moreover have "k_q s DefunctQ = []" using s(5) [of DefunctQ] by (simp add: state1_def sample_def)
  ultimately show ?thesis by (intro exI [of _ "tlist_push DefunctQ 4 s"]) (simp add: insert_head_def)
qed

end
