(* ===== verification/Spec2Isabelle.thy ===== *)
theory Spec2Isabelle
  imports KPrelude Fifo RingBuffer KService KMemory Allocator SmallMem MbCrc MbUtils MbApp MbFunc MbRtu MbPoll MbSlave MbCoils MbSteps MbAscii MbModes MbmRtu MbmFunc MbmPoll MbmSlave KState Sched Timer Thread Clock Ipc
    Semaphore Mutex Event Mailbox MqCore MsgQueue MemPool DataQueue DevSync RingBlk KObject Device SerialFifo Serial SerialDev SerialCtl SerialTx Idle Gpio Printf Samples SerialSamples
begin

text \<open>
  A verification development for this repository, a board support package with the RT-Thread 4.0.1
  kernel for an STM32F103, as configured in src/rtconfig.h: one processor, 32 priorities, 1000 ticks a
  second, assertions compiled in. Paths below are relative to src/rt-thread unless they start with src.

  The program. The kernel schedules threads by priority (src/scheduler.c). A tick interrupt
  (src/clock.c) advances the time and runs the timers that are due (src/timer.c); a thread that sleeps
  or waits with a bound is woken by its own timer (src/thread.c). Threads meet at the objects of
  src/ipc.c (semaphores, mutexes, events, mailboxes, message queues) and at memory pools
  (src/mempool.c): a caller that cannot proceed is linked into the object's list of waiters,
  suspended, its timer armed, and the scheduler called; whoever makes the object available wakes a
  waiter. The drivers add data queues, completions, wait queues and work queues on the same mechanism
  and two kinds of buffers without waiting (components/drivers/src). The heap (src/mem.c), the service
  functions and the formatted output (src/kservice.c) stand below all of it. Devices are registered by
  name (src/object.c, src/device.c); the serial driver (components/drivers/serial/serial.c) joins an
  UART's interrupts with the threads that read and write it, the pin driver
  (src/libraries/HAL_Drivers/drv_gpio.c) serves the board's LEDs and relay (src/applications/control.c).
  A Modbus slave and a Modbus master (components/net/freemodbus) run their own state machines over the
  line.

  The state. One record \<open>kstate\<close> (KState) holds what the kernel keeps in global variables and
  in the objects: the thread control blocks \<open>k_thr\<close>, every intrusive list a thread's \<open>tlist\<close> node
  can be in \<open>k_q\<close> (ready lists by priority, waiting lists by object, the defunct list), the priority
  group, the current thread and priority, the scheduler lock, the tick, the timers and the sorted
  timer list, and the IPC objects by address. A list of the source is the list of the identities of its
  nodes. Fixed-width integers wrap where the source's type wraps. An operation is a function of the
  state into an option: \<open>None\<close> is a failed assertion, a null or stale pointer, an access outside
  a buffer, or a loop that does not end; so a statement that an operation yields \<open>Some\<close> says that
  none of these happens. A blocking operation is cut at its call of the scheduler: \<open>Ret\<close> is a
  return, \<open>Wait\<close> a suspended caller with the locals of its continuation, which is a function of
  its own. A critical section with interrupts disabled is one step. Memory pools, data queues, the
  drivers' objects and the devices are records beside the kernel state, and their operations act on the
  pair; a callback of a client is a function parameter on the state it may change.

  The kernel's theories.
  \<^item> KPrelude: conversions of C integers, bounds-checked memory copies, list insertions.
  \<^item> Fifo: how a queue lies in a circular array, and the locale \<open>bounded_fifo\<close>, the contract
    of a first-in first-out buffer with what follows for a run of a producer and a consumer. It is
    interpreted on the byte ring buffer (\<open>rbf\<close>, RingBuffer) and on the mailbox (\<open>mbf\<close>,
    Mailbox).
  \<^item> RingBuffer: components/drivers/src/ringbuffer.c. Every operation refines the operation on
    the list of bytes the buffer holds.
  \<^item> KService, KMemory: \<open>__rt_ffs\<close>, \<open>rt_memset\<close>, \<open>rt_memcpy\<close>, \<open>rt_memmove\<close> with
    their word-at-a-time loops against what they are meant to do, and the string functions.
  \<^item> Printf: \<open>rt_vsnprintf\<close> and \<open>print_number\<close>, character by character into a block of memory
    of known length at a 32-bit address, with a write pointer that wraps as in the source. \<open>format_text\<close> gives the text of a format without any buffer; \<open>shows_text\<close>
    relates a text to the part of it that the buffer shows and to the write pointer. The section on
    deviations proves where the output differs from the C standard.
  \<^item> Allocator, SmallMem: the contract of a heap as the locale \<open>allocator\<close>, with what follows for any
    sequence of requests and releases, and src/mem.c with its block headers, its lowest-free pointer and
    its merging; interpretation \<open>heap_allocator\<close>.
  \<^item> KState, Sched: the state; the ready table, the bitmap, the choice of the next thread. The
    invariant \<open>sched_inv\<close> says that the lists, the bitmap and the thread states agree, \<open>settled\<close>
    that the current thread is a most urgent one.
  \<^item> Timer, Clock: the timer list, kept by timeout modulo 2^32 and by arrival among equals;
    the loop of the timer check over the callbacks, whose contract is the locale
    \<open>timer_service\<close>, interpreted on the timers of threads (\<open>thread_timers\<close>).
  \<^item> Thread: initialisation, start, detach, delete, yield, sleep, control, suspend, resume,
    timeout, exit. Idle: the hooks of the idle thread and its cleaning up of closed threads.
  \<^item> Ipc: the waiting lists shared by all objects: the place of a new waiter, \<open>ipc_block\<close>,
    the steps every blocking call performs, with one specification \<open>blocked\<close>; waking one waiter
    (\<open>woken\<close>) or all. Semaphore, Mutex, Event, Mailbox, MsgQueue, MemPool, DataQueue and DevSync
    use these facts, so that each of them only states what it adds.
  \<^item> MqCore: the message list of a message queue. A sender and a receiver copy a message with
    interrupts enabled, so the pieces between two critical sections are steps of the relation
    \<open>mq_step\<close>, interleaved freely; \<open>sys_inv\<close> is its invariant.
  \<^item> RingBlk: components/drivers/src/ringblk_buf.c, blocks of variable size cut from a circular
    byte buffer.

  Devices.
  \<^item> KObject: the containers of src/object.c, objects by address with class and name. Device:
    registration by name and the operations of src/device.c over a driver's operations, with the locale
    \<open>device_driver\<close>: what a driver promises of its open and close, and that opens and closes then
    balance.
  \<^item> Serial: the driver over an UART, whose operations are a record of functions on a state of its
    own; polled, interrupt-driven and DMA transfer, control commands, termios settings, the interrupt
    entry. SerialFifo: its receive buffers, with the locale \<open>sliding_fifo\<close> (a buffer that drops the
    oldest when it overflows), interpreted on the interrupt mode and on the DMA mode (\<open>serial_int\<close>,
    \<open>serial_dma\<close>). SerialDev: sessions of clients, interpretation \<open>serial_driver\<close> of the device
    contract. SerialCtl: the settings and the receive interrupt. SerialTx: what reaches the line.
    Whether the heap has room for a buffer is a parameter, \<open>serial_env\<close>.
  \<^item> Gpio: the pin driver, its interrupts, the pin device, LEDs and relay. \<open>gpio_ok\<close> ties the
    enabled interrupt vectors to the enabled lines, \<open>pin_step\<close> is any client operation. The vendor's
    register code is kept as its effect on the configuration and the levels of the pins.

  Modbus. The repository carries freemodbus; the board's main program uses an external
  package instead (see below), so this part is verified on its own.
  \<^item> MbCrc: the table-driven checksum against the bitwise CRC-16. MbUtils: bit fields across bytes.
    MbApp, MbCoils: the register tables and their callbacks (port/user_mb_app.c). MbFunc: the handlers
    of requests (modbus/functions). MbRtu: receiver, transmitter and timer of the RTU mode
    (modbus/rtu/mbrtu.c). MbPoll: modbus/mb.c. MbSlave: a whole exchange, from the bytes of a request to
    the bytes of its reply. MbAscii: the ASCII mode (modbus/ascii/mbascii.c), which mbconfig.h switches
    off. MbModes: what the stack expects of a mode, the locale \<open>receiving_mode\<close> and its extension
    \<open>half_duplex_mode\<close>, interpreted on both modes (\<open>rtu_mode\<close>, \<open>ascii_mode\<close>). MbSteps: interrupts and polls in any order as the relation \<open>mb_step\<close>; the
    locale \<open>slave_invariant\<close> states what an invariant of it needs, interpreted twice (\<open>line\<close>,
    \<open>fixed\<close>).
  \<^item> MbmRtu: the state of a master, its port (port/portevent_m.c, port/porttimer_m.c) and its RTU mode
    (modbus/rtu/mbrtu_m.c). MbmFunc: its requests and the handlers of the replies with the tables that
    have a row for every slave (modbus/functions, port/user_mb_app_m.c). MbmPoll: modbus/mb_m.c.
    MbmSlave: whole transactions of a master and a slave on one line, from the request of a thread to
    the result it gets, and requests that stay unanswered.

  Samples, SerialSamples: concrete states at which the properties are applied.

  Loops. Loops that count are structural recursions, loops over a format or the digits of a number are
  functions with a termination proof. Loops that may run for ever are partial functions into options
  (\<open>timer_check_loop\<close>, \<open>rt_ipc_list_resume_all\<close>, \<open>mq_flush\<close>, \<open>mp_wake_all\<close>,
  \<open>work_completion_loop\<close>, \<open>malloc_scan\<close>, \<open>lfree_scan\<close>, \<open>serial_int_tx\<close>,
  \<open>serial_isr_rx\<close>, \<open>rt_thread_idle_excute\<close>); the theorems about them conclude with \<open>Some\<close>,
  so that they state termination. The only fuel is in MbmSlave: the master's main loop polls at most
  once to send a request and three times for a reply, which is what the longest reply takes (received,
  executed, failed); the theorems conclude with \<open>Some\<close>, so it is enough.

  Not modelled. Stacks, the switch of register contexts, hooks and debug output; the creation of
  objects from the heap (the initialisers of static objects are modelled); in the serial driver the
  POSIX file operations, in the pin device the operations through the device interface; the TCP mode
  of Modbus, the ASCII mode of its master and the serial device below its port; the parts this configuration does not compile (SMP, signals, soft
  timers, memheap, slab). The board's main program and its message client call external packages that
  are not in the tree (libmodbus, an MQTT client). Out of the model's reach are the vendor's register
  code, start-up and processor ports; file systems, network stacks, the shell and the C library glue are
  separate programs that only call what is modelled here.
\<close>

section \<open>Scheduler, threads and timers\<close>

text \<open>C1: From any state that satisfies the kernel invariant, rt_schedule neither fails nor breaks the
  invariant; it changes nothing but the current thread and which threads are READY or RUNNING; and when
  the scheduler is not locked and some thread can run, a thread of the best priority runs afterwards.\<close>

theorem schedule_runs_best:
  assumes "kernel_inv s"
  shows "\<exists>s'. rt_schedule s = Some s' \<and> kernel_inv s' \<and> sched_only s s' \<and>
    (k_lock s = 0 \<and> runnable s \<longrightarrow> best_runs s')"
  using rt_schedule_kernel [OF assms] by metis

theorem schedule_runs_best_witness:
  "\<exists>s'. rt_schedule (state1 []) = Some s' \<and> kernel_inv s' \<and> sched_only (state1 []) s' \<and> best_runs s'"
proof -
  have "th_stat (state1 []) 1 = RT_THREAD_RUNNING" by simp
  then have "runnable (state1 [])" unfolding runnable_def by blast
  then show ?thesis using schedule_runs_best [of "state1 []"] by auto
qed

text \<open>C2: One tick. When only threads wait on timers, rt_tick_increase succeeds and keeps the kernel
  invariant; every thread whose timeout has passed is awake with the error -RT_ETIMEOUT, every other
  sleeper still sleeps with its timer armed, and the timer list stays sorted by the time left.\<close>

theorem tick_wakes_exactly_the_due:
  assumes "kernel_inv s" and "timers_sorted (k_tick s) s"
    and "\<forall>m \<in> set (k_tlist s). \<exists>t. m = ThreadTimer t"
    and "\<forall>t. \<not> tm_periodic (k_tmr s (ThreadTimer t))"
  shows "\<exists>s'. rt_tick_increase usr s = Some s' \<and> kernel_inv s' \<and> k_tick s' = k_tick s + 1 \<and>
    timers_sorted (k_tick s') s' \<and>
    (\<forall>t. ThreadTimer t \<in> set (k_tlist s) \<longrightarrow>
       (if tm_timeout_tick (k_tmr s (ThreadTimer t)) - k_tick s \<le> 1 then timed_out (ThreadTimer t) s'
        else ThreadTimer t \<in> set (k_tlist s') \<and> th_stat s' t = RT_THREAD_SUSPEND))"
  by (rule tick_spec [OF assms])

theorem tick_wakes_exactly_the_due_witness:
  "\<exists>s'. rt_tick_increase (\<lambda>_ s. Some s) (state1 []) = Some s' \<and> kernel_inv s' \<and> k_tick s' = 101"
proof -
  have "timers_sorted (k_tick (state1 [])) (state1 [])" by (rule kernel_okD(2)) simp
  then show ?thesis using tick_wakes_exactly_the_due [of "state1 []" "\<lambda>_ s. Some s"] by auto
qed

text \<open>C3: Starting a timer inserts it behind all timers that expire no later and before all that expire
  later, so timers of equal timeout fire in the order of their starts, across the wrap of the tick.\<close>

theorem timer_start_keeps_order:
  assumes "timers_sorted base s" and "tm_attached (k_tmr s m)"
    and "tm_init_tick (k_tmr s m) < RT_TICK_HALF"
    and "unat (k_tick s + tm_init_tick (k_tmr s m) - base) < unat RT_TICK_HALF"
  shows "\<exists>s' before after. rt_timer_start m s = Some s' \<and> timers_sorted base s' \<and>
    tm_timeout_tick (k_tmr s' m) = k_tick s + tm_init_tick (k_tmr s m) \<and> tm_activated (k_tmr s' m) \<and>
    filter (\<lambda>x. x \<noteq> m) (k_tlist s) = before @ after \<and> k_tlist s' = before @ m # after \<and>
    (\<forall>x \<in> set before. tdist base (k_tmr s') x \<le> tdist base (k_tmr s') m) \<and>
    (\<forall>x \<in> set after. tdist base (k_tmr s') m < tdist base (k_tmr s') x)"
proof -
  obtain s' where s': "rt_timer_start m s = Some s'" "timers_sorted base s'"
    "tm_timeout_tick (k_tmr s' m) = k_tick s + tm_init_tick (k_tmr s m)" "tm_activated (k_tmr s' m)"
    "k_tlist s' = filter (\<lambda>x. tdist base (k_tmr s') x \<le> tdist base (k_tmr s') m)
           (filter (\<lambda>x. x \<noteq> m) (k_tlist s)) @ m #
         filter (\<lambda>x. tdist base (k_tmr s') m < tdist base (k_tmr s') x)
           (filter (\<lambda>x. x \<noteq> m) (k_tlist s))"
    "\<And>x. x \<noteq> m \<Longrightarrow> k_tmr s' x = k_tmr s x"
    by (rule rt_timer_start_spec [OF assms]) (rule that, assumption+)
  have "sorted_wrt (\<lambda>a b. tdist base (k_tmr s') a \<le> tdist base (k_tmr s') b) (filter (\<lambda>x. x \<noteq> m) (k_tlist s))"
  proof (rule sorted_wrt_mono_rel [rotated])
    show "sorted_wrt (\<lambda>a b. tdist base (k_tmr s) a \<le> tdist base (k_tmr s) b) (filter (\<lambda>x. x \<noteq> m) (k_tlist s))"
      using assms(1) by (simp add: timers_sorted_def sorted_wrt_filter)
  qed (use s'(6) in \<open>simp add: tdist_def\<close>)
  note split = sorted_split [OF this, of "tdist base (k_tmr s') m"]
  show ?thesis using s'(1-5) split by fastforce
qed

theorem timer_start_keeps_order_witness:
  "\<exists>s'. rt_timer_start (SysTimer 0) (state1 []) = Some s' \<and> k_tlist s' = [SysTimer 0]"
proof -
  have "timers_sorted 100 (state1 [])" using kernel_okD(2) [of "state1 []"] by simp
  then show ?thesis using timer_start_keeps_order [of 100 "state1 []" "SysTimer 0"] by (auto simp: RT_TICK_HALF_def RT_TICK_MAX_def)
qed

text \<open>C4: A thread that returns from its entry function is closed and leaves every ready and wait list; it
  goes to the defunct list exactly when its memory or its cleanup function still needs care.\<close>

theorem exit_closes_thread:
  assumes "kernel_inv s" and "k_cur s = Some t" and "th_stat s t = RT_THREAD_RUNNING"
  shows "\<exists>s'. rt_thread_exit s = Some s' \<and> kernel_inv s' \<and> th_stat s' t = RT_THREAD_CLOSE \<and>
    (\<forall>p. t \<notin> set (k_q s' (ReadyQ p))) \<and>
    (t \<in> set (k_q s' DefunctQ) \<longleftrightarrow> t_cleanup (k_thr s t) \<or> \<not> t_static (k_thr s t)) \<and>
    (k_lock s = 0 \<and> (\<exists>u. th_stat s u = RT_THREAD_READY) \<longrightarrow> best_runs s')"
  by (rule rt_thread_exit_spec [OF assms]) blast

theorem exit_closes_thread_witness:
  "\<exists>s'. rt_thread_exit (state1 []) = Some s' \<and> th_stat s' 1 = RT_THREAD_CLOSE \<and> 1 \<notin> set (k_q s' DefunctQ)"
  using exit_closes_thread [of "state1 []" 1] by auto

section \<open>Inter-process communication\<close>

text \<open>C5: Releasing a semaphore wakes the first waiter without touching the value, or counts the unit when
  nobody waits; nobody waits while the value is positive; a woken thread of better priority runs at once.\<close>

theorem sem_release_hands_over:
  assumes "kernel_ok s" and "sem_inv i s"
  shows "\<exists>s'. rt_sem_release i s = Some (RT_EOK, s') \<and> kernel_ok s' \<and> sem_inv i s' \<and>
    (case k_q s (semq i) of
       [] \<Rightarrow> k_q s' (semq i) = [] \<and> sem_value (k_sem s' i) = sem_value (k_sem s i) + 1
     | t # ts \<Rightarrow> k_q s' (semq i) = ts \<and> sem_value (k_sem s' i) = 0 \<and>
         (th_stat s' t = RT_THREAD_READY \<or> th_stat s' t = RT_THREAD_RUNNING) \<and>
         t_error (k_thr s' t) = t_error (k_thr s t) \<and> (k_lock s = 0 \<longrightarrow> best_runs s'))"
  by (rule rt_sem_release_spec [OF assms]) (auto split: list.split)

theorem sem_release_hands_over_witness:
  "\<exists>s'. rt_sem_release 7 (state1 [(semq 7, [2])]) = Some (RT_EOK, s') \<and> k_q s' (semq 7) = [] \<and> best_runs s'"
proof -
  have "sem_inv 7 (state1 [(semq 7, [2])])" by (simp add: sem_inv_def wait_flag_def RT_IPC_FLAG_FIFO_def)
  then show ?thesis using sem_release_hands_over [of "state1 [(semq 7, [2])]" 7] by auto
qed

text \<open>C6: A thread that waits for a mutex lends its priority to the owner, so the owner stays at least as
  urgent as everybody it makes wait; the mutex itself is untouched.\<close>

theorem mutex_take_inherits:
  assumes "kernel_ok s" and "mutex_inv i s" and "k_cur s = Some t" and "th_stat s t = RT_THREAD_RUNNING"
    and "k_nest s = 0" and "mtx_owner (k_mtx s i) = Some ow" and "ow \<noteq> t"
    and "time \<noteq> 0" and "time < 0x7fffffff"
  shows "\<exists>s'. rt_mutex_take i time s = Some (Wait t s') \<and> kernel_ok s' \<and> mutex_inv i s' \<and>
    k_mtx s' = k_mtx s \<and> th_stat s' t = RT_THREAD_SUSPEND \<and>
    k_q s' (mtxq i) = waiters_with s t (mtx_flag (k_mtx s i)) (k_q s (mtxq i)) \<and>
    th_prio s' ow = min (th_prio s t) (th_prio s ow) \<and>
    (\<forall>u. u \<noteq> ow \<longrightarrow> th_prio s' u = th_prio s u) \<and> (inherits i s \<longrightarrow> inherits i s')"
  by (rule rt_mutex_take_blocks [OF assms])

definition held_by :: "tid \<Rightarrow> kstate \<Rightarrow> kstate" where
  "held_by t s = upd_mtx 0 (\<lambda>m. m\<lparr>mtx_value := 0, mtx_owner := Some t, mtx_hold := 1,
     mtx_original_priority := 20\<rparr>) s"

lemma held_by_sel [simp]:
  "k_cur (held_by t s) = k_cur s" "k_nest (held_by t s) = k_nest s" "k_thr (held_by t s) = k_thr s"
  "k_q (held_by t s) = k_q s" "k_lock (held_by t s) = k_lock s" "mtx_owner (k_mtx (held_by t s) 0) = Some t"
  "i \<noteq> 0 \<Longrightarrow> k_mtx (held_by t s) i = k_mtx s i" "mtx_hold (k_mtx (held_by t s) 0) = 1"
  "mtx_original_priority (k_mtx (held_by t s) 0) = 20" "mtx_flag (k_mtx (held_by t s) i) = mtx_flag (k_mtx s i)"
  "mtx_value (k_mtx (held_by t s) 0) = 0" "kernel_ok (held_by t s) = kernel_ok s" "live (held_by t s) u = live s u"
  by (simp_all add: held_by_def live_def)

lemma held_by_inv:
  "live (state1 ws) t \<Longrightarrow> t \<notin> set (wait_of ws (mtxq 0)) \<Longrightarrow> mutex_inv 0 (held_by t (state1 ws))"
  by (simp add: mutex_inv_def wait_flag_def RT_IPC_FLAG_FIFO_def RT_THREAD_PRIORITY_MAX_def)

theorem mutex_take_inherits_witness:
  "\<exists>s'. rt_mutex_take 0 20 (held_by 0 (state1 [])) = Some (Wait 1 s') \<and> th_prio s' 0 = 10"
proof -
  have "mutex_inv 0 (held_by 0 (state1 []))" by (rule held_by_inv) simp_all
  then show ?thesis using mutex_take_inherits [of "held_by 0 (state1 [])" 0 1 0 20] by auto
qed

text \<open>C7: The owner's last release restores the priority it had when it took the mutex and hands the mutex,
  at depth one, to the first waiter, or frees it; no other thread's priority changes.\<close>

theorem mutex_release_hands_over:
  assumes "kernel_ok s" and "mutex_inv i s" and "k_cur s = Some t" and "k_nest s = 0"
    and "mtx_owner (k_mtx s i) = Some t" and "mtx_hold (k_mtx s i) = 1"
  shows "\<exists>s'. rt_mutex_release i s = Some (RT_EOK, s') \<and> kernel_ok s' \<and> mutex_inv i s' \<and>
    th_prio s' t = mtx_original_priority (k_mtx s i) \<and> (\<forall>u. u \<noteq> t \<longrightarrow> th_prio s' u = th_prio s u) \<and>
    (case k_q s (mtxq i) of
       [] \<Rightarrow> mtx_owner (k_mtx s' i) = None
     | w # ws \<Rightarrow> mtx_owner (k_mtx s' i) = Some w \<and> mtx_hold (k_mtx s' i) = 1 \<and>
         mtx_original_priority (k_mtx s' i) = th_prio s w \<and> k_q s' (mtxq i) = ws \<and>
         (th_stat s' w = RT_THREAD_READY \<or> th_stat s' w = RT_THREAD_RUNNING) \<and>
         (k_lock s = 0 \<longrightarrow> best_runs s'))"
  using rt_mutex_release_last [OF assms] by (auto split: list.splits)

theorem mutex_release_hands_over_witness:
  "\<exists>s'. rt_mutex_release 0 (held_by 1 (state1 [(mtxq 0, [2])])) = Some (RT_EOK, s') \<and>
     mtx_owner (k_mtx s' 0) = Some 2 \<and> th_prio s' 1 = 20 \<and> best_runs s'"
proof -
  have "mutex_inv 0 (held_by 1 (state1 [(mtxq 0, [2])]))" by (rule held_by_inv) simp_all
  then show ?thesis using mutex_release_hands_over [of "held_by 1 (state1 [(mtxq 0, [2])])" 0 1] by auto
qed

text \<open>C8: Sending events adds the bits to the set and then serves the waiters in the order of the list: a
  waiter is woken exactly when its AND or OR request is met by the bits that are left when its turn comes, it
  gets all it wanted (AND) or what there is of it (OR), and with CLEAR takes these bits away. The set
  afterwards, the waiters that stay and what each woken thread got are those of this rule (ev_serve), and no
  thread waits for what is there.\<close>

theorem event_send_serves_waiters:
  assumes "kernel_ok s" and "event_inv i s" and "sent \<noteq> 0"
  shows "\<exists>s'. rt_event_send i sent s = Some (RT_EOK, s') \<and> kernel_ok s' \<and> event_inv i s' \<and>
    (case ev_serve (k_thr s) (ev_set (k_ev s i) OR sent) (k_q s (evq i)) of (flags, waiting, served) \<Rightarrow>
       ev_set (k_ev s' i) = flags \<and> k_q s' (evq i) = waiting \<and>
       (\<forall>(t, bits) \<in> set served. (th_stat s' t = RT_THREAD_READY \<or> th_stat s' t = RT_THREAD_RUNNING) \<and>
          t_event_set (k_thr s' t) = bits \<and> t_error (k_thr s' t) = t_error (k_thr s t) \<and>
          (k_lock s = 0 \<longrightarrow> best_runs s')))"
  by (cases "ev_serve (k_thr s) (ev_set (k_ev s i) OR sent) (k_q s (evq i))" rule: prod_cases3)
    (use rt_event_send_serves [OF assms] in simp)

text \<open>Thread 2 waits at the event set 5 for all of \<open>want\<close> and clears it.\<close>

definition wants :: "u32 \<Rightarrow> kstate" where
  "wants want = upd_thr 2 (\<lambda>h. h\<lparr>t_event_set := want, t_event_info := 5\<rparr>) (state1 [(evq 5, [2])])"

lemma wants_ok: "kernel_ok (wants want)" "want \<noteq> 0 \<Longrightarrow> event_inv 5 (wants want)" "k_lock (wants want) = 0"
  "k_q (wants want) (evq 5) = [2]" "ev_set (k_ev (wants want) 5) = 0"
  "t_event_set (k_thr (wants want) 2) = want" "t_event_info (k_thr (wants want) 2) = 5"
proof -
  have "kernel_ok (state1 [(evq 5, [2])])" by simp
  then show "kernel_ok (wants want)"
    using kernel_ok_core [of "wants want" "state1 [(evq 5, [2])]"] by (simp add: wants_def thr_core_def)
qed (simp_all add: wants_def event_inv_def unserved_def ev_sat_def wait_flag_def RT_IPC_FLAG_FIFO_def RT_EVENT_FLAG_AND_def)

theorem event_send_serves_waiters_witness:
  "\<exists>s'. rt_event_send 5 7 (wants 6) = Some (RT_EOK, s') \<and> ev_set (k_ev s' 5) = 1 \<and> k_q s' (evq 5) = [] \<and>
    t_event_set (k_thr s' 2) = 6 \<and> best_runs s'"
proof -
  have b: "6 AND 7 = (6 :: u32)" "7 AND NOT 6 = (1 :: u32)" "5 AND 1 = (1 :: u8)" "5 AND 4 = (4 :: u8)" by code_simp+
  have "ev_serve (k_thr (wants 6)) 7 [2] = (1, [], [(2, 6)])"
    by (simp add: wants_ok ev_sat_def ev_leaves_def ev_takes_def RT_EVENT_FLAG_AND_def RT_EVENT_FLAG_CLEAR_def b)
  then show ?thesis using event_send_serves_waiters [OF wants_ok(1,2), of 6 7] by (auto simp: wants_ok)
qed

text \<open>C9: Used without waiting, a mailbox is a bounded FIFO: in any run of sends and receives the mails come
  out in the order in which they went in, and what went in is what came out plus what is still there.\<close>

theorem mailbox_is_fifo:
  assumes "mb_inv i s" and "mbf.run i cs s = (ins, outs, s')"
  shows "mb_inv i s' \<and> outs @ mb_mails (k_mb s' i) = mb_mails (k_mb s i) @ ins"
  using mbf.run_fifo [OF assms] by simp

theorem mailbox_is_fifo_witness:
  "\<exists>ins outs s'. mbf.run 0 [Some 11, Some 22, None, None] (state1 []) = (ins, outs, s') \<and>
     outs @ mb_mails (k_mb s' 0) = ins"
proof -
  have inv: "mb_inv 0 (state1 [])"
    by (simp add: mb_inv_def mb_wf_def wait_flag_def RT_IPC_FLAG_FIFO_def)
  obtain ins outs s' where r: "mbf.run 0 [Some 11, Some 22, None, None] (state1 []) = (ins, outs, s')"
    by (cases "mbf.run 0 [Some 11, Some 22, None, None] (state1 [])") auto
  have "mb_mails (k_mb (state1 []) 0) = []" by (simp add: mb_mails_def)
  then show ?thesis using mailbox_is_fifo [OF inv r] r by auto
qed

section \<open>Byte ring buffer\<close>

text \<open>C10: rt_ringbuffer_put stores as many of the given bytes as there is room for, behind the stored ones,
  and returns their number.\<close>

theorem ringbuffer_put_appends:
  assumes "rb_inv rb" and "len0 \<le> length ptr"
  shows "\<exists>rb'. rt_ringbuffer_put rb ptr len0 = Some (min len0 (rb_cap rb - rb_used rb), rb') \<and>
    rb_inv rb' \<and> rb_cap rb' = rb_cap rb \<and>
    rb_data rb' = rb_data rb @ take (min len0 (rb_cap rb - rb_used rb)) ptr"
  using rt_ringbuffer_put_spec [OF assms] by metis

theorem ringbuffer_put_appends_witness:
  "\<exists>rb0 rb'. rt_ringbuffer_init (replicate 8 0) 8 = Some rb0 \<and>
     rt_ringbuffer_put rb0 [1, 2, 3] 3 = Some (3, rb') \<and> rb_data rb' = [1, 2, 3]"
proof -
  obtain rb0 where i: "rt_ringbuffer_init (replicate 8 0) 8 = Some rb0" "rb_inv rb0" "rb_data rb0 = []"
    "rb_cap rb0 = 8"
    using rt_ringbuffer_init_spec [of 8 "replicate 8 0"] by (auto simp: rt_align_down_def RT_ALIGN_SIZE_def)
  have "rb_used rb0 = 0" using arg_cong [OF i(3), of length] by (simp add: rb_data_def)
  then show ?thesis using ringbuffer_put_appends [OF i(2), of 3 "[1, 2, 3]"] i by auto
qed

section \<open>Memory and string services\<close>

text \<open>C11: The word-wise rt_memset writes the low byte of its argument to every address of the range and
  nothing outside it, whatever the alignment and the count.\<close>

theorem memset_fills: "rt_memset m s c count = filled m s (ucast (c AND 0xff)) count"
  by (rule rt_memset_eq)

text \<open>C12: rt_memmove copies the range as it was before the call, however source and destination overlap;
  rt_memcpy does so when the destination does not start inside the source. Neither writes anywhere else.\<close>

theorem memmove_copies:
  "rt_memmove m dest src n = copied m dest src n \<and>
   (\<not> (src < dest \<and> dest < src + n) \<longrightarrow> rt_memcpy m dest src n = copied m dest src n)"
  using rt_memmove_eq rt_memcpy_eq [of dest src n m] by (auto simp: upward_ok_def)

theorem memmove_copies_witness: "rt_memcpy (\<lambda>a. of_nat a) 3 5 20 = copied (\<lambda>a. of_nat a) 3 5 20"
  using memmove_copies [of "\<lambda>a. of_nat a" 3 5 20] by simp

text \<open>C13: The table-driven find-first-set returns the number of the lowest set bit, counted from one, and zero
  for zero.\<close>

theorem ffs_finds_lowest_bit:
  "(v = 0 \<longrightarrow> rt_ffs v = 0) \<and>
   (v \<noteq> 0 \<longrightarrow> 0 < rt_ffs v \<and> rt_ffs v \<le> 32 \<and> bit v (rt_ffs v - 1) \<and> (\<forall>i < rt_ffs v - 1. \<not> bit v i))"
  using rt_ffs_least [of v] by auto

theorem ffs_finds_lowest_bit_witness: "rt_ffs 40 \<le> 32 \<and> bit (40 :: u32) (rt_ffs 40 - 1)"
  using ffs_finds_lowest_bit [of 40] by simp
section \<open>Message queues\<close>

text \<open>C14: rt_mq_send to a queue with a free slot appends the message, which fills the first free slot (the
  bytes behind a short message are what this slot held before), and wakes the first waiting receiver; every
  other object and waiting list is untouched.\<close>

theorem mq_send_appends:
  assumes "mq_inv i ms s" and "0 < sz" "sz \<le> mq_msg_size (k_mq s i)" "sz \<le> length buffer"
    and "length ms < mq_max_msgs (k_mq s i)"
  shows "\<exists>n m' s'. mq_free (k_mq s i) = Some n \<and> rt_mq_send i buffer sz s = Some (RT_EOK, s') \<and>
    mq_inv i (ms @ [take sz buffer @ drop sz (mq_body (k_mq s i) n)]) s' \<and> mq_woken i m' s s'"
  using rt_mq_send_spec(2) [OF assms] by blast

lemma state1_mq: "q \<noteq> DefunctQ \<Longrightarrow> mq_inv 0 [] (state1 [(q, [2])])" "mq_inv 0 [] (state1 [])"
proof -
  have k: "k_mq (state1 ws) 0 = \<lparr>mq_flag = 0, mq_msg_size = 4, mq_max_msgs = 2, mq_entry = 0, mq_head = None,
      mq_tail = None, mq_free = Some 1, mq_next = (\<lambda>n. if n = 1 then Some 0 else None),
      mq_body = (\<lambda>_. [0, 0, 0, 0])\<rparr>" for ws by (simp add: state1_def sample_def)
  have "{Suc 0, 0} = {..<2::nat}" by auto
  then have h: "mq_holds (k_mq (state1 ws) 0) []" for ws
    by (intro mq_holdsI [where qs = "[]" and fs = "[1, 0]"])
      (simp_all add: k mq_rep_def wait_flag_def RT_IPC_FLAG_FIFO_def)
  show "q \<noteq> DefunctQ \<Longrightarrow> mq_inv 0 [] (state1 [(q, [2])])" "mq_inv 0 [] (state1 [])"
    using h by (simp_all add: mq_inv_def)
qed

lemma state1_mq_size: "mq_msg_size (k_mq (state1 ws) 0) = 4" "mq_max_msgs (k_mq (state1 ws) 0) = 2"
  by (simp_all add: state1_def sample_def)

theorem mq_send_appends_witness:
  "\<exists>s'. rt_mq_send 0 [7, 8, 9] 3 (state1 [(mqq 0, [2])]) = Some (RT_EOK, s') \<and> mq_inv 0 [[7, 8, 9, 0]] s' \<and>
    th_stat s' 2 \<noteq> RT_THREAD_SUSPEND"
proof -
  have "mq_inv 0 [] (state1 [(mqq 0, [2])])" by (rule state1_mq) simp
  from mq_send_appends [OF this, of 3 "[7, 8, 9]"] state1_mq_size obtain n m' s' where
    "rt_mq_send 0 [7, 8, 9] 3 (state1 [(mqq 0, [2])]) = Some (RT_EOK, s')"
    "mq_inv 0 ([] @ [take 3 [7, 8, 9] @ drop 3 (mq_body (k_mq (state1 [(mqq 0, [2])]) 0) n)]) s'"
    "mq_woken 0 m' (state1 [(mqq 0, [2])]) s'" by auto
  moreover have "mq_body (k_mq (state1 [(mqq 0, [2])]) 0) n = [0, 0, 0, 0]" by (simp add: state1_def sample_def)
  ultimately show ?thesis by (intro exI [of _ s']) (auto simp: mq_woken_def)
qed

text \<open>C15: Senders, urgent senders, receivers and the reset command may be interleaved at every point
  where the code enables interrupts. In every reachable state the links hold exactly the messages sent
  and not yet received, in the abstract order; a message in the hands of a thread is never overwritten;
  no node is lost; and a receiver that sees a non-zero count finds the first message.\<close>

theorem mq_interleavings_safe:
  assumes "sys_inv s0" and "mq_reach s0 s"
  shows "sys_inv s \<and> mq_entry (sys_mq s) = length (sys_queue s) \<and>
    (\<exists>fs. mq_chain (mq_next (sys_mq s)) (mq_free (sys_mq s)) fs \<and>
       length (sys_queue s) + length fs + card (dom (sys_out s)) = mq_max_msgs (sys_mq s)) \<and>
    (mq_entry (sys_mq s) \<noteq> 0 \<longrightarrow>
       (\<exists>n m. mq_take (sys_mq s) = Some (n, m) \<and> mq_body m n = hd (sys_queue s)))"
proof -
  have inv: "sys_inv s" by (rule mq_reach_inv [OF assms(2,1)])
  then show ?thesis using sys_inv_count [OF inv] sys_inv_take [OF inv] by metis
qed

lemma sys0_inv: "sys_inv \<lparr>sys_mq = k_mq (state1 []) 0, sys_out = \<lambda>_. None, sys_queue = []\<rparr>"
proof -
  obtain qs fs where "mq_rep (k_mq (state1 []) 0) qs fs {}" "[] = map (mq_body (k_mq (state1 []) 0)) qs"
    using state1_mq(2) mq_holdsE unfolding mq_inv_def by metis
  then show ?thesis by (auto simp: sys_inv_def)
qed

theorem mq_interleavings_safe_witness:
  "\<exists>s. mq_reach \<lparr>sys_mq = k_mq (state1 []) 0, sys_out = \<lambda>_. None, sys_queue = []\<rparr> s \<and>
     sys_out s 1 = Some (Fresh True) \<and> sys_inv s"
proof -
  let ?s0 = "\<lparr>sys_mq = k_mq (state1 []) 0, sys_out = \<lambda>_. None, sys_queue = []\<rparr>"
  have a: "\<exists>m. mq_alloc (sys_mq ?s0) = Some (1, m)" by (simp add: mq_alloc_def state1_def sample_def)
  then obtain m where "mq_alloc (sys_mq ?s0) = Some (1, m)" by blast
  from reach_step [OF reach_refl step_alloc [OF this, of True]]
  have r: "mq_reach ?s0 (?s0\<lparr>sys_mq := m, sys_out := (sys_out ?s0)(1 \<mapsto> Fresh True)\<rparr>)" .
  have "sys_inv (?s0\<lparr>sys_mq := m, sys_out := (sys_out ?s0)(1 \<mapsto> Fresh True)\<rparr>)"
    using mq_interleavings_safe [OF sys0_inv r] by (rule conjunct1)
  with r show ?thesis by (intro exI [of _ "?s0\<lparr>sys_mq := m, sys_out := (sys_out ?s0)(1 \<mapsto> Fresh True)\<rparr>"]) simp
qed

section \<open>Memory pools\<close>

text \<open>C16: rt_mp_alloc on a pool with a free block returns at once with a block that was free and is in
  use afterwards, so no block is handed out twice.\<close>

theorem mp_alloc_gives_free_block:
  assumes "mp_inv i (b # fs) (m, s)"
  shows "\<exists>m'. rt_mp_alloc i time (m, s) = Some (Ret (Some b, m') s) \<and> mp_inv i fs (m', s) \<and>
    b \<notin> set fs \<and> b < mp_block_total_count m \<and> mp_word m' b = Owner"
proof -
  obtain m' where m': "rt_mp_alloc i time (m, s) = Some (Ret (Some b, m') s)" "mp_inv i fs (m', s)"
    "mp_block_total_count m' = mp_block_total_count m" using rt_mp_alloc_some [OF assms] by blast
  have r: "mp_rep m (b # fs)" "mp_rep m' fs" using assms m'(2) by (simp_all add: mp_inv_def)
  have b: "b \<notin> set fs" "b < mp_block_total_count m" using mp_repD(2,3) [OF r(1)] by auto
  then have "mp_word m' b = Owner" using mp_repD(6) [OF r(2)] m'(3) by simp
  then show ?thesis using m' b by blast
qed

definition pool2 :: "nat \<Rightarrow> rt_mempool" where
  "pool2 waiting = \<lparr>mp_size = 24, mp_block_size = 8, mp_block_list = None, mp_block_total_count = 2,
     mp_block_free_count = 0, mp_suspended = waiting, mp_word = (\<lambda>_. Owner)\<rparr>"

lemma pool2_inv: "mp_inv 0 [] (pool2 0, state1 [])" "mp_inv 0 [] (pool2 1, state1 [(mpq 0, [2])])"
  by (simp_all add: mp_inv_def mp_rep_def pool2_def)

theorem mp_alloc_gives_free_block_witness:
  "\<exists>m0 m' s'. rt_mp_init 0 26 6 (pool2 0, state1 []) = Some (RT_EOK, m0, s') \<and>
     rt_mp_alloc 0 0 (m0, s') = Some (Ret (Some 0, m') s')"
proof -
  obtain m0 where m0: "mp_setup 24 8 2 (pool2 0) = Some m0" "mp_rep m0 [0..<2]" "mp_suspended m0 = 0"
    using mp_setup_rep [of 2 24 8 "pool2 0"] by auto
  have q: "(state1 [])\<lparr>k_q := (k_q (state1 []))(mpq 0 := [])\<rparr> = state1 []" by (simp add: fun_upd_idem)
  have "rt_mp_init 0 26 6 (pool2 0, state1 []) = Some (RT_EOK, m0, state1 [])"
    using m0(1) q by (simp add: rt_mp_init_def rt_align_def rt_align_down_def RT_ALIGN_SIZE_def sizeof_ptr_def Let_def)
  moreover have "mp_inv 0 (0 # [1]) (m0, state1 [])" using m0(2,3) by (simp add: mp_inv_def upt_rec)
  ultimately show ?thesis using mp_alloc_gives_free_block [of 0 0 "[1]" m0 "state1 []" 0] by blast
qed

section \<open>Buffers and synchronisation of the drivers\<close>

text \<open>C17: A data queue used without waiting is a bounded first-in first-out queue. In any sequence of pushes and
  pops whose pushes do not carry the 16-bit put counter past 65535, no call fails; a push is accepted exactly
  when the queue has room, a pop gives the oldest item and is refused exactly when there is none (dq_spec, on
  a list); so what came out, followed by what is stored, is what was stored and then accepted. (Once the
  counter has wrapped, the test for a full queue no longer works: DataQueue.dq_wrapped_push_accepted.)\<close>

theorem dq_is_bounded_fifo:
  assumes "dq_inv (q, s)" and "unat (dq_put_index q) + dq_pushes cs < 2 ^ 16"
  shows "\<exists>ins outs q' s'. dq_run i cs (q, s) = Some (ins, outs, q', s') \<and> dq_inv (q', s') \<and>
    dq_spec (unat (dq_size q)) cs (dq_items q) = (ins, outs, dq_items q') \<and>
    outs @ dq_items q' = dq_items q @ ins"
  using dq_run_refines [OF assms] dq_spec_fifo by blast

definition queue4 :: "u16 \<Rightarrow> u16 \<Rightarrow> rt_data_queue" where
  "queue4 g p = \<lparr>dq_size = 4, dq_lwm = 0, dq_get_index = g, dq_put_index = p,
     dq_queue = [(1, 1), (2, 2), (3, 3), (4, 4)], dq_evt_notify = None\<rparr>"

theorem dq_is_bounded_fifo_witness:
  "\<exists>q' s'. dq_run 0 [Push_Item (9, 9), Pop_Item, Push_Item (8, 8), Push_Item (7, 7), Push_Item (6, 6), Pop_Item] (queue4 3 5, state1 []) =
     Some ([(9, 9), (8, 8), (7, 7)], [(4, 4), (1, 1)], q', s') \<and> dq_items q' = [(9, 9), (8, 8), (7, 7)]"
proof -
  have inv: "dq_inv (queue4 3 5, state1 [])"
    by (simp add: dq_inv_def dq_wf_def queue4_def notify_ok_None)
  have u: "[0..<2] = [0, Suc 0]" by (simp add: upt_rec)
  have it: "dq_items (queue4 3 5) = [(4, 4), (1, 1)]"
    by (simp add: dq_items_def queue4_def ring_read_def u)
  have sz: "unat (dq_size (queue4 3 5)) = 4" "unat (dq_put_index (queue4 3 5)) = 5" by (simp_all add: queue4_def)
  show ?thesis
    using dq_is_bounded_fifo [OF inv, of "[Push_Item (9, 9), Pop_Item, Push_Item (8, 8), Push_Item (7, 7), Push_Item (6, 6), Pop_Item]" 0]
    by (auto simp: it sz)
qed

text \<open>C18: rt_rbb_blk_alloc for a size from 1 to 2^24 - 1 (which an empty ring does not compare with its
  buffer, so that it must not exceed it there), when it succeeds, gives a place inside the buffer that
  overlaps no listed block, and keeps the layout of the ring. The code also accepts the size 0, for which
  this fails: RingBlk.zero_block_overlaps.\<close>

theorem rbb_alloc_disjoint:
  assumes "rbb_inv r" and "0 < sz" "sz < 2 ^ 24" and "rbb_blk_list r \<noteq> [] \<or> sz \<le> rbb_buf_size r"
  shows "rt_rbb_blk_alloc sz r = Some (None, r) \<or>
    (\<exists>n at r'. rt_rbb_blk_alloc sz r = Some (Some n, r') \<and> rbb_inv r' \<and> blk_buf (blk r' n) = at \<and>
       blk_size (blk r' n) = sz \<and> at + sz \<le> rbb_buf_size r \<and>
       (\<forall>i \<in> set (rbb_blk_list r). at + sz \<le> blk_buf (blk r i) \<or> blk_end r i \<le> at))"
proof -
  have len: "length (rbb_blk_set r) = rbb_blk_max_num r" using assms(1) by (simp add: rbb_inv_def)
  have "rbb_inv (blk_place n at sz r) \<and> blk_buf (blk (blk_place n at sz r) n) = at \<and>
      blk_size (blk (blk_place n at sz r) n) = sz \<and> at + sz \<le> rbb_buf_size r \<and>
      (\<forall>i \<in> set (rbb_blk_list r). at + sz \<le> blk_buf (blk r i) \<or> blk_end r i \<le> at)"
    if ok: "alloc_ok r sz n at" for n at
    using ok alloc_ok_disjoint [OF ok assms(2,3) len] blk_place_new [of n r sz at] len assms(3)
    by (simp add: alloc_ok_def)
  then show ?thesis using alloc_result [OF assms] by blast
qed

definition ring3 :: "rt_rbb" where
  "ring3 = \<lparr>rbb_buf_size = 32, rbb_blk_set =
     [\<lparr>blk_status = RT_RBB_BLK_PUT, blk_buf = 0, blk_size = 20\<rparr>,
      \<lparr>blk_status = RT_RBB_BLK_UNUSED, blk_buf = 0, blk_size = 0\<rparr>,
      \<lparr>blk_status = RT_RBB_BLK_UNUSED, blk_buf = 0, blk_size = 0\<rparr>],
     rbb_blk_max_num = 3, rbb_blk_list = [0]\<rparr>"

lemma ring3_inv: "rbb_inv ring3"
  by (simp add: rbb_inv_def ring3_def in_buf_def blk_end_def) (rule exI [of _ "[0]"], simp)

theorem rbb_alloc_disjoint_witness:
  "\<exists>n r'. rt_rbb_blk_alloc 10 ring3 = Some (Some n, r') \<and> rbb_inv r' \<and> blk_buf (blk r' n) = 20"
proof -
  have run: "rt_rbb_blk_alloc 10 ring3 = Some (Some 1, blk_place 1 20 10 ring3)"
    by (simp add: rt_rbb_blk_alloc_def ring3_def find_empty_blk_in_set_def upt_rec sub32_def Let_def)
  show ?thesis using rbb_alloc_disjoint [OF ring3_inv, of 10] run
    by (auto simp: blk_place_def upd_blk_def ring3_def)
qed


section \<open>Small memory heap\<close>

text \<open>C19: On a fresh heap of at least 12 data bytes, any sequence of releases and of requests of 1 to
  2^32 - 4 bytes runs to its end without a failed assertion or an endless loop, and the pieces of memory the
  client then holds do not overlap. (Both bounds are the code's: with 4 or 8 data bytes rt_malloc can circle
  for ever, SmallMem.rt_malloc_hangs, and a larger size wraps to a small one, SmallMem.rt_malloc_wraps.)\<close>

theorem heap_requests_safe:
  assumes "rt_align32 b = rt_align b" and "e < 2 ^ 32" and "h_used old = 0"
    and "rt_align b + 2 * SIZEOF_STRUCT_MEM + MIN_SIZE_ALIGNED \<le> rt_align_down e"
    and "\<forall>n. Request n \<in> set rs \<longrightarrow> 0 < n \<and> n + RT_ALIGN_SIZE \<le> 2 ^ 32"
  shows "\<exists>h held. serve rt_malloc (\<lambda>a. rt_free (Some (int a))) rs (rt_system_heap_init b e old, []) =
      Some (h, held) \<and> pieces_apart held"
proof -
  have "heap_fine (rt_system_heap_init b e old)"
    using rt_system_heap_init_spec [of b e old] assms(1-4)
    by (auto simp: heap_fine_def SIZEOF_STRUCT_MEM_def MIN_SIZE_ALIGNED_def)
  moreover have "holds (heap_regions (rt_system_heap_init b e old)) []" by (simp add: holds_def)
  moreover have "\<forall>n. Request n \<in> set rs \<longrightarrow> heap_fits n" using assms(5) by (simp add: heap_fits_def)
  ultimately show ?thesis using heap_allocator.serve_safe by blast
qed

theorem heap_requests_safe_witness:
  "\<exists>h held. serve rt_malloc (\<lambda>a. rt_free (Some (int a))) [Request 20, Request 3, Release 1, Request 50]
      (rt_system_heap_init 1 1001 full_heap\<lparr>h_used := 0\<rparr>, []) = Some (h, held) \<and> pieces_apart held"
proof -
  have eq: "rt_system_heap_init 1 1001 full_heap\<lparr>h_used := 0\<rparr> = rt_system_heap_init 1 1001 (full_heap\<lparr>h_used := 0\<rparr>)"
    by (simp add: rt_system_heap_init_def Let_def)
  show ?thesis
    unfolding eq by (rule heap_requests_safe)
      (auto simp: rt_align32_def rt_align_def rt_align_down_def RT_ALIGN_SIZE_def trunc_u_def
        SIZEOF_STRUCT_MEM_def MIN_SIZE_ALIGNED_def)
qed

text \<open>C20: rt_free gives the block back and merges it with free neighbours: afterwards no two free blocks are
  adjacent, the statistics agree with the used blocks, lfree is the lowest free block, and every other
  used block is as before.\<close>

theorem heap_free_merges:
  assumes "heap_ok h xs" and "lfree_lowest h xs" and "m \<in> in_use h xs"
  shows "\<exists>h' xs'. rt_free (Some (int (m + SIZEOF_STRUCT_MEM))) h = Some h' \<and> heap_ok h' xs' \<and>
    lfree_lowest h' xs' \<and> released h xs m h' xs'"
  using rt_free_spec [OF assms(1,3)] assms(2) by metis

theorem heap_free_merges_witness:
  "\<exists>h' xs'. rt_free (Some 12) full_heap = Some h' \<and> heap_ok h' xs' \<and> in_use h' xs' = {}"
  using heap_free_merges [OF full_heap_ok, of 0]
  by (auto simp: full_heap_live released_def SIZEOF_STRUCT_MEM_def)

section \<open>Modbus slave\<close>

text \<open>C21: The table-driven checksum of a Modbus frame is the CRC-16 computed bit by bit from its polynomial, for
  every frame.\<close>

theorem modbus_crc_is_crc16: "usMBCRC16 frame = crc16 frame"
  by (rule usMBCRC16_eq)

text \<open>C22: A slave answers a request to read holding registers that lie in its table with their values, high
  bytes first, framed with its address and the checksum; it is then ready for the next request and no
  table has changed.\<close>

theorem modbus_reads_holding:
  assumes "slave_ready a s" and "s_handlers s = xFuncHandlers" and "1 \<le> unat n" "unat n \<le> 0x7D"
    and "unat start + unat n \<le> S_REG_HOLDING_NREGS"
  shows "\<exists>t. cycle (rtu_frame a ([3] @ be16 start @ be16 n)) s = Some t \<and>
    replied a (3 # ucast (n * 2) # regs_bytes (take (unat n) (drop (unat start) (s_hold s)))) (s_hold s) s t"
  by (rule cycle_read_holding [OF assms])

theorem modbus_reads_holding_witness:
  "\<exists>t. cycle (rtu_frame 1 [3, 0, 5, 0, 2]) slave_running = Some t \<and> s_tx t = rtu_frame 1 [3, 4, 0, 5, 0, 6] \<and>
     slave_ready 1 t"
proof -
  have b: "be16 5 = [0, 5]" "be16 2 = [0, 2]" "S_REG_HOLDING_NREGS = 100" by (simp_all add: be16_def drop_bit_eq_div table_limits)
  have "take 2 (drop 5 (s_hold slave_running)) = [5, 6]"
    by (simp add: slave_running_def slave_one_def drop_map take_map numeral_eq_Suc upt_rec del: upt_Suc)
  then have "regs_bytes (take 2 (drop 5 (s_hold slave_running))) = [0, 5, 0, 6]"
    by (simp add: drop_bit_eq_div)
  then show ?thesis
    using modbus_reads_holding [OF slave_running_ready, of 2 5] by (auto simp: replied_def b)
qed

text \<open>C23: What is written to the holding registers is read back: after a request that writes a list of
  values, a request to read the same registers is answered with exactly those values.\<close>

theorem modbus_write_read:
  assumes "slave_ready a s" and "s_handlers s = xFuncHandlers" and "1 \<le> length vs" "length vs \<le> 0x78"
    and "unat start + length vs \<le> S_REG_HOLDING_NREGS"
  defines "n \<equiv> of_nat (length vs) :: u16"
  shows "\<exists>t u. cycle (rtu_frame a ([16] @ be16 start @ be16 n @ [ucast (2 * n)] @ regs_bytes vs)) s = Some t \<and>
    s_tx t = s_tx s @ rtu_frame a ([16] @ be16 start @ be16 n) \<and>
    cycle (rtu_frame a ([3] @ be16 start @ be16 n)) t = Some u \<and>
    s_tx u = s_tx t @ rtu_frame a (3 # ucast (n * 2) # regs_bytes vs) \<and> slave_ready a u"
proof -
  have n: "unat n = length vs" using assms(4) by (simp add: n_def unat_of_nat)
  obtain t where t: "cycle (rtu_frame a ([16] @ be16 start @ be16 n @ [ucast (2 * n)] @ regs_bytes vs)) s = Some t"
    "replied a ([16] @ be16 start @ be16 n)
      (take (unat start) (s_hold s) @ vs @ drop (unat start + length vs) (s_hold s)) s t"
    using cycle_write_holding [OF assms(1-5)] unfolding n_def by blast
  then have r: "slave_ready a t" "s_handlers t = xFuncHandlers"
    "take (unat n) (drop (unat start) (s_hold t)) = vs"
    using assms(1,2,5) n by (auto simp: replied_def slave_ready_def)
  have "1 \<le> unat n" "unat n \<le> 0x7D" "unat start + unat n \<le> S_REG_HOLDING_NREGS" using assms(3-5) n by simp_all
  from cycle_read_holding [OF r(1,2) this] show ?thesis using t r(3) by (auto simp: replied_def)
qed

theorem modbus_write_read_witness:
  "\<exists>t u. cycle (rtu_frame 1 [16, 0, 5, 0, 2, 4, 0, 7, 0, 8]) slave_running = Some t \<and>
     cycle (rtu_frame 1 [3, 0, 5, 0, 2]) t = Some u \<and> s_tx u = s_tx t @ rtu_frame 1 [3, 4, 0, 7, 0, 8]"
proof -
  have b: "be16 5 = [0, 5]" "be16 2 = [0, 2]" "regs_bytes [7, 8] = [0, 7, 0, 8]"
    by (simp_all add: be16_def drop_bit_eq_div)
  show ?thesis
    using modbus_write_read [OF slave_running_ready, of "[7, 8]" 5]
    by (simp add: b table_limits) blast
qed



text \<open>C25: A frame in which any one byte, the checksum included, has been damaged is ignored: nothing is
  executed or answered, and the slave is ready for the next frame.\<close>

theorem modbus_ignores_damage:
  assumes "slave_ready a s" and "rtu_frame b pdu = xs @ x # ys" and "x \<noteq> y"
    and "length pdu + 3 \<le> MB_SER_PDU_SIZE_MAX"
  shows "\<exists>t. take_request (xs @ y # ys) s = Some t \<and> slave_ready a t \<and> s_tx t = s_tx s \<and>
    s_handlers t = s_handlers s \<and> s_hold t = s_hold s \<and> s_inp t = s_inp s \<and> s_coil t = s_coil s"
  by (rule take_request_damaged [OF assms])

theorem modbus_ignores_damage_witness:
  "\<exists>t c d. rtu_frame 1 [3, 0, 5, 0, 2] = [1] @ 3 # [0, 5, 0, 2, c, d] \<and>
     take_request ([1] @ 6 # [0, 5, 0, 2, c, d]) slave_running = Some t \<and> s_hold t = s_hold slave_running"
proof -
  obtain c d where f: "rtu_frame 1 [3, 0, 5, 0, 2] = [1] @ 3 # [0, 5, 0, 2, c, d]"
    by (auto simp: rtu_frame_def Let_def)
  from modbus_ignores_damage [OF slave_running_ready(1) this, of 6] f show ?thesis
    by (auto simp: ser_sizes)
qed

text \<open>C26: From the start of the stack on, however received bytes, ends of pauses, requests of the
  transmitter and polls of the main loop follow one another, no interrupt fails an assertion of the state
  machines or leaves the frame buffer.\<close>

theorem modbus_interrupts_safe:
  assumes "mb_initialised s0" and "mb_step\<^sup>*\<^sup>* (snd (eMBEnable s0)) s"
  shows "(s_rx_on s \<longrightarrow> (\<forall>b. \<exists>t. xMBRTUReceiveFSM b s = Some t)) \<and>
    (s_timer_on s \<longrightarrow> (\<exists>t. xMBRTUTimerT35Expired s = Some t)) \<and>
    (s_tx_on s \<longrightarrow> (\<exists>t. xMBRTUTransmitFSM s = Some t)) \<and> length (s_buf s) = MB_SER_PDU_SIZE_MAX"
proof -
  have "line_inv s" by (rule line.steps [OF assms(2) enable_line_inv [OF assms(1)]])
  then show ?thesis using line_inv_progress by (auto simp: line_inv_def)
qed

theorem modbus_interrupts_safe_witness:
  "\<exists>t. xMBRTUReceiveFSM 7 (snd (eMBEnable slave_one)) = Some t"
proof -
  have "s_rx_on (snd (eMBEnable slave_one))" by (simp add: eMBEnable_def slave_one_def eMBRTUStart_def mb_port)
  then show ?thesis using modbus_interrupts_safe [OF slave_one_initialised rtranclp.rtrancl_refl] by blast
qed






section \<open>Devices, the serial driver, the idle thread\<close>

text \<open>C29: Registering a device under a name that another device has is refused and changes nothing; under a
  new name it succeeds, the device is found by that name, is closed, and the names of all devices stay
  different.\<close>

theorem device_names_stay_unique:
  assumes "device_names_ok r" and "\<not> registered r a" "cstring nm bs" "length (ob_name (rg_obj r a)) = RT_NAME_MAX"
  shows "if take RT_NAME_MAX bs \<in> name_of r ` set (devices r)
    then rt_device_register (Some a) nm flags (r, ds) = Some (- RT_ERROR, r, ds)
    else \<exists>r' ds'. rt_device_register (Some a) nm flags (r, ds) = Some (RT_EOK, r', ds') \<and>
      joins RT_Object_Class_Device a bs r r' \<and> device_names_ok r' \<and> rt_device_find nm r' = Some (Some a) \<and>
      dv_ref_count (ds' a) = 0 \<and> dv_open_flag (ds' a) = 0 \<and> dv_flag (ds' a) = flags"
  by (rule rt_device_register_spec [OF assms])

theorem device_names_stay_unique_witness:
  "\<exists>r' ds'. rt_device_register (Some 7) [117, 49, 0] 3 (registry1, \<lambda>_. fst serial1) = Some (RT_EOK, r', ds') \<and>
    rt_device_find [117, 49, 0] r' = Some (Some 7)"
proof -
  have c: "cstring [117, 49, 0] [117, 49]" by (simp add: cstring_def)
  have "\<not> take RT_NAME_MAX [117, 49] \<in> name_of registry1 ` set (devices registry1)" by (simp add: registry1_ok(3))
  then show ?thesis
    using device_names_stay_unique [OF registry1_ok(1) registry1_ok(2) c registry1_ok(4), of 7 3 "\<lambda>_. fst serial1"]
    by (simp only: if_False) blast
qed

text \<open>C30: The users of a serial device are counted: after any run of opens with the same flags and of closes
  in which nobody closes what is not open, the reference count is the number of users, and the receive and
  the transmit structure exist exactly while there is a user and the flags ask for them; so the last close
  frees them.\<close>

theorem serial_sessions_balance:
  assumes "users_after bs 0 = Some n" and "activated d" "dv_flag (fst d) AND RT_DEVICE_FLAG_STANDALONE = 0"
    and "dv_ref_count (fst d) = 0" and "serial_idle oflag d"
  shows "\<exists>v r s. device_session (serial_ops u i (roomy ev)) oflag bs d = Some (v, r, s) \<and>
    unat (dv_ref_count v) = n \<and>
    (sr_rx r \<noteq> None \<longleftrightarrow> 0 < n \<and> (oflag AND RT_DEVICE_FLAG_INT_RX \<noteq> 0 \<or> oflag AND RT_DEVICE_FLAG_DMA_RX \<noteq> 0)) \<and>
    (sr_tx r \<noteq> None \<longleftrightarrow> 0 < n \<and> (oflag AND RT_DEVICE_FLAG_INT_TX \<noteq> 0 \<or> oflag AND RT_DEVICE_FLAG_DMA_TX \<noteq> 0))"
proof -
  have "device_driver.users (serial_idle oflag) (serial_busy oflag) 0 d"
    using assms(2-5) by (simp add: serial_driver.users_def)
  then obtain d' where d': "device_session (serial_ops u i (roomy ev)) oflag bs d = Some d'"
    "device_driver.users (serial_idle oflag) (serial_busy oflag) n d'"
    using serial_driver.session_users [OF assms(1)] by blast
  obtain v r s where d: "d' = (v, r, s)" by (cases d') auto
  show ?thesis using d' unfolding d
    by (auto simp: serial_driver.users_def serial_idle_def serial_busy_def rx_mode_def tx_mode_def flag_bits
      split: if_splits)
qed

theorem serial_sessions_balance_witness:
  "\<exists>v r s. device_session (serial_ops log_uart 0 (roomy serial_env1)) 0x103 [True, True, False, False] serial1 =
     Some (v, r, s) \<and> dv_ref_count v = 0 \<and> sr_rx r = None"
proof -
  have "activated serial1" "serial_idle 0x103 serial1" "dv_ref_count (fst serial1) = 0"
    "dv_flag (fst serial1) AND RT_DEVICE_FLAG_STANDALONE = 0"
    by (simp_all add: activated_def serial_idle_def serial_supports_def serial1_def device_flags)
  from serial_sessions_balance [OF _ this(1,4,3,2), of "[True, True, False, False]" 0 log_uart 0 serial_env1]
  show ?thesis by (auto simp: unat_eq_zero)
qed

text \<open>C31: The receive buffer of a serial device, in interrupt mode and in DMA mode: whatever order bytes
  arrive in and are read, what has been read and what is still stored is a subsequence of what arrived, and
  is all of it when the reader keeps up; the interrupt mode holds one byte less than the buffer.\<close>

theorem serial_receives_in_order:
  assumes "2 \<le> z" "z \<le> 2 ^ 15" and "\<forall>xs. Inl xs \<in> set es \<longrightarrow> length xs \<le> z - 1"
  shows "(\<exists>ys f. fifo_run (serial_rx_isr z) (serial_int_rx z) es (serial_fifo_open z) = Some (ys, f) \<and>
      subseq (ys @ int_content z f) (arrived es) \<and>
      (keeps_up (z - 1) es 0 \<longrightarrow> ys @ int_content z f = arrived es)) \<and>
    (\<exists>ys f. fifo_run (\<lambda>xs f. Some (serial_dma_receive z xs f)) (serial_dma_rx z) es (serial_fifo_open z) = Some (ys, f) \<and>
      subseq (ys @ dma_content z f) (arrived es) \<and>
      (keeps_up z es 0 \<longrightarrow> ys @ dma_content z f = arrived es))"
proof -
  have i: "int_inv z (serial_fifo_open z)" "int_content z (serial_fifo_open z) = []"
    using assms(1,2) by (simp_all add: int_inv_def int_content_def serial_fifo_open_def serial_rx_length_def)
  have d: "dma_inv z (serial_fifo_open z)" "dma_content z (serial_fifo_open z) = []"
    using assms(1,2)
    by (simp_all add: dma_inv_def dma_content_def serial_fifo_open_def serial_fifo_calc_recved_len_def)
  have len: "\<forall>xs. Inl xs \<in> set es \<longrightarrow> length xs \<le> z" using assms(3) by fastforce
  show ?thesis
    using serial_int.run_in_order [OF i(1) assms(3)] serial_dma.run_in_order [OF d(1) len] i(2) d(2) by auto
qed

theorem serial_receives_in_order_witness:
  "\<exists>ys f. fifo_run (serial_rx_isr 4) (serial_int_rx 4) [Inl [65, 66], Inr 1, Inl [67]] (serial_fifo_open 4) = Some (ys, f) \<and>
     ys @ int_content 4 f = [65, 66, 67]"
  using serial_receives_in_order [of 4 "[Inl [65, 66], Inr 1, Inl [67]]"] by (auto simp: arrived_def)

text \<open>C32: DMA transmission, from an idle line with an empty queue, when every writer has started the controller
  before the next one queues its buffer, no writer finds the eight places of the queue taken, an end is only
  signalled while a transmission is under way, and the writes do not carry the 16-bit put counter of the queue
  past 65535: then all buffers are sent, each once and in the order of the writes, those whose end was
  signalled and then the one under way, and the controller runs exactly while something is queued. (Writers
  that interleave lose a buffer, SerialTx.two_writers_lose; the wrap of the counter,
  DataQueue.dq_wrapped_push_accepted.)\<close>

theorem serial_dma_sends_in_order:
  assumes "dq_inv (td_queue td, s)" "dq_size (td_queue td) = 8" "dq_items (td_queue td) = []" "\<not> td_activated td"
    and "logs_dma u out" "out h = []" and "dma_fits es 0"
    and "unat (dq_put_index (td_queue td)) + length (dma_writes es) < 2 ^ 16"
  shows "\<exists>td' h' s' sent. dma_run u i es (td, h, s) = Some (td', h', s') \<and>
    dma_writes es = sent @ dq_items (td_queue td') \<and> out h' = sent @ take 1 (dq_items (td_queue td')) \<and>
    (td_activated td' \<longleftrightarrow> dq_items (td_queue td') \<noteq> [])"
proof -
  have "dma_line out [] [] td h s" using assms by (simp add: dma_line_def)
  then show ?thesis
    using dma_run_line [of out "[]" "[]" td h s u es i] assms(3,5,7,8) by (auto simp: dma_line_def)
qed

theorem serial_dma_sends_in_order_witness:
  "\<exists>td' h' s' sent. dma_run log_uart 0 [Dma_Write (16, 4), Dma_Write (32, 2), Dma_Done] (dma1, ([], []), state1 []) =
     Some (td', h', s') \<and> [(16, 4), (32, 2)] = sent @ dq_items (td_queue td')"
proof -
  have "dq_size (td_queue dma1) = 8" "\<not> td_activated dma1" "dq_put_index (td_queue dma1) = 0"
    by (simp_all add: dma1_def)
  then show ?thesis
    using serial_dma_sends_in_order [OF dma1_ok(1) _ dma1_ok(2) _ log_uart_dma,
        of "([], [])" "[Dma_Write (16, 4), Dma_Write (32, 2), Dma_Done]" 0] by auto
qed

text \<open>C33: Interrupt-driven transmission does not lose or repeat the byte the UART refuses: the writer waits
  with that byte and the ones behind it; the transmit interrupt makes it runnable again, and when the UART
  then takes them it sends exactly these and returns.\<close>

theorem serial_writer_resumes:
  assumes "kernel_ok s" and "\<not> cp_flag c" and "k_q s (cpq i) = []" and "k_cur s = Some t"
    and "th_stat s t = RT_THREAD_RUNNING" and "k_nest s = 0"
    and "uo_putc u x h = (- 1, h1)" and "sr_tx r = Some (Tx_Fifo c)" and "uart_takes u (x # xs) (sr_hw r) h2"
  shows "\<exists>s1 c' s2. serial_int_tx u i (x # xs) c h s = Some (Wait (t, x # xs, c, h1) s1) \<and>
    th_stat s1 t = RT_THREAD_SUSPEND \<and>
    rt_hw_serial_isr u i TX_DONE (r, s1) = Some (r\<lparr>sr_tx := Some (Tx_Fifo c')\<rparr>, s2) \<and>
    (th_stat s2 t = RT_THREAD_READY \<or> th_stat s2 t = RT_THREAD_RUNNING) \<and>
    serial_int_tx_wake u i (t, x # xs) c' (sr_hw r) s2 = Some (Ret (c, h2) s2)"
proof -
  obtain s1 where s1: "serial_int_tx u i (x # xs) c h s = Some (Wait (t, x # xs, c, h1) s1)" "kernel_ok s1"
    "th_stat s1 t = RT_THREAD_SUSPEND" "k_q s1 (cpq i) = [t]" "t_error (k_thr s1 t) = RT_EOK"
    using serial_int_tx_stalls [OF assms(7,1-6)] by blast
  then show ?thesis using serial_int_tx_resumes [OF s1(2) assms(2) s1(4,5) assms(8,9)] by blast
qed

theorem serial_writer_resumes_witness:
  "\<exists>s1. serial_int_tx busy_uart 0 [65, 66] \<lparr>cp_flag = False\<rparr> ([], []) (state1 []) =
     Some (Wait (1, [65, 66], \<lparr>cp_flag = False\<rparr>, ([], [])) s1) \<and> th_stat s1 1 = RT_THREAD_SUSPEND"
proof -
  let ?r = "(fst (snd serial1))\<lparr>sr_tx := Some (Tx_Fifo \<lparr>cp_flag = False\<rparr>), sr_hw := ([1], [])\<rparr>"
  have "uart_takes busy_uart [65, 66] (sr_hw ?r) ([1], [])" by (simp add: busy_uart_def)
  then show ?thesis
    using serial_writer_resumes [of "state1 []" "\<lparr>cp_flag = False\<rparr>" 0 1 busy_uart 65 "([], [])" "([], [])" ?r "[66]" "([1], [])"]
    by (auto simp: busy_uart_def)
qed

text \<open>C34: The terminal settings of a serial port survive being read and written back: for every
  configuration the terminal interface can express (a standard speed, 5 to 8 data bits, one or two stop
  bits, any parity), TCGETA followed by TCSETA configures the UART exactly as it is.\<close>

theorem termios_settings_survive:
  assumes "termios_config (sr_config r)" and "uo_configure u = Some cfg"
  shows "\<exists>tio. rt_serial_control u ev TCGETA (Arg_Termios tio0) (v, r, s) = Some (RT_EOK, Arg_Termios tio, v, r, s) \<and>
    rt_serial_control u ev TCSETA (Arg_Termios tio) (v, r, s) =
      Some (RT_EOK, Arg_Termios tio, v, r\<lparr>sr_hw := snd (cfg (sr_config r) (sr_hw r))\<rparr>, s)"
  using tc_set_get [OF assms(1), of "se_console ev"] assms(2)
  by (simp add: rt_serial_control_def configure_hw_def)

theorem termios_settings_survive_witness:
  "\<exists>tio. rt_serial_control log_uart serial_env1 TCGETA (Arg_Termios \<lparr>c_iflag = 1, c_oflag = 1, c_cflag = 1, c_lflag = 1\<rparr>)
      serial1 = Some (RT_EOK, Arg_Termios tio, serial1)"
proof -
  have "termios_config (sr_config (fst (snd serial1)))"
    by (simp add: termios_config_def serial1_def serial_config1_def speed_table_def)
  then show ?thesis
    using termios_settings_survive [of "fst (snd serial1)" log_uart, where v = "fst serial1" and s = "snd (snd serial1)"]
    by (simp add: log_uart_def) blast
qed

text \<open>C35: When no closed thread but the last in the list is a static object, one call of the idle thread's
  clean-up ends without a failure and does all the clean-ups: the list of the closed threads is empty
  afterwards, they are out of the object list, and every other thread's object stays. (Behind a static one the
  code stops: Idle.rt_thread_idle_excute_spec.)\<close>

theorem idle_cleans_up:
  assumes "kernel_inv s" and "k_lock s = 0" and "k_nest s = 0" and "cleanup_ok cl"
    and "\<forall>t \<in> set (butlast (k_q s DefunctQ)). \<not> t_static (k_thr s t)"
  shows "\<exists>s'. rt_thread_idle_excute cl s = Some s' \<and> kernel_inv s' \<and> k_q s' DefunctQ = [] \<and>
    (\<forall>t. t_attached (k_thr s' t) \<longleftrightarrow> t_attached (k_thr s t) \<and> t \<notin> set (k_q s DefunctQ))"
  by (rule idle_cleans_all [OF assms])

theorem idle_cleans_up_witness:
  "\<exists>s s'. k_q s DefunctQ = [4] \<and> rt_thread_idle_excute (\<lambda>t s. Some s) s = Some s' \<and> k_q s' DefunctQ = [] \<and>
    \<not> t_attached (k_thr s' 4)"
proof -
  obtain s where "kernel_inv s" "k_lock s = 0" "k_nest s = 0" "k_q s DefunctQ = [4]"
    using closed_thread by blast
  then show ?thesis using idle_cleans_up [of s "\<lambda>t s. Some s"] by (auto simp: cleanup_ok_def)
qed

text \<open>C36: Whatever threads do with the pins, in any order (modes, writes, handlers attached and detached,
  lines switched on and off), an interrupt vector is enabled exactly when one of the lines it serves is
  enabled: switching a line off never cuts off a line that shares its vector, and the last one switches
  the vector off.\<close>

theorem exti_vectors_follow_lines:
  assumes "gpio_ok g" and "pin_step\<^sup>*\<^sup>* g g'"
  shows "length (gp_hdr_tab g') = 16 \<and>
    (\<forall>v. gp_nvic g' v \<longleftrightarrow> (\<exists>i<16. pin_irq_map ! i = v \<and> bit (gp_enable_mask g') i))"
  using pin_steps_ok [OF assms(2,1)] by (simp add: gpio_ok_def)

theorem exti_vectors_follow_lines_witness:
  "\<exists>g1 g2. rt_pin_attach_irq (GET_PIN 0 7) 2 (Some 1) 5 gpio1 = Some (0, g1) \<and>
    rt_pin_irq_enable (GET_PIN 0 7) 1 g1 = Some (0, g2) \<and>
    (\<forall>v. gp_nvic g2 v \<longleftrightarrow> (\<exists>i<16. pin_irq_map ! i = v \<and> bit (gp_enable_mask g2) i))"
proof -
  obtain g1 g2 where g: "rt_pin_attach_irq (GET_PIN 0 7) 2 (Some 1) 5 gpio1 = Some (0, g1)"
    "rt_pin_irq_enable (GET_PIN 0 7) 1 g1 = Some (0, g2)"
    using attach_enable [OF gpio1_ok(1,2), of 0 7 2, where f = 1 and args = 5 and ?mode2.0 = 0 and ?hdr2.0 = None
        and ?args2.0 = 0] gpio1_ok(3) [of 7] by auto
  then have "pin_step\<^sup>*\<^sup>* gpio1 g2"
    by (meson pin_step.intros(3,5) r_into_rtranclp rtranclp.rtrancl_into_rtrancl)
  from exti_vectors_follow_lines [OF gpio1_ok(1) this] g show ?thesis by blast
qed

text \<open>C37: The board's LEDs and relay. The initialisation switches all three off; after that any sequence of
  the application's commands succeeds and does to the levels of the three pins what its commands say, each
  to its own pin.\<close>

theorem board_follows_commands:
  assumes "gp_registered g"
  shows "\<exists>g1 g2 g3. led_init g = Some g1 \<and> relay_init g1 = Some g2 \<and> board_run xs g2 = Some g3 \<and>
    board_levels g2 = (1, 1, 1) \<and> board_levels g3 = fold board_spec xs (1, 1, 1)"
proof -
  obtain g2 where g2: "do { g1 \<leftarrow> led_init g; relay_init g1 } = Some g2" "board_ready g2" "board_levels g2 = (1, 1, 1)"
    using board_init_spec [OF assms] by blast
  then obtain g1 where "led_init g = Some g1" "relay_init g1 = Some g2" by (auto split: Option.bind_splits)
  then show ?thesis using board_run_spec [OF g2(2), of xs] g2(3) by auto
qed

theorem board_follows_commands_witness:
  "\<exists>g1 g2 g3. led_init gpio1 = Some g1 \<and> relay_init g1 = Some g2 \<and>
    board_run [Led0_Open, Led1_Toggle, Relay_Open, Led0_Toggle] g2 = Some g3 \<and> board_levels g3 = (1, 0, 0)"
  using board_follows_commands [OF gpio1_ok(2), of "[Led0_Open, Led1_Toggle, Relay_Open, Led0_Toggle]"] by auto

section \<open>Formatted printing\<close>

text \<open>C38: Formatted output stays in its buffer. For every format whose arguments fit it and whose text is,
  with the format, shorter than 2 ^ 30 characters and would end inside the address space when written from the
  start of the buffer, rt_snprintf into a buffer of at least the given size, which is not zero, puts the text
  of the format there, cut to one less than the size, then the terminating zero, and touches nothing behind
  it; it returns the length of the text when the text was not cut, and at least the size when it was. (Beyond
  these lengths the write pointer wraps around and passes its check against the end of the buffer again, or
  the length is returned as a negative number: wrapped_pointer_writes_below and long_text_negative in
  Printf.)\<close>

theorem snprintf_stays_in_buffer:
  assumes "format_text fmt args = Some out" and "0 < sz" and "unat base + unat sz \<le> 2 ^ 32" and "unat sz \<le> length buf"
    and "length out + length fmt < 2 ^ 30" and "unat base + length out + length fmt < 2 ^ 32"
  shows "\<exists>n. rt_snprintf base buf sz fmt args =
      Some (n, take (unat sz - 1) out @ CHR 0x00 # drop (Suc (min (unat sz - 1) (length out))) buf) \<and>
    (if length out < unat sz then n = int (length out) else int (unat sz) \<le> n)"
  using snprintf_text [OF assms(1-4)] assms(5,6) by (simp only: text_in_def text_fits_def simp_thms)

theorem snprintf_stays_in_buffer_witness:
  "\<exists>n. rt_snprintf 0x20000000 ''abcdefgh'' 4 ''%s-%3s'' [Val_Str (Some ''hello''), Val_Str (Some ''A'')] =
      Some (n, ''hel'' @ CHR 0x00 # ''efgh'') \<and> 4 \<le> n"
proof -
  have two: "replicate 2 CHR '' '' = ''  ''" by (simp add: numeral_2_eq_2)
  have t: "format_text ''%s-%3s'' [Val_Str (Some ''hello''), Val_Str (Some ''A'')] = Some ''hello-  A''"
    by (simp add: printf_directive_def printf_width_def printf_precision_def printf_qualifier_def isdigit_def Let_def
        directive_text_def str_text_def justify_def has_flag_def two)
  have c: "take 3 ''hello-  A'' = ''hel''" "drop 4 ''abcdefgh'' = ''efgh''" by code_simp+
  show ?thesis
    using snprintf_stays_in_buffer [OF t, of 4 "0x20000000" "''abcdefgh''"] c by auto
qed

text \<open>C39: A number that rt_sprintf has printed can be read back from the buffer: in decimal with its sign for
  every 32-bit number, the smallest included, in decimal without sign, and in hexadecimal.\<close>

theorem printed_numbers_read_back:
  assumes "11 < length buf" and "unat base + length buf \<le> 2 ^ 32" and "2 \<le> base"
  shows "(\<exists>n b. rt_sprintf base buf ''%d'' [Val_Word x] = Some (n, b) \<and> int_value (take (nat n) b) = sint x) \<and>
    (\<exists>n b. rt_sprintf base buf ''%u'' [Val_Word x] = Some (n, b) \<and> digits_value 10 (take (nat n) b) = unat x) \<and>
    (\<exists>n b. rt_sprintf base buf ''%x'' [Val_Word x] = Some (n, b) \<and> digits_value 16 (take (nat n) b) = unat x)"
proof -
  have r: "\<exists>n b. rt_sprintf base buf fmt [Val_Word x] = Some (n, b) \<and> take (nat n) b = out"
    if "format_text fmt [Val_Word x] = Some out" "length out \<le> 11" "length fmt = 2" for fmt out
    using sprintf_text [OF that(1) _ assms(2,3)] that(2,3) assms(1) by simp
  show ?thesis
    using r [OF plain_texts(1) plain_lengths(1)] r [OF plain_texts(2) plain_lengths(2)] r [OF plain_texts(3) plain_lengths(3)]
      plain_values [of x] by force
qed

theorem printed_numbers_read_back_witness:
  "\<exists>n b. rt_sprintf 0x20000000 (replicate 16 CHR ''x'') ''%d'' [Val_Word 0x80000000] = Some (n, b) \<and>
    int_value (take (nat n) b) = - 2147483648"
  using printed_numbers_read_back [of "replicate 16 CHR ''x''" "0x20000000" "0x80000000"] by simp

section \<open>The transmission modes of Modbus\<close>

text \<open>C40: Two Modbus stations understand each other, in the RTU mode and in the ASCII mode: whatever PDUs of
  up to 253 bytes they send to each other over a silent line, in any order of directions and with any
  addresses, every frame is accepted by the other one as what was sent, and the line is silent again.\<close>

theorem stations_understand_each_other:
  assumes "\<forall>x\<in>set xs. pdu_fits (snd (snd x))"
  shows "(line_idle s \<and> line_idle t \<longrightarrow> (\<exists>s' t'. talk rtu_send rtu_deliver rtu_accepted xs (s, t) =
      Some (map snd xs, s', t') \<and> line_idle s' \<and> line_idle t')) \<and>
    (ascii_idle u \<and> ascii_idle v \<longrightarrow> (\<exists>u' v'. talk ascii_send ascii_receive ascii_accepted xs (u, v) =
      Some (map snd xs, u', v') \<and> ascii_idle u' \<and> ascii_idle v'))"
  using rtu_talk [OF _ _ assms] ascii_talk [OF _ _ assms] by blast

theorem stations_understand_each_other_witness:
  "\<exists>s' t' u' v'. talk rtu_send rtu_deliver rtu_accepted [(True, 5, [3, 0, 1]), (False, 5, [131, 2])] (slave_one, slave_one) =
      Some ([(5, [3, 0, 1]), (5, [131, 2])], s', t') \<and>
    talk ascii_send ascii_receive ascii_accepted [(True, 5, [3, 0, 1]), (False, 5, [131, 2])] (ascii_one, ascii_one) =
      Some ([(5, [3, 0, 1]), (5, [131, 2])], u', v')"
proof -
  have p: "\<forall>x\<in>set [(True, 5, [3, 0, 1]), (False, 5, [131, 2])]. pdu_fits (snd (snd x))" by (simp add: pdu_fits_def)
  show ?thesis
    using stations_understand_each_other [OF p, of slave_one slave_one ascii_one ascii_one] ascii_one_idle
    by (simp only: list.map snd_conv simp_thms) blast
qed


end
